(* ===== verification/Prelude.thy ===== *)
theory Prelude
  imports Main "HOL-Library.Word" "HOL-Library.List_Lexorder"
begin

text \<open>
  Shared vocabulary of the development: the machine types of the Rust sources, the
  little-endian conversions of the standard library (\<open>to_le_bytes\<close>, \<open>from_le_bytes\<close>), the
  \<open>?\<close> operator on \<open>Result\<close>, and the generic lemmas on lists, words and results that every
  component uses.

  A byte string (\<open>&[u8]\<close>, \<open>Vec<u8>\<close>) is a list of 8-bit words, ordered
  lexicographically as Rust's \<open>Ord\<close> on slices orders it (HOL-Library.List_Lexorder).  A
  \<open>String\<close> is the list of its UTF-8 bytes; that the bytes are valid UTF-8 is a predicate.
  \<open>usize\<close> is \<open>nat\<close>: it only ever measures buffers that exist in memory, and every place
  where the code guards an addition with \<open>checked_add\<close> takes the same branch in \<open>nat\<close> as it
  would on a 64-bit target (the sum exceeds the buffer length in both cases).  \<open>u16\<close>,
  \<open>u32\<close> and \<open>u64\<close> are words of their width; \<open>f32\<close> and \<open>f64\<close> are their bit patterns.
\<close>

unbundle bit_operations_syntax

named_theorems codec_simps \<open>what a writer appends and how a reader reads it back\<close>
named_theorems codec_steps \<open>one step of a decoder over what an encoder wrote\<close>
named_theorems codec_elims \<open>undoing one step of a decoder that succeeded\<close>
named_theorems codec_dests \<open>what a step that succeeded says of the bytes\<close>

type_synonym u8 = "8 word"
type_synonym u16 = "16 word"
type_synonym u32 = "32 word"
type_synonym u64 = "64 word"
type_synonym bytes = "u8 list"
type_synonym rust_string = bytes

text \<open>A byte-string literal \<open>b"..."\<close>.\<close>

definition ascii :: "string \<Rightarrow> bytes" where
  "ascii s = map of_char s"

subsection \<open>Results and the question-mark operator\<close>

text \<open>\<open>rbind m f\<close> is \<open>f(m?)\<close>: an error returns early, a value is passed on.\<close>

definition rbind :: "'e + 'a \<Rightarrow> ('a \<Rightarrow> 'e + 'b) \<Rightarrow> 'e + 'b" where
  "rbind m f = (case m of Inl e \<Rightarrow> Inl e | Inr a \<Rightarrow> f a)"

lemma rbind_Inl [simp]: "rbind (Inl e) f = Inl e"
  and rbind_Inr [simp]: "rbind (Inr a) f = f a"
  by (simp_all add: rbind_def)

lemma rbind_eq_Inr_iff: "rbind m f = Inr b \<longleftrightarrow> (\<exists>a. m = Inr a \<and> f a = Inr b)"
  by (cases m) auto

lemma rbind_eq_Inl_iff: "rbind m f = Inl e \<longleftrightarrow> m = Inl e \<or> (\<exists>a. m = Inr a \<and> f a = Inl e)"
  by (cases m) auto

lemma rbind_InrE [elim]:
  assumes "rbind m f = Inr b"
  obtains a where "m = Inr a" "f a = Inr b"
  using assms by (cases m) auto

lemma guard_InrE:
  assumes "(if b then Inl e else m) = Inr y"
  obtains "\<not> b" "m = Inr y"
  using assms by (cases b) auto

lemma rbind_cong [fundef_cong]:
  "m = m' \<Longrightarrow> (\<And>a. m' = Inr a \<Longrightarrow> f a = g a) \<Longrightarrow> rbind m f = rbind m' g"
  by (cases m') auto

lemma rbind_assoc: "rbind (rbind m f) g = rbind m (\<lambda>x. rbind (f x) g)"
  by (cases m) auto

definition map_err :: "('e \<Rightarrow> 'f) \<Rightarrow> 'e + 'a \<Rightarrow> 'f + 'a" where
  "map_err h m = (case m of Inl e \<Rightarrow> Inl (h e) | Inr a \<Rightarrow> Inr a)"

lemma map_err_simps [simp]:
  "map_err h (Inl e) = Inl (h e)" "map_err h (Inr a) = Inr a"
  by (simp_all add: map_err_def)

lemma map_err_eq_Inr [simp]: "map_err h m = Inr a \<longleftrightarrow> m = Inr a"
  by (cases m) auto

definition ok_or :: "'a option \<Rightarrow> 'e \<Rightarrow> 'e + 'a" where
  "ok_or x e = (case x of None \<Rightarrow> Inl e | Some a \<Rightarrow> Inr a)"

lemma ok_or_simps [simp]: "ok_or None e = Inl e" "ok_or (Some a) e = Inr a"
  by (simp_all add: ok_or_def)

definition is_ok :: "'e + 'a \<Rightarrow> bool" where
  "is_ok m = (case m of Inl _ \<Rightarrow> False | Inr _ \<Rightarrow> True)"

lemma is_ok_simps [simp]: "\<not> is_ok (Inl e)" "is_ok (Inr a)"
  by (simp_all add: is_ok_def)

lemma is_ok_rbind: "is_ok (rbind m f) \<longleftrightarrow> (\<exists>a. m = Inr a \<and> is_ok (f a))"
  by (cases m) auto

lemma is_ok_rbindI: "is_ok m \<Longrightarrow> (\<And>a. is_ok (f a)) \<Longrightarrow> is_ok (rbind m f)"
  by (cases m) auto

lemma is_ok_iff: "is_ok m \<longleftrightarrow> (\<exists>a. m = Inr a)"
  by (cases m) auto

lemma is_okE: assumes "is_ok m" obtains a where "m = Inr a"
  using assms by (cases m) auto

text \<open>\<open>for x in xs { ...? }\<close>: a loop over a list whose body may return early.\<close>

fun try_fold :: "('a \<Rightarrow> 's \<Rightarrow> 'e + 's) \<Rightarrow> 'a list \<Rightarrow> 's \<Rightarrow> 'e + 's" where
  "try_fold f [] s = Inr s"
| "try_fold f (x # xs) s = rbind (f x s) (try_fold f xs)"

lemma try_fold_cong [fundef_cong]:
  assumes "xs = ys" and "s = t" and "\<And>x u. x \<in> set ys \<Longrightarrow> f x u = g x u"
  shows "try_fold f xs s = try_fold g ys t"
  using assms(3) unfolding assms(1,2)
proof (induction ys arbitrary: t)
  case Nil
  then show ?case by simp
next
  case (Cons y ys)
  then have "try_fold f ys = try_fold g ys" by (intro ext) simp
  with Cons.prems show ?case by simp
qed

lemma try_fold_append: "try_fold f (xs @ ys) s = rbind (try_fold f xs s) (try_fold f ys)"
  by (induction xs arbitrary: s) (auto simp: rbind_assoc cong: rbind_cong)

subsection \<open>Slices\<close>

text \<open>\<open>slice xs s e\<close> is \<open>xs.get(s..e)\<close>.\<close>

definition slice :: "'a list \<Rightarrow> nat \<Rightarrow> nat \<Rightarrow> 'a list option" where
  "slice xs s e = (if s \<le> e \<and> e \<le> length xs then Some (take (e - s) (drop s xs)) else None)"

lemma take_drop_glue: "take b (drop a xs) @ drop (a + b) xs = drop a xs"
  by (metis append_take_drop_id drop_drop add.commute)

lemma slice_append_mid:
  "length a = s \<Longrightarrow> e = s + length b \<Longrightarrow> slice (a @ b @ c) s e = Some b"
  by (simp add: slice_def)

lemma slice_Some_length: "slice xs s e = Some ys \<Longrightarrow> length ys = e - s \<and> e \<le> length xs"
  by (auto simp: slice_def split: if_splits)

lemma slice_SomeD:
  assumes "slice xs s e = Some ys"
  shows "xs = take s xs @ ys @ drop e xs" and "length (take s xs) = s"
proof -
  from assms have le: "s \<le> e" "e \<le> length xs" and ys: "ys = take (e - s) (drop s xs)"
    by (auto simp: slice_def split: if_splits)
  have "drop s xs = ys @ drop (e - s) (drop s xs)"
    unfolding ys by (rule append_take_drop_id [symmetric])
  moreover have "drop (e - s) (drop s xs) = drop e xs"
    using le by simp
  ultimately show "xs = take s xs @ ys @ drop e xs"
    by (metis append_take_drop_id)
  show "length (take s xs) = s" using le by simp
qed

subsection \<open>Little-endian bytes of machine words\<close>

fun to_le :: "nat \<Rightarrow> 'a::len word \<Rightarrow> bytes" where
  "to_le 0 w = []"
| "to_le (Suc n) w = ucast w # to_le n (drop_bit 8 w)"

fun from_le :: "bytes \<Rightarrow> 'a::len word" where
  "from_le [] = 0"
| "from_le (b # bs) = ucast b OR push_bit 8 (from_le bs)"

lemma length_to_le [simp]: "length (to_le n w) = n"
  by (induction n arbitrary: w) auto

lemma to_le_eq_Nil [simp]: "to_le n w = [] \<longleftrightarrow> n = 0"
  by (cases n) auto

lemma nth_to_le: "i < n \<Longrightarrow> to_le n w ! i = ucast (drop_bit (8 * i) w)"
proof (induction n arbitrary: w i)
  case 0
  then show ?case by simp
next
  case (Suc n)
  then show ?case by (cases i) (auto simp: algebra_simps)
qed

lemma bit_from_le:
  "bit (from_le bs :: 'a::len word) i \<longleftrightarrow>
     i < LENGTH('a) \<and> i div 8 < length bs \<and> bit (bs ! (i div 8)) (i mod 8)"
proof (induction bs arbitrary: i)
  case Nil
  then show ?case by simp
next
  case (Cons b bs)
  show ?case
  proof (cases "i < 8")
    case True
    then show ?thesis
      by (auto simp: bit_simps)
  next
    case False
    then have "\<not> bit b i" by (auto dest: bit_imp_le_length)
    moreover have "i div 8 = Suc ((i - 8) div 8)" and "i mod 8 = (i - 8) mod 8"
      using False by (simp_all add: div_if mod_if)
    ultimately show ?thesis
      using False by (auto simp: bit_simps Cons.IH)
  qed
qed

lemma from_le_to_le:
  assumes "8 * n = LENGTH('a::len)"
  shows "from_le (to_le n (w :: 'a word)) = w"
proof (rule bit_word_eqI)
  fix i
  assume i: "i < LENGTH('a)"
  then have "i div 8 < n" and "8 * (i div 8) + i mod 8 = i"
    using assms by auto
  with i show "bit (from_le (to_le n w) :: 'a word) i = bit w i"
    by (simp add: bit_from_le nth_to_le bit_simps)
qed

lemma to_le_from_le:
  assumes "length bs = n" and "8 * n = LENGTH('a::len)"
  shows "to_le n (from_le bs :: 'a word) = bs"
proof (rule nth_equalityI)
  show "length (to_le n (from_le bs :: 'a word)) = length bs"
    using assms by simp
next
  fix i
  assume "i < length (to_le n (from_le bs :: 'a word))"
  then have i: "i < n" by simp
  show "to_le n (from_le bs :: 'a word) ! i = bs ! i"
  proof (rule bit_word_eqI)
    fix j
    assume "j < LENGTH(8)"
    then have j: "j < 8" by simp
    then have "(8 * i + j) div 8 = i" and "(8 * i + j) mod 8 = j"
      by simp_all
    moreover have "8 * i + j < LENGTH('a)" using i j assms(2) by linarith
    ultimately show "bit (to_le n (from_le bs :: 'a word) ! i) j = bit (bs ! i) j"
      using i j assms by (simp add: nth_to_le bit_simps bit_from_le)
  qed
qed

lemma from_le_inject:
  assumes "length a = n" "length b = n" "8 * n = LENGTH('a::len)"
    and "(from_le a :: 'a word) = from_le b"
  shows "a = b"
  using assms to_le_from_le by metis

subsection \<open>Arithmetic at a width\<close>

definition u64_of :: "nat \<Rightarrow> u64" where
  "u64_of n = of_nat n"

definition sat_add :: "u64 \<Rightarrow> u64 \<Rightarrow> u64" where
  "sat_add a b = (if unat a + unat b < 2 ^ 64 then a + b else -1)"

definition checked_add :: "u64 \<Rightarrow> u64 \<Rightarrow> u64 option" where
  "checked_add a b = (if unat a + unat b < 2 ^ 64 then Some (a + b) else None)"

lemma unat_u64_of [simp]: "n < 2 ^ 64 \<Longrightarrow> unat (u64_of n) = n"
  by (simp add: u64_of_def unat_of_nat)

lemma u64_of_unat [simp]: "u64_of (unat w) = w"
  by (simp add: u64_of_def)

lemma unat_sat_add: "unat (sat_add a b) = min (unat a + unat b) (2 ^ 64 - 1)"
proof (cases "unat a + unat b < 2 ^ 64")
  case True
  then have "unat (a + b) = unat a + unat b"
    by (simp add: unat_word_ariths)
  with True show ?thesis by (simp add: sat_add_def)
next
  case False
  then show ?thesis by (simp add: sat_add_def unsigned_minus_1_eq_mask mask_eq_exp_minus_1)
qed

lemma checked_add_Some: "checked_add a b = Some c \<Longrightarrow> unat c = unat a + unat b"
  by (auto simp: checked_add_def unat_word_ariths split: if_splits)

lemma unat_lt_64 [simp]: "unat (w :: u64) < 2 ^ 64"
  using unsigned_less [of w] by simp

lemma unat_lt_32 [simp]: "unat (w :: u32) < 2 ^ 32"
  using unsigned_less [of w] by simp

lemma unat_widen [simp]: "unat (ucast (w :: u32) :: u64) = unat w"
proof -
  have "unat w < 2 ^ 64" using unat_lt_32 [of w] by simp
  then show ?thesis by (simp add: unsigned_ucast_eq take_bit_nat_eq_self)
qed

lemma widen_narrow: "unat g < 2 ^ 32 \<Longrightarrow> (ucast (ucast (g :: u64) :: u32) :: u64) = g"
  by (simp only: word_unat_eq_iff unat_widen) (simp add: unsigned_ucast_eq take_bit_nat_eq_self)

lemma narrow_widen [simp]: "(ucast (ucast (w :: u32) :: u64) :: u32) = w"
  by (rule bit_word_eqI) (auto simp: bit_simps)

lemma sat_add_0 [simp]: "sat_add a 0 = a"
  using unat_lt_64 [of a] by (simp add: sat_add_def)

lemma u64_of_0 [simp]: "u64_of 0 = 0"
  by (simp add: u64_of_def)

lemma unat_minus_one_64: "unat (- 1 :: u64) = 2 ^ 64 - 1"
  by (simp add: unsigned_minus_1_eq_mask mask_eq_exp_minus_1)

lemma sat_add_1: "i \<noteq> - 1 \<Longrightarrow> sat_add i 1 = i + 1"
proof -
  assume "i \<noteq> - 1"
  then have "unat i \<noteq> 2 ^ 64 - 1" using unat_minus_one_64 by (metis word_unat_eq_iff)
  then have "unat i + 1 < 2 ^ 64" using unat_lt_64 [of i] by simp
  then show ?thesis by (simp add: sat_add_def)
qed

end
