(* ===== verification/Format_Error.thy ===== *)
theory Format_Error
  imports Prelude
begin

text \<open>
  The errors of the format crate (\<open>isha-vector-db-format/src/error.rs\<close>).  Every decoder of
  the crate returns \<open>format_error + 'a\<close>.  Field names (\<open>&'static str\<close>) are strings.
\<close>

datatype malformed_kind =
    ReservedNotZero
  | HeaderTooShort
  | UnknownFileKind bytes
  | UnknownFlags u16
  | UnknownValueTag u8
  | UnknownDiscriminant string u8
  | NonCanonicalVarint
  | InvalidUtf8
  | KeysNotSorted
  | DuplicateKey
  | DepthExceeded nat
  | ZeroNotAllowed string
  | NonFiniteFloat
  | Inconsistent string

text \<open>
  The fields are positional, in the order of the source: \<open>BadMagic expected found\<close>,
  \<open>UnsupportedVersion found min_readable current\<close>, \<open>ChecksumMismatch offset expected found\<close>,
  \<open>Truncated offset needed available\<close>, \<open>LengthExceedsInput offset claimed available\<close> and
  \<open>Malformed offset kind\<close>.
\<close>

datatype format_error =
    BadMagic bytes bytes
  | UnsupportedVersion u16 u16 u16
  | ChecksumMismatch u64 u32 u32
  | Truncated u64 u64 u64
  | LengthExceedsInput u64 u64 u64
  | Malformed u64 malformed_kind

type_synonym 'a fresult = "format_error + 'a"

definition is_truncation :: "format_error \<Rightarrow> bool" where
  "is_truncation e = (case e of Truncated _ _ _ \<Rightarrow> True | _ \<Rightarrow> False)"

lemma is_truncation_simps [simp]:
  "\<not> is_truncation (BadMagic a b)"
  "\<not> is_truncation (UnsupportedVersion u v w)"
  "\<not> is_truncation (ChecksumMismatch off ec fc)"
  "is_truncation (Truncated off n av)"
  "\<not> is_truncation (LengthExceedsInput off cl av)"
  "\<not> is_truncation (Malformed off k)"
  by (simp_all add: is_truncation_def)

end
