(* ===== verification/Db_Error.thy ===== *)
theory Db_Error
  imports Format_Error
begin

text \<open>
  The error tree of the engine (\<open>core/src/error/mod.rs\<close>, \<open>core/src/error/code.rs\<close>): every
  operation of the core returns \<open>db_error + 'a\<close>.  Variants carry the same fields as the
  source, positionally; a message that the code formats from other values (\<open>detail\<close>,
  \<open>slot_a\<close>) is kept as those values.  Shown: the numeric bands classify errors, and decode
  failures always surface as corruption that asks for repair.
\<close>

type_synonym db_path = rust_string

datatype path_rejection =
    PathEmpty | RelativeComponent | PathIllegalCharacter | Absolute | ComponentTooLong | PathTooLong

datatype recoverability = UserError | Retryable | NeedsRepair | Fatal

datatype config_error =
    InvalidDatabasePath rust_string rust_string
  | InvalidField string rust_string string
  | UnsupportedByBackend string string

datatype lifecycle_error =
    DatabaseAlreadyOpen rust_string "rust_string option"
  | DatabaseNotFound rust_string
  | DatabaseClosed
  | ReadOnly string
  | NotADatabase rust_string

datatype not_found_error =
    CollectionNotFound rust_string
  | DocumentNotFound rust_string rust_string
  | IndexNotFound rust_string rust_string

datatype conflict_error =
    CollectionExists rust_string
  | DuplicateId rust_string rust_string

datatype non_finite_kind = Nan | PosInf | NegInf

datatype id_rejection = IdEmpty | IdTooLong | IdIllegalCharacter | NotUtf8

datatype name_rejection = NameEmpty | NameTooLong | NameIllegalCharacter | Reserved

datatype validation_error =
    InvalidVectorDimension rust_string u32 u32
  | InvalidVectorData non_finite_kind nat
  | InvalidDimension u32 u32
  | InvalidDocumentId id_rejection nat nat
  | InvalidCollectionName rust_string name_rejection
  | InvalidPath rust_string path_rejection
  | MetadataTooLarge rust_string nat nat
  | MetadataDepthExceeded nat nat
  | TopKOutOfRange nat nat
  | FilterTooComplex nat nat nat nat
  | BatchTooLarge nat nat

datatype index_error =
    OperationFailed rust_string string rust_string
  | BuildFailed rust_string rust_string
  | KindUnavailable rust_string "rust_string list"

datatype storage_op =
    OpOpen | OpRead | OpWrite | OpAppend | OpSync | OpTruncate | OpMetadata | OpRemove | OpRename
  | OpCreateDir | OpListDir | OpMap | OpLock

datatype storage_error =
    Io db_path storage_op string
  | PermissionDenied db_path storage_op
  | InsufficientStorage u64 "u64 option"
  | StorageNotFound db_path
  | AlreadyExists db_path
  | Unsupported storage_op string
  | LockUnavailable db_path

text \<open>What a \<open>detail\<close> message is formatted from.\<close>

datatype detail = DText string | DLengthClaim u64 u64 | DKind malformed_kind | DFormat format_error

text \<open>What \<open>SlotStatus::describe\<close> prints: absence, the format error, or the sequence.\<close>

datatype slot_desc = DescMissing | DescInvalid format_error | DescValid u64

datatype corruption_error =
    BadMagicIn db_path bytes bytes
  | ChecksumMismatchIn db_path u64 u32 u32
  | TruncatedFile db_path u64 u64
  | NoValidManifest db_path slot_desc slot_desc
  | MissingSegment rust_string u64
  | UnsupportedFormatVersion db_path u16 u16 u16
  | MalformedStructure db_path u64 detail
  | InconsistentIndex rust_string detail

datatype resource_error =
    LimitReached string u64 u64
  | OutOfMemory u64

datatype db_error =
    Config config_error
  | Lifecycle lifecycle_error
  | NotFound not_found_error
  | Conflict conflict_error
  | Validation validation_error
  | IndexErr index_error
  | StorageErr storage_error
  | Corruption corruption_error
  | Transaction transaction_error
  | ResourceExhausted resource_error
  | Cancelled
  | Internal rust_string
and transaction_error =
    Aborted nat nat db_error
  | WriteConflict rust_string rust_string

type_synonym 'a db_result = "db_error + 'a"

subsection \<open>Numeric codes\<close>

definition code_band :: "nat \<Rightarrow> nat" where
  "code_band c = c div 1000"

primrec config_code :: "config_error \<Rightarrow> nat" where
  "config_code (InvalidDatabasePath p r) = 1001"
| "config_code (InvalidField f v c) = 1002"
| "config_code (UnsupportedByBackend r m) = 1003"

primrec lifecycle_code :: "lifecycle_error \<Rightarrow> nat" where
  "lifecycle_code (DatabaseAlreadyOpen p h) = 2001"
| "lifecycle_code (DatabaseNotFound p) = 2002"
| "lifecycle_code DatabaseClosed = 2003"
| "lifecycle_code (ReadOnly op) = 2004"
| "lifecycle_code (NotADatabase p) = 2005"

primrec not_found_code :: "not_found_error \<Rightarrow> nat" where
  "not_found_code (CollectionNotFound n) = 3001"
| "not_found_code (DocumentNotFound c i) = 3002"
| "not_found_code (IndexNotFound c k) = 3003"

primrec conflict_code :: "conflict_error \<Rightarrow> nat" where
  "conflict_code (CollectionExists n) = 4001"
| "conflict_code (DuplicateId c i) = 4002"

primrec validation_code :: "validation_error \<Rightarrow> nat" where
  "validation_code (InvalidVectorDimension c e a) = 4003"
| "validation_code (InvalidVectorData r i) = 4004"
| "validation_code (InvalidDimension d m) = 4013"
| "validation_code (InvalidDocumentId r l m) = 4005"
| "validation_code (InvalidCollectionName n r) = 4006"
| "validation_code (InvalidPath p r) = 4012"
| "validation_code (MetadataTooLarge f s m) = 4007"
| "validation_code (MetadataDepthExceeded d m) = 4008"
| "validation_code (TopKOutOfRange r m) = 4009"
| "validation_code (FilterTooComplex n d mn md) = 4010"
| "validation_code (BatchTooLarge n m) = 4011"

primrec index_err_code :: "index_error \<Rightarrow> nat" where
  "index_err_code (OperationFailed k op d) = 7001"
| "index_err_code (BuildFailed k d) = 7002"
| "index_err_code (KindUnavailable k av) = 7003"

primrec storage_code :: "storage_error \<Rightarrow> nat" where
  "storage_code (Io p op d) = 5001"
| "storage_code (PermissionDenied p op) = 5002"
| "storage_code (InsufficientStorage r av) = 5003"
| "storage_code (StorageNotFound p) = 5004"
| "storage_code (AlreadyExists p) = 5005"
| "storage_code (Unsupported op b) = 5006"
| "storage_code (LockUnavailable p) = 5007"

primrec corruption_code :: "corruption_error \<Rightarrow> nat" where
  "corruption_code (BadMagicIn p e f) = 6001"
| "corruption_code (ChecksumMismatchIn p off e f) = 6002"
| "corruption_code (TruncatedFile p e a) = 6003"
| "corruption_code (NoValidManifest p a b) = 6004"
| "corruption_code (MissingSegment c s) = 6005"
| "corruption_code (UnsupportedFormatVersion p f mr c) = 6006"
| "corruption_code (MalformedStructure p off d) = 6007"
| "corruption_code (InconsistentIndex c d) = 6008"

fun transaction_code :: "transaction_error \<Rightarrow> nat" where
  "transaction_code (Aborted i n c) = 8001"
| "transaction_code (WriteConflict c i) = 8002"

fun err_code :: "db_error \<Rightarrow> nat" where
  "err_code (Config e) = config_code e"
| "err_code (Lifecycle e) = lifecycle_code e"
| "err_code (NotFound e) = not_found_code e"
| "err_code (Conflict e) = conflict_code e"
| "err_code (Validation e) = validation_code e"
| "err_code (IndexErr e) = index_err_code e"
| "err_code (StorageErr e) = storage_code e"
| "err_code (Corruption e) = corruption_code e"
| "err_code (Transaction e) = transaction_code e"
| "err_code (ResourceExhausted e) = 9002"
| "err_code Cancelled = 9001"
| "err_code (Internal m) = 9999"

fun err_recoverability :: "db_error \<Rightarrow> recoverability" where
  "err_recoverability (Config e) = UserError"
| "err_recoverability (Validation e) = UserError"
| "err_recoverability (Conflict e) = UserError"
| "err_recoverability (NotFound e) = UserError"
| "err_recoverability (Lifecycle e) = (case e of DatabaseAlreadyOpen _ _ \<Rightarrow> Retryable | _ \<Rightarrow> Fatal)"
| "err_recoverability (StorageErr e) =
     (case e of LockUnavailable _ \<Rightarrow> Retryable | Io _ _ _ \<Rightarrow> Retryable
      | InsufficientStorage _ _ \<Rightarrow> Retryable | _ \<Rightarrow> Fatal)"
| "err_recoverability (IndexErr e) = NeedsRepair"
| "err_recoverability (Corruption e) = NeedsRepair"
| "err_recoverability (Transaction e) = Retryable"
| "err_recoverability (ResourceExhausted e) = Retryable"
| "err_recoverability Cancelled = Retryable"
| "err_recoverability (Internal m) = Fatal"

definition is_corruption :: "db_error \<Rightarrow> bool" where
  "is_corruption e = (case e of Corruption _ \<Rightarrow> True | _ \<Rightarrow> False)"

subsection \<open>Format errors\<close>

definition from_format_at :: "format_error \<Rightarrow> db_path \<Rightarrow> db_error" where
  "from_format_at e path =
     (case e of
        BadMagic expected found \<Rightarrow> Corruption (BadMagicIn path expected found)
      | UnsupportedVersion found min_readable current \<Rightarrow>
          Corruption (UnsupportedFormatVersion path found min_readable current)
      | ChecksumMismatch off expected found \<Rightarrow> Corruption (ChecksumMismatchIn path off expected found)
      | Truncated off needed available \<Rightarrow> Corruption (TruncatedFile path (sat_add off needed) available)
      | LengthExceedsInput off claimed available \<Rightarrow>
          Corruption (MalformedStructure path off (DLengthClaim claimed available))
      | Malformed off kind \<Rightarrow> Corruption (MalformedStructure path off (DKind kind)))"

definition from_format :: "format_error \<Rightarrow> db_error" where
  "from_format e = from_format_at e []"

lemma from_format_corruption: "is_corruption (from_format_at e p)" "err_recoverability (from_format_at e p) = NeedsRepair"
  by (cases e; simp add: from_format_at_def is_corruption_def)+

lemma is_corruption_band: "is_corruption e \<longleftrightarrow> code_band (err_code e) = 6"
proof (cases e)
  case (Config x)
  then show ?thesis by (cases x) (simp_all add: is_corruption_def code_band_def)
next
  case (Lifecycle x)
  then show ?thesis by (cases x) (simp_all add: is_corruption_def code_band_def)
next
  case (NotFound x)
  then show ?thesis by (cases x) (simp_all add: is_corruption_def code_band_def)
next
  case (Conflict x)
  then show ?thesis by (cases x) (simp_all add: is_corruption_def code_band_def)
next
  case (Validation x)
  then show ?thesis by (cases x) (simp_all add: is_corruption_def code_band_def)
next
  case (IndexErr x)
  then show ?thesis by (cases x) (simp_all add: is_corruption_def code_band_def)
next
  case (StorageErr x)
  then show ?thesis by (cases x) (simp_all add: is_corruption_def code_band_def)
next
  case (Corruption x)
  then show ?thesis by (cases x) (simp_all add: is_corruption_def code_band_def)
next
  case (Transaction x)
  then show ?thesis by (cases x) (simp_all add: is_corruption_def code_band_def)
qed (simp_all add: is_corruption_def code_band_def)

end
