(* ===== verification/Varint.thy ===== *)
theory Varint
  imports Prelude
begin

text \<open>
  LEB128 variable-length integers (\<open>isha-vector-db-format/src/varint.rs\<close>).  The loops of the
  source are recursive functions over its loop variables; \<open>varint_bytes\<close> is the mathematical
  description of the encoding that both loops are proved against.
\<close>

datatype varint_error = VTruncated | VOverflow | VNonCanonical

definition MAX_LEN_U64 :: nat where
  "MAX_LEN_U64 = 10"

lemma unat_drop_bit_7: "unat (drop_bit 7 (v :: u64)) = unat v div 128"
  by (simp add: drop_bit_eq_div unat_div_distrib)

lemma drop_bit_7_decreases: "v \<noteq> 0 \<Longrightarrow> unat (drop_bit 7 (v :: u64)) < unat v"
  by (simp add: unat_drop_bit_7 unat_gt_0)

function encoded_len_loop :: "nat \<Rightarrow> u64 \<Rightarrow> nat" where
  "encoded_len_loop len v =
     (if v \<noteq> 0 then encoded_len_loop (len + 1) (drop_bit 7 v) else len)"
  by pat_completeness auto
termination
  by (relation "measure (\<lambda>(len, v). unat v)") (auto intro: drop_bit_7_decreases)

definition encoded_len :: "u64 \<Rightarrow> nat" where
  "encoded_len value = encoded_len_loop 1 (drop_bit 7 value)"

function encode_u64_loop :: "u64 \<Rightarrow> bytes \<Rightarrow> nat \<Rightarrow> bytes \<times> nat" where
  "encode_u64_loop v out written =
     (let byte = (ucast (v AND 0x7F) :: u8);
          v' = drop_bit 7 v;
          byte' = (if v' \<noteq> 0 then byte OR 0x80 else byte);
          out' = out @ [byte'];
          written' = written + 1
      in if v' = 0 then (out', written') else encode_u64_loop v' out' written')"
  by pat_completeness auto
termination
  by (relation "measure (\<lambda>(v, out, written). unat v)")
     (auto intro: drop_bit_7_decreases)

definition encode_u64 :: "u64 \<Rightarrow> bytes \<Rightarrow> bytes \<times> nat" where
  "encode_u64 value out = encode_u64_loop value out 0"

fun decode_u64_loop :: "bytes \<Rightarrow> nat \<Rightarrow> u64 \<Rightarrow> nat \<Rightarrow> varint_error + (u64 \<times> nat)" where
  "decode_u64_loop [] i value shift = Inl VTruncated"
| "decode_u64_loop (byte # rest) i value shift =
     (if i \<ge> MAX_LEN_U64 then Inl VOverflow
      else let payload = (ucast (byte AND 0x7F) :: u64) in
        if shift = 63 \<and> payload > 1 then Inl VOverflow
        else let value' = value OR push_bit shift payload in
          if byte AND 0x80 = 0 then
            (if i > 0 \<and> payload = 0 then Inl VNonCanonical
             else if encoded_len value' \<noteq> i + 1 then Inl VNonCanonical
             else Inr (value', i + 1))
          else decode_u64_loop rest (i + 1) value' (shift + 7))"

definition decode_u64 :: "bytes \<Rightarrow> varint_error + (u64 \<times> nat)" where
  "decode_u64 buf = decode_u64_loop buf 0 0 0"

text \<open>\<open>i64\<close> is the same 64 bits; \<open>value >> 63\<close> on a signed value replicates the sign.\<close>

definition zigzag :: "u64 \<Rightarrow> u64" where
  "zigzag value = push_bit 1 value XOR signed_drop_bit 63 value"

definition unzigzag :: "u64 \<Rightarrow> u64" where
  "unzigzag value = drop_bit 1 value XOR - (value AND 1)"

definition encode_i64 :: "u64 \<Rightarrow> bytes \<Rightarrow> bytes \<times> nat" where
  "encode_i64 value out = encode_u64 (zigzag value) out"

definition decode_i64 :: "bytes \<Rightarrow> varint_error + (u64 \<times> nat)" where
  "decode_i64 buf = (case decode_u64 buf of Inl e \<Rightarrow> Inl e | Inr (v, n) \<Rightarrow> Inr (unzigzag v, n))"

subsection \<open>The encoding as a function of the value\<close>

function varint_bytes :: "u64 \<Rightarrow> bytes" where
  "varint_bytes v =
     (if drop_bit 7 v = 0 then [ucast (v AND 0x7F)]
      else (ucast (v AND 0x7F) OR 0x80) # varint_bytes (drop_bit 7 v))"
  by pat_completeness auto
termination
  by (relation "measure unat") (auto intro: drop_bit_7_decreases)

declare encoded_len_loop.simps [simp del] encode_u64_loop.simps [simp del]
  varint_bytes.simps [simp del]

lemma varint_bytes_nonempty [simp]: "varint_bytes v \<noteq> []"
  by (subst varint_bytes.simps) simp

lemma length_varint_bytes_pos [simp]: "0 < length (varint_bytes v)"
  by simp

lemma encoded_len_loop_eq:
  "encoded_len_loop len v = len + (if v = 0 then 0 else length (varint_bytes v))"
proof (induction len v rule: encoded_len_loop.induct)
  case (1 len v)
  show ?case
    using "1.IH"
    by (auto simp: encoded_len_loop.simps [of len v] varint_bytes.simps [of v])
qed

lemma encoded_len_eq: "encoded_len v = length (varint_bytes v)"
  by (simp add: encoded_len_def encoded_len_loop_eq varint_bytes.simps [of v])

lemma encode_u64_loop_eq:
  "encode_u64_loop v out written = (out @ varint_bytes v, written + length (varint_bytes v))"
proof (induction v out written rule: encode_u64_loop.induct)
  case (1 v out written)
  show ?case
    using "1.IH"
    by (auto simp: encode_u64_loop.simps [of v out written] varint_bytes.simps [of v] Let_def)
qed

lemma encode_u64_eq: "encode_u64 v out = (out @ varint_bytes v, length (varint_bytes v))"
  by (simp add: encode_u64_def encode_u64_loop_eq)

subsection \<open>Bits carried by one byte\<close>

lemma low7_eq: "(v AND 0x7F :: 'a::len word) = take_bit 7 v"
  using take_bit_eq_mask [of 7 v] by (simp add: mask_eq_exp_minus_1)

lemma bit_0x80_int [simp]: "bit (0x80 :: int) n \<longleftrightarrow> n = 7"
  using bit_exp_iff [where 'a = int, of 7 n] by (auto simp: bit_simps)

lemma high_clear_iff: "byte AND 0x80 = (0 :: u8) \<longleftrightarrow> \<not> bit byte 7"
  using and_exp_eq_0_iff_not_bit [of byte 7] by simp

lemma payload_back:
  "(ucast (take_bit 7 (ucast (take_bit 7 byte :: u8) :: u64)) :: u8) = take_bit 7 byte"
  by (rule bit_word_eqI) (auto simp: bit_simps)

lemma payload_back': "(ucast (ucast (take_bit 7 byte :: u8) :: u64) :: u8) = take_bit 7 byte"
  by (rule bit_word_eqI) (auto simp: bit_simps)

lemma byte_split_clear: "\<not> bit byte 7 \<Longrightarrow> take_bit 7 byte = (byte :: u8)"
proof (rule bit_word_eqI)
  fix n
  assume "\<not> bit byte 7" "n < LENGTH(8)"
  moreover have "n < 7 \<or> n = 7" using \<open>n < LENGTH(8)\<close> by auto
  ultimately show "bit (take_bit 7 byte) n = bit byte n"
    by (auto simp: bit_simps)
qed

lemma byte_split_set: "bit byte 7 \<Longrightarrow> take_bit 7 byte OR 0x80 = (byte :: u8)"
proof (rule bit_word_eqI)
  fix n
  assume "bit byte 7" "n < LENGTH(8)"
  moreover have "n < 7 \<or> n = 7" using \<open>n < LENGTH(8)\<close> by auto
  ultimately show "bit (take_bit 7 byte OR 0x80) n = bit byte n"
    by (auto simp: bit_simps)
qed

lemma take_bit_ident: "drop_bit n (v :: 'a::len word) = 0 \<Longrightarrow> take_bit n v = v"
  using bits_ident [of n v] by simp

lemma bit_bound_64: "bit (v :: u64) n \<Longrightarrow> n < 64"
  using bit_imp_le_length [of v n] by simp

lemma drop_bit_beyond: "64 \<le> n \<Longrightarrow> drop_bit n (v :: u64) = 0"
  by (rule bit_word_eqI) (auto simp: bit_simps dest: bit_bound_64)

lemma drop_63_le_1: "drop_bit 63 (v :: u64) \<le> 1"
proof -
  have "unat (drop_bit 63 v) = unat v div 2 ^ 63"
    by (simp add: drop_bit_eq_div unat_div_distrib)
  then show ?thesis
    using unat_lt_64 [of v] by (simp add: word_le_nat_alt)
qed

lemma accumulate:
  "take_bit k V OR push_bit k (take_bit 7 (drop_bit k V)) = take_bit (k + 7) (V :: u64)"
proof (rule bit_word_eqI)
  fix n
  assume "n < LENGTH(64)"
  show "bit (take_bit k V OR push_bit k (take_bit 7 (drop_bit k V))) n = bit (take_bit (k + 7) V) n"
    by (auto simp: bit_simps dest: bit_bound_64)
qed

lemma ucast_payload: "(ucast (take_bit 7 (ucast (take_bit 7 v :: u64) :: u8)) :: u64) = take_bit 7 v"
  by (rule bit_word_eqI) (auto simp: bit_simps)


subsection \<open>Decoding inverts encoding\<close>

lemma varint_bytes_length_shift:
  assumes "i = 0 \<or> drop_bit (7 * i) V \<noteq> 0"
  shows "length (varint_bytes V) = i + length (varint_bytes (drop_bit (7 * i) V))"
  using assms
proof (induction i)
  case 0
  then show ?case by simp
next
  case (Suc i)
  have step: "drop_bit 7 (drop_bit (7 * i) V) = drop_bit (7 * Suc i) V"
    by (simp add: add.commute)
  with Suc.prems have nz: "drop_bit 7 (drop_bit (7 * i) V) \<noteq> 0" by simp
  then have "drop_bit (7 * i) V \<noteq> 0" by (metis drop_bit_of_0)
  with Suc.IH have "length (varint_bytes V) = i + length (varint_bytes (drop_bit (7 * i) V))"
    by simp
  with nz step show ?case by (simp add: varint_bytes.simps [of "drop_bit (7 * i) V"])
qed

lemma decode_u64_loop_varint_bytes:
  assumes "i = 0 \<or> drop_bit (7 * i) V \<noteq> 0"
  shows "decode_u64_loop (varint_bytes (drop_bit (7 * i) V) @ rest) i (take_bit (7 * i) V) (7 * i)
       = Inr (V, length (varint_bytes V))"
  using assms
proof (induction "10 - i" arbitrary: i)
  case 0
  then have "64 \<le> 7 * i" by simp
  then have "drop_bit (7 * i) V = 0" by (rule drop_bit_beyond)
  with 0 show ?case by simp
next
  case (Suc k)
  let ?v = "drop_bit (7 * i) V"
  have i: "i < 10" using Suc.hyps(2) by simp
  have step: "drop_bit 7 ?v = drop_bit (7 * Suc i) V"
    by (simp add: add.commute)
  have acc: "take_bit (7 * i) V OR push_bit (7 * i) (take_bit 7 ?v) = take_bit (7 * Suc i) V"
    using accumulate [of "7 * i" V] by (simp add: add.commute)
  have "take_bit 7 ?v \<le> ?v"
    by (simp add: word_le_nat_alt take_bit_eq_mod unat_mod_distrib)
  then have small: "\<not> (7 * i = 63 \<and> take_bit 7 ?v > 1)"
    using drop_63_le_1 [of V] by (auto simp: not_less dest: order_trans)
  show ?case
  proof (cases "drop_bit 7 ?v = 0")
    case True
    then have whole: "take_bit (7 * Suc i) V = V" and self: "take_bit 7 ?v = ?v"
      using step by (auto intro: take_bit_ident)
    have len: "length (varint_bytes V) = i + 1"
      using varint_bytes_length_shift [OF Suc.prems] True
      by (simp add: varint_bytes.simps [of ?v])
    have enc: "varint_bytes ?v = [ucast (take_bit 7 ?v)]"
      using True by (simp add: varint_bytes.simps [of ?v] low7_eq)
    have clear: "(ucast (take_bit 7 ?v) :: u8) AND 0x80 = 0"
      by (simp add: high_clear_iff bit_simps)
    have "i = 0 \<or> take_bit 7 ?v \<noteq> 0"
      using Suc.prems self by auto
    with i small len clear whole show ?thesis
      unfolding enc by (simp add: MAX_LEN_U64_def low7_eq ucast_payload acc encoded_len_eq Let_def
          del: mult_Suc_right)
  next
    case False
    have enc: "varint_bytes ?v = (ucast (take_bit 7 ?v) OR 0x80) # varint_bytes (drop_bit (7 * Suc i) V)"
      using False step by (simp add: varint_bytes.simps [of ?v] low7_eq)
    have set: "((ucast (take_bit 7 ?v) :: u8) OR 0x80) AND 0x80 \<noteq> 0"
      by (simp add: high_clear_iff bit_simps)
    have IH: "decode_u64_loop (varint_bytes (drop_bit (7 * Suc i) V) @ rest) (Suc i)
        (take_bit (7 * Suc i) V) (7 * Suc i) = Inr (V, length (varint_bytes V))"
      using Suc.hyps False step by (intro Suc.hyps(1)) auto
    show ?thesis
      unfolding enc using i small set IH
      by (simp add: MAX_LEN_U64_def low7_eq ucast_payload acc Let_def add.commute)
  qed
qed

lemma decode_u64_varint_bytes:
  "decode_u64 (varint_bytes v @ rest) = Inr (v, length (varint_bytes v))"
  using decode_u64_loop_varint_bytes [of 0 v rest] by (simp add: decode_u64_def)

subsection \<open>Every accepted encoding is the canonical one\<close>

lemma take_bit_or_push:
  assumes "take_bit k acc = acc" and "take_bit (k + 7) V = acc OR push_bit k (p :: u64)"
    and "take_bit 7 p = p" and "k + 7 \<le> 64"
  shows "take_bit k V = acc" and "take_bit 7 (drop_bit k V) = p"
proof -
  have b: "bit (take_bit (k + 7) V) n = bit (acc OR push_bit k p) n" for n
    using assms(2) by simp
  have acc: "bit acc n \<Longrightarrow> n < k" for n
    using assms(1) by (metis bit_take_bit_iff)
  have p: "bit p n \<Longrightarrow> n < 7" for n
    using assms(3) by (metis bit_take_bit_iff)
  show "take_bit k V = acc"
  proof (rule bit_word_eqI)
    fix n assume "n < LENGTH(64)"
    with b [of n] acc [of n] show "bit (take_bit k V) n = bit acc n"
      by (auto simp: bit_simps)
  qed
  show "take_bit 7 (drop_bit k V) = p"
  proof (rule bit_word_eqI)
    fix n assume "n < LENGTH(64)"
    with b [of "k + n"] acc [of "k + n"] p [of n] assms(4)
    show "bit (take_bit 7 (drop_bit k V)) n = bit p n"
      by (auto simp: bit_simps)
  qed
qed

lemma drop_or_push:
  assumes "take_bit k acc = (acc :: u64)" and "take_bit 7 p = p"
    and "k + 7 \<le> 64 \<or> (k = 63 \<and> p \<le> 1)"
  shows "drop_bit k (acc OR push_bit k p) = p" and "take_bit k (acc OR push_bit k p) = acc"
proof -
  have acc: "bit acc n \<Longrightarrow> n < k" for n
    using assms(1) by (metis bit_take_bit_iff)
  have p: "bit p n \<Longrightarrow> k + n < 64" for n
  proof (cases "k + 7 \<le> 64")
    case True
    assume "bit p n"
    then have "n < 7" using assms(2) by (metis bit_take_bit_iff)
    with True show ?thesis by simp
  next
    case False
    assume "bit p n"
    moreover from False assms(3) have "k = 63" "p = 0 \<or> p = 1"
      by (auto simp: word_le_nat_alt word_unat_eq_iff le_Suc_eq)
    ultimately show ?thesis by (auto simp: bit_1_iff)
  qed
  show "drop_bit k (acc OR push_bit k p) = p"
    by (rule bit_word_eqI) (auto simp: bit_simps dest: acc p)
  show "take_bit k (acc OR push_bit k p) = acc"
    by (rule bit_word_eqI) (auto simp: bit_simps dest: acc)
qed

lemma decode_u64_loop_canonical:
  assumes "decode_u64_loop bs i acc (7 * i) = Inr (V, n)" and "take_bit (7 * i) acc = acc"
  shows "take_bit (7 * i) V = acc \<and> (i > 0 \<longrightarrow> drop_bit (7 * i) V \<noteq> 0)
    \<and> (\<exists>rest. bs = varint_bytes (drop_bit (7 * i) V) @ rest)
    \<and> n = i + length (varint_bytes (drop_bit (7 * i) V))"
  using assms
proof (induction bs arbitrary: i acc)
  case Nil
  then show ?case by simp
next
  case (Cons b bs)
  let ?p = "ucast (take_bit 7 b) :: u64"
  let ?acc = "acc OR push_bit (7 * i) ?p"
  have p7: "take_bit 7 ?p = ?p"
    by (rule bit_word_eqI) (auto simp: bit_simps)
  from Cons.prems(1) have i: "i < 10" and ov: "7 * i = 63 \<Longrightarrow> ?p \<le> 1"
    by (auto simp: MAX_LEN_U64_def low7_eq Let_def not_less split: if_splits)
  then have room: "7 * i + 7 \<le> 64 \<or> (7 * i = 63 \<and> ?p \<le> 1)"
    by (cases "i = 9") auto
  show ?case
  proof (cases "bit b 7")
    case False
    with Cons.prems(1) i ov have V: "V = ?acc" and n: "n = i + 1" and nz: "i > 0 \<longrightarrow> ?p \<noteq> 0"
      by (auto simp: MAX_LEN_U64_def low7_eq high_clear_iff Let_def split: if_splits)
    note d = drop_or_push [OF Cons.prems(2) p7 room]
    have "drop_bit 7 ?p = 0"
      by (rule bit_word_eqI) (auto simp: bit_simps)
    then have "varint_bytes ?p = [ucast (take_bit 7 ?p)]"
      by (subst varint_bytes.simps) (simp add: low7_eq)
    also have "\<dots> = [b]"
      using byte_split_clear [OF False] payload_back [of b] by simp
    finally have "varint_bytes ?p = [b]" .
    with d V n nz show ?thesis by simp
  next
    case True
    with Cons.prems(1) i ov have rec: "decode_u64_loop bs (Suc i) ?acc (7 * Suc i) = Inr (V, n)"
      by (auto simp: MAX_LEN_U64_def low7_eq high_clear_iff Let_def add.commute split: if_splits)
    have acc': "take_bit (7 * Suc i) ?acc = ?acc"
    proof -
      have "bit acc m \<Longrightarrow> m < 7 * i" and "bit ?p m \<Longrightarrow> m < 7" for m
        using Cons.prems(2) p7 by (metis bit_take_bit_iff)+
      then show ?thesis
        by (intro bit_word_eqI) (fastforce simp: bit_simps)
    qed
    note IH = Cons.IH [OF rec acc']
    show ?thesis
    proof (cases "i = 9")
      case True
      with rec show ?thesis by (cases bs) (auto simp: MAX_LEN_U64_def)
    next
      case False
      with i have r: "7 * i + 7 \<le> 64" by simp
      have "take_bit (7 * i + 7) V = ?acc" using IH by (simp add: add.commute)
      note t = take_bit_or_push [OF Cons.prems(2) this p7 r]
      have step: "drop_bit 7 (drop_bit (7 * i) V) = drop_bit (7 * Suc i) V"
        by (simp add: add.commute)
      then have nz: "drop_bit 7 (drop_bit (7 * i) V) \<noteq> 0" using IH by simp
      then have nz': "drop_bit (7 * i) V \<noteq> 0" by (metis drop_bit_of_0)
      have "varint_bytes (drop_bit (7 * i) V) = b # varint_bytes (drop_bit (7 * Suc i) V)"
        using nz step t(2) byte_split_set [OF True] payload_back' [of b]
        by (simp add: varint_bytes.simps [of "drop_bit (7 * i) V"] low7_eq)
      with IH t(1) nz' show ?thesis by auto
    qed
  qed
qed

lemma decode_u64_canonical:
  assumes "decode_u64 bs = Inr (v, n)"
  shows "\<exists>rest. bs = varint_bytes v @ rest" and "n = length (varint_bytes v)"
  using decode_u64_loop_canonical [of bs 0 0 v n] assms by (auto simp: decode_u64_def)

lemma length_varint_bytes_le: "length (varint_bytes v) \<le> MAX_LEN_U64"
proof (rule ccontr)
  assume "\<not> length (varint_bytes v) \<le> MAX_LEN_U64"
  moreover have "i \<le> 9 \<Longrightarrow> length (varint_bytes v) > Suc i \<Longrightarrow> drop_bit (7 * Suc i) v \<noteq> 0" for i
  proof (induction i)
    case 0
    then show ?case by (subst (asm) varint_bytes.simps) (auto split: if_splits)
  next
    case (Suc i)
    then have nz: "drop_bit (7 * Suc i) v \<noteq> 0" by simp
    have "drop_bit 7 (drop_bit (7 * Suc i) v) = drop_bit (7 * Suc (Suc i)) v"
      by (simp add: add.commute)
    moreover have "drop_bit 7 (drop_bit (7 * Suc i) v) = 0 \<Longrightarrow>
        length (varint_bytes (drop_bit (7 * Suc i) v)) = 1"
      by (subst varint_bytes.simps) simp
    ultimately show ?case
      using varint_bytes_length_shift [of "Suc i" v] nz Suc.prems by auto
  qed
  from this [of 9] have "length (varint_bytes v) > 10 \<Longrightarrow> drop_bit 70 v \<noteq> 0" by simp
  ultimately show False by (simp add: MAX_LEN_U64_def drop_bit_beyond)
qed

lemma varint_bytes_pos: "1 \<le> length (varint_bytes v)"
  by (simp add: varint_bytes.simps [of v])

subsection \<open>Zigzag\<close>

lemma bit_zigzag:
  "bit (zigzag v) n \<longleftrightarrow> n < 64 \<and> ((n > 0 \<and> bit v (n - 1)) \<noteq> bit v 63)"
  unfolding zigzag_def bit_xor_iff bit_push_bit_iff bit_signed_drop_bit_iff
  by (cases n) (auto dest: bit_bound_64)

lemma bit_unzigzag:
  "bit (unzigzag v) n \<longleftrightarrow> n < 64 \<and> (bit v (Suc n) \<noteq> bit v 0)"
proof -
  have one: "v AND 1 = of_bool (bit v 0)"
    by (simp add: and_one_eq bit_0 mod2_eq_if)
  show ?thesis
    unfolding unzigzag_def bit_xor_iff bit_drop_bit_eq one
    by (cases "bit v 0") (auto simp: bit_simps dest: bit_bound_64)
qed

lemma unzigzag_zigzag [simp]: "unzigzag (zigzag v) = v"
proof (rule bit_word_eqI)
  fix n assume "n < LENGTH(64)"
  then have "n < 63 \<or> n = 63" by auto
  then show "bit (unzigzag (zigzag v)) n = bit v n"
    by (auto simp: bit_zigzag bit_unzigzag)
qed

lemma zigzag_unzigzag [simp]: "zigzag (unzigzag v) = v"
proof (rule bit_word_eqI)
  fix n assume "n < LENGTH(64)"
  then show "bit (zigzag (unzigzag v)) n = bit v n"
    by (cases n) (auto simp: bit_zigzag bit_unzigzag dest: bit_bound_64)
qed

end
