(* ===== verification/Cursor.thy ===== *)
theory Cursor
  imports Format_Error Varint
begin

text \<open>
  Bounded reading and writing over byte slices (\<open>isha-vector-db-format/src/cursor.rs\<close>): the
  \<open>Reader\<close> every decoder goes through and the \<open>Writer\<close> that mirrors it, one definition per
  method.  A method that takes \<open>&mut self\<close> returns the new reader beside its result; on an
  error every caller returns at once, so the reader is not returned.

  The locale \<open>codec\<close> is the contract between an encoder and a reader method: what was
  encoded is read back, leaving the reader right behind it (\<open>dec_enc\<close>), and nothing else is
  ever accepted (\<open>dec_sound\<close>).  It is interpreted on every primitive of the cursor; the
  file formats are proved from its lemmas.
\<close>

subsection \<open>UTF-8\<close>

text \<open>\<open>core::str::from_utf8\<close> accepts exactly the well-formed sequences of the Unicode table.\<close>

definition in_range :: "u8 \<Rightarrow> u8 \<Rightarrow> u8 \<Rightarrow> bool" where
  "in_range lo hi b = (lo \<le> b \<and> b \<le> hi)"

definition cont :: "u8 \<Rightarrow> bool" where
  "cont b = in_range 0x80 0xBF b"

fun valid_utf8 :: "bytes \<Rightarrow> bool" where
  "valid_utf8 [] = True"
| "valid_utf8 (b # bs) =
    (if b < 0x80 then valid_utf8 bs
     else if in_range 0xC2 0xDF b then
       (case bs of c1 # r \<Rightarrow> cont c1 \<and> valid_utf8 r | _ \<Rightarrow> False)
     else if in_range 0xE0 0xEF b then
       (case bs of c1 # c2 # r \<Rightarrow>
          (if b = 0xE0 then in_range 0xA0 0xBF c1
           else if b = 0xED then in_range 0x80 0x9F c1 else cont c1)
          \<and> cont c2 \<and> valid_utf8 r
        | _ \<Rightarrow> False)
     else if in_range 0xF0 0xF4 b then
       (case bs of c1 # c2 # c3 # r \<Rightarrow>
          (if b = 0xF0 then in_range 0x90 0xBF c1
           else if b = 0xF4 then in_range 0x80 0x8F c1 else cont c1)
          \<and> cont c2 \<and> cont c3 \<and> valid_utf8 r
        | _ \<Rightarrow> False)
     else False)"

lemma valid_utf8_ascii: "\<forall>b \<in> set bs. b < 0x80 \<Longrightarrow> valid_utf8 bs"
  by (induction bs) auto

subsection \<open>Floats are their bit patterns\<close>

definition f32_is_finite :: "u32 \<Rightarrow> bool" where
  "f32_is_finite v = (drop_bit 23 v AND 0xFF \<noteq> 0xFF)"

definition f64_is_finite :: "u64 \<Rightarrow> bool" where
  "f64_is_finite v = (drop_bit 52 v AND 0x7FF \<noteq> 0x7FF)"

subsection \<open>The reader\<close>

record reader =
  rbuf :: bytes
  rpos :: nat
  rbase :: u64

type_synonym 'a decoder = "reader \<Rightarrow> ('a \<times> reader) fresult"

definition reader_new :: "bytes \<Rightarrow> reader" where
  "reader_new buf = \<lparr>rbuf = buf, rpos = 0, rbase = 0\<rparr>"

definition reader_with_base :: "bytes \<Rightarrow> u64 \<Rightarrow> reader" where
  "reader_with_base buf base = \<lparr>rbuf = buf, rpos = 0, rbase = base\<rparr>"

definition offset :: "reader \<Rightarrow> u64" where
  "offset r = sat_add (rbase r) (u64_of (rpos r))"

definition remaining :: "reader \<Rightarrow> nat" where
  "remaining r = length (rbuf r) - rpos r"

definition reader_is_empty :: "reader \<Rightarrow> bool" where
  "reader_is_empty r = (remaining r = 0)"

definition expect_end :: "string \<Rightarrow> reader \<Rightarrow> unit fresult" where
  "expect_end field r =
     (if reader_is_empty r then Inr () else Inl (Malformed (offset r) (Inconsistent field)))"

definition reader_bytes :: "nat \<Rightarrow> bytes decoder" where
  "reader_bytes n r =
     (let start = rpos r; end = start + n in
      case slice (rbuf r) start end of
        None \<Rightarrow> Inl (Truncated (offset r) (u64_of n) (u64_of (remaining r)))
      | Some s \<Rightarrow> Inr (s, r\<lparr>rpos := end\<rparr>))"

definition bytes_claimed :: "u64 \<Rightarrow> u64 \<Rightarrow> bytes decoder" where
  "bytes_claimed claimed at r =
     (let n = unat claimed in
      if n > remaining r
      then Inl (LengthExceedsInput at claimed (u64_of (remaining r)))
      else reader_bytes n r)"

definition reader_array :: "nat \<Rightarrow> bytes decoder" where
  "reader_array n r = reader_bytes n r"

definition reader_u8 :: "u8 decoder" where
  "reader_u8 r = rbind (reader_array 1 r) (\<lambda>(a, r). Inr (a ! 0, r))"

definition reader_u16 :: "u16 decoder" where
  "reader_u16 r = rbind (reader_array 2 r) (\<lambda>(a, r). Inr (from_le a, r))"

definition reader_u32 :: "u32 decoder" where
  "reader_u32 r = rbind (reader_array 4 r) (\<lambda>(a, r). Inr (from_le a, r))"

definition reader_u64 :: "u64 decoder" where
  "reader_u64 r = rbind (reader_array 8 r) (\<lambda>(a, r). Inr (from_le a, r))"

definition reader_f32 :: "u32 decoder" where
  "reader_f32 r =
     (let at = offset r in
      rbind (reader_array 4 r) (\<lambda>(a, r).
        let v = from_le a in
        if f32_is_finite v then Inr (v, r) else Inl (Malformed at NonFiniteFloat)))"

definition reader_f64 :: "u64 decoder" where
  "reader_f64 r =
     (let at = offset r in
      rbind (reader_array 8 r) (\<lambda>(a, r).
        let v = from_le a in
        if f64_is_finite v then Inr (v, r) else Inl (Malformed at NonFiniteFloat)))"

definition reader_varint :: "u64 decoder" where
  "reader_varint r =
     (let at = offset r; rest = drop (rpos r) (rbuf r) in
      case decode_u64 rest of
        Inr (v, n) \<Rightarrow> Inr (v, r\<lparr>rpos := rpos r + n\<rparr>)
      | Inl VTruncated \<Rightarrow> Inl (Truncated at 1 (u64_of (remaining r)))
      | Inl _ \<Rightarrow> Inl (Malformed at NonCanonicalVarint))"

definition reader_varint_i64 :: "u64 decoder" where
  "reader_varint_i64 r = rbind (reader_varint r) (\<lambda>(v, r). Inr (unzigzag v, r))"

definition reader_blob :: "bytes decoder" where
  "reader_blob r =
     (let at = offset r in
      rbind (reader_varint r) (\<lambda>(len, r). bytes_claimed len at r))"

definition reader_string :: "rust_string decoder" where
  "reader_string r =
     (let at = offset r in
      rbind (reader_blob r) (\<lambda>(b, r).
        if valid_utf8 b then Inr (b, r) else Inl (Malformed at InvalidUtf8)))"

definition reader_reserved :: "nat \<Rightarrow> unit decoder" where
  "reader_reserved n r =
     (let at = offset r in
      rbind (reader_bytes n r) (\<lambda>(b, r).
        if list_ex (\<lambda>x. x \<noteq> 0) b then Inl (Malformed at ReservedNotZero) else Inr ((), r)))"

definition reader_peek :: "nat \<Rightarrow> reader \<Rightarrow> bytes fresult" where
  "reader_peek n r =
     ok_or (slice (rbuf r) (rpos r) (rpos r + n))
       (Truncated (offset r) (u64_of n) (u64_of (remaining r)))"

definition reader_skip :: "nat \<Rightarrow> unit decoder" where
  "reader_skip n r = rbind (reader_bytes n r) (\<lambda>(_, r). Inr ((), r))"

definition reader_sub :: "nat \<Rightarrow> reader decoder" where
  "reader_sub n r =
     (let base = offset r in
      rbind (reader_bytes n r) (\<lambda>(s, r). Inr (reader_with_base s base, r)))"

text \<open>A counted \<open>for\<close> loop that pushes what it reads.\<close>

fun read_times :: "nat \<Rightarrow> 'a decoder \<Rightarrow> 'a list decoder" where
  "read_times 0 f r = Inr ([], r)"
| "read_times (Suc n) f r =
     rbind (f r) (\<lambda>(x, r). rbind (read_times n f r) (\<lambda>(xs, r). Inr (x # xs, r)))"

lemma read_times_cong [fundef_cong]:
  assumes "n = n'" and "r = r'" and "\<And>s. f s = g s"
  shows "read_times n f r = read_times n' g r'"
proof -
  have "f = g" using assms(3) by (rule ext)
  with assms show ?thesis by simp
qed

subsection \<open>The writer\<close>

text \<open>\<open>struct Writer { buf }\<close> is its buffer; every method appends.\<close>

type_synonym writer = bytes

definition writer_new :: writer where
  "writer_new = []"

definition writer_raw :: "writer \<Rightarrow> bytes \<Rightarrow> writer" where
  "writer_raw w bs = w @ bs"

definition writer_u8 :: "writer \<Rightarrow> u8 \<Rightarrow> writer" where
  "writer_u8 w v = w @ [v]"

definition writer_u16 :: "writer \<Rightarrow> u16 \<Rightarrow> writer" where
  "writer_u16 w v = writer_raw w (to_le 2 v)"

definition writer_u32 :: "writer \<Rightarrow> u32 \<Rightarrow> writer" where
  "writer_u32 w v = writer_raw w (to_le 4 v)"

definition writer_u64 :: "writer \<Rightarrow> u64 \<Rightarrow> writer" where
  "writer_u64 w v = writer_raw w (to_le 8 v)"

definition writer_f32 :: "writer \<Rightarrow> u32 \<Rightarrow> writer" where
  "writer_f32 w v = writer_raw w (to_le 4 v)"

definition writer_f64 :: "writer \<Rightarrow> u64 \<Rightarrow> writer" where
  "writer_f64 w v = writer_raw w (to_le 8 v)"

definition writer_varint :: "writer \<Rightarrow> u64 \<Rightarrow> writer" where
  "writer_varint w v = fst (encode_u64 v w)"

definition writer_varint_i64 :: "writer \<Rightarrow> u64 \<Rightarrow> writer" where
  "writer_varint_i64 w v = fst (encode_i64 v w)"

definition writer_blob :: "writer \<Rightarrow> bytes \<Rightarrow> writer" where
  "writer_blob w bs = writer_raw (writer_varint w (u64_of (length bs))) bs"

definition writer_string :: "writer \<Rightarrow> rust_string \<Rightarrow> writer" where
  "writer_string w s = writer_blob w s"

definition writer_reserved :: "writer \<Rightarrow> nat \<Rightarrow> writer" where
  "writer_reserved w n = w @ replicate n 0"

definition writer_align_to :: "writer \<Rightarrow> nat \<Rightarrow> writer" where
  "writer_align_to w align =
     (if align > 1 then
        let rem = length w mod align in
        if rem \<noteq> 0 then writer_reserved w (align - rem) else w
      else w)"

text \<open>What each method appends.\<close>

definition blob_bytes :: "bytes \<Rightarrow> bytes" where
  "blob_bytes bs = varint_bytes (u64_of (length bs)) @ bs"

lemma writer_simps [codec_simps]:
  "writer_raw w bs = w @ bs"
  "writer_u8 w b = w @ [b]"
  "writer_u16 w v16 = w @ to_le 2 v16"
  "writer_u32 w v32 = w @ to_le 4 v32"
  "writer_u64 w v64 = w @ to_le 8 v64"
  "writer_f32 w v32 = w @ to_le 4 v32"
  "writer_f64 w v64 = w @ to_le 8 v64"
  "writer_varint w v64 = w @ varint_bytes v64"
  "writer_varint_i64 w v64 = w @ varint_bytes (zigzag v64)"
  "writer_blob w bs = w @ blob_bytes bs"
  "writer_string w bs = w @ blob_bytes bs"
  "writer_reserved w n = w @ replicate n 0"
  "writer_new = []"
  by (simp_all add: writer_raw_def writer_u8_def writer_u16_def writer_u32_def writer_u64_def
      writer_f32_def writer_f64_def writer_varint_def writer_varint_i64_def writer_blob_def
      writer_string_def writer_reserved_def writer_new_def blob_bytes_def encode_u64_eq
      encode_i64_def)

lemma writer_align_to_length:
  "1 < align \<Longrightarrow> align dvd length (writer_align_to w align)"
proof (cases "length w mod align = 0")
  case True
  assume "1 < align"
  with True show ?thesis by (simp add: writer_align_to_def Let_def dvd_eq_mod_eq_0)
next
  case False
  assume a: "1 < align"
  let ?m = "length w mod align"
  have m: "?m < align" using a by simp
  have "length (writer_align_to w align) = length w + (align - ?m)"
    using a False by (simp add: writer_align_to_def Let_def codec_simps)
  also have "\<dots> = length w div align * align + align"
    using m div_mult_mod_eq [of "length w" align] by linarith
  finally show ?thesis by simp
qed

subsection \<open>Where a reader stands\<close>

text \<open>\<open>unread r xs\<close>: the reader is inside its buffer and \<open>xs\<close> is what it has not read.\<close>

definition unread :: "reader \<Rightarrow> bytes \<Rightarrow> bool" where
  "unread r xs \<longleftrightarrow> rpos r \<le> length (rbuf r) \<and> drop (rpos r) (rbuf r) = xs"

definition advance :: "nat \<Rightarrow> reader \<Rightarrow> reader" where
  "advance n r = r\<lparr>rpos := rpos r + n\<rparr>"

lemma unread_new [simp]: "unread (reader_new bs) xs \<longleftrightarrow> xs = bs"
  by (auto simp: unread_def reader_new_def)

lemma unread_with_base [simp]: "unread (reader_with_base bs base) xs \<longleftrightarrow> xs = bs"
  by (auto simp: unread_def reader_with_base_def)

lemma offset_start [simp]: "offset (reader_with_base bs base) = base" "offset (reader_new bs) = 0"
  by (simp_all add: offset_def reader_with_base_def reader_new_def)

lemma unread_functional: "unread r xs \<Longrightarrow> unread r ys \<Longrightarrow> xs = ys"
  by (simp add: unread_def)

lemma unread_remaining: "unread r xs \<Longrightarrow> remaining r = length xs"
  by (auto simp: unread_def remaining_def)

lemma unread_advance: "unread r (xs @ ys) \<Longrightarrow> unread (advance (length xs) r) ys"
proof -
  assume u: "unread r (xs @ ys)"
  then have "rpos r \<le> length (rbuf r)" "drop (rpos r) (rbuf r) = xs @ ys"
    by (simp_all add: unread_def)
  then have "length (rbuf r) = rpos r + length (xs @ ys)"
    by (metis add_diff_inverse_nat leD length_drop)
  moreover have "drop (length xs) (drop (rpos r) (rbuf r)) = ys"
    using u by (simp add: unread_def)
  ultimately show ?thesis
    by (simp add: unread_def advance_def add.commute)
qed

lemma advance_advance [simp]: "advance m (advance n r) = advance (n + m) r"
  by (simp add: advance_def add.assoc)

lemma advance_0 [simp]: "advance 0 r = r"
  by (simp add: advance_def)

lemma rbuf_advance [simp]: "rbuf (advance n r) = rbuf r"
  and rbase_advance [simp]: "rbase (advance n r) = rbase r"
  and rpos_advance [simp]: "rpos (advance n r) = rpos r + n"
  by (simp_all add: advance_def)

lemma reader_bytes_iff:
  "reader_bytes n r = Inr (xs, r') \<longleftrightarrow>
     length xs = n \<and> r' = advance n r \<and> (\<exists>rest. unread r (xs @ rest))"
proof
  assume "reader_bytes n r = Inr (xs, r')"
  then have s: "slice (rbuf r) (rpos r) (rpos r + n) = Some xs" and r': "r' = advance n r"
    by (auto simp: reader_bytes_def Let_def advance_def split: option.splits)
  from s have "rpos r + n \<le> length (rbuf r)" "xs = take n (drop (rpos r) (rbuf r))"
    by (auto simp: slice_def split: if_splits)
  then have "length xs = n" and "unread r (xs @ drop n (drop (rpos r) (rbuf r)))"
    by (simp_all add: unread_def del: drop_drop)
  with r' show "length xs = n \<and> r' = advance n r \<and> (\<exists>rest. unread r (xs @ rest))" by blast
next
  assume a: "length xs = n \<and> r' = advance n r \<and> (\<exists>rest. unread r (xs @ rest))"
  then obtain rest where u: "unread r (xs @ rest)" by blast
  from u have "rpos r \<le> length (rbuf r)" by (simp add: unread_def)
  with unread_remaining [OF u] a have "rpos r + n \<le> length (rbuf r)"
    by (auto simp: remaining_def)
  moreover have "take n (drop (rpos r) (rbuf r)) = xs"
    using u a by (simp add: unread_def)
  ultimately show "reader_bytes n r = Inr (xs, r')"
    using a by (simp add: reader_bytes_def Let_def slice_def advance_def)
qed

lemma reader_bytes_short:
  assumes "unread r xs" and "length xs < n"
  shows "reader_bytes n r = Inl (Truncated (offset r) (u64_of n) (u64_of (length xs)))"
proof -
  have "length (rbuf r) < rpos r + n"
    using unread_remaining [OF assms(1)] assms by (simp add: remaining_def unread_def)
  then show ?thesis
    using unread_remaining [OF assms(1)] by (simp add: reader_bytes_def Let_def slice_def)
qed

lemma expect_end_iff: "unread r xs \<Longrightarrow> expect_end field r = Inr () \<longleftrightarrow> xs = []"
  by (simp add: expect_end_def reader_is_empty_def unread_remaining)

lemma expect_end_Nil: "unread r [] \<Longrightarrow> expect_end field r = Inr ()"
  by (simp add: expect_end_iff)


subsection \<open>The contract of an encoder and its reader\<close>

lemma read_times_enc:
  assumes "\<And>x r rest. x \<in> set xs \<Longrightarrow> unread r (enc x @ rest)
      \<Longrightarrow> dec r = Inr (x, advance (length (enc x)) r)"
    and "unread r (concat (map enc xs) @ rest)"
  shows "read_times (length xs) dec r = Inr (xs, advance (length (concat (map enc xs))) r)"
  using assms
proof (induction xs arbitrary: r)
  case Nil
  then show ?case by simp
next
  case (Cons x xs)
  have u: "unread r (enc x @ (concat (map enc xs) @ rest))"
    using Cons.prems(2) by simp
  have "dec r = Inr (x, advance (length (enc x)) r)"
    by (rule Cons.prems(1) [OF _ u]) simp
  moreover have "read_times (length xs) dec (advance (length (enc x)) r)
      = Inr (xs, advance (length (concat (map enc xs))) (advance (length (enc x)) r))"
    using Cons.prems(1) unread_advance [OF u] by (intro Cons.IH) auto
  ultimately show ?case by simp
qed

lemma read_times_sound:
  assumes "\<And>r x r' xs. dec r = Inr (x, r') \<Longrightarrow> unread r xs \<Longrightarrow>
      ok x \<and> r' = advance (length (enc x)) r \<and> (\<exists>rest. xs = enc x @ rest)"
    and "read_times n dec r = Inr (xs, r')" and "unread r ys"
  shows "length xs = n \<and> (\<forall>x \<in> set xs. ok x) \<and> r' = advance (length (concat (map enc xs))) r
      \<and> (\<exists>rest. ys = concat (map enc xs) @ rest)"
  using assms(2,3)
proof (induction n arbitrary: r xs ys)
  case 0
  then show ?case by simp
next
  case (Suc n)
  from Suc.prems(1) obtain x r1 xs' where d: "dec r = Inr (x, r1)"
    and t: "read_times n dec r1 = Inr (xs', r')" and xs: "xs = x # xs'"
    by (auto elim!: rbind_InrE)
  from assms(1) [OF d Suc.prems(2)] obtain rest where x: "ok x" "r1 = advance (length (enc x)) r"
    and ys: "ys = enc x @ rest" by blast
  have "unread r1 rest" using unread_advance [of r "enc x" rest] Suc.prems(2) x(2) ys by simp
  from Suc.IH [OF t this] x xs ys show ?case by auto
qed

locale codec =
  fixes enc :: "'a \<Rightarrow> bytes"
    and dec :: "'a decoder"
    and ok :: "'a \<Rightarrow> bool"
  assumes dec_enc: "ok x \<Longrightarrow> unread r (enc x @ rest) \<Longrightarrow> dec r = Inr (x, advance (length (enc x)) r)"
    and dec_sound: "dec r = Inr (x, r') \<Longrightarrow> unread r xs \<Longrightarrow>
      ok x \<and> r' = advance (length (enc x)) r \<and> (\<exists>rest. xs = enc x @ rest)"
begin

lemma rbind_dec [codec_steps]:
  assumes "unread r (enc x @ rest)" and "ok x"
    and "\<And>r'. r' = advance (length (enc x)) r \<Longrightarrow> unread r' rest \<Longrightarrow> f x r' = y"
  shows "rbind (dec r) (\<lambda>(x, r). f x r) = y"
  using dec_enc [OF assms(2,1)] assms(3) unread_advance [OF assms(1)] by simp

lemma rbind_map_err_dec [codec_steps]:
  assumes "unread r (enc x @ rest)" and "ok x"
    and "\<And>r'. r' = advance (length (enc x)) r \<Longrightarrow> unread r' rest \<Longrightarrow> f x r' = y"
  shows "rbind (map_err h (dec r)) (\<lambda>(x, r). f x r) = y"
  using dec_enc [OF assms(2,1)] assms(3) unread_advance [OF assms(1)] by simp

lemma dec_unread [codec_dests]:
  assumes "dec r = Inr (x, r')" and "unread r xs"
  shows "\<exists>rest. ok x \<and> xs = enc x @ rest \<and> r' = advance (length (enc x)) r \<and> unread r' rest"
  using dec_sound [OF assms] assms(2) by (auto intro: unread_advance)

lemma rbind_decE [codec_elims]:
  assumes "rbind (dec r) (\<lambda>(x, r). f x r) = Inr y" and "unread r xs"
    and "\<And>x r' rest. ok x \<Longrightarrow> xs = enc x @ rest \<Longrightarrow> r' = advance (length (enc x)) r
      \<Longrightarrow> unread r' rest \<Longrightarrow> f x r' = Inr y \<Longrightarrow> P"
  shows P
  using assms(1) by (rule rbind_InrE) (use dec_unread assms(2,3) in \<open>force split: prod.splits\<close>)

lemma enc_prefix_free:
  assumes "ok x" "ok y" and "enc x @ s = enc y @ t"
  shows "x = y" and "s = t"
proof -
  let ?r = "reader_new (enc x @ s)"
  have "dec ?r = Inr (x, advance (length (enc x)) ?r)"
    using assms(1) by (intro dec_enc [where rest = s]) simp_all
  moreover have "dec ?r = Inr (y, advance (length (enc y)) ?r)"
    using assms(2,3) by (intro dec_enc [where rest = t]) simp_all
  ultimately show "x = y" by simp
  with assms(3) show "s = t" by simp
qed

lemma times_enc:
  assumes "\<forall>x \<in> set xs. ok x" and "unread r (concat (map enc xs) @ rest)"
  shows "read_times (length xs) dec r = Inr (xs, advance (length (concat (map enc xs))) r)"
  using assms by (intro read_times_enc) (auto intro: dec_enc)

lemma times_sound:
  assumes "read_times n dec r = Inr (xs, r')" and "unread r ys"
  obtains rest where "length xs = n" "\<forall>x \<in> set xs. ok x" "ys = concat (map enc xs) @ rest"
    "r' = advance (length (concat (map enc xs))) r" "unread r' rest"
proof -
  from read_times_sound [where enc = enc and ok = ok and dec = dec, OF dec_sound assms] obtain rest where
    a: "length xs = n" "\<forall>x \<in> set xs. ok x" "ys = concat (map enc xs) @ rest"
      "r' = advance (length (concat (map enc xs))) r" by auto
  then show thesis using assms(2) by (intro that [OF a]) (simp add: unread_advance)
qed

lemma dec_consumes: "dec r = Inr (x, r') \<Longrightarrow> unread r xs \<Longrightarrow> length (enc x) \<le> length xs"
  by (drule (1) dec_sound) auto

end

subsection \<open>The primitives satisfy the contract\<close>

lemma reader_bytes_sound:
  "reader_bytes n r = Inr (x, r') \<Longrightarrow> unread r xs \<Longrightarrow>
     length x = n \<and> r' = advance (length x) r \<and> (\<exists>rest. xs = x @ rest)"
  by (auto simp: reader_bytes_iff intro: unread_functional)

interpretation bytesc: codec "\<lambda>xs. xs" "reader_bytes n" "\<lambda>xs. length xs = n" for n
proof
  show "reader_bytes n r = Inr (x, advance (length x) r)" if "length x = n" "unread r (x @ rest)" for x r rest
    using that by (auto simp: reader_bytes_iff)
qed (rule reader_bytes_sound)

interpretation arrayc: codec "\<lambda>xs. xs" "reader_array n" "\<lambda>xs. length xs = n" for n
  unfolding reader_array_def [abs_def] by (rule bytesc.codec_axioms)

text \<open>A single byte, in the form the simplifier leaves it.\<close>

lemma u8_step [codec_steps]:
  assumes "unread r (x # rest)" and "True"
    and "\<And>r'. r' = advance 1 r \<Longrightarrow> unread r' rest \<Longrightarrow> f x r' = y"
  shows "rbind (reader_u8 r) (\<lambda>(x, r). f x r) = y"
proof -
  have "reader_array 1 r = Inr ([x], advance 1 r)"
    using arrayc.dec_enc [of "[x]" 1 r rest] assms(1) by simp
  moreover have "unread (advance 1 r) rest"
    using unread_advance [of r "[x]" rest] assms(1) by simp
  ultimately show ?thesis using assms(3) by (simp add: reader_u8_def)
qed

interpretation u8c: codec "\<lambda>b. [b]" reader_u8 "\<lambda>_. True"
proof
  fix x r rest
  assume "unread r ([x] @ rest)"
  then show "reader_u8 r = Inr (x, advance (length [x]) r)"
    unfolding reader_u8_def by (rule arrayc.rbind_dec) auto
next
  fix x r r' xs
  assume "reader_u8 r = Inr (x, r')" and "unread r xs"
  then show "True \<and> r' = advance (length [x]) r \<and> (\<exists>rest. xs = [x] @ rest)"
    by (auto simp: reader_u8_def length_Suc_conv elim!: rbind_InrE dest!: arrayc.dec_sound)
qed

lemma le_codec:
  assumes "8 * n = LENGTH('a::len)"
  shows "codec (to_le n :: 'a word \<Rightarrow> bytes)
     (\<lambda>r. rbind (reader_array n r) (\<lambda>(a, r). Inr (from_le a, r))) (\<lambda>_. True)"
proof
  fix x :: "'a word" and r rest
  assume "unread r (to_le n x @ rest)"
  then show "rbind (reader_array n r) (\<lambda>(a, r). Inr (from_le a, r))
      = Inr (x, advance (length (to_le n x)) r)"
    by (rule arrayc.rbind_dec) (auto simp: from_le_to_le [OF assms])
next
  fix x :: "'a word" and r r' xs
  assume "rbind (reader_array n r) (\<lambda>(a, r). Inr (from_le a, r)) = Inr (x, r')" and "unread r xs"
  then show "True \<and> r' = advance (length (to_le n x)) r \<and> (\<exists>rest. xs = to_le n x @ rest)"
    using assms by (auto elim!: rbind_InrE dest!: arrayc.dec_sound simp: to_le_from_le)
qed

interpretation u16c: codec "to_le 2" reader_u16 "\<lambda>_. True"
  using le_codec [where 'a = 16 and n = 2] by (simp add: reader_u16_def [abs_def])

interpretation u32c: codec "to_le 4" reader_u32 "\<lambda>_. True"
  using le_codec [where 'a = 32 and n = 4] by (simp add: reader_u32_def [abs_def])

interpretation u64c: codec "to_le 8" reader_u64 "\<lambda>_. True"
  using le_codec [where 'a = 64 and n = 8] by (simp add: reader_u64_def [abs_def])

text \<open>A reader method that only adds a check to another one.\<close>

lemma guarded_codec:
  assumes "codec enc dec ok"
    and "\<And>r. dec' r = rbind (dec r) (\<lambda>(x, r'). if p x then Inr (x, r') else Inl (e r))"
  shows "codec enc dec' (\<lambda>x. ok x \<and> p x)"
proof -
  note c = codec.dec_enc [OF assms(1)] codec.dec_sound [OF assms(1)]
  show ?thesis
    by unfold_locales (auto simp: assms(2) c elim!: rbind_InrE split: if_splits dest!: c(2))
qed

interpretation f32c: codec "to_le 4" reader_f32 f32_is_finite
proof -
  have "reader_f32 r = rbind (reader_u32 r)
      (\<lambda>(v, r'). if f32_is_finite v then Inr (v, r') else Inl (Malformed (offset r) NonFiniteFloat))" for r
    by (cases "reader_array 4 r") (auto simp: reader_f32_def reader_u32_def Let_def)
  from guarded_codec [OF u32c.codec_axioms this] show "codec (to_le 4) reader_f32 f32_is_finite"
    by simp
qed

interpretation f64c: codec "to_le 8" reader_f64 f64_is_finite
proof -
  have "reader_f64 r = rbind (reader_u64 r)
      (\<lambda>(v, r'). if f64_is_finite v then Inr (v, r') else Inl (Malformed (offset r) NonFiniteFloat))" for r
    by (cases "reader_array 8 r") (auto simp: reader_f64_def reader_u64_def Let_def)
  from guarded_codec [OF u64c.codec_axioms this] show "codec (to_le 8) reader_f64 f64_is_finite"
    by simp
qed

interpretation varintc: codec varint_bytes reader_varint "\<lambda>_. True"
proof
  fix x r rest
  assume "unread r (varint_bytes x @ rest)"
  then show "reader_varint r = Inr (x, advance (length (varint_bytes x)) r)"
    by (simp add: reader_varint_def unread_def decode_u64_varint_bytes advance_def)
next
  fix x r r' xs
  assume "reader_varint r = Inr (x, r')" and "unread r xs"
  then obtain n where d: "decode_u64 xs = Inr (x, n)" and r': "r' = advance n r"
    by (auto simp: reader_varint_def advance_def unread_def Let_def split: sum.splits varint_error.splits)
  with decode_u64_canonical [OF d] show "True \<and> r' = advance (length (varint_bytes x)) r
      \<and> (\<exists>rest. xs = varint_bytes x @ rest)"
    by simp
qed

interpretation varint_i64c: codec "\<lambda>v. varint_bytes (zigzag v)" reader_varint_i64 "\<lambda>_. True"
proof
  fix x r rest
  assume "unread r (varint_bytes (zigzag x) @ rest)"
  then show "reader_varint_i64 r = Inr (x, advance (length (varint_bytes (zigzag x))) r)"
    unfolding reader_varint_i64_def by (rule varintc.rbind_dec) auto
next
  fix x r r' xs
  assume "reader_varint_i64 r = Inr (x, r')" and "unread r xs"
  then show "True \<and> r' = advance (length (varint_bytes (zigzag x))) r
      \<and> (\<exists>rest. xs = varint_bytes (zigzag x) @ rest)"
    by (auto simp: reader_varint_i64_def elim!: rbind_InrE dest!: varintc.dec_sound)
qed

lemma bytes_claimed_enc:
  "unread r (xs @ rest) \<Longrightarrow> unat c = length xs \<Longrightarrow> bytes_claimed c at r = Inr (xs, advance (length xs) r)"
  by (auto simp: bytes_claimed_def Let_def unread_remaining reader_bytes_iff)

lemma bytes_claimed_sound:
  "bytes_claimed c at r = Inr (xs, r') \<Longrightarrow> unread r ys \<Longrightarrow>
     length xs = unat c \<and> r' = advance (length xs) r \<and> (\<exists>rest. ys = xs @ rest)"
  using reader_bytes_sound [of "unat c" r xs r' ys]
  by (simp add: bytes_claimed_def Let_def split: if_splits)

definition blob_ok :: "bytes \<Rightarrow> bool" where
  "blob_ok bs \<longleftrightarrow> length bs < 2 ^ 64"

definition string_ok :: "rust_string \<Rightarrow> bool" where
  "string_ok s \<longleftrightarrow> blob_ok s \<and> valid_utf8 s"

interpretation blobc: codec blob_bytes reader_blob blob_ok
proof
  fix x r rest
  assume "blob_ok x" and u: "unread r (blob_bytes x @ rest)"
  then show "reader_blob r = Inr (x, advance (length (blob_bytes x)) r)"
    unfolding reader_blob_def Let_def blob_bytes_def
    by (intro varintc.rbind_dec [where rest = "x @ rest"])
       (auto simp: blob_ok_def bytes_claimed_enc)
next
  fix x r r' xs
  assume "reader_blob r = Inr (x, r')" and u: "unread r xs"
  then obtain len r1 where v: "reader_varint r = Inr (len, r1)"
    and b: "bytes_claimed len (offset r) r1 = Inr (x, r')"
    by (auto simp: reader_blob_def elim!: rbind_InrE)
  from varintc.dec_unread [OF v u] obtain s where s: "r1 = advance (length (varint_bytes len)) r"
    "xs = varint_bytes len @ s" "unread r1 s" by blast
  from bytes_claimed_sound [OF b s(3)] s show "blob_ok x \<and> r' = advance (length (blob_bytes x)) r
      \<and> (\<exists>rest. xs = blob_bytes x @ rest)"
    using unat_lt_64 [of len] by (auto simp: blob_ok_def blob_bytes_def)
qed

interpretation stringc: codec blob_bytes reader_string string_ok
  using guarded_codec [OF blobc.codec_axioms, of reader_string valid_utf8 "\<lambda>r. Malformed (offset r) InvalidUtf8"]
  by (simp add: reader_string_def string_ok_def [abs_def] Let_def)

interpretation reservedc: codec "\<lambda>_. replicate n 0" "reader_reserved n" "\<lambda>_. True" for n
proof
  fix x :: unit and r rest
  assume "unread r (replicate n 0 @ rest)"
  then show "reader_reserved n r = Inr (x, advance (length (replicate n (0 :: u8))) r)"
    unfolding reader_reserved_def Let_def
    by (rule bytesc.rbind_dec) (auto simp: list_ex_iff)
next
  fix x :: unit and r r' xs
  assume "reader_reserved n r = Inr (x, r')" and u: "unread r xs"
  then obtain b where b: "reader_bytes n r = Inr (b, r')" and z: "\<forall>y \<in> set b. y = 0"
    by (auto simp: reader_reserved_def Let_def list_ex_iff elim!: rbind_InrE split: if_splits)
  from bytesc.dec_sound [OF b u] have "length b = n" by simp
  with z have "b = replicate n 0" by (metis replicate_length_same)
  with bytesc.dec_sound [OF b u] show "True \<and> r' = advance (length (replicate n (0 :: u8))) r
      \<and> (\<exists>rest. xs = replicate n 0 @ rest)" by auto
qed

end
