(* ===== verification/Crc32c.thy ===== *)
theory Crc32c
  imports Prelude
begin

text \<open>
  CRC-32C (\<open>isha-vector-db-format/src/crc32c.rs\<close>): the compile-time table, the incremental
  checksum and the one-shot \<open>crc32c\<close>.  The table-driven update is proved equal to the
  bit-at-a-time shift register, from which follow its algebra (incremental use) and its
  guarantee: any damage confined to four consecutive bytes changes the checksum.
\<close>

definition POLY :: u32 where
  "POLY = 0x82F63B78"

text \<open>The body of the inner \<open>while\<close> of \<open>TABLE\<close>, and the table itself.\<close>

definition crc_bit_step :: "u32 \<Rightarrow> u32" where
  "crc_bit_step crc = (if crc AND 1 \<noteq> 0 then drop_bit 1 crc XOR POLY else drop_bit 1 crc)"

definition TABLE :: "u32 list" where
  "TABLE = map (\<lambda>i. (crc_bit_step ^^ 8) (of_nat i)) [0..<256]"

text \<open>\<open>struct Crc32c(u32)\<close> is its one field.\<close>

type_synonym crc = u32

definition crc_new :: crc where
  "crc_new = 0xFFFFFFFF"

definition crc_resume :: "u32 \<Rightarrow> crc" where
  "crc_resume previous = NOT previous"

definition crc_update_byte :: "crc \<Rightarrow> u8 \<Rightarrow> crc" where
  "crc_update_byte crc b =
     (let idx = unat ((crc XOR ucast b) AND 0xFF);
          entry = (if idx < length TABLE then TABLE ! idx else 0)
      in drop_bit 8 crc XOR entry)"

definition crc_update :: "crc \<Rightarrow> bytes \<Rightarrow> crc" where
  "crc_update crc data = foldl crc_update_byte crc data"

definition crc_finish :: "crc \<Rightarrow> u32" where
  "crc_finish crc = NOT crc"

definition crc32c :: "bytes \<Rightarrow> u32" where
  "crc32c data = crc_finish (crc_update crc_new data)"

subsection \<open>The shift register is linear and invertible\<close>

lemma xor_cancel_right: "(a :: u32) XOR b = c XOR b \<Longrightarrow> a = c"
proof -
  assume "a XOR b = c XOR b"
  then have "(a XOR b) XOR b = (c XOR b) XOR b" by simp
  then show "a = c" by (simp only: xor.assoc xor_self_eq xor.right_neutral)
qed

lemma crc_bit_step_bit: "crc_bit_step c = (if bit c 0 then drop_bit 1 c XOR POLY else drop_bit 1 c)"
  by (simp add: crc_bit_step_def and_one_eq bit_0 mod2_eq_if)

lemma crc_bit_step_xor: "crc_bit_step (a XOR b) = crc_bit_step a XOR crc_bit_step b"
  by (rule bit_word_eqI) (auto simp: crc_bit_step_bit bit_simps)

lemma crc_bit_step_top: "bit (crc_bit_step c) 31 \<longleftrightarrow> bit c 0"
  by (auto simp: crc_bit_step_bit POLY_def bit_simps dest: bit_imp_le_length)

lemma crc_bit_step_zero [simp]: "crc_bit_step 0 = 0"
  by (simp add: crc_bit_step_bit)

lemma crc_bit_step_eq_0: "crc_bit_step c = 0 \<Longrightarrow> c = 0"
proof (rule bit_word_eqI)
  fix n
  assume z: "crc_bit_step c = 0" and "n < LENGTH(32)"
  from z have b0: "\<not> bit c 0" using crc_bit_step_top [of c] by simp
  with z have "drop_bit 1 c = 0" by (simp add: crc_bit_step_bit)
  then have "\<not> bit c (Suc m)" for m
    using bit_drop_bit_eq [of 1 c] by (metis bit_0_eq bot_apply bot_bool_def comp_apply plus_1_eq_Suc)
  with b0 show "bit c n = bit 0 n" by (cases n) auto
qed

lemma funpow_step_xor: "(crc_bit_step ^^ k) (a XOR b) = (crc_bit_step ^^ k) a XOR (crc_bit_step ^^ k) b"
  by (induction k) (simp_all add: crc_bit_step_xor)

lemma funpow_step_eq_0: "(crc_bit_step ^^ k) c = 0 \<Longrightarrow> c = 0"
  by (induction k) (auto dest: crc_bit_step_eq_0)

lemma funpow_step_inject: "(crc_bit_step ^^ k) a = (crc_bit_step ^^ k) b \<Longrightarrow> a = b"
proof -
  assume "(crc_bit_step ^^ k) a = (crc_bit_step ^^ k) b"
  then have "(crc_bit_step ^^ k) (a XOR b) = 0" by (simp add: funpow_step_xor)
  then have "a XOR b = 0" by (rule funpow_step_eq_0)
  then show "a = b" using xor_cancel_right [of a b b] by simp
qed

text \<open>Shifting out zero bits only shifts.\<close>

lemma funpow_step_shift: "take_bit k c = 0 \<Longrightarrow> (crc_bit_step ^^ k) c = drop_bit k c"
proof (induction k arbitrary: c)
  case 0
  then show ?case by simp
next
  case (Suc k)
  have low: "\<not> bit c m" if "m < Suc k" for m
    using Suc.prems that by (metis bit_0_eq bit_take_bit_iff bot_apply bot_bool_def)
  then have step: "crc_bit_step c = drop_bit 1 c"
    by (simp add: crc_bit_step_bit)
  have "take_bit k (drop_bit 1 c) = 0"
    by (rule bit_word_eqI) (auto simp: bit_simps low)
  with Suc.IH have "(crc_bit_step ^^ k) (drop_bit 1 c) = drop_bit k (drop_bit 1 c)" .
  with step show ?case by (simp add: funpow_swap1 add.commute)
qed

subsection \<open>The table-driven update is the bitwise one\<close>

lemma length_TABLE [simp]: "length TABLE = 256"
  by (simp add: TABLE_def)

lemma low8_eq: "(c AND 0xFF :: u32) = take_bit 8 c"
  using take_bit_eq_mask [of 8 c] by (simp add: mask_eq_exp_minus_1)

lemma unat_low8: "unat (take_bit 8 (c :: u32)) < 256"
proof -
  have "unat (take_bit 8 c) = unat c mod 256"
    by (simp add: take_bit_eq_mod unat_mod_distrib)
  then show ?thesis by simp
qed

lemma crc_update_byte_eq: "crc_update_byte crc b = (crc_bit_step ^^ 8) (crc XOR ucast b)"
proof -
  let ?x = "crc XOR ucast b :: u32"
  let ?hi = "push_bit 8 (drop_bit 8 ?x)"
  have split: "?x = ?hi XOR take_bit 8 ?x"
    by (rule bit_word_eqI) (auto simp: bit_simps)
  have "(crc_bit_step ^^ 8) ?hi = drop_bit 8 ?hi"
    by (rule funpow_step_shift) (rule bit_word_eqI, auto simp: bit_simps)
  also have "\<dots> = drop_bit 8 crc"
    by (rule bit_word_eqI) (auto simp: bit_simps dest: bit_imp_le_length)
  finally have hi: "(crc_bit_step ^^ 8) ?hi = drop_bit 8 crc" .
  have entry: "TABLE ! unat (take_bit 8 ?x) = (crc_bit_step ^^ 8) (take_bit 8 ?x)"
    using unat_low8 [of ?x] by (simp add: TABLE_def del: funpow.simps upt_rec)
  have "(crc_bit_step ^^ 8) ?x = (crc_bit_step ^^ 8) (?hi XOR take_bit 8 ?x)"
    by (rule arg_cong [OF split])
  then show ?thesis
    using unat_low8 [of ?x] hi entry
    by (simp only: crc_update_byte_def Let_def low8_eq length_TABLE if_True funpow_step_xor)
qed

lemma crc_update_Nil [simp]: "crc_update c [] = c"
  by (simp add: crc_update_def)

lemma crc_update_Cons [simp]: "crc_update c (b # bs) = crc_update (crc_update_byte c b) bs"
  by (simp add: crc_update_def)

lemma crc_update_append: "crc_update c (xs @ ys) = crc_update (crc_update c xs) ys"
  by (simp add: crc_update_def)

lemma crc_update_byte_inject: "crc_update_byte c b = crc_update_byte d b \<Longrightarrow> c = d"
proof -
  assume "crc_update_byte c b = crc_update_byte d b"
  then have "c XOR ucast b = d XOR ucast b"
    unfolding crc_update_byte_eq by (rule funpow_step_inject)
  then show "c = d" by (rule xor_cancel_right)
qed

lemma crc_update_inject: "crc_update c xs = crc_update d xs \<Longrightarrow> c = d"
  by (induction xs arbitrary: c d) (auto dest: crc_update_byte_inject)

text \<open>Up to four bytes are shifted through the register as one little-endian word.\<close>

lemma crc_update_window:
  assumes "length w \<le> 4"
  shows "crc_update c w = (crc_bit_step ^^ (8 * length w)) (c XOR from_le w)"
  using assms
proof (induction w arbitrary: c)
  case Nil
  then show ?case by simp
next
  case (Cons b bs)
  let ?t = "from_le bs :: u32"
  have small: "m < 24" if "bit ?t m" for m
    using that Cons.prems by (auto simp: bit_from_le)
  have sh: "(crc_bit_step ^^ 8) (push_bit 8 ?t) = ?t"
  proof -
    have "(crc_bit_step ^^ 8) (push_bit 8 ?t) = drop_bit 8 (push_bit 8 ?t)"
      by (rule funpow_step_shift) (rule bit_word_eqI, auto simp: bit_simps)
    also have "\<dots> = ?t"
      by (rule bit_word_eqI) (auto simp: bit_simps dest: small)
    finally show ?thesis .
  qed
  have disj: "from_le (b # bs) = ucast b XOR push_bit 8 ?t"
    by (rule bit_word_eqI) (auto simp: bit_simps dest: bit_imp_le_length)
  have "crc_update c (b # bs) = (crc_bit_step ^^ (8 * length bs)) (crc_update_byte c b XOR ?t)"
    using Cons by simp
  also have "crc_update_byte c b XOR ?t = (crc_bit_step ^^ 8) (c XOR from_le (b # bs))"
    unfolding crc_update_byte_eq disj
    by (subst sh [symmetric]) (simp only: funpow_step_xor [symmetric] xor.assoc)
  finally have "crc_update c (b # bs)
      = (crc_bit_step ^^ (8 * length bs + 8)) (c XOR from_le (b # bs))"
    by (simp only: funpow_add comp_apply)
  moreover have "8 * length bs + 8 = 8 * length (b # bs)" by simp
  ultimately show ?case by (simp only:)
qed

lemma crc32c_window_inject:
  assumes "length w1 = length w2" and "length w1 \<le> 4"
    and "crc32c (p @ w1 @ s) = crc32c (p @ w2 @ s)"
  shows "w1 = w2"
proof -
  let ?c = "crc_update crc_new p"
  from assms(3) have "crc_update (crc_update ?c w1) s = crc_update (crc_update ?c w2) s"
    by (simp add: crc32c_def crc_finish_def crc_update_append)
  then have "crc_update ?c w1 = crc_update ?c w2" by (rule crc_update_inject)
  with assms(1,2) have "?c XOR from_le w1 = ?c XOR (from_le w2 :: u32)"
    by (auto simp: crc_update_window dest: funpow_step_inject)
  then have eq: "(from_le w1 :: u32) = from_le w2"
    using xor_cancel_right [of "from_le w1" ?c "from_le w2"] by (simp only: xor.commute)
  show ?thesis
  proof (rule nth_equalityI)
    show "length w1 = length w2" by (rule assms(1))
  next
    fix i
    assume i: "i < length w1"
    show "w1 ! i = w2 ! i"
    proof (rule bit_word_eqI)
      fix j
      assume "j < LENGTH(8)"
      with i assms(1,2) show "bit (w1 ! i) j = bit (w2 ! i) j"
        using bit_from_le [where 'a = 32, of w1 "8 * i + j"] bit_from_le [where 'a = 32, of w2 "8 * i + j"]
        by (simp add: eq)
    qed
  qed
qed

subsection \<open>Damage\<close>

text \<open>Two byte strings of the same length that differ in at most \<open>k\<close> consecutive places.\<close>

definition burst_apart :: "nat \<Rightarrow> bytes \<Rightarrow> bytes \<Rightarrow> bool" where
  "burst_apart k xs ys \<longleftrightarrow> length xs = length ys
     \<and> (\<exists>i. \<forall>j < length xs. xs ! j \<noteq> ys ! j \<longrightarrow> i \<le> j \<and> j < i + k)"

lemma burst_apartE:
  assumes "burst_apart k xs ys"
  obtains i where "length xs = length ys"
    and "\<forall>j < length xs. xs ! j \<noteq> ys ! j \<longrightarrow> i \<le> j \<and> j < i + k"
  using assms unfolding burst_apart_def by blast

lemma burst_apartI:
  assumes "length xs = length ys"
    and "\<And>j. j < length xs \<Longrightarrow> xs ! j \<noteq> ys ! j \<Longrightarrow> i \<le> j \<and> j < i + k"
  shows "burst_apart k xs ys"
  using assms unfolding burst_apart_def by blast

lemma burst_apart_take: "burst_apart k xs ys \<Longrightarrow> burst_apart k (take n xs) (take n ys)"
  unfolding burst_apart_def by (metis length_take min_less_iff_conj nth_take)

lemma burst_apart_drop:
  assumes "burst_apart k xs ys"
  shows "burst_apart k (drop n xs) (drop n ys)"
proof -
  from assms obtain i where l: "length xs = length ys"
    and i: "\<forall>j < length xs. xs ! j \<noteq> ys ! j \<longrightarrow> i \<le> j \<and> j < i + k"
    by (rule burst_apartE)
  have "i - n \<le> j \<and> j < i - n + k" if "j < length xs - n" "xs ! (n + j) \<noteq> ys ! (n + j)" for j
    using i [rule_format, of "n + j"] that by (auto simp: less_diff_conv add.commute)
  then show ?thesis using l by (intro burst_apartI [where i = "i - n"]) simp_all
qed

lemma burst_apart_split:
  assumes "burst_apart k xs ys"
  obtains p w1 w2 s where "xs = p @ w1 @ s" "ys = p @ w2 @ s" "length w1 = length w2" "length w1 \<le> k"
proof -
  from assms obtain i where l: "length xs = length ys"
    and i: "\<forall>j < length xs. xs ! j \<noteq> ys ! j \<longrightarrow> i \<le> j \<and> j < i + k"
    by (rule burst_apartE)
  have "take i xs = take i ys"
    using l i by (intro nth_equalityI) (auto simp: linorder_not_less [symmetric])
  moreover have "drop (i + k) xs = drop (i + k) ys"
  proof (rule nth_equalityI)
    show "length (drop (i + k) xs) = length (drop (i + k) ys)" using l by simp
    show "drop (i + k) xs ! j = drop (i + k) ys ! j" if "j < length (drop (i + k) xs)" for j
      using i [rule_format, of "i + k + j"] that l by (auto simp: less_diff_conv ac_simps)
  qed
  moreover have "zs = take i zs @ take k (drop i zs) @ drop (i + k) zs" for zs :: bytes
    by (simp only: take_drop_glue append_take_drop_id)
  ultimately show thesis
    using l by (intro that [of "take i xs" "take k (drop i xs)" "drop (i + k) xs" "take k (drop i ys)"])
       (metis, metis, auto)
qed

lemma crc32c_burst:
  assumes "burst_apart 4 xs ys" and "crc32c xs = crc32c ys"
  shows "xs = ys"
  using assms by (auto elim!: burst_apart_split dest: crc32c_window_inject)

text \<open>A message followed by its checksum is a code word: its own checksum is a constant.\<close>

definition crc_residue :: u32 where
  "crc_residue = NOT ((crc_bit_step ^^ 32) (- 1))"

lemma xor_eq_minus_one: "a XOR b = (- 1 :: u32) \<longleftrightarrow> b = NOT a"
proof
  assume "a XOR b = - 1"
  then have "a XOR (a XOR b) = a XOR - 1" by simp
  then show "b = NOT a" by (simp flip: xor.assoc)
qed simp

lemma crc_codeword:
  assumes "length t = 4"
  shows "crc32c m = from_le t \<longleftrightarrow> crc32c (m @ t) = crc_residue"
proof -
  let ?c = "crc_update crc_new m"
  have "crc32c (m @ t) = NOT ((crc_bit_step ^^ 32) (?c XOR from_le t))"
    using assms by (simp add: crc32c_def crc_finish_def crc_update_append crc_update_window
        del: funpow.simps)
  then have "crc32c (m @ t) = crc_residue \<longleftrightarrow> ?c XOR from_le t = - 1"
    unfolding crc_residue_def by (metis bit.double_compl funpow_step_inject)
  then show ?thesis
    by (auto simp: xor_eq_minus_one crc32c_def crc_finish_def)
qed

lemma crc_codeword_burst:
  assumes "burst_apart 4 (m @ t) (m' @ t')" and "length t = 4" and "length t' = 4"
    and "crc32c m = from_le t" and "crc32c m' = from_le t'"
  shows "m @ t = m' @ t'"
  using assms crc_codeword by (intro crc32c_burst) auto

end
