(* ===== verification/Header.thy ===== *)
theory Header
  imports Cursor Crc32c
begin

text \<open>
  The 32-byte header every file begins with (\<open>isha-vector-db-format/src/header.rs\<close>).  The
  main results: what \<open>decode_any\<close> accepts is exactly what \<open>encode\<close> produces for a well-formed
  header, followed by anything (\<open>header_decode_iff\<close>), and a damaged header is refused.
\<close>

definition FORMAT_VERSION :: u16 where
  "FORMAT_VERSION = 2"

definition MIN_READABLE_VERSION :: u16 where
  "MIN_READABLE_VERSION = 1"

definition MAGIC_PREFIX :: bytes where
  "MAGIC_PREFIX = ascii ''VDB1''"

definition HEADER_LEN :: u32 where
  "HEADER_LEN = 32"

definition CRC_COVERS :: nat where
  "CRC_COVERS = 24"

datatype file_kind = Manifest | Catalog | Wal | Vectors | Directory | Metadata | Deleted | Index

primrec tag :: "file_kind \<Rightarrow> bytes" where
  "tag Manifest = ascii ''MANI''"
| "tag Catalog = ascii ''CATL''"
| "tag Wal = ascii ''WAL'' @ [0]"
| "tag Vectors = ascii ''VEC'' @ [0]"
| "tag Directory = ascii ''DIR'' @ [0]"
| "tag Metadata = ascii ''META''"
| "tag Deleted = ascii ''DEL'' @ [0]"
| "tag Index = ascii ''IDX'' @ [0]"

definition magic :: "file_kind \<Rightarrow> bytes" where
  "magic k = (let p = MAGIC_PREFIX; t = tag k in
     [p ! 0, p ! 1, p ! 2, p ! 3, t ! 0, t ! 1, t ! 2, t ! 3])"

definition ALL_KINDS :: "file_kind list" where
  "ALL_KINDS = [Manifest, Catalog, Wal, Vectors, Directory, Metadata, Deleted, Index]"

definition from_tag :: "bytes \<Rightarrow> file_kind option" where
  "from_tag t = List.find (\<lambda>k. tag k = t) ALL_KINDS"

text \<open>\<open>struct HeaderFlags(u16)\<close> is its bits.\<close>

type_synonym header_flags = u16

definition FLAGS_NONE :: header_flags where
  "FLAGS_NONE = 0"

definition FLAGS_COMPRESSED :: header_flags where
  "FLAGS_COMPRESSED = push_bit 0 1"

definition FLAGS_ENCRYPTED :: header_flags where
  "FLAGS_ENCRYPTED = push_bit 1 1"

definition FLAGS_KNOWN :: u16 where
  "FLAGS_KNOWN = 3"

definition is_compressed :: "header_flags \<Rightarrow> bool" where
  "is_compressed f = (f AND FLAGS_COMPRESSED \<noteq> 0)"

definition is_encrypted :: "header_flags \<Rightarrow> bool" where
  "is_encrypted f = (f AND FLAGS_ENCRYPTED \<noteq> 0)"

record file_header =
  fh_kind :: file_kind
  fh_version :: u16
  fh_flags :: header_flags
  fh_header_len :: u32
  fh_payload_len :: u64

definition header_new :: "file_kind \<Rightarrow> u64 \<Rightarrow> file_header" where
  "header_new kind payload_len =
     \<lparr>fh_kind = kind, fh_version = FORMAT_VERSION, fh_flags = FLAGS_NONE,
      fh_header_len = HEADER_LEN, fh_payload_len = payload_len\<rparr>"

definition header_encode :: "file_header \<Rightarrow> bytes" where
  "header_encode h =
     (let w = writer_new;
          w = writer_raw w (magic (fh_kind h));
          w = writer_u16 w (fh_version h);
          w = writer_u16 w (fh_flags h);
          w = writer_u32 w (fh_header_len h);
          w = writer_u64 w (fh_payload_len h);
          crc = crc32c w;
          src = writer_reserved (writer_u32 w crc) 4;
          n = min (length src) (unat HEADER_LEN)
      in take n src @ replicate (unat HEADER_LEN - n) 0)"

definition header_write_to :: "file_header \<Rightarrow> writer \<Rightarrow> writer" where
  "header_write_to h w = writer_raw w (header_encode h)"

definition unknown_magic :: bytes where
  "unknown_magic = take 4 MAGIC_PREFIX @ ascii ''????''"

definition header_decode_any :: "bytes \<Rightarrow> file_header fresult" where
  "header_decode_any bs =
     (let r = reader_new bs in
      rbind (map_err (\<lambda>_. Truncated 0 (ucast HEADER_LEN) (u64_of (length bs))) (reader_array 8 r))
        (\<lambda>(magic, r).
      let prefix = take 4 magic; tag_arr = drop 4 magic in
      if prefix \<noteq> MAGIC_PREFIX then Inl (BadMagic unknown_magic magic) else
      case from_tag tag_arr of
        None \<Rightarrow> Inl (Malformed 4 (UnknownFileKind tag_arr))
      | Some kind \<Rightarrow>
      rbind (reader_u16 r) (\<lambda>(version, r).
      rbind (reader_u16 r) (\<lambda>(flag_bits, r).
      rbind (reader_u32 r) (\<lambda>(header_len, r).
      rbind (reader_u64 r) (\<lambda>(payload_len, r).
      rbind (reader_u32 r) (\<lambda>(stored_crc, r).
      rbind (ok_or (slice bs 0 CRC_COVERS)
          (Truncated 0 (u64_of CRC_COVERS) (u64_of (length bs)))) (\<lambda>covered.
      let computed = crc32c covered in
      if computed \<noteq> stored_crc then Inl (ChecksumMismatch 0 stored_crc computed)
      else if \<not> (MIN_READABLE_VERSION \<le> version \<and> version \<le> FORMAT_VERSION)
      then Inl (UnsupportedVersion version MIN_READABLE_VERSION FORMAT_VERSION)
      else if flag_bits AND NOT FLAGS_KNOWN \<noteq> 0
      then Inl (Malformed 10 (UnknownFlags flag_bits))
      else if header_len < HEADER_LEN then Inl (Malformed 12 HeaderTooShort)
      else rbind (reader_reserved 4 r) (\<lambda>(_, r).
        Inr \<lparr>fh_kind = kind, fh_version = version, fh_flags = flag_bits,
             fh_header_len = header_len, fh_payload_len = payload_len\<rparr>)))))))))"

definition header_decode :: "bytes \<Rightarrow> file_kind \<Rightarrow> file_header fresult" where
  "header_decode bs expected =
     rbind (header_decode_any bs) (\<lambda>header.
       if fh_kind header \<noteq> expected
       then Inl (BadMagic (magic expected) (magic (fh_kind header)))
       else Inr header)"

definition check_file_len :: "file_header \<Rightarrow> u64 \<Rightarrow> unit fresult" where
  "check_file_len h file_len =
     (case checked_add (ucast (fh_header_len h)) (fh_payload_len h) of
        None \<Rightarrow> Inl (Malformed 16 (Inconsistent ''payload_len''))
      | Some needed \<Rightarrow>
          if file_len < needed then Inl (Truncated (ucast (fh_header_len h)) needed file_len)
          else Inr ())"

subsection \<open>Magic numbers\<close>

lemma tag_eqs [simp]:
  "tag Manifest = [0x4D, 0x41, 0x4E, 0x49]"
  "tag Catalog = [0x43, 0x41, 0x54, 0x4C]"
  "tag Wal = [0x57, 0x41, 0x4C, 0]"
  "tag Vectors = [0x56, 0x45, 0x43, 0]"
  "tag Directory = [0x44, 0x49, 0x52, 0]"
  "tag Metadata = [0x4D, 0x45, 0x54, 0x41]"
  "tag Deleted = [0x44, 0x45, 0x4C, 0]"
  "tag Index = [0x49, 0x44, 0x58, 0]"
  by (simp_all add: ascii_def)

lemma MAGIC_PREFIX_eq: "MAGIC_PREFIX = [0x56, 0x44, 0x42, 0x31]"
  by (simp add: MAGIC_PREFIX_def ascii_def)

declare tag.simps [simp del]

lemma from_tag_tag [simp]: "from_tag (tag k) = Some k"
  by (cases k) (simp_all add: from_tag_def ALL_KINDS_def)

lemma from_tag_Some: "from_tag t = Some k \<Longrightarrow> t = tag k"
  by (auto simp: from_tag_def find_Some_iff)

lemma length_tag [simp]: "length (tag k) = 4"
  by (cases k) simp_all

lemma magic_eq: "magic k = MAGIC_PREFIX @ tag k"
  by (cases k) (simp_all add: magic_def MAGIC_PREFIX_eq)

lemma length_MAGIC_PREFIX [simp]: "length MAGIC_PREFIX = 4"
  by (simp add: MAGIC_PREFIX_eq)

lemma length_magic [simp]: "length (magic k) = 8"
  by (simp add: magic_eq)

lemma take_magic [simp]: "take 4 (magic k) = MAGIC_PREFIX"
  and drop_magic [simp]: "drop 4 (magic k) = tag k"
  by (simp_all add: magic_eq)

lemma magic_inject [simp]: "magic k = magic l \<longleftrightarrow> k = l"
  by (metis from_tag_tag magic_eq option.inject same_append_eq)

subsection \<open>Encoding and decoding\<close>

definition header_prefix :: "file_header \<Rightarrow> bytes" where
  "header_prefix h = magic (fh_kind h) @ to_le 2 (fh_version h) @ to_le 2 (fh_flags h)
     @ to_le 4 (fh_header_len h) @ to_le 8 (fh_payload_len h)"

definition header_ok :: "file_header \<Rightarrow> bool" where
  "header_ok h \<longleftrightarrow> MIN_READABLE_VERSION \<le> fh_version h \<and> fh_version h \<le> FORMAT_VERSION
     \<and> fh_flags h AND NOT FLAGS_KNOWN = 0 \<and> HEADER_LEN \<le> fh_header_len h"

lemma length_header_prefix [simp]: "length (header_prefix h) = 24"
  by (simp add: header_prefix_def)

lemma header_encode_eq:
  "header_encode h = header_prefix h @ to_le 4 (crc32c (header_prefix h)) @ replicate 4 0"
  by (simp add: header_encode_def Let_def codec_simps header_prefix_def HEADER_LEN_def
      del: to_le.simps replicate.simps)

lemma length_header_encode [simp]: "length (header_encode h) = 32"
  by (simp add: header_encode_eq)

lemma header_ok_new [simp]: "header_ok (header_new k n)"
  by (simp add: header_ok_def header_new_def MIN_READABLE_VERSION_def FORMAT_VERSION_def
      FLAGS_NONE_def HEADER_LEN_def)

lemma header_decode_any_encode:
  assumes "header_ok h"
  shows "header_decode_any (header_encode h @ rest) = Inr h"
proof -
  let ?bs = "header_encode h @ rest"
  have covered: "slice ?bs 0 CRC_COVERS = Some (header_prefix h)"
    by (simp add: slice_def CRC_COVERS_def header_encode_eq)
  have u: "unread (reader_new ?bs) (magic (fh_kind h) @ to_le 2 (fh_version h)
      @ to_le 2 (fh_flags h) @ to_le 4 (fh_header_len h) @ to_le 8 (fh_payload_len h)
      @ to_le 4 (crc32c (header_prefix h)) @ replicate 4 0 @ rest)"
    by (simp add: header_encode_eq header_prefix_def del: to_le.simps)
  show ?thesis
    unfolding header_decode_any_def Let_def covered
    apply (rule codec_steps, rule u, simp)
    apply (simp only: take_magic drop_magic from_tag_tag option.case simp_thms if_False ok_or_simps)
    apply (rule codec_steps, assumption, rule TrueI)+
    using assms by (simp add: header_ok_def not_less, intro codec_steps) simp_all
qed

lemma header_decode_any_sound:
  assumes "header_decode_any bs = Inr h"
  shows "header_ok h" and "\<exists>rest. bs = header_encode h @ rest"
proof -
  let ?r = "reader_new bs"
  from assms obtain m r1 kind where m: "reader_array 8 ?r = Inr (m, r1)"
    and pre: "take 4 m = MAGIC_PREFIX" and k: "from_tag (drop 4 m) = Some kind"
    and rest: "header_decode_any bs = Inr h"
    by (auto simp: header_decode_any_def Let_def elim!: rbind_InrE split: if_splits option.splits)
  have mk: "m = magic kind"
    using pre from_tag_Some [OF k] append_take_drop_id [of 4 m] by (simp add: magic_eq)
  from arrayc.dec_unread [OF m, of bs] obtain xs where r1: "unread r1 xs" and bs: "bs = m @ xs"
    by auto
  from rest m pre k obtain v fl hl pl c r2 r3 r4 r5 r6 r7 where
      1: "reader_u16 r1 = Inr (v, r2)" and 2: "reader_u16 r2 = Inr (fl, r3)"
    and 3: "reader_u32 r3 = Inr (hl, r4)" and 4: "reader_u64 r4 = Inr (pl, r5)"
    and 5: "reader_u32 r5 = Inr (c, r6)" and 6: "reader_reserved 4 r6 = Inr ((), r7)"
    and c: "slice bs 0 CRC_COVERS = Some (take 24 bs)" "crc32c (take 24 bs) = c"
    and ok: "header_ok h"
    and h: "h = \<lparr>fh_kind = kind, fh_version = v, fh_flags = fl, fh_header_len = hl, fh_payload_len = pl\<rparr>"
    by (auto simp: header_decode_any_def Let_def header_ok_def slice_def CRC_COVERS_def not_less
        elim!: rbind_InrE split: if_splits option.splits)
  show "header_ok h" by (rule ok)
  from 1 2 3 4 5 6 r1
  obtain t where "xs = to_le 2 v @ to_le 2 fl @ to_le 4 hl @ to_le 8 pl @ to_le 4 c @ replicate 4 0 @ t"
    by - (drule (1) codec_dests, clarsimp)+
  with bs mk h have "bs = header_prefix h @ to_le 4 c @ replicate 4 0 @ t"
    by (simp add: header_prefix_def del: to_le.simps)
  with c(2) show "\<exists>rest. bs = header_encode h @ rest"
    by (auto simp: header_encode_eq)
qed

lemma header_decode_iff:
  "header_decode_any bs = Inr h \<longleftrightarrow> header_ok h \<and> (\<exists>rest. bs = header_encode h @ rest)"
  using header_decode_any_encode header_decode_any_sound by blast

end
