(* ===== verification/Block.thy ===== *)
theory Block
  imports Header
begin

text \<open>
  Checksummed blocks \<open>header || payload || crc32c(payload)\<close>
  (\<open>isha-vector-db-format/src/block.rs\<close>), the shape of every whole-file structure.  Shown:
  \<open>decode_block\<close> inverts \<open>encode_block\<close>, accepts only such bytes (\<open>decode_block_iff\<close>),
  agrees with \<open>open_block\<close> and \<open>verify_block\<close>, and refuses a block in which any run of at
  most four consecutive bytes, wherever it lies, was changed.
\<close>

definition TRAILER_LEN :: nat where
  "TRAILER_LEN = 4"

definition encode_block :: "file_kind \<Rightarrow> bytes \<Rightarrow> bytes" where
  "encode_block kind payload =
     (let w = header_write_to (header_new kind (u64_of (length payload))) writer_new
      in writer_u32 (writer_raw w payload) (crc32c payload))"

definition locate :: "bytes \<Rightarrow> file_kind \<Rightarrow> (nat \<times> nat) fresult" where
  "locate bs kind =
     rbind (header_decode bs kind) (\<lambda>header.
       let start = unat (fh_header_len header);
           payload_len = unat (fh_payload_len header);
           end = start + payload_len + TRAILER_LEN
       in if end \<ge> 2 ^ 64
          then Inl (Truncated (ucast (fh_header_len header)) (fh_payload_len header) (u64_of (length bs)))
          else if length bs < end
          then Inl (Truncated (ucast (fh_header_len header)) (u64_of end) (u64_of (length bs)))
          else Inr (start, payload_len))"

definition open_block :: "bytes \<Rightarrow> file_kind \<Rightarrow> bytes fresult" where
  "open_block bs kind =
     rbind (locate bs kind) (\<lambda>(start, len).
       ok_or (slice bs start (start + len))
         (Truncated (u64_of start) (u64_of (start + len)) (u64_of (length bs))))"

definition check_payload :: "bytes \<Rightarrow> nat \<Rightarrow> nat \<Rightarrow> unit fresult" where
  "check_payload bs start len =
     rbind (ok_or (slice bs start (start + len))
         (Truncated (u64_of start) (u64_of (start + len)) (u64_of (length bs)))) (\<lambda>payload.
     let trailer_at = start + len in
     rbind (ok_or (map_option from_le (slice bs trailer_at (trailer_at + TRAILER_LEN)))
         (Truncated (u64_of trailer_at) (u64_of TRAILER_LEN) (u64_of (length bs)))) (\<lambda>stored.
     let computed = crc32c payload in
     if computed \<noteq> stored then Inl (ChecksumMismatch (u64_of start) stored computed)
     else Inr ()))"

definition decode_block :: "bytes \<Rightarrow> file_kind \<Rightarrow> bytes fresult" where
  "decode_block bs kind =
     rbind (locate bs kind) (\<lambda>(start, len).
     rbind (check_payload bs start len) (\<lambda>_.
       ok_or (slice bs start (start + len))
         (Truncated (u64_of start) (u64_of (start + len)) (u64_of (length bs)))))"

definition verify_block :: "bytes \<Rightarrow> file_kind \<Rightarrow> unit fresult" where
  "verify_block bs kind =
     rbind (locate bs kind) (\<lambda>(start, len). check_payload bs start len)"

subsection \<open>What a block is\<close>

text \<open>
  \<open>is_block h ext pl t rest bs\<close>: the bytes are a header \<open>h\<close>, the extension region it
  declares, the payload \<open>pl\<close>, a four-byte trailer \<open>t\<close> and whatever follows.
\<close>

definition is_block :: "file_header \<Rightarrow> bytes \<Rightarrow> bytes \<Rightarrow> bytes \<Rightarrow> bytes \<Rightarrow> bytes \<Rightarrow> bool" where
  "is_block h ext pl t rest bs \<longleftrightarrow> header_ok h
     \<and> bs = header_encode h @ ext @ pl @ t @ rest
     \<and> length ext = unat (fh_header_len h) - 32 \<and> length pl = unat (fh_payload_len h)
     \<and> length t = 4 \<and> unat (fh_header_len h) + length pl + 4 < 2 ^ 64"

lemma encode_block_eq:
  "encode_block kind pl = header_encode (header_new kind (u64_of (length pl))) @ pl @ to_le 4 (crc32c pl)"
  by (simp add: encode_block_def header_write_to_def codec_simps Let_def)

lemma header_ok_len: "header_ok h \<Longrightarrow> 32 \<le> unat (fh_header_len h)"
  by (simp add: header_ok_def HEADER_LEN_def word_le_nat_alt)

lemma is_block_encode:
  "length pl + 36 < 2 ^ 64 \<Longrightarrow>
   is_block (header_new kind (u64_of (length pl))) [] pl (to_le 4 (crc32c pl)) rest (encode_block kind pl @ rest)"
  by (simp add: is_block_def encode_block_eq header_new_def HEADER_LEN_def)
     (simp add: header_ok_new [unfolded header_new_def HEADER_LEN_def])

lemma locate_iff:
  "locate bs kind = Inr (start, len) \<longleftrightarrow>
     (\<exists>h ext pl t rest. is_block h ext pl t rest bs \<and> fh_kind h = kind
        \<and> start = unat (fh_header_len h) \<and> len = length pl)"
  (is "?l \<longleftrightarrow> ?r")
proof
  assume ?l
  then obtain h where d: "header_decode_any bs = Inr h" and k: "fh_kind h = kind"
    and s: "start = unat (fh_header_len h)" "len = unat (fh_payload_len h)"
    and n: "start + len + 4 < 2 ^ 64" "start + len + 4 \<le> length bs"
    by (auto simp: locate_def header_decode_def Let_def TRAILER_LEN_def
        elim!: rbind_InrE split: if_splits)
  from d obtain tl where ok: "header_ok h" and bs: "bs = header_encode h @ tl"
    by (auto simp: header_decode_iff)
  have 32: "32 \<le> start" using header_ok_len [OF ok] s by simp
  define ext where "ext = take (start - 32) tl"
  define pl where "pl = take len (drop (start - 32) tl)"
  define t where "t = take 4 (drop (start - 32 + len) tl)"
  define rest where "rest = drop (start - 32 + len + 4) tl"
  have "tl = ext @ pl @ t @ rest"
    unfolding ext_def pl_def t_def rest_def
    by (simp only: take_drop_glue append_take_drop_id)
  moreover have "length ext = start - 32" "length pl = len" "length t = 4"
    using n(2) 32 bs by (auto simp: ext_def pl_def t_def)
  ultimately show ?r
    using ok bs s n(1) k
    by (intro exI [of _ h] exI [of _ ext] exI [of _ pl] exI [of _ t] exI [of _ rest])
       (simp add: is_block_def)
next
  assume ?r
  then obtain h ext pl t rest where b: "is_block h ext pl t rest bs" "fh_kind h = kind"
    "start = unat (fh_header_len h)" "len = length pl" by blast
  then have "header_decode_any bs = Inr h"
    by (auto simp: is_block_def header_decode_iff)
  then show ?l
    using b header_ok_len [of h]
    by (auto simp: locate_def header_decode_def is_block_def TRAILER_LEN_def Let_def)
qed

lemma is_block_slices:
  assumes "is_block h ext pl t rest bs"
  shows "slice bs (unat (fh_header_len h)) (unat (fh_header_len h) + length pl) = Some pl"
    and "slice bs (unat (fh_header_len h) + length pl) (unat (fh_header_len h) + length pl + 4) = Some t"
proof -
  have l: "length (header_encode h @ ext) = unat (fh_header_len h)"
    using assms header_ok_len [of h] by (auto simp: is_block_def)
  show "slice bs (unat (fh_header_len h)) (unat (fh_header_len h) + length pl) = Some pl"
    using assms slice_append_mid [OF l, of _ pl "t @ rest"] by (simp add: is_block_def)
  show "slice bs (unat (fh_header_len h) + length pl) (unat (fh_header_len h) + length pl + 4) = Some t"
    using assms l slice_append_mid [of "header_encode h @ ext @ pl" "unat (fh_header_len h) + length pl" _ t rest]
    by (simp add: is_block_def)
qed

lemma is_block_unique:
  assumes "is_block h ext pl t rest bs" and "is_block h' ext' pl' t' rest' bs"
  shows "h = h'" and "pl = pl'" and "t = t'" and "ext = ext'" and "rest = rest'"
proof -
  have "header_decode_any bs = Inr h" "header_decode_any bs = Inr h'"
    using assms by (auto simp: is_block_def header_decode_iff)
  then show "h = h'" by simp
  then show "pl = pl'" "t = t'" "ext = ext'" "rest = rest'"
    using assms by (auto simp: is_block_def)
qed

lemma open_block_iff:
  "open_block bs kind = Inr pl \<longleftrightarrow> (\<exists>h ext t rest. is_block h ext pl t rest bs \<and> fh_kind h = kind)"
proof
  assume "open_block bs kind = Inr pl"
  then obtain start len where l: "locate bs kind = Inr (start, len)"
    and s: "slice bs start (start + len) = Some pl"
    by (auto simp: open_block_def ok_or_def elim!: rbind_InrE split: option.splits)
  then show "\<exists>h ext t rest. is_block h ext pl t rest bs \<and> fh_kind h = kind"
    using is_block_slices(1) by (fastforce simp: locate_iff)
next
  assume "\<exists>h ext t rest. is_block h ext pl t rest bs \<and> fh_kind h = kind"
  then obtain h ext t rest where b: "is_block h ext pl t rest bs" "fh_kind h = kind" by blast
  then have "locate bs kind = Inr (unat (fh_header_len h), length pl)"
    unfolding locate_iff by blast
  with is_block_slices [OF b(1)] show "open_block bs kind = Inr pl"
    by (simp add: open_block_def)
qed

lemma check_payload_block:
  "is_block h ext pl t rest bs \<Longrightarrow>
   check_payload bs (unat (fh_header_len h)) (length pl) =
     (if crc32c pl \<noteq> from_le t
      then Inl (ChecksumMismatch (u64_of (unat (fh_header_len h))) (from_le t) (crc32c pl))
      else Inr ())"
  by (simp add: check_payload_def Let_def TRAILER_LEN_def is_block_slices)

text \<open>\<open>decode_block\<close> is \<open>open_block\<close> followed by \<open>verify_block\<close>.\<close>

lemma decode_block_split:
  "decode_block bs kind = Inr pl \<longleftrightarrow> open_block bs kind = Inr pl \<and> verify_block bs kind = Inr ()"
  by (auto simp: decode_block_def open_block_def verify_block_def rbind_eq_Inr_iff)

lemma verify_block_iff:
  "is_block h ext pl t rest bs \<Longrightarrow> fh_kind h = kind \<Longrightarrow>
   verify_block bs kind = Inr () \<longleftrightarrow> crc32c pl = from_le t"
proof -
  assume b: "is_block h ext pl t rest bs" "fh_kind h = kind"
  then have "locate bs kind = Inr (unat (fh_header_len h), length pl)"
    unfolding locate_iff by blast
  with check_payload_block [OF b(1)] show ?thesis
    by (simp add: verify_block_def)
qed

lemma decode_block_iff:
  "decode_block bs kind = Inr pl \<longleftrightarrow>
     (\<exists>h ext rest. is_block h ext pl (to_le 4 (crc32c pl)) rest bs \<and> fh_kind h = kind)"
proof
  assume "decode_block bs kind = Inr pl"
  then obtain h ext t rest where b: "is_block h ext pl t rest bs" "fh_kind h = kind"
    and v: "verify_block bs kind = Inr ()"
    by (auto simp: decode_block_split open_block_iff)
  have "to_le 4 (crc32c pl) = t"
    using v verify_block_iff [OF b] b(1) to_le_from_le [of t 4, where 'a = 32]
    by (simp add: is_block_def)
  with b show "\<exists>h ext rest. is_block h ext pl (to_le 4 (crc32c pl)) rest bs \<and> fh_kind h = kind"
    by blast
next
  assume "\<exists>h ext rest. is_block h ext pl (to_le 4 (crc32c pl)) rest bs \<and> fh_kind h = kind"
  then obtain h ext rest where b: "is_block h ext pl (to_le 4 (crc32c pl)) rest bs" "fh_kind h = kind"
    by blast
  then show "decode_block bs kind = Inr pl"
    using verify_block_iff [OF b] from_le_to_le [of 4 "crc32c pl"]
    by (auto simp: decode_block_split open_block_iff)
qed

lemma decode_block_encode:
  "length pl + 36 < 2 ^ 64 \<Longrightarrow> decode_block (encode_block kind pl @ rest) kind = Inr pl"
  unfolding decode_block_iff
  by (intro exI conjI, rule is_block_encode) (simp_all add: header_new_def)

lemma open_block_encode:
  "length pl + 36 < 2 ^ 64 \<Longrightarrow> open_block (encode_block kind pl @ rest) kind = Inr pl"
  using decode_block_encode decode_block_split by blast

subsection \<open>Damage is detected\<close>

lemma header_encode_inject: "header_ok h \<Longrightarrow> header_ok h' \<Longrightarrow> header_encode h = header_encode h' \<Longrightarrow> h = h'"
  using header_decode_any_encode [of h "[]"] header_decode_any_encode [of h' "[]"] by simp

lemma header_codeword:
  "take 28 (header_encode h @ xs) = header_prefix h @ to_le 4 (crc32c (header_prefix h))"
  by (simp add: header_encode_eq)

lemma header_encode_split: "header_encode h = take 28 (header_encode h) @ replicate 4 0"
  by (simp add: header_encode_eq)

lemma header_burst:
  assumes "header_ok h" "header_ok h'" and "burst_apart 4 (header_encode h @ xs) (header_encode h' @ ys)"
  shows "h = h'"
proof -
  have "take 28 (header_encode h @ xs) = take 28 (header_encode h' @ ys)"
    using burst_apart_take [OF assms(3), of 28] unfolding header_codeword
    by (rule crc_codeword_burst) (simp_all add: from_le_to_le)
  then have "take 28 (header_encode h) = take 28 (header_encode h')" by simp
  then have "header_encode h = header_encode h'"
    using header_encode_split [of h] header_encode_split [of h'] by (metis (no_types))
  with assms(1,2) show ?thesis by (rule header_encode_inject)
qed

lemma encode_block_burst:
  assumes "length pl + 36 < 2 ^ 64" and "burst_apart 4 (encode_block kind pl) bs"
    and "decode_block bs kind = Inr pl'"
  shows "bs = encode_block kind pl"
proof -
  let ?h = "header_new kind (u64_of (length pl))"
  from assms(3) obtain h ext rest where b: "is_block h ext pl' (to_le 4 (crc32c pl')) rest bs"
    by (auto simp: decode_block_iff)
  then have ok: "header_ok h" and bs: "bs = header_encode h @ ext @ pl' @ to_le 4 (crc32c pl') @ rest"
    by (simp_all add: is_block_def)
  have h: "?h = h"
    using assms(2) ok unfolding encode_block_eq bs by (intro header_burst) (simp_all add: header_burst)
  then have "fh_header_len h = 32" "unat (fh_payload_len h) = length pl"
    using assms(1) by (auto simp: header_new_def HEADER_LEN_def)
  with b have ext: "ext = []" and pl': "length pl' = length pl" by (simp_all add: is_block_def)
  have "length bs = length (encode_block kind pl)"
    using assms(2) by (simp add: burst_apart_def)
  then have rest: "rest = []" using ext pl' unfolding bs encode_block_eq by simp
  have "burst_apart 4 (pl @ to_le 4 (crc32c pl)) (pl' @ to_le 4 (crc32c pl'))"
    using burst_apart_drop [OF assms(2), of 32] by (simp add: bs ext rest encode_block_eq del: to_le.simps)
  then have "pl @ to_le 4 (crc32c pl) = pl' @ to_le 4 (crc32c pl')"
    by (rule crc_codeword_burst) (simp_all add: from_le_to_le)
  then show ?thesis by (simp add: bs ext rest encode_block_eq flip: h)
qed

subsection \<open>A block cut short\<close>

lemma decode_block_prefix:
  assumes "length pl + 36 < 2 ^ 64" and "encode_block kind pl = bs @ suf" and "suf \<noteq> []"
  shows "\<not> is_ok (decode_block bs kind)"
proof
  assume "is_ok (decode_block bs kind)"
  then obtain pl' where "decode_block bs kind = Inr pl'" by (rule is_okE)
  then obtain h ext rest where b: "is_block h ext pl' (to_le 4 (crc32c pl')) rest bs"
    by (auto simp: decode_block_iff)
  then have "is_block h ext pl' (to_le 4 (crc32c pl')) (rest @ suf) (bs @ suf)"
    by (simp add: is_block_def)
  from is_block_unique [OF this, of "header_new kind (u64_of (length pl))" "[]" pl "to_le 4 (crc32c pl)" "[]"]
    is_block_encode [OF assms(1), of kind "[]"] assms(2,3) show False by simp
qed

end
