(* ===== verification/Manifest_Format.thy ===== *)
theory Manifest_Format
  imports Block
begin

text \<open>
  The database root record and its two slots (\<open>isha-vector-db-format/src/manifest.rs\<close>).
  Shown: a manifest round trips and decodes from nothing but its own payload; a slot that was
  cut anywhere is never valid; and whatever a commit leaves behind in the slot it writes, the
  scan returns either the new manifest or the one that was authoritative before.
\<close>

datatype slot = SlotA | SlotB

primrec slot_other :: "slot \<Rightarrow> slot" where
  "slot_other SlotA = SlotB"
| "slot_other SlotB = SlotA"

primrec slot_file_name :: "slot \<Rightarrow> string" where
  "slot_file_name SlotA = ''MANIFEST-A''"
| "slot_file_name SlotB = ''MANIFEST-B''"

record segment_ref =
  sr_id :: u64
  sr_rows :: u32
  sr_del_generation :: u32

record collection_entry =
  ce_name :: rust_string
  ce_segments :: "segment_ref list"
  ce_index_snapshot :: "u64 option"
  ce_last_applied_wal :: u64
  ce_live_count :: u64
  ce_total_rows :: u64

record manifest =
  m_sequence :: u64
  m_db_uuid :: bytes
  m_created_at_ms :: u64
  m_updated_at_ms :: u64
  m_collections :: "collection_entry list"

definition manifest_new :: "bytes \<Rightarrow> u64 \<Rightarrow> manifest" where
  "manifest_new db_uuid now_ms =
     \<lparr>m_sequence = 1, m_db_uuid = db_uuid, m_created_at_ms = now_ms, m_updated_at_ms = now_ms,
      m_collections = []\<rparr>"

definition manifest_collection :: "manifest \<Rightarrow> rust_string \<Rightarrow> collection_entry option" where
  "manifest_collection m name = List.find (\<lambda>c. ce_name c = name) (m_collections m)"

subsection \<open>Validation\<close>

fun check_segment_order :: "u64 option \<Rightarrow> segment_ref list \<Rightarrow> unit fresult" where
  "check_segment_order last_id [] = Inr ()"
| "check_segment_order last_id (s # ss) =
     (case last_id of
        Some prev \<Rightarrow>
          if sr_id s \<le> prev then Inl (Malformed 0 (Inconsistent ''segment order''))
          else check_segment_order (Some (sr_id s)) ss
      | None \<Rightarrow> check_segment_order (Some (sr_id s)) ss)"

definition segment_rows :: "segment_ref list \<Rightarrow> u64" where
  "segment_rows ss = sum_list (map (\<lambda>s. ucast (sr_rows s)) ss)"

definition validate_entry :: "collection_entry \<Rightarrow> unit fresult" where
  "validate_entry c =
     (if ce_name c = [] then Inl (Malformed 0 (ZeroNotAllowed ''collection name''))
      else rbind (check_segment_order None (ce_segments c)) (\<lambda>_.
      if ce_total_rows c \<noteq> segment_rows (ce_segments c)
      then Inl (Malformed 0 (Inconsistent ''total_rows''))
      else if ce_live_count c > ce_total_rows c then Inl (Malformed 0 (Inconsistent ''live_count''))
      else Inr ()))"

definition manifest_validate :: "manifest \<Rightarrow> unit fresult" where
  "manifest_validate m =
     (let names = sort (map ce_name (m_collections m)); before = length names in
      if length (remdups_adj names) \<noteq> before then Inl (Malformed 0 DuplicateKey)
      else try_fold (\<lambda>c _. validate_entry c) (m_collections m) ())"

subsection \<open>Encoding\<close>

definition write_segment_ref :: "segment_ref \<Rightarrow> writer \<Rightarrow> writer" where
  "write_segment_ref s w =
     writer_varint (writer_u32 (writer_varint w (sr_id s)) (sr_rows s)) (ucast (sr_del_generation s))"

definition write_collection :: "collection_entry \<Rightarrow> writer \<Rightarrow> writer" where
  "write_collection c w =
     (let w = writer_varint (writer_string w (ce_name c)) (u64_of (length (ce_segments c)));
          w = fold write_segment_ref (ce_segments c) w;
          w = (case ce_index_snapshot c of
                 None \<Rightarrow> writer_varint w 0
               | Some i \<Rightarrow> writer_varint w (sat_add i 1))
      in writer_reserved (writer_varint (writer_varint (writer_varint w
           (ce_last_applied_wal c)) (ce_live_count c)) (ce_total_rows c)) 4)"

definition manifest_encode :: "manifest \<Rightarrow> bytes fresult" where
  "manifest_encode m =
     rbind (manifest_validate m) (\<lambda>_.
     let w = writer_u64 writer_new (m_sequence m);
         w = writer_raw w (m_db_uuid m);
         w = writer_u64 w (m_created_at_ms m);
         w = writer_u64 w (m_updated_at_ms m);
         w = writer_varint w (u64_of (length (m_collections m)));
         w = fold write_collection (m_collections m) w;
         w = writer_reserved w 8
     in Inr (encode_block Manifest w))"

subsection \<open>Decoding\<close>

definition bounded :: "u64 \<Rightarrow> nat \<Rightarrow> u64 \<Rightarrow> nat fresult" where
  "bounded claimed max_possible at =
     (if unat claimed > max_possible then Inl (LengthExceedsInput at claimed (u64_of max_possible))
      else Inr (unat claimed))"

text \<open>A count, checked against what the rest of the input could hold, and that many items.\<close>

definition read_counted :: "nat \<Rightarrow> 'a decoder \<Rightarrow> 'a list decoder" where
  "read_counted min_len item r =
     (let at = offset r in
      rbind (reader_varint r) (\<lambda>(count, r).
      rbind (bounded count (remaining r div min_len) at) (\<lambda>count.
        read_times count item r)))"

definition read_segment_ref :: "u64 \<Rightarrow> segment_ref decoder" where
  "read_segment_ref seg_at r =
     rbind (reader_varint r) (\<lambda>(i, r).
     rbind (reader_u32 r) (\<lambda>(rows, r).
     rbind (reader_varint r) (\<lambda>(g, r).
       if unat g < 2 ^ 32
       then Inr (\<lparr>sr_id = i, sr_rows = rows, sr_del_generation = ucast g\<rparr>, r)
       else Inl (Malformed seg_at (Inconsistent ''del_generation'')))))"

definition read_collection :: "collection_entry decoder" where
  "read_collection r =
     rbind (reader_string r) (\<lambda>(name, r).
     let seg_at = offset r in
     rbind (read_counted 6 (read_segment_ref seg_at) r) (\<lambda>(segments, r).
     rbind (reader_varint r) (\<lambda>(snapshot, r).
     let index_snapshot = (if snapshot = 0 then None else Some (snapshot - 1)) in
     rbind (reader_varint r) (\<lambda>(last_applied_wal, r).
     rbind (reader_varint r) (\<lambda>(live_count, r).
     rbind (reader_varint r) (\<lambda>(total_rows, r).
     rbind (reader_reserved 4 r) (\<lambda>(_, r).
       Inr (\<lparr>ce_name = name, ce_segments = segments, ce_index_snapshot = index_snapshot,
             ce_last_applied_wal = last_applied_wal, ce_live_count = live_count,
             ce_total_rows = total_rows\<rparr>, r))))))))"

definition manifest_decode :: "bytes \<Rightarrow> manifest fresult" where
  "manifest_decode bs =
     rbind (decode_block bs Manifest) (\<lambda>payload.
     let r = reader_new payload in
     rbind (reader_u64 r) (\<lambda>(sequence, r).
     rbind (reader_array 16 r) (\<lambda>(db_uuid, r).
     rbind (reader_u64 r) (\<lambda>(created_at_ms, r).
     rbind (reader_u64 r) (\<lambda>(updated_at_ms, r).
     rbind (read_counted 8 read_collection r) (\<lambda>(collections, r).
     rbind (reader_reserved 8 r) (\<lambda>(_, r).
     rbind (expect_end ''manifest'' r) (\<lambda>_.
     let m = \<lparr>m_sequence = sequence, m_db_uuid = db_uuid, m_created_at_ms = created_at_ms,
              m_updated_at_ms = updated_at_ms, m_collections = collections\<rparr> in
     rbind (manifest_validate m) (\<lambda>_. Inr m)))))))))"

subsection \<open>The two slots\<close>

datatype slot_status = Missing | Invalid format_error | Valid manifest

definition examine :: "bytes option \<Rightarrow> slot_status" where
  "examine bs = (case bs of
      None \<Rightarrow> Missing
    | Some b \<Rightarrow> (case manifest_decode b of Inr m \<Rightarrow> Valid m | Inl e \<Rightarrow> Invalid e))"

record slot_scan =
  ss_chosen :: "(slot \<times> manifest) option"
  ss_a :: slot_status
  ss_b :: slot_status

definition scan_slots :: "bytes option \<Rightarrow> bytes option \<Rightarrow> slot_scan" where
  "scan_slots a b =
     (let sa = examine a; sb = examine b;
          chosen = (case (sa, sb) of
              (Valid ma, Valid mb) \<Rightarrow>
                if m_sequence mb > m_sequence ma then Some (SlotB, mb) else Some (SlotA, ma)
            | (Valid ma, _) \<Rightarrow> Some (SlotA, ma)
            | (_, Valid mb) \<Rightarrow> Some (SlotB, mb)
            | _ \<Rightarrow> None)
      in \<lparr>ss_chosen = chosen, ss_a = sa, ss_b = sb\<rparr>)"

definition next_slot :: "slot_scan \<Rightarrow> slot" where
  "next_slot s = (case ss_chosen s of Some (slot, _) \<Rightarrow> slot_other slot | None \<Rightarrow> SlotA)"

subsection \<open>The bytes of a manifest\<close>

definition segment_ref_bytes :: "segment_ref \<Rightarrow> bytes" where
  "segment_ref_bytes s = varint_bytes (sr_id s) @ to_le 4 (sr_rows s) @ varint_bytes (ucast (sr_del_generation s))"

definition counted_bytes :: "('a \<Rightarrow> bytes) \<Rightarrow> 'a list \<Rightarrow> bytes" where
  "counted_bytes enc xs = varint_bytes (u64_of (length xs)) @ concat (map enc xs)"

definition snapshot_code :: "u64 option \<Rightarrow> u64" where
  "snapshot_code s = (case s of None \<Rightarrow> 0 | Some i \<Rightarrow> sat_add i 1)"

definition collection_bytes :: "collection_entry \<Rightarrow> bytes" where
  "collection_bytes c = blob_bytes (ce_name c) @ counted_bytes segment_ref_bytes (ce_segments c)
     @ varint_bytes (snapshot_code (ce_index_snapshot c)) @ varint_bytes (ce_last_applied_wal c)
     @ varint_bytes (ce_live_count c) @ varint_bytes (ce_total_rows c) @ replicate 4 0"

definition manifest_payload :: "manifest \<Rightarrow> bytes" where
  "manifest_payload m = to_le 8 (m_sequence m) @ m_db_uuid m @ to_le 8 (m_created_at_ms m)
     @ to_le 8 (m_updated_at_ms m) @ counted_bytes collection_bytes (m_collections m) @ replicate 8 0"

text \<open>
  What the Rust types guarantee, plus the one value the encoding cannot carry: a snapshot id
  of \<open>u64::MAX\<close>.
\<close>

definition entry_wf :: "collection_entry \<Rightarrow> bool" where
  "entry_wf c \<longleftrightarrow> string_ok (ce_name c) \<and> length (ce_segments c) < 2 ^ 64 \<and> ce_index_snapshot c \<noteq> Some (- 1)"

definition manifest_wf :: "manifest \<Rightarrow> bool" where
  "manifest_wf m \<longleftrightarrow> length (m_db_uuid m) = 16 \<and> length (m_collections m) < 2 ^ 64
     \<and> (\<forall>c \<in> set (m_collections m). entry_wf c)"

lemma fold_appends: "(\<And>x w. f x w = w @ enc x) \<Longrightarrow> fold f xs w = w @ concat (map enc xs)"
  by (induction xs arbitrary: w) auto

lemma write_segment_ref_eq: "write_segment_ref s w = w @ segment_ref_bytes s"
  by (simp add: write_segment_ref_def segment_ref_bytes_def codec_simps)

lemma write_collection_eq: "write_collection c w = w @ collection_bytes c"
  by (simp add: write_collection_def collection_bytes_def counted_bytes_def snapshot_code_def Let_def codec_simps
      fold_appends [OF write_segment_ref_eq] split: option.split)

lemma manifest_encode_eq:
  "manifest_encode m = rbind (manifest_validate m) (\<lambda>_. Inr (encode_block Manifest (manifest_payload m)))"
  by (simp add: manifest_encode_def manifest_payload_def counted_bytes_def Let_def codec_simps
      fold_appends [OF write_collection_eq] del: to_le.simps)

subsection \<open>Reading it back\<close>

lemma bounded_sound: "bounded c k at = Inr n \<Longrightarrow> n = unat c"
  by (simp add: bounded_def split: if_splits)

lemma counted_codec:
  assumes "codec enc dec ok" and "0 < k" and min: "\<And>x. ok x \<Longrightarrow> k \<le> length (enc x)"
  shows "codec (counted_bytes enc) (read_counted k dec) (\<lambda>xs. length xs < 2 ^ 64 \<and> (\<forall>x \<in> set xs. ok x))"
proof
  fix xs r rest
  assume ok: "length xs < 2 ^ 64 \<and> (\<forall>x \<in> set xs. ok x)" and "unread r (counted_bytes enc xs @ rest)"
  then have u: "unread r (varint_bytes (u64_of (length xs)) @ concat (map enc xs) @ rest)"
    by (simp add: counted_bytes_def)
  have "k * length xs \<le> length (concat (map enc xs))"
    using min ok by (induction xs) fastforce+
  then have le: "length xs \<le> (length (concat (map enc xs)) + length rest) div k"
    using assms(2) by (simp add: less_eq_div_iff_mult_less_eq mult.commute trans_le_add1)
  show "read_counted k dec r = Inr (xs, advance (length (counted_bytes enc xs)) r)"
    unfolding read_counted_def Let_def
  proof (rule varintc.rbind_dec [OF u TrueI])
    fix r'
    assume r': "r' = advance (length (varint_bytes (u64_of (length xs)))) r"
      and u': "unread r' (concat (map enc xs) @ rest)"
    have "bounded (u64_of (length xs)) (remaining r' div k) (offset r) = Inr (length xs)"
      using ok le unread_remaining [OF u'] by (simp add: bounded_def)
    with codec.times_enc [OF assms(1) _ u'] ok r'
    show "rbind (bounded (u64_of (length xs)) (remaining r' div k) (offset r)) (\<lambda>count. read_times count dec r')
        = Inr (xs, advance (length (counted_bytes enc xs)) r)"
      by (simp add: counted_bytes_def)
  qed
next
  fix xs r r' ys
  assume "read_counted k dec r = Inr (xs, r')" and u: "unread r ys"
  then obtain c r1 where c: "reader_varint r = Inr (c, r1)"
    and t: "read_times (unat c) dec r1 = Inr (xs, r')"
    by (auto simp: read_counted_def Let_def dest: bounded_sound elim!: rbind_InrE)
  from varintc.dec_unread [OF c u] obtain zs where
    z: "ys = varint_bytes c @ zs" "r1 = advance (length (varint_bytes c)) r" "unread r1 zs" by blast
  from codec.times_sound [OF assms(1) t z(3)] obtain rest where
    "length xs = unat c" "\<forall>x \<in> set xs. ok x" "zs = concat (map enc xs) @ rest"
    "r' = advance (length (concat (map enc xs))) r1" by blast
  with z unat_lt_64 [of c] show "(length xs < 2 ^ 64 \<and> (\<forall>x \<in> set xs. ok x))
      \<and> r' = advance (length (counted_bytes enc xs)) r \<and> (\<exists>rest. ys = counted_bytes enc xs @ rest)"
    by (auto simp: counted_bytes_def)
qed

interpretation segc: codec segment_ref_bytes "read_segment_ref at" "\<lambda>_. True" for "at"
proof
  fix s r rest
  assume u: "unread r (segment_ref_bytes s @ rest)"
  have g: "unat (ucast (sr_del_generation s) :: u64) < 2 ^ 32"
    using unat_lt_32 [of "sr_del_generation s"] by simp
  have u': "unread r (varint_bytes (sr_id s) @ to_le 4 (sr_rows s) @ varint_bytes (ucast (sr_del_generation s)) @ rest)"
    using u by (simp add: segment_ref_bytes_def)
  show "read_segment_ref at r = Inr (s, advance (length (segment_ref_bytes s)) r)"
    unfolding read_segment_ref_def
    by (rule codec_steps, rule u', simp)
       ((rule codec_steps, assumption, simp)+, use g in \<open>simp add: segment_ref_bytes_def ac_simps\<close>)
next
  fix s r r' xs
  assume "read_segment_ref at r = Inr (s, r')" and "unread r xs"
  then show "True \<and> r' = advance (length (segment_ref_bytes s)) r \<and> (\<exists>rest. xs = segment_ref_bytes s @ rest)"
    by (auto simp: read_segment_ref_def segment_ref_bytes_def widen_narrow elim!: codec_elims split: if_splits)
qed

interpretation seglistc: codec "counted_bytes segment_ref_bytes" "read_counted 6 (read_segment_ref at)"
  "\<lambda>ss. length ss < 2 ^ 64 \<and> (\<forall>s \<in> set ss. True)" for "at"
proof (rule counted_codec)
  show "codec segment_ref_bytes (read_segment_ref at) (\<lambda>_. True)" by (rule segc.codec_axioms)
  show "6 \<le> length (segment_ref_bytes s)" for s
    using varint_bytes_pos [of "sr_id s"] varint_bytes_pos [of "ucast (sr_del_generation s)"]
    by (simp add: segment_ref_bytes_def)
qed simp

lemma snapshot_code_inv:
  "s \<noteq> Some (- 1) \<Longrightarrow> (if snapshot_code s = 0 then None else Some (snapshot_code s - 1)) = s"
  by (auto simp: snapshot_code_def sat_add_1 eq_neg_iff_add_eq_0 split: option.splits)

lemma snapshot_code_dec:
  "snapshot_code (if c = 0 then None else Some (c - 1)) = c \<and> (if c = 0 then None else Some (c - 1)) \<noteq> Some (- 1)"
  by (auto simp: snapshot_code_def sat_add_1 diff_eq_eq)

interpretation colc: codec collection_bytes read_collection entry_wf
proof
  fix c r rest
  assume wf: "entry_wf c" and u: "unread r (collection_bytes c @ rest)"
  have u': "unread r (blob_bytes (ce_name c) @ counted_bytes segment_ref_bytes (ce_segments c)
     @ varint_bytes (snapshot_code (ce_index_snapshot c)) @ varint_bytes (ce_last_applied_wal c)
     @ varint_bytes (ce_live_count c) @ varint_bytes (ce_total_rows c) @ replicate 4 0 @ rest)"
    using u by (simp add: collection_bytes_def)
  have ok: "string_ok (ce_name c)" "length (ce_segments c) < 2 ^ 64 \<and> (\<forall>s \<in> set (ce_segments c). True)"
    and snap: "(if snapshot_code (ce_index_snapshot c) = 0 then None
        else Some (snapshot_code (ce_index_snapshot c) - 1)) = ce_index_snapshot c"
    using wf snapshot_code_inv [of "ce_index_snapshot c"] by (simp_all add: entry_wf_def)
  show "read_collection r = Inr (c, advance (length (collection_bytes c)) r)"
    unfolding read_collection_def Let_def snap
    by (rule codec_steps, rule u', rule ok, rule codec_steps, assumption, rule ok)
       ((rule codec_steps, assumption, rule TrueI)+, simp add: snap collection_bytes_def ac_simps)
next
  fix c r r' xs
  assume "read_collection r = Inr (c, r')" and "unread r xs"
  then show "entry_wf c \<and> r' = advance (length (collection_bytes c)) r \<and> (\<exists>rest. xs = collection_bytes c @ rest)"
    unfolding read_collection_def Let_def
    apply -
    apply (erule (1) codec_elims)+
    apply (auto simp: entry_wf_def collection_bytes_def snapshot_code_dec ac_simps)
    done
qed

interpretation collistc: codec "counted_bytes collection_bytes" "read_counted 8 read_collection"
  "\<lambda>cs. length cs < 2 ^ 64 \<and> (\<forall>c \<in> set cs. entry_wf c)"
proof (rule counted_codec)
  show "codec collection_bytes read_collection entry_wf" by (rule colc.codec_axioms)
  show "8 \<le> length (collection_bytes c)" for c
    using varint_bytes_pos [of "snapshot_code (ce_index_snapshot c)"] varint_bytes_pos [of "ce_last_applied_wal c"]
      varint_bytes_pos [of "ce_live_count c"] varint_bytes_pos [of "ce_total_rows c"]
    by (simp add: collection_bytes_def)
qed simp

lemma manifest_decode_payload:
  assumes "manifest_wf m" and "manifest_validate m = Inr ()"
    and "decode_block bs Manifest = Inr (manifest_payload m)"
  shows "manifest_decode bs = Inr m"
proof -
  let ?r = "reader_new (manifest_payload m)"
  have u: "unread ?r (to_le 8 (m_sequence m) @ m_db_uuid m @ to_le 8 (m_created_at_ms m)
     @ to_le 8 (m_updated_at_ms m) @ counted_bytes collection_bytes (m_collections m) @ replicate 8 0 @ [])"
    by (simp add: manifest_payload_def)
  have ok: "length (m_db_uuid m) = 16"
    "length (m_collections m) < 2 ^ 64 \<and> (\<forall>c \<in> set (m_collections m). entry_wf c)"
    using assms(1) by (simp_all add: manifest_wf_def)
  show ?thesis
    unfolding manifest_decode_def assms(3) rbind_Inr Let_def
    apply (rule codec_steps, rule u, rule TrueI)
    apply (rule codec_steps, assumption, rule ok)
    apply (rule codec_steps, assumption, rule TrueI)+
    apply (rule codec_steps, assumption, rule ok)
    apply (rule codec_steps, assumption, rule TrueI)
    apply (subst expect_end_Nil, assumption)
    using assms(2) by (cases m) simp
qed


subsection \<open>What validation checks\<close>

lemma sorted_distinct_adj: "sorted xs \<Longrightarrow> distinct_adj xs \<longleftrightarrow> distinct xs"
proof (induction xs)
  case (Cons x xs)
  then show ?case by (cases xs) (auto simp: distinct_adj_Cons)
qed simp

lemma dedup_length: "length (remdups_adj (sort xs)) = length (sort xs) \<longleftrightarrow> distinct (xs :: 'a::linorder list)"
  using sorted_distinct_adj [of "sort xs"] distinct_adj_conv_length_remdups_adj [of "sort xs"] by simp

lemma check_segment_order_iff:
  "check_segment_order last_id ss = Inr () \<longleftrightarrow>
     sorted_wrt (<) (map sr_id ss) \<and> (\<forall>p. last_id = Some p \<longrightarrow> (\<forall>s \<in> set ss. p < sr_id s))"
proof (induction last_id ss rule: check_segment_order.induct)
  case (2 last_id s ss)
  then show ?case by (cases last_id) (auto simp: not_le)
qed simp

lemma try_fold_unit_iff: "try_fold (\<lambda>x _. f x) xs () = Inr () \<longleftrightarrow> (\<forall>x \<in> set xs. f x = Inr ())"
  by (induction xs) (auto simp: rbind_eq_Inr_iff)

lemma validate_entry_iff:
  "validate_entry c = Inr () \<longleftrightarrow> ce_name c \<noteq> [] \<and> sorted_wrt (<) (map sr_id (ce_segments c))
     \<and> ce_total_rows c = segment_rows (ce_segments c) \<and> ce_live_count c \<le> ce_total_rows c"
  by (auto simp: validate_entry_def check_segment_order_iff rbind_eq_Inr_iff not_less)

lemma manifest_validate_iff:
  "manifest_validate m = Inr () \<longleftrightarrow>
     distinct (map ce_name (m_collections m)) \<and> (\<forall>c \<in> set (m_collections m). validate_entry c = Inr ())"
  using dedup_length [of "map ce_name (m_collections m)"]
  by (auto simp: manifest_validate_def Let_def try_fold_unit_iff)

lemma manifest_encode_iff:
  "manifest_encode m = Inr bs \<longleftrightarrow> manifest_validate m = Inr () \<and> bs = encode_block Manifest (manifest_payload m)"
  by (auto simp: manifest_encode_eq rbind_eq_Inr_iff)

lemma manifest_decode_encode:
  assumes "manifest_wf m" and "manifest_encode m = Inr bs" and "length bs < 2 ^ 64"
  shows "manifest_decode (bs @ rest) = Inr m"
proof (rule manifest_decode_payload [OF assms(1)])
  from assms(2) have v: "manifest_validate m = Inr ()" and bs: "bs = encode_block Manifest (manifest_payload m)"
    by (simp_all add: manifest_encode_iff)
  have "length (manifest_payload m) + 36 < 2 ^ 64" using assms(3) unfolding bs encode_block_eq by simp
  then show "decode_block (bs @ rest) Manifest = Inr (manifest_payload m)"
    unfolding bs by (rule decode_block_encode)
  show "manifest_validate m = Inr ()" by (rule v)
qed

lemma manifest_decode_cut:
  assumes "manifest_encode m = Inr (bs @ suf)" and "suf \<noteq> []" and "length (bs @ suf) < 2 ^ 64"
  shows "\<not> is_ok (manifest_decode bs)"
proof -
  from assms(1) have b: "encode_block Manifest (manifest_payload m) = bs @ suf" by (simp add: manifest_encode_iff)
  have "length (manifest_payload m) + 36 < 2 ^ 64"
    using assms(3) unfolding b [symmetric] encode_block_eq by simp
  from decode_block_prefix [OF this b assms(2)] show ?thesis
    by (auto simp: manifest_decode_def is_ok_rbind is_ok_iff)
qed

lemma examine_eq_Valid: "examine f = Valid m \<longleftrightarrow> (\<exists>bs. f = Some bs \<and> manifest_decode bs = Inr m)"
  by (auto simp: examine_def split: option.splits sum.splits)

text \<open>The scan as a function of the two files, whichever slot comes first.\<close>

lemma scan_slots_chosen:
  "ss_chosen (scan_slots (fs SlotA) (fs SlotB)) = Some (s, m) \<longleftrightarrow>
     examine (fs s) = Valid m
     \<and> (\<forall>m'. examine (fs (slot_other s)) = Valid m' \<longrightarrow>
          m_sequence m' < m_sequence m \<or> m_sequence m' = m_sequence m \<and> s = SlotA)"
  by (cases s) (auto simp: scan_slots_def Let_def split: slot_status.splits if_splits)

text \<open>A commit puts a prefix of the new bytes in the slot that was not chosen; an empty file may read as absent.\<close>

lemma commit_scan:
  assumes "ss_chosen (scan_slots (fs SlotA) (fs SlotB)) = Some (s, m)"
    and "manifest_wf m'" and "manifest_encode m' = Inr bs" and "length bs < 2 ^ 64" and "m_sequence m < m_sequence m'"
    and "x = Some (take n bs) \<or> x = None \<and> n = 0"
  shows "ss_chosen (scan_slots ((fs(slot_other s := x)) SlotA) ((fs(slot_other s := x)) SlotB))
     = Some (if length bs \<le> n then (slot_other s, m') else (s, m))"
proof -
  define fs' where "fs' = fs(slot_other s := x)"
  have old: "examine (fs s) = Valid m" using assms(1) by (simp add: scan_slots_chosen)
  have ss: "slot_other (slot_other s) = s" "slot_other s \<noteq> s" by (cases s; simp)+
  have files: "fs' (slot_other s) = x" "fs' s = fs s" using ss by (simp_all add: fs'_def)
  have ne: "bs \<noteq> []" using assms(3) by (auto simp: manifest_encode_iff encode_block_eq)
  have "ss_chosen (scan_slots (fs' SlotA) (fs' SlotB)) = Some (if length bs \<le> n then (slot_other s, m') else (s, m))"
  proof (cases "length bs \<le> n")
    case True
    then have "examine (fs' (slot_other s)) = Valid m'"
      using manifest_decode_encode [OF assms(2-4), of "[]"] assms(6) ne files(1) by (auto simp: examine_eq_Valid)
    with True old ss assms(5) files(2) show ?thesis by (simp add: scan_slots_chosen)
  next
    case False
    then have "\<not> is_ok (manifest_decode (take n bs))"
      using manifest_decode_cut [of m' "take n bs" "drop n bs"] assms(3,4) by simp
    then have "\<forall>y. examine (fs' (slot_other s)) \<noteq> Valid y"
      using files(1) assms(6) by (auto simp: examine_eq_Valid is_ok_iff)
    with False old ss files(2) show ?thesis by (simp add: scan_slots_chosen)
  qed
  then show ?thesis by (simp only: fs'_def)
qed

subsection \<open>Properties\<close>

text \<open>
  Committing is crash safe.  Let the scan of two slots choose manifest \<open>m\<close> in
  slot \<open>s\<close>; the next commit goes to the slot \<open>next_slot\<close> names.  Whatever that slot is left with, missing,
  empty or damaged bytes, the next scan still returns \<open>m\<close> from \<open>s\<close> unless it holds a valid manifest; and
  when a manifest of a higher sequence is written there and the write is cut anywhere, the next scan returns the
  new manifest if all of it arrived and \<open>m\<close> otherwise.
\<close>

lemma manifest_commit_crash_safe:
  assumes "ss_chosen (scan_slots (fs SlotA) (fs SlotB)) = Some (s, m)"
    and "t = next_slot (scan_slots (fs SlotA) (fs SlotB))"
    and "manifest_wf m'" and "manifest_encode m' = Inr bs" and "length bs < 2 ^ 64"
    and "m_sequence m < m_sequence m'"
    and "after = (\<lambda>f. let fs' = fs(t := f) in ss_chosen (scan_slots (fs' SlotA) (fs' SlotB)))"
  shows "(\<forall>f. (\<exists>x. examine f = Valid x) \<or> after f = Some (s, m))
    \<and> (\<forall>n. after (Some (take n bs)) = Some (if length bs \<le> n then (t, m') else (s, m)))"
proof -
  have t: "t = slot_other s" using assms(1,2) by (simp add: next_slot_def)
  have "after f = Some (s, m)" if "\<forall>x. examine f \<noteq> Valid x" for f
    using assms(1) that unfolding assms(7) t Let_def scan_slots_chosen
    by (cases s) (auto split: slot_status.splits if_splits)
  moreover have "after (Some (take n bs)) = Some (if length bs \<le> n then (t, m') else (s, m))" for n
    using commit_scan [OF assms(1,3-6), of "Some (take n bs)" n] unfolding assms(7) t Let_def by simp
  ultimately show ?thesis by blast
qed


text \<open>
  Validation, which encoding and decoding call, accepts exactly the manifests whose
  collection names are distinct and non-empty, and in each of whose collections the segment ids strictly
  ascend, the row total is the sum over the segments, and the live count does not exceed it.
\<close>

lemma manifest_validate_correct:
  "manifest_validate m = Inr () \<longleftrightarrow>
     distinct (map ce_name (m_collections m))
     \<and> list_all (\<lambda>c. ce_name c \<noteq> [] \<and> sorted_wrt (<) (map sr_id (ce_segments c))
          \<and> ce_total_rows c = segment_rows (ce_segments c) \<and> ce_live_count c \<le> ce_total_rows c)
        (m_collections m)"
  by (simp add: manifest_validate_iff validate_entry_iff list_all_iff)

text \<open>
  A snapshot id of \<open>u64::MAX\<close> does not survive: it is written as the same
  bytes as \<open>u64::MAX - 1\<close>, so two different manifests have one encoding.
\<close>

lemma manifest_snapshot_max_lost:
  "manifest_encode (m\<lparr>m_collections := [c\<lparr>ce_index_snapshot := Some (- 1)\<rparr>]\<rparr>)
   = manifest_encode (m\<lparr>m_collections := [c\<lparr>ce_index_snapshot := Some (- 2)\<rparr>]\<rparr>)"
proof -
  have "snapshot_code (Some (- 1)) = snapshot_code (Some (- 2))"
    using unat_minus_one_64 by (simp add: snapshot_code_def sat_add_1) (simp add: sat_add_def)
  then have "collection_bytes (c\<lparr>ce_index_snapshot := Some (- 1)\<rparr>) = collection_bytes (c\<lparr>ce_index_snapshot := Some (- 2)\<rparr>)"
    by (simp add: collection_bytes_def)
  moreover have "validate_entry (c\<lparr>ce_index_snapshot := s\<rparr>) = validate_entry c" for s
    by (simp add: validate_entry_def)
  ultimately show ?thesis
    by (simp add: manifest_encode_eq manifest_payload_def counted_bytes_def manifest_validate_def)
qed

end
