(* ===== verification/Db_Path.thy ===== *)
theory Db_Path
  imports Db_Error Manifest_Format
begin

text \<open>
  Paths inside a database (\<open>core/src/path.rs\<close>), the collection-name check
  (\<open>core/src/validation\<close>) and the file layout (\<open>core/src/persistence/layout.rs\<close>).  A
  \<open>DbPath\<close> is its UTF-8 byte string.  Shown: every path the constructors accept consists of
  plain components (no traversal), the string form and the component form determine each
  other, and the layout never gives two files one name.
\<close>

definition MAX_COMPONENT_LEN :: nat where "MAX_COMPONENT_LEN = 255"
definition MAX_PATH_LEN :: nat where "MAX_PATH_LEN = 1024"
definition MAX_COLLECTION_NAME_LEN :: nat where "MAX_COLLECTION_NAME_LEN = 64"

definition SEP :: u8 where "SEP = 0x2F"

text \<open>\<open>s.split(c)\<close> on a string: at least one piece, pieces may be empty.\<close>

fun split_on :: "u8 \<Rightarrow> rust_string \<Rightarrow> rust_string list" where
  "split_on c [] = [[]]"
| "split_on c (b # bs) =
     (if b = c then [] # split_on c bs
      else case split_on c bs of [] \<Rightarrow> [[b]] | p # ps \<Rightarrow> (b # p) # ps)"

definition path_reject :: "rust_string \<Rightarrow> path_rejection \<Rightarrow> db_error" where
  "path_reject path reason = Validation (InvalidPath path reason)"

definition check_component :: "rust_string \<Rightarrow> unit db_result" where
  "check_component c =
     (if c = [] then Inl (path_reject c PathEmpty)
      else if c = ascii ''.'' \<or> c = ascii ''..'' then Inl (path_reject c RelativeComponent)
      else if length c > MAX_COMPONENT_LEN then Inl (path_reject c ComponentTooLong)
      else if list_ex (\<lambda>b. b = 0x2F \<or> b = 0x5C \<or> b = 0) c then Inl (path_reject c PathIllegalCharacter)
      else Inr ())"

definition path_root :: db_path where
  "path_root = []"

definition push_component :: "db_path \<Rightarrow> rust_string \<Rightarrow> db_path" where
  "push_component out c = (if out \<noteq> [] then out @ [SEP] else out) @ c"

definition from_components :: "rust_string list \<Rightarrow> db_path db_result" where
  "from_components cs =
     rbind (try_fold (\<lambda>c out. rbind (check_component c) (\<lambda>_. Inr (push_component out c))) cs []) (\<lambda>out.
     if length out > MAX_PATH_LEN then Inl (path_reject out PathTooLong) else Inr out)"

definition path_parse :: "rust_string \<Rightarrow> db_path db_result" where
  "path_parse s =
     (if s = [] then Inr path_root
      else if hd s = 0x2F \<or> hd s = 0x5C then Inl (path_reject s Absolute)
      else from_components (split_on SEP s))"

definition path_join :: "db_path \<Rightarrow> rust_string \<Rightarrow> db_path db_result" where
  "path_join p c =
     rbind (check_component c) (\<lambda>_.
     let out = push_component p c in
     if length out > MAX_PATH_LEN then Inl (path_reject out PathTooLong) else Inr out)"

definition path_is_root :: "db_path \<Rightarrow> bool" where
  "path_is_root p \<longleftrightarrow> p = []"

definition path_components :: "db_path \<Rightarrow> rust_string list" where
  "path_components p = filter (\<lambda>c. c \<noteq> []) (split_on SEP p)"

definition path_file_name :: "db_path \<Rightarrow> rust_string option" where
  "path_file_name p = (case path_components p of [] \<Rightarrow> None | cs \<Rightarrow> Some (last cs))"

text \<open>\<open>rfind('/')\<close> and the prefix before it: dropping the last separator and what follows.\<close>

definition path_parent :: "db_path \<Rightarrow> db_path option" where
  "path_parent p = (if SEP \<in> set p then Some (butlast (rev (dropWhile (\<lambda>b. b \<noteq> SEP) (rev p)))) else None)"

subsection \<open>Collection names and the layout\<close>

definition is_valid_name_byte :: "u8 \<Rightarrow> bool" where
  "is_valid_name_byte b \<longleftrightarrow> (0x30 \<le> b \<and> b \<le> 0x39) \<or> (0x41 \<le> b \<and> b \<le> 0x5A) \<or> (0x61 \<le> b \<and> b \<le> 0x7A)
     \<or> b = 0x5F \<or> b = 0x2D"

definition check_collection_name :: "rust_string \<Rightarrow> unit db_result" where
  "check_collection_name name =
     (let reject = (\<lambda>reason. Inl (Validation (InvalidCollectionName name reason))) in
      if name = [] then reject NameEmpty
      else if length name > MAX_COLLECTION_NAME_LEN then reject NameTooLong
      else if name = ascii ''.'' \<or> name = ascii ''..'' then reject Reserved
      else if \<not> list_all is_valid_name_byte name then reject NameIllegalCharacter
      else Inr ())"

text \<open>\<open>format!("{id:06}")\<close>: decimal digits, padded on the left with zeros to six.\<close>

fun decimal :: "nat \<Rightarrow> rust_string" where
  "decimal n = (if n < 10 then [of_nat (48 + n)] else decimal (n div 10) @ [of_nat (48 + n mod 10)])"

declare decimal.simps [simp del]

definition pad6 :: "u64 \<Rightarrow> rust_string" where
  "pad6 n = (let d = decimal (unat n) in replicate (6 - length d) 0x30 @ d)"

definition layout_lock :: "db_path db_result" where
  "layout_lock = path_join path_root (ascii ''LOCK'')"

definition layout_manifest :: "slot \<Rightarrow> db_path db_result" where
  "layout_manifest s = path_join path_root (ascii (slot_file_name s))"

definition collections_dir :: "db_path db_result" where
  "collections_dir = path_join path_root (ascii ''collections'')"

definition collection_dir :: "rust_string \<Rightarrow> db_path db_result" where
  "collection_dir name =
     rbind (check_collection_name name) (\<lambda>_. rbind collections_dir (\<lambda>d. path_join d name))"

definition layout_catalog :: "rust_string \<Rightarrow> db_path db_result" where
  "layout_catalog name = rbind (collection_dir name) (\<lambda>d. path_join d (ascii ''CATALOG''))"

definition wal_dir :: "rust_string \<Rightarrow> db_path db_result" where
  "wal_dir name = rbind (collection_dir name) (\<lambda>d. path_join d (ascii ''wal''))"

definition wal_file :: "rust_string \<Rightarrow> u64 \<Rightarrow> db_path db_result" where
  "wal_file name n = rbind (wal_dir name) (\<lambda>d. path_join d (pad6 n @ ascii ''.wal''))"

definition segments_dir :: "rust_string \<Rightarrow> db_path db_result" where
  "segments_dir name = rbind (collection_dir name) (\<lambda>d. path_join d (ascii ''segments''))"

datatype segment_file_kind = VectorsFile | DirectoryFile | MetadataFile | TombstonesFile

primrec extension :: "segment_file_kind \<Rightarrow> string" where
  "extension VectorsFile = ''vec''"
| "extension DirectoryFile = ''dir''"
| "extension MetadataFile = ''meta''"
| "extension TombstonesFile = ''del''"

definition ALL_SEGMENT_FILES :: "segment_file_kind list" where
  "ALL_SEGMENT_FILES = [VectorsFile, DirectoryFile, MetadataFile, TombstonesFile]"

definition segment_file :: "rust_string \<Rightarrow> u64 \<Rightarrow> segment_file_kind \<Rightarrow> db_path db_result" where
  "segment_file name n which =
     rbind (segments_dir name) (\<lambda>d. path_join d (pad6 n @ ascii (CHR ''.'' # extension which)))"

definition index_dir :: "rust_string \<Rightarrow> db_path db_result" where
  "index_dir name = rbind (collection_dir name) (\<lambda>d. path_join d (ascii ''index''))"

definition index_file :: "rust_string \<Rightarrow> rust_string \<Rightarrow> u64 \<Rightarrow> db_path db_result" where
  "index_file name kind n =
     rbind (index_dir name) (\<lambda>d. path_join d (kind @ ascii ''-'' @ pad6 n @ ascii ''.idx''))"

subsection \<open>Components and the string form\<close>

fun intercal :: "rust_string list \<Rightarrow> rust_string" where
  "intercal [] = []"
| "intercal [c] = c"
| "intercal (c # cs) = c @ SEP # intercal cs"

lemma intercal_Cons: "cs \<noteq> [] \<Longrightarrow> intercal (c # cs) = c @ SEP # intercal cs"
  by (cases cs) auto

lemma split_on_ne [simp]: "split_on c s \<noteq> []"
  by (cases s) (auto split: list.splits)

lemma split_on_no_sep [simp]: "c \<notin> set a \<Longrightarrow> split_on c a = [a]"
  by (induction a) auto

lemma split_on_append: "c \<notin> set a \<Longrightarrow> split_on c (a @ c # b) = a # split_on c b"
  by (induction a) auto

lemma intercal_split [simp]: "intercal (split_on SEP s) = s"
proof (induction s)
  case Nil
  then show ?case by simp
next
  case (Cons b s)
  obtain q qs where "split_on SEP s = q # qs" by (cases "split_on SEP s") auto
  with Cons show ?case by (cases qs) (auto simp: intercal_Cons)
qed

text \<open>What the component check accepts, written out.\<close>

definition plain :: "rust_string \<Rightarrow> bool" where
  "plain c \<longleftrightarrow> c \<noteq> [] \<and> c \<noteq> ascii ''.'' \<and> c \<noteq> ascii ''..'' \<and> length c \<le> 255
     \<and> SEP \<notin> set c \<and> 0x5C \<notin> set c \<and> 0 \<notin> set c"

lemma check_component_iff: "check_component c = Inr () \<longleftrightarrow> plain c"
  by (auto simp: check_component_def plain_def MAX_COMPONENT_LEN_def SEP_def list_ex_iff)

lemma check_component_Inr [simp]: "plain c \<Longrightarrow> check_component c = Inr ()"
  by (simp add: check_component_iff)

lemma split_intercal:
  "list_all plain cs \<Longrightarrow> cs \<noteq> [] \<Longrightarrow> split_on SEP (intercal cs) = cs"
proof (induction cs rule: intercal.induct)
  case (3 c d cs)
  then show ?case by (auto simp: plain_def split_on_append)
qed (auto simp: plain_def)

lemma components_intercal: "list_all plain cs \<Longrightarrow> path_components (intercal cs) = cs"
proof (cases "cs = []")
  case False
  moreover assume "list_all plain cs"
  ultimately show ?thesis
    using split_intercal by (simp add: path_components_def list_all_iff plain_def cong: filter_cong)
qed (simp add: path_components_def)

lemma intercal_eq_Nil: "list_all plain cs \<Longrightarrow> intercal cs = [] \<longleftrightarrow> cs = []"
  by (cases cs rule: intercal.cases) (auto simp: plain_def)

lemma push_component_intercal:
  "list_all plain cs \<Longrightarrow> push_component (intercal cs) c = intercal (cs @ [c])"
proof -
  have app: "cs \<noteq> [] \<Longrightarrow> intercal (cs @ [c]) = intercal cs @ SEP # c" for cs
    by (induction cs rule: intercal.induct) (auto simp: intercal_Cons)
  assume "list_all plain cs"
  then show ?thesis
    using app [of cs] intercal_eq_Nil [of cs] by (cases "cs = []") (simp_all add: push_component_def)
qed

lemma push_components:
  "list_all plain pre \<Longrightarrow>
   try_fold (\<lambda>c out. rbind (check_component c) (\<lambda>_. Inr (push_component out c))) cs (intercal pre) = Inr out
     \<longleftrightarrow> list_all plain cs \<and> out = intercal (pre @ cs)"
proof (induction cs arbitrary: pre)
  case Nil
  then show ?case by auto
next
  case (Cons c cs)
  show ?case
  proof (cases "plain c")
    case True
    with Cons.prems Cons.IH [of "pre @ [c]"] show ?thesis by (simp add: push_component_intercal)
  next
    case False
    then obtain e where "check_component c = Inl e" using check_component_iff by (cases "check_component c") auto
    with False show ?thesis by simp
  qed
qed

lemma from_components_iff:
  "from_components cs = Inr p \<longleftrightarrow> list_all plain cs \<and> p = intercal cs \<and> length p \<le> 1024"
proof -
  have "try_fold (\<lambda>c out. rbind (check_component c) (\<lambda>_. Inr (push_component out c))) cs [] = Inr out
     \<longleftrightarrow> list_all plain cs \<and> out = intercal cs" for out
    using push_components [of "[]" cs out] by simp
  then show ?thesis
    unfolding from_components_def rbind_eq_Inr_iff MAX_PATH_LEN_def by (auto simp: not_less)
qed

lemma path_parse_plain:
  "path_parse s = Inr p \<longleftrightarrow> p = s \<and> length s \<le> 1024 \<and> (s = [] \<or> list_all plain (split_on SEP s))"
proof (cases s)
  case Nil
  then show ?thesis by (auto simp: path_parse_def path_root_def)
next
  case (Cons b t)
  obtain q qs where q: "split_on SEP t = q # qs" by (cases "split_on SEP t") auto
  have "\<not> list_all plain (split_on SEP s)" if "b = 0x2F \<or> b = 0x5C"
    using that q Cons by (auto simp: plain_def SEP_def)
  then show ?thesis
    using Cons by (auto simp: path_parse_def from_components_iff simp del: split_on.simps)
qed

lemma path_join_intercal:
  assumes "list_all plain cs"
  shows "path_join (intercal cs) c = Inr p \<longleftrightarrow> plain c \<and> p = intercal (cs @ [c]) \<and> length p \<le> 1024"
proof (cases "plain c")
  case True
  with assms show ?thesis
    by (auto simp: path_join_def push_component_intercal MAX_PATH_LEN_def Let_def)
next
  case False
  then obtain e where "check_component c = Inl e" using check_component_iff by (cases "check_component c") auto
  with False show ?thesis by (simp add: path_join_def)
qed

subsection \<open>Numbers in file names\<close>

definition digits_val :: "rust_string \<Rightarrow> nat" where
  "digits_val ds = foldl (\<lambda>a b. 10 * a + (unat b - 48)) 0 ds"

definition is_digit :: "u8 \<Rightarrow> bool" where
  "is_digit b \<longleftrightarrow> 48 \<le> unat b \<and> unat b < 58"

lemma digit_byte: "d < 10 \<Longrightarrow> unat (of_nat (48 + d) :: u8) = 48 + d"
  by (simp only: unat_of_nat) simp

lemma decimal_digits: "list_all is_digit (decimal n)"
proof (induction n rule: decimal.induct)
  case (1 n)
  have "is_digit (of_nat (48 + d))" if "d < 10" for d
    unfolding is_digit_def digit_byte [OF that] using that by simp
  with 1 show ?case by (subst decimal.simps) simp
qed

lemma digits_val_decimal: "digits_val (decimal n) = n"
proof (induction n rule: decimal.induct)
  case (1 n)
  show ?case
  proof (cases "n < 10")
    case True
    then show ?thesis using digit_byte [of n] by (subst decimal.simps) (simp add: digits_val_def)
  next
    case False
    have "digits_val (decimal (n div 10) @ [of_nat (48 + n mod 10)]) = 10 * (n div 10) + n mod 10"
      using 1 [OF False] digit_byte [of "n mod 10"] by (simp add: digits_val_def)
    with False show ?thesis by (subst decimal.simps) simp
  qed
qed

lemma digits_val_zeros: "digits_val (replicate k 0x30 @ ds) = digits_val ds"
proof -
  have "foldl (\<lambda>a b. 10 * a + (unat b - 48)) 0 (replicate k (0x30 :: u8)) = (0 :: nat)"
    by (induction k) simp_all
  then show ?thesis by (simp add: digits_val_def)
qed

lemma pad6_val: "digits_val (pad6 n) = unat n"
  by (simp add: pad6_def Let_def digits_val_zeros digits_val_decimal)

lemma pad6_inject: "pad6 n = pad6 m \<longleftrightarrow> n = m"
  by (metis pad6_val word_unat_eq_iff)

lemma pad6_digits: "list_all is_digit (pad6 n)"
  using decimal_digits [of "unat n"] by (auto simp: pad6_def Let_def list_all_iff is_digit_def)

lemma pad6_not_in: "\<not> is_digit c \<Longrightarrow> c \<notin> set (pad6 n)"
  using pad6_digits by (auto simp: list_all_iff)

lemma append_sep_inject:
  "c \<notin> set a \<Longrightarrow> c \<notin> set a' \<Longrightarrow> a @ c # b = a' @ c # b' \<longleftrightarrow> a = a' \<and> b = b'"
proof (induction a arbitrary: a')
  case Nil
  then show ?case by (cases a') auto
next
  case (Cons x a)
  then show ?case by (cases a') auto
qed

lemma sep_append_inject:
  assumes "c \<notin> set b" "c \<notin> set b'" "a @ c # b = a' @ c # b'"
  shows "a = a' \<and> b = b'"
proof -
  have "rev b @ c # rev a = rev b' @ c # rev a'" using arg_cong [OF assms(3), of rev] by simp
  then show ?thesis using append_sep_inject [of c "rev b" "rev b'" "rev a" "rev a'"] assms(1,2) by simp
qed

subsection \<open>The layout\<close>

datatype db_file =
    LockFile | ManifestFile slot | CatalogFile rust_string | WalFile rust_string u64
  | SegFile rust_string u64 segment_file_kind | IndexFile rust_string rust_string u64

primrec layout :: "db_file \<Rightarrow> db_path db_result" where
  "layout LockFile = layout_lock"
| "layout (ManifestFile s) = layout_manifest s"
| "layout (CatalogFile n) = layout_catalog n"
| "layout (WalFile n i) = wal_file n i"
| "layout (SegFile n i k) = segment_file n i k"
| "layout (IndexFile n kd i) = index_file n kd i"

primrec file_components :: "db_file \<Rightarrow> rust_string list" where
  "file_components LockFile = [ascii ''LOCK'']"
| "file_components (ManifestFile s) = [ascii (slot_file_name s)]"
| "file_components (CatalogFile n) = [ascii ''collections'', n, ascii ''CATALOG'']"
| "file_components (WalFile n i) = [ascii ''collections'', n, ascii ''wal'', pad6 i @ ascii ''.wal'']"
| "file_components (SegFile n i k) =
     [ascii ''collections'', n, ascii ''segments'', pad6 i @ ascii (CHR ''.'' # extension k)]"
| "file_components (IndexFile n kd i) =
     [ascii ''collections'', n, ascii ''index'', kd @ ascii ''-'' @ pad6 i @ ascii ''.idx'']"

lemma length_ascii [simp]: "length (ascii s) = length s" "ascii s = [] \<longleftrightarrow> s = []"
  by (simp_all add: ascii_def)

lemma of_char_byte: "unat (of_char c :: u8) = of_char c"
proof -
  have "unat (of_nat (of_char c) :: u8) = of_char c"
    using nat_of_char_less_256 [of c] by (simp only: unat_of_nat) simp
  then show ?thesis by (simp only: of_nat_of_char)
qed

lemma ascii_inject [simp]: "ascii s = ascii t \<longleftrightarrow> s = t"
proof -
  have "x = y" if "(of_char x :: u8) = of_char y" for x y
  proof -
    from that have "unat (of_char x :: u8) = unat (of_char y :: u8)" by simp
    then have "(of_char x :: nat) = of_char y" by (simp only: of_char_byte)
    then show ?thesis by simp
  qed
  then show ?thesis unfolding ascii_def by (intro inj_map_eq_map injI)
qed

lemma join_all:
  "list_all plain cs \<Longrightarrow> p = intercal cs \<Longrightarrow> path_join p c = Inr q \<Longrightarrow>
     list_all plain (cs @ [c]) \<and> q = intercal (cs @ [c])"
  by (auto simp: path_join_intercal)

lemma join_root: "path_join path_root c = Inr q \<Longrightarrow> list_all plain [c] \<and> q = intercal [c]"
  using path_join_intercal [of "[]" c q] by (simp add: path_root_def)

lemma collection_dir_components:
  assumes "collection_dir n = Inr d"
  shows "list_all plain [ascii ''collections'', n] \<and> d = intercal [ascii ''collections'', n]"
proof -
  from assms obtain d0 where d0: "path_join path_root (ascii ''collections'') = Inr d0" and d: "path_join d0 n = Inr d"
    by (auto simp: collection_dir_def collections_dir_def elim!: rbind_InrE)
  from join_root [OF d0] have "list_all plain [ascii ''collections'']" "d0 = intercal [ascii ''collections'']" by auto
  from join_all [OF this d] show ?thesis by simp
qed

lemma collection_sub:
  assumes "rbind (collection_dir n) (\<lambda>d. path_join d c) = Inr q"
  shows "list_all plain [ascii ''collections'', n, c] \<and> q = intercal [ascii ''collections'', n, c]"
proof -
  from assms obtain d where d: "collection_dir n = Inr d" and q: "path_join d c = Inr q" by (rule rbind_InrE)
  from collection_dir_components [OF d] have "list_all plain [ascii ''collections'', n]"
    "d = intercal [ascii ''collections'', n]" by auto
  from join_all [OF this q] show ?thesis by simp
qed

lemma collection_sub2:
  assumes "rbind (rbind (collection_dir n) (\<lambda>d. path_join d c)) (\<lambda>d. path_join d e) = Inr q"
  shows "list_all plain [ascii ''collections'', n, c, e] \<and> q = intercal [ascii ''collections'', n, c, e]"
proof -
  from assms obtain d where d: "rbind (collection_dir n) (\<lambda>d. path_join d c) = Inr d" and q: "path_join d e = Inr q"
    by (rule rbind_InrE)
  from collection_sub [OF d] have "list_all plain [ascii ''collections'', n, c]"
    "d = intercal [ascii ''collections'', n, c]" by auto
  from join_all [OF this q] show ?thesis by simp
qed

lemmas layout_defs = layout_lock_def layout_manifest_def layout_catalog_def wal_file_def wal_dir_def
  segment_file_def segments_dir_def index_file_def index_dir_def

lemma layout_intercal:
  assumes "layout f = Inr p"
  shows "list_all plain (file_components f) \<and> p = intercal (file_components f)"
  using assms
  by (cases f; simp only: layout.simps layout_defs file_components.simps)
    (rule join_root collection_sub collection_sub2, assumption)+

lemma file_components_inject:
  assumes "file_components f = file_components g"
  shows "f = g"
proof -
  have ext: "k = k'" if "extension k = extension k'" for k k' using that by (cases k; cases k') auto
  have slt: "s = s'" if "slot_file_name s = slot_file_name s'" for s s' using that by (cases s; cases s') auto
  have slk: "slot_file_name s \<noteq> ''LOCK''" for s by (cases s) auto
  have dot: "ascii (CHR ''.'' # x) = 0x2E # ascii x" "ascii (CHR ''-'' # x) = 0x2D # ascii x" for x by (simp_all add: ascii_def)
  have num: "pad6 i @ ascii (CHR ''.'' # x) = pad6 j @ ascii (CHR ''.'' # y) \<longleftrightarrow> i = j \<and> x = y" for i j x y
    unfolding dot using append_sep_inject [of "0x2E" "pad6 i" "pad6 j"] pad6_not_in [of "0x2E"]
    by (simp add: is_digit_def pad6_inject)
  have idx: "kd = kd' \<and> i = j" if "kd @ ascii ''-'' @ pad6 i = kd' @ ascii ''-'' @ pad6 j" for kd kd' i j
  proof -
    have "kd @ 0x2D # pad6 i = kd' @ 0x2D # pad6 j" using that by (simp add: ascii_def)
    from sep_append_inject [OF pad6_not_in pad6_not_in this] show ?thesis
      by (simp add: is_digit_def pad6_inject)
  qed
  show ?thesis
    using assms slk slk [symmetric] by (cases f; cases g) (auto simp: num pad6_inject dest: ext slt idx)
qed

lemma layout_components: "layout f = Inr p \<Longrightarrow> path_components p = file_components f"
  using layout_intercal [of f p] components_intercal by auto

lemma layout_inject: "layout f = Inr p \<Longrightarrow> layout g = Inr p \<Longrightarrow> f = g"
  using layout_components [of f p] layout_components [of g p] by (intro file_components_inject) simp

subsection \<open>Names that give paths\<close>

lemma intercal_append_length: "length (intercal cs) \<le> length (intercal (cs @ ds))"
proof (induction cs)
  case (Cons c cs)
  then show ?case by (cases "cs = []"; cases "ds = []") (auto simp: intercal_Cons)
qed simp

lemma length_intercal: "length (intercal cs) = sum_list (map length cs) + (length cs - 1)"
  by (induction cs rule: intercal.induct) auto

lemma decimal_length: "n < 10 ^ k \<Longrightarrow> 0 < k \<Longrightarrow> length (decimal n) \<le> k"
proof (induction k arbitrary: n)
  case (Suc k)
  show ?case
  proof (cases "n < 10")
    case True
    then show ?thesis by (subst decimal.simps) simp
  next
    case False
    then have "n div 10 < 10 ^ k" "0 < k" using Suc.prems by (auto intro: Nat.gr0I)
    from Suc.IH [OF this] False show ?thesis by (subst decimal.simps) simp
  qed
qed simp

lemma pad6_length: "length (pad6 n) \<le> 20"
proof -
  have "(2 :: nat) ^ 64 \<le> 10 ^ 20" by simp
  then have "unat n < 10 ^ 20" using unat_lt_64 [of n] by linarith
  then have "length (decimal (unat n)) \<le> 20" by (intro decimal_length) simp_all
  then show ?thesis by (simp add: pad6_def Let_def)
qed

lemma plain_numbered:
  assumes "length x \<le> 10" and "0x2E \<notin> set x" and "SEP \<notin> set x" and "0x5C \<notin> set x" and "0 \<notin> set x"
  shows "plain (pad6 n @ 0x2E # x)"
proof -
  obtain b bs where p: "pad6 n = b # bs" by (cases "pad6 n") (auto simp: pad6_def Let_def)
  have "0x2E \<notin> set (pad6 n)" "SEP \<notin> set (pad6 n)" "0x5C \<notin> set (pad6 n)" "0 \<notin> set (pad6 n)"
    by (rule pad6_not_in, simp add: is_digit_def SEP_def)+
  moreover have "length (pad6 n) \<le> 20" by (rule pad6_length)
  moreover have "ascii ''.'' = [0x2E]" "ascii ''..'' = [0x2E, 0x2E]" by (simp_all add: ascii_def)
  ultimately show ?thesis using assms p by (auto simp: plain_def SEP_def)
qed

lemma collection_name_plain: "check_collection_name name = Inr () \<Longrightarrow> plain name"
proof -
  assume n: "check_collection_name name = Inr ()"
  have "\<not> is_valid_name_byte SEP" "\<not> is_valid_name_byte 0x5C" "\<not> is_valid_name_byte 0"
    by (simp_all add: is_valid_name_byte_def SEP_def)
  with n show "plain name"
    by (auto simp: check_collection_name_def plain_def MAX_COLLECTION_NAME_LEN_def Let_def list_all_iff split: if_splits)
qed

lemma collection_paths:
  assumes "check_collection_name name = Inr ()"
  shows "\<exists>p. layout_catalog name = Inr p" and "\<exists>d. segments_dir name = Inr d" and "\<exists>p. segment_file name n k = Inr p" and "\<exists>p. wal_file name n = Inr p"
proof -
  from assms have nl: "plain name" "length name \<le> 255" using collection_name_plain by (simp_all add: plain_def)
  have pl: "plain (ascii ''collections'')" "plain (ascii ''segments'')" "plain (ascii ''wal'')" "plain (ascii ''CATALOG'')"
    by (simp_all add: plain_def ascii_def SEP_def)
  have lc: "length (ascii ''collections'') = 11" "length (ascii ''segments'') = 8" "length (ascii ''wal'') = 3" "length (ascii ''CATALOG'') = 7"
    by (simp_all add: ascii_def)
  have root: "path_root = intercal []" by (simp add: path_root_def)
  have j: "path_join (intercal cs) c = Inr (intercal (cs @ [c]))"
    if "list_all plain cs" "plain c" "sum_list (map length (cs @ [c])) + length cs \<le> 1024" for cs c
    using path_join_intercal [OF that(1), of c "intercal (cs @ [c])"] that by (simp add: length_intercal)
  have cd: "collection_dir name = Inr (intercal [ascii ''collections'', name])"
    using j [of "[]" "ascii ''collections''"] j [of "[ascii ''collections'']" name] pl assms nl lc
    by (simp add: collection_dir_def collections_dir_def root del: intercal.simps)
  then show "\<exists>p. layout_catalog name = Inr p"
    using j [of "[ascii ''collections'', name]" "ascii ''CATALOG''"] pl nl lc
    by (simp add: layout_catalog_def del: intercal.simps)
  have sd: "segments_dir name = Inr (intercal [ascii ''collections'', name, ascii ''segments''])"
    and wd: "wal_dir name = Inr (intercal [ascii ''collections'', name, ascii ''wal''])"
    using cd j [of "[ascii ''collections'', name]" "ascii ''segments''"] j [of "[ascii ''collections'', name]" "ascii ''wal''"] pl assms nl lc
    by (simp_all add: segments_dir_def wal_dir_def del: intercal.simps)
  show "\<exists>d. segments_dir name = Inr d" using sd by blast
  have len: "length (pad6 n) \<le> 20" by (rule pad6_length)
  obtain x where x: "ascii (CHR ''.'' # extension k) = 0x2E # x" "plain (pad6 n @ 0x2E # x)" "length x \<le> 10"
  proof
    show "ascii (CHR ''.'' # extension k) = 0x2E # ascii (extension k)" by (simp add: ascii_def)
    show "length (ascii (extension k)) \<le> 10" by (cases k) (simp_all add: ascii_def)
    show "plain (pad6 n @ 0x2E # ascii (extension k))" by (rule plain_numbered; cases k) (simp_all add: ascii_def SEP_def)
  qed
  show "\<exists>p. segment_file name n k = Inr p"
    using sd j [of "[ascii ''collections'', name, ascii ''segments'']" "pad6 n @ 0x2E # x"] pl assms nl lc len x
    by (simp add: segment_file_def del: intercal.simps)
  have w: "ascii ''.wal'' = [0x2E, 0x77, 0x61, 0x6C]" by (simp add: ascii_def)
  have "plain (pad6 n @ 0x2E # [0x77, 0x61, 0x6C])" by (rule plain_numbered) (simp_all add: SEP_def)
  then show "\<exists>p. wal_file name n = Inr p"
    using wd j [of "[ascii ''collections'', name, ascii ''wal'']" "pad6 n @ [0x2E, 0x77, 0x61, 0x6C]"] pl assms nl lc len
    by (simp add: wal_file_def w del: intercal.simps)
qed

subsection \<open>Properties\<close>

text \<open>
  Parsing accepts exactly the safe paths: the empty path, or at most 1024
  bytes whose components, split at the separators, are all non-empty, at most 255 bytes,
  different from one and two full stops, and free of separators, backslashes and NUL.  So no
  accepted path can leave the database directory, and the path is the string unchanged.
\<close>

lemma path_parse_iff:
  "path_parse s = Inr p \<longleftrightarrow> p = s \<and> length s \<le> 1024
     \<and> (s = [] \<or> list_all plain (split_on SEP s))"
  by (rule path_parse_plain)

text \<open>
  Property C39.  The layout gives every file its own name: lock, manifest slots, catalogs,
  logs, segment files and index snapshots of whatever collections and ids never share a
  path, and each path has exactly the components the layout prescribes.
\<close>

theorem layout_injective:
  assumes "layout f = Inr p" and "layout g = Inr q"
  shows "path_components p = file_components f \<and> (p = q \<longleftrightarrow> f = g)"
  using layout_components [OF assms(1)] layout_inject [of f p g] assms by auto

theorem layout_injective_witness:
  "\<exists>p q. layout (SegFile (ascii ''notes'') 7 VectorsFile) = Inr p \<and> layout (WalFile (ascii ''notes'') 7) = Inr q
     \<and> p \<noteq> q"
proof -
  have d7: "decimal 7 = [0x37]" by (simp add: decimal.simps)
  have pl: "plain (ascii ''collections'')" "plain (ascii ''notes'')" "plain (ascii ''segments'')" "plain (ascii ''wal'')"
    "plain (pad6 7 @ ascii ''.vec'')" "plain (pad6 7 @ ascii ''.wal'')"
    by (simp_all add: plain_def pad6_def Let_def d7 ascii_def SEP_def)
  have n: "check_collection_name (ascii ''notes'') = Inr ()"
    by (simp add: check_collection_name_def ascii_def MAX_COLLECTION_NAME_LEN_def is_valid_name_byte_def)
  have jn: "path_join p c = Inr (push_component p c)" if "plain c" "length (push_component p c) \<le> 1024" for p c
    using that by (simp add: path_join_def MAX_PATH_LEN_def Let_def)
  have p7: "length (pad6 7) = 6" "pad6 7 \<noteq> []" by (simp_all add: pad6_def Let_def d7)
  have cd: "collection_dir (ascii ''notes'') = Inr (ascii ''collections'' @ SEP # ascii ''notes'')"
    by (simp add: collection_dir_def collections_dir_def n jn pl push_component_def path_root_def)
  have "is_ok (layout (SegFile (ascii ''notes'') 7 VectorsFile))" "is_ok (layout (WalFile (ascii ''notes'') 7))"
    by (simp_all add: layout_defs cd jn pl push_component_def p7)
  then obtain p q where pq: "layout (SegFile (ascii ''notes'') 7 VectorsFile) = Inr p" "layout (WalFile (ascii ''notes'') 7) = Inr q"
    by (auto elim!: is_okE)
  from layout_injective [OF pq] pq show ?thesis by auto
qed

end
