(* ===== verification/Storage.thy ===== *)
theory Storage
  imports Db_Path
begin

text \<open>
  The storage abstraction (\<open>core/src/storage/mod.rs\<close>, \<open>caps.rs\<close>).  Code that talks to a
  backend is a function from the backend's state to a result and the new state; an error keeps
  the effects that happened before it, as it does in the source.  The traits \<open>Storage\<close> and
  \<open>File\<close> are a record of operations, the argument \<open>&dyn Storage\<close> of the engine's functions;
  the locale \<open>storage_contract\<close> states what the engine relies on, in terms of an abstract view
  of the backend: which files exist, the bytes each holds now and the bytes it would hold after
  a power cut, and which handle stands on which file.
\<close>

subsection \<open>Effects\<close>

type_synonym ('s, 'a) io = "'s \<Rightarrow> 'a db_result \<times> 's"

definition io_ok :: "'a \<Rightarrow> ('s, 'a) io" where
  "io_ok a = (\<lambda>s. (Inr a, s))"

definition io_err :: "db_error \<Rightarrow> ('s, 'a) io" where
  "io_err e = (\<lambda>s. (Inl e, s))"

definition io_of :: "'a db_result \<Rightarrow> ('s, 'a) io" where
  "io_of r = (\<lambda>s. (r, s))"

definition io_bind :: "('s, 'a) io \<Rightarrow> ('a \<Rightarrow> ('s, 'b) io) \<Rightarrow> ('s, 'b) io" where
  "io_bind m f = (\<lambda>s. case m s of (Inl e, s') \<Rightarrow> (Inl e, s') | (Inr a, s') \<Rightarrow> f a s')"

text \<open>The result as a value, for code that inspects it instead of returning early.\<close>

definition io_catch :: "('s, 'a) io \<Rightarrow> ('s, 'a db_result) io" where
  "io_catch m = (\<lambda>s. case m s of (r, s') \<Rightarrow> (Inr r, s'))"

fun io_fold :: "('a \<Rightarrow> 'c \<Rightarrow> ('s, 'c) io) \<Rightarrow> 'a list \<Rightarrow> 'c \<Rightarrow> ('s, 'c) io" where
  "io_fold f [] c = io_ok c"
| "io_fold f (x # xs) c = io_bind (f x c) (io_fold f xs)"

text \<open>
  An object that owns data beside the backend (a \<open>&mut self\<close> method taking \<open>&dyn Storage\<close>) runs on
  the pair of its own state and the backend's; \<open>io_snd\<close> calls the backend from there, and
  \<open>io_modify\<close> assigns to the object's fields.
\<close>

definition io_snd :: "('s, 'a) io \<Rightarrow> ('w \<times> 's, 'a) io" where
  "io_snd m = (\<lambda>(w, s). case m s of (r, s') \<Rightarrow> (r, (w, s')))"

definition io_self :: "('w \<times> 's, 'w) io" where
  "io_self = (\<lambda>(w, s). (Inr w, (w, s)))"

definition io_modify :: "('w \<Rightarrow> 'w) \<Rightarrow> ('w \<times> 's, unit) io" where
  "io_modify f = (\<lambda>(w, s). (Inr (), (f w, s)))"

lemma io_self_simps [simp]:
  "io_self (w, s) = (Inr w, (w, s))" "io_modify f (w, s) = (Inr (), (f w, s))"
  "m s = (r, s') \<Longrightarrow> io_snd m (w, s) = (r, (w, s'))"
  by (simp_all add: io_self_def io_modify_def io_snd_def)

lemma io_simps [simp]:
  "io_ok a s = (Inr a, s)" "io_err e s = (Inl e, s)" "io_of r s = (r, s)"
  by (simp_all add: io_ok_def io_err_def io_of_def)

lemma io_bind_Inr [simp]: "m s = (Inr a, s') \<Longrightarrow> io_bind m f s = f a s'"
  by (simp add: io_bind_def)

lemma io_bind_Inl [simp]: "m s = (Inl e, s') \<Longrightarrow> io_bind m f s = (Inl e, s')"
  by (simp add: io_bind_def)

lemma io_bind_InrE:
  assumes "io_bind m f s = (Inr b, t)"
  obtains a s' where "m s = (Inr a, s')" "f a s' = (Inr b, t)"
  using assms by (auto simp: io_bind_def split: prod.splits sum.splits)

lemma io_catch_eq [simp]: "m s = (r, s') \<Longrightarrow> io_catch m s = (Inr r, s')"
  by (simp add: io_catch_def)

lemma io_fold_append: "io_fold f (xs @ ys) c s = io_bind (io_fold f xs c) (io_fold f ys) s"
proof (induction xs arbitrary: c s)
  case Nil
  then show ?case by simp
next
  case (Cons x xs)
  obtain r s' where "f x c s = (r, s')" by fastforce
  with Cons show ?case by (cases r) (auto simp: io_bind_def)
qed

subsection \<open>The traits\<close>

datatype open_mode = OpenRead | OpenReadWrite | OpenCreate | OpenCreateNew

definition is_writable :: "open_mode \<Rightarrow> bool" where
  "is_writable m \<longleftrightarrow> m \<noteq> OpenRead"

datatype entry_kind = EntryFile | EntryDirectory

record dir_entry =
  de_name :: rust_string
  de_kind :: entry_kind

record file_meta =
  fm_len :: u64
  fm_kind :: entry_kind

record file_lock =
  fl_path :: db_path
  fl_holder :: rust_string

record capabilities =
  cap_atomic_rename :: bool
  cap_mmap :: bool
  cap_durable_sync :: bool
  cap_sparse_files :: bool
  cap_file_locking :: bool
  cap_max_file_size :: "u64 option"
  cap_prefers_few_large_files :: bool

definition caps_minimal :: capabilities where
  "caps_minimal = \<lparr>cap_atomic_rename = False, cap_mmap = False, cap_durable_sync = False,
     cap_sparse_files = False, cap_file_locking = False, cap_max_file_size = None,
     cap_prefers_few_large_files = False\<rparr>"

definition caps_posix :: capabilities where
  "caps_posix = \<lparr>cap_atomic_rename = True, cap_mmap = True, cap_durable_sync = True,
     cap_sparse_files = True, cap_file_locking = True, cap_max_file_size = None,
     cap_prefers_few_large_files = False\<rparr>"

text \<open>
  \<open>'s\<close> is the backend's state, \<open>'h\<close> a file handle.  \<open>read_at\<close> is given the length of the
  caller's buffer and returns the bytes it put there; a lock guard is released by
  \<open>st_unlock\<close>, the guard's \<open>Drop\<close>.
\<close>

record ('s, 'h) storage =
  st_describe :: rust_string
  st_capabilities :: capabilities
  st_open_file :: "db_path \<Rightarrow> open_mode \<Rightarrow> ('s, 'h) io"
  st_remove_file :: "db_path \<Rightarrow> ('s, unit) io"
  st_rename :: "db_path \<Rightarrow> db_path \<Rightarrow> ('s, unit) io"
  st_create_dir_all :: "db_path \<Rightarrow> ('s, unit) io"
  st_remove_dir_all :: "db_path \<Rightarrow> ('s, unit) io"
  st_list_dir :: "db_path \<Rightarrow> ('s, dir_entry list) io"
  st_metadata :: "db_path \<Rightarrow> ('s, file_meta option) io"
  st_sync_dir :: "db_path \<Rightarrow> ('s, unit) io"
  st_try_lock :: "db_path \<Rightarrow> ('s, file_lock) io"
  st_unlock :: "file_lock \<Rightarrow> 's \<Rightarrow> 's"
  f_read_at :: "'h \<Rightarrow> nat \<Rightarrow> u64 \<Rightarrow> ('s, bytes) io"
  f_write_at :: "'h \<Rightarrow> bytes \<Rightarrow> u64 \<Rightarrow> ('s, unit) io"
  f_append :: "'h \<Rightarrow> bytes \<Rightarrow> ('s, u64) io"
  f_truncate :: "'h \<Rightarrow> u64 \<Rightarrow> ('s, unit) io"
  f_len :: "'h \<Rightarrow> ('s, u64) io"
  f_sync_data :: "'h \<Rightarrow> ('s, unit) io"

definition st_exists :: "('s, 'h) storage \<Rightarrow> db_path \<Rightarrow> ('s, bool) io" where
  "st_exists st p = io_bind (st_metadata st p) (\<lambda>m. io_ok (m \<noteq> None))"

definition f_is_empty :: "('s, 'h) storage \<Rightarrow> 'h \<Rightarrow> ('s, bool) io" where
  "f_is_empty st h = io_bind (f_len st h) (\<lambda>n. io_ok (n = 0))"

definition f_read_exact_at :: "('s, 'h) storage \<Rightarrow> 'h \<Rightarrow> nat \<Rightarrow> u64 \<Rightarrow> db_path \<Rightarrow> ('s, bytes) io" where
  "f_read_exact_at st h n off path =
     io_bind (f_read_at st h n off) (\<lambda>bs.
     if length bs \<noteq> n then
       io_bind (io_catch (f_len st h)) (\<lambda>r.
       let actual = (case r of Inr l \<Rightarrow> l | Inl _ \<Rightarrow> sat_add off (u64_of (length bs))) in
       io_err (Corruption (TruncatedFile path (sat_add off (u64_of n)) actual)))
     else io_ok bs)"

subsection \<open>The contract\<close>

text \<open>What writing at an offset makes of a file: zeros fill a gap.\<close>

definition overwrite :: "bytes \<Rightarrow> bytes \<Rightarrow> nat \<Rightarrow> bytes" where
  "overwrite l buf off = take off (l @ replicate (off - length l) 0) @ buf @ drop (off + length buf) l"

definition resize :: "bytes \<Rightarrow> nat \<Rightarrow> bytes" where
  "resize l n = take n l @ replicate (n - length l) 0"

definition parent_of :: "db_path \<Rightarrow> db_path" where
  "parent_of p = (case path_parent p of None \<Rightarrow> path_root | Some q \<Rightarrow> q)"

lemma overwrite_empty [simp]: "overwrite [] buf 0 = buf"
  by (simp add: overwrite_def)

lemma resize_simps [simp]: "resize l 0 = []" "n \<le> length l \<Longrightarrow> resize l n = take n l"
  by (simp_all add: resize_def)

text \<open>
  \<open>files s p\<close> is the file at \<open>p\<close>: its bytes now and the bytes a power cut leaves of it.
  \<open>stands s h p\<close> says that the handle \<open>h\<close> stands on the file at \<open>p\<close>; \<open>crash\<close> is a power cut.
\<close>

type_synonym file_view = "bytes \<times> bytes"

locale storage_contract =
  fixes st :: "('s, 'h) storage"
    and files :: "'s \<Rightarrow> db_path \<Rightarrow> file_view option"
    and dirs :: "'s \<Rightarrow> db_path \<Rightarrow> bool"
    and stands :: "'s \<Rightarrow> 'h \<Rightarrow> db_path \<Rightarrow> bool"
    and writable :: "'h \<Rightarrow> bool"
    and good :: "'s \<Rightarrow> bool"
    and crash :: "'s \<Rightarrow> 's"
  assumes metadata_law: "good s \<Longrightarrow> st_metadata st p s =
      (Inr (case files s p of
              Some f \<Rightarrow> Some \<lparr>fm_len = u64_of (length (fst f)), fm_kind = EntryFile\<rparr>
            | None \<Rightarrow> if dirs s p then Some \<lparr>fm_len = 0, fm_kind = EntryDirectory\<rparr> else None), s)"
    and not_both: "good s \<Longrightarrow> dirs s p \<Longrightarrow> files s p = None"
    and open_existing: "good s \<Longrightarrow> files s p = Some f \<Longrightarrow> mode \<noteq> OpenCreateNew \<Longrightarrow>
      \<exists>h. st_open_file st p mode s = (Inr h, s) \<and> stands s h p \<and> writable h = is_writable mode"
    and open_missing: "good s \<Longrightarrow> files s p = None \<Longrightarrow> \<not> dirs s p \<Longrightarrow> \<not> is_writable mode \<or> mode = OpenReadWrite \<Longrightarrow>
      st_open_file st p mode s = (Inl (StorageErr (StorageNotFound p)), s)"
    and open_create: "good s \<Longrightarrow> files s p = None \<Longrightarrow> \<not> dirs s p \<Longrightarrow> dirs s (parent_of p) \<Longrightarrow>
      mode = OpenCreate \<or> mode = OpenCreateNew \<Longrightarrow>
      \<exists>h s'. st_open_file st p mode s = (Inr h, s') \<and> good s' \<and> files s' = (files s)(p \<mapsto> ([], []))
        \<and> dirs s' = dirs s \<and> stands s' h p \<and> writable h \<and> (\<forall>k q. stands s k q \<longrightarrow> stands s' k q)"
    and open_dir: "good s \<Longrightarrow> dirs s p \<Longrightarrow> \<exists>e. st_open_file st p mode s = (Inl e, s)"
    and open_orphan: "good s \<Longrightarrow> files s p = None \<Longrightarrow> \<not> dirs s p \<Longrightarrow> \<not> dirs s (parent_of p) \<Longrightarrow>
      \<exists>e. st_open_file st p mode s = (Inl e, s)"
    and create_dirs: "good s \<Longrightarrow> st_create_dir_all st p s = (Inr (), s') \<Longrightarrow> path_parse p = Inr p \<Longrightarrow>
      good s' \<and> files s' = files s \<and> dirs s' p \<and> (\<forall>q. dirs s q \<longrightarrow> dirs s' q) \<and> (\<forall>k q. stands s k q \<longrightarrow> stands s' k q)"
    and create_dirs_new: "good s \<Longrightarrow> st_create_dir_all st p s = (Inr (), s') \<Longrightarrow> path_parse p = Inr p \<Longrightarrow> dirs s' q \<Longrightarrow>
      dirs s q \<or> (\<exists>n. q = intercal (take n (path_components p)))"
    and create_dirs_total: "good s \<Longrightarrow> path_parse p = Inr p \<Longrightarrow>
      (\<forall>n. files s (intercal (take n (path_components p))) = None) \<Longrightarrow> \<exists>s'. st_create_dir_all st p s = (Inr (), s')"
    and list_law: "good s \<Longrightarrow> dirs s p \<Longrightarrow> \<exists>es. st_list_dir st p s = (Inr es, s)"
    and remove_law: "good s \<Longrightarrow> files s p = Some f \<Longrightarrow>
      \<exists>s'. st_remove_file st p s = (Inr (), s') \<and> good s' \<and> files s' = (files s)(p := None) \<and> dirs s' = dirs s
        \<and> (\<forall>k q. stands s k q \<longrightarrow> q \<noteq> p \<longrightarrow> stands s' k q)"
    and read_law: "good s \<Longrightarrow> stands s h p \<Longrightarrow> files s p = Some f \<Longrightarrow>
      f_read_at st h n off s = (Inr (take n (drop (unat off) (fst f))), s)"
    and len_law: "good s \<Longrightarrow> stands s h p \<Longrightarrow> files s p = Some f \<Longrightarrow> f_len st h s = (Inr (u64_of (length (fst f))), s)"
    and write_law: "good s \<Longrightarrow> stands s h p \<Longrightarrow> writable h \<Longrightarrow> files s p = Some f \<Longrightarrow> unat off + length buf < 2 ^ 64 \<Longrightarrow>
      \<exists>s'. f_write_at st h buf off s = (Inr (), s') \<and> good s' \<and> stands s' = stands s \<and> dirs s' = dirs s
        \<and> files s' = (files s)(p \<mapsto> (overwrite (fst f) buf (unat off), snd f))"
    and append_law: "good s \<Longrightarrow> stands s h p \<Longrightarrow> writable h \<Longrightarrow> files s p = Some f \<Longrightarrow>
      \<exists>s'. f_append st h buf s = (Inr (u64_of (length (fst f))), s') \<and> good s' \<and> stands s' = stands s \<and> dirs s' = dirs s
        \<and> files s' = (files s)(p \<mapsto> (fst f @ buf, snd f))"
    and truncate_law: "good s \<Longrightarrow> stands s h p \<Longrightarrow> writable h \<Longrightarrow> files s p = Some f \<Longrightarrow>
      \<exists>s'. f_truncate st h len s = (Inr (), s') \<and> good s' \<and> stands s' = stands s \<and> dirs s' = dirs s
        \<and> files s' = (files s)(p \<mapsto> (resize (fst f) (unat len), snd f))"
    and sync_law: "good s \<Longrightarrow> stands s h p \<Longrightarrow> writable h \<Longrightarrow> files s p = Some f \<Longrightarrow>
      \<exists>s'. f_sync_data st h s = (Inr (), s') \<and> good s' \<and> stands s' = stands s \<and> dirs s' = dirs s
        \<and> files s' = (files s)(p \<mapsto> (fst f, fst f))"
    and crash_law: "good s \<Longrightarrow> good (crash s) \<and> dirs (crash s) = dirs s
      \<and> files (crash s) = (\<lambda>p. map_option (\<lambda>f. (snd f, snd f)) (files s p))"
begin

text \<open>Opening for writing: the file is there afterwards, empty if it was not.\<close>

lemma open_write:
  assumes "good s" and "\<not> dirs s p" and "dirs s (parent_of p)"
  obtains h s' where "st_open_file st p OpenCreate s = (Inr h, s')" and "good s'" and "stands s' h p" and "writable h"
    and "dirs s' = dirs s" and "files s' = (files s)(p \<mapsto> (case files s p of Some f \<Rightarrow> f | None \<Rightarrow> ([], [])))"
    and "\<forall>k q. stands s k q \<longrightarrow> stands s' k q"
proof (cases "files s p")
  case None
  then show ?thesis using open_create [OF assms(1) None assms(2,3), of OpenCreate] that by fastforce
next
  case (Some f)
  then obtain h where "st_open_file st p OpenCreate s = (Inr h, s)" "stands s h p" "writable h"
    using open_existing [OF assms(1) Some, of OpenCreate] by (auto simp: is_writable_def)
  with Some that assms(1) show ?thesis by (metis fun_upd_triv option.simps(5))
qed

text \<open>An open that succeeded tells what was there.\<close>

lemma open_write_ok:
  assumes "good s" and "st_open_file st p OpenCreate s = (Inr h, s')"
  shows "\<not> dirs s p" and "dirs s (parent_of p) \<or> files s p \<noteq> None"
    and "good s' \<and> stands s' h p \<and> writable h \<and> dirs s' = dirs s
      \<and> files s' = (files s)(p \<mapsto> (case files s p of Some f \<Rightarrow> f | None \<Rightarrow> ([], [])))
      \<and> (\<forall>k q. stands s k q \<longrightarrow> stands s' k q)"
proof -
  show nd: "\<not> dirs s p" using open_dir [OF assms(1), of p OpenCreate] assms(2) by auto
  show par: "dirs s (parent_of p) \<or> files s p \<noteq> None"
    using open_orphan [OF assms(1) _ nd, of OpenCreate] assms(2) by (cases "files s p") auto
  show "good s' \<and> stands s' h p \<and> writable h \<and> dirs s' = dirs s
      \<and> files s' = (files s)(p \<mapsto> (case files s p of Some f \<Rightarrow> f | None \<Rightarrow> ([], [])))
      \<and> (\<forall>k q. stands s k q \<longrightarrow> stands s' k q)"
  proof (cases "files s p")
    case None
    with par obtain k t where "st_open_file st p OpenCreate s = (Inr k, t)" "good t" "files t = (files s)(p \<mapsto> ([], []))"
      "dirs t = dirs s" "stands t k p" "writable k" "\<forall>k q. stands s k q \<longrightarrow> stands t k q"
      using open_create [OF assms(1) None nd, of OpenCreate] by auto
    with None assms(2) show ?thesis by auto
  next
    case (Some f)
    then obtain k where "st_open_file st p OpenCreate s = (Inr k, s)" "stands s k p" "writable k"
      using open_existing [OF assms(1) Some, of OpenCreate] by (auto simp: is_writable_def)
    with Some assms show ?thesis by (auto simp: fun_upd_idem)
  qed
qed

text \<open>Open, truncate, write, sync: the file holds the bytes, durably, and no other file changed.\<close>

lemma replace_file:
  assumes "good s" and "\<not> dirs s p" and "dirs s (parent_of p)" and "length bs < 2 ^ 64"
  obtains h s1 s2 s3 s4 where "st_open_file st p OpenCreate s = (Inr h, s1)" and "f_truncate st h 0 s1 = (Inr (), s2)"
    and "f_write_at st h bs 0 s2 = (Inr (), s3)" and "f_sync_data st h s3 = (Inr (), s4)"
    and "good s4" and "files s4 = (files s)(p \<mapsto> (bs, bs))" and "dirs s4 = dirs s"
    and "\<forall>k q. stands s k q \<longrightarrow> stands s4 k q"
proof -
  let ?f = "case files s p of Some f \<Rightarrow> f | None \<Rightarrow> ([], [])"
  from assms(1-3) obtain h s1 where o: "st_open_file st p OpenCreate s = (Inr h, s1)" "good s1" "stands s1 h p" "writable h"
    "dirs s1 = dirs s" "files s1 = (files s)(p \<mapsto> ?f)" "\<forall>k q. stands s k q \<longrightarrow> stands s1 k q" by (rule open_write)
  from truncate_law [OF o(2-4), of ?f 0] o(6) obtain s2 where t: "f_truncate st h 0 s1 = (Inr (), s2)" "good s2"
    "stands s2 = stands s1" "dirs s2 = dirs s1" "files s2 = (files s)(p \<mapsto> ([], snd ?f))" by auto
  from write_law [OF t(2) _ o(4), of p "([], snd ?f)" 0 bs] t(3,5) o(3) assms(4)
  obtain s3 where w: "f_write_at st h bs 0 s2 = (Inr (), s3)" "good s3"
    "stands s3 = stands s1" "dirs s3 = dirs s1" "files s3 = (files s)(p \<mapsto> (bs, snd ?f))" using t(4) by auto
  from sync_law [OF w(2) _ o(4), of p "(bs, snd ?f)"] w(3,5) o(3)
  obtain s4 where "f_sync_data st h s3 = (Inr (), s4)" "good s4"
    "stands s4 = stands s1" "dirs s4 = dirs s1" "files s4 = (files s)(p \<mapsto> (bs, bs))" using w(4) by auto
  with o t(1) w(1) show ?thesis by (intro that [of h s1 s2 s3 s4]) auto
qed

text \<open>Reading a whole file through its metadata: exactly its bytes.\<close>

lemma read_whole:
  assumes "good s" and "files s p = Some f" and "length (fst f) < 2 ^ 64"
  obtains h where "st_metadata st p s = (Inr (Some \<lparr>fm_len = u64_of (length (fst f)), fm_kind = EntryFile\<rparr>), s)"
    and "st_open_file st p OpenRead s = (Inr h, s)" and "f_len st h s = (Inr (u64_of (length (fst f))), s)"
    and "f_read_at st h (unat (u64_of (length (fst f)))) 0 s = (Inr (fst f), s)"
proof -
  from open_existing [OF assms(1,2), of OpenRead] obtain h
    where h: "st_open_file st p OpenRead s = (Inr h, s)" "stands s h p" by auto
  with metadata_law [OF assms(1), of p] read_law [OF assms(1) h(2) assms(2), of "length (fst f)" 0] len_law [OF assms(1) h(2) assms(2)]
    assms(2,3) show ?thesis by (intro that) (simp_all add: unat_u64_of)
qed

lemma exists_law: "good s \<Longrightarrow> st_exists st p s = (Inr (files s p \<noteq> None \<or> dirs s p), s)"
  using metadata_law [of s p] by (auto simp: st_exists_def split: option.splits)

lemma crash_file: "good s \<Longrightarrow> files s p = Some f \<Longrightarrow> files (crash s) p = Some (snd f, snd f)"
  using crash_law by simp

end

end
