(* ===== verification/Value.thy ===== *)
theory Value
  imports Cursor
begin

text \<open>
  Metadata values and their encoding (\<open>isha-vector-db-format/src/value.rs\<close>): the encoder, the
  validating decoder, the skipper and the lazy path lookup with its binary search over a
  map's offset table.

  \<open>val_rep d v bs\<close> says that \<open>bs\<close> is a valid encoding of \<open>v\<close> at nesting depth \<open>d\<close> (a map of
  at least eight entries has two: the plain one of format version 1 and the indexed one).
  The decoder accepts exactly these bytes, the encoder produces some of them, the skipper steps
  over them, and the path lookup returns on them what a full decode followed by a lookup would.

  A \<open>BTreeMap<String, Value>\<close> is the list of its entries in ascending key order; \<open>val_wf\<close>
  states what the Rust types guarantee: strings are UTF-8, keys are strictly ascending and
  lengths fit a machine word.
\<close>

definition MAX_VALUE_DEPTH :: nat where
  "MAX_VALUE_DEPTH = 16"

definition INDEX_MIN_ENTRIES :: nat where
  "INDEX_MIN_ENTRIES = 8"

definition INDEX_ENTRY_BYTES :: nat where
  "INDEX_ENTRY_BYTES = 2"

definition TAG_NULL :: u8 where "TAG_NULL = 0"
definition TAG_FALSE :: u8 where "TAG_FALSE = 1"
definition TAG_TRUE :: u8 where "TAG_TRUE = 2"
definition TAG_I64 :: u8 where "TAG_I64 = 3"
definition TAG_F64 :: u8 where "TAG_F64 = 4"
definition TAG_STR :: u8 where "TAG_STR = 5"
definition TAG_BYTES :: u8 where "TAG_BYTES = 6"
definition TAG_ARRAY :: u8 where "TAG_ARRAY = 7"
definition TAG_MAP :: u8 where "TAG_MAP = 8"
definition TAG_MAP_INDEXED :: u8 where "TAG_MAP_INDEXED = 9"

lemmas tag_defs = TAG_NULL_def TAG_FALSE_def TAG_TRUE_def TAG_I64_def TAG_F64_def TAG_STR_def
  TAG_BYTES_def TAG_ARRAY_def TAG_MAP_def TAG_MAP_INDEXED_def

datatype val = Null | Bool bool | I64 u64 | F64 u64 | Str rust_string | Bytes bytes
  | Array "val list" | Map "(rust_string \<times> val) list"

definition type_name :: "val \<Rightarrow> string" where
  "type_name v = (case v of
      Null \<Rightarrow> ''null'' | Bool _ \<Rightarrow> ''bool'' | I64 _ \<Rightarrow> ''i64'' | F64 _ \<Rightarrow> ''f64''
    | Str _ \<Rightarrow> ''string'' | Bytes _ \<Rightarrow> ''bytes'' | Array _ \<Rightarrow> ''array'' | Map _ \<Rightarrow> ''map'')"

text \<open>\<open>.max().unwrap_or(0)\<close>\<close>

definition max_or_zero :: "nat list \<Rightarrow> nat" where
  "max_or_zero ns = fold max ns 0"

fun depth :: "val \<Rightarrow> nat" where
  "depth (Array items) = 1 + max_or_zero (map depth items)"
| "depth (Map entries) = 1 + max_or_zero (map (\<lambda>(k, v). depth v) entries)"
| "depth _ = 1"

definition table_offset :: "bytes \<Rightarrow> nat \<Rightarrow> nat option" where
  "table_offset table index =
     (let at = index * INDEX_ENTRY_BYTES; end = at + INDEX_ENTRY_BYTES in
      map_option (\<lambda>bs. unat (from_le bs :: u16)) (slice table at end))"

definition bounded_count :: "u64 \<Rightarrow> nat \<Rightarrow> u64 \<Rightarrow> nat fresult" where
  "bounded_count claimed max_possible at =
     (let available = u64_of max_possible in
      if claimed > available then Inl (LengthExceedsInput at claimed available)
      else Inr (unat claimed))"

subsection \<open>Encoding\<close>

lemma size_Map_entry: "(k, v) \<in> set es \<Longrightarrow> size v < Suc (size_list (size_prod (\<lambda>x. 0) size) es)"
proof -
  assume "(k, v) \<in> set es"
  then have "size_prod (\<lambda>x. 0) size (k, v) \<le> size_list (size_prod (\<lambda>x. 0) size) es"
    by (rule size_list_estimation') simp
  then show ?thesis by simp
qed

function write_at_depth :: "val \<Rightarrow> writer \<Rightarrow> nat \<Rightarrow> writer fresult" where
  "write_at_depth v w dep =
     (if dep > MAX_VALUE_DEPTH
      then Inl (Malformed (u64_of (length w)) (DepthExceeded MAX_VALUE_DEPTH))
      else case v of
        Null \<Rightarrow> Inr (writer_u8 w TAG_NULL)
      | Bool b \<Rightarrow> Inr (writer_u8 w (if b then TAG_TRUE else TAG_FALSE))
      | I64 i \<Rightarrow> Inr (writer_varint_i64 (writer_u8 w TAG_I64) i)
      | F64 x \<Rightarrow>
          if \<not> f64_is_finite x then Inl (Malformed (u64_of (length w)) NonFiniteFloat)
          else Inr (writer_f64 (writer_u8 w TAG_F64) x)
      | Str s \<Rightarrow> Inr (writer_string (writer_u8 w TAG_STR) s)
      | Bytes b \<Rightarrow> Inr (writer_blob (writer_u8 w TAG_BYTES) b)
      | Array items \<Rightarrow>
          try_fold (\<lambda>item w. write_at_depth item w (dep + 1)) items
            (writer_varint (writer_u8 w TAG_ARRAY) (u64_of (length items)))
      | Map entries \<Rightarrow>
          if length entries < INDEX_MIN_ENTRIES then
            try_fold (\<lambda>(key, value) w. write_at_depth value (writer_string w key) (dep + 1)) entries
              (writer_varint (writer_u8 w TAG_MAP) (u64_of (length entries)))
          else
            rbind (try_fold (\<lambda>(key, value) (scratch, offsets).
                rbind (write_at_depth value (writer_string scratch key) (dep + 1)) (\<lambda>scratch'.
                  Inr (scratch', offsets @ [length scratch]))) entries (writer_new, []))
              (\<lambda>(scratch, offsets).
                let indexable = (offsets \<noteq> [] \<and> last offsets \<le> unat (- 1 :: u16));
                    w = (if indexable
                         then foldl (\<lambda>w off. writer_u16 w (of_nat off))
                                (writer_varint (writer_u8 w TAG_MAP_INDEXED) (u64_of (length entries))) offsets
                         else writer_varint (writer_u8 w TAG_MAP) (u64_of (length entries)))
                in Inr (writer_raw w scratch)))"
  by pat_completeness auto
termination
  by (relation "measure (\<lambda>(v, w, dep). size v)")
     (auto simp: size_Map_entry less_Suc_eq_le intro: size_list_estimation')

declare write_at_depth.simps [simp del]

definition write_to :: "val \<Rightarrow> writer \<Rightarrow> writer fresult" where
  "write_to v w = write_at_depth v w 1"

definition encode :: "val \<Rightarrow> bytes fresult" where
  "encode v = write_to v writer_new"

subsection \<open>Decoding\<close>

text \<open>\<open>BTreeMap::insert\<close> on the ordered list of entries.\<close>

fun btree_insert :: "'k::linorder \<Rightarrow> 'v \<Rightarrow> ('k \<times> 'v) list \<Rightarrow> ('k \<times> 'v) list" where
  "btree_insert k v [] = [(k, v)]"
| "btree_insert k v ((k', v') # es) =
     (if k < k' then (k, v) # (k', v') # es
      else if k = k' then (k, v) # es
      else (k', v') # btree_insert k v es)"

text \<open>
  One turn of the loop over a map's entries.  The loop's state is the reader, the previous key
  and the entries so far; \<open>rd\<close> stands for the recursive call that reads the value.
\<close>

definition read_entry ::
  "val decoder \<Rightarrow> bool \<Rightarrow> bytes \<Rightarrow> u64 \<Rightarrow> u64 \<Rightarrow> nat
   \<Rightarrow> reader \<times> rust_string option \<times> (rust_string \<times> val) list
   \<Rightarrow> (reader \<times> rust_string option \<times> (rust_string \<times> val) list) fresult" where
  "read_entry rd indexed table table_at entries_base index = (\<lambda>(r, previous, entries).
     let key_at = offset r in
     rbind (if indexed then
              rbind (ok_or (table_offset table index)
                  (Malformed table_at (Inconsistent ''map offset table''))) (\<lambda>claimed.
                if u64_of claimed \<noteq> key_at - entries_base
                then Inl (Malformed table_at (Inconsistent ''map offset table''))
                else Inr ())
            else Inr ()) (\<lambda>_.
     rbind (reader_string r) (\<lambda>(key, r).
     rbind (case previous of
              None \<Rightarrow> Inr ()
            | Some prev \<Rightarrow>
                if key > prev then Inr ()
                else if key = prev then Inl (Malformed key_at DuplicateKey)
                else Inl (Malformed key_at KeysNotSorted)) (\<lambda>_.
     rbind (rd r) (\<lambda>(value, r).
       Inr (r, Some key, btree_insert key value entries))))))"

lemma read_entry_cong [fundef_cong]:
  assumes "\<And>s. rd s = rd' s" "ix = ix'" "t = t'" "ta = ta'" "eb = eb'" "i = i'" "s = s'"
  shows "read_entry rd ix t ta eb i s = read_entry rd' ix' t' ta' eb' i' s'"
proof -
  have "rd = rd'" using assms(1) by (rule ext)
  with assms show ?thesis by simp
qed

function read_at_depth :: "nat \<Rightarrow> val decoder" where
  "read_at_depth dep r =
     (if dep > MAX_VALUE_DEPTH then Inl (Malformed (offset r) (DepthExceeded MAX_VALUE_DEPTH))
      else let at = offset r in
      rbind (reader_u8 r) (\<lambda>(t, r).
      if t = TAG_NULL then Inr (Null, r)
      else if t = TAG_FALSE then Inr (Bool False, r)
      else if t = TAG_TRUE then Inr (Bool True, r)
      else if t = TAG_I64 then rbind (reader_varint_i64 r) (\<lambda>(i, r). Inr (I64 i, r))
      else if t = TAG_F64 then rbind (reader_f64 r) (\<lambda>(x, r). Inr (F64 x, r))
      else if t = TAG_STR then rbind (reader_string r) (\<lambda>(s, r). Inr (Str s, r))
      else if t = TAG_BYTES then rbind (reader_blob r) (\<lambda>(b, r). Inr (Bytes b, r))
      else if t = TAG_ARRAY then
        let count_at = offset r in
        rbind (reader_varint r) (\<lambda>(count, r).
        rbind (bounded_count count (remaining r) count_at) (\<lambda>count.
        rbind (read_times count (read_at_depth (dep + 1)) r) (\<lambda>(items, r).
          Inr (Array items, r))))
      else if t = TAG_MAP \<or> t = TAG_MAP_INDEXED then
        let indexed = (t = TAG_MAP_INDEXED); count_at = offset r in
        rbind (reader_varint r) (\<lambda>(count, r).
        let per_entry = (if indexed then 2 + INDEX_ENTRY_BYTES else 2) in
        rbind (bounded_count count (remaining r div per_entry) count_at) (\<lambda>count.
        if indexed \<and> count < INDEX_MIN_ENTRIES
        then Inl (Malformed at (Inconsistent ''map index tag''))
        else let table_at = offset r in
        rbind (reader_bytes (if indexed then count * INDEX_ENTRY_BYTES else 0) r) (\<lambda>(table, r).
        let entries_base = offset r in
        rbind (try_fold (\<lambda>index s. read_entry (read_at_depth (dep + 1)) indexed table table_at entries_base index s)
            [0..<count] (r, None, []))
          (\<lambda>(r, previous, entries). Inr (Map entries, r)))))
      else Inl (Malformed at (UnknownValueTag t))))"
  by pat_completeness auto
termination
  by (relation "measure (\<lambda>(dep, r). MAX_VALUE_DEPTH + 1 - dep)") auto

declare read_at_depth.simps [simp del]

definition read_from :: "val decoder" where
  "read_from r = read_at_depth 1 r"

definition decode :: "bytes \<Rightarrow> val fresult" where
  "decode bs =
     rbind (read_from (reader_new bs)) (\<lambda>(v, r).
     rbind (expect_end ''value'' r) (\<lambda>_. Inr v))"

subsection \<open>Skipping\<close>

function skip_at_depth :: "nat \<Rightarrow> unit decoder" where
  "skip_at_depth dep r =
     (if dep > MAX_VALUE_DEPTH then Inl (Malformed (offset r) (DepthExceeded MAX_VALUE_DEPTH))
      else let at = offset r in
      rbind (reader_u8 r) (\<lambda>(t, r).
      if t = TAG_NULL \<or> t = TAG_FALSE \<or> t = TAG_TRUE then Inr ((), r)
      else if t = TAG_I64 then rbind (reader_varint r) (\<lambda>(_, r). Inr ((), r))
      else if t = TAG_F64 then reader_skip 8 r
      else if t = TAG_STR \<or> t = TAG_BYTES then rbind (reader_blob r) (\<lambda>(_, r). Inr ((), r))
      else if t = TAG_ARRAY then
        let count_at = offset r in
        rbind (reader_varint r) (\<lambda>(claimed, r).
        rbind (bounded_count claimed (remaining r) count_at) (\<lambda>count.
        rbind (read_times count (skip_at_depth (dep + 1)) r) (\<lambda>(_, r). Inr ((), r))))
      else if t = TAG_MAP_INDEXED then
        let count_at = offset r in
        rbind (reader_varint r) (\<lambda>(claimed, r).
        rbind (bounded_count claimed (remaining r div 4) count_at) (\<lambda>count.
        rbind (reader_skip (count * INDEX_ENTRY_BYTES) r) (\<lambda>(_, r).
        rbind (read_times count (\<lambda>r. rbind (reader_blob r) (\<lambda>(_, r). skip_at_depth (dep + 1) r)) r)
          (\<lambda>(_, r). Inr ((), r)))))
      else if t = TAG_MAP then
        let count_at = offset r in
        rbind (reader_varint r) (\<lambda>(claimed, r).
        rbind (bounded_count claimed (remaining r div 2) count_at) (\<lambda>count.
        rbind (read_times count (\<lambda>r. rbind (reader_blob r) (\<lambda>(_, r). skip_at_depth (dep + 1) r)) r)
          (\<lambda>(_, r). Inr ((), r))))
      else Inl (Malformed at (UnknownValueTag t))))"
  by pat_completeness auto
termination
  by (relation "measure (\<lambda>(dep, r). MAX_VALUE_DEPTH + 1 - dep)") auto

declare skip_at_depth.simps [simp del]

definition skip_value :: "unit decoder" where
  "skip_value r = skip_at_depth 1 r"

subsection \<open>Path lookup\<close>

text \<open>\<open>path.split('.')\<close>: a full stop is one byte and occurs inside no other UTF-8 sequence.\<close>

fun split_dots :: "rust_string \<Rightarrow> rust_string list" where
  "split_dots [] = [[]]"
| "split_dots (b # bs) =
     (if b = 0x2E then [] # split_dots bs
      else case split_dots bs of [] \<Rightarrow> [[b]] | s # ss \<Rightarrow> (b # s) # ss)"

text \<open>The binary search over a map's offset table; \<open>Some off\<close> is a hit.\<close>

function bsearch :: "bytes \<Rightarrow> bytes \<Rightarrow> u64 \<Rightarrow> bytes \<Rightarrow> nat \<Rightarrow> nat \<Rightarrow> nat option fresult" where
  "bsearch table entries entries_base wanted lo hi =
     (if lo < hi then
        let mid = lo + (hi - lo) div 2 in
        rbind (ok_or (table_offset table mid)
            (Malformed entries_base (Inconsistent ''map offset table''))) (\<lambda>off.
        rbind (ok_or (slice entries off (length entries))
            (Malformed entries_base (Inconsistent ''map offset table''))) (\<lambda>rest.
        let probe = reader_with_base rest (entries_base + u64_of off) in
        rbind (reader_blob probe) (\<lambda>(key, _).
          if key < wanted then bsearch table entries entries_base wanted (mid + 1) hi
          else if key > wanted then bsearch table entries entries_base wanted lo mid
          else Inr (Some off))))
      else Inr None)"
  by pat_completeness auto
termination
  by (relation "measure (\<lambda>(table, entries, entries_base, wanted, lo, hi). hi - lo)") auto

declare bsearch.simps [simp del]

text \<open>The linear walk of a plain map; \<open>Some r\<close> stands on the value of the wanted key.\<close>

fun walk_entries :: "nat \<Rightarrow> bytes \<Rightarrow> reader \<Rightarrow> reader option fresult" where
  "walk_entries 0 wanted r = Inr None"
| "walk_entries (Suc n) wanted r =
     rbind (reader_blob r) (\<lambda>(key, r).
       if key < wanted then rbind (skip_value r) (\<lambda>(_, r). walk_entries n wanted r)
       else if key = wanted then Inr (Some r)
       else Inr None)"

fun find_segments :: "rust_string list \<Rightarrow> reader \<Rightarrow> val option fresult" where
  "find_segments [] r = Inr None"
| "find_segments (segment # segments) r =
     (let descend = (\<lambda>r. if segments = [] then rbind (read_from r) (\<lambda>(v, _). Inr (Some v))
                         else find_segments segments r) in
      rbind (reader_u8 r) (\<lambda>(t, r).
      if t \<noteq> TAG_MAP \<and> t \<noteq> TAG_MAP_INDEXED then Inr None
      else let wanted = segment in
      if t = TAG_MAP_INDEXED then
        let count_at = offset r in
        rbind (reader_varint r) (\<lambda>(claimed, r).
        rbind (bounded_count claimed (remaining r div 4) count_at) (\<lambda>count.
        rbind (reader_bytes (count * INDEX_ENTRY_BYTES) r) (\<lambda>(table, r).
        let entries_base = offset r in
        rbind (reader_peek (remaining r) r) (\<lambda>entries.
        rbind (bsearch table entries entries_base wanted 0 count) (\<lambda>hit.
        case hit of
          None \<Rightarrow> Inr None
        | Some off \<Rightarrow>
            rbind (reader_skip off r) (\<lambda>(_, r).
            rbind (reader_blob r) (\<lambda>(_, r). descend r)))))))
      else
        let count_at = offset r in
        rbind (reader_varint r) (\<lambda>(claimed, r).
        rbind (bounded_count claimed (remaining r div 2) count_at) (\<lambda>count.
        rbind (walk_entries count wanted r) (\<lambda>found.
        case found of
          None \<Rightarrow> Inr None
        | Some r \<Rightarrow> descend r)))))"

definition find_path :: "bytes \<Rightarrow> rust_string \<Rightarrow> val option fresult" where
  "find_path bs path =
     (if bs = [] \<or> path = [] then Inr None
      else find_segments (split_dots path) (reader_new bs))"

subsection \<open>Valid encodings\<close>

definition entry_offsets :: "bytes list \<Rightarrow> nat list" where
  "entry_offsets ess = map (\<lambda>i. length (concat (take i ess))) [0..<length ess]"

definition table_bytes :: "nat list \<Rightarrow> bytes" where
  "table_bytes offs = concat (map (\<lambda>off. to_le 2 (of_nat off :: u16)) offs)"

definition entry_bytes :: "(rust_string \<times> val) list \<Rightarrow> bytes list \<Rightarrow> bytes list" where
  "entry_bytes es bss = map2 (\<lambda>e b. blob_bytes (fst e) @ b) es bss"

definition entries_ok :: "(rust_string \<times> val) list \<Rightarrow> bool" where
  "entries_ok es \<longleftrightarrow> (\<forall>e \<in> set es. string_ok (fst e)) \<and> sorted_wrt (<) (map fst es) \<and> length es < 2 ^ 64"

inductive val_rep :: "nat \<Rightarrow> val \<Rightarrow> bytes \<Rightarrow> bool" where
  rep_Null: "d \<le> MAX_VALUE_DEPTH \<Longrightarrow> val_rep d Null [TAG_NULL]"
| rep_Bool: "d \<le> MAX_VALUE_DEPTH \<Longrightarrow> val_rep d (Bool b) [if b then TAG_TRUE else TAG_FALSE]"
| rep_I64: "d \<le> MAX_VALUE_DEPTH \<Longrightarrow> val_rep d (I64 i) (TAG_I64 # varint_bytes (zigzag i))"
| rep_F64: "d \<le> MAX_VALUE_DEPTH \<Longrightarrow> f64_is_finite x \<Longrightarrow> val_rep d (F64 x) (TAG_F64 # to_le 8 x)"
| rep_Str: "d \<le> MAX_VALUE_DEPTH \<Longrightarrow> string_ok s \<Longrightarrow> val_rep d (Str s) (TAG_STR # blob_bytes s)"
| rep_Bytes: "d \<le> MAX_VALUE_DEPTH \<Longrightarrow> blob_ok b \<Longrightarrow> val_rep d (Bytes b) (TAG_BYTES # blob_bytes b)"
| rep_Array: "d \<le> MAX_VALUE_DEPTH \<Longrightarrow> list_all2 (val_rep (Suc d)) vs bss \<Longrightarrow> length vs < 2 ^ 64
    \<Longrightarrow> val_rep d (Array vs) (TAG_ARRAY # varint_bytes (u64_of (length vs)) @ concat bss)"
| rep_Map: "d \<le> MAX_VALUE_DEPTH \<Longrightarrow> list_all2 (val_rep (Suc d)) (map snd es) bss \<Longrightarrow> entries_ok es
    \<Longrightarrow> val_rep d (Map es)
          (TAG_MAP # varint_bytes (u64_of (length es)) @ concat (entry_bytes es bss))"
| rep_Map_indexed: "d \<le> MAX_VALUE_DEPTH \<Longrightarrow> list_all2 (val_rep (Suc d)) (map snd es) bss \<Longrightarrow> entries_ok es
    \<Longrightarrow> INDEX_MIN_ENTRIES \<le> length es \<Longrightarrow> \<forall>off \<in> set (entry_offsets (entry_bytes es bss)). off < 2 ^ 16
    \<Longrightarrow> val_rep d (Map es)
          (TAG_MAP_INDEXED # varint_bytes (u64_of (length es))
           @ table_bytes (entry_offsets (entry_bytes es bss)) @ concat (entry_bytes es bss))"

inductive_cases val_rep_ArrayE: "val_rep d (Array vs) bs"
inductive_cases val_rep_MapE: "val_rep d (Map es) bs"

lemma val_rep_depth: "val_rep d v bs \<Longrightarrow> d \<le> MAX_VALUE_DEPTH"
  by (induction rule: val_rep.induct)

lemma val_rep_pos: "val_rep d v bs \<Longrightarrow> 1 \<le> length bs"
  by (induction rule: val_rep.induct) auto

lemma length_entry_bytes [simp]: "length (entry_bytes es bss) = min (length es) (length bss)"
  by (simp add: entry_bytes_def)

lemma length_concat_ge: "\<forall>b \<in> set bss. c \<le> length b \<Longrightarrow> c * length bss \<le> length (concat bss)"
  by (induction bss) auto

lemma blob_bytes_pos: "1 \<le> length (blob_bytes b)"
  by (simp add: blob_bytes_def varint_bytes.simps [of "u64_of (length b)"])

lemma entry_bytes_ge:
  assumes "list_all2 (val_rep d) (map snd es) bss"
  shows "2 * length es \<le> length (concat (entry_bytes es bss))"
proof -
  have "length es = length bss" using assms by (auto dest: list_all2_lengthD)
  moreover have "\<forall>e \<in> set (entry_bytes es bss). 2 \<le> length e"
  proof
    fix e
    assume "e \<in> set (entry_bytes es bss)"
    then obtain i where i: "i < length es" "i < length bss" "e = blob_bytes (fst (es ! i)) @ bss ! i"
      by (auto simp: entry_bytes_def set_zip)
    then have "val_rep d (snd (es ! i)) (bss ! i)"
      using assms by (auto simp: list_all2_conv_all_nth)
    then show "2 \<le> length e" using val_rep_pos blob_bytes_pos [of "fst (es ! i)"] i(3) by fastforce
  qed
  ultimately show ?thesis using length_concat_ge [of "entry_bytes es bss" 2] by simp
qed

lemma array_bytes_ge:
  "list_all2 (val_rep d) vs bss \<Longrightarrow> length vs \<le> length (concat bss)"
  by (induction rule: list_all2_induct) (auto dest!: val_rep_pos)

lemma bounded_count_enc: "n \<le> m \<Longrightarrow> m < 2 ^ 64 \<Longrightarrow> bounded_count (u64_of n) m at = Inr n"
  by (simp add: bounded_count_def Let_def word_less_nat_alt)

lemma bounded_count_sound: "bounded_count c m at = Inr n \<Longrightarrow> n = unat c"
  by (simp add: bounded_count_def Let_def split: if_splits)

subsection \<open>Offsets that do not saturate\<close>

definition nosat :: "reader \<Rightarrow> bool" where
  "nosat r \<longleftrightarrow> unat (rbase r) + length (rbuf r) < 2 ^ 64"

lemma nosat_advance [simp]: "nosat (advance n r) = nosat r"
  by (simp add: nosat_def)

lemma nosat_new [simp]: "nosat (reader_new bs) \<longleftrightarrow> length bs < 2 ^ 64"
  by (simp add: nosat_def reader_new_def)

lemma offset_nosat: "nosat r \<Longrightarrow> rpos r \<le> length (rbuf r) \<Longrightarrow> offset r = rbase r + u64_of (rpos r)"
  by (simp add: offset_def sat_add_def nosat_def)

lemma unread_short: "nosat r \<Longrightarrow> unread r xs \<Longrightarrow> length xs < 2 ^ 64"
  by (auto simp: unread_def nosat_def)

lemma offset_advance_diff:
  assumes "nosat r" and "unread r (xs @ ys)"
  shows "offset (advance (length xs) r) - offset r = u64_of (length xs)"
proof -
  have "rpos r \<le> length (rbuf r)" "rpos r + length xs \<le> length (rbuf r)"
    using assms(2) unread_advance [OF assms(2)] by (auto simp: unread_def)
  then show ?thesis using assms(1) by (simp add: offset_nosat u64_of_def)
qed

subsection \<open>The offset table\<close>

lemma length_table_bytes [simp]: "length (table_bytes offs) = 2 * length offs"
  by (induction offs) (auto simp: table_bytes_def)

lemma table_bytes_nth:
  "i < length offs \<Longrightarrow> slice (table_bytes offs) (2 * i) (2 * i + 2) = Some (to_le 2 (of_nat (offs ! i) :: u16))"
proof (induction offs arbitrary: i)
  case Nil
  then show ?case by simp
next
  case (Cons off offs)
  have t: "table_bytes (off # offs) = to_le 2 (of_nat off :: u16) @ table_bytes offs"
    by (simp add: table_bytes_def)
  show ?case
  proof (cases i)
    case 0
    show ?thesis unfolding t 0 by (simp add: slice_def)
  next
    case (Suc j)
    with Cons have "slice (table_bytes offs) (2 * j) (2 * j + 2) = Some (to_le 2 (of_nat (offs ! j) :: u16))"
      by simp
    then show ?thesis unfolding t Suc by (simp add: slice_def split: if_splits)
  qed
qed

lemma table_offset_nth:
  assumes "i < length offs" and "offs ! i < 2 ^ 16"
  shows "table_offset (table_bytes offs) i = Some (offs ! i)"
  using assms table_bytes_nth [OF assms(1)]
  by (simp add: table_offset_def INDEX_ENTRY_BYTES_def Let_def mult.commute [of i]
      from_le_to_le unat_of_nat)

lemma length_entry_offsets [simp]: "length (entry_offsets ess) = length ess"
  by (simp add: entry_offsets_def)

lemma entry_offsets_nth: "i < length ess \<Longrightarrow> entry_offsets ess ! i = length (concat (take i ess))"
  by (simp add: entry_offsets_def)

subsection \<open>The decoder accepts the valid encodings\<close>

lemma btree_insert_last:
  assumes "\<forall>e \<in> set es. fst e < k"
  shows "btree_insert k v es = es @ [(k, v)]"
  using assms by (induction es) (auto dest: order.asym)

lemma read_times_rep:
  assumes "list_all2 (\<lambda>v b. \<forall>r rest. nosat r \<longrightarrow> unread r (b @ rest) \<longrightarrow> dec r = Inr (v, advance (length b) r)) vs bss"
    and "nosat r" and "unread r (concat bss @ rest)"
  shows "read_times (length vs) dec r = Inr (vs, advance (length (concat bss)) r)"
  using assms
proof (induction vs bss arbitrary: r rule: list_all2_induct)
  case Nil
  then show ?case by simp
next
  case (Cons v vs b bss)
  have u: "unread r (b @ (concat bss @ rest))" using Cons.prems by simp
  have "dec r = Inr (v, advance (length b) r)" using Cons.hyps(1) Cons.prems(1) u by blast
  moreover have "read_times (length vs) dec (advance (length b) r)
      = Inr (vs, advance (length (concat bss)) (advance (length b) r))"
    using Cons.IH Cons.prems(1) unread_advance [OF u] by simp
  ultimately show ?case by simp
qed

lemma sorted_wrt_take_last:
  "sorted_wrt (<) (map fst es) \<Longrightarrow> i < length es \<Longrightarrow> \<forall>e \<in> set (take i es). fst e < fst (es ! i)"
  by (auto simp: sorted_wrt_iff_nth_less in_set_conv_nth) (metis fst_conv)

text \<open>The key of the last entry read, if any.\<close>

definition previous_key :: "nat \<Rightarrow> (rust_string \<times> val) list \<Rightarrow> rust_string option" where
  "previous_key i es = (if i = 0 then None else Some (fst (es ! (i - 1))))"

lemma read_entry_enc:
  assumes ok: "entries_ok es" and i: "i < length es" and l: "length ess = length es"
    and e: "ess ! i = blob_bytes (fst (es ! i)) @ b"
    and rd: "\<And>r rest. nosat r \<Longrightarrow> unread r (b @ rest) \<Longrightarrow> rd r = Inr (snd (es ! i), advance (length b) r)"
    and tab: "indexed \<Longrightarrow> table_offset table i = Some (length (concat (take i ess)))"
    and r: "nosat r0" "unread r0 (concat ess @ rest)"
  shows "read_entry rd indexed table ta (offset r0) i
      (advance (length (concat (take i ess))) r0, previous_key i es, take i es)
     = Inr (advance (length (concat (take (Suc i) ess))) r0, previous_key (Suc i) es, take (Suc i) es)"
proof -
  let ?r = "advance (length (concat (take i ess))) r0"
  have split: "concat ess = concat (take i ess) @ blob_bytes (fst (es ! i)) @ b @ concat (drop (Suc i) ess)"
    using i l e by (metis append_assoc concat.simps(2) concat_append id_take_nth_drop)
  have u: "unread ?r (blob_bytes (fst (es ! i)) @ b @ concat (drop (Suc i) ess) @ rest)"
    using unread_advance [of r0 "concat (take i ess)"] r(2) unfolding split by simp
  have off: "offset ?r - offset r0 = u64_of (length (concat (take i ess)))"
    using offset_advance_diff [OF r(1), of "concat (take i ess)"] r(2) unfolding split by simp
  have key: "string_ok (fst (es ! i))" using ok i by (simp add: entries_ok_def)
  have lt: "\<forall>e \<in> set (take i es). fst e < fst (es ! i)"
    using ok i by (intro sorted_wrt_take_last) (simp_all add: entries_ok_def)
  have prev: "previous_key i es = Some k \<Longrightarrow> k < fst (es ! i)" for k
    using ok i by (auto simp: previous_key_def entries_ok_def sorted_wrt_iff_nth_less split: if_splits)
  have rd': "rd (advance (length (blob_bytes (fst (es ! i)))) ?r)
      = Inr (snd (es ! i), advance (length b) (advance (length (blob_bytes (fst (es ! i)))) ?r))"
    using rd unread_advance [OF u] r(1) by simp
  have ins: "btree_insert (fst (es ! i)) (snd (es ! i)) (take i es) = take (Suc i) es"
    using btree_insert_last [OF lt, of "snd (es ! i)"] i by (simp add: take_Suc_conv_app_nth)
  have len: "length (concat (take (Suc i) ess)) = length (concat (take i ess)) + length (blob_bytes (fst (es ! i))) + length b"
    using i l e by (simp add: take_Suc_conv_app_nth)
  show ?thesis
    using stringc.dec_enc [OF key u] rd' off tab prev ins len
    by (auto simp: read_entry_def Let_def previous_key_def add.assoc split: option.splits)
qed

lemma read_entries_enc:
  assumes "entries_ok es" and "length bss = length es"
    and "\<And>i r rest. i < length es \<Longrightarrow> nosat r \<Longrightarrow> unread r (bss ! i @ rest)
        \<Longrightarrow> rd r = Inr (snd (es ! i), advance (length (bss ! i)) r)"
    and "\<And>i. indexed \<Longrightarrow> i < length es
        \<Longrightarrow> table_offset table i = Some (length (concat (take i (entry_bytes es bss))))"
    and "nosat r" and "unread r (concat (entry_bytes es bss) @ rest)"
  shows "try_fold (\<lambda>index s. read_entry rd indexed table ta (offset r) index s) [0..<length es] (r, None, [])
     = Inr (advance (length (concat (entry_bytes es bss))) r, previous_key (length es) es, es)"
proof -
  let ?ess = "entry_bytes es bss"
  let ?st = "\<lambda>i. (advance (length (concat (take i ?ess))) r, previous_key i es, take i es)"
  have step: "read_entry rd indexed table ta (offset r) i (?st i) = Inr (?st (Suc i))" if "i < length es" for i
    using assms that
    by (intro read_entry_enc [where b = "bss ! i" and rest = rest]) (auto simp: entry_bytes_def)
  have "try_fold (\<lambda>index s. read_entry rd indexed table ta (offset r) index s) [0..<n] (?st 0) = Inr (?st n)"
    if "n \<le> length es" for n
    using that by (induction n) (auto simp: try_fold_append step)
  from this [of "length es"] show ?thesis using assms(2) by (simp add: previous_key_def)
qed

lemma list_all2_mapI:
  "list_all2 P (map snd es) bss \<Longrightarrow> length bss = length es \<and> (\<forall>i < length es. P (snd (es ! i)) (bss ! i))"
  by (auto simp: list_all2_conv_all_nth)

lemma read_array_enc:
  assumes hyps: "d \<le> MAX_VALUE_DEPTH" "length vs < 2 ^ 64"
    and IH: "list_all2 (\<lambda>v b. val_rep (Suc d) v b \<and>
      (\<forall>r. nosat r \<longrightarrow> (\<forall>rest. unread r (b @ rest) \<longrightarrow> read_at_depth (Suc d) r = Inr (v, advance (length b) r)))) vs bss"
    and prems: "nosat r" "unread r ((TAG_ARRAY # varint_bytes (u64_of (length vs)) @ concat bss) @ rest)"
  shows "read_at_depth d r
     = Inr (Array vs, advance (length (TAG_ARRAY # varint_bytes (u64_of (length vs)) @ concat bss)) r)"
proof -
  let ?n = "u64_of (length vs)"
  have u: "unread r (TAG_ARRAY # varint_bytes ?n @ concat bss @ rest)" using prems by simp
  have u1: "unread (advance 1 r) (varint_bytes ?n @ concat bss @ rest)"
    using unread_advance [of r "[TAG_ARRAY]"] u by simp
  note u2 = unread_advance [OF u1]
  have c: "bounded_count ?n (remaining (advance (length (varint_bytes ?n)) (advance 1 r))) at = Inr (length vs)" for "at"
    using array_bytes_ge [of "Suc d" vs bss] list_all2_mono [OF IH]
      unread_short [OF _ u2] prems(1) unread_remaining [OF u2]
    by (intro bounded_count_enc) (auto elim!: list_all2_mono)
  have t: "read_times (length vs) (read_at_depth (Suc d)) (advance (length (varint_bytes ?n)) (advance 1 r))
      = Inr (vs, advance (length (concat bss)) (advance (length (varint_bytes ?n)) (advance 1 r)))"
    using IH prems(1) u2
    by (intro read_times_rep [where rest = rest]) (auto elim!: list_all2_mono)
  show ?thesis
    using hyps(1) u8c.dec_enc [of r TAG_ARRAY] u varintc.dec_enc [OF _ u1] c t
    by (subst read_at_depth.simps) (simp add: Let_def tag_defs add.assoc)
qed

lemma read_plain_map_enc:
  assumes hyps: "d \<le> MAX_VALUE_DEPTH" "entries_ok es"
    and IH: "list_all2 (\<lambda>v b. val_rep (Suc d) v b \<and>
      (\<forall>r. nosat r \<longrightarrow> (\<forall>rest. unread r (b @ rest) \<longrightarrow> read_at_depth (Suc d) r = Inr (v, advance (length b) r)))) (map snd es) bss"
    and prems: "nosat r"
      "unread r ((TAG_MAP # varint_bytes (u64_of (length es)) @ concat (entry_bytes es bss)) @ rest)"
  shows "read_at_depth d r = Inr (Map es,
     advance (length (TAG_MAP # varint_bytes (u64_of (length es)) @ concat (entry_bytes es bss))) r)"
proof -
  let ?n = "u64_of (length es)" and ?ess = "entry_bytes es bss"
  have u: "unread r (TAG_MAP # varint_bytes ?n @ concat ?ess @ rest)" using prems by simp
  have u1: "unread (advance 1 r) (varint_bytes ?n @ concat ?ess @ rest)"
    using unread_advance [of r "[TAG_MAP]"] u by simp
  note u2 = unread_advance [OF u1]
  let ?r = "advance (length (varint_bytes ?n)) (advance 1 r)"
  have l: "list_all2 (val_rep (Suc d)) (map snd es) bss"
    using IH by (rule list_all2_mono) simp
  have c: "bounded_count ?n (remaining ?r div 2) at = Inr (length es)" for "at"
    using entry_bytes_ge [OF l] unread_short [OF _ u2] prems(1) unread_remaining [OF u2]
    by (intro bounded_count_enc) auto
  have b: "reader_bytes 0 ?r = Inr ([], ?r)"
    using u2 by (auto simp: reader_bytes_iff)
  have t: "try_fold (\<lambda>index s. read_entry (read_at_depth (Suc d)) False [] ta (offset ?r) index s)
      [0..<length es] (?r, None, [])
      = Inr (advance (length (concat ?ess)) ?r, previous_key (length es) es, es)" for ta
    using list_all2_mapI [OF IH] hyps prems(1) u2
    by (intro read_entries_enc [where rest = rest]) auto
  show ?thesis
    using hyps(1) u8c.dec_enc [of r TAG_MAP] u varintc.dec_enc [OF _ u1] c b t
    by (subst read_at_depth.simps) (simp add: Let_def tag_defs add.assoc)
qed

lemma read_indexed_map_enc:
  assumes hyps: "d \<le> MAX_VALUE_DEPTH" "entries_ok es" "INDEX_MIN_ENTRIES \<le> length es"
      "\<forall>off \<in> set (entry_offsets (entry_bytes es bss)). off < 2 ^ 16"
    and IH: "list_all2 (\<lambda>v b. val_rep (Suc d) v b \<and>
      (\<forall>r. nosat r \<longrightarrow> (\<forall>rest. unread r (b @ rest) \<longrightarrow> read_at_depth (Suc d) r = Inr (v, advance (length b) r)))) (map snd es) bss"
    and prems: "nosat r" "unread r ((TAG_MAP_INDEXED # varint_bytes (u64_of (length es))
        @ table_bytes (entry_offsets (entry_bytes es bss)) @ concat (entry_bytes es bss)) @ rest)"
  shows "read_at_depth d r = Inr (Map es, advance (length (TAG_MAP_INDEXED # varint_bytes (u64_of (length es))
        @ table_bytes (entry_offsets (entry_bytes es bss)) @ concat (entry_bytes es bss))) r)"
proof -
  let ?n = "u64_of (length es)" and ?ess = "entry_bytes es bss"
  let ?t = "table_bytes (entry_offsets ?ess)"
  have u: "unread r (TAG_MAP_INDEXED # varint_bytes ?n @ ?t @ concat ?ess @ rest)"
    using prems by simp
  have u1: "unread (advance 1 r) (varint_bytes ?n @ ?t @ concat ?ess @ rest)"
    using unread_advance [of r "[TAG_MAP_INDEXED]"] u by simp
  note u2 = unread_advance [OF u1] and u3 = unread_advance [OF unread_advance [OF u1]]
  let ?r = "advance (length (varint_bytes ?n)) (advance 1 r)"
  have l: "list_all2 (val_rep (Suc d)) (map snd es) bss"
    using IH by (rule list_all2_mono) simp
  have len: "length bss = length es" using l by (auto dest: list_all2_lengthD)
  have c: "bounded_count ?n (remaining ?r div 4) at = Inr (length es)" for "at"
    using entry_bytes_ge [OF l] unread_short [OF _ u2] prems(1) unread_remaining [OF u2] len
    by (intro bounded_count_enc) auto
  have b: "reader_bytes (length es * 2) ?r = Inr (?t, advance (length ?t) ?r)"
    using bytesc.dec_enc [OF _ u2] len by (simp add: mult.commute [of "length es"])
  have "table_offset ?t i = Some (length (concat (take i ?ess)))" if "i < length es" for i
  proof -
    have "entry_offsets ?ess ! i < 2 ^ 16" using hyps(4) that len by (intro bspec [OF hyps(4)] nth_mem) simp
    then show ?thesis using table_offset_nth [of i "entry_offsets ?ess"] that len
      by (simp add: entry_offsets_nth)
  qed
  note tab = this
  have rd: "read_at_depth (Suc d) s = Inr (snd (es ! i), advance (length (bss ! i)) s)"
    if "i < length es" "nosat s" "unread s (bss ! i @ rest')" for i s rest'
    using list_all2_mapI [OF IH] that by blast
  have t: "try_fold (\<lambda>index s. read_entry (read_at_depth (Suc d)) True ?t ta (offset (advance (length ?t) ?r)) index s)
      [0..<length es] (advance (length ?t) ?r, None, [])
      = Inr (advance (length (concat ?ess)) (advance (length ?t) ?r), previous_key (length es) es, es)" for ta
    using prems(1) u3 by (intro read_entries_enc [OF hyps(2) len rd tab]) simp_all
  show ?thesis
    using hyps u8c.dec_enc [of r TAG_MAP_INDEXED] u varintc.dec_enc [OF _ u1] c b t
    by (subst read_at_depth.simps) (simp add: Let_def tag_defs add.assoc INDEX_ENTRY_BYTES_def INDEX_MIN_ENTRIES_def)
qed

lemma read_at_depth_rep:
  assumes "val_rep d v bs" and "nosat r" and "unread r (bs @ rest)"
  shows "read_at_depth d r = Inr (v, advance (length bs) r)"
  using assms
proof (induction arbitrary: r rest rule: val_rep.induct)
  case (rep_Null d)
  then show ?case
    by (subst read_at_depth.simps, simp add: Let_def) (rule codec_steps, assumption, simp, simp)
next
  case (rep_Bool d b)
  then show ?case
    by (subst read_at_depth.simps, simp add: Let_def) (rule codec_steps, assumption, simp, simp add: tag_defs)
next
  case (rep_I64 d i)
  then show ?case
    by (subst read_at_depth.simps, simp add: Let_def)
       (rule codec_steps, assumption, simp, simp add: tag_defs, rule codec_steps, assumption, simp, simp)
next
  case (rep_F64 d x)
  then show ?case
    by (subst read_at_depth.simps, simp add: Let_def)
       (rule codec_steps, assumption, simp, simp add: tag_defs, rule codec_steps, assumption, simp, simp)
next
  case (rep_Str d s)
  then show ?case
    by (subst read_at_depth.simps, simp add: Let_def)
       (rule codec_steps, assumption, simp, simp add: tag_defs, rule codec_steps, assumption, simp, simp)
next
  case (rep_Bytes d b)
  then show ?case
    by (subst read_at_depth.simps, simp add: Let_def)
       (rule codec_steps, assumption, simp, simp add: tag_defs, rule codec_steps, assumption, simp, simp)
next
  case (rep_Array d vs bss)
  show ?case by (rule read_array_enc [OF rep_Array.hyps(1) _ rep_Array.IH rep_Array.prems]) (rule rep_Array.hyps)
next
  case (rep_Map d es bss)
  show ?case by (rule read_plain_map_enc [OF rep_Map.hyps(1) _ rep_Map.IH rep_Map.prems]) (rule rep_Map.hyps)
next
  case (rep_Map_indexed d es bss)
  show ?case
    by (rule read_indexed_map_enc [OF rep_Map_indexed.hyps(1) _ _ _ rep_Map_indexed.IH rep_Map_indexed.prems])
       (rule rep_Map_indexed.hyps)+
qed

subsection \<open>The decoder accepts nothing else\<close>

definition reads_only :: "('a \<Rightarrow> bytes \<Rightarrow> bool) \<Rightarrow> 'a decoder \<Rightarrow> bool" where
  "reads_only P dec \<longleftrightarrow> (\<forall>s v s' ys. nosat s \<longrightarrow> dec s = Inr (v, s') \<longrightarrow> unread s ys
      \<longrightarrow> (\<exists>b rest. ys = b @ rest \<and> P v b \<and> s' = advance (length b) s))"

lemma reads_onlyD:
  "reads_only P dec \<Longrightarrow> nosat s \<Longrightarrow> dec s = Inr (v, s') \<Longrightarrow> unread s ys
      \<Longrightarrow> \<exists>b rest. ys = b @ rest \<and> P v b \<and> s' = advance (length b) s"
  unfolding reads_only_def by blast

lemma read_times_rep_sound:
  assumes "reads_only P dec"
    and "read_times n dec r = Inr (vs, r')" and "nosat r" and "unread r ys"
  shows "\<exists>bss rest. list_all2 P vs bss \<and> length vs = n \<and> ys = concat bss @ rest
      \<and> r' = advance (length (concat bss)) r"
  using assms(2-)
proof (induction n arbitrary: r vs ys)
  case 0
  then show ?case by simp
next
  case (Suc n)
  from Suc.prems(1) obtain v r1 vs' where d: "dec r = Inr (v, r1)"
    and t: "read_times n dec r1 = Inr (vs', r')" and vs: "vs = v # vs'"
    by (auto elim!: rbind_InrE)
  from reads_onlyD [OF assms(1) Suc.prems(2) d Suc.prems(3)] obtain b rest where
    b: "ys = b @ rest" "P v b" "r1 = advance (length b) r" by blast
  have "unread r1 rest" using unread_advance [of r b rest] Suc.prems(3) b by simp
  from Suc.IH [OF t _ this] b(3) Suc.prems(2) obtain bss rest' where
    "list_all2 P vs' bss" "length vs' = n" "rest = concat bss @ rest'"
    "r' = advance (length (concat bss)) r1" by auto
  with b vs show ?case
    by (intro exI [of _ "b # bss"] exI [of _ rest']) simp
qed

lemma table_offset_Some:
  "table_offset table i = Some off \<Longrightarrow>
     off < 2 ^ 16 \<and> slice table (2 * i) (2 * i + 2) = Some (to_le 2 (of_nat off :: u16))"
proof -
  assume "table_offset table i = Some off"
  then obtain bs where bs: "slice table (2 * i) (2 * i + 2) = Some bs" "off = unat (from_le bs :: u16)"
    by (auto simp: table_offset_def INDEX_ENTRY_BYTES_def Let_def mult.commute)
  have "length bs = 2" using slice_Some_length [OF bs(1)] by simp
  then show ?thesis using bs unsigned_less [of "from_le bs :: u16"] by (simp add: to_le_from_le)
qed

lemma table_bytes_unique:
  assumes "length table = 2 * length offs"
    and "\<And>i. i < length offs \<Longrightarrow> table_offset table i = Some (offs ! i)"
  shows "table = table_bytes offs"
  using assms
proof (induction offs arbitrary: table)
  case Nil
  then show ?case by (simp add: table_bytes_def)
next
  case (Cons off offs)
  let ?t = "drop 2 table"
  from table_offset_Some [of table 0 off] Cons.prems(2) [of 0]
  have "take 2 table = to_le 2 (of_nat off :: u16)"
    by (simp add: slice_def numeral_2_eq_2 split: if_splits)
  moreover have "?t = table_bytes offs"
  proof (rule Cons.IH)
    show "length ?t = 2 * length offs" using Cons.prems(1) by simp
    show "table_offset ?t i = Some (offs ! i)" if "i < length offs" for i
      using Cons.prems(2) [of "Suc i"] Cons.prems(1) that
      by (simp add: table_offset_def slice_def INDEX_ENTRY_BYTES_def Let_def split: if_splits)
  qed
  ultimately show ?case
    by (metis append_take_drop_id concat.simps(2) list.simps(9) table_bytes_def)
qed

lemma entry_bytes_snoc:
  "length es = length bss \<Longrightarrow>
   entry_bytes (es @ [e]) (bss @ [b]) = entry_bytes es bss @ [blob_bytes (fst e) @ b]"
  by (simp add: entry_bytes_def)

lemma sorted_le_last:
  fixes es :: "('k::linorder \<times> 'v) list"
  assumes "sorted_wrt (<) (map fst es)" and "e \<in> set es"
  shows "fst e \<le> fst (es ! (length es - 1))"
proof -
  from assms(2) obtain i where i: "i < length es" "e = es ! i" by (auto simp: in_set_conv_nth)
  show ?thesis
  proof (cases "i = length es - 1")
    case False
    with i have "i < length es - 1" "length es - 1 < length es" by auto
    with assms(1) have "fst (es ! i) < fst (es ! (length es - 1))"
      by (simp add: sorted_wrt_iff_nth_less)
    with i show ?thesis by simp
  qed (use i in simp)
qed

text \<open>The state of the entry loop after some entries were read from \<open>ys\<close>.\<close>

definition entries_read :: "(val \<Rightarrow> bytes \<Rightarrow> bool) \<Rightarrow> bool \<Rightarrow> bytes \<Rightarrow> reader \<Rightarrow> bytes \<Rightarrow> nat
    \<Rightarrow> reader \<times> rust_string option \<times> (rust_string \<times> val) list \<Rightarrow> bytes list \<Rightarrow> bytes \<Rightarrow> bool" where
  "entries_read P indexed table r0 ys n = (\<lambda>(r, previous, es) bss rest.
     length es = n \<and> list_all2 P (map snd es) bss \<and> (\<forall>e \<in> set es. string_ok (fst e))
     \<and> sorted_wrt (<) (map fst es) \<and> previous = previous_key n es
     \<and> ys = concat (entry_bytes es bss) @ rest
     \<and> r = advance (length (concat (entry_bytes es bss))) r0
     \<and> (indexed \<longrightarrow> (\<forall>i < n. table_offset table i = Some (length (concat (take i (entry_bytes es bss)))))))"

lemma read_entry_sound:
  assumes rd: "reads_only P rd"
    and r: "nosat r0" "unread r0 ys"
    and st: "entries_read P indexed table r0 ys n (r, previous, es) bss rest"
    and step: "read_entry rd indexed table ta (offset r0) n (r, previous, es) = Inr st'"
  shows "\<exists>bss rest. entries_read P indexed table r0 ys (Suc n) st' bss rest"
proof -
  let ?ess = "entry_bytes es bss"
  from st have l: "length es = n" "length bss = n" and ys: "ys = concat ?ess @ rest"
    and r_eq: "r = advance (length (concat ?ess)) r0"
    by (auto simp: entries_read_def dest: list_all2_lengthD)
  have ur: "unread r rest" using r(2) unread_advance [of r0 "concat ?ess" rest] ys r_eq by simp
  from step obtain key r1 v r2 where k: "reader_string r = Inr (key, r1)"
    and v: "rd r1 = Inr (v, r2)" and st': "st' = (r2, Some key, btree_insert key v es)"
    and tab: "indexed \<Longrightarrow> \<exists>off. table_offset table n = Some off \<and> u64_of off = offset r - offset r0"
    and gt: "previous = None \<or> (\<exists>p. previous = Some p \<and> key > p)"
    by (auto simp: read_entry_def Let_def ok_or_def elim!: rbind_InrE split: if_splits option.splits)
  from stringc.dec_unread [OF k ur] obtain rest1 where
    k': "string_ok key" "rest = blob_bytes key @ rest1" "r1 = advance (length (blob_bytes key)) r"
      "unread r1 rest1" by blast
  have ns: "nosat r1" using r(1) k'(3) r_eq by simp
  from reads_onlyD [OF rd ns v k'(4)] obtain b rest2 where
    b: "rest1 = b @ rest2" "P v b" "r2 = advance (length b) r1" by blast
  have lt: "\<forall>e \<in> set es. fst e < key"
  proof (cases "n = 0")
    case True
    then show ?thesis using l by simp
  next
    case False
    have srt: "sorted_wrt (<) (map fst es)" and "previous = Some (fst (es ! (n - 1)))"
      using st False by (auto simp: entries_read_def previous_key_def)
    with gt have "fst (es ! (n - 1)) < key" by auto
    moreover have "fst e \<le> fst (es ! (n - 1))" if "e \<in> set es" for e
      using sorted_le_last [OF srt that] l by simp
    ultimately show ?thesis by (meson order_le_less_trans)
  qed
  have off: "offset r - offset r0 = u64_of (length (concat ?ess))"
    using offset_advance_diff [OF r(1), of "concat ?ess" rest] r(2) ys r_eq by simp
  have small: "length (concat ?ess) < 2 ^ 64" using unread_short [OF r] ys by simp
  have tabn: "indexed \<Longrightarrow> table_offset table n = Some (length (concat ?ess))"
  proof -
    assume indexed
    with tab obtain off' where o: "table_offset table n = Some off'" "u64_of off' = u64_of (length (concat ?ess))"
      using off by auto
    have "off' < 2 ^ 64" using table_offset_Some [OF o(1)] by simp
    with arg_cong [OF o(2), of unat] small have "off' = length (concat ?ess)" by simp
    with o show ?thesis by simp
  qed
  have "take i (entry_bytes (es @ [(key, v)]) (bss @ [b])) = take i ?ess" if "i \<le> n" for i
    using l that by (simp add: entry_bytes_snoc)
  moreover have "btree_insert key v es = es @ [(key, v)]" using lt by (rule btree_insert_last)
  ultimately have "entries_read P indexed table r0 ys (Suc n) st' (bss @ [b]) rest2"
    using st st' b k' ys r_eq l lt tabn
    by (auto simp: entries_read_def entry_bytes_snoc sorted_wrt_append previous_key_def nth_append
        less_Suc_eq list_all2_appendI ac_simps)
  then show ?thesis by blast
qed

lemma read_entries_sound:
  assumes rd: "reads_only P rd"
    and r: "nosat r0" "unread r0 ys"
    and loop: "try_fold (\<lambda>index s. read_entry rd indexed table ta (offset r0) index s) [0..<n] (r0, None, []) = Inr st"
  shows "\<exists>bss rest. entries_read P indexed table r0 ys n st bss rest"
  using loop
proof (induction n arbitrary: st)
  case 0
  then show ?case by (auto simp: entries_read_def previous_key_def entry_bytes_def)
next
  case (Suc n)
  then obtain st1 where s1: "try_fold (\<lambda>index s. read_entry rd indexed table ta (offset r0) index s) [0..<n] (r0, None, []) = Inr st1"
    and s2: "read_entry rd indexed table ta (offset r0) n st1 = Inr st"
    by (auto simp: try_fold_append elim!: rbind_InrE)
  obtain r p es where st1: "st1 = (r, p, es)" by (cases st1) auto
  from Suc.IH [OF s1] obtain bss rest where "entries_read P indexed table r0 ys n (r, p, es) bss rest"
    unfolding st1 by blast
  from read_entry_sound [OF rd r this s2 [unfolded st1]] show ?case .
qed

text \<open>What a map's entries amount to once the loop has run.\<close>

lemma entries_read_ok:
  "entries_read P ix table r0 ys n (r, p, es) bss rest \<Longrightarrow> n < 2 ^ 64 \<Longrightarrow> entries_ok es"
  by (simp add: entries_read_def entries_ok_def)

lemma entries_read_table:
  assumes "entries_read P True table r0 ys n (r, p, es) bss rest" and "length table = 2 * n"
  shows "table = table_bytes (entry_offsets (entry_bytes es bss))"
    and "\<forall>off \<in> set (entry_offsets (entry_bytes es bss)). off < 2 ^ 16"
proof -
  let ?offs = "entry_offsets (entry_bytes es bss)"
  have l: "length ?offs = n" using assms(1) by (auto simp: entries_read_def dest: list_all2_lengthD)
  have t: "table_offset table i = Some (?offs ! i)" if "i < length ?offs" for i
    using assms(1) that l by (auto simp: entries_read_def entry_offsets_nth)
  show "table = table_bytes ?offs" using assms(2) l t by (intro table_bytes_unique) auto
  show "\<forall>off \<in> set ?offs. off < 2 ^ 16" using t table_offset_Some by (metis in_set_conv_nth)
qed

lemma read_scalar_sound:
  assumes "read_at_depth d r = Inr (v, r')" and "d \<le> MAX_VALUE_DEPTH"
    and "reader_u8 r = Inr (t, r1)" and "unread r1 xs"
    and "t \<noteq> TAG_ARRAY" "t \<noteq> TAG_MAP" "t \<noteq> TAG_MAP_INDEXED"
  shows "\<exists>b rest. xs = b @ rest \<and> val_rep d v (t # b) \<and> r' = advance (length b) r1"
proof -
  have tag_only: "\<exists>b. (\<exists>rest. ys = b @ rest) \<and> val_rep d w (u # b) \<and> s = advance (length b) s"
    if "val_rep d w [u]" for ys w u s
    using that by (intro exI [of _ "[]"]) simp
  note bools = rep_Bool [of d False, simplified] rep_Bool [of d True, simplified]
  show ?thesis
    using assms
    by (subst (asm) read_at_depth.simps, simp add: Let_def split: if_splits)
       (((clarsimp simp: tag_only rep_Null bools; fail) | erule (1) codec_elims, auto intro: val_rep.intros)+)
qed

lemma read_array_sound:
  assumes "read_at_depth d r = Inr (v, r')" and d: "d \<le> MAX_VALUE_DEPTH"
    and "reader_u8 r = Inr (TAG_ARRAY, r1)" and u: "unread r1 xs" and ns: "nosat r1"
    and IH: "reads_only (val_rep (Suc d)) (read_at_depth (Suc d))"
  shows "\<exists>b rest. xs = b @ rest \<and> val_rep d v (TAG_ARRAY # b) \<and> r' = advance (length b) r1"
proof -
  from assms(1,3) d obtain c r2 n vs where c: "reader_varint r1 = Inr (c, r2)"
    and n: "bounded_count c (remaining r2) (offset r1) = Inr n"
    and vs: "read_times n (read_at_depth (Suc d)) r2 = Inr (vs, r')" and v: "v = Array vs"
    by (subst (asm) read_at_depth.simps) (auto simp: Let_def tag_defs elim!: rbind_InrE)
  from varintc.dec_unread [OF c u] obtain xs2 where
    x2: "xs = varint_bytes c @ xs2" "r2 = advance (length (varint_bytes c)) r1" "unread r2 xs2" by blast
  have "nosat r2" using ns x2(2) by simp
  from read_times_rep_sound [OF IH vs this x2(3)] obtain bss rest where
    b: "list_all2 (val_rep (Suc d)) vs bss" "length vs = n" "xs2 = concat bss @ rest"
      "r' = advance (length (concat bss)) r2" by blast
  have n': "n = unat c" using n by (rule bounded_count_sound)
  have "val_rep d v (TAG_ARRAY # varint_bytes c @ concat bss)"
    using rep_Array [OF d b(1)] b(2) n' v unat_lt_64 [of c] by simp
  then show ?thesis using x2 b
    by (intro exI [of _ "varint_bytes c @ concat bss"] exI [of _ rest]) (simp add: ac_simps)
qed

lemma read_map_sound:
  assumes "read_at_depth d r = Inr (v, r')" and d: "d \<le> MAX_VALUE_DEPTH"
    and "reader_u8 r = Inr (t, r1)" and u: "unread r1 xs" and ns: "nosat r1"
    and t: "t = TAG_MAP \<or> t = TAG_MAP_INDEXED"
    and IH: "reads_only (val_rep (Suc d)) (read_at_depth (Suc d))"
  shows "\<exists>b rest. xs = b @ rest \<and> val_rep d v (t # b) \<and> r' = advance (length b) r1"
proof -
  let ?ix = "t = TAG_MAP_INDEXED"
  from assms(1,3) d t obtain c r2 n table r3 p es where c: "reader_varint r1 = Inr (c, r2)"
    and n: "bounded_count c (remaining r2 div (if ?ix then 4 else 2)) (offset r1) = Inr n"
    and min: "?ix \<Longrightarrow> INDEX_MIN_ENTRIES \<le> n"
    and tab: "reader_bytes (if ?ix then n * 2 else 0) r2 = Inr (table, r3)"
    and loop: "try_fold (\<lambda>index s. read_entry (read_at_depth (Suc d)) ?ix table (offset r2) (offset r3) index s)
        [0..<n] (r3, None, []) = Inr (r', p, es)" and v: "v = Map es"
    by (subst (asm) read_at_depth.simps)
       (auto simp: Let_def tag_defs INDEX_ENTRY_BYTES_def not_less elim!: rbind_InrE split: if_splits)
  from varintc.dec_unread [OF c u] obtain xs2 where
    x2: "xs = varint_bytes c @ xs2" "r2 = advance (length (varint_bytes c)) r1" "unread r2 xs2" by blast
  from bytesc.dec_unread [OF tab x2(3)] obtain xs3 where
    x3: "xs2 = table @ xs3" "r3 = advance (length table) r2" "unread r3 xs3"
      "length table = (if ?ix then n * 2 else 0)" by blast
  have "nosat r3" using ns x2(2) x3(2) by simp
  from read_entries_sound [OF IH this x3(3) loop] obtain bss rest where
    e: "entries_read (val_rep (Suc d)) ?ix table r3 xs3 n (r', p, es) bss rest" by blast
  have n': "n = unat c" using n by (rule bounded_count_sound)
  have es: "length es = n" "list_all2 (val_rep (Suc d)) (map snd es) bss"
    "xs3 = concat (entry_bytes es bss) @ rest" "r' = advance (length (concat (entry_bytes es bss))) r3"
    using e by (auto simp: entries_read_def)
  have ok: "entries_ok es" using entries_read_ok [OF e] n' unat_lt_64 [of c] by simp
  have "val_rep d v (t # varint_bytes c @ table @ concat (entry_bytes es bss))"
  proof (cases ?ix)
    case True
    with entries_read_table [of "val_rep (Suc d)" table r3 xs3 n r' p es bss rest] e x3(4) min
      rep_Map_indexed [OF d es(2) ok] es(1) n' v show ?thesis by simp
  next
    case False
    with rep_Map [OF d es(2) ok] t es(1) n' v x3(4) show ?thesis by auto
  qed
  then show ?thesis using x2 x3 es
    by (intro exI [of _ "varint_bytes c @ table @ concat (entry_bytes es bss)"] exI [of _ rest])
       (simp add: ac_simps)
qed

lemma read_at_depth_sound:
  assumes "read_at_depth d r = Inr (v, r')" and "nosat r" and "unread r xs"
  shows "\<exists>bs rest. xs = bs @ rest \<and> val_rep d v bs \<and> r' = advance (length bs) r"
  using assms
proof (induction "MAX_VALUE_DEPTH + 1 - d" arbitrary: d r v r' xs rule: less_induct)
  case less
  have d: "d \<le> MAX_VALUE_DEPTH"
    using less.prems(1) by (subst (asm) read_at_depth.simps) (auto split: if_splits)
  from d have IH: "reads_only (val_rep (Suc d)) (read_at_depth (Suc d))"
    using less.hyps [of "Suc d"] by (auto simp: reads_only_def)
  from less.prems(1) d obtain t r1 where t: "reader_u8 r = Inr (t, r1)"
    by (subst (asm) read_at_depth.simps) (auto simp: Let_def elim!: rbind_InrE)
  from u8c.dec_unread [OF t less.prems(3)] obtain xs1 where
    xs: "xs = t # xs1" and r1: "r1 = advance 1 r" and u1: "unread r1 xs1" by auto
  have ns: "nosat r1" using less.prems(2) r1 by simp
  have "\<exists>b rest. xs1 = b @ rest \<and> val_rep d v (t # b) \<and> r' = advance (length b) r1"
    using read_scalar_sound [OF less.prems(1) d t u1] read_map_sound [OF less.prems(1) d t u1 ns _ IH]
      read_array_sound [OF less.prems(1) d _ u1 ns IH] t by blast
  then show ?case using xs r1 by (metis advance_advance append_Cons length_Cons plus_1_eq_Suc)
qed

subsection \<open>The encoder produces valid encodings\<close>

fun val_wf :: "val \<Rightarrow> bool" where
  "val_wf (Str s) = string_ok s"
| "val_wf (Bytes b) = blob_ok b"
| "val_wf (Array vs) = (length vs < 2 ^ 64 \<and> (\<forall>v \<in> set vs. val_wf v))"
| "val_wf (Map es) = (entries_ok es \<and> (\<forall>e \<in> set es. val_wf (snd e)))"
| "val_wf _ = True"

fun all_finite :: "val \<Rightarrow> bool" where
  "all_finite (F64 x) = f64_is_finite x"
| "all_finite (Array vs) = (\<forall>v \<in> set vs. all_finite v)"
| "all_finite (Map es) = (\<forall>e \<in> set es. all_finite (snd e))"
| "all_finite _ = True"

lemma max_or_zero_le: "max_or_zero ns \<le> m \<longleftrightarrow> (\<forall>n \<in> set ns. n \<le> m)"
proof -
  have "fold max ns a \<le> m \<longleftrightarrow> a \<le> m \<and> (\<forall>n \<in> set ns. n \<le> m)" for a
    by (induction ns arbitrary: a) auto
  then show ?thesis by (simp add: max_or_zero_def)
qed

lemma try_fold_appends:
  assumes "\<forall>x \<in> set xs. \<forall>w w'. f x w = Inr w' \<longrightarrow> (\<exists>b. w' = w @ b \<and> P x b)"
    and "try_fold f xs w = Inr w'"
  shows "\<exists>bss. list_all2 P xs bss \<and> w' = w @ concat bss"
  using assms
proof (induction xs arbitrary: w)
  case Nil
  then show ?case by simp
next
  case (Cons x xs)
  then obtain w1 where w1: "f x w = Inr w1" "try_fold f xs w1 = Inr w'" by (auto elim!: rbind_InrE)
  from Cons.prems(1) w1(1) obtain b where b: "w1 = w @ b" "P x b" by auto
  from Cons.IH [OF _ w1(2)] Cons.prems(1) obtain bss where "list_all2 P xs bss" "w' = w1 @ concat bss" by auto
  with b show ?case by (intro exI [of _ "b # bss"]) simp
qed

lemma try_fold_is_ok:
  "\<forall>x \<in> set xs. \<forall>s. is_ok (f x s) \<Longrightarrow> is_ok (try_fold f xs s)"
proof (induction xs arbitrary: s)
  case Nil
  then show ?case by simp
next
  case (Cons x xs)
  then have "is_ok (f x s)" by simp
  then obtain s' where "f x s = Inr s'" by (rule is_okE)
  with Cons show ?case by simp
qed

lemma entry_offsets_snoc: "entry_offsets (ess @ [e]) = entry_offsets ess @ [length (concat ess)]"
  by (simp add: entry_offsets_def)

text \<open>The scratch pass of an indexed map.\<close>

lemma scratch_pass:
  assumes "\<And>e w w'. e \<in> set es \<Longrightarrow> f (snd e) w = Inr w' \<Longrightarrow> \<exists>b. w' = w @ b \<and> P (snd e) b"
    and "try_fold (\<lambda>(key, value) (scratch, offsets).
          rbind (f value (writer_string scratch key)) (\<lambda>scratch'. Inr (scratch', offsets @ [length scratch])))
          es ([], []) = Inr (scratch, offsets)"
  shows "\<exists>bss. list_all2 P (map snd es) bss \<and> scratch = concat (entry_bytes es bss)
      \<and> offsets = entry_offsets (entry_bytes es bss)"
  using assms
proof (induction es arbitrary: scratch offsets rule: rev_induct)
  case Nil
  then show ?case by (simp add: entry_bytes_def entry_offsets_def)
next
  case (snoc e es)
  obtain k v where e: "e = (k, v)" by (cases e) auto
  from snoc.prems(2) e obtain s o' where
    t: "try_fold (\<lambda>(key, value) (scratch, offsets).
          rbind (f value (writer_string scratch key)) (\<lambda>scratch'. Inr (scratch', offsets @ [length scratch])))
          es ([], []) = Inr (s, o')"
    and st: "f v (writer_string s k) = Inr scratch" and o: "offsets = o' @ [length s]"
    by (auto simp: try_fold_append elim!: rbind_InrE)
  from snoc.IH [OF _ t] snoc.prems(1) obtain bss where
    bss: "list_all2 P (map snd es) bss" "s = concat (entry_bytes es bss)" "o' = entry_offsets (entry_bytes es bss)"
    by auto
  from snoc.prems(1) [of e "writer_string s k" scratch] st e obtain b where
    b: "scratch = writer_string s k @ b" "P v b" by auto
  have l: "length es = length bss" using bss(1) by (auto dest: list_all2_lengthD)
  with bss b o e show ?case
    by (intro exI [of _ "bss @ [b]"])
       (simp add: entry_bytes_snoc entry_offsets_snoc codec_simps list_all2_appendI)
qed

lemma foldl_table: "foldl (\<lambda>w off. writer_u16 w (of_nat off)) w offs = w @ table_bytes offs"
  by (induction offs arbitrary: w) (auto simp: table_bytes_def codec_simps)

lemma entry_offsets_mono:
  assumes "off \<in> set (entry_offsets ess)"
  shows "off \<le> last (entry_offsets ess)"
proof -
  from assms obtain i where i: "i < length ess" "off = length (concat (take i ess))"
    by (auto simp: entry_offsets_def)
  then have "last (entry_offsets ess) = length (concat (take (length ess - 1) ess))"
    by (subst last_conv_nth) (auto simp: entry_offsets_nth simp flip: length_0_conv)
  moreover have "take (length ess - 1) ess = take i ess @ take (length ess - 1 - i) (drop i ess)"
    using i by (simp flip: take_add)
  ultimately show ?thesis using i by simp
qed

lemma list_all2_zip_snd:
  "list_all2 (\<lambda>e b. \<exists>c. b = blob_bytes (fst e) @ c \<and> P (snd e) c) es bss
   \<Longrightarrow> \<exists>css. list_all2 P (map snd es) css \<and> bss = entry_bytes es css"
proof (induction es bss rule: list_all2_induct)
  case Nil
  then show ?case by (simp add: entry_bytes_def)
next
  case (Cons e es b bss)
  then obtain c css where "b = blob_bytes (fst e) @ c" "P (snd e) c" "list_all2 P (map snd es) css"
    "bss = entry_bytes es css" by blast
  then show ?case by (intro exI [of _ "c # css"]) (simp add: entry_bytes_def)
qed

lemma write_scalar_rep:
  assumes "write_at_depth v w d = Inr w'" and "val_wf v" and "\<forall>vs. v \<noteq> Array vs" and "\<forall>es. v \<noteq> Map es"
  shows "\<exists>bs. w' = w @ bs \<and> val_rep d v bs"
  using assms
  by (subst (asm) write_at_depth.simps, cases v)
     (simp_all add: codec_simps rep_Null rep_Bool rep_I64 rep_F64 rep_Str rep_Bytes not_less split: if_splits,
      auto simp: rep_Null rep_I64 rep_F64 rep_Str rep_Bytes intro: rep_Bool [of d True, simplified] rep_Bool [of d False, simplified])

lemma write_map_rep:
  assumes "write_at_depth (Map es) w d = Inr w'" and ok: "entries_ok es"
    and IH: "\<And>e w w'. e \<in> set es \<Longrightarrow> write_at_depth (snd e) w (Suc d) = Inr w'
      \<Longrightarrow> \<exists>bs. w' = w @ bs \<and> val_rep (Suc d) (snd e) bs"
  shows "\<exists>bs. w' = w @ bs \<and> val_rep d (Map es) bs"
proof -
  from assms(1) have d: "d \<le> MAX_VALUE_DEPTH"
    by (subst (asm) write_at_depth.simps) (auto split: if_splits)
  let ?n = "varint_bytes (u64_of (length es))"
  show ?thesis
  proof (cases "length es < INDEX_MIN_ENTRIES")
    case True
    with assms(1) d have f: "try_fold (\<lambda>(key, value) w. write_at_depth value (writer_string w key) (Suc d)) es
        (w @ TAG_MAP # ?n) = Inr w'"
      by (subst (asm) write_at_depth.simps) (simp add: codec_simps)
    have "\<forall>e \<in> set es. \<forall>w w'. (case e of (key, value) \<Rightarrow> \<lambda>w. write_at_depth value (writer_string w key) (Suc d)) w = Inr w'
        \<longrightarrow> (\<exists>b. w' = w @ b \<and> (\<exists>c. b = blob_bytes (fst e) @ c \<and> val_rep (Suc d) (snd e) c))"
      using IH by (fastforce simp: codec_simps)
    from try_fold_appends [OF this f] obtain bss where
      "list_all2 (\<lambda>e b. \<exists>c. b = blob_bytes (fst e) @ c \<and> val_rep (Suc d) (snd e) c) es bss"
      "w' = (w @ TAG_MAP # ?n) @ concat bss" by blast
    with list_all2_zip_snd [of "val_rep (Suc d)" es bss] rep_Map [OF d _ ok] show ?thesis by auto
  next
    case False
    from assms(1) [unfolded write_at_depth.simps [of "Map es" w d]] d False obtain scratch offs where
      f: "try_fold (\<lambda>(key, value) (scratch, offsets).
            rbind (write_at_depth value (writer_string scratch key) (Suc d))
              (\<lambda>scratch'. Inr (scratch', offsets @ [length scratch]))) es ([], []) = Inr (scratch, offs)"
      and w': "w' = w @ (if offs \<noteq> [] \<and> last offs \<le> 65535 then TAG_MAP_INDEXED # ?n @ table_bytes offs
           else TAG_MAP # ?n) @ scratch"
      by (auto simp: codec_simps Let_def foldl_table [unfolded codec_simps] unsigned_minus_1_eq_mask mask_eq_exp_minus_1
           elim!: rbind_InrE split: if_splits)
    from scratch_pass [where P = "val_rep (Suc d)" and f = "\<lambda>v w. write_at_depth v w (Suc d)", OF _ f] IH
    obtain bss where b: "list_all2 (val_rep (Suc d)) (map snd es) bss"
      "scratch = concat (entry_bytes es bss)" "offs = entry_offsets (entry_bytes es bss)" by blast
    show ?thesis
    proof (cases "offs \<noteq> [] \<and> last offs \<le> 65535")
      case True
      then have "\<forall>off \<in> set (entry_offsets (entry_bytes es bss)). off < 2 ^ 16"
        using entry_offsets_mono b(3) by fastforce
      from rep_Map_indexed [OF d b(1) ok _ this] False True w' b show ?thesis by auto
    next
      case not_indexable: False
      from rep_Map [OF d b(1) ok] not_indexable w' b show ?thesis by auto
    qed
  qed
qed

lemma write_at_depth_rep:
  assumes "write_at_depth v w d = Inr w'" and "val_wf v"
  shows "\<exists>bs. w' = w @ bs \<and> val_rep d v bs"
  using assms
proof (induction v arbitrary: w w' d)
  case (Array vs)
  from Array.prems have d: "d \<le> MAX_VALUE_DEPTH"
    and f: "try_fold (\<lambda>item w. write_at_depth item w (Suc d)) vs
        (w @ TAG_ARRAY # varint_bytes (u64_of (length vs))) = Inr w'"
    by (subst (asm) write_at_depth.simps, auto simp: codec_simps split: if_splits)+
  from try_fold_appends [OF _ f, of "val_rep (Suc d)"] Array.IH Array.prems(2) obtain bss where
    "list_all2 (val_rep (Suc d)) vs bss" "w' = (w @ TAG_ARRAY # varint_bytes (u64_of (length vs))) @ concat bss"
    by fastforce
  with rep_Array [OF d, of vs bss] Array.prems(2) show ?case by auto
next
  case (Map es)
  show ?case
  proof (rule write_map_rep [OF Map.prems(1)])
    show "entries_ok es" using Map.prems(2) by simp
    show "\<exists>bs. w' = w @ bs \<and> val_rep (Suc d) (snd e) bs"
      if "e \<in> set es" "write_at_depth (snd e) w (Suc d) = Inr w'" for e w w'
      using Map.IH [of e "snd e"] that Map.prems(2) by (cases e) auto
  qed
qed (rule write_scalar_rep; simp)+

subsection \<open>Which values can be encoded\<close>

lemma add_max_or_zero_le: "d + max_or_zero ns \<le> m \<longleftrightarrow> d \<le> m \<and> (\<forall>n \<in> set ns. d + n \<le> m)"
  using max_or_zero_le [of ns "m - d"] by (auto simp: le_diff_conv2 add.commute)

lemma depth_container_le:
  "d + depth (Array vs) \<le> Suc m \<longleftrightarrow> d \<le> m \<and> (\<forall>v \<in> set vs. Suc d + depth v \<le> Suc m)"
  "d + depth (Map es) \<le> Suc m \<longleftrightarrow> d \<le> m \<and> (\<forall>e \<in> set es. Suc d + depth (snd e) \<le> Suc m)"
  by (auto simp: add_max_or_zero_le)

lemma list_all2_set1: "list_all2 (\<lambda>x y. P x y \<and> Q x) xs ys \<Longrightarrow> \<forall>x \<in> set xs. Q x"
  by (auto simp: list_all2_conv_all_nth in_set_conv_nth)

lemma val_rep_wf: "val_rep d v bs \<Longrightarrow> val_wf v \<and> all_finite v \<and> d + depth v \<le> Suc MAX_VALUE_DEPTH"
proof (induction rule: val_rep.induct)
  case (rep_Array d vs bss)
  then show ?case using list_all2_set1 [OF rep_Array.IH] by (simp add: depth_container_le del: depth.simps)
next
  case (rep_Map d es bss)
  then show ?case using list_all2_set1 [OF rep_Map.IH] by (simp add: depth_container_le del: depth.simps)
next
  case (rep_Map_indexed d es bss)
  then show ?case using list_all2_set1 [OF rep_Map_indexed.IH] by (simp add: depth_container_le del: depth.simps)
qed simp_all

lemma write_at_depth_ok:
  "d + depth v \<le> Suc MAX_VALUE_DEPTH \<Longrightarrow> all_finite v \<Longrightarrow> is_ok (write_at_depth v w d)"
proof (induction v arbitrary: w d)
  case (Array vs)
  then show ?case
    by (subst write_at_depth.simps) (auto simp: depth_container_le simp del: depth.simps intro!: try_fold_is_ok)
next
  case (Map es)
  have le: "\<forall>e \<in> set es. Suc d + depth (snd e) \<le> Suc MAX_VALUE_DEPTH"
    using Map.prems(1) unfolding depth_container_le by blast
  have sub: "is_ok (write_at_depth (snd e) w (Suc d))" if "e \<in> set es" for e w
  proof (rule Map.IH [OF that])
    show "snd e \<in> Basic_BNFs.snds e" by (cases e) simp
    show "Suc d + depth (snd e) \<le> Suc MAX_VALUE_DEPTH" using le that by blast
    show "all_finite (snd e)" using Map.prems(2) that by simp
  qed
  have 1: "is_ok (try_fold (\<lambda>(key, value) w. write_at_depth value (writer_string w key) (Suc d)) es w')" for w'
    using sub by (intro try_fold_is_ok) fastforce
  have 2: "is_ok (try_fold (\<lambda>(key, value) (scratch, offsets).
            rbind (write_at_depth value (writer_string scratch key) (Suc d))
              (\<lambda>scratch'. Inr (scratch', offsets @ [length scratch]))) es w')" for w'
  proof (intro try_fold_is_ok ballI allI)
    fix e and s :: "writer \<times> nat list"
    assume "e \<in> set es"
    with sub obtain w where "write_at_depth (snd e) (writer_string (fst s) (fst e)) (Suc d) = Inr w"
      by (meson is_okE)
    then show "is_ok ((case e of (key, value) \<Rightarrow> \<lambda>(scratch, offsets).
            rbind (write_at_depth value (writer_string scratch key) (Suc d))
              (\<lambda>scratch'. Inr (scratch', offsets @ [length scratch]))) s)"
      by (simp add: case_prod_unfold)
  qed
  have "d \<le> MAX_VALUE_DEPTH" using Map.prems by (simp add: depth_container_le del: depth.simps)
  then show ?case
    by (subst write_at_depth.simps) (auto simp: 1 Let_def intro!: is_ok_rbindI [OF 2])
qed (subst write_at_depth.simps, simp add: is_ok_iff)+

subsection \<open>Properties of the codec\<close>

lemma read_from_rep: "read_from r = Inr (v, r') \<Longrightarrow> nosat r \<Longrightarrow> unread r xs
   \<Longrightarrow> \<exists>bs rest. xs = bs @ rest \<and> val_rep 1 v bs \<and> r' = advance (length bs) r"
  unfolding read_from_def by (rule read_at_depth_sound)

lemma decode_iff: "length bs < 2 ^ 64 \<Longrightarrow> decode bs = Inr v \<longleftrightarrow> val_rep 1 v bs"
proof
  assume l: "length bs < 2 ^ 64"
  have ns: "nosat (reader_new bs)" and u: "unread (reader_new bs) bs" using l by simp_all
  show "val_rep 1 v bs" if "decode bs = Inr v"
  proof -
    from that obtain r where r: "read_from (reader_new bs) = Inr (v, r)" and e: "expect_end ''value'' r = Inr ()"
      by (auto simp: decode_def elim!: rbind_InrE)
    from read_from_rep [OF r ns u] obtain b rest where
      b: "bs = b @ rest" "val_rep 1 v b" "r = advance (length b) (reader_new bs)" by blast
    have "unread r rest" using unread_advance [of "reader_new bs" b rest] b by simp
    with e have "rest = []" by (simp add: expect_end_iff)
    with b show ?thesis by simp
  qed
  show "decode bs = Inr v" if "val_rep 1 v bs"
  proof -
    have "read_from (reader_new bs) = Inr (v, advance (length bs) (reader_new bs))"
      using read_at_depth_rep [OF that ns, of "[]"] by (simp add: read_from_def)
    moreover have "unread (advance (length bs) (reader_new bs)) []"
      using unread_advance [of "reader_new bs" bs "[]"] by simp
    ultimately show ?thesis by (simp add: decode_def expect_end_Nil)
  qed
qed

lemma encode_rep: "encode v = Inr bs \<Longrightarrow> val_wf v \<Longrightarrow> val_rep 1 v bs"
  using write_at_depth_rep [of v "[]" 1 bs] by (simp add: encode_def write_to_def codec_simps)

subsection \<open>Skipping steps over valid encodings\<close>

lemma val_rep_shallower: "val_rep d v bs \<Longrightarrow> d' \<le> d \<Longrightarrow> val_rep d' v bs"
proof (induction arbitrary: d' rule: val_rep.induct)
  case (rep_Array d vs bss)
  have "list_all2 (val_rep (Suc d')) vs bss"
    using rep_Array.IH by (rule list_all2_mono) (use rep_Array.prems in auto)
  with rep_Array show ?case by (intro val_rep.rep_Array) auto
next
  case (rep_Map d es bss)
  have "list_all2 (val_rep (Suc d')) (map snd es) bss"
    using rep_Map.IH by (rule list_all2_mono) (use rep_Map.prems in auto)
  with rep_Map show ?case by (intro val_rep.rep_Map) auto
next
  case (rep_Map_indexed d es bss)
  have "list_all2 (val_rep (Suc d')) (map snd es) bss"
    using rep_Map_indexed.IH by (rule list_all2_mono) (use rep_Map_indexed.prems in auto)
  with rep_Map_indexed show ?case by (intro val_rep.rep_Map_indexed) auto
next
  case (rep_Bool d b)
  then show ?case by (intro val_rep.rep_Bool) simp
qed (auto intro: val_rep.intros)

definition skips :: "unit decoder \<Rightarrow> bytes \<Rightarrow> bool" where
  "skips dec b \<longleftrightarrow> (\<forall>r rest. nosat r \<longrightarrow> unread r (b @ rest) \<longrightarrow> dec r = Inr ((), advance (length b) r))"

lemma skips_times:
  assumes "\<forall>b \<in> set bss. skips dec b" and "nosat r" and "unread r (concat bss @ rest)"
  shows "read_times (length bss) dec r = Inr (replicate (length bss) (), advance (length (concat bss)) r)"
  using read_times_rep [of dec "replicate (length bss) ()" bss r rest] assms
  by (auto simp: list_all2_conv_all_nth skips_def)

lemma skips_entries:
  assumes "length bss = length es" and "\<forall>e \<in> set es. blob_ok (fst e)"
    and "\<forall>b \<in> set bss. skips dec b"
  shows "\<forall>e \<in> set (entry_bytes es bss). skips (\<lambda>r. rbind (reader_blob r) (\<lambda>(_, r). dec r)) e"
proof
  fix e
  assume "e \<in> set (entry_bytes es bss)"
  then obtain k b where e: "e = blob_bytes k @ b" "blob_ok k" "b \<in> set bss"
    using assms(2) by (auto simp: entry_bytes_def dest: set_zip_leftD set_zip_rightD)
  have b: "nosat r \<Longrightarrow> unread r (b @ rest) \<Longrightarrow> dec r = Inr ((), advance (length b) r)" for r rest
    using assms(3) e(3) unfolding skips_def by blast
  show "skips (\<lambda>r. rbind (reader_blob r) (\<lambda>(_, r). dec r)) e"
    unfolding skips_def
  proof (intro allI impI)
    fix r rest
    assume r: "nosat r" and "unread r (e @ rest)"
    then have u: "unread r (blob_bytes k @ b @ rest)" using e by simp
    show "rbind (reader_blob r) (\<lambda>(_, r). dec r) = Inr ((), advance (length e) r)"
      using blobc.dec_enc [OF e(2) u] b [OF _ unread_advance [OF u]] r e by simp
  qed
qed

lemma skips_tag:
  assumes "unread r (t # xs)"
  shows "reader_u8 r = Inr (t, advance 1 r)" and "unread (advance 1 r) xs"
  using u8c.dec_enc [of r t xs] unread_advance [of r "[t]" xs] assms by simp_all

lemma reader_skip_enc: "unread r (xs @ ys) \<Longrightarrow> reader_skip (length xs) r = Inr ((), advance (length xs) r)"
  using bytesc.dec_enc [of xs "length xs" r ys] by (simp add: reader_skip_def)

lemma entries_ok_blob: "entries_ok es \<Longrightarrow> \<forall>e \<in> set es. blob_ok (fst e)"
  by (simp add: entries_ok_def string_ok_def)

lemma skipsI:
  assumes "\<And>r rest. nosat r \<Longrightarrow> reader_u8 r = Inr (t, advance 1 r) \<Longrightarrow> unread (advance 1 r) (b @ rest)
      \<Longrightarrow> dec r = Inr ((), advance (Suc (length b)) r)"
  shows "skips dec (t # b)"
  unfolding skips_def
proof (intro allI impI)
  fix r rest
  assume "nosat r" and u: "unread r ((t # b) @ rest)"
  with assms skips_tag [of r t "b @ rest"] show "dec r = Inr ((), advance (length (t # b)) r)" by simp
qed

lemma skip_blob:
  assumes "d \<le> MAX_VALUE_DEPTH" and "blob_ok b" and "t = TAG_STR \<or> t = TAG_BYTES"
  shows "skips (skip_at_depth d) (t # blob_bytes b)"
proof (rule skipsI)
  fix r rest
  assume "nosat r" and "reader_u8 r = Inr (t, advance 1 r)" and "unread (advance 1 r) (blob_bytes b @ rest)"
  with assms blobc.dec_enc [of b "advance 1 r" rest]
  show "skip_at_depth d r = Inr ((), advance (Suc (length (blob_bytes b))) r)"
    by (subst skip_at_depth.simps) (auto simp: Let_def tag_defs)
qed

lemma skip_array:
  assumes "d \<le> MAX_VALUE_DEPTH" and "length vs < 2 ^ 64"
    and IH: "list_all2 (\<lambda>v b. val_rep (Suc d) v b \<and> skips (skip_at_depth (Suc d)) b) vs bss"
  shows "skips (skip_at_depth d) (TAG_ARRAY # varint_bytes (u64_of (length vs)) @ concat bss)"
proof (rule skipsI)
  fix r rest
  let ?n = "u64_of (length vs)"
  assume ns: "nosat r" and t: "reader_u8 r = Inr (TAG_ARRAY, advance 1 r)"
    and "unread (advance 1 r) ((varint_bytes ?n @ concat bss) @ rest)"
  then have u: "unread (advance 1 r) (varint_bytes ?n @ concat bss @ rest)" by simp
  note u2 = unread_advance [OF u]
  have len: "length vs = length bss" using IH by (rule list_all2_lengthD)
  have "list_all2 (val_rep (Suc d)) vs bss" using IH by (rule list_all2_mono) simp
  then have c: "bounded_count ?n (remaining (advance (length (varint_bytes ?n)) (advance 1 r))) at = Inr (length vs)" for "at"
    using array_bytes_ge [of "Suc d" vs bss] unread_short [OF _ u2] ns unread_remaining [OF u2]
    by (intro bounded_count_enc) auto
  have "\<forall>b \<in> set bss. skips (skip_at_depth (Suc d)) b"
    using IH by (auto simp: list_all2_conv_all_nth in_set_conv_nth)
  from skips_times [OF this _ u2] ns c show "skip_at_depth d r
      = Inr ((), advance (Suc (length (varint_bytes ?n @ concat bss))) r)"
    using assms(1) t varintc.dec_enc [OF _ u] len
    by (subst skip_at_depth.simps) (simp add: Let_def tag_defs)
qed

lemma skip_map:
  assumes d: "d \<le> MAX_VALUE_DEPTH" and ok: "entries_ok es"
    and IH: "list_all2 (\<lambda>v b. val_rep (Suc d) v b \<and> skips (skip_at_depth (Suc d)) b) (map snd es) bss"
    and t: "t = TAG_MAP \<and> tab = [] \<or> t = TAG_MAP_INDEXED \<and> length tab = 2 * length es"
  shows "skips (skip_at_depth d) (t # varint_bytes (u64_of (length es)) @ tab @ concat (entry_bytes es bss))"
proof (rule skipsI)
  fix r rest
  let ?n = "u64_of (length es)" and ?ess = "entry_bytes es bss"
  assume ns: "nosat r" and t1: "reader_u8 r = Inr (t, advance 1 r)"
    and "unread (advance 1 r) ((varint_bytes ?n @ tab @ concat ?ess) @ rest)"
  then have u: "unread (advance 1 r) (varint_bytes ?n @ tab @ concat ?ess @ rest)" by simp
  note u2 = unread_advance [OF u] and u3 = unread_advance [OF unread_advance [OF u]]
  have len: "length bss = length es" using IH by (auto dest: list_all2_lengthD)
  have rep: "list_all2 (val_rep (Suc d)) (map snd es) bss" using IH by (rule list_all2_mono) simp
  have c: "bounded_count ?n (remaining (advance (length (varint_bytes ?n)) (advance 1 r))
      div (if t = TAG_MAP_INDEXED then 4 else 2)) at = Inr (length es)" for "at"
    using entry_bytes_ge [OF rep] unread_short [OF _ u2] ns unread_remaining [OF u2] t len
    by (intro bounded_count_enc) (auto simp: tag_defs)
  have "\<forall>b \<in> set bss. skips (skip_at_depth (Suc d)) b"
    using IH by (auto simp: list_all2_conv_all_nth in_set_conv_nth)
  from skips_times [OF skips_entries [OF len entries_ok_blob [OF ok] this] _ u3] ns c
    reader_skip_enc [OF u2] show "skip_at_depth d r
      = Inr ((), advance (Suc (length (varint_bytes ?n @ tab @ concat ?ess))) r)"
    using d t t1 varintc.dec_enc [OF _ u] len
    by (subst skip_at_depth.simps)
       (auto simp: Let_def tag_defs INDEX_ENTRY_BYTES_def mult.commute add.assoc)
qed

lemma skip_at_depth_rep: "val_rep d v bs \<Longrightarrow> skips (skip_at_depth d) bs"
proof (induction rule: val_rep.induct)
  case (rep_Array d vs bss)
  then show ?case by (intro skip_array)
next
  case (rep_Map d es bss)
  then show ?case using skip_map [of d es bss TAG_MAP "[]"] by simp
next
  case (rep_Map_indexed d es bss)
  have "length bss = length es" using rep_Map_indexed.IH by (auto dest: list_all2_lengthD)
  with rep_Map_indexed show ?case by (intro skip_map) simp_all
next
  case (rep_Str d s)
  then show ?case by (intro skip_blob) (simp_all add: string_ok_def)
next
  case (rep_Bytes d b)
  then show ?case by (intro skip_blob) simp_all
qed (rule skipsI, subst skip_at_depth.simps,
  simp add: Let_def tag_defs varintc.dec_enc reader_skip_enc [of _ "to_le 8 x" for x, simplified])+

subsection \<open>Path lookup agrees with a full decode\<close>

fun lookup_path :: "val \<Rightarrow> rust_string list \<Rightarrow> val option" where
  "lookup_path v [] = Some v"
| "lookup_path (Map es) (s # ss) = (case map_of es s of None \<Rightarrow> None | Some v \<Rightarrow> lookup_path v ss)"
| "lookup_path v (s # ss) = None"

text \<open>\<open>stands_on d r v\<close>: the reader stands on a valid encoding of \<open>v\<close>.\<close>

definition stands_on :: "nat \<Rightarrow> reader \<Rightarrow> val \<Rightarrow> bool" where
  "stands_on d r v \<longleftrightarrow> nosat r \<and> (\<exists>b rest. val_rep d v b \<and> unread r (b @ rest))"

lemma stands_on_read: "stands_on d r v \<Longrightarrow> 1 \<le> d \<Longrightarrow> \<exists>r'. read_from r = Inr (v, r')"
  unfolding stands_on_def read_from_def
  using val_rep_shallower [of d v _ 1] read_at_depth_rep [of 1 v _ r] by blast

lemma skip_value_rep:
  "val_rep d v b \<Longrightarrow> 1 \<le> d \<Longrightarrow> nosat r \<Longrightarrow> unread r (b @ rest) \<Longrightarrow> skip_value r = Inr ((), advance (length b) r)"
  using skip_at_depth_rep [OF val_rep_shallower [of d v b 1]] unfolding skip_value_def skips_def by blast

lemma walk_entries_rep:
  assumes "list_all2 (val_rep d) (map snd es) bss" and "1 \<le> d"
    and "sorted_wrt (<) (map fst es)" and "\<forall>e \<in> set es. blob_ok (fst e)"
    and "nosat r" and "unread r (concat (entry_bytes es bss) @ rest)"
  shows "case map_of es wanted of
      None \<Rightarrow> walk_entries (length es) wanted r = Inr None
    | Some v \<Rightarrow> \<exists>r'. walk_entries (length es) wanted r = Inr (Some r') \<and> stands_on d r' v"
  using assms
proof (induction es arbitrary: bss r)
  case Nil
  then show ?case by simp
next
  case (Cons e es)
  obtain k v where e: "e = (k, v)" by (cases e) auto
  from Cons.prems(1) e obtain b bss' where bss: "bss = b # bss'" "val_rep d v b"
    "list_all2 (val_rep d) (map snd es) bss'" by (auto simp: list_all2_Cons1)
  have u: "unread r (blob_bytes k @ b @ concat (entry_bytes es bss') @ rest)"
    using Cons.prems(6) e bss by (simp add: entry_bytes_def)
  note u1 = unread_advance [OF u]
  let ?r = "advance (length (blob_bytes k)) r"
  have key: "reader_blob r = Inr (k, ?r)" using blobc.dec_enc [OF _ u] Cons.prems(4) e by simp
  have sk: "skip_value ?r = Inr ((), advance (length b) ?r)"
    using skip_value_rep [OF bss(2) Cons.prems(2) _ u1] Cons.prems(5) by simp
  consider "k < wanted" | "k = wanted" | "wanted < k" by (rule linorder_cases)
  then show ?case
  proof cases
    case 1
    have "case map_of es wanted of
        None \<Rightarrow> walk_entries (length es) wanted (advance (length b) ?r) = Inr None
      | Some v \<Rightarrow> \<exists>r'. walk_entries (length es) wanted (advance (length b) ?r) = Inr (Some r') \<and> stands_on d r' v"
      using Cons.prems unread_advance [OF u1] bss(3) by (intro Cons.IH) auto
    with 1 e key sk show ?thesis by (auto split: option.splits)
  next
    case 2
    have "stands_on d ?r v" using bss(2) u1 Cons.prems(5) by (auto simp: stands_on_def)
    with 2 e key show ?thesis by simp
  next
    case 3
    then have "wanted \<notin> fst ` set es" using Cons.prems(3) e by auto
    then have "map_of es wanted = None" by (simp add: map_of_eq_None_iff)
    with 3 e key show ?thesis by auto
  qed
qed

lemma concat_take_nth_drop:
  "i < length xss \<Longrightarrow> concat xss = concat (take i xss) @ xss ! i @ concat (drop (Suc i) xss)"
  by (metis append_assoc concat.simps(2) concat_append id_take_nth_drop)

lemma bsearch_rep:
  fixes es :: "(rust_string \<times> val) list"
  assumes l: "length bss = length es" and keys: "\<forall>e \<in> set es. blob_ok (fst e)"
    and srt: "sorted_wrt (<) (map fst es)" and hi: "hi \<le> length es"
    and tab: "\<forall>i < length es. table_offset table i = Some (length (concat (take i (entry_bytes es bss))))"
  shows "(\<exists>i < hi. lo \<le> i \<and> fst (es ! i) = wanted
        \<and> bsearch table (concat (entry_bytes es bss) @ rest) base wanted lo hi
            = Inr (Some (length (concat (take i (entry_bytes es bss))))))
    \<or> (\<forall>i. lo \<le> i \<and> i < hi \<longrightarrow> fst (es ! i) \<noteq> wanted)
        \<and> bsearch table (concat (entry_bytes es bss) @ rest) base wanted lo hi = Inr None"
  using hi
proof (induction "hi - lo" arbitrary: lo hi rule: less_induct)
  case less
  let ?ess = "entry_bytes es bss" and ?mid = "lo + (hi - lo) div 2"
  let ?entries = "concat ?ess @ rest"
  let ?off = "length (concat (take ?mid ?ess))" and ?key = "fst (es ! ?mid)"
  show ?case
  proof (cases "lo < hi")
    case False
    then show ?thesis by (subst (2) bsearch.simps) auto
  next
    case True
    then have mid: "?mid < hi" "lo \<le> ?mid" "?mid < length es" using less.prems by auto
    have e: "?ess ! ?mid = blob_bytes ?key @ bss ! ?mid" using mid(3) l by (simp add: entry_bytes_def)
    have split: "?entries = concat (take ?mid ?ess) @ blob_bytes ?key @ bss ! ?mid @ concat (drop (Suc ?mid) ?ess) @ rest"
      using concat_take_nth_drop [of ?mid ?ess] mid(3) l e by simp
    let ?rest = "blob_bytes ?key @ bss ! ?mid @ concat (drop (Suc ?mid) ?ess) @ rest"
    have sl: "slice ?entries ?off (length ?entries) = Some ?rest"
      unfolding split by (simp add: slice_def)
    have bk: "blob_ok ?key" using keys mid(3) by simp
    have probe: "\<exists>r'. reader_blob (reader_with_base ?rest base') = Inr (?key, r')" for base'
      using blobc.dec_enc [OF bk, of "reader_with_base ?rest base'"] by simp
    have step: "bsearch table ?entries base wanted lo hi =
        (if ?key < wanted then bsearch table ?entries base wanted (?mid + 1) hi
         else if ?key > wanted then bsearch table ?entries base wanted lo ?mid
         else Inr (Some ?off))"
      using True tab mid(3) sl probe [of "base + u64_of ?off"]
      by (subst bsearch.simps) (auto simp: Let_def)
    have mono: "i < j \<Longrightarrow> j < length es \<Longrightarrow> fst (es ! i) < fst (es ! j)" for i j
      using srt by (simp add: sorted_wrt_iff_nth_less)
    consider "?key < wanted" | "?key > wanted" | "?key = wanted" by (rule linorder_cases)
    then show ?thesis
    proof cases
      case 1
      have skip: "fst (es ! i) \<noteq> wanted" if "i \<le> ?mid" for i
        using mono [of i ?mid] 1 mid(3) that by (cases "i = ?mid") auto
      have eq: "bsearch table ?entries base wanted lo hi = bsearch table ?entries base wanted (?mid + 1) hi"
        using step 1 by simp
      have "hi - (?mid + 1) < hi - lo" using True mid by linarith
      from less.hyps [OF this less.prems] show ?thesis
      proof (elim disjE exE conjE)
        fix i
        assume "i < hi" "?mid + 1 \<le> i" "fst (es ! i) = wanted"
          "bsearch table ?entries base wanted (?mid + 1) hi = Inr (Some (length (concat (take i ?ess))))"
        with mid(2) eq show ?thesis by (intro disjI1 exI [of _ i]) auto
      next
        assume "\<forall>i. ?mid + 1 \<le> i \<and> i < hi \<longrightarrow> fst (es ! i) \<noteq> wanted"
          "bsearch table ?entries base wanted (?mid + 1) hi = Inr None"
        with skip eq show ?thesis by (intro disjI2) (metis Suc_eq_plus1 not_less_eq_eq)
      qed
    next
      case 2
      have skip: "fst (es ! i) \<noteq> wanted" if "?mid \<le> i" "i < length es" for i
        using mono [of ?mid i] 2 that by (cases "i = ?mid") auto
      have eq: "bsearch table ?entries base wanted lo hi = bsearch table ?entries base wanted lo ?mid"
        unfolding step if_not_P [OF less_not_sym [OF 2]] if_P [OF 2] by (rule refl)
      have "?mid - lo < hi - lo" "?mid \<le> length es" using True mid by linarith+
      from less.hyps [OF this] show ?thesis
      proof (elim disjE exE conjE)
        fix i
        assume "i < ?mid" "lo \<le> i" "fst (es ! i) = wanted"
          "bsearch table ?entries base wanted lo ?mid = Inr (Some (length (concat (take i ?ess))))"
        with mid(1) eq show ?thesis by (intro disjI1 exI [of _ i]) auto
      next
        assume "\<forall>i. lo \<le> i \<and> i < ?mid \<longrightarrow> fst (es ! i) \<noteq> wanted"
          "bsearch table ?entries base wanted lo ?mid = Inr None"
        with skip less.prems eq show ?thesis by (intro disjI2) (metis not_less order.strict_trans2)
      qed
    next
      case 3
      with step mid show ?thesis by (intro disjI1 exI [of _ ?mid]) auto
    qed
  qed
qed

lemma map_of_nth:
  fixes es :: "('k::linorder \<times> 'v) list"
  assumes "sorted_wrt (<) (map fst es)" and "i < length es"
  shows "map_of es (fst (es ! i)) = Some (snd (es ! i))"
  using assms by (intro map_of_is_SomeI) (auto simp: strict_sorted_iff)

lemma find_segments_scalar:
  assumes "val_rep d v bs" and "\<forall>es. v \<noteq> Map es" and "unread r (bs @ rest)"
  shows "find_segments (s # ss) r = Inr None"
proof -
  from assms(1,2) obtain t b where bs: "bs = t # b" and t: "t \<noteq> TAG_MAP" "t \<noteq> TAG_MAP_INDEXED"
    by (cases rule: val_rep.cases) (auto simp: tag_defs)
  with assms(3) skips_tag(1) [of r t "b @ rest"] show ?thesis by simp
qed

text \<open>What \<open>descend\<close> does on a reader that stands on the value found.\<close>

lemma find_segments_descend:
  assumes "stands_on d r v" and "1 \<le> d"
    and IH: "segs \<noteq> [] \<longrightarrow> (\<forall>r d v. stands_on d r v \<longrightarrow> 1 \<le> d \<longrightarrow> find_segments segs r = Inr (lookup_path v segs))"
  shows "(if segs = [] then rbind (read_from r) (\<lambda>(v, _). Inr (Some v)) else find_segments segs r)
     = Inr (lookup_path v segs)"
  using stands_on_read [OF assms(1,2)] IH assms(1,2) by auto

lemma find_segments_plain:
  assumes v: "list_all2 (val_rep (Suc d)) (map snd es) bss" "entries_ok es" and ns: "nosat r"
    and u0: "unread r ((TAG_MAP # varint_bytes (u64_of (length es)) @ concat (entry_bytes es bss)) @ rest)"
    and IH: "ss \<noteq> [] \<longrightarrow> (\<forall>r d v. stands_on d r v \<longrightarrow> 1 \<le> d \<longrightarrow> find_segments ss r = Inr (lookup_path v ss))"
  shows "find_segments (s # ss) r = Inr (lookup_path (Map es) (s # ss))"
proof -
  let ?n = "u64_of (length es)" and ?ess = "entry_bytes es bss"
  let ?r = "advance (length (varint_bytes ?n)) (advance 1 r)"
  have u: "unread r (TAG_MAP # varint_bytes ?n @ concat ?ess @ rest)" using u0 by simp
  note u1 = skips_tag(2) [OF u] and u2 = unread_advance [OF skips_tag(2) [OF u]]
  have c: "bounded_count ?n (remaining ?r div 2) at = Inr (length es)" for "at"
    using entry_bytes_ge [OF v(1)] unread_short [OF _ u2] ns unread_remaining [OF u2]
    by (intro bounded_count_enc) auto
  have "case map_of es s of
      None \<Rightarrow> walk_entries (length es) s ?r = Inr None
    | Some v \<Rightarrow> \<exists>r'. walk_entries (length es) s ?r = Inr (Some r') \<and> stands_on (Suc d) r' v"
    using v entries_ok_blob [OF v(2)] ns u2
    by (intro walk_entries_rep [where rest = rest]) (auto simp: entries_ok_def)
  then show ?thesis
    using skips_tag(1) [OF u] varintc.dec_enc [OF _ u1] c find_segments_descend [OF _ _ IH]
    by (auto simp: Let_def tag_defs split: option.splits)
qed

lemma reader_peek_all: "unread r xs \<Longrightarrow> reader_peek (remaining r) r = Inr xs"
  by (auto simp: reader_peek_def slice_def unread_def remaining_def)

lemma find_segments_indexed:
  assumes v: "list_all2 (val_rep (Suc d)) (map snd es) bss" "entries_ok es" and ns: "nosat r"
    and offs: "\<forall>off \<in> set (entry_offsets (entry_bytes es bss)). off < 2 ^ 16"
    and u0: "unread r ((TAG_MAP_INDEXED # varint_bytes (u64_of (length es))
        @ table_bytes (entry_offsets (entry_bytes es bss)) @ concat (entry_bytes es bss)) @ rest)"
    and IH: "ss \<noteq> [] \<longrightarrow> (\<forall>r d v. stands_on d r v \<longrightarrow> 1 \<le> d \<longrightarrow> find_segments ss r = Inr (lookup_path v ss))"
  shows "find_segments (s # ss) r = Inr (lookup_path (Map es) (s # ss))"
proof -
  let ?n = "u64_of (length es)" and ?ess = "entry_bytes es bss"
  let ?t = "table_bytes (entry_offsets ?ess)"
  let ?r = "advance (length (varint_bytes ?n)) (advance 1 r)"
  let ?r' = "advance (length ?t) ?r"
  have u: "unread r (TAG_MAP_INDEXED # varint_bytes ?n @ ?t @ concat ?ess @ rest)" using u0 by simp
  note u1 = skips_tag(2) [OF u] and u2 = unread_advance [OF skips_tag(2) [OF u]]
    and u3 = unread_advance [OF unread_advance [OF skips_tag(2) [OF u]]]
  have len: "length bss = length es" using v(1) by (auto dest: list_all2_lengthD)
  have c: "bounded_count ?n (remaining ?r div 4) at = Inr (length es)" for "at"
    using entry_bytes_ge [OF v(1)] unread_short [OF _ u2] ns unread_remaining [OF u2] len
    by (intro bounded_count_enc) auto
  have b: "reader_bytes (length es * INDEX_ENTRY_BYTES) ?r = Inr (?t, ?r')"
    using bytesc.dec_enc [OF _ u2] len by (simp add: INDEX_ENTRY_BYTES_def mult.commute [of "length es"])
  have pk: "reader_peek (remaining ?r') ?r' = Inr (concat ?ess @ rest)"
    using u3 by (rule reader_peek_all)
  have tab: "\<forall>i < length es. table_offset ?t i = Some (length (concat (take i ?ess)))"
    using table_offset_nth [of _ "entry_offsets ?ess"] len offs by (auto simp: entry_offsets_nth entry_offsets_def)
  have srt: "sorted_wrt (<) (map fst es)" using v(2) by (simp add: entries_ok_def)
  from bsearch_rep [OF len entries_ok_blob [OF v(2)] srt order.refl tab, of 0 s rest "offset ?r'"]
  show ?thesis
  proof (elim disjE exE conjE)
    fix i
    assume i: "i < length es" and k: "fst (es ! i) = s"
      and hit: "bsearch ?t (concat ?ess @ rest) (offset ?r') s 0 (length es)
         = Inr (Some (length (concat (take i ?ess))))"
    have split: "concat ?ess @ rest = concat (take i ?ess) @ blob_bytes s @ bss ! i @ concat (drop (Suc i) ?ess) @ rest"
      using concat_take_nth_drop [of i ?ess] i len k by (simp add: entry_bytes_def)
    have u4: "unread ?r' (concat (take i ?ess) @ blob_bytes s @ bss ! i @ concat (drop (Suc i) ?ess) @ rest)"
      using u3 unfolding split .
    note u5 = unread_advance [OF u4] and u6 = unread_advance [OF unread_advance [OF u4]]
    have bk: "blob_ok s" using entries_ok_blob [OF v(2)] i k by auto
    have "val_rep (Suc d) (snd (es ! i)) (bss ! i)" using v(1) i by (auto simp: list_all2_conv_all_nth)
    then have st: "stands_on (Suc d) (advance (length (blob_bytes s)) (advance (length (concat (take i ?ess))) ?r')) (snd (es ! i))"
      using u6 ns by (auto simp: stands_on_def)
    have "map_of es s = Some (snd (es ! i))" using map_of_nth [OF srt i] k by simp
    then show ?thesis
      using skips_tag(1) [OF u] varintc.dec_enc [OF _ u1] c b pk hit reader_skip_enc [OF u4]
        blobc.dec_enc [OF bk u5] find_segments_descend [OF st _ IH]
      by (cases "ss = []") (simp_all add: Let_def tag_defs)
  next
    assume ne: "\<forall>i. 0 \<le> i \<and> i < length es \<longrightarrow> fst (es ! i) \<noteq> s"
      and miss: "bsearch ?t (concat ?ess @ rest) (offset ?r') s 0 (length es) = Inr None"
    have "map_of es s = None" using ne by (auto simp: map_of_eq_None_iff in_set_conv_nth) (metis fst_conv)
    then show ?thesis
      using skips_tag(1) [OF u] varintc.dec_enc [OF _ u1] c b pk miss by (simp add: Let_def tag_defs)
  qed
qed

lemma find_segments_rep:
  "segs \<noteq> [] \<Longrightarrow> stands_on d r v \<Longrightarrow> 1 \<le> d \<Longrightarrow> find_segments segs r = Inr (lookup_path v segs)"
proof (induction segs arbitrary: r d v)
  case Nil
  then show ?case by simp
next
  case (Cons s ss)
  from Cons.prems(2) obtain bs rest where rep: "val_rep d v bs" and ns: "nosat r" and u: "unread r (bs @ rest)"
    by (auto simp: stands_on_def)
  have IH: "ss \<noteq> [] \<longrightarrow> (\<forall>r d v. stands_on d r v \<longrightarrow> 1 \<le> d \<longrightarrow> find_segments ss r = Inr (lookup_path v ss))"
    using Cons.IH by blast
  from rep show ?case
  proof (cases rule: val_rep.cases)
    case (rep_Map es bss)
    show ?thesis
      using find_segments_plain [OF rep_Map(4,5) ns u [unfolded rep_Map(2)] IH] rep_Map(1) by simp
  next
    case (rep_Map_indexed es bss)
    show ?thesis
      using find_segments_indexed [OF rep_Map_indexed(4,5) ns rep_Map_indexed(7) u [unfolded rep_Map_indexed(2)] IH]
        rep_Map_indexed(1) by simp
  qed (use find_segments_scalar [OF rep _ u] in auto)
qed

subsection \<open>Properties\<close>

text \<open>
  Property C23.  Encoding and decoding are inverse: any well-formed value that encodes is
  decoded from its bytes unchanged, whatever its nesting and whichever map layout was chosen.
\<close>

theorem value_roundtrip:
  assumes "val_wf v" and "encode v = Inr bs" and "length bs < 2 ^ 64"
  shows "decode bs = Inr v"
  using encode_rep [OF assms(2,1)] assms(3) by (simp add: decode_iff)

theorem value_roundtrip_witness:
  "val_wf (Map [([0x6B], Array [I64 5, Null])])
   \<and> encode (Map [([0x6B], Array [I64 5, Null])]) = Inr [8, 1, 1, 0x6B, 7, 2, 3, 10, 0]
   \<and> decode [8, 1, 1, 0x6B, 7, 2, 3, 10, 0] = Inr (Map [([0x6B], Array [I64 5, Null])])"
proof -
  let ?v = "Map [([0x6B], Array [I64 5, Null])]" and ?bs = "[8, 1, 1, 0x6B, 7, 2, 3, 10, 0] :: bytes"
  have wf: "val_wf ?v" by (simp add: entries_ok_def string_ok_def blob_ok_def)
  have e: "encode ?v = Inr ?bs"
    by (simp add: encode_def write_to_def write_at_depth.simps MAX_VALUE_DEPTH_def INDEX_MIN_ENTRIES_def
        codec_simps tag_defs varint_bytes.simps u64_of_def blob_bytes_def zigzag_def)
  with wf value_roundtrip [OF wf e] show ?thesis by simp
qed

text \<open>
  Encoding fails only for the two documented reasons: a value that nests more
  than sixteen levels deep, or one that contains a NaN or an infinity.
\<close>

lemma value_encodable_iff:
  assumes "val_wf v"
  shows "is_ok (encode v) \<longleftrightarrow> depth v \<le> MAX_VALUE_DEPTH \<and> all_finite v"
proof
  assume "is_ok (encode v)"
  then obtain bs where "encode v = Inr bs" by (rule is_okE)
  from val_rep_wf [OF encode_rep [OF this assms]] show "depth v \<le> MAX_VALUE_DEPTH \<and> all_finite v" by simp
next
  assume "depth v \<le> MAX_VALUE_DEPTH \<and> all_finite v"
  then show "is_ok (encode v)"
    using write_at_depth_ok [of 1 v] by (simp add: encode_def write_to_def)
qed

text \<open>
  Whatever the decoder accepts is a well-formed value that can be stored again
  and then decodes to itself; this includes wide maps under the plain tag of format version 1.
\<close>

lemma value_decode_reencodes:
  assumes "length bs < 2 ^ 64" and "decode bs = Inr v"
  shows "val_wf v \<and> (\<exists>bs'. encode v = Inr bs' \<and> (length bs' < 2 ^ 64 \<longrightarrow> decode bs' = Inr v))"
proof -
  have rep: "val_rep 1 v bs" using assms decode_iff by blast
  from val_rep_wf [OF rep] have wf: "val_wf v" and "all_finite v" "1 + depth v \<le> Suc MAX_VALUE_DEPTH" by simp_all
  then have "is_ok (encode v)" using write_at_depth_ok by (simp add: encode_def write_to_def)
  then obtain bs' where e: "encode v = Inr bs'" by (rule is_okE)
  from encode_rep [OF e wf] have "length bs' < 2 ^ 64 \<longrightarrow> decode bs' = Inr v" by (simp add: decode_iff)
  with e wf show ?thesis by blast
qed

text \<open>
  Skipping agrees with reading: where a value can be read, skipping it leaves
  the reader at the same place.
\<close>

lemma value_skip_agrees:
  assumes "nosat r" and "unread r xs" and "read_from r = Inr (v, r')"
  shows "skip_value r = Inr ((), r')"
proof -
  from read_from_rep [OF assms(3,1,2)] obtain bs rest where
    "xs = bs @ rest" "val_rep 1 v bs" "r' = advance (length bs) r" by blast
  with skip_value_rep [of 1 v bs r rest] assms show ?thesis by simp
qed

text \<open>
  Property C22.  The lazy path lookup, exactly: on bytes that decode, it returns what decoding the
  whole value and walking the path would, through any mix of linearly scanned and binary-searched
  maps, for every path but the empty one.  For the empty path it finds nothing, even where the
  value is a map with an empty key, which is what the walk would find.
\<close>

theorem find_path_correct:
  assumes "length bs < 2 ^ 64" and "decode bs = Inr v"
  shows "find_path bs path = Inr (if path = [] then None else lookup_path v (split_dots path))"
proof (cases "path = []")
  case True
  then show ?thesis by (simp add: find_path_def)
next
  case False
  have rep: "val_rep 1 v bs" using assms decode_iff by blast
  have ne: "bs \<noteq> []" using val_rep_pos [OF rep] by auto
  have "split_dots path \<noteq> []" by (cases path) (auto split: list.splits)
  moreover have "stands_on 1 (reader_new bs) v"
    using rep assms(1) unfolding stands_on_def by (intro conjI exI [of _ bs] exI [of _ "[]"]) simp_all
  ultimately show ?thesis using find_segments_rep ne False by (simp add: find_path_def)
qed

theorem find_path_correct_witness:
  "find_path [8, 1, 1, 0x6B, 3, 10] [0x6B] = Inr (Some (I64 5)) \<and> find_path [8, 1, 1, 0x6B, 3, 10] [] = Inr None"
proof -
  let ?v = "Map [([0x6B], I64 5)]" and ?bs = "[8, 1, 1, 0x6B, 3, 10] :: bytes"
  have wf: "val_wf ?v" by (simp add: entries_ok_def string_ok_def blob_ok_def)
  have e: "encode ?v = Inr ?bs"
    by (simp add: encode_def write_to_def write_at_depth.simps MAX_VALUE_DEPTH_def INDEX_MIN_ENTRIES_def
        codec_simps tag_defs varint_bytes.simps u64_of_def blob_bytes_def zigzag_def)
  have "decode ?bs = Inr ?v" using encode_rep [OF e wf] by (subst decode_iff) simp_all
  from find_path_correct [OF _ this, of "[0x6B]"] find_path_correct [OF _ this, of "[]"] show ?thesis by simp
qed

text \<open>
  The skipper is more lenient than the decoder: it steps over an encoded NaN,
  which the decoder refuses.
\<close>

lemma value_skip_lenient:
  "decode [4, 0, 0, 0, 0, 0, 0, 0xF8, 0x7F] = Inl (Malformed 1 NonFiniteFloat)
   \<and> is_ok (skip_value (reader_new [4, 0, 0, 0, 0, 0, 0, 0xF8, 0x7F]))"
  by (simp add: decode_def read_from_def read_at_depth.simps [of "Suc 0"] skip_value_def skip_at_depth.simps [of "Suc 0"]
      MAX_VALUE_DEPTH_def tag_defs Let_def reader_new_def reader_u8_def reader_f64_def reader_skip_def
      reader_array_def reader_bytes_def slice_def offset_def sat_add_def u64_of_def f64_is_finite_def)

end
