(* ===== verification/Storage_Memory.thy ===== *)
theory Storage_Memory
  imports Storage Value
begin

text \<open>
  The in-memory backend (\<open>storage-memory/src/lib.rs\<close>).  The files are shared objects: an entry
  of the tree and every open handle hold a reference to one, so a handle keeps working after its
  file is renamed or removed.  References are indices into a list of file contents.  The tree
  is the \<open>BTreeMap\<close> the source keeps, an association list in key order.  Shown: the backend
  implements the storage contract, with \<open>simulate_power_loss\<close> as the power cut.
\<close>

record file_data =
  fd_live :: bytes
  fd_durable :: bytes

datatype entry = EDir | EFile nat

record mem_storage =
  mi_entries :: "(rust_string \<times> entry) list"
  mi_locks :: "rust_string list"
  mi_heap :: "file_data list"

record mem_file =
  mf_path :: db_path
  mf_data :: nat
  mf_writable :: bool

definition get_entry :: "mem_storage \<Rightarrow> db_path \<Rightarrow> entry option" where
  "get_entry m p = map_of (mi_entries m) p"

definition remove_entry :: "rust_string \<Rightarrow> (rust_string \<times> entry) list \<Rightarrow> (rust_string \<times> entry) list" where
  "remove_entry p es = filter (\<lambda>(q, _). q \<noteq> p) es"

definition mem_new :: mem_storage where
  "mem_new = \<lparr>mi_entries = [([], EDir)], mi_locks = [], mi_heap = []\<rparr>"

definition shared :: "mem_storage \<Rightarrow> nat \<Rightarrow> file_data" where
  "shared m a = mi_heap m ! a"

definition put_shared :: "nat \<Rightarrow> file_data \<Rightarrow> mem_storage \<Rightarrow> mem_storage" where
  "put_shared a d m = m\<lparr>mi_heap := (mi_heap m)[a := d]\<rparr>"

subsection \<open>Inspection and failure injection\<close>

fun file_addrs :: "(rust_string \<times> entry) list \<Rightarrow> nat list" where
  "file_addrs [] = []"
| "file_addrs ((_, EDir) # es) = file_addrs es"
| "file_addrs ((_, EFile a) # es) = a # file_addrs es"

definition simulate_power_loss :: "mem_storage \<Rightarrow> mem_storage" where
  "simulate_power_loss m =
     fold (\<lambda>a m. put_shared a ((shared m a)\<lparr>fd_live := fd_durable (shared m a)\<rparr>) m) (file_addrs (mi_entries m)) m"

definition total_bytes :: "mem_storage \<Rightarrow> u64" where
  "total_bytes m = sum_list (map (\<lambda>a. u64_of (length (fd_live (shared m a)))) (file_addrs (mi_entries m)))"

definition file_paths :: "mem_storage \<Rightarrow> rust_string list" where
  "file_paths m = map fst (filter (\<lambda>(_, e). e \<noteq> EDir) (mi_entries m))"

definition read_all :: "mem_storage \<Rightarrow> db_path \<Rightarrow> bytes option" where
  "read_all m p = (case get_entry m p of Some (EFile a) \<Rightarrow> Some (fd_live (shared m a)) | _ \<Rightarrow> None)"

definition add_file :: "db_path \<Rightarrow> mem_storage \<Rightarrow> nat \<times> mem_storage" where
  "add_file p m =
     (length (mi_heap m),
      m\<lparr>mi_entries := btree_insert p (EFile (length (mi_heap m))) (mi_entries m),
        mi_heap := mi_heap m @ [\<lparr>fd_live = [], fd_durable = []\<rparr>]\<rparr>)"

definition write_all :: "db_path \<Rightarrow> bytes \<Rightarrow> mem_storage \<Rightarrow> mem_storage" where
  "write_all p bs m =
     (let (a, m) = (case get_entry m p of Some (EFile a) \<Rightarrow> (a, m) | _ \<Rightarrow> add_file p m) in
      put_shared a \<lparr>fd_live = bs, fd_durable = bs\<rparr> m)"

subsection \<open>The directory tree\<close>

definition mem_not_found :: "db_path \<Rightarrow> db_error" where
  "mem_not_found p = StorageErr (StorageNotFound p)"

definition mem_io_err :: "db_path \<Rightarrow> storage_op \<Rightarrow> string \<Rightarrow> db_error" where
  "mem_io_err p op detail = StorageErr (Io p op detail)"

definition is_dir :: "mem_storage \<Rightarrow> db_path \<Rightarrow> bool" where
  "is_dir m p \<longleftrightarrow> get_entry m p = Some EDir"

definition require_parent_dir :: "mem_storage \<Rightarrow> db_path \<Rightarrow> unit db_result" where
  "require_parent_dir m p =
     (let parent = (case path_parent p of Some q \<Rightarrow> q | None \<Rightarrow> path_root) in
      if is_dir m parent then Inr () else Inl (mem_not_found parent))"

definition has_prefix :: "rust_string \<Rightarrow> rust_string \<Rightarrow> bool" where
  "has_prefix pre p \<longleftrightarrow> take (length pre) p = pre"

definition dir_prefix :: "db_path \<Rightarrow> rust_string" where
  "dir_prefix d = (if d = [] then [] else d @ [SEP])"

definition children_of :: "mem_storage \<Rightarrow> db_path \<Rightarrow> dir_entry list" where
  "children_of m d =
     (let pre = dir_prefix d in
      concat (map (\<lambda>(p, e).
        if p = [] \<or> \<not> has_prefix pre p then []
        else let rest = drop (length pre) p in
          if rest = [] \<or> SEP \<in> set rest then []
          else [\<lparr>de_name = rest, de_kind = (case e of EDir \<Rightarrow> EntryDirectory | EFile _ \<Rightarrow> EntryFile)\<rparr>])
        (mi_entries m)))"

definition mem_open_file :: "db_path \<Rightarrow> open_mode \<Rightarrow> (mem_storage, mem_file) io" where
  "mem_open_file p mode m =
     (if is_dir m p then (Inl (mem_io_err p OpOpen ''path is a directory''), m)
      else
        let existing = (case get_entry m p of Some (EFile a) \<Rightarrow> Some a | _ \<Rightarrow> None);
            handle = (\<lambda>a. \<lparr>mf_path = p, mf_data = a, mf_writable = is_writable mode\<rparr>) in
        case existing of
          Some a \<Rightarrow> if mode = OpenCreateNew then (Inl (StorageErr (AlreadyExists p)), m) else (Inr (handle a), m)
        | None \<Rightarrow>
            if mode = OpenRead \<or> mode = OpenReadWrite then (Inl (mem_not_found p), m)
            else (case require_parent_dir m p of
                Inl e \<Rightarrow> (Inl e, m)
              | Inr _ \<Rightarrow> (case add_file p m of (a, m') \<Rightarrow> (Inr (handle a), m'))))"

definition mem_remove_file :: "db_path \<Rightarrow> (mem_storage, unit) io" where
  "mem_remove_file p m =
     (case get_entry m p of
        Some (EFile _) \<Rightarrow> (Inr (), m\<lparr>mi_entries := remove_entry p (mi_entries m)\<rparr>)
      | Some EDir \<Rightarrow> (Inl (mem_io_err p OpRemove ''path is a directory''), m)
      | None \<Rightarrow> (Inl (mem_not_found p), m))"

definition mem_rename :: "db_path \<Rightarrow> db_path \<Rightarrow> (mem_storage, unit) io" where
  "mem_rename src dst m =
     (case get_entry m src of
        Some EDir \<Rightarrow> (Inl (mem_io_err src OpRename ''source is a directory''), m)
      | None \<Rightarrow> (Inl (mem_not_found src), m)
      | Some (EFile a) \<Rightarrow>
          if is_dir m dst then (Inl (mem_io_err dst OpRename ''destination is a directory''), m)
          else (case require_parent_dir m dst of
              Inl e \<Rightarrow> (Inl e, m)
            | Inr _ \<Rightarrow> (Inr (), m\<lparr>mi_entries := btree_insert dst (EFile a) (remove_entry src (mi_entries m))\<rparr>)))"

definition create_dir_step :: "rust_string \<Rightarrow> db_path \<Rightarrow> (mem_storage, db_path) io" where
  "create_dir_step c current =
     io_bind (io_of (path_join current c)) (\<lambda>current m.
     case get_entry m current of
       Some EDir \<Rightarrow> (Inr current, m)
     | Some (EFile _) \<Rightarrow> (Inl (mem_io_err current OpCreateDir ''path is a file''), m)
     | None \<Rightarrow> (Inr current, m\<lparr>mi_entries := btree_insert current EDir (mi_entries m)\<rparr>))"

definition mem_create_dir_all :: "db_path \<Rightarrow> (mem_storage, unit) io" where
  "mem_create_dir_all p = io_bind (io_fold create_dir_step (path_components p) path_root) (\<lambda>_. io_ok ())"

definition mem_remove_dir_all :: "db_path \<Rightarrow> (mem_storage, unit) io" where
  "mem_remove_dir_all p m =
     (if \<not> is_dir m p then (Inl (mem_not_found p), m)
      else
        let pre = (if path_is_root p then [] else p @ [SEP]);
            doomed = filter (\<lambda>q. q \<noteq> [] \<and> (q = p \<or> has_prefix pre q)) (map fst (mi_entries m));
            es = fold remove_entry doomed (mi_entries m);
            es = (if path_is_root p then btree_insert [] EDir es else es) in
        (Inr (), m\<lparr>mi_entries := es\<rparr>))"

definition mem_list_dir :: "db_path \<Rightarrow> (mem_storage, dir_entry list) io" where
  "mem_list_dir p m = (if \<not> is_dir m p then (Inl (mem_not_found p), m) else (Inr (children_of m p), m))"

definition mem_metadata :: "db_path \<Rightarrow> (mem_storage, file_meta option) io" where
  "mem_metadata p m =
     (Inr (case get_entry m p of
        Some EDir \<Rightarrow> Some \<lparr>fm_len = 0, fm_kind = EntryDirectory\<rparr>
      | Some (EFile a) \<Rightarrow> Some \<lparr>fm_len = u64_of (length (fd_live (shared m a))), fm_kind = EntryFile\<rparr>
      | None \<Rightarrow> None), m)"

definition mem_sync_dir :: "db_path \<Rightarrow> (mem_storage, unit) io" where
  "mem_sync_dir p m = (if is_dir m p then (Inr (), m) else (Inl (mem_not_found p), m))"

definition mem_try_lock :: "db_path \<Rightarrow> (mem_storage, file_lock) io" where
  "mem_try_lock p m =
     (if p \<in> set (mi_locks m) then (Inl (StorageErr (LockUnavailable p)), m)
      else (Inr \<lparr>fl_path = p, fl_holder = ascii ''in-process''\<rparr>, m\<lparr>mi_locks := insort p (mi_locks m)\<rparr>))"

definition mem_unlock :: "file_lock \<Rightarrow> mem_storage \<Rightarrow> mem_storage" where
  "mem_unlock l m = m\<lparr>mi_locks := remove1 (fl_path l) (mi_locks m)\<rparr>"

subsection \<open>File handles\<close>

definition require_writable :: "mem_file \<Rightarrow> storage_op \<Rightarrow> unit db_result" where
  "require_writable h op = (if mf_writable h then Inr () else Inl (StorageErr (PermissionDenied (mf_path h) op)))"

definition mem_read_at :: "mem_file \<Rightarrow> nat \<Rightarrow> u64 \<Rightarrow> (mem_storage, bytes) io" where
  "mem_read_at h n off m =
     (let live = fd_live (shared m (mf_data h)) in
      (Inr (if unat off \<le> length live then
              let available = drop (unat off) live in take (min (length available) n) available
            else []), m))"

definition mem_write_at :: "mem_file \<Rightarrow> bytes \<Rightarrow> u64 \<Rightarrow> (mem_storage, unit) io" where
  "mem_write_at h buf off m =
     (case require_writable h OpWrite of
        Inl e \<Rightarrow> (Inl e, m)
      | Inr _ \<Rightarrow>
          let data = shared m (mf_data h); start = unat off; stop = start + length buf in
          if stop \<ge> 2 ^ 64 then (Inl (mem_io_err (mf_path h) OpWrite ''write extends past usize::MAX''), m)
          else
            let live = (if length (fd_live data) < stop
                        then fd_live data @ replicate (stop - length (fd_live data)) 0 else fd_live data) in
            (Inr (), put_shared (mf_data h) (data\<lparr>fd_live := take start live @ buf @ drop stop live\<rparr>) m))"

definition mem_append :: "mem_file \<Rightarrow> bytes \<Rightarrow> (mem_storage, u64) io" where
  "mem_append h buf m =
     (case require_writable h OpAppend of
        Inl e \<Rightarrow> (Inl e, m)
      | Inr _ \<Rightarrow>
          let data = shared m (mf_data h) in
          (Inr (u64_of (length (fd_live data))),
           put_shared (mf_data h) (data\<lparr>fd_live := fd_live data @ buf\<rparr>) m))"

definition mem_truncate :: "mem_file \<Rightarrow> u64 \<Rightarrow> (mem_storage, unit) io" where
  "mem_truncate h len m =
     (case require_writable h OpTruncate of
        Inl e \<Rightarrow> (Inl e, m)
      | Inr _ \<Rightarrow>
          let data = shared m (mf_data h) in
          (Inr (), put_shared (mf_data h) (data\<lparr>fd_live := resize (fd_live data) (unat len)\<rparr>) m))"

definition mem_len :: "mem_file \<Rightarrow> (mem_storage, u64) io" where
  "mem_len h m = (Inr (u64_of (length (fd_live (shared m (mf_data h))))), m)"

definition mem_sync_data :: "mem_file \<Rightarrow> (mem_storage, unit) io" where
  "mem_sync_data h m =
     (case require_writable h OpSync of
        Inl e \<Rightarrow> (Inl e, m)
      | Inr _ \<Rightarrow>
          let data = shared m (mf_data h) in
          (Inr (), put_shared (mf_data h) (data\<lparr>fd_durable := fd_live data\<rparr>) m))"

definition memory_storage :: "(mem_storage, mem_file) storage" where
  "memory_storage =
     \<lparr>st_describe = ascii ''memory'',
      st_capabilities = caps_minimal\<lparr>cap_atomic_rename := True, cap_durable_sync := True, cap_file_locking := True\<rparr>,
      st_open_file = mem_open_file, st_remove_file = mem_remove_file, st_rename = mem_rename,
      st_create_dir_all = mem_create_dir_all, st_remove_dir_all = mem_remove_dir_all,
      st_list_dir = mem_list_dir, st_metadata = mem_metadata, st_sync_dir = mem_sync_dir,
      st_try_lock = mem_try_lock, st_unlock = mem_unlock,
      f_read_at = mem_read_at, f_write_at = mem_write_at, f_append = mem_append, f_truncate = mem_truncate,
      f_len = mem_len, f_sync_data = mem_sync_data\<rparr>"

subsection \<open>The abstract view\<close>

definition mem_files :: "mem_storage \<Rightarrow> db_path \<Rightarrow> file_view option" where
  "mem_files m p = (case get_entry m p of
     Some (EFile a) \<Rightarrow> Some (fd_live (shared m a), fd_durable (shared m a)) | _ \<Rightarrow> None)"

definition mem_stands :: "mem_storage \<Rightarrow> mem_file \<Rightarrow> db_path \<Rightarrow> bool" where
  "mem_stands m h p \<longleftrightarrow> get_entry m p = Some (EFile (mf_data h))"

text \<open>The root is a directory, references are valid, and no two paths share a file.\<close>

definition mem_good :: "mem_storage \<Rightarrow> bool" where
  "mem_good m \<longleftrightarrow> is_dir m [] \<and> (\<forall>p a. (p, EFile a) \<in> set (mi_entries m) \<longrightarrow> a < length (mi_heap m))
     \<and> (\<forall>p q a. get_entry m p = Some (EFile a) \<longrightarrow> get_entry m q = Some (EFile a) \<longrightarrow> p = q)"

lemma mem_goodD:
  assumes "mem_good m"
  shows "get_entry m p = Some (EFile a) \<Longrightarrow> a < length (mi_heap m)"
    and "get_entry m p = Some (EFile a) \<Longrightarrow> get_entry m q = Some (EFile a) \<Longrightarrow> p = q"
    and "is_dir m []" and "(p, EFile a) \<in> set (mi_entries m) \<Longrightarrow> a < length (mi_heap m)"
  using assms unfolding mem_good_def by (auto simp: get_entry_def dest: map_of_SomeD)

lemma map_of_btree_insert [simp]: "map_of (btree_insert k v es) = (map_of es)(k \<mapsto> v)"
  by (induction es) (auto simp: fun_eq_iff)

lemma map_of_remove_entry [simp]: "map_of (remove_entry p es) = (map_of es)(p := None)"
  by (induction es) (auto simp: remove_entry_def fun_eq_iff)

lemma set_remove_entry: "set (remove_entry p es) = {e \<in> set es. fst e \<noteq> p}"
  by (auto simp: remove_entry_def)

lemma set_btree_insert: "set (btree_insert k v es) \<subseteq> insert (k, v) (set es)"
  by (induction es) (auto split: if_splits)

lemma get_entry_simps [simp]:
  "get_entry (m\<lparr>mi_entries := es\<rparr>) p = map_of es p" "get_entry (put_shared a d m) p = get_entry m p"
  "get_entry (m\<lparr>mi_heap := hp\<rparr>) p = get_entry m p" "get_entry (m\<lparr>mi_locks := ls\<rparr>) p = get_entry m p"
  "map_of (mi_entries m) p = get_entry m p"
  by (simp_all add: get_entry_def put_shared_def)

lemma shared_put [simp]:
  "a < length (mi_heap m) \<Longrightarrow> shared (put_shared a d m) b = (if b = a then d else shared m b)"
  "length (mi_heap (put_shared a d m)) = length (mi_heap m)"
  "shared (m\<lparr>mi_entries := es\<rparr>) b = shared m b"
  by (simp_all add: shared_def put_shared_def nth_list_update)

text \<open>Changing the contents of the file a handle stands on changes that file and nothing else.\<close>

lemma put_shared_view:
  assumes "mem_good m" and "mem_stands m h p"
  shows "mem_good (put_shared (mf_data h) d m)" and "mem_stands (put_shared (mf_data h) d m) = mem_stands m"
    and "is_dir (put_shared (mf_data h) d m) = is_dir m"
    and "mem_files (put_shared (mf_data h) d m) = (mem_files m)(p \<mapsto> (fd_live d, fd_durable d))"
proof -
  note g = mem_goodD [OF assms(1)]
  from assms(2) have e: "get_entry m p = Some (EFile (mf_data h))" by (simp add: mem_stands_def)
  with g(1) have lt: "mf_data h < length (mi_heap m)" by blast
  show "mem_good (put_shared (mf_data h) d m)" using assms(1) by (simp add: mem_good_def is_dir_def put_shared_def)
  show "mem_stands (put_shared (mf_data h) d m) = mem_stands m" "is_dir (put_shared (mf_data h) d m) = is_dir m"
    by (simp_all add: fun_eq_iff mem_stands_def is_dir_def)
  show "mem_files (put_shared (mf_data h) d m) = (mem_files m)(p \<mapsto> (fd_live d, fd_durable d))"
    using e lt g(2) by (auto simp: fun_eq_iff mem_files_def split: option.splits entry.splits)
qed

lemma mem_files_SomeE:
  assumes "mem_files m p = Some f"
  obtains a where "get_entry m p = Some (EFile a)" and "f = (fd_live (shared m a), fd_durable (shared m a))"
  using assms by (auto simp: mem_files_def split: option.splits entry.splits)

lemma mem_files_NoneI: "mem_files m p = None \<Longrightarrow> \<not> is_dir m p \<Longrightarrow> get_entry m p = None"
  by (auto simp: mem_files_def is_dir_def split: option.splits entry.splits)

lemma stands_files: "mem_stands m h p \<Longrightarrow> mem_files m p = Some f \<Longrightarrow>
    f = (fd_live (shared m (mf_data h)), fd_durable (shared m (mf_data h)))"
  by (auto simp: mem_stands_def mem_files_def)

lemma add_file_view:
  assumes "mem_good m" and "get_entry m p = None" and "add_file p m = (a, m')"
  shows "mem_good m'" and "mem_files m' = (mem_files m)(p \<mapsto> ([], []))" and "is_dir m' = is_dir m"
    and "get_entry m' p = Some (EFile a)" and "\<forall>k q. mem_stands m k q \<longrightarrow> mem_stands m' k q"
proof -
  note g = mem_goodD [OF assms(1)]
  from assms(3) have a: "a = length (mi_heap m)" and ge: "get_entry m' = (get_entry m)(p \<mapsto> EFile a)"
    and hp: "mi_heap m' = mi_heap m @ [\<lparr>fd_live = [], fd_durable = []\<rparr>]"
    by (auto simp: add_file_def fun_eq_iff)
  have old: "shared m' b = shared m b" if "b < length (mi_heap m)" for b
    using that by (simp add: shared_def hp nth_append)
  have new: "shared m' a = \<lparr>fd_live = [], fd_durable = []\<rparr>" by (simp add: shared_def hp a)
  have lt: "b < length (mi_heap m)" if "get_entry m q = Some (EFile b)" for q b using g(1) [OF that] .
  show "mem_good m'"
  proof -
    have "b < length (mi_heap m')" if "(q, EFile b) \<in> set (mi_entries m')" for q b
    proof -
      from assms(3) that have "(q, EFile b) \<in> insert (p, EFile a) (set (mi_entries m))"
        using set_btree_insert [of p "EFile a" "mi_entries m"] by (auto simp: add_file_def)
      with g(4) [of q b] show ?thesis by (auto simp: hp a)
    qed
    moreover have "q = r" if "get_entry m' q = Some (EFile b)" "get_entry m' r = Some (EFile b)" for q r b
      using that g(2) [of q b r] lt [of q b] lt [of r b] by (simp add: ge a split: if_splits)
    moreover have "is_dir m' []" using g(3) assms(2) by (auto simp: is_dir_def ge)
    ultimately show ?thesis unfolding mem_good_def by blast
  qed
  show "mem_files m' = (mem_files m)(p \<mapsto> ([], []))"
    using old new lt by (auto simp: fun_eq_iff mem_files_def ge split: option.splits entry.splits)
  show "is_dir m' = is_dir m" using assms(2) by (auto simp: fun_eq_iff is_dir_def ge)
  show "get_entry m' p = Some (EFile a)" by (simp add: ge)
  show "\<forall>k q. mem_stands m k q \<longrightarrow> mem_stands m' k q" using assms(2) by (auto simp: mem_stands_def ge)
qed

text \<open>Entries change without the file contents: what holds of the entries carries over.\<close>

lemma entries_view:
  assumes "mem_good m" and "m' = m\<lparr>mi_entries := es\<rparr>" and "is_dir m' []"
    and "\<And>p a. get_entry m' p = Some (EFile a) \<Longrightarrow> get_entry m p = Some (EFile a)"
    and "\<And>p a. (p, EFile a) \<in> set es \<Longrightarrow> (p, EFile a) \<in> set (mi_entries m)"
  shows "mem_good m'"
proof -
  note g = mem_goodD [OF assms(1)]
  have "a < length (mi_heap m')" if "(p, EFile a) \<in> set (mi_entries m')" for p a
    using that assms(2) assms(5) [of p a] g(4) [of p a] by simp
  moreover have "p = q" if "get_entry m' p = Some (EFile a)" "get_entry m' q = Some (EFile a)" for p q a
    using g(2) assms(4) that by blast
  ultimately show ?thesis using assms(3) unfolding mem_good_def by blast
qed

lemma mem_good_new: "mem_good mem_new"
  by (auto simp: mem_good_def mem_new_def is_dir_def get_entry_def split: if_splits)

lemma set_file_addrs: "a \<in> set (file_addrs es) \<longleftrightarrow> (\<exists>p. (p, EFile a) \<in> set es)"
  by (induction es rule: file_addrs.induct) auto

lemma power_loss_heap:
  "\<forall>a \<in> set as. a < length (mi_heap m) \<Longrightarrow>
   let m' = fold (\<lambda>a m. put_shared a ((shared m a)\<lparr>fd_live := fd_durable (shared m a)\<rparr>) m) as m in
     mi_entries m' = mi_entries m \<and> length (mi_heap m') = length (mi_heap m) \<and>
     (\<forall>b. shared m' b = (if b \<in> set as then (shared m b)\<lparr>fd_live := fd_durable (shared m b)\<rparr> else shared m b))"
proof (induction as arbitrary: m)
  case Nil
  then show ?case by simp
next
  case (Cons a as)
  let ?m = "put_shared a ((shared m a)\<lparr>fd_live := fd_durable (shared m a)\<rparr>) m"
  have "\<forall>a \<in> set as. a < length (mi_heap ?m)" and "mi_entries ?m = mi_entries m"
    using Cons.prems by (simp_all add: put_shared_def)
  with Cons.IH [of ?m] Cons.prems show ?case by (auto simp: Let_def)
qed

text \<open>Creating directories one component at a time.\<close>

lemma create_dir_step_view:
  assumes "mem_good m" and "list_all plain pre" and "create_dir_step c (intercal pre) m = (Inr cur, m')"
  shows "mem_good m' \<and> plain c \<and> cur = intercal (pre @ [c]) \<and> is_dir m' cur \<and> mem_files m' = mem_files m
    \<and> (\<forall>q. is_dir m q \<longrightarrow> is_dir m' q) \<and> (\<forall>k q. mem_stands m k q \<longrightarrow> mem_stands m' k q)"
proof -
  from assms(3) obtain r where j: "path_join (intercal pre) c = Inr r"
    and st: "(case get_entry m r of Some EDir \<Rightarrow> (Inr r, m)
       | Some (EFile _) \<Rightarrow> (Inl (mem_io_err r OpCreateDir ''path is a file''), m)
       | None \<Rightarrow> (Inr r, m\<lparr>mi_entries := btree_insert r EDir (mi_entries m)\<rparr>)) = (Inr cur, m')"
    unfolding create_dir_step_def by (auto elim!: io_bind_InrE)
  from j assms(2) have r: "plain c" "r = intercal (pre @ [c])" by (auto simp: path_join_intercal)
  show ?thesis
  proof (cases "get_entry m r")
    case None
    with st have m': "m' = m\<lparr>mi_entries := btree_insert r EDir (mi_entries m)\<rparr>" and "cur = r" by auto
    moreover have "mem_good m'"
      by (rule entries_view [OF assms(1) m']) (use mem_goodD(3) [OF assms(1)] set_btree_insert [of r EDir "mi_entries m"]
        in \<open>auto simp: m' is_dir_def split: if_splits\<close>)
    ultimately show ?thesis
      using None r by (auto simp: is_dir_def mem_files_def mem_stands_def fun_eq_iff split: option.splits entry.splits)
  next
    case (Some e)
    with st assms(1) r show ?thesis by (cases e) (auto simp: is_dir_def)
  qed
qed

lemma create_dirs_view:
  assumes "io_fold create_dir_step cs (intercal pre) m = (Inr cur, m')" and "mem_good m" and "list_all plain pre"
    and "is_dir m (intercal pre)"
  shows "mem_good m' \<and> cur = intercal (pre @ cs) \<and> is_dir m' cur \<and> mem_files m' = mem_files m
    \<and> (\<forall>q. is_dir m q \<longrightarrow> is_dir m' q) \<and> (\<forall>k q. mem_stands m k q \<longrightarrow> mem_stands m' k q)"
  using assms
proof (induction cs arbitrary: pre m)
  case Nil
  then show ?case by auto
next
  case (Cons c cs)
  from Cons.prems(1) obtain cur1 m1 where s: "create_dir_step c (intercal pre) m = (Inr cur1, m1)"
    and f: "io_fold create_dir_step cs cur1 m1 = (Inr cur, m')" by (auto elim: io_bind_InrE)
  note v = create_dir_step_view [OF Cons.prems(2,3) s]
  with Cons.prems(3) Cons.IH [of "pre @ [c]" m1] f show ?case by auto
qed

subsection \<open>The backend implements the contract\<close>

lemma mem_open_existing:
  assumes "mem_files m p = Some f" and "mode \<noteq> OpenCreateNew"
  shows "\<exists>h. mem_open_file p mode m = (Inr h, m) \<and> mem_stands m h p \<and> mf_writable h = is_writable mode"
  using assms by (auto simp: mem_open_file_def is_dir_def mem_stands_def elim!: mem_files_SomeE)

lemma mem_open_create:
  assumes "mem_good m" and "mem_files m p = None" and "\<not> is_dir m p" and "is_dir m (parent_of p)"
    and "mode = OpenCreate \<or> mode = OpenCreateNew"
  shows "\<exists>h m'. mem_open_file p mode m = (Inr h, m') \<and> mem_good m' \<and> mem_files m' = (mem_files m)(p \<mapsto> ([], []))
    \<and> is_dir m' = is_dir m \<and> mem_stands m' h p \<and> mf_writable h \<and> (\<forall>k q. mem_stands m k q \<longrightarrow> mem_stands m' k q)"
proof -
  obtain a m' where af: "add_file p m = (a, m')" by fastforce
  have none: "get_entry m p = None" using assms(2,3) by (rule mem_files_NoneI)
  have "require_parent_dir m p = Inr ()"
    using assms(4) by (simp add: require_parent_dir_def parent_of_def Let_def split: option.splits)
  with none af assms(3,5) have "mem_open_file p mode m = (Inr \<lparr>mf_path = p, mf_data = a, mf_writable = is_writable mode\<rparr>, m')"
    by (auto simp: mem_open_file_def)
  moreover note add_file_view [OF assms(1) none af]
  ultimately show ?thesis using assms(5) by (auto simp: mem_stands_def is_writable_def)
qed

lemma mem_create_dirs:
  assumes "mem_good m" and "mem_create_dir_all p m = (Inr (), m')" and "path_parse p = Inr p"
  shows "mem_good m' \<and> mem_files m' = mem_files m \<and> is_dir m' p \<and> (\<forall>q. is_dir m q \<longrightarrow> is_dir m' q)
    \<and> (\<forall>k q. mem_stands m k q \<longrightarrow> mem_stands m' k q)"
proof -
  from assms(3) have "p = [] \<or> list_all plain (split_on SEP p)" by (simp add: path_parse_plain)
  then have e: "intercal (path_components p) = p"
  proof
    assume "list_all plain (split_on SEP p)"
    then have "\<forall>c \<in> set (split_on SEP p). c \<noteq> []" by (auto simp: list_all_iff plain_def)
    then show ?thesis by (simp add: path_components_def)
  qed (simp add: path_components_def)
  from assms(2) obtain cur where f: "io_fold create_dir_step (path_components p) (intercal []) m = (Inr cur, m')"
    unfolding mem_create_dir_all_def by (auto elim!: io_bind_InrE simp: path_root_def)
  have "is_dir m (intercal [])" using mem_goodD(3) [OF assms(1)] by simp
  note cv = create_dirs_view [OF f assms(1) _ this, simplified]
  then have "cur = p" unfolding e by blast
  show ?thesis using cv unfolding \<open>cur = p\<close> by blast
qed

text \<open>No other directory appears, and with no file on the way the call succeeds.\<close>

lemma create_dir_step_new:
  assumes "list_all plain pre" and "create_dir_step c (intercal pre) m = (Inr cur, m')" and "is_dir m' q"
  shows "is_dir m q \<or> q = intercal (pre @ [c])"
proof -
  from assms(2) obtain r where j: "path_join (intercal pre) c = Inr r"
    and st: "(case get_entry m r of Some EDir \<Rightarrow> (Inr r, m)
       | Some (EFile _) \<Rightarrow> (Inl (mem_io_err r OpCreateDir ''path is a file''), m)
       | None \<Rightarrow> (Inr r, m\<lparr>mi_entries := btree_insert r EDir (mi_entries m)\<rparr>)) = (Inr cur, m')"
    unfolding create_dir_step_def by (auto elim!: io_bind_InrE)
  from j assms(1) have "r = intercal (pre @ [c])" by (auto simp: path_join_intercal)
  with st assms(3) show ?thesis by (auto simp: is_dir_def split: option.splits entry.splits if_splits)
qed

lemma create_dirs_new:
  assumes "io_fold create_dir_step cs (intercal pre) m = (Inr cur, m')" and "mem_good m" and "list_all plain pre" and "is_dir m' q"
  shows "is_dir m q \<or> (\<exists>n. q = intercal (take n (pre @ cs)))"
  using assms
proof (induction cs arbitrary: pre m)
  case (Cons c cs)
  from Cons.prems(1) obtain cur1 m1 where s: "create_dir_step c (intercal pre) m = (Inr cur1, m1)"
    and f: "io_fold create_dir_step cs cur1 m1 = (Inr cur, m')" by (auto elim: io_bind_InrE)
  note v = create_dir_step_view [OF Cons.prems(2,3) s]
  then have f': "io_fold create_dir_step cs (intercal (pre @ [c])) m1 = (Inr cur, m')" using f by simp
  have "is_dir m1 q \<or> (\<exists>n. q = intercal (take n ((pre @ [c]) @ cs)))"
    using Cons.IH [OF f'] v Cons.prems(3,4) by simp
  moreover have "q = intercal (pre @ [c]) \<Longrightarrow> q = intercal (take (Suc (length pre)) (pre @ c # cs))" by simp
  ultimately show ?case using create_dir_step_new [OF Cons.prems(3) s, of q] unfolding append.assoc append_Cons append_Nil by blast
qed simp

lemma create_dirs_total:
  assumes "list_all plain (pre @ cs)" and "length (intercal (pre @ cs)) \<le> 1024" and "mem_good m" and "is_dir m (intercal pre)"
    and "\<forall>n. mem_files m (intercal (take n (pre @ cs))) = None"
  shows "\<exists>cur m'. io_fold create_dir_step cs (intercal pre) m = (Inr cur, m')"
  using assms
proof (induction cs arbitrary: pre m)
  case (Cons c cs)
  let ?r = "intercal (pre @ [c])"
  have pl: "list_all plain pre" "plain c" using Cons.prems(1) by auto
  have "length ?r \<le> 1024" using Cons.prems(2) intercal_append_length [of "pre @ [c]" cs] by simp
  then have j: "path_join (intercal pre) c = Inr ?r" using pl by (simp add: path_join_intercal)
  have nf: "mem_files m ?r = None" using spec [OF Cons.prems(5), of "Suc (length pre)"] by simp
  have "\<exists>m1. create_dir_step c (intercal pre) m = (Inr ?r, m1)"
    using j nf by (auto simp: create_dir_step_def mem_files_def split: option.splits entry.splits)
  then obtain m1 where s: "create_dir_step c (intercal pre) m = (Inr ?r, m1)" by blast
  note v = create_dir_step_view [OF Cons.prems(3) pl(1) s]
  have "\<exists>cur m'. io_fold create_dir_step cs ?r m1 = (Inr cur, m')"
    using v Cons.prems by (intro Cons.IH) simp_all
  with s show ?case by auto
qed simp

lemma path_plain:
  assumes "path_parse p = Inr p"
  shows "list_all plain (path_components p)" and "intercal (path_components p) = p" and "length p \<le> 1024"
proof -
  from assms have "(p = [] \<or> list_all plain (split_on SEP p)) \<and> length p \<le> 1024" by (simp add: path_parse_plain)
  moreover have "path_components p = split_on SEP p" if "list_all plain (split_on SEP p)"
  proof -
    have "\<forall>c \<in> set (split_on SEP p). c \<noteq> []" using that by (auto simp: list_all_iff plain_def)
    then show ?thesis by (simp add: path_components_def)
  qed
  ultimately show "list_all plain (path_components p)" "intercal (path_components p) = p" "length p \<le> 1024"
    by (auto simp: path_components_def)
qed

lemma mem_create_dirs_new:
  assumes "mem_good m" and "mem_create_dir_all p m = (Inr (), m')" and "path_parse p = Inr p" and "is_dir m' q"
  shows "is_dir m q \<or> (\<exists>n. q = intercal (take n (path_components p)))"
proof -
  from assms(2) obtain cur where f: "io_fold create_dir_step (path_components p) (intercal []) m = (Inr cur, m')"
    unfolding mem_create_dir_all_def by (auto elim!: io_bind_InrE simp: path_root_def)
  from create_dirs_new [OF f assms(1) _ assms(4)] show ?thesis by simp
qed

lemma mem_create_dirs_total:
  assumes "mem_good m" and "path_parse p = Inr p" and "\<forall>n. mem_files m (intercal (take n (path_components p))) = None"
  shows "\<exists>m'. mem_create_dir_all p m = (Inr (), m')"
proof -
  have "is_dir m (intercal [])" using mem_goodD(3) [OF assms(1)] by simp
  from create_dirs_total [of "[]" "path_components p", OF _ _ assms(1) this] path_plain [OF assms(2)] assms(3)
  obtain cur m' where "io_fold create_dir_step (path_components p) (intercal []) m = (Inr cur, m')" by auto
  then show ?thesis by (simp add: mem_create_dir_all_def path_root_def)
qed

lemma mem_remove_view:
  assumes "mem_good m" and "mem_files m p = Some f"
  shows "\<exists>m'. mem_remove_file p m = (Inr (), m') \<and> mem_good m' \<and> mem_files m' = (mem_files m)(p := None) \<and> is_dir m' = is_dir m
    \<and> (\<forall>k q. mem_stands m k q \<longrightarrow> q \<noteq> p \<longrightarrow> mem_stands m' k q)"
proof -
  from assms(2) obtain a where e: "get_entry m p = Some (EFile a)" by (rule mem_files_SomeE)
  let ?m = "m\<lparr>mi_entries := remove_entry p (mi_entries m)\<rparr>"
  have "p \<noteq> []" using e mem_goodD(3) [OF assms(1)] by (auto simp: is_dir_def)
  then have "mem_good ?m"
    by (intro entries_view [OF assms(1) refl]) (use mem_goodD(3) [OF assms(1)] in \<open>auto simp: is_dir_def set_remove_entry split: if_splits\<close>)
  moreover have "mem_remove_file p m = (Inr (), ?m)" using e by (simp add: mem_remove_file_def)
  ultimately show ?thesis
    using e by (auto simp: is_dir_def mem_files_def mem_stands_def fun_eq_iff split: option.splits entry.splits)
qed

lemma mem_crash_view:
  assumes "mem_good m"
  shows "mem_good (simulate_power_loss m) \<and> is_dir (simulate_power_loss m) = is_dir m
    \<and> mem_files (simulate_power_loss m) = (\<lambda>p. map_option (\<lambda>f. (snd f, snd f)) (mem_files m p))"
proof -
  let ?m = "simulate_power_loss m"
  have "\<forall>a \<in> set (file_addrs (mi_entries m)). a < length (mi_heap m)"
    using mem_goodD(4) [OF assms] by (auto simp: set_file_addrs)
  from power_loss_heap [OF this] have es: "mi_entries ?m = mi_entries m" "length (mi_heap ?m) = length (mi_heap m)"
    and sh: "\<And>b. shared ?m b = (if b \<in> set (file_addrs (mi_entries m)) then (shared m b)\<lparr>fd_live := fd_durable (shared m b)\<rparr> else shared m b)"
    unfolding simulate_power_loss_def Let_def by auto
  have ge: "get_entry ?m = get_entry m" by (rule ext) (simp only: get_entry_def es)
  have "a \<in> set (file_addrs (mi_entries m))" if "get_entry m p = Some (EFile a)" for p a
    using that map_of_SomeD [of "mi_entries m" p "EFile a"] by (auto simp: set_file_addrs)
  then have "mem_files ?m p = map_option (\<lambda>f. (snd f, snd f)) (mem_files m p)" for p
    by (auto simp: mem_files_def ge sh split: option.splits entry.splits)
  moreover have "is_dir ?m = is_dir m" by (simp add: fun_eq_iff is_dir_def ge)
  moreover have "mem_good ?m" using assms es ge unfolding mem_good_def is_dir_def by simp
  ultimately show ?thesis by blast
qed

lemma overwrite_grown:
  "overwrite l buf n = (let l' = (if length l < n + length buf then l @ replicate (n + length buf - length l) 0 else l) in
     take n l' @ buf @ drop (n + length buf) l')"
  by (auto simp: overwrite_def Let_def not_less)

interpretation mem: storage_contract memory_storage mem_files is_dir mem_stands mf_writable mem_good simulate_power_loss
proof
  fix m p h f buf off len n mode m' q
  show "mem_good m \<Longrightarrow> st_metadata memory_storage p m =
      (Inr (case mem_files m p of
              Some f \<Rightarrow> Some \<lparr>fm_len = u64_of (length (fst f)), fm_kind = EntryFile\<rparr>
            | None \<Rightarrow> if is_dir m p then Some \<lparr>fm_len = 0, fm_kind = EntryDirectory\<rparr> else None), m)"
    by (auto simp: memory_storage_def mem_metadata_def mem_files_def is_dir_def split: option.splits entry.splits)
  show "mem_good m \<Longrightarrow> is_dir m p \<Longrightarrow> mem_files m p = None"
    by (simp add: is_dir_def mem_files_def)
  show "mem_files m p = Some f \<Longrightarrow> mode \<noteq> OpenCreateNew \<Longrightarrow>
      \<exists>h. st_open_file memory_storage p mode m = (Inr h, m) \<and> mem_stands m h p \<and> mf_writable h = is_writable mode"
    using mem_open_existing by (simp add: memory_storage_def)
  show "mem_files m p = None \<Longrightarrow> \<not> is_dir m p \<Longrightarrow> \<not> is_writable mode \<or> mode = OpenReadWrite \<Longrightarrow>
      st_open_file memory_storage p mode m = (Inl (StorageErr (StorageNotFound p)), m)"
    using mem_files_NoneI [of m p] by (auto simp: memory_storage_def mem_open_file_def is_writable_def mem_not_found_def)
  show "mem_good m \<Longrightarrow> mem_files m p = None \<Longrightarrow> \<not> is_dir m p \<Longrightarrow> is_dir m (parent_of p) \<Longrightarrow>
      mode = OpenCreate \<or> mode = OpenCreateNew \<Longrightarrow>
      \<exists>h s'. st_open_file memory_storage p mode m = (Inr h, s') \<and> mem_good s' \<and> mem_files s' = (mem_files m)(p \<mapsto> ([], []))
        \<and> is_dir s' = is_dir m \<and> mem_stands s' h p \<and> mf_writable h \<and> (\<forall>k q. mem_stands m k q \<longrightarrow> mem_stands s' k q)"
    using mem_open_create by (simp add: memory_storage_def)
  show "is_dir m p \<Longrightarrow> \<exists>e. st_open_file memory_storage p mode m = (Inl e, m)"
    by (simp add: memory_storage_def mem_open_file_def)
  show "mem_files m p = None \<Longrightarrow> \<not> is_dir m p \<Longrightarrow> \<not> is_dir m (parent_of p) \<Longrightarrow>
      \<exists>e. st_open_file memory_storage p mode m = (Inl e, m)"
    using mem_files_NoneI [of m p]
    by (auto simp: memory_storage_def mem_open_file_def require_parent_dir_def parent_of_def Let_def split: option.splits)
  show "mem_good m \<Longrightarrow> st_create_dir_all memory_storage p m = (Inr (), m') \<Longrightarrow> path_parse p = Inr p \<Longrightarrow>
      mem_good m' \<and> mem_files m' = mem_files m \<and> is_dir m' p \<and> (\<forall>q. is_dir m q \<longrightarrow> is_dir m' q)
        \<and> (\<forall>k q. mem_stands m k q \<longrightarrow> mem_stands m' k q)"
    using mem_create_dirs by (simp add: memory_storage_def)
  show "mem_good m \<Longrightarrow> st_create_dir_all memory_storage p m = (Inr (), m') \<Longrightarrow> path_parse p = Inr p \<Longrightarrow> is_dir m' q \<Longrightarrow>
      is_dir m q \<or> (\<exists>n. q = intercal (take n (path_components p)))"
    using mem_create_dirs_new by (simp add: memory_storage_def)
  show "mem_good m \<Longrightarrow> path_parse p = Inr p \<Longrightarrow> (\<forall>n. mem_files m (intercal (take n (path_components p))) = None) \<Longrightarrow>
      \<exists>s'. st_create_dir_all memory_storage p m = (Inr (), s')"
    using mem_create_dirs_total by (simp add: memory_storage_def)
  show "is_dir m p \<Longrightarrow> \<exists>es. st_list_dir memory_storage p m = (Inr es, m)"
    by (simp add: memory_storage_def mem_list_dir_def)
  show "mem_good m \<Longrightarrow> mem_files m p = Some f \<Longrightarrow>
      \<exists>s'. st_remove_file memory_storage p m = (Inr (), s') \<and> mem_good s' \<and> mem_files s' = (mem_files m)(p := None)
        \<and> is_dir s' = is_dir m \<and> (\<forall>k q. mem_stands m k q \<longrightarrow> q \<noteq> p \<longrightarrow> mem_stands s' k q)"
    using mem_remove_view by (simp add: memory_storage_def)
  show "mem_stands m h p \<Longrightarrow> mem_files m p = Some f \<Longrightarrow>
      f_read_at memory_storage h n off m = (Inr (take n (drop (unat off) (fst f))), m)"
    using stands_files [of m h p f] by (auto simp: memory_storage_def mem_read_at_def Let_def min_def)
  show "mem_stands m h p \<Longrightarrow> mem_files m p = Some f \<Longrightarrow> f_len memory_storage h m = (Inr (u64_of (length (fst f))), m)"
    using stands_files [of m h p f] by (simp add: memory_storage_def mem_len_def)
  show "mem_good m \<Longrightarrow> mem_stands m h p \<Longrightarrow> mf_writable h \<Longrightarrow> mem_files m p = Some f \<Longrightarrow> unat off + length buf < 2 ^ 64 \<Longrightarrow>
      \<exists>s'. f_write_at memory_storage h buf off m = (Inr (), s') \<and> mem_good s' \<and> mem_stands s' = mem_stands m
        \<and> is_dir s' = is_dir m \<and> mem_files s' = (mem_files m)(p \<mapsto> (overwrite (fst f) buf (unat off), snd f))"
    using stands_files [of m h p f] put_shared_view [of m h p]
    by (simp add: memory_storage_def mem_write_at_def require_writable_def overwrite_grown Let_def)
  show "mem_good m \<Longrightarrow> mem_stands m h p \<Longrightarrow> mf_writable h \<Longrightarrow> mem_files m p = Some f \<Longrightarrow>
      \<exists>s'. f_append memory_storage h buf m = (Inr (u64_of (length (fst f))), s') \<and> mem_good s' \<and> mem_stands s' = mem_stands m
        \<and> is_dir s' = is_dir m \<and> mem_files s' = (mem_files m)(p \<mapsto> (fst f @ buf, snd f))"
    using stands_files [of m h p f] put_shared_view [of m h p]
    by (simp add: memory_storage_def mem_append_def require_writable_def Let_def)
  show "mem_good m \<Longrightarrow> mem_stands m h p \<Longrightarrow> mf_writable h \<Longrightarrow> mem_files m p = Some f \<Longrightarrow>
      \<exists>s'. f_truncate memory_storage h len m = (Inr (), s') \<and> mem_good s' \<and> mem_stands s' = mem_stands m
        \<and> is_dir s' = is_dir m \<and> mem_files s' = (mem_files m)(p \<mapsto> (resize (fst f) (unat len), snd f))"
    using stands_files [of m h p f] put_shared_view [of m h p]
    by (simp add: memory_storage_def mem_truncate_def require_writable_def Let_def)
  show "mem_good m \<Longrightarrow> mem_stands m h p \<Longrightarrow> mf_writable h \<Longrightarrow> mem_files m p = Some f \<Longrightarrow>
      \<exists>s'. f_sync_data memory_storage h m = (Inr (), s') \<and> mem_good s' \<and> mem_stands s' = mem_stands m
        \<and> is_dir s' = is_dir m \<and> mem_files s' = (mem_files m)(p \<mapsto> (fst f, fst f))"
    using stands_files [of m h p f] put_shared_view [of m h p]
    by (simp add: memory_storage_def mem_sync_data_def require_writable_def Let_def)
  show "mem_good m \<Longrightarrow> mem_good (simulate_power_loss m) \<and> is_dir (simulate_power_loss m) = is_dir m
      \<and> mem_files (simulate_power_loss m) = (\<lambda>p. map_option (\<lambda>f. (snd f, snd f)) (mem_files m p))"
    by (rule mem_crash_view)
qed

end
