(* ===== verification/Segment_Vectors.thy ===== *)
theory Segment_Vectors
  imports Block
begin

text \<open>
  The \<open>.vec\<close> file of a segment (\<open>format/src/segment.rs\<close>): \<open>VectorBlockWriter\<close> appends rows
  of a fixed stride after a header padded to 64 bytes, \<open>VectorBlock\<close> opens the file and
  addresses rows by index.  Components (\<open>f32\<close>) are bit patterns.  Shown: every row pushed is
  read back by its index, bytes and components alike, and no other index yields a row.
\<close>

definition VECTOR_DATA_OFFSET :: nat where
  "VECTOR_DATA_OFFSET = 64"

record vector_block_writer =
  vw_dimension :: u32
  vw_stride :: nat
  vw_rows :: u32
  vw_data :: bytes

definition vw_new :: "u32 \<Rightarrow> nat \<Rightarrow> vector_block_writer fresult" where
  "vw_new dimension stride =
     (if dimension = 0 then Inl (Malformed 0 (ZeroNotAllowed ''dimension''))
      else if stride = 0 then Inl (Malformed 0 (ZeroNotAllowed ''stride''))
      else Inr \<lparr>vw_dimension = dimension, vw_stride = stride, vw_rows = 0, vw_data = []\<rparr>)"

definition vw_push_row :: "bytes \<Rightarrow> vector_block_writer \<Rightarrow> (u32 \<times> vector_block_writer) fresult" where
  "vw_push_row row w =
     (if length row \<noteq> vw_stride w
      then Inl (Malformed (u64_of (length (vw_data w))) (Inconsistent ''row stride''))
      else Inr (vw_rows w,
        w\<lparr>vw_data := vw_data w @ row,
          vw_rows := (if vw_rows w = - 1 then - 1 else vw_rows w + 1)\<rparr>))"

definition vw_push_f32 :: "u32 list \<Rightarrow> vector_block_writer \<Rightarrow> (u32 \<times> vector_block_writer) fresult" where
  "vw_push_f32 values w =
     (if length values \<noteq> unat (vw_dimension w)
      then Inl (Malformed (u64_of (length (vw_data w))) (Inconsistent ''dimension''))
      else if list_ex (\<lambda>v. \<not> f32_is_finite v) values
      then Inl (Malformed (u64_of (length (takeWhile f32_is_finite values))) NonFiniteFloat)
      else vw_push_row (concat (map (to_le 4) values)) w)"

definition vw_finish :: "vector_block_writer \<Rightarrow> bytes" where
  "vw_finish self =
     (let payload_len = (VECTOR_DATA_OFFSET - unat HEADER_LEN) + length (vw_data self);
          w = header_write_to (header_new Vectors (u64_of payload_len)) writer_new;
          w = writer_align_to w VECTOR_DATA_OFFSET;
          w = writer_raw w (vw_data self);
          crc = crc32c (drop (unat HEADER_LEN) w)
      in writer_u32 w crc)"

record vector_block =
  vb_data :: bytes
  vb_stride :: nat
  vb_rows :: u32

definition vb_open :: "bytes \<Rightarrow> nat \<Rightarrow> vector_block fresult" where
  "vb_open bs stride =
     (if stride = 0 then Inl (Malformed 0 (ZeroNotAllowed ''stride''))
      else
        rbind (open_block bs Vectors) (\<lambda>payload.
        let pad = VECTOR_DATA_OFFSET - unat HEADER_LEN in
        rbind (ok_or (slice payload pad (length payload))
            (Truncated (ucast HEADER_LEN) (u64_of pad) (u64_of (length payload)))) (\<lambda>data.
        if length data mod stride \<noteq> 0
        then Inl (Malformed (u64_of VECTOR_DATA_OFFSET) (Inconsistent ''vector data length''))
        else if length data div stride \<ge> 2 ^ 32
        then Inl (Malformed 0 (Inconsistent ''row count''))
        else Inr \<lparr>vb_data = data, vb_stride = stride, vb_rows = of_nat (length data div stride)\<rparr>)))"

definition vb_verify :: "bytes \<Rightarrow> unit fresult" where
  "vb_verify bs = verify_block bs Vectors"

definition vb_row :: "vector_block \<Rightarrow> u32 \<Rightarrow> bytes option" where
  "vb_row b index =
     (let start = unat index * vb_stride b in slice (vb_data b) start (start + vb_stride b))"

text \<open>\<open>chunks_exact(4)\<close> mapped through \<open>f32::from_le_bytes\<close>.\<close>

fun f32s_of :: "bytes \<Rightarrow> u32 list" where
  "f32s_of (a # b # c # d # rest) = from_le [a, b, c, d] # f32s_of rest"
| "f32s_of _ = []"

definition vb_row_f32 :: "vector_block \<Rightarrow> u32 \<Rightarrow> u32 list option" where
  "vb_row_f32 b index = map_option f32s_of (vb_row b index)"

text \<open>A segment's rows, pushed in order.\<close>

definition vw_push_all :: "u32 list list \<Rightarrow> vector_block_writer \<Rightarrow> vector_block_writer fresult" where
  "vw_push_all = try_fold (\<lambda>row w. rbind (vw_push_f32 row w) (\<lambda>(_, w'). Inr w'))"

subsection \<open>Lemmas\<close>

lemma f32s_of_to_le [simp]: "f32s_of (concat (map (to_le 4) vs)) = vs"
proof (induction vs)
  case Nil
  then show ?case by simp
next
  case (Cons v vs)
  have four: "length bs = 4 \<Longrightarrow> f32s_of (bs @ rest) = from_le bs # f32s_of rest" for bs rest
    by (cases bs rule: f32s_of.cases) auto
  show ?case
    using Cons four [of "to_le 4 v"] from_le_to_le [of 4 v] by (simp del: to_le.simps)
qed

lemma length_concat_f32: "length (concat (map (to_le 4) vs)) = 4 * length vs"
  by (induction vs) auto

lemma slice_concat:
  assumes "list_all (\<lambda>r. length r = n) rs"
  shows "slice (concat rs) (i * n) (i * n + n) = (if i < length rs then Some (rs ! i) else if n = 0 then Some [] else None)"
  using assms
proof (induction rs arbitrary: i)
  case Nil
  then show ?case by (auto simp: slice_def)
next
  case (Cons r rs)
  then show ?case
  proof (cases i)
    case 0
    with Cons.prems show ?thesis by (simp add: slice_def)
  next
    case (Suc j)
    with Cons.prems have "slice (concat (r # rs)) (i * n) (i * n + n) = slice (concat rs) (j * n) (j * n + n)"
      by (simp add: slice_def)
    with Cons Suc show ?thesis by simp
  qed
qed

lemma length_concat_rows: "list_all (\<lambda>r. length r = n) rs \<Longrightarrow> length (concat rs) = length rs * n"
  by (induction rs) auto

lemma vw_finish_eq:
  "vw_finish w = encode_block Vectors (replicate 32 0 @ vw_data w)"
proof -
  let ?h = "header_encode (header_new Vectors (u64_of (32 + length (vw_data w))))"
  have "length ?h = 32" by simp
  then have "writer_align_to ?h 64 = ?h @ replicate 32 0"
    by (simp add: writer_align_to_def writer_reserved_def)
  then show ?thesis
    by (simp add: vw_finish_def encode_block_eq header_write_to_def writer_new_def writer_raw_def
        writer_u32_def VECTOR_DATA_OFFSET_def HEADER_LEN_def Let_def)
qed

lemma vb_open_finish:
  assumes "0 < stride" "length (vw_data w) mod stride = 0" "length (vw_data w) div stride < 2 ^ 32"
    and "length (vw_data w) + 68 < 2 ^ 64"
  shows "vb_open (vw_finish w) stride =
    Inr \<lparr>vb_data = vw_data w, vb_stride = stride, vb_rows = of_nat (length (vw_data w) div stride)\<rparr>"
proof -
  have "open_block (vw_finish w) Vectors = Inr (replicate 32 0 @ vw_data w)"
    using open_block_encode [of "replicate 32 0 @ vw_data w" Vectors "[]"] assms(4) by (simp add: vw_finish_eq)
  with assms(1,2,3) show ?thesis
    by (simp add: vb_open_def VECTOR_DATA_OFFSET_def HEADER_LEN_def slice_def)
qed

lemma vw_push_f32_Inr:
  "vw_push_f32 row w = Inr (i, w') \<longleftrightarrow>
    length row = unat (vw_dimension w) \<and> list_all f32_is_finite row \<and> 4 * length row = vw_stride w
    \<and> i = vw_rows w \<and> w' = w\<lparr>vw_data := vw_data w @ concat (map (to_le 4) row),
          vw_rows := (if vw_rows w = - 1 then - 1 else vw_rows w + 1)\<rparr>"
  by (auto simp: vw_push_f32_def vw_push_row_def length_concat_f32 list_ex_iff list_all_iff split: if_splits)

lemma vw_push_all_Inr:
  "vw_push_all rows w = Inr w' \<Longrightarrow>
     list_all (\<lambda>r. 4 * length r = vw_stride w \<and> list_all f32_is_finite r) rows
     \<and> vw_data w' = vw_data w @ concat (map (\<lambda>r. concat (map (to_le 4) r)) rows)"
proof (induction rows arbitrary: w)
  case Nil
  then show ?case by (simp add: vw_push_all_def)
next
  case (Cons r rows)
  from Cons.prems obtain i w1 where p: "vw_push_f32 r w = Inr (i, w1)" and rest: "vw_push_all rows w1 = Inr w'"
    by (auto simp: vw_push_all_def rbind_assoc elim!: rbind_InrE)
  from Cons.IH [OF rest] p show ?case by (auto simp: vw_push_f32_Inr)
qed

subsection \<open>Properties\<close>

text \<open>
  Property C35.  Vectors round trip through the \<open>.vec\<close> file: when a writer accepts the rows,
  the finished file opens, holds as many rows, and row \<open>i\<close> is the \<open>i\<close>-th vector pushed, while
  every other index is refused.  (The bounds are those of a file that fits a \<open>u32\<close> row count
  and a 64-bit length.)
\<close>

theorem vector_block_roundtrip:
  assumes "vw_new dim stride = Inr w0" and "vw_push_all rows w0 = Inr w"
    and "length rows < 2 ^ 32" and "length rows * stride + 68 < 2 ^ 64"
  shows "\<exists>b. vb_open (vw_finish w) stride = Inr b \<and> unat (vb_rows b) = length rows
     \<and> (\<forall>i. vb_row_f32 b i = (if unat i < length rows then Some (rows ! unat i) else None))"
proof -
  let ?rs = "map (\<lambda>r. concat (map (to_le 4) r)) rows"
  from assms(1) have s: "0 < stride" "vw_stride w0 = stride" "vw_data w0 = []"
    by (auto simp: vw_new_def split: if_splits)
  from vw_push_all_Inr [OF assms(2)] s have d: "vw_data w = concat ?rs"
    and all: "list_all (\<lambda>r. length r = stride) ?rs"
    by (auto simp: list_all_iff length_concat_f32)
  from all have len: "length (vw_data w) = length rows * stride"
    unfolding d by (simp add: length_concat_rows)
  let ?b = "\<lparr>vb_data = vw_data w, vb_stride = stride, vb_rows = of_nat (length rows)\<rparr>"
  have "vb_open (vw_finish w) stride = Inr ?b"
    using vb_open_finish [of stride w] s(1) assms(3,4) by (simp add: len)
  moreover have "unat (vb_rows ?b) = length rows" using assms(3) by (simp add: unat_of_nat)
  moreover have "vb_row_f32 ?b i = (if unat i < length rows then Some (rows ! unat i) else None)" for i
    using slice_concat [OF all, of "unat i"] s(1) by (simp add: vb_row_f32_def vb_row_def Let_def d)
  ultimately show ?thesis by blast
qed

theorem vector_block_roundtrip_witness:
  "\<exists>w0 w b. vw_new 2 8 = Inr w0 \<and> vw_push_all [[0x3F800000, 0], [0, 0x40000000]] w0 = Inr w
     \<and> vb_open (vw_finish w) 8 = Inr b \<and> vb_row_f32 b 1 = Some [0, 0x40000000]"
proof -
  have n: "vw_new 2 8 = Inr \<lparr>vw_dimension = 2, vw_stride = 8, vw_rows = 0, vw_data = []\<rparr>"
    by (simp add: vw_new_def)
  have "is_ok (vw_push_all [[0x3F800000, 0], [0, 0x40000000]]
      \<lparr>vw_dimension = 2, vw_stride = 8, vw_rows = 0, vw_data = []\<rparr>)"
    by (simp add: vw_push_all_def vw_push_f32_def vw_push_row_def f32_is_finite_def length_concat_f32 del: to_le.simps)
  then obtain w where w: "vw_push_all [[0x3F800000, 0], [0, 0x40000000]]
      \<lparr>vw_dimension = 2, vw_stride = 8, vw_rows = 0, vw_data = []\<rparr> = Inr w" by (rule is_okE)
  from vector_block_roundtrip [OF n w] obtain b where b: "vb_open (vw_finish w) 8 = Inr b"
    and r: "vb_row_f32 b 1 = Some ([[0x3F800000, 0], [0, 0x40000000]] ! unat (1 :: u32))" by auto
  show ?thesis
    by (intro exI conjI) (rule n, rule w, rule b, use r in simp)
qed

end
