(* ===== verification/Segment_Directory.thy ===== *)
theory Segment_Directory
  imports Segment_Vectors
begin

text \<open>
  The \<open>.dir\<close> file of a segment (\<open>format/src/segment.rs\<close>): a table of fixed-size row entries
  followed by the heap of ids.  Shown: rows pushed are found again by index, entry and id
  alike; a directory that opens answers \<open>id\<close> for every row it has; and the 32-bit heap
  offset wraps for large row counts, producing a file that does not open.
\<close>

definition DIR_ENTRY_LEN :: nat where
  "DIR_ENTRY_LEN = 24"

definition DIR_PREFIX_LEN :: nat where
  "DIR_PREFIX_LEN = 16"

record row_entry =
  re_meta_offset :: u64
  re_meta_len :: u32
  re_inv_norm :: u32
  re_id_offset :: u32
  re_id_len :: u16
  re_flags :: u16

record directory_writer =
  dw_entries :: "row_entry list"
  dw_heap :: bytes

definition dw_new :: directory_writer where
  "dw_new = \<lparr>dw_entries = [], dw_heap = []\<rparr>"

text \<open>
  \<open>push\<close> extends the heap before it checks the row count, so the state is returned on the
  error path too.
\<close>

definition dw_push ::
  "bytes \<Rightarrow> u64 \<Rightarrow> u32 \<Rightarrow> u32 \<Rightarrow> directory_writer \<Rightarrow> directory_writer \<times> u32 fresult" where
  "dw_push idb meta_offset meta_len inv_norm w =
     (if length idb \<ge> 2 ^ 16
      then (w, Inl (Malformed (u64_of (length (dw_heap w))) (Inconsistent ''id length'')))
      else if length (dw_heap w) \<ge> 2 ^ 32
      then (w, Inl (Malformed (u64_of (length (dw_heap w))) (Inconsistent ''id heap size'')))
      else if \<not> f32_is_finite inv_norm then (w, Inl (Malformed 0 NonFiniteFloat))
      else
        let id_offset = of_nat (length (dw_heap w));
            w = w\<lparr>dw_heap := dw_heap w @ idb\<rparr>
        in if length (dw_entries w) \<ge> 2 ^ 32
           then (w, Inl (Malformed 0 (Inconsistent ''row count'')))
           else (w\<lparr>dw_entries := dw_entries w @
                   [\<lparr>re_meta_offset = meta_offset, re_meta_len = meta_len, re_inv_norm = inv_norm,
                     re_id_offset = id_offset, re_id_len = of_nat (length idb), re_flags = 0\<rparr>]\<rparr>,
                 Inr (of_nat (length (dw_entries w)))))"

definition write_row_entry :: "row_entry \<Rightarrow> writer \<Rightarrow> writer" where
  "write_row_entry e w =
     writer_u16 (writer_u16 (writer_u32 (writer_f32 (writer_u32 (writer_u64 w
       (re_meta_offset e)) (re_meta_len e)) (re_inv_norm e)) (re_id_offset e)) (re_id_len e)) (re_flags e)"

definition dw_finish :: "directory_writer \<Rightarrow> bytes" where
  "dw_finish self =
     (let row_count = of_nat (length (dw_entries self));
          heap_offset = of_nat (DIR_PREFIX_LEN + length (dw_entries self) * DIR_ENTRY_LEN);
          w = writer_reserved (writer_u32 (writer_u32 writer_new row_count) heap_offset) 8;
          w = fold write_row_entry (dw_entries self) w;
          w = writer_raw w (dw_heap self)
      in encode_block Directory w)"

record directory =
  d_entries :: bytes
  d_heap :: bytes
  d_rows :: u32

definition read_row_entry :: "row_entry decoder" where
  "read_row_entry r =
     rbind (reader_u64 r) (\<lambda>(meta_offset, r).
     rbind (reader_u32 r) (\<lambda>(meta_len, r).
     rbind (reader_f32 r) (\<lambda>(inv_norm, r).
     rbind (reader_u32 r) (\<lambda>(id_offset, r).
     rbind (reader_u16 r) (\<lambda>(id_len, r).
     rbind (reader_u16 r) (\<lambda>(flags, r).
       Inr (\<lparr>re_meta_offset = meta_offset, re_meta_len = meta_len, re_inv_norm = inv_norm,
              re_id_offset = id_offset, re_id_len = id_len, re_flags = flags\<rparr>, r)))))))"

definition dir_entry :: "directory \<Rightarrow> u32 \<Rightarrow> row_entry option" where
  "dir_entry d index =
     (let start = unat index * DIR_ENTRY_LEN in
      case slice (d_entries d) start (start + DIR_ENTRY_LEN) of
        None \<Rightarrow> None
      | Some sl \<Rightarrow> (case read_row_entry (reader_new sl) of Inl _ \<Rightarrow> None | Inr (e, _) \<Rightarrow> Some e))"

definition dir_id :: "directory \<Rightarrow> u32 \<Rightarrow> bytes option" where
  "dir_id d index =
     (case dir_entry d index of
        None \<Rightarrow> None
      | Some entry \<Rightarrow>
          let start = unat (re_id_offset entry)
          in slice (d_heap d) start (start + unat (re_id_len entry)))"

definition dir_check_row :: "directory \<Rightarrow> nat \<Rightarrow> unit fresult" where
  "dir_check_row d i =
     rbind (ok_or (dir_entry d (of_nat i)) (Malformed 0 (Inconsistent ''entry table''))) (\<lambda>entry.
     let end = unat (re_id_offset entry) + unat (re_id_len entry) in
     if end > length (d_heap d)
     then Inl (LengthExceedsInput (u64_of (DIR_PREFIX_LEN + i * DIR_ENTRY_LEN)) (u64_of end)
                 (u64_of (length (d_heap d))))
     else Inr ())"

definition dir_open :: "bytes \<Rightarrow> directory fresult" where
  "dir_open bs =
     rbind (decode_block bs Directory) (\<lambda>payload.
     let r = reader_new payload in
     rbind (reader_u32 r) (\<lambda>(rows, r).
     rbind (reader_u32 r) (\<lambda>(heap_offset, r).
     rbind (reader_reserved 8 r) (\<lambda>(_, r).
     let expected_heap = DIR_PREFIX_LEN + unat rows * DIR_ENTRY_LEN in
     if unat heap_offset \<noteq> expected_heap then Inl (Malformed 4 (Inconsistent ''heap_offset''))
     else
     rbind (ok_or (slice payload DIR_PREFIX_LEN expected_heap)
         (LengthExceedsInput 0 (u64_of expected_heap) (u64_of (length payload)))) (\<lambda>entries.
     rbind (ok_or (slice payload expected_heap (length payload))
         (Truncated (u64_of expected_heap) (u64_of expected_heap) (u64_of (length payload)))) (\<lambda>heap.
     let dir = \<lparr>d_entries = entries, d_heap = heap, d_rows = rows\<rparr> in
     rbind (try_fold (\<lambda>i _. dir_check_row dir i) [0..<unat rows] ()) (\<lambda>_.
       Inr dir)))))))"

subsection \<open>One entry\<close>

definition row_entry_bytes :: "row_entry \<Rightarrow> bytes" where
  "row_entry_bytes e = to_le 8 (re_meta_offset e) @ to_le 4 (re_meta_len e) @ to_le 4 (re_inv_norm e)
     @ to_le 4 (re_id_offset e) @ to_le 2 (re_id_len e) @ to_le 2 (re_flags e)"

lemma write_row_entry_eq [codec_simps]: "write_row_entry e w = w @ row_entry_bytes e"
  by (simp add: write_row_entry_def row_entry_bytes_def codec_simps del: to_le.simps)

lemma length_row_entry [simp]: "length (row_entry_bytes e) = 24"
  by (simp add: row_entry_bytes_def)

interpretation rowc: codec row_entry_bytes read_row_entry "\<lambda>e. f32_is_finite (re_inv_norm e)"
proof
  fix r rest and e :: row_entry
  assume ok: "f32_is_finite (re_inv_norm e)" and u: "unread r (row_entry_bytes e @ rest)"
  have u': "unread r (to_le 8 (re_meta_offset e) @ to_le 4 (re_meta_len e) @ to_le 4 (re_inv_norm e)
     @ to_le 4 (re_id_offset e) @ to_le 2 (re_id_len e) @ to_le 2 (re_flags e) @ rest)"
    using u by (simp add: row_entry_bytes_def)
  show "read_row_entry r = Inr (e, advance (length (row_entry_bytes e)) r)"
    unfolding read_row_entry_def
    by (rule codec_steps, rule u', rule TrueI, rule codec_steps, assumption, rule TrueI,
        rule f32c.rbind_dec, assumption, rule ok, (rule codec_steps, assumption, rule TrueI)+) simp
next
  fix r r' xs and e :: row_entry
  assume "read_row_entry r = Inr (e, r')" and "unread r xs"
  then show "f32_is_finite (re_inv_norm e) \<and> r' = advance (length (row_entry_bytes e)) r
      \<and> (\<exists>rest. xs = row_entry_bytes e @ rest)"
    unfolding read_row_entry_def
    apply -
    apply (erule (1) u64c.rbind_decE)
    apply (erule (1) u32c.rbind_decE)
    apply (erule (1) f32c.rbind_decE)
    apply (erule (1) u32c.rbind_decE)
    apply (erule (1) u16c.rbind_decE)+
    apply (auto simp: row_entry_bytes_def simp del: to_le.simps)
    done
qed

lemma read_row_entry_exact:
  "f32_is_finite (re_inv_norm e) \<Longrightarrow> \<exists>r. read_row_entry (reader_new (row_entry_bytes e)) = Inr (e, r)"
  using rowc.dec_enc [of e "reader_new (row_entry_bytes e)" "[]"] by simp

lemma dir_entry_table:
  assumes "d_entries d = concat (map row_entry_bytes es)" and "list_all (\<lambda>e. f32_is_finite (re_inv_norm e)) es"
  shows "dir_entry d i = (if unat i < length es then Some (es ! unat i) else None)"
proof -
  have "list_all (\<lambda>r. length r = 24) (map row_entry_bytes es)" by (simp add: list_all_iff)
  from slice_concat [OF this, of "unat i"] show ?thesis
    using assms read_row_entry_exact [of "es ! unat i"]
    by (auto simp: dir_entry_def Let_def DIR_ENTRY_LEN_def list_all_length)
qed

subsection \<open>The file\<close>

definition dir_payload :: "directory_writer \<Rightarrow> bytes" where
  "dir_payload w = to_le 4 (of_nat (length (dw_entries w)) :: u32)
     @ to_le 4 (of_nat (16 + length (dw_entries w) * 24) :: u32)
     @ replicate 8 0 @ concat (map row_entry_bytes (dw_entries w)) @ dw_heap w"

lemma length_entries_table: "length (concat (map row_entry_bytes es)) = 24 * length es"
  by (induction es) auto

lemma length_dir_payload: "length (dir_payload w) = 16 + 24 * length (dw_entries w) + length (dw_heap w)"
  by (simp add: dir_payload_def length_entries_table)

lemma dw_finish_eq: "dw_finish w = encode_block Directory (dir_payload w)"
proof -
  have "fold write_row_entry es w = w @ concat (map row_entry_bytes es)" for es w
    by (induction es arbitrary: w) (simp_all add: codec_simps)
  then show ?thesis
    by (simp add: dw_finish_def dir_payload_def Let_def codec_simps DIR_PREFIX_LEN_def DIR_ENTRY_LEN_def del: to_le.simps)
qed

definition dw_ok :: "directory_writer \<Rightarrow> bool" where
  "dw_ok w \<longleftrightarrow> list_all (\<lambda>e. f32_is_finite (re_inv_norm e)
     \<and> unat (re_id_offset e) + unat (re_id_len e) \<le> length (dw_heap w)) (dw_entries w)"

lemma try_fold_unit: "try_fold (\<lambda>i _. f i) xs () = Inr () \<longleftrightarrow> (\<forall>i \<in> set xs. f i = Inr ())"
  by (induction xs) (auto simp: rbind_eq_Inr_iff)

lemma dir_open_finish:
  assumes "dw_ok w" and "16 + 24 * length (dw_entries w) < 2 ^ 32" and "length (dir_payload w) + 36 < 2 ^ 64"
  shows "dir_open (dw_finish w) = Inr \<lparr>d_entries = concat (map row_entry_bytes (dw_entries w)),
     d_heap = dw_heap w, d_rows = of_nat (length (dw_entries w))\<rparr>"
proof -
  let ?n = "length (dw_entries w)" and ?pl = "dir_payload w"
  let ?t = "concat (map row_entry_bytes (dw_entries w))"
  let ?d = "\<lparr>d_entries = ?t, d_heap = dw_heap w, d_rows = of_nat ?n\<rparr>"
  have rows: "unat (of_nat ?n :: u32) = ?n" and off: "unat (of_nat (16 + ?n * 24) :: u32) = 16 + ?n * 24"
    using assms(2) by (simp_all only: unat_of_nat) simp_all
  have b: "decode_block (dw_finish w) Directory = Inr ?pl"
    using decode_block_encode [OF assms(3), of Directory "[]"] by (simp add: dw_finish_eq)
  have u: "unread (reader_new ?pl) (to_le 4 (of_nat ?n :: u32) @ to_le 4 (of_nat (16 + ?n * 24) :: u32)
      @ replicate 8 0 @ ?t @ dw_heap w)"
    by (simp only: dir_payload_def unread_new)
  have pl: "?pl = (to_le 4 (of_nat ?n :: u32) @ to_le 4 (of_nat (16 + ?n * 24) :: u32) @ replicate 8 0) @ ?t @ dw_heap w"
    by (simp only: dir_payload_def append.assoc)
  have s1: "slice ?pl 16 (16 + ?n * 24) = Some ?t"
    unfolding pl by (rule slice_append_mid) (simp_all add: length_entries_table)
  have s2: "slice ?pl (16 + ?n * 24) (length ?pl) = Some (dw_heap w)"
    using slice_append_mid [of "take (16 + ?n * 24) ?pl" "16 + ?n * 24" "length ?pl" "dw_heap w" "[]"]
    by (simp add: length_dir_payload) (simp add: pl length_entries_table)
  have chk: "dir_check_row ?d i = Inr ()" if "i < ?n" for i
  proof -
    have "unat (of_nat i :: u32) = i" using that assms(2) by (simp add: unat_of_nat)
    moreover have "list_all (\<lambda>e. f32_is_finite (re_inv_norm e)) (dw_entries w)"
      using assms(1) by (auto simp: dw_ok_def list_all_iff)
    ultimately have "dir_entry ?d (of_nat i) = Some (dw_entries w ! i)"
      using that dir_entry_table [of ?d "dw_entries w" "of_nat i"] by simp
    then show ?thesis using that assms(1) by (auto simp: dir_check_row_def dw_ok_def list_all_length)
  qed
  have loop: "try_fold (\<lambda>i _. dir_check_row ?d i) [0..<?n] () = Inr ()"
    using chk by (simp add: try_fold_unit)
  show ?thesis
    unfolding dir_open_def b rbind_Inr Let_def
    apply (rule codec_steps, rule u, rule TrueI)
    apply (rule codec_steps, assumption, rule TrueI)+
    apply (simp only: rows off DIR_PREFIX_LEN_def DIR_ENTRY_LEN_def s1 s2 ok_or_simps rbind_Inr loop not_True_eq_False simp_thms if_False)
    done
qed

lemma dir_open_checked:
  assumes "dir_open bs = Inr d" and "i < d_rows d"
  shows "\<exists>e. dir_entry d i = Some e \<and> f32_is_finite (re_inv_norm e)
     \<and> unat (re_id_offset e) + unat (re_id_len e) \<le> length (d_heap d)"
proof -
  from assms(1) have "try_fold (\<lambda>i _. dir_check_row d i) [0..<unat (d_rows d)] () = Inr ()"
    by (auto simp: dir_open_def Let_def elim!: rbind_InrE split: if_splits)
  with assms(2) have "dir_check_row d (unat i) = Inr ()" by (auto simp: try_fold_unit word_less_nat_alt)
  then obtain e where e: "dir_entry d i = Some e"
    and le: "unat (re_id_offset e) + unat (re_id_len e) \<le> length (d_heap d)"
    by (auto simp: dir_check_row_def Let_def ok_or_def elim!: rbind_InrE split: option.splits if_splits)
  from e obtain sl r where "read_row_entry (reader_new sl) = Inr (e, r)"
    by (auto simp: dir_entry_def Let_def split: option.splits sum.splits)
  then have "f32_is_finite (re_inv_norm e)" using rowc.dec_sound [of "reader_new sl" e r sl] by simp
  with e le show ?thesis by blast
qed

subsection \<open>Pushing rows\<close>

definition dw_push_all ::
  "(bytes \<times> u64 \<times> u32 \<times> u32) list \<Rightarrow> directory_writer \<Rightarrow> directory_writer fresult" where
  "dw_push_all = try_fold (\<lambda>(idb, mo, ml, n) w.
     case dw_push idb mo ml n w of (w', Inl e) \<Rightarrow> Inl e | (w', Inr _) \<Rightarrow> Inr w')"

definition row_of :: "bytes \<times> u64 \<times> u32 \<times> u32 \<Rightarrow> nat \<Rightarrow> row_entry" where
  "row_of p off = (case p of (idb, mo, ml, n) \<Rightarrow>
     \<lparr>re_meta_offset = mo, re_meta_len = ml, re_inv_norm = n, re_id_offset = of_nat off,
      re_id_len = of_nat (length idb), re_flags = 0\<rparr>)"

fun rows_of :: "nat \<Rightarrow> (bytes \<times> u64 \<times> u32 \<times> u32) list \<Rightarrow> row_entry list" where
  "rows_of off [] = []"
| "rows_of off (p # ps) = row_of p off # rows_of (off + length (fst p)) ps"

lemma dw_push_Inr:
  "dw_push idb mo ml n w = (w', Inr k) \<Longrightarrow> length idb < 2 ^ 16 \<and> length (dw_heap w) < 2 ^ 32 \<and> f32_is_finite n
     \<and> w' = \<lparr>dw_entries = dw_entries w @ [row_of (idb, mo, ml, n) (length (dw_heap w))], dw_heap = dw_heap w @ idb\<rparr>"
  by (auto simp: dw_push_def Let_def row_of_def split: if_splits)

lemma dw_push_all_Inr:
  assumes "dw_push_all ps w = Inr w'" and "dw_ok w"
  shows "dw_entries w' = dw_entries w @ rows_of (length (dw_heap w)) ps \<and> dw_heap w' = dw_heap w @ concat (map fst ps)
    \<and> dw_ok w'"
  using assms
proof (induction ps arbitrary: w)
  case Nil
  then show ?case by (simp add: dw_push_all_def)
next
  case (Cons p ps)
  obtain idb mo ml n where p: "p = (idb, mo, ml, n)" by (cases p)
  from Cons.prems(1) obtain w1 k where push: "dw_push idb mo ml n w = (w1, Inr k)" and rest: "dw_push_all ps w1 = Inr w'"
    by (auto simp: dw_push_all_def p elim!: rbind_InrE split: prod.splits sum.splits)
  note w1 = dw_push_Inr [OF push]
  have "unat (re_id_offset (row_of p (length (dw_heap w)))) + unat (re_id_len (row_of p (length (dw_heap w))))
      = length (dw_heap w) + length idb"
    using w1 by (simp add: row_of_def p unat_of_nat)
  with w1 Cons.prems(2) have "dw_ok w1" by (auto simp: dw_ok_def list_all_iff p row_of_def)
  from Cons.IH [OF rest this] w1 show ?case by (simp add: p)
qed

lemma length_rows_of [simp]: "length (rows_of off ps) = length ps"
  by (induction ps arbitrary: off) auto

lemma nth_rows_of:
  "i < length ps \<Longrightarrow> rows_of off ps ! i = row_of (ps ! i) (off + length (concat (map fst (take i ps))))"
proof (induction ps arbitrary: off i)
  case Nil
  then show ?case by simp
next
  case (Cons p ps)
  then show ?case by (cases i) (simp_all add: ac_simps)
qed

lemma dw_push_all_bounds:
  assumes "dw_push_all ps w = Inr w'" and "i < length ps"
  shows "length (dw_heap w) + length (concat (map fst (take i ps))) < 2 ^ 32 \<and> length (fst (ps ! i)) < 2 ^ 16"
  using assms
proof (induction ps arbitrary: w i)
  case Nil
  then show ?case by simp
next
  case (Cons p ps)
  obtain idb mo ml n where p: "p = (idb, mo, ml, n)" by (cases p)
  from Cons.prems(1) obtain w1 k where push: "dw_push idb mo ml n w = (w1, Inr k)" and rest: "dw_push_all ps w1 = Inr w'"
    by (auto simp: dw_push_all_def p elim!: rbind_InrE split: prod.splits sum.splits)
  note w1 = dw_push_Inr [OF push]
  show ?case
  proof (cases i)
    case 0
    with w1 show ?thesis by (simp add: p)
  next
    case (Suc j)
    with Cons.IH [OF rest, of j] Cons.prems(2) w1 show ?thesis by (simp add: p ac_simps)
  qed
qed

lemma slice_concat_nth:
  "i < length xs \<Longrightarrow> slice (concat xs) (length (concat (take i xs))) (length (concat (take i xs)) + length (xs ! i)) = Some (xs ! i)"
proof -
  assume "i < length xs"
  then have "concat xs = concat (take i xs) @ xs ! i @ concat (drop (Suc i) xs)"
    by (metis concat.simps(2) concat_append id_take_nth_drop)
  then show ?thesis by (metis slice_append_mid)
qed

lemma dw_push_all_heap:
  assumes "dw_push_all ps dw_new = Inr w"
  shows "length (dw_heap w) < 2 ^ 32 + 2 ^ 16"
proof (cases ps rule: rev_cases)
  case Nil
  with assms show ?thesis by (auto simp: dw_push_all_def dw_new_def)
next
  case (snoc qs q)
  have "dw_ok dw_new" by (simp add: dw_ok_def dw_new_def)
  from dw_push_all_Inr [OF assms this] have "dw_heap w = concat (map fst ps)" by (simp add: dw_new_def)
  with dw_push_all_bounds [OF assms, of "length qs"] snoc show ?thesis by (simp add: dw_new_def)
qed

lemma dw_push_all_empty_ids:
  "length (dw_entries w) + k \<le> 2 ^ 32 \<Longrightarrow> dw_heap w = [] \<Longrightarrow> is_ok (dw_push_all (replicate k ([], 0, 0, 0)) w)"
proof (induction k arbitrary: w)
  case 0
  then show ?case by (simp add: dw_push_all_def)
next
  case (Suc k)
  then show ?case
    by (simp add: dw_push_all_def dw_push_def Let_def f32_is_finite_def)
qed

lemma dir_rows_pushed:
  assumes "dw_push_all ps dw_new = Inr w" and "16 + 24 * length ps < 2 ^ 32"
  shows "\<exists>d. dir_open (dw_finish w) = Inr d \<and> unat (d_rows d) = length ps
     \<and> (\<forall>i. dir_id d i = (if unat i < length ps then Some (fst (ps ! unat i)) else None)
          \<and> map_option (\<lambda>e. (re_meta_offset e, re_meta_len e, re_inv_norm e)) (dir_entry d i)
            = (if unat i < length ps then Some (snd (ps ! unat i)) else None))"
proof -
  have "dw_ok dw_new" by (simp add: dw_ok_def dw_new_def)
  from dw_push_all_Inr [OF assms(1) this] have es: "dw_entries w = rows_of 0 ps"
    and hp: "dw_heap w = concat (map fst ps)" and ok: "dw_ok w" by (simp_all add: dw_new_def)
  have fin: "list_all (\<lambda>e. f32_is_finite (re_inv_norm e)) (dw_entries w)"
    using ok by (auto simp: dw_ok_def list_all_iff)
  let ?d = "\<lparr>d_entries = concat (map row_entry_bytes (dw_entries w)), d_heap = dw_heap w, d_rows = of_nat (length ps)\<rparr>"
  have "length (dir_payload w) + 36 < 2 ^ 64"
    using dw_push_all_heap [OF assms(1)] assms(2) by (simp add: length_dir_payload es)
  then have o: "dir_open (dw_finish w) = Inr ?d"
    using dir_open_finish [OF ok] assms(2) by (simp add: es)
  have e: "dir_entry ?d i = (if unat i < length ps
      then Some (row_of (ps ! unat i) (length (concat (map fst (take (unat i) ps))))) else None)" for i
    using dir_entry_table [of ?d "dw_entries w" i] fin by (simp add: es nth_rows_of)
  have "dir_id ?d i = (if unat i < length ps then Some (fst (ps ! unat i)) else None)" for i
  proof (cases "unat i < length ps")
    case True
    note b = dw_push_all_bounds [OF assms(1) True]
    have "slice (concat (map fst ps)) (length (concat (map fst (take (unat i) ps))))
        (length (concat (map fst (take (unat i) ps))) + length (fst (ps ! unat i))) = Some (fst (ps ! unat i))"
      using slice_concat_nth [of "unat i" "map fst ps"] True by (simp add: take_map)
    with True b e [of i] show ?thesis
      by (cases "ps ! unat i") (simp add: dir_id_def row_of_def Let_def hp dw_new_def unat_of_nat)
  qed (simp add: dir_id_def e)
  moreover have "map_option (\<lambda>e. (re_meta_offset e, re_meta_len e, re_inv_norm e)) (dir_entry ?d i)
      = (if unat i < length ps then Some (snd (ps ! unat i)) else None)" for i
    by (cases "ps ! unat i") (simp add: e row_of_def)
  moreover have "unat (d_rows ?d) = length ps" using assms(2) by (simp add: unat_of_nat)
  ultimately show ?thesis using o by blast
qed

subsection \<open>Properties\<close>

text \<open>
  Property C33.  The row directory round trips: the rows a writer accepted are found again by
  index in the finished file, each with its metadata location, its norm and its id, and no
  other index has an entry.  The bound keeps the heap offset inside its 32-bit field.
\<close>

theorem directory_roundtrip:
  assumes "dw_push_all ps dw_new = Inr w" and "16 + 24 * length ps < 2 ^ 32"
  shows "\<exists>d. dir_open (dw_finish w) = Inr d \<and> unat (d_rows d) = length ps
     \<and> (\<forall>i. dir_id d i = (if unat i < length ps then Some (fst (ps ! unat i)) else None)
          \<and> map_option (\<lambda>e. (re_meta_offset e, re_meta_len e, re_inv_norm e)) (dir_entry d i)
            = (if unat i < length ps then Some (snd (ps ! unat i)) else None))"
  by (rule dir_rows_pushed [OF assms])

theorem directory_roundtrip_witness:
  "\<exists>w d. dw_push_all [([65], 0, 4, 0x3F800000), ([66, 67], 4, 0, 0)] dw_new = Inr w
     \<and> dir_open (dw_finish w) = Inr d \<and> dir_id d 1 = Some [66, 67]"
proof -
  let ?ps = "[([65], 0, 4, 0x3F800000), ([66, 67], 4, 0, 0)] :: (bytes \<times> u64 \<times> u32 \<times> u32) list"
  have "is_ok (dw_push_all ?ps dw_new)"
    by (simp add: dw_push_all_def dw_push_def Let_def f32_is_finite_def dw_new_def)
  then obtain w where w: "dw_push_all ?ps dw_new = Inr w" by (rule is_okE)
  from directory_roundtrip [OF w] obtain d where d: "dir_open (dw_finish w) = Inr d"
    and i: "dir_id d 1 = Some (fst (?ps ! unat (1 :: u32)))" by auto
  show ?thesis by (intro exI conjI) (rule w, rule d, use i in simp)
qed

text \<open>
  Property C34.  Once a directory has opened, \<open>id\<close> cannot fail: every index below the row
  count has an entry whose id range lies in the heap, whatever the bytes were.
\<close>

theorem directory_id_total:
  assumes "dir_open bs = Inr d" and "i < d_rows d"
  shows "\<exists>e idb. dir_entry d i = Some e \<and> dir_id d i = Some idb \<and> length idb = unat (re_id_len e)"
proof -
  from dir_open_checked [OF assms] obtain e where "dir_entry d i = Some e"
    "unat (re_id_offset e) + unat (re_id_len e) \<le> length (d_heap d)" by blast
  then show ?thesis by (simp add: dir_id_def Let_def slice_def)
qed

theorem directory_id_total_witness:
  "\<exists>bs d e idb. dir_open bs = Inr d \<and> 0 < d_rows d \<and> dir_id d 0 = Some idb \<and> dir_entry d 0 = Some e"
proof -
  let ?w = "\<lparr>dw_entries = [row_of ([7], 0, 0, 0) 0], dw_heap = [7]\<rparr>"
  have "dw_ok ?w" by (simp add: dw_ok_def row_of_def f32_is_finite_def)
  from dir_open_finish [OF this] obtain d where d: "dir_open (dw_finish ?w) = Inr d" "d_rows d = 1"
    by (simp add: length_dir_payload)
  from directory_id_total [OF d(1), of 0] d show ?thesis by fastforce
qed

text \<open>
  Property C37.  The heap offset is stored as a \<open>u32\<close> without a check: from 178,956,970 rows
  on (16 + 24 n reaches 2^32) the writer finishes without an error and the file it produces
  cannot be opened.
\<close>

theorem directory_offset_wraps:
  assumes "dw_push_all ps dw_new = Inr w" and "178956970 \<le> length ps" and "length ps < 2 ^ 32"
  shows "dir_open (dw_finish w) = Inl (Malformed 4 (Inconsistent ''heap_offset''))"
proof -
  let ?n = "length (dw_entries w)" and ?pl = "dir_payload w"
  have "dw_ok dw_new" by (simp add: dw_ok_def dw_new_def)
  from dw_push_all_Inr [OF assms(1) this] have n: "?n = length ps" by (simp add: dw_new_def)
  have "length ?pl + 36 < 2 ^ 64"
    using dw_push_all_heap [OF assms(1)] assms(3) by (simp add: length_dir_payload n)
  from decode_block_encode [OF this, of Directory "[]"]
  have b: "decode_block (dw_finish w) Directory = Inr ?pl" by (simp add: dw_finish_eq)
  have u: "unread (reader_new ?pl) (to_le 4 (of_nat ?n :: u32) @ to_le 4 (of_nat (16 + ?n * 24) :: u32)
      @ replicate 8 0 @ concat (map row_entry_bytes (dw_entries w)) @ dw_heap w)"
    by (simp only: dir_payload_def unread_new)
  have rows: "unat (of_nat ?n :: u32) = ?n" using assms(3) n by (simp add: unat_of_nat)
  have ne: "unat (of_nat (16 + ?n * 24) :: u32) \<noteq> 16 + ?n * 24"
  proof -
    have "2 ^ 32 \<le> 16 + ?n * 24" using assms(2) n by simp
    with unat_lt_32 [of "of_nat (16 + ?n * 24)"] show ?thesis by (metis leD)
  qed
  show ?thesis
    unfolding dir_open_def b rbind_Inr Let_def
    apply (rule codec_steps, rule u, rule TrueI)
    apply (rule codec_steps, assumption, rule TrueI)+
    apply (simp only: rows ne DIR_PREFIX_LEN_def DIR_ENTRY_LEN_def if_True not_False_eq_True)
    done
qed

theorem directory_offset_wraps_witness:
  "\<exists>ps w. dw_push_all ps dw_new = Inr w \<and> length ps < 2 ^ 32 \<and> \<not> is_ok (dir_open (dw_finish w))"
proof -
  define k :: nat where "k = 178956970"
  have "is_ok (dw_push_all (replicate k ([], 0, 0, 0)) dw_new)"
    by (rule dw_push_all_empty_ids) (simp_all add: dw_new_def k_def)
  then obtain w where w: "dw_push_all (replicate k ([], 0, 0, 0)) dw_new = Inr w" by (rule is_okE)
  have len: "178956970 \<le> length (replicate k ([], 0, 0, 0) :: (bytes \<times> u64 \<times> u32 \<times> u32) list)"
    "length (replicate k ([], 0, 0, 0) :: (bytes \<times> u64 \<times> u32 \<times> u32) list) < 2 ^ 32"
    unfolding length_replicate by (simp_all add: k_def)
  from directory_offset_wraps [OF w len] w len(2) show ?thesis by (intro exI conjI) (assumption, assumption, simp)
qed

end
