(* ===== verification/Segment_Meta.thy ===== *)
theory Segment_Meta
  imports Segment_Directory Value
begin

text \<open>
  The \<open>.meta\<close> file of a segment (\<open>format/src/segment.rs\<close>): one optional record per row,
  holding the encoded metadata map and the opaque content, addressed by the offset and length
  the row directory stores.  Shown: a record pushed at some point is read back from the
  finished file through its address, whatever is pushed before or after it, and the lazy
  \<open>metadata_bytes\<close> returns exactly the encoded map of that record.
\<close>

record meta_record =
  mr_metadata :: "val option"
  mr_content :: "bytes option"

definition mr_default :: meta_record where
  "mr_default = \<lparr>mr_metadata = None, mr_content = None\<rparr>"

definition mr_is_empty :: "meta_record \<Rightarrow> bool" where
  "mr_is_empty m \<longleftrightarrow> mr_metadata m = None \<and> mr_content m = None"

definition mr_encode :: "meta_record \<Rightarrow> bytes fresult" where
  "mr_encode m =
     (let flags = (if mr_metadata m \<noteq> None then 1 else 0) OR (if mr_content m \<noteq> None then 2 else 0);
          w = writer_u8 writer_new flags
      in rbind (case mr_metadata m of
                  None \<Rightarrow> Inr w
                | Some v \<Rightarrow> rbind (encode v) (\<lambda>encoded. Inr (writer_blob w encoded))) (\<lambda>w.
         Inr (case mr_content m of None \<Rightarrow> w | Some c \<Rightarrow> writer_blob w c)))"

definition mr_decode :: "bytes \<Rightarrow> meta_record fresult" where
  "mr_decode bs =
     (if bs = [] then Inr mr_default
      else
        rbind (reader_u8 (reader_new bs)) (\<lambda>(flags, r).
        if flags AND NOT 3 \<noteq> 0 then Inl (Malformed 0 (UnknownFlags (ucast flags)))
        else
        rbind (if flags AND 1 \<noteq> 0
               then rbind (reader_blob r) (\<lambda>(b, r). rbind (decode b) (\<lambda>v. Inr (Some v, r)))
               else Inr (None, r)) (\<lambda>(metadata, r).
        rbind (if flags AND 2 \<noteq> 0
               then rbind (reader_blob r) (\<lambda>(c, r). Inr (Some c, r))
               else Inr (None, r)) (\<lambda>(content, r).
        rbind (expect_end ''meta record'' r) (\<lambda>_.
          Inr \<lparr>mr_metadata = metadata, mr_content = content\<rparr>)))))"

text \<open>The writer is its payload buffer; \<open>push\<close> returns the record's offset and length.\<close>

type_synonym meta_writer = bytes

definition mw_push :: "meta_record \<Rightarrow> meta_writer \<Rightarrow> ((u64 \<times> u32) \<times> meta_writer) fresult" where
  "mw_push m payload =
     (if mr_is_empty m then Inr ((u64_of (length payload), 0), payload)
      else
        rbind (mr_encode m) (\<lambda>encoded.
        let offset = u64_of (length payload) in
        if length encoded \<ge> 2 ^ 32 then Inl (Malformed offset (Inconsistent ''record length''))
        else Inr ((offset, of_nat (length encoded)), payload @ encoded)))"

definition mw_finish :: "meta_writer \<Rightarrow> bytes" where
  "mw_finish payload = encode_block Metadata payload"

record meta_block =
  mb_payload :: bytes

definition mb_open :: "bytes \<Rightarrow> meta_block fresult" where
  "mb_open bs = rbind (open_block bs Metadata) (\<lambda>payload. Inr \<lparr>mb_payload = payload\<rparr>)"

definition mb_verify :: "bytes \<Rightarrow> unit fresult" where
  "mb_verify bs = verify_block bs Metadata"

definition slice_for :: "meta_block \<Rightarrow> row_entry \<Rightarrow> bytes fresult" where
  "slice_for b entry =
     (let start = unat (re_meta_offset entry);
          end = start + unat (re_meta_len entry);
          available = u64_of (length (mb_payload b))
      in if end \<ge> 2 ^ 64
         then Inl (LengthExceedsInput (re_meta_offset entry) (ucast (re_meta_len entry)) available)
         else ok_or (slice (mb_payload b) start end)
                (LengthExceedsInput (re_meta_offset entry) (u64_of end) available))"

definition metadata_bytes :: "meta_block \<Rightarrow> row_entry \<Rightarrow> bytes option fresult" where
  "metadata_bytes b entry =
     (if re_meta_len entry = 0 then Inr None
      else
        rbind (slice_for b entry) (\<lambda>sl.
        rbind (reader_u8 (reader_new sl)) (\<lambda>(flags, r).
        if flags AND NOT 3 \<noteq> 0 then Inl (Malformed (re_meta_offset entry) (UnknownFlags (ucast flags)))
        else if flags AND 1 = 0 then Inr None
        else rbind (reader_blob r) (\<lambda>(b, r). Inr (Some b)))))"

definition mb_record :: "meta_block \<Rightarrow> row_entry \<Rightarrow> meta_record fresult" where
  "mb_record b entry =
     (if re_meta_len entry = 0 then Inr mr_default
      else rbind (slice_for b entry) mr_decode)"

subsection \<open>Records\<close>

definition mr_flags :: "meta_record \<Rightarrow> u8" where
  "mr_flags m = (if mr_metadata m \<noteq> None then 1 else 0) OR (if mr_content m \<noteq> None then 2 else 0)"

lemma mr_flags_bits [simp]:
  "mr_flags m AND NOT 3 = 0" "mr_flags m AND - 4 = 0"
  "mr_flags m AND 1 = 0 \<longleftrightarrow> mr_metadata m = None"
  "mr_flags m AND 2 = 0 \<longleftrightarrow> mr_content m = None"
  by (simp_all add: mr_flags_def)

definition mr_wf :: "meta_record \<Rightarrow> bool" where
  "mr_wf m \<longleftrightarrow> (case mr_metadata m of None \<Rightarrow> True | Some v \<Rightarrow> val_wf v)"

text \<open>What \<open>mr_encode\<close> writes: the flags, the metadata blob \<open>mb\<close> and the content.\<close>

definition mr_bytes :: "meta_record \<Rightarrow> bytes \<Rightarrow> bytes" where
  "mr_bytes m mb = mr_flags m # (case mr_metadata m of None \<Rightarrow> [] | Some _ \<Rightarrow> blob_bytes mb)
     @ (case mr_content m of None \<Rightarrow> [] | Some c \<Rightarrow> blob_bytes c)"

lemma mr_encode_Inr:
  "mr_encode m = Inr bs \<longleftrightarrow> (\<exists>mb. bs = mr_bytes m mb
     \<and> (case mr_metadata m of None \<Rightarrow> mb = [] | Some v \<Rightarrow> encode v = Inr mb))"
  by (cases "mr_metadata m"; cases "mr_content m")
    (auto simp: mr_encode_def mr_bytes_def mr_flags_def codec_simps rbind_eq_Inr_iff)

lemma blob_len: "length b \<le> length (blob_bytes b)"
  by (simp add: blob_bytes_def)

lemma blob_step:
  "unread r (blob_bytes b @ rest) \<Longrightarrow> length b < 2 ^ 64 \<Longrightarrow>
     \<exists>r'. reader_blob r = Inr (b, r') \<and> unread r' rest"
  using blobc.dec_enc [of b r rest] unread_advance [of r "blob_bytes b" rest] by (simp add: blob_ok_def)

lemma mr_read_parts:
  assumes "length (mr_bytes m mb) < 2 ^ 64"
  shows "\<exists>r0 r1 r2. reader_u8 (reader_new (mr_bytes m mb)) = Inr (mr_flags m, r0)
     \<and> (if mr_metadata m = None then r1 = r0 else reader_blob r0 = Inr (mb, r1))
     \<and> (case mr_content m of None \<Rightarrow> r2 = r1 | Some c \<Rightarrow> reader_blob r1 = Inr (c, r2)) \<and> unread r2 []"
proof -
  let ?m = "case mr_metadata m of None \<Rightarrow> [] | Some _ \<Rightarrow> blob_bytes mb"
  let ?c = "case mr_content m of None \<Rightarrow> [] | Some c \<Rightarrow> blob_bytes c"
  have "unread (reader_new (mr_bytes m mb)) ([mr_flags m] @ ?m @ ?c)"
    by (simp add: mr_bytes_def)
  then obtain r0 where r0: "reader_u8 (reader_new (mr_bytes m mb)) = Inr (mr_flags m, r0)" "unread r0 (?m @ ?c)"
    using u8c.dec_enc unread_advance by blast
  obtain r1 where r1: "if mr_metadata m = None then r1 = r0 else reader_blob r0 = Inr (mb, r1)" "unread r1 ?c"
    using r0(2) blob_step [of r0 mb ?c] assms(1) blob_len [of mb]
    by (cases "mr_metadata m") (auto simp: mr_bytes_def)
  obtain r2 where "case mr_content m of None \<Rightarrow> r2 = r1 | Some c \<Rightarrow> reader_blob r1 = Inr (c, r2)" "unread r2 []"
  proof (cases "mr_content m")
    case None
    with r1(2) that [of r1] show ?thesis by simp
  next
    case (Some c)
    then have "length c < 2 ^ 64" using assms blob_len [of c] by (simp add: mr_bytes_def)
    with r1(2) blob_step [of r1 c "[]"] that Some show ?thesis by auto
  qed
  with r0(1) r1(1) show ?thesis by blast
qed

lemma mr_decode_encode:
  assumes "mr_encode m = Inr bs" and "mr_wf m" and "length bs < 2 ^ 64"
  shows "mr_decode bs = Inr m"
proof -
  from assms(1) obtain mb where bs: "bs = mr_bytes m mb"
    and mb: "case mr_metadata m of None \<Rightarrow> mb = [] | Some v \<Rightarrow> encode v = Inr mb"
    by (auto simp: mr_encode_Inr)
  from mr_read_parts [of m mb] assms(3) bs obtain r0 r1 r2 where r: "reader_u8 (reader_new bs) = Inr (mr_flags m, r0)"
    "if mr_metadata m = None then r1 = r0 else reader_blob r0 = Inr (mb, r1)"
    "case mr_content m of None \<Rightarrow> r2 = r1 | Some c \<Rightarrow> reader_blob r1 = Inr (c, r2)" "unread r2 []" by blast
  have dec: "decode mb = Inr v" if "mr_metadata m = Some v" for v
  proof -
    have "length mb < 2 ^ 64" using assms(3) bs that blob_len [of mb] by (simp add: mr_bytes_def)
    with that mb assms(2) encode_rep [of v mb] show ?thesis by (simp add: mr_wf_def decode_iff)
  qed
  have "bs \<noteq> []" by (simp add: bs mr_bytes_def)
  with r dec expect_end_Nil [OF r(4)] show ?thesis
    by (cases m; cases "mr_metadata m"; cases "mr_content m") (simp_all add: mr_decode_def)
qed

lemma mr_encode_nonempty: "mr_encode m = Inr bs \<Longrightarrow> bs \<noteq> []"
  by (auto simp: mr_encode_Inr mr_bytes_def)

subsection \<open>Addresses\<close>

definition stored_at :: "bytes \<Rightarrow> row_entry \<Rightarrow> bytes \<Rightarrow> bool" where
  "stored_at payload e enc \<longleftrightarrow> (\<exists>pre suf. payload = pre @ enc @ suf \<and> length payload < 2 ^ 64
     \<and> re_meta_offset e = u64_of (length pre) \<and> unat (re_meta_len e) = length enc)"

lemma slice_for_stored: "stored_at (mb_payload b) e enc \<Longrightarrow> slice_for b e = Inr enc"
  unfolding stored_at_def slice_for_def
  using slice_append_mid [of _ _ _ enc] by (auto simp: Let_def)

lemma mb_record_stored:
  assumes "stored_at (mb_payload b) e enc" and "mr_encode m = Inr enc" and "mr_wf m"
  shows "mb_record b e = Inr m"
    and "metadata_bytes b e = (case mr_metadata m of None \<Rightarrow> Inr None | Some v \<Rightarrow> rbind (encode v) (\<lambda>bs. Inr (Some bs)))"
proof -
  from assms(1) have lt: "length enc < 2 ^ 64" by (auto simp: stored_at_def)
  have ne: "re_meta_len e \<noteq> 0" using assms(1) mr_encode_nonempty [OF assms(2)] by (auto simp: stored_at_def)
  show "mb_record b e = Inr m"
    using ne slice_for_stored [OF assms(1)] mr_decode_encode [OF assms(2,3) lt] by (simp add: mb_record_def)
  from assms(2) obtain mb where bs: "enc = mr_bytes m mb"
    and mb: "case mr_metadata m of None \<Rightarrow> mb = [] | Some v \<Rightarrow> encode v = Inr mb"
    by (auto simp: mr_encode_Inr)
  from mr_read_parts [of m mb] lt bs obtain r0 r1 where "reader_u8 (reader_new enc) = Inr (mr_flags m, r0)"
    "if mr_metadata m = None then r1 = r0 else reader_blob r0 = Inr (mb, r1)" by blast
  with ne mb slice_for_stored [OF assms(1)]
  show "metadata_bytes b e = (case mr_metadata m of None \<Rightarrow> Inr None | Some v \<Rightarrow> rbind (encode v) (\<lambda>bs. Inr (Some bs)))"
    by (cases "mr_metadata m") (simp_all add: metadata_bytes_def)
qed

fun mw_push_all :: "meta_record list \<Rightarrow> meta_writer \<Rightarrow> ((u64 \<times> u32) list \<times> meta_writer) fresult" where
  "mw_push_all [] p = Inr ([], p)"
| "mw_push_all (m # ms) p =
     rbind (mw_push m p) (\<lambda>(loc, p). rbind (mw_push_all ms p) (\<lambda>(locs, p). Inr (loc # locs, p)))"

lemma mw_push_Inr:
  assumes "mw_push m p = Inr ((off, len), p')"
  shows "\<exists>enc. p' = p @ enc \<and> off = u64_of (length p) \<and> unat len = length enc
     \<and> (if mr_is_empty m then enc = [] else mr_encode m = Inr enc)"
proof (cases "mr_is_empty m")
  case True
  with assms show ?thesis by (auto simp: mw_push_def)
next
  case False
  with assms obtain enc where e: "mr_encode m = Inr enc" "length enc < 2 ^ 32"
    "off = u64_of (length p)" "len = of_nat (length enc)" "p' = p @ enc"
    by (auto simp: mw_push_def Let_def elim!: rbind_InrE split: if_splits)
  from e(2) have "unat (of_nat (length enc) :: u32) = length enc" by (simp add: unat_of_nat)
  with False e show ?thesis by simp
qed

definition located :: "bytes \<Rightarrow> row_entry \<Rightarrow> meta_record \<Rightarrow> bool" where
  "located p e m \<longleftrightarrow> (\<exists>enc. stored_at p e enc \<and> (if mr_is_empty m then enc = [] else mr_encode m = Inr enc))"

lemma mw_push_all_Inr:
  assumes "mw_push_all ms p = Inr (locs, p')"
  shows "length locs = length ms \<and> (\<exists>suf. p' = p @ suf) \<and> (length p' < 2 ^ 64 \<longrightarrow>
    (\<forall>i e. i < length ms \<longrightarrow> (re_meta_offset e, re_meta_len e) = locs ! i \<longrightarrow> located p' e (ms ! i)))"
  using assms
proof (induction ms arbitrary: p locs)
  case Nil
  then show ?case by simp
next
  case (Cons m ms)
  then obtain off len p1 ls where push: "mw_push m p = Inr ((off, len), p1)"
    and rest: "mw_push_all ms p1 = Inr (ls, p')" and locs: "locs = (off, len) # ls"
    by (auto elim!: rbind_InrE)
  from mw_push_Inr [OF push] obtain enc where enc: "p1 = p @ enc" "off = u64_of (length p)" "unat len = length enc"
    "if mr_is_empty m then enc = [] else mr_encode m = Inr enc" by blast
  from Cons.IH [OF rest] obtain suf where suf: "p' = p1 @ suf" "length ls = length ms" by blast
  have hd: "located p' e m" if "length p' < 2 ^ 64" "(re_meta_offset e, re_meta_len e) = (off, len)" for e
  proof -
    have "stored_at p' e enc"
      unfolding stored_at_def using that enc suf by (intro exI [of _ p] exI [of _ suf]) simp
    with enc(4) show ?thesis unfolding located_def by blast
  qed
  have "located p' e ((m # ms) ! i)" if "length p' < 2 ^ 64" "i < Suc (length ms)"
      "(re_meta_offset e, re_meta_len e) = locs ! i" for i e
    using hd [OF that(1), of e] Cons.IH [OF rest] that locs by (cases i) auto
  moreover have "\<exists>suf. p' = p @ suf" using enc(1) suf(1) by auto
  ultimately show ?case using suf(2) locs by simp
qed

lemma record_located:
  assumes "located p e m" and "mr_wf m"
  shows "mb_record \<lparr>mb_payload = p\<rparr> e = Inr m"
    and "metadata_bytes \<lparr>mb_payload = p\<rparr> e = (case mr_metadata m of None \<Rightarrow> Inr None
           | Some v \<Rightarrow> rbind (encode v) (\<lambda>bs. Inr (Some bs)))"
proof -
  from assms(1) obtain enc where st: "stored_at p e enc"
    and enc: "if mr_is_empty m then enc = [] else mr_encode m = Inr enc" unfolding located_def by auto
  have "mb_record \<lparr>mb_payload = p\<rparr> e = Inr m \<and> metadata_bytes \<lparr>mb_payload = p\<rparr> e = (case mr_metadata m of None \<Rightarrow> Inr None
           | Some v \<Rightarrow> rbind (encode v) (\<lambda>bs. Inr (Some bs)))"
  proof (cases "mr_is_empty m")
    case True
    with enc st have "re_meta_len e = 0" by (auto simp: stored_at_def unat_eq_zero)
    with True show ?thesis
      by (cases m) (simp add: mb_record_def metadata_bytes_def mr_default_def mr_is_empty_def)
  next
    case False
    with mb_record_stored [of "\<lparr>mb_payload = p\<rparr>" e enc m] st enc assms(2) show ?thesis by simp
  qed
  then show "mb_record \<lparr>mb_payload = p\<rparr> e = Inr m"
    and "metadata_bytes \<lparr>mb_payload = p\<rparr> e = (case mr_metadata m of None \<Rightarrow> Inr None
           | Some v \<Rightarrow> rbind (encode v) (\<lambda>bs. Inr (Some bs)))" by simp_all
qed

lemma mb_open_finish: "length p + 36 < 2 ^ 64 \<Longrightarrow> mb_open (mw_finish p) = Inr \<lparr>mb_payload = p\<rparr>"
  using open_block_encode [of p Metadata "[]"] by (simp add: mb_open_def mw_finish_def)

subsection \<open>Properties\<close>

text \<open>
  Property C36.  Metadata records round trip through the \<open>.meta\<close> file: when the writer
  accepted a list of records, then in the finished file every directory entry that carries
  the address returned for record \<open>i\<close> reads back record \<open>i\<close> (an empty record as the default
  one), and the lazy lookup returns the encoding of exactly that record's map.
\<close>

theorem meta_roundtrip:
  assumes "mw_push_all ms [] = Inr (locs, p)" and "length p + 36 < 2 ^ 64" and "\<forall>m \<in> set ms. mr_wf m"
    and "i < length ms" and "(re_meta_offset e, re_meta_len e) = locs ! i"
  shows "\<exists>b. mb_open (mw_finish p) = Inr b \<and> mb_record b e = Inr (ms ! i)
     \<and> metadata_bytes b e = (case mr_metadata (ms ! i) of None \<Rightarrow> Inr None
                              | Some v \<Rightarrow> rbind (encode v) (\<lambda>bs. Inr (Some bs)))"
proof -
  have "located p e (ms ! i)" using mw_push_all_Inr [OF assms(1)] assms(2,4,5) by auto
  with record_located [of p e "ms ! i"] mb_open_finish [OF assms(2)] assms(3,4) show ?thesis by simp
qed

theorem meta_roundtrip_witness:
  "\<exists>locs p b. mw_push_all [mr_default, \<lparr>mr_metadata = None, mr_content = Some [7]\<rparr>] [] = Inr (locs, p)
     \<and> mb_open (mw_finish p) = Inr b
     \<and> mb_record b \<lparr>re_meta_offset = fst (locs ! 1), re_meta_len = snd (locs ! 1), re_inv_norm = 0,
           re_id_offset = 0, re_id_len = 0, re_flags = 0\<rparr> = Inr \<lparr>mr_metadata = None, mr_content = Some [7]\<rparr>"
proof -
  let ?ms = "[mr_default, \<lparr>mr_metadata = None, mr_content = Some [7]\<rparr>]"
  have "varint_bytes 1 = [1]" by (simp add: varint_bytes.simps)
  then have push: "mw_push_all ?ms [] = Inr ([(0, 0), (0, 3)], [2, 1, 7])"
    by (simp add: mw_push_def mr_is_empty_def mr_default_def mr_encode_def codec_simps blob_bytes_def u64_of_def)
  let ?e = "\<lparr>re_meta_offset = 0, re_meta_len = 3, re_inv_norm = 0, re_id_offset = 0, re_id_len = 0, re_flags = 0\<rparr>"
  have "\<forall>m \<in> set ?ms. mr_wf m" by (simp add: mr_wf_def mr_default_def)
  from meta_roundtrip [OF push _ this, of 1 ?e] obtain b where "mb_open (mw_finish [2, 1, 7]) = Inr b"
    "mb_record b ?e = Inr \<lparr>mr_metadata = None, mr_content = Some [7]\<rparr>" by auto
  then show ?thesis using push by (intro exI conjI) (assumption, assumption, simp)
qed

end
