(* ===== verification/Bit_Words.thy ===== *)
theory Bit_Words
  imports Prelude
begin

text \<open>
  Sets of small numbers packed into 64-bit words, the representation both the tombstone file
  and the in-memory bitmap use.  \<open>bits_of ws\<close> is the set a word array stands for; the lemmas
  say what the word operations of the sources do to it.
\<close>

definition div_ceil :: "nat \<Rightarrow> nat \<Rightarrow> nat" where
  "div_ceil n k = (n + k - 1) div k"

definition count_ones :: "u64 \<Rightarrow> nat" where
  "count_ones w = length (filter (bit w) [0..<64])"

definition trailing_zeros :: "u64 \<Rightarrow> nat" where
  "trailing_zeros w = length (takeWhile (\<lambda>i. \<not> bit w i) [0..<64])"

definition popcount :: "u64 list \<Rightarrow> nat" where
  "popcount ws = sum_list (map count_ones ws)"

definition bits_of :: "u64 list \<Rightarrow> nat set" where
  "bits_of ws = {i. i < 64 * length ws \<and> bit (ws ! (i div 64)) (i mod 64)}"

text \<open>\<open>*last &= (1 << used) - 1\<close> for \<open>used = len % 64\<close>, when there is a partial last word.\<close>

definition clear_tail_words :: "nat \<Rightarrow> u64 list \<Rightarrow> u64 list" where
  "clear_tail_words len ws =
     (let used = len mod 64 in
      if used \<noteq> 0 \<and> ws \<noteq> [] then ws[length ws - 1 := last ws AND (push_bit used 1 - 1)] else ws)"

lemma upt_split: "k \<le> n \<Longrightarrow> [0..<n] = [0..<k] @ [k..<n]"
  using upt_add_eq_append [of 0 k "n - k"] by simp

lemma div_ceil_le: "len \<le> 64 * div_ceil len 64"
  by (simp add: div_ceil_def)

lemma div_ceil_mono: "m \<le> n \<Longrightarrow> div_ceil m 64 \<le> div_ceil n 64"
  by (simp add: div_ceil_def div_le_mono)

lemma index_in_words: "i < len \<Longrightarrow> i div 64 < div_ceil len 64"
  by (simp add: div_ceil_def)

lemma last_word_index:
  assumes "len mod 64 \<noteq> 0"
  shows "div_ceil len 64 = Suc (len div 64)"
proof -
  obtain q u where len: "len = 64 * q + u" "0 < u" "u < 64"
    using assms by (metis mult_div_mod_eq neq0_conv mod_less_divisor zero_less_numeral)
  then have "div_ceil len 64 = Suc q" unfolding div_ceil_def by (intro div_nat_eqI) simp_all
  with len show ?thesis by simp
qed

lemma full_words: "len mod 64 = 0 \<Longrightarrow> 64 * div_ceil len 64 = len"
  by (auto simp: div_ceil_def dvd_eq_mod_eq_0 [symmetric] elim!: dvdE)

lemma test_mask: "w AND push_bit k 1 \<noteq> 0 \<longleftrightarrow> bit (w :: u64) k"
  by (simp add: bit_iff_and_push_bit_not_eq_0)

lemma push_bit_minus_1: "push_bit n 1 - 1 = (mask n :: u64)"
  by (simp add: push_bit_of_1 mask_eq_exp_minus_1)

lemma in_bits_of: "i < 64 * length ws \<Longrightarrow> i \<in> bits_of ws \<longleftrightarrow> bit (ws ! (i div 64)) (i mod 64)"
  by (simp add: bits_of_def)

lemma bits_of_bound: "i \<in> bits_of ws \<Longrightarrow> i < 64 * length ws"
  by (simp add: bits_of_def)

lemma finite_bits_of [simp]: "finite (bits_of ws)"
  by (rule finite_subset [of _ "{..<64 * length ws}"]) (auto simp: bits_of_def)

lemma bits_of_replicate:
  "bits_of (replicate n 0) = {}" "bits_of (replicate n (- 1)) = {..<64 * n}"
proof -
  have "i < 64 * n \<Longrightarrow> i div 64 < n" for i :: nat
    by (simp add: less_mult_imp_div_less mult.commute)
  then show "bits_of (replicate n 0) = {}" "bits_of (replicate n (- 1)) = {..<64 * n}"
    by (auto simp: bits_of_def)
qed

lemma bits_of_append:
  "bits_of (xs @ ys) = bits_of xs \<union> (\<lambda>i. i + 64 * length xs) ` bits_of ys"
proof (rule set_eqI)
  fix i
  show "i \<in> bits_of (xs @ ys) \<longleftrightarrow> i \<in> bits_of xs \<union> (\<lambda>i. i + 64 * length xs) ` bits_of ys"
  proof (cases "i < 64 * length xs")
    case True
    then have "i div 64 < length xs" by (simp add: less_mult_imp_div_less mult.commute)
    with True show ?thesis by (auto simp: bits_of_def nth_append)
  next
    case False
    then obtain j where j: "i = j + 64 * length xs" by (metis add.commute le_Suc_ex not_less)
    have "i div 64 = j div 64 + length xs" "i mod 64 = j mod 64" using j by simp_all
    with j show ?thesis by (auto simp: bits_of_def nth_append)
  qed
qed

lemma bits_of_replicate_zero [simp]: "bits_of (xs @ replicate n 0) = bits_of xs"
  by (simp add: bits_of_append bits_of_replicate)

lemma bits_of_take:
  "bits_of (take n ws) = bits_of ws \<inter> {..<64 * n}"
proof -
  have "i < 64 * n \<Longrightarrow> i div 64 < n" for i :: nat
    by (simp add: less_mult_imp_div_less mult.commute)
  then show ?thesis by (auto simp: bits_of_def)
qed

subsection \<open>Single bits\<close>

lemma bits_of_update:
  assumes "i < 64 * length ws"
    and "\<And>k. k < 64 \<Longrightarrow> k \<noteq> i mod 64 \<Longrightarrow> bit w k = bit (ws ! (i div 64)) k"
  shows "bits_of (ws[i div 64 := w]) = (if bit w (i mod 64) then insert i (bits_of ws) else bits_of ws - {i})"
proof -
  have i: "i div 64 < length ws" using assms(1) by (simp add: less_mult_imp_div_less mult.commute)
  have mem: "j \<in> bits_of (ws[i div 64 := w]) \<longleftrightarrow>
      (if j = i then bit w (i mod 64) else j \<in> bits_of ws)" for j
  proof (cases "j div 64 = i div 64")
    case True
    show ?thesis
    proof (cases "j = i")
      case False
      with True have "j mod 64 \<noteq> i mod 64" by (metis div_mult_mod_eq)
      with True False i assms show ?thesis by (auto simp: bits_of_def)
    qed (use assms(1) i in \<open>simp add: bits_of_def\<close>)
  next
    case False
    then have "j \<noteq> i" and "ws[i div 64 := w] ! (j div 64) = ws ! (j div 64)" by auto
    then show ?thesis unfolding bits_of_def by simp
  qed
  show ?thesis by (rule set_eqI, subst mem) auto
qed

lemma bits_of_set_bit:
  "i < 64 * length ws \<Longrightarrow>
   bits_of (ws[i div 64 := ws ! (i div 64) OR push_bit (i mod 64) 1]) = insert i (bits_of ws)"
  by (subst bits_of_update) (auto simp: bit_simps)

lemma bits_of_clear_bit:
  "i < 64 * length ws \<Longrightarrow>
   bits_of (ws[i div 64 := ws ! (i div 64) AND NOT (push_bit (i mod 64) 1)]) = bits_of ws - {i}"
  by (subst bits_of_update) (auto simp: bit_simps)

subsection \<open>The unused bits of the last word\<close>

lemma length_clear_tail [simp]: "length (clear_tail_words len ws) = length ws"
  by (simp add: clear_tail_words_def Let_def)

lemma bits_of_clear_tail:
  assumes "length ws = div_ceil len 64"
  shows "bits_of (clear_tail_words len ws) = bits_of ws \<inter> {..<len}"
proof (cases "len mod 64 = 0")
  case True
  then have "64 * length ws = len" using assms full_words by simp
  then show ?thesis using True by (auto simp: clear_tail_words_def bits_of_def)
next
  case False
  let ?k = "len div 64" and ?u = "len mod 64"
  have l: "length ws = Suc ?k" using assms False last_word_index by simp
  then have ne: "ws \<noteq> []" by auto
  with l have last: "last ws = ws ! ?k" by (simp add: last_conv_nth)
  have c: "clear_tail_words len ws = ws[?k := ws ! ?k AND mask ?u]"
    using False ne l by (simp add: clear_tail_words_def Let_def last flip: mask_eq_exp_minus_1)
  have "j \<in> bits_of (ws[?k := ws ! ?k AND mask ?u]) \<longleftrightarrow> j \<in> bits_of ws \<and> j < len" for j
  proof (cases "j div 64 = ?k")
    case True
    then have "j < len \<longleftrightarrow> j mod 64 < ?u" by (metis add_less_cancel_left div_mult_mod_eq)
    with True l show ?thesis by (auto simp: bits_of_def bit_simps)
  next
    case False
    then have "j < 64 * length ws \<Longrightarrow> j < len" using l by simp
    with False show ?thesis by (auto simp: bits_of_def)
  qed
  with c show ?thesis by auto
qed

lemma clear_tail_id_iff:
  assumes "length ws = div_ceil len 64"
  shows "(len mod 64 \<noteq> 0 \<longrightarrow> ws \<noteq> [] \<longrightarrow> last ws AND NOT (push_bit (len mod 64) 1 - 1) = 0)
     \<longleftrightarrow> bits_of ws \<subseteq> {..<len}"
proof (cases "len mod 64 = 0")
  case True
  then have "64 * length ws = len" using assms full_words by simp
  then show ?thesis using True by (auto simp: bits_of_def)
next
  case False
  let ?k = "len div 64" and ?u = "len mod 64"
  have l: "length ws = Suc ?k" using assms False last_word_index by simp
  then have ne: "ws \<noteq> []" by auto
  with l have last: "last ws = ws ! ?k" by (simp add: last_conv_nth)
  have "last ws AND NOT (push_bit ?u 1 - 1) = 0 \<longleftrightarrow> (\<forall>j < 64. bit (ws ! ?k) j \<longrightarrow> j < ?u)"
    by (auto simp: last bit_eq_iff bit_simps simp flip: mask_eq_exp_minus_1)
  also have "\<dots> \<longleftrightarrow> bits_of ws \<subseteq> {..<len}"
  proof (intro iffI subsetI allI impI)
    fix i
    assume a: "\<forall>j < 64. bit (ws ! ?k) j \<longrightarrow> j < ?u" and i: "i \<in> bits_of ws"
    show "i \<in> {..<len}"
    proof (cases "i div 64 = ?k")
      case True
      then have "i mod 64 < ?u" using a i by (auto simp: bits_of_def)
      with True show ?thesis by (metis add_less_cancel_left div_mult_mod_eq lessThan_iff)
    next
      case False
      with bits_of_bound [OF i] l show ?thesis by simp
    qed
  next
    fix j :: nat
    assume s: "bits_of ws \<subseteq> {..<len}" and j: "j < 64" "bit (ws ! ?k) j"
    then have "64 * ?k + j \<in> bits_of ws" using l by (simp add: bits_of_def)
    with s have "64 * ?k + j < len" by auto
    then show "j < ?u" by (metis add_less_cancel_left mult_div_mod_eq)
  qed
  finally show ?thesis using False ne by simp
qed

subsection \<open>Counting\<close>

lemma filter_upt_card: "length (filter P [0..<n]) = card {i. i < n \<and> P i}"
proof -
  have "length (filter P [0..<n]) = card (set (filter P [0..<n]))"
    by (rule distinct_card [symmetric]) simp
  also have "set (filter P [0..<n]) = {i. i < n \<and> P i}" by auto
  finally show ?thesis .
qed

lemma bits_of_single: "bits_of [w] = {i. i < 64 \<and> bit w i}"
  by (auto simp: bits_of_def)

lemma popcount_card: "popcount ws = card (bits_of ws)"
proof (induction ws rule: rev_induct)
  case Nil
  then show ?case by (simp add: popcount_def bits_of_def)
next
  case (snoc w ws)
  have "card (bits_of (ws @ [w])) = card (bits_of ws) + card ((\<lambda>i. i + 64 * length ws) ` bits_of [w])"
    unfolding bits_of_append by (rule card_Un_disjoint) (auto simp: bits_of_def)
  also have "card ((\<lambda>i. i + 64 * length ws) ` bits_of [w]) = count_ones w"
    by (simp add: card_image inj_on_def count_ones_def filter_upt_card bits_of_single)
  finally show ?case using snoc by (simp add: popcount_def)
qed

end
