(* ===== verification/Tombstones.thy ===== *)
theory Tombstones
  imports Block Bit_Words
begin

text \<open>
  A segment's live-row bitmap and its \<open>.del\<close> file
  (\<open>isha-vector-db-format/src/segment.rs\<close>, \<open>Tombstones\<close>).  \<open>live_set t\<close> is the set of live rows;
  every operation is shown to do to it what its name says, and the file to carry it.
\<close>

record tombstones =
  ts_rows :: u32
  ts_generation :: u32
  ts_words :: "u64 list"

definition all_live :: "u32 \<Rightarrow> u32 \<Rightarrow> tombstones" where
  "all_live rows generation =
     \<lparr>ts_rows = rows, ts_generation = generation,
      ts_words = clear_tail_words (unat rows) (replicate (div_ceil (unat rows) 64) (- 1))\<rparr>"

definition tombstones_encode :: "tombstones \<Rightarrow> bytes" where
  "tombstones_encode t =
     (let w = writer_reserved (writer_u32 (writer_u32 writer_new (ts_rows t)) (ts_generation t)) 8;
          w = fold (\<lambda>word w. writer_u64 w word) (ts_words t) w
      in encode_block Deleted w)"

definition tombstones_decode :: "bytes \<Rightarrow> tombstones fresult" where
  "tombstones_decode bs =
     rbind (decode_block bs Deleted) (\<lambda>payload.
     let r = reader_new payload in
     rbind (reader_u32 r) (\<lambda>(rows, r).
     rbind (reader_u32 r) (\<lambda>(generation, r).
     rbind (reader_reserved 8 r) (\<lambda>(_, r).
     let expected_words = div_ceil (unat rows) 64 in
     if remaining r \<noteq> expected_words * 8 then Inl (Malformed 16 (Inconsistent ''bitmap length''))
     else
     rbind (read_times expected_words reader_u64 r) (\<lambda>(words, r).
     let used = unat rows mod 64 in
     if used \<noteq> 0 \<and> words \<noteq> [] \<and> last words AND NOT (push_bit used 1 - 1) \<noteq> 0
     then Inl (Malformed 16 (Inconsistent ''bitmap tail''))
     else
     rbind (expect_end ''tombstones'' r) (\<lambda>_.
       Inr \<lparr>ts_rows = rows, ts_generation = generation, ts_words = words\<rparr>))))))"

definition is_live :: "tombstones \<Rightarrow> u32 \<Rightarrow> bool" where
  "is_live t index =
     (if index \<ge> ts_rows t then False
      else let word = unat index div 64 in
        if word < length (ts_words t)
        then ts_words t ! word AND push_bit (unat index mod 64) 1 \<noteq> 0
        else False)"

definition kill :: "tombstones \<Rightarrow> u32 \<Rightarrow> tombstones \<times> bool" where
  "kill t index =
     (if index \<ge> ts_rows t then (t, False)
      else let word = unat index div 64 in
        if word < length (ts_words t) then
          let w = ts_words t ! word; mask = push_bit (unat index mod 64) 1 in
          if w AND mask = 0 then (t, False)
          else (t\<lparr>ts_words := (ts_words t)[word := w AND NOT mask]\<rparr>, True)
        else (t, False))"

definition live_count :: "tombstones \<Rightarrow> u32" where
  "live_count t = sum_list (map (\<lambda>w. of_nat (count_ones w)) (ts_words t))"

subsection \<open>The invariant and the set of live rows\<close>

definition live_set :: "tombstones \<Rightarrow> nat set" where
  "live_set t = bits_of (ts_words t)"

definition ts_inv :: "tombstones \<Rightarrow> bool" where
  "ts_inv t \<longleftrightarrow> length (ts_words t) = div_ceil (unat (ts_rows t)) 64 \<and> live_set t \<subseteq> {..<unat (ts_rows t)}"

lemma row_index:
  "ts_inv t \<Longrightarrow> index < ts_rows t \<Longrightarrow>
   unat index div 64 < length (ts_words t) \<and> unat index < 64 * length (ts_words t)"
  using index_in_words [of "unat index" "unat (ts_rows t)"] div_ceil_le [of "unat (ts_rows t)"]
  by (simp add: ts_inv_def word_less_nat_alt)

lemma is_live_iff: "ts_inv t \<Longrightarrow> is_live t index \<longleftrightarrow> unat index \<in> live_set t"
proof -
  assume inv: "ts_inv t"
  show ?thesis
  proof (cases "index < ts_rows t")
    case True
    with row_index [OF inv] show ?thesis
      by (simp add: is_live_def not_le [symmetric] Let_def test_mask live_set_def in_bits_of del: push_bit_of_1)
  next
    case False
    then have "\<not> unat index < unat (ts_rows t)" by (simp add: word_less_nat_alt)
    with inv have "unat index \<notin> live_set t" by (auto simp: ts_inv_def)
    with False show ?thesis by (simp add: is_live_def not_less)
  qed
qed

lemma all_live_correct:
  "ts_inv (all_live rows g)" "live_set (all_live rows g) = {..<unat rows}"
proof -
  have "live_set (all_live rows g) = {..<unat rows}"
    using div_ceil_le [of "unat rows"]
    by (auto simp: live_set_def all_live_def bits_of_clear_tail bits_of_replicate)
  then show "ts_inv (all_live rows g)" "live_set (all_live rows g) = {..<unat rows}"
    by (simp_all add: ts_inv_def) (simp add: all_live_def)
qed

lemma kill_cases:
  assumes "ts_inv t"
  shows "kill t index = (if unat index \<in> live_set t
     then (t\<lparr>ts_words := (ts_words t)[unat index div 64 :=
              ts_words t ! (unat index div 64) AND NOT (push_bit (unat index mod 64) 1)]\<rparr>, True)
     else (t, False))"
proof (cases "index < ts_rows t")
  case True
  with row_index [OF assms] show ?thesis
    by (simp add: kill_def not_le [symmetric] Let_def test_mask [symmetric] live_set_def in_bits_of del: push_bit_of_1)
next
  case False
  then have "\<not> unat index < unat (ts_rows t)" by (simp add: word_less_nat_alt)
  with assms have "unat index \<notin> live_set t" by (auto simp: ts_inv_def)
  with False show ?thesis by (simp add: kill_def not_less)
qed

lemma kill_correct:
  assumes "ts_inv t"
  shows "snd (kill t index) = (unat index \<in> live_set t)"
    and "live_set (fst (kill t index)) = live_set t - {unat index}"
    and "ts_inv (fst (kill t index))"
proof -
  show "snd (kill t index) = (unat index \<in> live_set t)" by (simp add: kill_cases [OF assms])
  have "unat index \<in> live_set t \<Longrightarrow> unat index < 64 * length (ts_words t)"
    using bits_of_bound by (simp add: live_set_def)
  then show l: "live_set (fst (kill t index)) = live_set t - {unat index}"
    by (simp add: kill_cases [OF assms] live_set_def bits_of_clear_bit del: push_bit_of_1)
  have "length (ts_words (fst (kill t index))) = length (ts_words t)" "ts_rows (fst (kill t index)) = ts_rows t"
    by (simp_all add: kill_cases [OF assms])
  with assms l show "ts_inv (fst (kill t index))" by (auto simp: ts_inv_def)
qed

lemma sum_list_of_nat: "sum_list (map (\<lambda>w. of_nat (f w)) ws) = of_nat (sum_list (map f ws))"
  by (induction ws) simp_all

lemma live_count_card: "ts_inv t \<Longrightarrow> unat (live_count t) = card (live_set t)"
proof -
  assume inv: "ts_inv t"
  have "live_count t = of_nat (popcount (ts_words t))"
    unfolding live_count_def popcount_def by (rule sum_list_of_nat)
  then have c: "live_count t = of_nat (card (live_set t))" by (simp add: popcount_card live_set_def)
  have "card (live_set t) \<le> unat (ts_rows t)"
    using inv card_mono [of "{..<unat (ts_rows t)}" "live_set t"] by (simp add: ts_inv_def)
  also have "\<dots> < 2 ^ 32" by (rule unat_lt_32)
  finally show ?thesis using c by (simp add: unat_of_nat)
qed

subsection \<open>The file\<close>

definition tombstones_payload :: "tombstones \<Rightarrow> bytes" where
  "tombstones_payload t = to_le 4 (ts_rows t) @ to_le 4 (ts_generation t) @ replicate 8 0
     @ concat (map (to_le 8) (ts_words t))"

lemma tombstones_encode_eq: "tombstones_encode t = encode_block Deleted (tombstones_payload t)"
proof -
  have "fold (\<lambda>word w. writer_u64 w word) ws w = w @ concat (map (to_le 8) ws)" for ws w
    by (induction ws arbitrary: w) (simp_all add: codec_simps del: to_le.simps)
  then show ?thesis
    by (simp add: tombstones_encode_def tombstones_payload_def Let_def codec_simps del: to_le.simps)
qed

lemma length_concat_u64: "length (concat (map (to_le 8) ws)) = 8 * length ws"
  by (induction ws) auto

lemma tombstones_tail_iff:
  "length (ts_words t) = div_ceil (unat (ts_rows t)) 64 \<Longrightarrow>
   unat (ts_rows t) mod 64 \<noteq> 0 \<and> ts_words t \<noteq> []
     \<and> last (ts_words t) AND NOT (push_bit (unat (ts_rows t) mod 64) 1 - 1) \<noteq> 0
   \<longleftrightarrow> \<not> ts_inv t"
  using clear_tail_id_iff [of "ts_words t" "unat (ts_rows t)"] unfolding ts_inv_def live_set_def by blast

lemma tombstones_decode_payload:
  assumes "ts_inv t" and "decode_block bs Deleted = Inr (tombstones_payload t)"
  shows "tombstones_decode bs = Inr t"
proof -
  have len: "length (ts_words t) = div_ceil (unat (ts_rows t)) 64" using assms(1) by (simp add: ts_inv_def)
  have u: "unread (reader_new (tombstones_payload t)) (to_le 4 (ts_rows t) @ to_le 4 (ts_generation t)
      @ replicate 8 0 @ concat (map (to_le 8) (ts_words t)) @ [])"
    by (simp add: tombstones_payload_def)
  have loop: "\<exists>r''. read_times (div_ceil (unat (ts_rows t)) 64) reader_u64 r' = Inr (ts_words t, r'')
      \<and> unread r'' []" if "unread r' (concat (map (to_le 8) (ts_words t)) @ [])" for r'
    using u64c.times_enc [of "ts_words t" r' "[]"] that len unread_advance [OF that] by simp
  show ?thesis
    unfolding tombstones_decode_def assms(2) rbind_Inr Let_def
    apply (rule codec_steps, rule u, rule TrueI)
    apply (rule codec_steps, assumption, rule TrueI)+
    subgoal premises p for r1 r2 r3
    proof -
      from loop [OF p(6)] obtain r'' where r'': "read_times (div_ceil (unat (ts_rows t)) 64) reader_u64 r3 = Inr (ts_words t, r'')"
        "unread r'' []" by blast
      have "remaining r3 = div_ceil (unat (ts_rows t)) 64 * 8"
        using unread_remaining [OF p(6)] len by (simp add: length_concat_u64)
      with r'' expect_end_Nil [OF r''(2)] tombstones_tail_iff [OF len] assms(1) show ?thesis
        by (cases t) auto
    qed
    done
qed

lemma tombstones_decode_sound:
  assumes "tombstones_decode bs = Inr t"
  shows "ts_inv t" and "decode_block bs Deleted = Inr (tombstones_payload t)"
proof -
  from assms obtain pl where pl: "decode_block bs Deleted = Inr pl"
    by (auto simp: tombstones_decode_def elim!: rbind_InrE)
  from assms obtain rows g ws r1 r2 r3 r4 where r: "reader_u32 (reader_new pl) = Inr (rows, r1)"
      "reader_u32 r1 = Inr (g, r2)" "reader_reserved 8 r2 = Inr ((), r3)"
      "read_times (div_ceil (unat rows) 64) reader_u64 r3 = Inr (ws, r4)"
    and tail: "\<not> (unat rows mod 64 \<noteq> 0 \<and> ws \<noteq> [] \<and> last ws AND NOT (push_bit (unat rows mod 64) 1 - 1) \<noteq> 0)"
    and e: "expect_end ''tombstones'' r4 = Inr ()"
    and t: "t = \<lparr>ts_rows = rows, ts_generation = g, ts_words = ws\<rparr>"
    by (auto simp: tombstones_decode_def Let_def pl simp del: push_bit_of_1 elim!: rbind_InrE split: if_splits)
  have "unread (reader_new pl) pl" by simp
  with r(1,2,3) obtain xs where xs: "pl = to_le 4 rows @ to_le 4 g @ replicate 8 0 @ xs" "unread r3 xs"
    by - (drule (1) codec_dests, clarsimp)+
  from u64c.times_sound [OF r(4) xs(2)] obtain rest where
    ws: "length ws = div_ceil (unat rows) 64" "xs = concat (map (to_le 8) ws) @ rest" "unread r4 rest" by blast
  have "rest = []" using e ws(3) by (simp add: expect_end_iff)
  with xs ws t have "pl = tombstones_payload t" by (simp add: tombstones_payload_def)
  with pl show "decode_block bs Deleted = Inr (tombstones_payload t)" by simp
  show "ts_inv t" using tombstones_tail_iff [of t] tail ws(1) t by simp
qed

subsection \<open>Properties\<close>

text \<open>
  Killing a row removes exactly that row from the live set, reports whether it
  was live, and keeps the bitmap well formed; a row out of range is left alone.
\<close>

lemma tombstones_kill:
  assumes "ts_inv t"
  shows "ts_inv (fst (kill t index)) \<and> live_set (fst (kill t index)) = live_set t - {unat index}
     \<and> snd (kill t index) = is_live t index \<and> (\<forall>j. is_live (fst (kill t index)) j = (is_live t j \<and> j \<noteq> index))"
proof (intro conjI allI)
  note k = kill_correct [OF assms, of index]
  show "ts_inv (fst (kill t index))" "live_set (fst (kill t index)) = live_set t - {unat index}"
    by (rule k)+
  show "snd (kill t index) = is_live t index" by (simp only: k is_live_iff [OF assms])
  show "is_live (fst (kill t index)) j = (is_live t j \<and> j \<noteq> index)" for j
    unfolding is_live_iff [OF k(3)] is_live_iff [OF assms] k(2) Diff_iff singleton_iff word_unat_eq_iff
    by (rule refl)
qed

text \<open>
  The \<open>.del\<close> file carries the bitmap: decoding succeeds exactly on a block whose
  payload is the encoding of a well-formed bitmap, and returns that bitmap.
\<close>

lemma tombstones_decode_iff:
  "tombstones_decode bs = Inr t \<longleftrightarrow> ts_inv t \<and> decode_block bs Deleted = Inr (tombstones_payload t)"
  using tombstones_decode_payload tombstones_decode_sound by blast

text \<open>
  The count is honest: the population count of a well-formed bitmap, which is
  every bitmap that decodes, is the number of live rows and never exceeds the row count.
\<close>

lemma tombstones_live_count:
  assumes "tombstones_decode bs = Inr t"
  shows "unat (live_count t) = card (live_set t) \<and> live_count t \<le> ts_rows t"
proof -
  have inv: "ts_inv t" using tombstones_decode_sound [OF assms] by simp
  have "card (live_set t) \<le> unat (ts_rows t)"
    using inv card_mono [of "{..<unat (ts_rows t)}" "live_set t"] by (simp add: ts_inv_def)
  with live_count_card [OF inv] show ?thesis by (simp add: word_le_nat_alt)
qed

end
