(* ===== verification/Catalog_Format.thy ===== *)
theory Catalog_Format
  imports Block
begin

text \<open>
  A collection's immutable specification (\<open>isha-vector-db-format/src/catalog.rs\<close>): the
  enumerations with their codes, and the checksummed \<open>CATALOG\<close> file.
\<close>

definition MAX_DIMENSION :: u32 where
  "MAX_DIMENSION = 65536"

datatype metric = Cosine | L2 | Dot

primrec metric_code :: "metric \<Rightarrow> u8" where
  "metric_code Cosine = 1"
| "metric_code L2 = 2"
| "metric_code Dot = 3"

definition metric_from_code :: "u8 \<Rightarrow> metric option" where
  "metric_from_code v =
     (if v = 1 then Some Cosine else if v = 2 then Some L2 else if v = 3 then Some Dot else None)"

definition METRIC_ALL :: "metric list" where
  "METRIC_ALL = [Cosine, L2, Dot]"

primrec metric_name :: "metric \<Rightarrow> string" where
  "metric_name Cosine = ''cosine''"
| "metric_name L2 = ''l2''"
| "metric_name Dot = ''dot''"

datatype vector_dtype = F32

primrec dtype_code :: "vector_dtype \<Rightarrow> u8" where
  "dtype_code F32 = 1"

definition dtype_from_code :: "u8 \<Rightarrow> vector_dtype option" where
  "dtype_from_code v = (if v = 1 then Some F32 else None)"

primrec component_size :: "vector_dtype \<Rightarrow> nat" where
  "component_size F32 = 4"

definition dtype_row_stride :: "vector_dtype \<Rightarrow> u32 \<Rightarrow> nat" where
  "dtype_row_stride d dimension = component_size d * unat dimension"

text \<open>\<open>StrId max_len\<close> and \<open>U64Id\<close> are \<open>IdKind::Str { max_len }\<close> and \<open>IdKind::U64\<close>.\<close>

datatype id_kind = StrId u32 | U64Id

datatype index_spec = Flat

primrec index_code :: "index_spec \<Rightarrow> u8" where
  "index_code Flat = 1"

primrec index_name :: "index_spec \<Rightarrow> string" where
  "index_name Flat = ''flat''"

record catalog =
  cat_name :: rust_string
  cat_dimension :: u32
  cat_metric :: metric
  cat_dtype :: vector_dtype
  cat_id_kind :: id_kind
  cat_index :: index_spec
  cat_created_at_ms :: u64

definition cat_row_stride :: "catalog \<Rightarrow> nat" where
  "cat_row_stride c = dtype_row_stride (cat_dtype c) (cat_dimension c)"

definition catalog_validate :: "catalog \<Rightarrow> unit fresult" where
  "catalog_validate c =
     (if cat_dimension c = 0 then Inl (Malformed 0 (ZeroNotAllowed ''dimension''))
      else if cat_dimension c > MAX_DIMENSION then Inl (Malformed 0 (Inconsistent ''dimension''))
      else if cat_name c = [] then Inl (Malformed 0 (ZeroNotAllowed ''name length''))
      else case cat_id_kind c of
        StrId max_len \<Rightarrow>
          if max_len = 0 then Inl (Malformed 0 (ZeroNotAllowed ''id max_len'')) else Inr ()
      | U64Id \<Rightarrow> Inr ())"

definition catalog_encode :: "catalog \<Rightarrow> bytes fresult" where
  "catalog_encode c =
     rbind (catalog_validate c) (\<lambda>_.
     let w = writer_string writer_new (cat_name c);
         w = writer_u32 w (cat_dimension c);
         w = writer_u8 w (metric_code (cat_metric c));
         w = writer_u8 w (dtype_code (cat_dtype c));
         w = (case cat_id_kind c of
                StrId max_len \<Rightarrow> writer_u32 (writer_u8 w 1) max_len
              | U64Id \<Rightarrow> writer_u32 (writer_u8 w 2) 0);
         w = writer_blob (writer_u8 w (index_code (cat_index c))) [];
         w = writer_u64 w (cat_created_at_ms c);
         w = writer_reserved w 8
     in Inr (encode_block Catalog w))"

text \<open>Validation failures found while decoding are re-anchored at the dimension field.\<close>

definition re_anchor :: "u64 \<Rightarrow> format_error \<Rightarrow> format_error" where
  "re_anchor dim_at e = (case e of Malformed _ kind \<Rightarrow> Malformed dim_at kind | other \<Rightarrow> other)"

definition catalog_decode :: "bytes \<Rightarrow> catalog fresult" where
  "catalog_decode bs =
     rbind (decode_block bs Catalog) (\<lambda>payload.
     let r = reader_new payload in
     rbind (reader_string r) (\<lambda>(name, r).
     let dim_at = offset r in
     rbind (reader_u32 r) (\<lambda>(dimension, r).
     let metric_at = offset r in
     rbind (reader_u8 r) (\<lambda>(metric_code, r).
     rbind (ok_or (metric_from_code metric_code)
         (Malformed metric_at (UnknownDiscriminant ''metric'' 0))) (\<lambda>metric.
     let dtype_at = offset r in
     rbind (reader_u8 r) (\<lambda>(dtype_code, r).
     rbind (ok_or (dtype_from_code dtype_code)
         (Malformed dtype_at (UnknownDiscriminant ''dtype'' dtype_code))) (\<lambda>dtype.
     let id_at = offset r in
     rbind (reader_u8 r) (\<lambda>(id_code, r).
     rbind (reader_u32 r) (\<lambda>(max_len, r).
     rbind (if id_code = 1 then Inr (StrId max_len)
            else if id_code = 2 then Inr U64Id
            else Inl (Malformed id_at (UnknownDiscriminant ''id_kind'' id_code))) (\<lambda>id_kind.
     let index_at = offset r in
     rbind (reader_u8 r) (\<lambda>(index_code, r).
     rbind (reader_blob r) (\<lambda>(_, r).
     rbind (if index_code = 1 then Inr Flat
            else Inl (Malformed index_at (UnknownDiscriminant ''index'' index_code))) (\<lambda>index.
     rbind (reader_u64 r) (\<lambda>(created_at_ms, r).
     rbind (reader_reserved 8 r) (\<lambda>(_, r).
     rbind (expect_end ''catalog'' r) (\<lambda>_.
     let catalog = \<lparr>cat_name = name, cat_dimension = dimension, cat_metric = metric, cat_dtype = dtype,
                    cat_id_kind = id_kind, cat_index = index, cat_created_at_ms = created_at_ms\<rparr> in
     rbind (map_err (re_anchor dim_at) (catalog_validate catalog)) (\<lambda>_.
       Inr catalog)))))))))))))))))"

subsection \<open>Round trip\<close>

lemma metric_from_code_code [simp]: "metric_from_code (metric_code m) = Some m"
  by (cases m) (simp_all add: metric_from_code_def)

lemma dtype_from_code_code [simp]: "dtype_from_code (dtype_code d) = Some d"
  by (cases d) (simp_all add: dtype_from_code_def)

definition id_bytes :: "id_kind \<Rightarrow> bytes" where
  "id_bytes k = (case k of StrId n \<Rightarrow> [1] @ to_le 4 n | U64Id \<Rightarrow> [2] @ to_le 4 (0 :: u32))"

definition catalog_payload :: "catalog \<Rightarrow> bytes" where
  "catalog_payload c = blob_bytes (cat_name c) @ to_le 4 (cat_dimension c) @ [metric_code (cat_metric c)]
     @ [dtype_code (cat_dtype c)] @ id_bytes (cat_id_kind c) @ [index_code (cat_index c)] @ blob_bytes []
     @ to_le 8 (cat_created_at_ms c) @ replicate 8 0"

lemma catalog_encode_eq:
  "catalog_encode c = rbind (catalog_validate c) (\<lambda>_. Inr (encode_block Catalog (catalog_payload c)))"
  by (cases "cat_id_kind c")
     (simp_all add: catalog_encode_def catalog_payload_def id_bytes_def Let_def codec_simps del: to_le.simps)

lemma blob_ok_Nil: "blob_ok []"
  by (simp add: blob_ok_def)

lemma catalog_decode_payload:
  assumes "string_ok (cat_name c)" and "catalog_validate c = Inr ()"
    and "decode_block bs Catalog = Inr (catalog_payload c)"
  shows "catalog_decode bs = Inr c"
proof -
  obtain k n where k: "id_bytes (cat_id_kind c) = [k] @ to_le 4 n"
    and ik: "cat_id_kind c = (if k = 1 then StrId n else U64Id)" "k = 1 \<or> k = 2"
    by (cases "cat_id_kind c") (auto simp: id_bytes_def)
  have ix: "index_code (cat_index c) = 1" "cat_index c = Flat" by (cases "cat_index c"; simp)+
  have idk: "(if k = 1 then Inr (StrId n) else if k = 2 then Inr U64Id else Inl e) = Inr (cat_id_kind c)" for e :: format_error
    using ik by auto
  have u: "unread (reader_new (catalog_payload c)) (blob_bytes (cat_name c) @ to_le 4 (cat_dimension c)
     @ [metric_code (cat_metric c)] @ [dtype_code (cat_dtype c)] @ [k] @ to_le 4 n
     @ [index_code (cat_index c)] @ blob_bytes [] @ to_le 8 (cat_created_at_ms c) @ replicate 8 0 @ [])"
    by (simp add: catalog_payload_def k)
  show ?thesis
    unfolding catalog_decode_def assms(3) rbind_Inr Let_def
    apply (rule codec_steps, rule u, rule assms(1))
    apply (rule codec_steps, assumption, rule TrueI)+
    apply (simp only: metric_from_code_code ok_or_simps rbind_Inr)
    apply (rule codec_steps, assumption, rule TrueI)
    apply (simp only: dtype_from_code_code ok_or_simps rbind_Inr)
    apply (rule codec_steps, assumption, rule TrueI)+
    apply (simp only: idk rbind_Inr)
    apply (rule codec_steps, assumption, rule TrueI)
    apply (rule codec_steps, assumption, rule blob_ok_Nil)
    apply (simp only: ix(1) if_True refl rbind_Inr)
    apply (rule codec_steps, assumption, rule TrueI)+
    apply (subst expect_end_Nil, assumption)
    using assms(2) ix(2) by (cases c) simp
qed

lemma catalog_encode_iff:
  "catalog_encode c = Inr bs \<longleftrightarrow> catalog_validate c = Inr () \<and> bs = encode_block Catalog (catalog_payload c)"
  by (auto simp: catalog_encode_eq rbind_eq_Inr_iff)

text \<open>What a successful decode guarantees about the result, whatever the bytes.\<close>

lemma catalog_decode_validates:
  assumes "catalog_decode bs = Inr c"
  shows "catalog_validate c = Inr ()" and "string_ok (cat_name c)"
proof -
  from assms obtain pl where pl: "decode_block bs Catalog = Inr pl"
    by (auto simp: catalog_decode_def elim!: rbind_InrE)
  from assms obtain name r where n: "reader_string (reader_new pl) = Inr (name, r)"
    and c: "cat_name c = name" and v: "catalog_validate c = Inr ()"
    by (auto simp: catalog_decode_def Let_def pl elim!: rbind_InrE)
  have "unread (reader_new pl) pl" by simp
  with stringc.dec_sound [OF n] c show "string_ok (cat_name c)" by blast
  show "catalog_validate c = Inr ()" by (rule v)
qed

lemma catalog_validate_iff:
  "catalog_validate c = Inr () \<longleftrightarrow> 0 < cat_dimension c \<and> cat_dimension c \<le> MAX_DIMENSION
     \<and> cat_name c \<noteq> [] \<and> cat_id_kind c \<noteq> StrId 0"
  by (auto simp: catalog_validate_def not_less word_gt_0 split: id_kind.splits)

subsection \<open>Properties\<close>

text \<open>
  Property C38.  A catalog file round trips: every specification that validates decodes from
  its file unchanged.
\<close>

theorem catalog_roundtrip:
  assumes "string_ok (cat_name c)" and "catalog_encode c = Inr bs" and "length bs < 2 ^ 64"
  shows "catalog_decode bs = Inr c"
proof -
  from assms(2) have v: "catalog_validate c = Inr ()" and bs: "bs = encode_block Catalog (catalog_payload c)"
    by (simp_all add: catalog_encode_iff)
  have "length (catalog_payload c) + 36 < 2 ^ 64" using assms(3) unfolding bs encode_block_eq by simp
  from decode_block_encode [OF this, of Catalog "[]"] bs show ?thesis
    by (intro catalog_decode_payload [OF assms(1) v]) simp
qed

theorem catalog_roundtrip_witness:
  "let c = \<lparr>cat_name = [0x61], cat_dimension = 3, cat_metric = Cosine, cat_dtype = F32,
            cat_id_kind = U64Id, cat_index = Flat, cat_created_at_ms = 7\<rparr>
   in \<exists>bs. catalog_encode c = Inr bs \<and> catalog_decode bs = Inr c"
proof -
  let ?c = "\<lparr>cat_name = [0x61], cat_dimension = 3, cat_metric = Cosine, cat_dtype = F32,
            cat_id_kind = U64Id, cat_index = Flat, cat_created_at_ms = 7\<rparr>"
  let ?bs = "encode_block Catalog (catalog_payload ?c)"
  have e: "catalog_encode ?c = Inr ?bs"
    by (simp add: catalog_encode_iff catalog_validate_iff MAX_DIMENSION_def)
  have "length ?bs < 2 ^ 64"
    by (simp add: encode_block_eq catalog_payload_def id_bytes_def blob_bytes_def u64_of_def varint_bytes.simps)
  with catalog_roundtrip [OF _ e] e show ?thesis by (simp add: Let_def string_ok_def blob_ok_def)
qed

text \<open>
  No unusable specification is ever returned: a catalog that decodes has a
  dimension between 1 and 65536, a non-empty UTF-8 name and a non-zero id length.
\<close>

lemma catalog_decode_valid:
  assumes "catalog_decode bs = Inr c"
  shows "0 < cat_dimension c \<and> cat_dimension c \<le> MAX_DIMENSION \<and> cat_name c \<noteq> []
     \<and> valid_utf8 (cat_name c) \<and> cat_id_kind c \<noteq> StrId 0"
  using catalog_decode_validates [OF assms] by (simp add: catalog_validate_iff string_ok_def)

end
