(* ===== verification/Document.thy ===== *)
theory Document
  imports Db_Path Segment_Vectors Value Catalog_Format
begin

text \<open>
  Documents as the engine handles them: ids and row handles (\<open>core/src/document.rs\<close>), vector
  views (\<open>core/src/vector.rs\<close>), metadata maps (\<open>core/src/metadata.rs\<close>) and the validation
  of a document against its collection.  Floating-point values are bit patterns; the
  arithmetic the norm needs is a parameter \<open>fpu\<close>, so that nothing is assumed about rounding.
\<close>

subsection \<open>Limits\<close>

definition MAX_DOC_ID_LEN :: nat where "MAX_DOC_ID_LEN = 512"
definition MAX_METADATA_BYTES :: nat where "MAX_METADATA_BYTES = 65536"
definition MAX_METADATA_DEPTH :: nat where "MAX_METADATA_DEPTH = MAX_VALUE_DEPTH"
definition MAX_CONTENT_BYTES :: nat where "MAX_CONTENT_BYTES = 1048576"
definition MAX_TOP_K :: nat where "MAX_TOP_K = 10000"
definition MAX_BATCH_OPS :: nat where "MAX_BATCH_OPS = 100000"

definition check_top_k :: "nat \<Rightarrow> unit db_result" where
  "check_top_k top_k =
     (if top_k = 0 \<or> top_k > MAX_TOP_K then Inl (Validation (TopKOutOfRange top_k MAX_TOP_K)) else Inr ())"

definition check_batch_size :: "nat \<Rightarrow> unit db_result" where
  "check_batch_size ops =
     (if ops > MAX_BATCH_OPS then Inl (Validation (BatchTooLarge ops MAX_BATCH_OPS)) else Inr ())"

subsection \<open>Document ids\<close>

datatype doc_id = DocStr rust_string | DocU64 u64

text \<open>The derived \<open>Ord\<close>: strings before integers, each by its own order.\<close>

instantiation doc_id :: linorder
begin

definition less_eq_doc_id :: "doc_id \<Rightarrow> doc_id \<Rightarrow> bool" where
  "a \<le> b \<longleftrightarrow> (case a of DocStr s \<Rightarrow> (case b of DocStr t \<Rightarrow> s \<le> t | DocU64 _ \<Rightarrow> True)
     | DocU64 m \<Rightarrow> (case b of DocStr _ \<Rightarrow> False | DocU64 n \<Rightarrow> m \<le> n))"

definition less_doc_id :: "doc_id \<Rightarrow> doc_id \<Rightarrow> bool" where
  "a < b \<longleftrightarrow> (case a of DocStr s \<Rightarrow> (case b of DocStr t \<Rightarrow> s < t | DocU64 _ \<Rightarrow> True)
     | DocU64 m \<Rightarrow> (case b of DocStr _ \<Rightarrow> False | DocU64 n \<Rightarrow> m < n))"

instance
  by standard (auto simp: less_eq_doc_id_def less_doc_id_def split: doc_id.splits)

end

definition id_reject :: "id_rejection \<Rightarrow> nat \<Rightarrow> nat \<Rightarrow> db_error" where
  "id_reject reason len mx = Validation (InvalidDocumentId reason len mx)"

primrec id_to_bytes :: "doc_id \<Rightarrow> bytes" where
  "id_to_bytes (DocStr s) = s"
| "id_to_bytes (DocU64 v) = to_le 8 v"

primrec id_from_bytes :: "id_kind \<Rightarrow> bytes \<Rightarrow> doc_id db_result" where
  "id_from_bytes (StrId m) bs =
     (if valid_utf8 bs then Inr (DocStr bs)
      else Inl (id_reject NotUtf8 (length bs) MAX_DOC_ID_LEN))"
| "id_from_bytes U64Id bs =
     (if length bs = 8 then Inr (DocU64 (from_le bs))
      else Inl (id_reject IdIllegalCharacter (length bs) 8))"

text \<open>
  \<open>s.chars().any(char::is_control)\<close> on the UTF-8 bytes: U+0000 to U+001F and U+007F are single
  bytes, U+0080 to U+009F are encoded as \<open>C2 80\<close> to \<open>C2 9F\<close>.
\<close>

fun has_control :: "rust_string \<Rightarrow> bool" where
  "has_control [] = False"
| "has_control [b] = (b < 0x20 \<or> b = 0x7F)"
| "has_control (b # c # bs) =
     (b < 0x20 \<or> b = 0x7F \<or> (b = 0xC2 \<and> 0x80 \<le> c \<and> c \<le> 0x9F) \<or> has_control (c # bs))"

fun id_validate :: "doc_id \<Rightarrow> id_kind \<Rightarrow> unit db_result" where
  "id_validate (DocStr s) (StrId max_len) =
     (let mx = min (unat max_len) MAX_DOC_ID_LEN in
      if s = [] then Inl (id_reject IdEmpty 0 mx)
      else if length s > mx then Inl (id_reject IdTooLong (length s) mx)
      else if has_control s then Inl (id_reject IdIllegalCharacter (length s) mx)
      else Inr ())"
| "id_validate (DocU64 v) U64Id = Inr ()"
| "id_validate i k = Inl (id_reject IdIllegalCharacter (length (id_to_bytes i)) MAX_DOC_ID_LEN)"

text \<open>A \<open>String\<close> is valid UTF-8 by construction.\<close>

definition id_wf :: "doc_id \<Rightarrow> bool" where
  "id_wf i = (case i of DocStr s \<Rightarrow> valid_utf8 s | DocU64 _ \<Rightarrow> True)"

subsection \<open>Row handles\<close>

type_synonym row_id = u64

definition row_id_new :: "u32 \<Rightarrow> u32 \<Rightarrow> row_id" where
  "row_id_new segment row = push_bit 32 (ucast segment) OR ucast row"

definition row_id_segment :: "row_id \<Rightarrow> u32" where
  "row_id_segment r = ucast (drop_bit 32 r)"

definition row_id_row :: "row_id \<Rightarrow> u32" where
  "row_id_row r = ucast r"

lemma row_id_unpack [simp]:
  "row_id_segment (row_id_new s r) = s" "row_id_row (row_id_new s r) = r"
  by (rule bit_word_eqI; auto simp: row_id_segment_def row_id_row_def row_id_new_def bit_simps dest: bit_imp_le_length)+

lemma row_id_eta: "row_id_new (row_id_segment r) (row_id_row r) = r"
  by (rule bit_word_eqI) (auto simp: row_id_segment_def row_id_row_def row_id_new_def bit_simps)

lemma row_id_value: "unat (row_id_new s r) = unat s * 2 ^ 32 + unat r"
proof -
  have "push_bit 32 (ucast s :: u64) AND ucast r = 0"
    by (rule bit_word_eqI) (auto simp: bit_simps dest: bit_imp_le_length)
  then have e: "row_id_new s r = push_bit 32 (ucast s) + ucast r"
    by (simp add: row_id_new_def disjunctive_add_eq_or)
  have lt: "unat s * 2 ^ 32 + unat r < 2 ^ 64"
    using unat_lt_32 [of s] unat_lt_32 [of r] by simp
  have "push_bit 32 (ucast s :: u64) = of_nat (unat s * 2 ^ 32)"
    by (simp add: push_bit_eq_mult)
  then have "row_id_new s r = of_nat (unat s * 2 ^ 32 + unat r)" using e by simp
  then show ?thesis using lt by (simp only: unat_of_nat) simp
qed

lemma row_id_less_iff:
  "row_id_new s r < row_id_new s' r' \<longleftrightarrow> s < s' \<or> (s = s' \<and> r < r')"
proof -
  have "unat s * 2 ^ 32 + unat r < unat s' * 2 ^ 32 + unat r' \<longleftrightarrow> unat s < unat s' \<or> (unat s = unat s' \<and> unat r < unat r')"
    using unat_lt_32 [of r] unat_lt_32 [of r'] by auto
  then show ?thesis by (simp add: word_less_nat_alt row_id_value word_unat_eq_iff)
qed

subsection \<open>Vector views\<close>

text \<open>The floating-point operations the norm uses: product, iterator sum, square root, reciprocal.\<close>

record fpu =
  f_mul :: "u32 \<Rightarrow> u32 \<Rightarrow> u32"
  f_sum :: "u32 list \<Rightarrow> u32"
  f_sqrt :: "u32 \<Rightarrow> u32"
  f_recip :: "u32 \<Rightarrow> u32"

definition f32_is_nan :: "u32 \<Rightarrow> bool" where
  "f32_is_nan x \<longleftrightarrow> x AND 0x7FFFFFFF > 0x7F800000"

definition f32_positive :: "u32 \<Rightarrow> bool" where
  "f32_positive x \<longleftrightarrow> 0 < x \<and> x \<le> 0x7F800000"

datatype vector_view = VF32 "u32 list" | VRaw vector_dtype bytes u32

definition view_raw :: "vector_dtype \<Rightarrow> bytes \<Rightarrow> u32 \<Rightarrow> vector_view db_result" where
  "view_raw dtype bs dimension =
     (let expected = dtype_row_stride dtype dimension in
      if length bs \<noteq> expected
      then Inl (Validation (InvalidVectorDimension (ascii ''<input>'') dimension
             (of_nat (length bs div max (component_size dtype) 1))))
      else Inr (VRaw dtype bs dimension))"

primrec view_dtype :: "vector_view \<Rightarrow> vector_dtype" where
  "view_dtype (VF32 v) = F32"
| "view_dtype (VRaw dtype bs d) = dtype"

primrec view_dimension :: "vector_view \<Rightarrow> u32" where
  "view_dimension (VF32 v) = of_nat (length v)"
| "view_dimension (VRaw dtype bs d) = d"

primrec view_bytes :: "vector_view \<Rightarrow> bytes" where
  "view_bytes (VF32 v) = concat (map (to_le 4) v)"
| "view_bytes (VRaw dtype bs d) = bs"

primrec view_f32 :: "vector_view \<Rightarrow> u32 list" where
  "view_f32 (VF32 v) = v"
| "view_f32 (VRaw dtype bs d) = f32s_of bs"

definition view_norm :: "fpu \<Rightarrow> vector_view \<Rightarrow> u32" where
  "view_norm F v = f_sqrt F (f_sum F (map (\<lambda>x. f_mul F x x) (view_f32 v)))"

definition view_inv_norm :: "fpu \<Rightarrow> vector_view \<Rightarrow> u32" where
  "view_inv_norm F v = (let n = view_norm F v in if f32_positive n \<and> f32_is_finite n then f_recip F n else 0)"

definition check_finite :: "vector_view \<Rightarrow> unit db_result" where
  "check_finite v =
     (let xs = view_f32 v; ok = takeWhile f32_is_finite xs in
      if length ok = length xs then Inr ()
      else let x = xs ! length ok;
               reason = (if f32_is_nan x then Nan else if f32_positive x then PosInf else NegInf)
           in Inl (Validation (InvalidVectorData reason (length ok))))"

definition view_check_dimension :: "vector_view \<Rightarrow> rust_string \<Rightarrow> u32 \<Rightarrow> unit db_result" where
  "view_check_dimension v collection expected =
     (let actual = view_dimension v in
      if actual \<noteq> expected then Inl (Validation (InvalidVectorDimension collection expected actual))
      else Inr ())"

definition view_validate :: "vector_view \<Rightarrow> rust_string \<Rightarrow> u32 \<Rightarrow> unit db_result" where
  "view_validate v collection expected =
     rbind (view_check_dimension v collection expected) (\<lambda>_. check_finite v)"

definition check_dimension :: "u32 \<Rightarrow> unit db_result" where
  "check_dimension dimension =
     (if dimension = 0 \<or> dimension > MAX_DIMENSION then Inl (Validation (InvalidDimension dimension MAX_DIMENSION))
      else Inr ())"

lemma check_finite_iff: "check_finite v = Inr () \<longleftrightarrow> list_all f32_is_finite (view_f32 v)"
proof -
  have "length (takeWhile P xs) = length xs \<longleftrightarrow> list_all P xs" for P :: "u32 \<Rightarrow> bool" and xs
    by (induction xs) auto
  then show ?thesis by (simp add: check_finite_def Let_def)
qed

subsection \<open>Metadata\<close>

type_synonym metadata = "(rust_string \<times> val) list"

definition meta_insert :: "metadata \<Rightarrow> rust_string \<Rightarrow> val \<Rightarrow> metadata \<times> val option" where
  "meta_insert m key v = (btree_insert key v m, map_of m key)"

definition meta_remove :: "metadata \<Rightarrow> rust_string \<Rightarrow> metadata \<times> val option" where
  "meta_remove m key = (filter (\<lambda>(k, v). k \<noteq> key) m, map_of m key)"

definition meta_get :: "metadata \<Rightarrow> rust_string \<Rightarrow> val option" where
  "meta_get m key = map_of m key"

fun descend :: "rust_string list \<Rightarrow> val \<Rightarrow> val option" where
  "descend [] current = Some current"
| "descend (seg # segs) current =
     (case current of
        Map es \<Rightarrow> (case map_of es seg of None \<Rightarrow> None | Some v \<Rightarrow> descend segs v)
      | _ \<Rightarrow> None)"

definition get_path :: "metadata \<Rightarrow> rust_string \<Rightarrow> val option" where
  "get_path m path =
     (case split_dots path of
        [] \<Rightarrow> None
      | seg # segs \<Rightarrow> (case map_of m seg of None \<Rightarrow> None | Some v \<Rightarrow> descend segs v))"

definition meta_depth :: "metadata \<Rightarrow> nat" where
  "meta_depth m = (if m = [] then 0 else 1 + max_or_zero (map (\<lambda>(k, v). depth v) m) - 1)"

text \<open>\<open>max_by_key\<close> keeps the last of equal maxima.\<close>

definition largest_field :: "metadata \<Rightarrow> rust_string" where
  "largest_field m =
     (let size = (\<lambda>v. case encode v of Inl _ \<Rightarrow> 0 | Inr b \<Rightarrow> length b) in
      case fold (\<lambda>(k, v) best. case best of
                   None \<Rightarrow> Some (k, size v)
                 | Some (bk, bs) \<Rightarrow> if bs \<le> size v then Some (k, size v) else Some (bk, bs)) m None of
        None \<Rightarrow> ascii ''<document>''
      | Some (k, _) \<Rightarrow> k)"

definition meta_validate :: "metadata \<Rightarrow> unit db_result" where
  "meta_validate m =
     (let d = meta_depth m in
      if d > MAX_METADATA_DEPTH then Inl (Validation (MetadataDepthExceeded d MAX_METADATA_DEPTH))
      else
        rbind (map_err from_format (encode (Map m))) (\<lambda>encoded.
        if length encoded > MAX_METADATA_BYTES
        then Inl (Validation (MetadataTooLarge (largest_field m) (length encoded) MAX_METADATA_BYTES))
        else Inr ()))"

definition meta_encode :: "metadata \<Rightarrow> bytes db_result" where
  "meta_encode m = rbind (meta_validate m) (\<lambda>_. map_err from_format (encode (Map m)))"

definition meta_decode :: "bytes \<Rightarrow> metadata db_result" where
  "meta_decode bs =
     (if bs = [] then Inr []
      else rbind (map_err from_format (decode bs)) (\<lambda>v.
        case v of Map m \<Rightarrow> Inr m | other \<Rightarrow> Inl (Internal (ascii (type_name other)))))"

subsection \<open>A document to be written\<close>

record document_input =
  di_id :: doc_id
  di_vector :: vector_view
  di_metadata :: "metadata option"
  di_content :: "bytes option"

definition doc_validate :: "document_input \<Rightarrow> rust_string \<Rightarrow> u32 \<Rightarrow> id_kind \<Rightarrow> unit db_result" where
  "doc_validate d collection dimension kind =
     rbind (id_validate (di_id d) kind) (\<lambda>_.
     rbind (view_validate (di_vector d) collection dimension) (\<lambda>_.
     rbind (case di_metadata d of None \<Rightarrow> Inr () | Some m \<Rightarrow> meta_validate m) (\<lambda>_.
     case di_content d of
       None \<Rightarrow> Inr ()
     | Some c \<Rightarrow> if length c > MAX_CONTENT_BYTES
                 then Inl (Validation (MetadataTooLarge (ascii ''<content>'') (length c) MAX_CONTENT_BYTES))
                 else Inr ())))"

subsection \<open>Lemmas\<close>

lemma id_bytes_roundtrip:
  assumes "id_wf i" and "id_validate i k = Inr ()"
  shows "id_from_bytes k (id_to_bytes i) = Inr i"
proof -
  have "from_le (to_le 8 v) = v" for v :: u64 by (rule from_le_to_le) simp
  with assms show ?thesis by (cases i; cases k) (auto simp: id_wf_def simp del: to_le.simps)
qed

lemma get_path_lookup: "get_path m path = lookup_path (Map m) (split_dots path)"
proof -
  have d: "descend segs v = lookup_path v segs" for segs v
    by (induction segs arbitrary: v) (auto split: val.splits option.splits)
  show ?thesis
    by (cases path) (auto simp: get_path_def d split: list.splits option.splits)
qed

lemma meta_encode_decode:
  assumes "val_wf (Map m)" and "meta_encode m = Inr bs"
  shows "meta_decode bs = Inr m" and "length bs \<le> MAX_METADATA_BYTES"
proof -
  from assms(2) have e: "encode (Map m) = Inr bs" and l: "length bs \<le> MAX_METADATA_BYTES"
    by (auto simp: meta_encode_def meta_validate_def Let_def elim!: rbind_InrE split: if_splits)
  then have "length bs < 2 ^ 64" by (simp add: MAX_METADATA_BYTES_def)
  with encode_rep [OF e assms(1)] have "decode bs = Inr (Map m)" by (simp add: decode_iff)
  moreover have "bs \<noteq> []" using val_rep_pos [OF encode_rep [OF e assms(1)]] by auto
  ultimately show "meta_decode bs = Inr m" by (simp add: meta_decode_def)
  show "length bs \<le> MAX_METADATA_BYTES" by (rule l)
qed

subsection \<open>Properties\<close>

text \<open>
  The stored form of an id is faithful: an id that passed validation for a
  collection is rebuilt unchanged from its bytes under that collection's id kind, so two
  valid ids of one collection are stored under the same bytes only if they are equal.
\<close>

lemma doc_id_roundtrip:
  assumes "id_wf i" "id_validate i k = Inr ()" and "id_wf j" "id_validate j k = Inr ()"
  shows "id_from_bytes k (id_to_bytes i) = Inr i \<and> (id_to_bytes i = id_to_bytes j \<longleftrightarrow> i = j)"
proof -
  have i: "id_from_bytes k (id_to_bytes i) = Inr i" and j: "id_from_bytes k (id_to_bytes j) = Inr j"
    by (rule id_bytes_roundtrip, fact+)+
  have "i = j" if "id_to_bytes i = id_to_bytes j" using i j unfolding that by simp
  with i show ?thesis by blast
qed

text \<open>
  Metadata that the engine accepted survives storage: the encoded map stays
  within the size limit and decodes to the same map, and every dotted path finds in it what
  walking the encoded value finds.
\<close>

lemma metadata_roundtrip:
  assumes "val_wf (Map m)" and "meta_encode m = Inr bs"
  shows "meta_decode bs = Inr m \<and> length bs \<le> MAX_METADATA_BYTES
    \<and> (path \<noteq> [] \<longrightarrow> find_path bs path = Inr (get_path m path))"
proof -
  from assms(2) have e: "encode (Map m) = Inr bs"
    by (auto simp: meta_encode_def elim!: rbind_InrE)
  have l: "length bs < 2 ^ 64" using meta_encode_decode(2) [OF assms] by (simp add: MAX_METADATA_BYTES_def)
  have rep: "val_rep 1 (Map m) bs" by (rule encode_rep [OF e assms(1)])
  have "find_path bs path = Inr (get_path m path)" if "path \<noteq> []"
  proof -
    have "split_dots path \<noteq> []" by (cases path) (auto split: list.splits)
    moreover have "stands_on 1 (reader_new bs) (Map m)"
      using rep l unfolding stands_on_def by (intro conjI exI [of _ bs] exI [of _ "[]"]) simp_all
    moreover have "bs \<noteq> []" using val_rep_pos [OF rep] by auto
    ultimately show ?thesis using find_segments_rep that by (simp add: find_path_def get_path_lookup)
  qed
  with meta_encode_decode [OF assms] show ?thesis by blast
qed

text \<open>
  Property C40.  Metadata nested exactly as deep as the documented limit is refused as
  corruption: the depth check counts the fields of the map and lets sixteen levels pass,
  while the encoder also counts the map itself, so the user's mistake surfaces as a damaged
  database.
\<close>

theorem metadata_depth_limit_corruption:
  assumes "val_wf (Map m)" and "meta_depth m = MAX_METADATA_DEPTH"
  shows "\<exists>e. meta_validate m = Inl e \<and> is_corruption e"
proof -
  have "depth (Map m) = Suc MAX_VALUE_DEPTH"
    using assms(2) by (auto simp: meta_depth_def MAX_METADATA_DEPTH_def MAX_VALUE_DEPTH_def split: if_splits)
  then have "\<not> is_ok (encode (Map m))"
    using val_rep_wf [OF encode_rep [OF _ assms(1)]] by (fastforce elim!: is_okE)
  then obtain fe where "encode (Map m) = Inl fe" by (cases "encode (Map m)") auto
  then show ?thesis
    using assms(2) from_format_corruption by (simp add: meta_validate_def from_format_def)
qed

theorem metadata_depth_limit_corruption_witness:
  "\<exists>v e. meta_depth [([0x6B], v)] = MAX_METADATA_DEPTH \<and> meta_validate [([0x6B], v)] = Inl e \<and> is_corruption e"
proof -
  let ?v = "\<lambda>n. ((\<lambda>x. Array [x]) ^^ n) Null"
  have d: "depth (?v n) = Suc n" for n by (induction n) (simp_all add: max_or_zero_def)
  have w: "val_wf (?v n)" for n by (induction n) simp_all
  have "val_wf (Map [([0x6B], ?v 15)])" using w by (simp add: entries_ok_def string_ok_def blob_ok_def)
  moreover have "meta_depth [([0x6B], ?v 15)] = MAX_METADATA_DEPTH"
    by (simp add: meta_depth_def max_or_zero_def MAX_METADATA_DEPTH_def MAX_VALUE_DEPTH_def d)
  ultimately show ?thesis using metadata_depth_limit_corruption [of "[([0x6B], ?v 15)]"] by blast
qed

end
