(* ===== verification/Memtable.thy ===== *)
theory Memtable
  imports Document "HOL-Library.AList"
begin

text \<open>
  The buffer of writes not yet in a segment (\<open>core/src/write/memtable.rs\<close>).  Vectors live in
  one arena, rows in insertion order, and an index maps a document id to its latest row or to
  a tombstone.  The \<open>HashMap\<close> is an association list with distinct keys; whatever the code
  reads out of it in hash order it sorts, so no order is assumed.  Shown: any sequence of
  puts and deletes refines the map from ids to their last write.
\<close>

datatype mem_slot = Row u32 | SlotDeleted

record mem_row =
  mw_id :: doc_id
  mw_offset :: nat
  mw_inv_norm :: u32
  mw_metadata :: "metadata option"
  mw_content :: "bytes option"

datatype lookup = Present mem_row | LookupDeleted

record memtable =
  mt_dimension :: u32
  mt_dtype :: vector_dtype
  mt_stride :: nat
  mt_arena :: bytes
  mt_rows :: "mem_row list"
  mt_index :: "(doc_id \<times> mem_slot) list"
  mt_tombstones :: nat
  mt_metadata_bytes :: nat

definition mt_new :: "u32 \<Rightarrow> vector_dtype \<Rightarrow> memtable" where
  "mt_new dimension dtype =
     \<lparr>mt_dimension = dimension, mt_dtype = dtype, mt_stride = dtype_row_stride dtype dimension,
      mt_arena = [], mt_rows = [], mt_index = [], mt_tombstones = 0, mt_metadata_bytes = 0\<rparr>"

definition mt_len :: "memtable \<Rightarrow> nat" where
  "mt_len m = length (mt_index m) - mt_tombstones m"

definition mt_is_empty :: "memtable \<Rightarrow> bool" where
  "mt_is_empty m \<longleftrightarrow> mt_index m = []"

definition mt_byte_size :: "memtable \<Rightarrow> nat" where
  "mt_byte_size m = length (mt_arena m) + mt_metadata_bytes m + length (mt_rows m) * 64"

definition mt_put_view ::
  "fpu \<Rightarrow> doc_id \<Rightarrow> vector_view \<Rightarrow> metadata option \<Rightarrow> bytes option \<Rightarrow> memtable \<Rightarrow> (row_id \<times> memtable) db_result" where
  "mt_put_view F idv vector md content m =
     rbind (view_check_dimension vector (ascii ''<memtable>'') (mt_dimension m)) (\<lambda>_.
     let offs = length (mt_arena m);
         m = m\<lparr>mt_arena := mt_arena m @ view_bytes vector\<rparr>;
         m = m\<lparr>mt_metadata_bytes := mt_metadata_bytes m + (case md of None \<Rightarrow> 0 | Some x \<Rightarrow> length x * 32)\<rparr>;
         m = m\<lparr>mt_metadata_bytes := mt_metadata_bytes m + (case content of None \<Rightarrow> 0 | Some c \<Rightarrow> length c)\<rparr>;
         row = \<lparr>mw_id = idv, mw_offset = offs, mw_inv_norm = view_inv_norm F vector,
                mw_metadata = md, mw_content = content\<rparr>;
         index = of_nat (length (mt_rows m)) :: u32;
         m = m\<lparr>mt_rows := mt_rows m @ [row]\<rparr>;
         old = map_of (mt_index m) idv;
         m = m\<lparr>mt_index := AList.update idv (Row index) (mt_index m)\<rparr>;
         m = (if old = Some SlotDeleted then m\<lparr>mt_tombstones := mt_tombstones m - 1\<rparr> else m)
     in Inr (row_id_new (- 1) index, m))"

definition mt_put_bytes ::
  "fpu \<Rightarrow> doc_id \<Rightarrow> bytes \<Rightarrow> metadata option \<Rightarrow> bytes option \<Rightarrow> memtable \<Rightarrow> (row_id \<times> memtable) db_result" where
  "mt_put_bytes F idv vector md content m =
     rbind (view_raw (mt_dtype m) vector (mt_dimension m)) (\<lambda>view. mt_put_view F idv view md content m)"

definition mt_delete :: "doc_id \<Rightarrow> memtable \<Rightarrow> memtable \<times> bool" where
  "mt_delete idv m =
     (let old = map_of (mt_index m) idv;
          m = m\<lparr>mt_index := AList.update idv SlotDeleted (mt_index m)\<rparr>
      in case old of
           Some SlotDeleted \<Rightarrow> (m, False)
         | Some (Row _) \<Rightarrow> (m\<lparr>mt_tombstones := mt_tombstones m + 1\<rparr>, True)
         | None \<Rightarrow> (m\<lparr>mt_tombstones := mt_tombstones m + 1\<rparr>, True))"

definition mt_get :: "memtable \<Rightarrow> doc_id \<Rightarrow> lookup option" where
  "mt_get m idv =
     (case map_of (mt_index m) idv of
        None \<Rightarrow> None
      | Some SlotDeleted \<Rightarrow> Some LookupDeleted
      | Some (Row i) \<Rightarrow> if unat i < length (mt_rows m) then Some (Present (mt_rows m ! unat i)) else None)"

definition mt_vector_bytes :: "memtable \<Rightarrow> mem_row \<Rightarrow> bytes option" where
  "mt_vector_bytes m row = slice (mt_arena m) (mw_offset row) (mw_offset row + mt_stride m)"

definition row_indices :: "(doc_id \<times> mem_slot) list \<Rightarrow> u32 list" where
  "row_indices ix = List.map_filter (\<lambda>(k, s). case s of Row i \<Rightarrow> Some i | SlotDeleted \<Rightarrow> None) ix"

definition mt_live_rows :: "memtable \<Rightarrow> mem_row list" where
  "mt_live_rows m =
     List.map_filter (\<lambda>i. if unat i < length (mt_rows m) then Some (mt_rows m ! unat i) else None)
       (sort (row_indices (mt_index m)))"

definition mt_deleted_ids :: "memtable \<Rightarrow> doc_id list" where
  "mt_deleted_ids m = sort (map fst (filter (\<lambda>(k, s). s = SlotDeleted) (mt_index m)))"

definition mt_clear :: "memtable \<Rightarrow> memtable" where
  "mt_clear m = m\<lparr>mt_arena := [], mt_rows := [], mt_index := [], mt_tombstones := 0, mt_metadata_bytes := 0\<rparr>"

subsection \<open>Invariant\<close>

definition mt_inv :: "memtable \<Rightarrow> bool" where
  "mt_inv m \<longleftrightarrow> distinct (map fst (mt_index m))
     \<and> mt_tombstones m = length (filter (\<lambda>(k, s). s = SlotDeleted) (mt_index m))
     \<and> mt_stride m = dtype_row_stride (mt_dtype m) (mt_dimension m)
     \<and> length (mt_arena m) = length (mt_rows m) * mt_stride m
     \<and> (\<forall>i < length (mt_rows m). mw_offset (mt_rows m ! i) = i * mt_stride m)
     \<and> (\<forall>k i. (k, Row i) \<in> set (mt_index m) \<longrightarrow> unat i < length (mt_rows m) \<and> mw_id (mt_rows m ! unat i) = k)"

definition view_wf :: "vector_view \<Rightarrow> bool" where
  "view_wf v \<longleftrightarrow> length (view_bytes v) = dtype_row_stride (view_dtype v) (view_dimension v)"

lemma view_raw_wf: "view_raw dt bs d = Inr v \<Longrightarrow> view_wf v \<and> v = VRaw dt bs d"
  by (auto simp: view_raw_def Let_def view_wf_def split: if_splits)

lemma view_f32_wf: "length xs < 2 ^ 32 \<Longrightarrow> view_wf (VF32 xs)"
  by (simp add: view_wf_def length_concat_f32 dtype_row_stride_def unat_of_nat)

lemma dtype_only: "(d :: vector_dtype) = d'"
  by (cases d; cases d') simp

lemma alist_update_count:
  "length (filter P (AList.update k v xs)) + (case map_of xs k of Some w \<Rightarrow> if P (k, w) then 1 else 0 | None \<Rightarrow> 0)
     = length (filter P xs) + (if P (k, v) then 1 else 0)"
  by (induction xs) auto

lemma set_alist_update: "distinct (map fst xs) \<Longrightarrow> set (AList.update k v xs) = insert (k, v) {p \<in> set xs. fst p \<noteq> k}"
  by (induction xs) (auto simp: image_iff)

subsection \<open>The map a memtable stands for\<close>

type_synonym stored = "bytes \<times> u32 \<times> metadata option \<times> bytes option"

text \<open>\<open>None\<close>: not mentioned here; \<open>Some None\<close>: deleted here; \<open>Some (Some d)\<close>: buffered as \<open>d\<close>.\<close>

definition row_doc :: "memtable \<Rightarrow> mem_row \<Rightarrow> stored" where
  "row_doc m r = (take (mt_stride m) (drop (mw_offset r) (mt_arena m)), mw_inv_norm r, mw_metadata r, mw_content r)"

definition mt_abs :: "memtable \<Rightarrow> doc_id \<Rightarrow> stored option option" where
  "mt_abs m k = (case map_of (mt_index m) k of
     None \<Rightarrow> None | Some SlotDeleted \<Rightarrow> Some None | Some (Row i) \<Rightarrow> Some (Some (row_doc m (mt_rows m ! unat i))))"

lemma mt_get_abs:
  assumes "mt_inv m"
  shows "(mt_get m k = None \<longleftrightarrow> mt_abs m k = None) \<and> (mt_get m k = Some LookupDeleted \<longleftrightarrow> mt_abs m k = Some None)
    \<and> (\<forall>r. mt_get m k = Some (Present r) \<longrightarrow> mw_id r = k \<and> mt_abs m k = Some (Some (row_doc m r))
         \<and> mt_vector_bytes m r = Some (fst (row_doc m r)))"
proof -
  have "unat i < length (mt_rows m) \<and> mw_id (mt_rows m ! unat i) = k
      \<and> mw_offset (mt_rows m ! unat i) + mt_stride m \<le> length (mt_arena m)"
    if "map_of (mt_index m) k = Some (Row i)" for i
  proof -
    have "(k, Row i) \<in> set (mt_index m)" using that by (rule map_of_SomeD)
    with assms have lt: "unat i < length (mt_rows m)" and "mw_id (mt_rows m ! unat i) = k"
      and off: "mw_offset (mt_rows m ! unat i) = unat i * mt_stride m"
      and len: "length (mt_arena m) = length (mt_rows m) * mt_stride m"
      by (auto simp: mt_inv_def)
    moreover have "Suc (unat i) * mt_stride m \<le> length (mt_rows m) * mt_stride m"
      using lt by (intro mult_le_mono1) simp
    ultimately show ?thesis by simp
  qed
  then show ?thesis
    by (auto simp: mt_get_def mt_abs_def mt_vector_bytes_def row_doc_def slice_def split: option.splits mem_slot.splits)
qed

lemma mt_inv_new: "mt_inv (mt_new d t)" "mt_abs (mt_new d t) = (\<lambda>_. None)"
  by (auto simp: mt_inv_def mt_new_def mt_abs_def)

lemma mt_inv_clear: "mt_inv m \<Longrightarrow> mt_inv (mt_clear m)" "mt_abs (mt_clear m) = (\<lambda>_. None)"
  by (auto simp: mt_inv_def mt_clear_def mt_abs_def)

lemma mt_put_shape:
  assumes "mt_put_view F k v md c m = Inr (r, m')"
  shows "view_dimension v = mt_dimension m"
    and "mt_arena m' = mt_arena m @ view_bytes v" "mt_stride m' = mt_stride m" "mt_dimension m' = mt_dimension m"
    and "mt_rows m' = mt_rows m @ [\<lparr>mw_id = k, mw_offset = length (mt_arena m), mw_inv_norm = view_inv_norm F v,
           mw_metadata = md, mw_content = c\<rparr>]"
    and "mt_index m' = AList.update k (Row (of_nat (length (mt_rows m)))) (mt_index m)"
    and "mt_tombstones m' = (if map_of (mt_index m) k = Some SlotDeleted then mt_tombstones m - 1 else mt_tombstones m)"
    and "r = row_id_new (- 1) (of_nat (length (mt_rows m)))"
  using assms
  by (auto simp: mt_put_view_def view_check_dimension_def Let_def elim!: rbind_InrE split: if_splits)

lemma mt_put_correct:
  assumes inv: "mt_inv m" and put: "mt_put_view F k v md c m = Inr (r, m')" and wf: "view_wf v"
    and room: "length (mt_rows m) < 2 ^ 32"
  shows "mt_inv m'" and "mt_abs m' = (mt_abs m)(k \<mapsto> Some (view_bytes v, view_inv_norm F v, md, c))"
proof -
  note sh = mt_put_shape [OF put]
  let ?n = "length (mt_rows m)" and ?new = "Row (of_nat (length (mt_rows m)))"
  have n: "unat (of_nat ?n :: u32) = ?n" using room by (simp add: unat_of_nat)
  have len: "length (view_bytes v) = mt_stride m"
    using wf inv sh(1) dtype_only [of "view_dtype v" "mt_dtype m"] by (simp add: view_wf_def mt_inv_def)
  have arena: "length (mt_arena m) = ?n * mt_stride m" using inv by (simp add: mt_inv_def)
  have dist: "distinct (map fst (mt_index m))"
    and t0: "mt_tombstones m = length (filter (\<lambda>(k, s). s = SlotDeleted) (mt_index m))"
    using inv by (simp_all add: mt_inv_def)
  have tomb: "mt_tombstones m' = length (filter (\<lambda>(k, s). s = SlotDeleted) (mt_index m'))"
    using alist_update_count [of "\<lambda>(k, s). s = SlotDeleted" k ?new "mt_index m"] t0
    by (cases "map_of (mt_index m) k") (auto simp: sh split: if_splits)
  have offs: "mw_offset (mt_rows m' ! i) = i * mt_stride m" if "i < length (mt_rows m')" for i
    using that inv arena by (auto simp: sh nth_append mt_inv_def less_Suc_eq)
  have idx: "unat i < length (mt_rows m') \<and> mw_id (mt_rows m' ! unat i) = k'" if "(k', Row i) \<in> set (mt_index m')" for k' i
  proof (cases "k' = k")
    case True
    with that dist have "i = of_nat ?n" by (simp add: sh set_alist_update)
    with True n show ?thesis by (simp add: sh)
  next
    case False
    with that dist have "(k', Row i) \<in> set (mt_index m)" by (simp add: sh set_alist_update)
    with inv have "unat i < ?n" "mw_id (mt_rows m ! unat i) = k'" by (auto simp: mt_inv_def)
    then show ?thesis by (simp add: sh nth_append)
  qed
  have dt: "mt_dtype m' = mt_dtype m" by (rule dtype_only)
  show "mt_inv m'"
    unfolding mt_inv_def
  proof (intro conjI allI impI)
    show "distinct (map fst (mt_index m'))" using dist by (simp add: sh distinct_update)
    show "mt_stride m' = dtype_row_stride (mt_dtype m') (mt_dimension m')" using inv by (simp add: sh dt mt_inv_def)
    show "length (mt_arena m') = length (mt_rows m') * mt_stride m'" using arena len by (simp add: sh)
    show "mw_offset (mt_rows m' ! i) = i * mt_stride m'" if "i < length (mt_rows m')" for i
      using offs [OF that] by (simp add: sh)
    show "unat i < length (mt_rows m')" "mw_id (mt_rows m' ! unat i) = k'" if "(k', Row i) \<in> set (mt_index m')" for k' i
      using idx [OF that] by auto
  qed (rule tomb)
  have old: "row_doc m' (mt_rows m' ! unat i) = row_doc m (mt_rows m ! unat i)" if "map_of (mt_index m) k' = Some (Row i)" for k' i
  proof -
    have "(k', Row i) \<in> set (mt_index m)" using that by (rule map_of_SomeD)
    with inv have lt: "unat i < ?n" and o: "mw_offset (mt_rows m ! unat i) = unat i * mt_stride m"
      by (auto simp: mt_inv_def)
    have "Suc (unat i) * mt_stride m \<le> ?n * mt_stride m" using lt by (intro mult_le_mono1) simp
    then have "mw_offset (mt_rows m ! unat i) + mt_stride m \<le> length (mt_arena m)" using o arena by simp
    then show ?thesis using lt by (simp add: row_doc_def sh nth_append)
  qed
  have new: "row_doc m' (mt_rows m' ! ?n) = (view_bytes v, view_inv_norm F v, md, c)"
    using len by (simp add: row_doc_def sh)
  show "mt_abs m' = (mt_abs m)(k \<mapsto> Some (view_bytes v, view_inv_norm F v, md, c))"
  proof
    fix k'
    show "mt_abs m' k' = ((mt_abs m)(k \<mapsto> Some (view_bytes v, view_inv_norm F v, md, c))) k'"
      using new n old [of k'] unfolding mt_abs_def sh(6) update_conv
      by (auto split: option.splits mem_slot.splits)
  qed
qed

lemma mt_delete_correct:
  assumes inv: "mt_inv m"
  shows "mt_inv (fst (mt_delete k m))" and "mt_abs (fst (mt_delete k m)) = (mt_abs m)(k \<mapsto> None)"
    and "snd (mt_delete k m) \<longleftrightarrow> mt_abs m k \<noteq> Some None"
proof -
  let ?m = "fst (mt_delete k m)"
  have sh: "mt_index ?m = AList.update k SlotDeleted (mt_index m)" "mt_rows ?m = mt_rows m" "mt_arena ?m = mt_arena m"
    "mt_stride ?m = mt_stride m" "mt_dimension ?m = mt_dimension m"
    "mt_tombstones ?m = (if map_of (mt_index m) k = Some SlotDeleted then mt_tombstones m else mt_tombstones m + 1)"
    by (auto simp: mt_delete_def Let_def split: option.splits mem_slot.splits)
  have dist: "distinct (map fst (mt_index m))"
    and t0: "mt_tombstones m = length (filter (\<lambda>(k, s). s = SlotDeleted) (mt_index m))"
    using inv by (simp_all add: mt_inv_def)
  have "mt_tombstones ?m = length (filter (\<lambda>(k, s). s = SlotDeleted) (mt_index ?m))"
    using alist_update_count [of "\<lambda>(k, s). s = SlotDeleted" k SlotDeleted "mt_index m"] t0
    by (cases "map_of (mt_index m) k") (auto simp: sh split: if_splits)
  moreover have "mt_dtype ?m = mt_dtype m" by (rule dtype_only)
  ultimately show "mt_inv ?m"
    using inv dist by (auto simp: mt_inv_def sh distinct_update set_alist_update)
  show "mt_abs ?m = (mt_abs m)(k \<mapsto> None)"
    by (auto simp: mt_abs_def sh update_conv row_doc_def split: option.splits mem_slot.splits)
  show "snd (mt_delete k m) \<longleftrightarrow> mt_abs m k \<noteq> Some None"
    by (auto simp: mt_delete_def mt_abs_def Let_def split: option.splits mem_slot.splits)
qed

subsection \<open>Live rows\<close>

definition live_ids :: "memtable \<Rightarrow> doc_id set" where
  "live_ids m = {k. \<exists>d. mt_abs m k = Some (Some d)}"

lemma row_indices_set: "i \<in> set (row_indices ix) \<longleftrightarrow> (\<exists>k. (k, Row i) \<in> set ix)"
  by (force simp: row_indices_def map_filter_def split: mem_slot.splits)

lemma mt_abs_cases:
  "(\<exists>d. mt_abs m k = Some (Some d)) \<longleftrightarrow> (\<exists>i. map_of (mt_index m) k = Some (Row i))"
  "mt_abs m k = Some None \<longleftrightarrow> map_of (mt_index m) k = Some SlotDeleted"
  by (auto simp: mt_abs_def simp del: split_paired_Ex split: option.splits mem_slot.splits)

lemma live_ids_index: "mt_inv m \<Longrightarrow> live_ids m = {k. \<exists>i. (k, Row i) \<in> set (mt_index m)}"
  unfolding live_ids_def mt_abs_cases by (simp add: map_of_eq_Some_iff mt_inv_def)

lemma not_deleted: "s \<noteq> SlotDeleted \<longleftrightarrow> (\<exists>i. s = Row i)"
  by (cases s) auto

lemma mt_len_card: "mt_inv m \<Longrightarrow> mt_len m = card (live_ids m)"
proof -
  assume inv: "mt_inv m"
  let ?live = "filter (\<lambda>(k, s). s \<noteq> SlotDeleted) (mt_index m)"
  have "live_ids m = fst ` set ?live"
    unfolding live_ids_index [OF inv] by (force simp: not_deleted image_iff)
  moreover have "distinct (map fst ?live)" using inv by (auto simp: mt_inv_def distinct_map_filter)
  ultimately have "card (live_ids m) = length ?live"
    using distinct_card [of "map fst ?live"] by simp
  moreover have "length ?live + length (filter (\<lambda>(k, s). s = SlotDeleted) (mt_index m)) = length (mt_index m)"
    using sum_length_filter_compl [of "\<lambda>p. snd p = SlotDeleted" "mt_index m"] by (simp add: case_prod_beta')
  ultimately show ?thesis using inv by (simp add: mt_len_def mt_inv_def)
qed

lemma mt_live_rows_eq:
  assumes "mt_inv m"
  shows "mt_live_rows m = map (\<lambda>i. mt_rows m ! unat i) (sort (row_indices (mt_index m)))"
proof -
  have ok: "unat i < length (mt_rows m)" if "i \<in> set (sort (row_indices (mt_index m)))" for i
    using that assms by (auto simp: row_indices_set mt_inv_def)
  have mf: "List.map_filter (\<lambda>i. if unat i < length (mt_rows m) then Some (mt_rows m ! unat i) else None) xs
      = map (\<lambda>i. mt_rows m ! unat i) xs" if "\<forall>i \<in> set xs. unat i < length (mt_rows m)" for xs
    using that by (induction xs) (auto simp: map_filter_simps)
  show ?thesis unfolding mt_live_rows_def by (rule mf) (use ok in blast)
qed

lemma mt_live_rows_correct:
  assumes inv: "mt_inv m"
  shows "set (map mw_id (mt_live_rows m)) = live_ids m" and "distinct (map mw_id (mt_live_rows m))"
    and "sorted (map mw_offset (mt_live_rows m))"
proof -
  let ?ix = "mt_index m"
  have at: "unat i < length (mt_rows m) \<and> mw_id (mt_rows m ! unat i) = k
      \<and> mw_offset (mt_rows m ! unat i) = unat i * mt_stride m" if "(k, Row i) \<in> set ?ix" for k i
    using that inv by (auto simp: mt_inv_def)
  have ids: "map mw_id (mt_live_rows m) = map (\<lambda>i. mw_id (mt_rows m ! unat i)) (sort (row_indices ?ix))"
    by (simp add: mt_live_rows_eq [OF inv])
  show "set (map mw_id (mt_live_rows m)) = live_ids m"
    unfolding ids live_ids_index [OF inv] using at by (force simp: row_indices_set image_iff)
  have "distinct (map fst ix) \<Longrightarrow> (\<And>k i. (k, Row i) \<in> set ix \<Longrightarrow> g i = k) \<Longrightarrow> distinct (map g (row_indices ix))"
    for g :: "u32 \<Rightarrow> doc_id" and ix
  proof (induction ix)
    case Nil
    then show ?case by (simp add: row_indices_def map_filter_simps)
  next
    case (Cons p ix)
    obtain k s where p: "p = (k, s)" by (cases p)
    have IH: "distinct (map g (row_indices ix))" using Cons.IH Cons.prems by auto
    show ?case
    proof (cases s)
      case (Row i)
      have "g i = k" using Cons.prems(2) p Row by simp
      moreover have "k \<notin> set (map g (row_indices ix))"
      proof
        assume "k \<in> set (map g (row_indices ix))"
        then obtain j k' where j: "g j = k" "(k', Row j) \<in> set ix" by (auto simp: row_indices_set)
        moreover have "g j = k'" using Cons.prems(2) [of k' j] j by simp
        ultimately have "k \<in> fst ` set ix" by force
        with Cons.prems(1) p show False by simp
      qed
      ultimately show ?thesis using IH p Row by (simp add: row_indices_def map_filter_simps)
    next
      case SlotDeleted
      with IH p show ?thesis by (simp add: row_indices_def map_filter_simps)
    qed
  qed
  then have "distinct (map (\<lambda>i. mw_id (mt_rows m ! unat i)) (row_indices ?ix))"
    using inv at by (auto simp: mt_inv_def)
  then show "distinct (map mw_id (mt_live_rows m))"
    unfolding ids by (simp add: distinct_map)
  have "map mw_offset (mt_live_rows m) = map (\<lambda>i. unat i * mt_stride m) (sort (row_indices ?ix))"
    using at by (auto simp: mt_live_rows_eq [OF inv] row_indices_set)
  moreover have "sorted (map (\<lambda>i. unat i * mt_stride m) xs)" if "sorted xs" for xs :: "u32 list"
    using that by (induction xs) (auto simp: word_le_nat_alt intro: mult_le_mono1)
  ultimately show "sorted (map mw_offset (mt_live_rows m))" by simp
qed

lemma mt_deleted_ids_correct:
  assumes "mt_inv m"
  shows "sorted (mt_deleted_ids m)" "set (mt_deleted_ids m) = {k. mt_abs m k = Some None}"
proof -
  show "sorted (mt_deleted_ids m)" by (simp add: mt_deleted_ids_def)
  have "distinct (map fst (mt_index m))" using assms by (simp add: mt_inv_def)
  then have "{k. mt_abs m k = Some None} = {k. (k, SlotDeleted) \<in> set (mt_index m)}"
    by (simp add: mt_abs_cases)
  then show "set (mt_deleted_ids m) = {k. mt_abs m k = Some None}"
    unfolding mt_deleted_ids_def by force
qed

subsection \<open>Sequences of writes\<close>

datatype mem_op = MPut doc_id vector_view "metadata option" "bytes option" | MDelete doc_id

primrec mem_step :: "fpu \<Rightarrow> mem_op \<Rightarrow> memtable \<Rightarrow> memtable db_result" where
  "mem_step F (MPut k v md c) m = rbind (mt_put_view F k v md c m) (\<lambda>(_, m). Inr m)"
| "mem_step F (MDelete k) m = Inr (fst (mt_delete k m))"

primrec mem_spec :: "fpu \<Rightarrow> mem_op \<Rightarrow> (doc_id \<Rightarrow> stored option option) \<Rightarrow> (doc_id \<Rightarrow> stored option option)" where
  "mem_spec F (MPut k v md c) f = f(k \<mapsto> Some (view_bytes v, view_inv_norm F v, md, c))"
| "mem_spec F (MDelete k) f = f(k \<mapsto> None)"

definition op_view_wf :: "mem_op \<Rightarrow> bool" where
  "op_view_wf x = (case x of MPut k v md c \<Rightarrow> view_wf v | MDelete k \<Rightarrow> True)"

text \<open>What a reader of the memtable obtains for an id.\<close>

definition mt_read :: "memtable \<Rightarrow> doc_id \<Rightarrow> stored option option" where
  "mt_read m k = (case mt_get m k of
     None \<Rightarrow> None
   | Some LookupDeleted \<Rightarrow> Some None
   | Some (Present r) \<Rightarrow> Some (map_option (\<lambda>b. (b, mw_inv_norm r, mw_metadata r, mw_content r)) (mt_vector_bytes m r)))"

lemma mt_read_abs: "mt_inv m \<Longrightarrow> mt_read m k = mt_abs m k"
proof -
  assume inv: "mt_inv m"
  show ?thesis
  proof (cases "mt_get m k")
    case None
    with mt_get_abs [OF inv, of k] show ?thesis by (simp add: mt_read_def)
  next
    case (Some l)
    with mt_get_abs [OF inv, of k] show ?thesis by (cases l) (simp_all add: mt_read_def row_doc_def)
  qed
qed

lemma mem_run_correct:
  assumes "try_fold (mem_step F) ops m = Inr m'" and "mt_inv m" and "list_all op_view_wf ops"
    and "length (mt_rows m) + length ops \<le> 2 ^ 32"
  shows "mt_inv m' \<and> mt_abs m' = fold (mem_spec F) ops (mt_abs m)"
  using assms
proof (induction ops arbitrary: m)
  case Nil
  then show ?case by simp
next
  case (Cons x ops)
  then obtain m1 where s: "mem_step F x m = Inr m1" and rest: "try_fold (mem_step F) ops m1 = Inr m'"
    by (auto elim!: rbind_InrE)
  have "mt_inv m1 \<and> mt_abs m1 = mem_spec F x (mt_abs m) \<and> length (mt_rows m1) \<le> Suc (length (mt_rows m))"
  proof (cases x)
    case (MPut k v md c)
    with s obtain r where put: "mt_put_view F k v md c m = Inr (r, m1)" by (auto elim!: rbind_InrE)
    with mt_put_correct [OF Cons.prems(2) put] mt_put_shape [OF put] Cons.prems(3,4) MPut show ?thesis
      by (simp add: op_view_wf_def)
  next
    case (MDelete k)
    moreover have "mt_rows (fst (mt_delete k m)) = mt_rows m"
      by (auto simp: mt_delete_def Let_def split: option.splits mem_slot.splits)
    ultimately show ?thesis using s mt_delete_correct [OF Cons.prems(2), of k] by auto
  qed
  with Cons.IH [OF rest] Cons.prems(3,4) show ?case by simp
qed

subsection \<open>Properties\<close>

text \<open>
  Property C10.  The memtable refines a map: after any sequence of puts and deletes that the
  buffer accepted, reading an id gives exactly its last write (its bytes, norm, metadata and
  content), a recorded deletion, or nothing; the length is the number of live documents; and
  the live rows list each live id once, in insertion order.
\<close>

theorem memtable_refines_map:
  assumes "try_fold (mem_step F) ops (mt_new d t) = Inr m" and "list_all op_view_wf ops" and "length ops \<le> 2 ^ 32"
  shows "mt_read m = fold (mem_spec F) ops (\<lambda>_. None)
     \<and> mt_len m = card {k. \<exists>x. mt_read m k = Some (Some x)}
     \<and> set (map mw_id (mt_live_rows m)) = {k. \<exists>x. mt_read m k = Some (Some x)}
     \<and> distinct (map mw_id (mt_live_rows m)) \<and> sorted (map mw_offset (mt_live_rows m))"
proof -
  have "mt_inv (mt_new d t)" "mt_abs (mt_new d t) = (\<lambda>_. None)" "length (mt_rows (mt_new d t)) = 0"
    by (rule mt_inv_new)+ (simp add: mt_new_def)
  with mem_run_correct [OF assms(1)] assms(2,3)
  have inv: "mt_inv m" and ab: "mt_abs m = fold (mem_spec F) ops (\<lambda>_. None)" by simp_all
  have rd: "mt_read m = mt_abs m" using mt_read_abs [OF inv] by auto
  show ?thesis
    using mt_live_rows_correct [OF inv] mt_len_card [OF inv] by (simp add: rd ab live_ids_def)
qed

theorem memtable_refines_map_witness:
  "\<exists>m. try_fold (mem_step \<lparr>f_mul = \<lambda>x y. x, f_sum = \<lambda>xs. 0, f_sqrt = \<lambda>x. x, f_recip = \<lambda>x. x\<rparr>)
       [MPut (DocU64 1) (VF32 [0]) None None, MDelete (DocU64 2), MDelete (DocU64 1)] (mt_new 1 F32) = Inr m
     \<and> mt_len m = 0 \<and> mt_read m (DocU64 1) = Some None"
proof -
  let ?F = "\<lparr>f_mul = \<lambda>x y. x, f_sum = \<lambda>xs. 0, f_sqrt = \<lambda>x. x, f_recip = \<lambda>x. x\<rparr>"
  let ?ops = "[MPut (DocU64 1) (VF32 [0]) None None, MDelete (DocU64 2), MDelete (DocU64 1)]"
  have "is_ok (try_fold (mem_step ?F) ?ops (mt_new 1 F32))"
    by (simp add: mt_put_view_def view_check_dimension_def Let_def mt_new_def)
  then obtain m where m: "try_fold (mem_step ?F) ?ops (mt_new 1 F32) = Inr m" by (rule is_okE)
  have "list_all op_view_wf ?ops" by (simp add: op_view_wf_def view_f32_wf del: One_nat_def)
  from memtable_refines_map [OF m this] have "mt_read m = fold (mem_spec ?F) ?ops (\<lambda>_. None)"
    "mt_len m = card {k. \<exists>x. mt_read m k = Some (Some x)}" by simp_all
  moreover from this(1) have "{k. \<exists>x. mt_read m k = Some (Some x)} = {}" by auto
  ultimately show ?thesis using m by (intro exI [of _ m]) simp
qed

end
