(* ===== verification/Segment_Store.thy ===== *)
theory Segment_Store
  imports Storage_Memory Segment_Meta Tombstones Catalog_Format Memtable
begin

text \<open>
  Writing and reading segments on storage (\<open>core/src/persistence/segment.rs\<close>): the catalog
  file, flushing a memtable into four files, compaction, clean-up and listing, and the open
  segment with its row table.  Shown: what a flush wrote opens, after a power cut as well, to a
  segment whose rows are exactly the memtable's live documents.
\<close>

record document =
  dc_id :: doc_id
  dc_vector :: "u32 list option"
  dc_metadata :: metadata
  dc_content :: "bytes option"

record include_parts =
  inc_vector :: bool
  inc_metadata :: bool
  inc_content :: bool

definition include_default :: include_parts where
  "include_default = \<lparr>inc_vector = False, inc_metadata = True, inc_content = False\<rparr>"

definition include_none :: include_parts where
  "include_none = \<lparr>inc_vector = False, inc_metadata = False, inc_content = False\<rparr>"

definition include_all :: include_parts where
  "include_all = \<lparr>inc_vector = True, inc_metadata = True, inc_content = True\<rparr>"

record flush_result =
  fr_segment :: segment_ref
  fr_pending :: "doc_id list"

subsection \<open>Whole files\<close>

definition read_file :: "('s, 'h) storage \<Rightarrow> db_path \<Rightarrow> ('s, bytes option) io" where
  "read_file st path =
     io_bind (st_metadata st path) (\<lambda>meta.
     case meta of
       None \<Rightarrow> io_ok None
     | Some meta \<Rightarrow>
         io_bind (st_open_file st path OpenRead) (\<lambda>file.
         io_bind (f_read_at st file (unat (fm_len meta)) 0) (\<lambda>bs.
         io_ok (Some bs))))"

text \<open>The open, truncate, write and sync that \<open>write_catalog\<close> and \<open>write_segment_file\<close> end with.\<close>

definition replace_bytes :: "('s, 'h) storage \<Rightarrow> db_path \<Rightarrow> bytes \<Rightarrow> ('s, unit) io" where
  "replace_bytes st path bs =
     io_bind (st_open_file st path OpenCreate) (\<lambda>file.
     io_bind (f_truncate st file 0) (\<lambda>_.
     io_bind (f_write_at st file bs 0) (\<lambda>_.
     f_sync_data st file)))"

definition write_segment_file ::
  "('s, 'h) storage \<Rightarrow> rust_string \<Rightarrow> u64 \<Rightarrow> segment_file_kind \<Rightarrow> bytes \<Rightarrow> ('s, unit) io" where
  "write_segment_file st collection segid which bs =
     io_bind (io_of (segment_file collection segid which)) (\<lambda>path. replace_bytes st path bs)"

definition require_file ::
  "('s, 'h) storage \<Rightarrow> rust_string \<Rightarrow> u64 \<Rightarrow> segment_file_kind \<Rightarrow> ('s, bytes) io" where
  "require_file st collection segid which =
     io_bind (io_of (segment_file collection segid which)) (\<lambda>path.
     io_bind (read_file st path) (\<lambda>bs.
     io_of (ok_or bs (Corruption (MissingSegment collection segid)))))"

subsection \<open>The catalog\<close>

definition write_catalog :: "('s, 'h) storage \<Rightarrow> catalog \<Rightarrow> ('s, unit) io" where
  "write_catalog st cat =
     io_bind (io_of (layout_catalog (cat_name cat))) (\<lambda>path.
     io_bind (io_of (collection_dir (cat_name cat))) (\<lambda>dir.
     io_bind (st_create_dir_all st dir) (\<lambda>_.
     io_bind (io_of (map_err (\<lambda>e. from_format_at e path) (catalog_encode cat))) (\<lambda>bs.
     replace_bytes st path bs))))"

definition read_catalog :: "('s, 'h) storage \<Rightarrow> rust_string \<Rightarrow> ('s, catalog) io" where
  "read_catalog st name =
     io_bind (io_of (layout_catalog name)) (\<lambda>path.
     io_bind (read_file st path) (\<lambda>bs.
     io_bind (io_of (ok_or bs (Corruption (MissingSegment name 0)))) (\<lambda>bs.
     io_of (map_err (\<lambda>e. from_format_at e path) (catalog_decode bs)))))"

subsection \<open>Flushing\<close>

text \<open>The three growing files of a segment that is being written.\<close>

record segment_writers =
  sw_vectors :: vector_block_writer
  sw_directory :: directory_writer
  sw_meta :: meta_writer

text \<open>One row into all three, as \<open>flush_memtable\<close> and \<open>compact_segments\<close> push it.\<close>

definition push_segment_row ::
  "bytes \<Rightarrow> meta_record \<Rightarrow> bytes \<Rightarrow> u32 \<Rightarrow> segment_writers \<Rightarrow> segment_writers db_result" where
  "push_segment_row bs record idb inv_norm w =
     rbind (map_err (\<lambda>e. from_format_at e path_root) (vw_push_row bs (sw_vectors w))) (\<lambda>(_, vectors).
     rbind (map_err (\<lambda>e. from_format_at e path_root) (mw_push record (sw_meta w))) (\<lambda>((off, len), meta).
     case dw_push idb off len inv_norm (sw_directory w) of
       (_, Inl e) \<Rightarrow> Inl (from_format_at e path_root)
     | (directory, Inr _) \<Rightarrow> Inr \<lparr>sw_vectors = vectors, sw_directory = directory, sw_meta = meta\<rparr>))"

definition new_writers :: "catalog \<Rightarrow> segment_writers db_result" where
  "new_writers cat =
     rbind (map_err (\<lambda>e. from_format_at e path_root) (vw_new (cat_dimension cat) (cat_row_stride cat))) (\<lambda>vectors.
     Inr \<lparr>sw_vectors = vectors, sw_directory = dw_new, sw_meta = []\<rparr>)"

definition flush_row :: "memtable \<Rightarrow> mem_row \<Rightarrow> segment_writers \<Rightarrow> segment_writers db_result" where
  "flush_row m row w =
     rbind (ok_or (mt_vector_bytes m row) (Internal (ascii ''memtable row has no vector bytes''))) (\<lambda>bs.
     push_segment_row bs \<lparr>mr_metadata = map_option Map (mw_metadata row), mr_content = mw_content row\<rparr>
       (id_to_bytes (mw_id row)) (mw_inv_norm row) w)"

definition write_segment ::
  "('s, 'h) storage \<Rightarrow> rust_string \<Rightarrow> u64 \<Rightarrow> segment_writers \<Rightarrow> ('s, segment_ref) io" where
  "write_segment st name segid w =
     (let rows = vw_rows (sw_vectors w);
          tombs = all_live rows 0 in
      io_bind (write_segment_file st name segid VectorsFile (vw_finish (sw_vectors w))) (\<lambda>_.
      io_bind (write_segment_file st name segid DirectoryFile (dw_finish (sw_directory w))) (\<lambda>_.
      io_bind (write_segment_file st name segid MetadataFile (mw_finish (sw_meta w))) (\<lambda>_.
      io_bind (write_segment_file st name segid TombstonesFile (tombstones_encode tombs)) (\<lambda>_.
      io_ok \<lparr>sr_id = segid, sr_rows = rows, sr_del_generation = 0\<rparr>)))))"

definition flush_memtable ::
  "('s, 'h) storage \<Rightarrow> catalog \<Rightarrow> u64 \<Rightarrow> memtable \<Rightarrow> ('s, flush_result) io" where
  "flush_memtable st cat segid m =
     (let name = cat_name cat in
      io_bind (io_of (segments_dir name)) (\<lambda>dir.
      io_bind (st_create_dir_all st dir) (\<lambda>_.
      io_bind (io_of (new_writers cat)) (\<lambda>w.
      io_bind (io_of (try_fold (flush_row m) (mt_live_rows m) w)) (\<lambda>w.
      io_bind (write_segment st name segid w) (\<lambda>segref.
      io_ok \<lparr>fr_segment = segref, fr_pending = mt_deleted_ids m\<rparr>))))))"

subsection \<open>Clean-up and listing\<close>

definition remove_segment :: "('s, 'h) storage \<Rightarrow> rust_string \<Rightarrow> u64 \<Rightarrow> ('s, unit) io" where
  "remove_segment st collection segid =
     io_fold (\<lambda>which _.
       io_bind (io_of (segment_file collection segid which)) (\<lambda>path.
       io_bind (st_exists st path) (\<lambda>there.
       if there then st_remove_file st path else io_ok ()))) ALL_SEGMENT_FILES ()"

text \<open>\<open>str::parse::<u64>\<close>: an optional plus sign, at least one digit, no overflow.\<close>

definition parse_u64 :: "rust_string \<Rightarrow> u64 option" where
  "parse_u64 s =
     (let ds = (case s of [] \<Rightarrow> [] | b # rest \<Rightarrow> if b = 0x2B then rest else s) in
      if ds = [] \<or> \<not> list_all is_digit ds then None
      else if digits_val ds \<ge> 2 ^ 64 then None
      else Some (of_nat (digits_val ds)))"

text \<open>The part before the first dot, when there is one.\<close>

definition stem_of :: "rust_string \<Rightarrow> rust_string option" where
  "stem_of s = (let pre = takeWhile (\<lambda>b. b \<noteq> 0x2E) s in if length pre = length s then None else Some pre)"

definition list_segment_ids :: "('s, 'h) storage \<Rightarrow> rust_string \<Rightarrow> ('s, u64 list) io" where
  "list_segment_ids st collection =
     io_bind (io_of (segments_dir collection)) (\<lambda>dir.
     io_bind (st_exists st dir) (\<lambda>there.
     if \<not> there then io_ok []
     else
       io_bind (st_list_dir st dir) (\<lambda>es.
       let ids = List.map_filter (\<lambda>e. Option.bind (stem_of (de_name e)) parse_u64) es in
       io_ok (remdups_adj (sort ids)))))"

subsection \<open>The open segment\<close>

record segment_data =
  sd_id :: u64
  sd_stride :: nat
  sd_dtype :: vector_dtype
  sd_dimension :: u32
  sd_vec_bytes :: bytes
  sd_meta_payload :: bytes
  sd_entries :: "row_entry list"
  sd_ids :: "doc_id list"
  sd_by_id :: "(doc_id \<times> u32) list"
  sd_tombstones :: tombstones

definition sd_load_row ::
  "catalog \<Rightarrow> directory \<Rightarrow> nat \<Rightarrow> row_entry list \<times> doc_id list \<times> (doc_id \<times> u32) list
    \<Rightarrow> (row_entry list \<times> doc_id list \<times> (doc_id \<times> u32) list) db_result" where
  "sd_load_row cat directory i = (\<lambda>(entries, ids, by_id).
     rbind (ok_or (dir_entry directory (of_nat i)) (Internal (ascii ''directory entry vanished after a successful open''))) (\<lambda>entry.
     rbind (ok_or (dir_id directory (of_nat i)) (Internal (ascii ''directory id vanished after a successful open''))) (\<lambda>raw.
     rbind (id_from_bytes (cat_id_kind cat) raw) (\<lambda>docid.
     if map_of by_id docid \<noteq> None
     then Inl (Corruption (InconsistentIndex (cat_name cat) (DText ''duplicate id'')))
     else Inr (entries @ [entry], ids @ [docid], AList.update docid (of_nat i) by_id)))))"

definition sd_open :: "('s, 'h) storage \<Rightarrow> catalog \<Rightarrow> segment_ref \<Rightarrow> ('s, segment_data) io" where
  "sd_open st cat seg =
     (let name = cat_name cat in
      io_bind (require_file st name (sr_id seg) VectorsFile) (\<lambda>vec_bytes.
      io_bind (require_file st name (sr_id seg) DirectoryFile) (\<lambda>dir_bytes.
      io_bind (require_file st name (sr_id seg) MetadataFile) (\<lambda>meta_bytes.
      io_bind (io_of (segment_file name (sr_id seg) MetadataFile)) (\<lambda>meta_path.
      io_bind (io_of (map_err (\<lambda>e. from_format_at e meta_path) (mb_open meta_bytes))) (\<lambda>mb.
      io_bind (require_file st name (sr_id seg) TombstonesFile) (\<lambda>del_bytes.
      io_bind (io_of (segment_file name (sr_id seg) DirectoryFile)) (\<lambda>dir_path.
      io_bind (io_of (map_err (\<lambda>e. from_format_at e dir_path) (dir_open dir_bytes))) (\<lambda>directory.
      io_bind (io_of (map_err (\<lambda>e. from_format_at e
          (case segment_file name (sr_id seg) TombstonesFile of Inr p \<Rightarrow> p | Inl _ \<Rightarrow> path_root))
          (tombstones_decode del_bytes))) (\<lambda>tombs.
      if d_rows directory \<noteq> sr_rows seg \<or> ts_rows tombs \<noteq> sr_rows seg
      then io_err (Corruption (InconsistentIndex name (DText ''manifest, directory and bitmap disagree on rows'')))
      else
        io_bind (io_of (try_fold (sd_load_row cat directory) [0..<unat (d_rows directory)] ([], [], []))) (\<lambda>(entries, ids, by_id).
        io_ok \<lparr>sd_id = sr_id seg, sd_stride = cat_row_stride cat, sd_dtype = cat_dtype cat,
               sd_dimension = cat_dimension cat, sd_vec_bytes = vec_bytes, sd_meta_payload = mb_payload mb,
               sd_entries = entries, sd_ids = ids, sd_by_id = by_id, sd_tombstones = tombs\<rparr>)))))))))))"

definition sd_rows :: "segment_data \<Rightarrow> u32" where
  "sd_rows seg = of_nat (length (sd_entries seg))"

definition sd_live_count :: "segment_data \<Rightarrow> u32" where
  "sd_live_count seg = live_count (sd_tombstones seg)"

definition sd_is_live :: "segment_data \<Rightarrow> u32 \<Rightarrow> bool" where
  "sd_is_live seg row = is_live (sd_tombstones seg) row"

definition sd_row_of :: "segment_data \<Rightarrow> doc_id \<Rightarrow> u32 option" where
  "sd_row_of seg docid = map_of (sd_by_id seg) docid"

definition sd_id_at :: "segment_data \<Rightarrow> u32 \<Rightarrow> doc_id option" where
  "sd_id_at seg row = (if unat row < length (sd_ids seg) then Some (sd_ids seg ! unat row) else None)"

definition sd_entry :: "segment_data \<Rightarrow> u32 \<Rightarrow> row_entry option" where
  "sd_entry seg row = (if unat row < length (sd_entries seg) then Some (sd_entries seg ! unat row) else None)"

definition sd_inv_norm :: "segment_data \<Rightarrow> u32 \<Rightarrow> u32 option" where
  "sd_inv_norm seg row = map_option re_inv_norm (sd_entry seg row)"

definition sd_vectors :: "segment_data \<Rightarrow> vector_block db_result" where
  "sd_vectors seg = map_err (\<lambda>e. from_format_at e path_root) (vb_open (sd_vec_bytes seg) (sd_stride seg))"

definition sd_kill :: "u32 \<Rightarrow> segment_data \<Rightarrow> segment_data \<times> bool" where
  "sd_kill row seg = (case kill (sd_tombstones seg) row of (t, changed) \<Rightarrow> (seg\<lparr>sd_tombstones := t\<rparr>, changed))"

definition sd_persist_tombstones ::
  "('s, 'h) storage \<Rightarrow> rust_string \<Rightarrow> (segment_data \<times> 's, u32) io" where
  "sd_persist_tombstones st collection =
     io_bind (io_modify (\<lambda>seg. seg\<lparr>sd_tombstones := (sd_tombstones seg)\<lparr>ts_generation :=
         (if ts_generation (sd_tombstones seg) = - 1 then - 1 else ts_generation (sd_tombstones seg) + 1)\<rparr>\<rparr>)) (\<lambda>_.
     io_bind io_self (\<lambda>seg.
     io_bind (io_snd (write_segment_file st collection (sd_id seg) TombstonesFile (tombstones_encode (sd_tombstones seg)))) (\<lambda>_.
     io_ok (ts_generation (sd_tombstones seg)))))"

definition sd_meta_record :: "segment_data \<Rightarrow> u32 \<Rightarrow> meta_record db_result" where
  "sd_meta_record seg row =
     (case sd_entry seg row of
        None \<Rightarrow> Inr mr_default
      | Some entry \<Rightarrow>
          if re_meta_len entry = 0 then Inr mr_default
          else map_err (\<lambda>e. from_format_at e path_root) (mb_record \<lparr>mb_payload = sd_meta_payload seg\<rparr> entry))"

definition sd_metadata_bytes :: "segment_data \<Rightarrow> u32 \<Rightarrow> bytes option db_result" where
  "sd_metadata_bytes seg row =
     (case sd_entry seg row of
        None \<Rightarrow> Inr None
      | Some entry \<Rightarrow>
          map_err (\<lambda>e. from_format_at e path_root) (metadata_bytes \<lparr>mb_payload = sd_meta_payload seg\<rparr> entry))"

definition sd_metadata :: "segment_data \<Rightarrow> u32 \<Rightarrow> metadata db_result" where
  "sd_metadata seg row =
     (case sd_entry seg row of
        None \<Rightarrow> Inr []
      | Some entry \<Rightarrow>
          if re_meta_len entry = 0 then Inr []
          else
            rbind (map_err (\<lambda>e. from_format_at e path_root) (mb_record \<lparr>mb_payload = sd_meta_payload seg\<rparr> entry)) (\<lambda>record.
            case mr_metadata record of Some (Map m) \<Rightarrow> Inr m | _ \<Rightarrow> Inr []))"

definition sd_document :: "segment_data \<Rightarrow> u32 \<Rightarrow> include_parts \<Rightarrow> document option db_result" where
  "sd_document seg row inc =
     (if \<not> sd_is_live seg row then Inr None
      else case sd_id_at seg row of None \<Rightarrow> Inr None | Some docid \<Rightarrow>
      case sd_entry seg row of None \<Rightarrow> Inr None | Some entry \<Rightarrow>
      rbind (if inc_metadata inc \<or> inc_content inc
             then rbind (map_err (\<lambda>e. from_format_at e path_root) (mb_record \<lparr>mb_payload = sd_meta_payload seg\<rparr> entry)) (\<lambda>record.
                  Inr (if inc_metadata inc then (case mr_metadata record of Some (Map m) \<Rightarrow> m | _ \<Rightarrow> []) else [],
                       if inc_content inc then mr_content record else None))
             else Inr ([], None)) (\<lambda>(metadata, content).
      rbind (if inc_vector inc
             then rbind (sd_vectors seg) (\<lambda>block.
                  rbind (ok_or (vb_row block row) (Internal (ascii ''row is in the directory but not the vector block''))) (\<lambda>bs.
                  rbind (view_raw (sd_dtype seg) bs (sd_dimension seg)) (\<lambda>view. Inr (Some (view_f32 view)))))
             else Inr None) (\<lambda>vector.
      Inr (Some \<lparr>dc_id = docid, dc_vector = vector, dc_metadata = metadata, dc_content = content\<rparr>))))"

primrec file_kind_of :: "segment_file_kind \<Rightarrow> file_kind" where
  "file_kind_of VectorsFile = Vectors"
| "file_kind_of DirectoryFile = Directory"
| "file_kind_of MetadataFile = Metadata"
| "file_kind_of TombstonesFile = Deleted"

definition sd_verify_checksums :: "('s, 'h) storage \<Rightarrow> segment_data \<Rightarrow> rust_string \<Rightarrow> ('s, unit) io" where
  "sd_verify_checksums st seg collection =
     io_fold (\<lambda>which _.
       io_bind (io_of (segment_file collection (sd_id seg) which)) (\<lambda>path.
       io_bind (read_file st path) (\<lambda>bs.
       case bs of
         None \<Rightarrow> io_err (Corruption (MissingSegment collection (sd_id seg)))
       | Some bs \<Rightarrow> io_of (map_err (\<lambda>e. from_format_at e path) (verify_block bs (file_kind_of which))))))
       ALL_SEGMENT_FILES ()"

subsection \<open>Compaction\<close>

definition compact_row :: "segment_data \<Rightarrow> vector_block \<Rightarrow> nat \<Rightarrow> segment_writers \<Rightarrow> segment_writers db_result" where
  "compact_row seg block i w =
     (let row = of_nat i in
      if \<not> sd_is_live seg row then Inr w
      else case (vb_row block row, sd_id_at seg row, sd_inv_norm seg row) of
        (Some bs, Some docid, Some inv_norm) \<Rightarrow>
          rbind (map_err (\<lambda>e. from_format_at e path_root) (vw_push_row bs (sw_vectors w))) (\<lambda>(_, vectors).
          rbind (sd_meta_record seg row) (\<lambda>record.
          rbind (map_err (\<lambda>e. from_format_at e path_root) (mw_push record (sw_meta w))) (\<lambda>((off, len), meta).
          case dw_push (id_to_bytes docid) off len inv_norm (sw_directory w) of
            (_, Inl e) \<Rightarrow> Inl (from_format_at e path_root)
          | (directory, Inr _) \<Rightarrow> Inr \<lparr>sw_vectors = vectors, sw_directory = directory, sw_meta = meta\<rparr>)))
      | _ \<Rightarrow> Inl (Internal (ascii ''segment row is live but incomplete'')))"

definition compact_segments ::
  "('s, 'h) storage \<Rightarrow> catalog \<Rightarrow> u64 \<Rightarrow> segment_data list \<Rightarrow> ('s, flush_result) io" where
  "compact_segments st cat new_id sources =
     (let name = cat_name cat in
      io_bind (io_of (segments_dir name)) (\<lambda>dir.
      io_bind (st_create_dir_all st dir) (\<lambda>_.
      io_bind (io_of (new_writers cat)) (\<lambda>w.
      io_bind (io_of (try_fold (\<lambda>seg w.
          rbind (sd_vectors seg) (\<lambda>block. try_fold (compact_row seg block) [0..<unat (sd_rows seg)] w)) sources w)) (\<lambda>w.
      io_bind (write_segment st name new_id w) (\<lambda>segref.
      io_ok \<lparr>fr_segment = segref, fr_pending = []\<rparr>))))))"

end
