(* ===== verification/Wal_Format.thy ===== *)
theory Wal_Format
  imports Cursor Crc32c
begin

text \<open>
  The write-ahead log's frames and the scanner (\<open>isha-vector-db-format/src/wal.rs\<close>).
  \<open>frame_bytes\<close> is what a frame looks like on disk; \<open>decode_at\<close> reads back exactly those
  bytes, a proper prefix of a frame is always reported as a truncation, and \<open>scan\<close> recovers
  exactly the frames that are completely there.  On top of it: a transaction group whose
  commit record did not reach the disk leaves no trace in \<open>committed\<close>.
\<close>

definition FRAME_HEADER_LEN :: nat where
  "FRAME_HEADER_LEN = 8"

definition MAX_FRAME_BODY :: u32 where
  "MAX_FRAME_BODY = 64 * 1024 * 1024"

definition OP_PUT :: u8 where "OP_PUT = 1"
definition OP_DELETE :: u8 where "OP_DELETE = 2"
definition OP_COMMIT :: u8 where "OP_COMMIT = 3"

text \<open>\<open>Put id vector metadata content\<close>, \<open>Delete id\<close>, \<open>Commit op_count\<close>.\<close>

datatype wal_op = Put bytes bytes bytes "bytes option" | Delete bytes | Commit u64

primrec op_code :: "wal_op \<Rightarrow> u8" where
  "op_code (Put _ _ _ _) = OP_PUT"
| "op_code (Delete _) = OP_DELETE"
| "op_code (Commit _) = OP_COMMIT"

record wal_frame =
  wf_sequence :: u64
  wf_txn_id :: u64
  wf_op :: wal_op

definition standalone :: "u64 \<Rightarrow> wal_op \<Rightarrow> wal_frame" where
  "standalone s p = \<lparr>wf_sequence = s, wf_txn_id = 0, wf_op = p\<rparr>"

definition in_txn :: "u64 \<Rightarrow> u64 \<Rightarrow> wal_op \<Rightarrow> wal_frame" where
  "in_txn s t p = \<lparr>wf_sequence = s, wf_txn_id = t, wf_op = p\<rparr>"

definition append_to :: "wal_frame \<Rightarrow> writer \<Rightarrow> writer fresult" where
  "append_to f out =
     (let body = writer_u8 (writer_varint (writer_varint writer_new (wf_sequence f)) (wf_txn_id f))
                   (op_code (wf_op f));
          body = (case wf_op f of
              Put ident vector metadata content \<Rightarrow>
                let body = writer_blob (writer_blob (writer_blob body ident) vector) metadata in
                (case content of
                   Some c \<Rightarrow> writer_blob (writer_u8 body 1) c
                 | None \<Rightarrow> writer_u8 body 0)
            | Delete ident \<Rightarrow> writer_blob body ident
            | Commit op_count \<Rightarrow> writer_varint body op_count)
      in if length body < 2 ^ 32 \<and> (of_nat (length body) :: u32) \<le> MAX_FRAME_BODY
         then Inr (writer_raw (writer_u32 (writer_u32 out (of_nat (length body))) (crc32c body)) body)
         else Inl (Malformed 0 (Inconsistent ''frame body length'')))"

definition frame_encode :: "wal_frame \<Rightarrow> bytes fresult" where
  "frame_encode f = append_to f writer_new"

text \<open>The \<open>match code\<close> of \<open>decode_at\<close>.\<close>

definition decode_op :: "u8 \<Rightarrow> u64 \<Rightarrow> wal_op decoder" where
  "decode_op code op_at b =
     (if code = OP_PUT then
        rbind (reader_blob b) (\<lambda>(ident, b).
        rbind (reader_blob b) (\<lambda>(vector, b).
        rbind (reader_blob b) (\<lambda>(metadata, b).
        rbind (reader_u8 b) (\<lambda>(has_content, b).
          if has_content = 0 then Inr (Put ident vector metadata None, b)
          else if has_content = 1 then
            rbind (reader_blob b) (\<lambda>(c, b). Inr (Put ident vector metadata (Some c), b))
          else Inl (Malformed (offset b) (UnknownDiscriminant ''content flag'' has_content))))))
      else if code = OP_DELETE then
        rbind (reader_blob b) (\<lambda>(ident, b). Inr (Delete ident, b))
      else if code = OP_COMMIT then
        rbind (reader_varint b) (\<lambda>(op_count, b). Inr (Commit op_count, b))
      else Inl (Malformed op_at (UnknownDiscriminant ''wal op'' code)))"

definition decode_at :: "bytes \<Rightarrow> u64 \<Rightarrow> (wal_frame \<times> nat) fresult" where
  "decode_at bs base =
     (let r = reader_with_base bs base; len_at = offset r in
      rbind (reader_u32 r) (\<lambda>(body_len, r).
      rbind (reader_u32 r) (\<lambda>(stored_crc, r).
      if body_len > MAX_FRAME_BODY
      then Inl (LengthExceedsInput len_at (ucast body_len) (ucast MAX_FRAME_BODY))
      else
      rbind (reader_bytes (unat body_len) r) (\<lambda>(body, r).
      let computed = crc32c body in
      if computed \<noteq> stored_crc then Inl (ChecksumMismatch len_at stored_crc computed)
      else
      let b = reader_with_base body (base + u64_of FRAME_HEADER_LEN) in
      rbind (reader_varint b) (\<lambda>(sequence, b).
      rbind (reader_varint b) (\<lambda>(txn_id, b).
      let op_at = offset b in
      rbind (reader_u8 b) (\<lambda>(code, b).
      rbind (decode_op code op_at b) (\<lambda>(p, b).
      rbind (expect_end ''wal frame body'' b) (\<lambda>_.
        Inr (\<lparr>wf_sequence = sequence, wf_txn_id = txn_id, wf_op = p\<rparr>,
             FRAME_HEADER_LEN + unat body_len))))))))))"

datatype wal_tail = Clean | Torn u64 nat | Corrupt u64 format_error

record wal_scan =
  ws_frames :: "wal_frame list"
  ws_tail :: wal_tail
  ws_valid_bytes :: u64

definition is_commit :: "wal_op \<Rightarrow> bool" where
  "is_commit p = (case p of Commit _ \<Rightarrow> True | _ \<Rightarrow> False)"

fun committed_txns :: "wal_frame list \<Rightarrow> u64 list" where
  "committed_txns [] = []"
| "committed_txns (f # fs) =
     (if is_commit (wf_op f) then wf_txn_id f # committed_txns fs else committed_txns fs)"

definition committed :: "wal_scan \<Rightarrow> wal_frame list" where
  "committed s =
     (let txns = committed_txns (ws_frames s) in
      filter (\<lambda>f. wf_txn_id f = 0 \<or> wf_txn_id f \<in> set txns)
        (filter (\<lambda>f. \<not> is_commit (wf_op f)) (ws_frames s)))"

lemma decode_at_length_pos: "decode_at bs base = Inr (f, n) \<Longrightarrow> 0 < n"
  by (auto simp: decode_at_def Let_def FRAME_HEADER_LEN_def elim!: rbind_InrE split: if_splits)

function scan_loop :: "bytes \<Rightarrow> wal_frame list \<Rightarrow> nat \<Rightarrow> wal_scan" where
  "scan_loop bs frames off =
     (let remaining = length bs - off in
      if remaining = 0 then \<lparr>ws_frames = frames, ws_tail = Clean, ws_valid_bytes = u64_of off\<rparr>
      else case slice bs off (length bs) of
        None \<Rightarrow> \<lparr>ws_frames = frames, ws_tail = Clean, ws_valid_bytes = u64_of off\<rparr>
      | Some rest \<Rightarrow>
          (case decode_at rest (u64_of off) of
             Inr (frame, len) \<Rightarrow> scan_loop bs (frames @ [frame]) (off + len)
           | Inl e \<Rightarrow>
               if is_truncation e
               then \<lparr>ws_frames = frames, ws_tail = Torn (u64_of off) remaining,
                     ws_valid_bytes = u64_of off\<rparr>
               else \<lparr>ws_frames = frames, ws_tail = Corrupt (u64_of off) e,
                     ws_valid_bytes = u64_of off\<rparr>))"
  by pat_completeness auto
termination
proof (relation "measure (\<lambda>(bs, frames, off). length bs - off)", goal_cases)
  case 1
  show ?case by simp
next
  case (2 bs frames off remaining rest p frame len)
  then have "0 < len" using decode_at_length_pos by blast
  with 2(1,2) show ?case by simp
qed

definition scan :: "bytes \<Rightarrow> wal_scan" where
  "scan bs = scan_loop bs [] 0"

declare scan_loop.simps [simp del]

subsection \<open>The bytes of a frame\<close>

primrec op_bytes :: "wal_op \<Rightarrow> bytes" where
  "op_bytes (Put ident vector metadata content) =
     blob_bytes ident @ blob_bytes vector @ blob_bytes metadata
     @ (case content of None \<Rightarrow> [0] | Some c \<Rightarrow> [1] @ blob_bytes c)"
| "op_bytes (Delete ident) = blob_bytes ident"
| "op_bytes (Commit n) = varint_bytes n"

definition frame_body :: "wal_frame \<Rightarrow> bytes" where
  "frame_body f = varint_bytes (wf_sequence f) @ varint_bytes (wf_txn_id f)
     @ [op_code (wf_op f)] @ op_bytes (wf_op f)"

definition raw_frame :: "bytes \<Rightarrow> bytes" where
  "raw_frame body = to_le 4 (of_nat (length body) :: u32) @ to_le 4 (crc32c body) @ body"

definition frame_bytes :: "wal_frame \<Rightarrow> bytes" where
  "frame_bytes f = raw_frame (frame_body f)"

definition frame_ok :: "wal_frame \<Rightarrow> bool" where
  "frame_ok f \<longleftrightarrow> length (frame_body f) \<le> 64 * 1024 * 1024"

definition log_bytes :: "wal_frame list \<Rightarrow> bytes" where
  "log_bytes fs = concat (map frame_bytes fs)"

lemma length_raw_frame [simp]: "length (raw_frame body) = 8 + length body"
  by (simp add: raw_frame_def)

lemma length_frame_bytes: "length (frame_bytes f) = 8 + length (frame_body f)"
  by (simp add: frame_bytes_def)

lemma log_bytes_simps [simp]:
  "log_bytes [] = []" "log_bytes (f # fs) = frame_bytes f @ log_bytes fs"
  "log_bytes (fs @ gs) = log_bytes fs @ log_bytes gs"
  by (simp_all add: log_bytes_def)

lemma small_body: "n < 2 ^ 32 \<and> (of_nat n :: u32) \<le> MAX_FRAME_BODY \<longleftrightarrow> n \<le> 64 * 1024 * 1024"
proof -
  have "(of_nat n :: u32) \<le> MAX_FRAME_BODY \<longleftrightarrow> n \<le> 64 * 1024 * 1024" if "n < 2 ^ 32"
    using that by (simp add: MAX_FRAME_BODY_def word_le_nat_alt unat_of_nat)
  then show ?thesis by auto
qed

lemma append_to_eq:
  "append_to f out = (if frame_ok f then Inr (out @ frame_bytes f)
     else Inl (Malformed 0 (Inconsistent ''frame body length'')))"
proof -
  have body: "(case wf_op f of
       Put ident vector metadata content \<Rightarrow>
         let body = writer_blob (writer_blob (writer_blob w ident) vector) metadata in
         (case content of Some c \<Rightarrow> writer_blob (writer_u8 body 1) c | None \<Rightarrow> writer_u8 body 0)
     | Delete ident \<Rightarrow> writer_blob w ident
     | Commit op_count \<Rightarrow> writer_varint w op_count) = w @ op_bytes (wf_op f)" for w
    by (cases "wf_op f") (auto simp: codec_simps Let_def split: option.split)
  show ?thesis
    unfolding append_to_def Let_def body [unfolded Let_def] small_body
    by (simp add: codec_simps frame_ok_def frame_bytes_def raw_frame_def frame_body_def)
qed

subsection \<open>Reading a frame back\<close>

definition op_ok :: "wal_op \<Rightarrow> bool" where
  "op_ok p \<longleftrightarrow> (case p of
      Put ident vector metadata content \<Rightarrow>
        blob_ok ident \<and> blob_ok vector \<and> blob_ok metadata \<and> (\<forall>c. content = Some c \<longrightarrow> blob_ok c)
    | Delete ident \<Rightarrow> blob_ok ident
    | Commit _ \<Rightarrow> True)"

lemma frame_ok_op_ok: "frame_ok f \<Longrightarrow> op_ok (wf_op f)"
  by (cases "wf_op f")
     (auto simp: frame_ok_def op_ok_def frame_body_def blob_ok_def blob_bytes_def split: option.splits)

interpretation opc: codec op_bytes "decode_op c at" "\<lambda>p. op_ok p \<and> op_code p = c" for c "at"
proof
  fix p r rest
  assume a: "op_ok p \<and> op_code p = c" and u: "unread r (op_bytes p @ rest)"
  show "decode_op c at r = Inr (p, advance (length (op_bytes p)) r)"
  proof (cases p)
    case (Put ident vector metadata content)
    show ?thesis
      by (insert a u Put; cases content; simp add: decode_op_def op_ok_def OP_PUT_def;
          ((rule codec_steps, assumption, (simp; fail))+, simp)+)
  next
    case (Delete ident)
    with a u show ?thesis
      by (auto simp: decode_op_def op_ok_def OP_PUT_def OP_DELETE_def intro!: blobc.rbind_dec)
  next
    case (Commit n)
    with a u show ?thesis
      by (auto simp: decode_op_def OP_PUT_def OP_DELETE_def OP_COMMIT_def intro!: varintc.rbind_dec)
  qed
next
  fix p r r' xs
  assume "decode_op c at r = Inr (p, r')" and "unread r xs"
  then show "(op_ok p \<and> op_code p = c) \<and> r' = advance (length (op_bytes p)) r
      \<and> (\<exists>rest. xs = op_bytes p @ rest)"
    by (auto simp: decode_op_def op_ok_def ac_simps split: if_splits elim!: codec_elims)
qed

lemma unat_body_len: "frame_ok f \<Longrightarrow> unat (of_nat (length (frame_body f)) :: u32) = length (frame_body f)"
  by (simp add: frame_ok_def unat_of_nat)

lemma frame_ok_small: "frame_ok f \<Longrightarrow> \<not> MAX_FRAME_BODY < (of_nat (length (frame_body f)) :: u32)"
  using small_body [of "length (frame_body f)"] by (simp add: frame_ok_def not_less)

lemma decode_at_frame:
  assumes "frame_ok f"
  shows "decode_at (frame_bytes f @ rest) base = Inr (f, length (frame_bytes f))"
proof -
  let ?len = "of_nat (length (frame_body f)) :: u32"
  have op: "op_ok (wf_op f)" using assms by (rule frame_ok_op_ok)
  have u: "unread (reader_with_base (frame_bytes f @ rest) base)
      (to_le 4 ?len @ to_le 4 (crc32c (frame_body f)) @ frame_body f @ rest)"
    by (simp add: frame_bytes_def raw_frame_def)
  have b: "unread (reader_with_base (frame_body f) base')
      (varint_bytes (wf_sequence f) @ varint_bytes (wf_txn_id f) @ [op_code (wf_op f)]
       @ op_bytes (wf_op f) @ [])" for base'
    by (simp add: frame_body_def)
  show ?thesis
    unfolding decode_at_def Let_def
    apply (rule codec_steps, rule u, simp)
    apply (rule codec_steps, assumption, simp)
    apply (simp only: frame_ok_small [OF assms] if_False unat_body_len [OF assms])
    apply (rule codec_steps, assumption, simp)
    apply (simp only: simp_thms if_False)
    apply (rule codec_steps, rule b, simp)
    apply (rule codec_steps, assumption, (simp add: op; fail))+
    apply (simp add: expect_end_Nil length_frame_bytes FRAME_HEADER_LEN_def)
    done
qed

lemma decode_at_sound:
  assumes "decode_at bs base = Inr (f, n)"
  shows "frame_ok f" and "n = length (frame_bytes f)" and "\<exists>rest. bs = frame_bytes f @ rest"
proof -
  have u: "unread (reader_with_base bs base) bs" by simp
  have b: "unread (reader_with_base body base') body" for body base' by simp
  from assms obtain len crc body rest where
    bs: "bs = to_le 4 len @ to_le 4 crc @ body @ rest" and len: "length body = unat len"
    and small: "len \<le> MAX_FRAME_BODY" and crc: "crc32c body = crc" and n: "n = 8 + length body"
    and body: "body = frame_body f"
    unfolding decode_at_def Let_def
    apply -
    apply (erule codec_elims, rule u)
    apply (erule (1) codec_elims)
    apply (erule guard_InrE)
    apply (erule (1) codec_elims)
    apply (erule guard_InrE)
    apply (erule codec_elims, rule b)
    apply (erule (1) codec_elims)+
    apply (auto simp: expect_end_iff FRAME_HEADER_LEN_def frame_body_def elim!: rbind_InrE)
    done
  have len': "len = of_nat (length body)" using len by simp
  then have ok: "frame_ok f"
    using small small_body [of "length body"] unat_lt_32 [of len] len body by (simp add: frame_ok_def)
  show "frame_ok f" by (rule ok)
  show "n = length (frame_bytes f)" using n body by (simp add: length_frame_bytes)
  show "\<exists>rest. bs = frame_bytes f @ rest"
    using bs len' crc body by (auto simp: frame_bytes_def raw_frame_def)
qed

lemma decode_at_append:
  assumes "decode_at bs base = Inr (f, n)"
  shows "decode_at (bs @ suf) base' = Inr (f, n)"
proof -
  from decode_at_sound(3) [OF assms] obtain rest where "bs = frame_bytes f @ rest" ..
  with decode_at_frame [OF decode_at_sound(1) [OF assms], of "rest @ suf"]
    decode_at_sound(2) [OF assms] show ?thesis by simp
qed

lemma reader_u32_short: "unread r xs \<Longrightarrow> length xs < 4 \<Longrightarrow>
    reader_u32 r = Inl (Truncated (offset r) 4 (u64_of (length xs)))"
  by (simp add: reader_u32_def reader_array_def reader_bytes_short u64_of_def)

text \<open>A frame cut anywhere is a truncation, never damage.\<close>

lemma decode_at_torn:
  assumes "frame_ok f" and "frame_bytes f = t @ suf" and "suf \<noteq> []"
  shows "\<exists>off n av. decode_at t base = Inl (Truncated off n av)"
proof -
  let ?len = "of_nat (length (frame_body f)) :: u32" and ?crc = "crc32c (frame_body f)"
  let ?r = "reader_with_base t base"
  have u: "unread ?r t" by simp
  have len: "length t < 8 + length (frame_body f)"
    using assms(2,3) length_frame_bytes [of f] by (metis length_append length_greater_0_conv less_add_same_cancel1)
  have t: "t = take (length t) (to_le 4 ?len @ to_le 4 ?crc @ frame_body f)"
    using assms(2) by (simp add: frame_bytes_def raw_frame_def)
  consider "length t < 4" | "4 \<le> length t" "length t < 8" | "8 \<le> length t" by linarith
  then show ?thesis
  proof cases
    case 1
    with reader_u32_short [OF u] show ?thesis by (simp add: decode_at_def Let_def)
  next
    case 2
    define s where "s = take (length t - 4) (to_le 4 ?crc)"
    have s: "length s < 4" using 2 by (simp add: s_def)
    have t': "t = to_le 4 ?len @ s" using 2 by (subst t) (simp add: s_def)
    have u1: "unread ?r (to_le 4 ?len @ s)" using u t' by simp
    show ?thesis
      using u32c.dec_enc [OF TrueI u1] reader_u32_short [OF unread_advance [OF u1] s]
      by (simp add: decode_at_def Let_def)
  next
    case 3
    define s where "s = take (length t - 8) (frame_body f)"
    have s: "length s < length (frame_body f)" using 3 len by (simp add: s_def)
    have t': "t = to_le 4 ?len @ to_le 4 ?crc @ s" using 3 by (subst t) (simp add: s_def)
    have u1: "unread ?r (to_le 4 ?len @ to_le 4 ?crc @ s)" using u t' by simp
    note u2 = unread_advance [OF u1]
    show ?thesis
      using u32c.dec_enc [OF TrueI u1] u32c.dec_enc [OF TrueI u2]
        reader_bytes_short [OF unread_advance [OF u2] s] assms(1)
      by (simp add: decode_at_def Let_def frame_ok_small unat_body_len)
  qed
qed

subsection \<open>Scanning\<close>

lemma slice_to_end [simp]: "slice (pre @ rest) (length pre) (length pre + length rest) = Some rest"
  by (simp add: slice_def)

text \<open>One turn of the loop, at a place inside the log.\<close>

lemma scan_loop_step:
  assumes "length pre = off" and "rest \<noteq> []"
  shows "scan_loop (pre @ rest) frames off =
     (case decode_at rest (u64_of off) of
        Inr (frame, len) \<Rightarrow> scan_loop (pre @ rest) (frames @ [frame]) (off + len)
      | Inl e \<Rightarrow> \<lparr>ws_frames = frames,
          ws_tail = (if is_truncation e then Torn (u64_of off) (length rest) else Corrupt (u64_of off) e),
          ws_valid_bytes = u64_of off\<rparr>)"
  using assms
  by (subst scan_loop.simps) (auto simp: Let_def split: sum.split)

lemma scan_loop_end: "scan_loop bs frames (length bs) =
    \<lparr>ws_frames = frames, ws_tail = Clean, ws_valid_bytes = u64_of (length bs)\<rparr>"
  by (subst scan_loop.simps) simp

lemma frame_bytes_not_Nil [simp]: "frame_bytes f \<noteq> []"
  using length_frame_bytes [of f] by force

lemma scan_loop_log:
  assumes "\<forall>f \<in> set fs. frame_ok f"
  shows "scan_loop (pre @ log_bytes fs @ rest) frames (length pre) =
     scan_loop (pre @ log_bytes fs @ rest) (frames @ fs) (length pre + length (log_bytes fs))"
  using assms
proof (induction fs arbitrary: pre frames)
  case Nil
  then show ?case by simp
next
  case (Cons f fs)
  from Cons.prems have ok: "frame_ok f" by simp
  have "scan_loop (pre @ log_bytes (f # fs) @ rest) frames (length pre)
      = scan_loop ((pre @ frame_bytes f) @ log_bytes fs @ rest) (frames @ [f]) (length (pre @ frame_bytes f))"
    using scan_loop_step [of pre "length pre" "log_bytes (f # fs) @ rest" frames]
      decode_at_frame [OF ok] by simp
  also have "\<dots> = scan_loop ((pre @ frame_bytes f) @ log_bytes fs @ rest) (frames @ [f] @ fs)
      (length (pre @ frame_bytes f) + length (log_bytes fs))"
    using Cons.IH [of "pre @ frame_bytes f" "frames @ [f]"] Cons.prems by simp
  finally show ?case by (simp add: ac_simps)
qed

lemma scan_log:
  "\<forall>f \<in> set fs. frame_ok f \<Longrightarrow>
     scan (log_bytes fs @ rest) = scan_loop (log_bytes fs @ rest) fs (length (log_bytes fs))"
  using scan_loop_log [of fs "[]" rest "[]"] by (simp add: scan_def)

lemma scan_log_clean:
  assumes "\<forall>f \<in> set fs. frame_ok f"
  shows "scan (log_bytes fs) =
     \<lparr>ws_frames = fs, ws_tail = Clean, ws_valid_bytes = u64_of (length (log_bytes fs))\<rparr>"
  using scan_log [OF assms, of "[]"] scan_loop_end [of "log_bytes fs" fs] by simp

lemma scan_log_stop:
  assumes "\<forall>f \<in> set fs. frame_ok f" and "rest \<noteq> []"
    and "decode_at rest (u64_of (length (log_bytes fs))) = Inl e"
  shows "scan (log_bytes fs @ rest) =
     \<lparr>ws_frames = fs,
      ws_tail = (if is_truncation e then Torn (u64_of (length (log_bytes fs))) (length rest)
                 else Corrupt (u64_of (length (log_bytes fs))) e),
      ws_valid_bytes = u64_of (length (log_bytes fs))\<rparr>"
  using assms scan_log [OF assms(1)] scan_loop_step [OF refl assms(2), of "log_bytes fs"] by simp

lemma scan_log_torn:
  assumes "\<forall>f \<in> set fs. frame_ok f" and "frame_ok g" and "frame_bytes g = t @ suf"
    and "t \<noteq> []" and "suf \<noteq> []"
  shows "scan (log_bytes fs @ t) =
     \<lparr>ws_frames = fs, ws_tail = Torn (u64_of (length (log_bytes fs))) (length t),
      ws_valid_bytes = u64_of (length (log_bytes fs))\<rparr>"
  using decode_at_torn [OF assms(2,3,5)] scan_log_stop [OF assms(1,4)] by fastforce

text \<open>Every log is its valid frames and a rest that does not decode.\<close>

lemma scan_split:
  obtains fs rest where "bs = log_bytes fs @ rest" "\<forall>f \<in> set fs. frame_ok f"
    "ws_frames (scan bs) = fs" "ws_valid_bytes (scan bs) = u64_of (length (log_bytes fs))"
    "rest = [] \<longleftrightarrow> ws_tail (scan bs) = Clean"
    "rest \<noteq> [] \<Longrightarrow> \<exists>e. decode_at rest (u64_of (length (log_bytes fs))) = Inl e"
proof -
  have "\<exists>fs rest. bs = log_bytes fs @ rest \<and> (\<forall>f \<in> set fs. frame_ok f)
     \<and> (rest \<noteq> [] \<longrightarrow> (\<exists>e. decode_at rest (u64_of (length (log_bytes fs))) = Inl e))"
    if "bs = log_bytes gs @ xs" "\<forall>f \<in> set gs. frame_ok f" for gs xs
    using that
  proof (induction "length xs" arbitrary: gs xs rule: less_induct)
    case less
    show ?case
    proof (cases "decode_at xs (u64_of (length (log_bytes gs)))")
      case (Inl e)
      with less.prems show ?thesis by blast
    next
      case (Inr a)
      obtain f n where a: "decode_at xs (u64_of (length (log_bytes gs))) = Inr (f, n)"
        using Inr by (cases a) simp
      from decode_at_sound(3) [OF a] obtain ys where ys: "xs = frame_bytes f @ ys" ..
      show ?thesis
        using less.hyps [of ys "gs @ [f]"] less.prems ys decode_at_sound(1) [OF a]
        by (simp add: length_frame_bytes)
    qed
  qed
  from this [of "[]" bs] obtain fs rest where
    a: "bs = log_bytes fs @ rest" "\<forall>f \<in> set fs. frame_ok f"
      "rest \<noteq> [] \<longrightarrow> (\<exists>e. decode_at rest (u64_of (length (log_bytes fs))) = Inl e)" by auto
  show thesis
  proof (cases "rest = []")
    case True
    with a scan_log_clean [OF a(2)] show ?thesis by (intro that [of fs rest]) simp_all
  next
    case False
    with a(3) obtain e where "decode_at rest (u64_of (length (log_bytes fs))) = Inl e" by blast
    with a False scan_log_stop [OF a(2) False this] show ?thesis
      by (intro that [of fs rest]) auto
  qed
qed

subsection \<open>A log cut anywhere\<close>

text \<open>How many frames of \<open>fs\<close> are completely inside the first \<open>n\<close> bytes.\<close>

fun whole_frames :: "nat \<Rightarrow> wal_frame list \<Rightarrow> nat" where
  "whole_frames n [] = 0"
| "whole_frames n (f # fs) =
     (if length (frame_bytes f) \<le> n then Suc (whole_frames (n - length (frame_bytes f)) fs) else 0)"

lemma whole_frames_le: "whole_frames n fs \<le> length fs"
  by (induction n fs rule: whole_frames.induct) auto

lemma whole_frames_bound: "length (log_bytes (take (whole_frames n fs) fs)) \<le> n"
  by (induction n fs rule: whole_frames.induct) auto

lemma whole_frames_full: "length (log_bytes fs) \<le> n \<longleftrightarrow> whole_frames n fs = length fs"
  by (induction n fs rule: whole_frames.induct) auto

lemma whole_frames_append:
  "length (log_bytes fs) \<le> n \<Longrightarrow>
   whole_frames n (fs @ gs) = length fs + whole_frames (n - length (log_bytes fs)) gs"
  by (induction n fs rule: whole_frames.induct) auto

lemma take_log_bytes:
  "\<exists>t. take n (log_bytes fs) = log_bytes (take (whole_frames n fs) fs) @ t
      \<and> (t \<noteq> [] \<longrightarrow> (\<exists>suf. suf \<noteq> [] \<and> whole_frames n fs < length fs
           \<and> frame_bytes (fs ! whole_frames n fs) = t @ suf))"
proof (induction n fs rule: whole_frames.induct)
  case (1 n)
  then show ?case by simp
next
  case (2 n f fs)
  show ?case
  proof (cases "length (frame_bytes f) \<le> n")
    case True
    with 2 show ?thesis by simp
  next
    case False
    let ?t = "take n (frame_bytes f)" and ?s = "drop n (frame_bytes f)"
    have "?s \<noteq> []" and "frame_bytes f = ?t @ ?s" using False by simp_all
    moreover have "take n (log_bytes (f # fs)) = log_bytes (take (whole_frames n (f # fs)) (f # fs)) @ ?t"
      and "whole_frames n (f # fs) = 0" using False by simp_all
    ultimately show ?thesis
      by (intro exI [of _ ?t] conjI impI exI [of _ ?s]) simp_all
  qed
qed

lemma scan_take:
  fixes n :: nat
  assumes ok: "\<forall>f \<in> set fs. frame_ok f"
  defines "k \<equiv> whole_frames n fs"
  shows "scan (take n (log_bytes fs)) =
     (let b = length (log_bytes (take k fs)); m = min n (length (log_bytes fs)) in
      \<lparr>ws_frames = take k fs, ws_tail = (if m = b then Clean else Torn (u64_of b) (m - b)),
       ws_valid_bytes = u64_of b\<rparr>)"
proof -
  obtain t where t: "take n (log_bytes fs) = log_bytes (take k fs) @ t"
    and suf: "t \<noteq> [] \<Longrightarrow> \<exists>suf. suf \<noteq> [] \<and> k < length fs \<and> frame_bytes (fs ! k) = t @ suf"
    using take_log_bytes [of n fs] unfolding k_def by blast
  have okk: "\<forall>f \<in> set (take k fs). frame_ok f" using ok set_take_subset by fastforce
  have len: "min n (length (log_bytes fs)) = length (log_bytes (take k fs)) + length t"
    using arg_cong [OF t, of length] by simp
  show ?thesis
  proof (cases "t = []")
    case True
    with t len scan_log_clean [OF okk] show ?thesis by (simp add: Let_def)
  next
    case False
    with suf obtain suf where s: "suf \<noteq> []" "k < length fs" "frame_bytes (fs ! k) = t @ suf" by blast
    from ok s(2) have "frame_ok (fs ! k)" by simp
    from scan_log_torn [OF okk this s(3) False s(1)] False show ?thesis
      unfolding t len by (simp add: Let_def)
  qed
qed

lemma ws_frames_scan_take:
  "\<forall>f \<in> set fs. frame_ok f \<Longrightarrow> ws_frames (scan (take n (log_bytes fs))) = take (whole_frames n fs) fs"
  by (simp add: scan_take Let_def)

subsection \<open>Committed work\<close>

definition committed_frames :: "wal_frame list \<Rightarrow> wal_frame list" where
  "committed_frames fs = filter (\<lambda>f. \<not> is_commit (wf_op f)
     \<and> (wf_txn_id f = 0 \<or> wf_txn_id f \<in> set (committed_txns fs))) fs"

lemma committed_eq: "committed s = committed_frames (ws_frames s)"
  by (simp add: committed_def committed_frames_def Let_def conj_commute)

lemma committed_txns_append [simp]: "committed_txns (fs @ gs) = committed_txns fs @ committed_txns gs"
  by (induction fs) auto

lemma committed_txns_ids: "set (committed_txns fs) \<subseteq> wf_txn_id ` set fs"
  by (induction fs) auto

lemma committed_txns_none: "\<forall>f \<in> set fs. \<not> is_commit (wf_op f) \<Longrightarrow> committed_txns fs = []"
  by (induction fs) auto

text \<open>A transaction group as the writer emits it: operations and one commit, all under \<open>t\<close>.\<close>

definition is_group :: "u64 \<Rightarrow> wal_frame list \<Rightarrow> wal_frame \<Rightarrow> bool" where
  "is_group t ops c \<longleftrightarrow> t \<noteq> 0 \<and> (\<forall>f \<in> set ops. wf_txn_id f = t \<and> \<not> is_commit (wf_op f))
     \<and> wf_txn_id c = t \<and> is_commit (wf_op c)"

lemma committed_frames_open_group:
  assumes "t \<noteq> 0" and "\<forall>f \<in> set ops. wf_txn_id f = t \<and> \<not> is_commit (wf_op f)"
    and "t \<notin> wf_txn_id ` set fs"
  shows "committed_frames (fs @ ops) = committed_frames fs"
proof -
  have "committed_txns ops = []" using assms(2) by (intro committed_txns_none) blast
  moreover have "t \<notin> set (committed_txns fs)" using committed_txns_ids assms(3) by blast
  ultimately show ?thesis using assms(1,2) by (auto simp: committed_frames_def filter_empty_conv)
qed

lemma committed_frames_group:
  assumes "is_group t ops c" and "t \<notin> wf_txn_id ` set fs"
  shows "committed_frames (fs @ ops @ [c]) = committed_frames fs @ ops"
proof -
  have "committed_txns ops = []" using assms(1) by (intro committed_txns_none) (simp add: is_group_def)
  then have "set (committed_txns (fs @ ops @ [c])) = insert t (set (committed_txns fs))"
    using assms(1) by (auto simp: is_group_def)
  moreover have "filter (\<lambda>f. \<not> is_commit (wf_op f) \<and> (wf_txn_id f = 0 \<or> wf_txn_id f \<in> insert t C)) fs
      = filter (\<lambda>f. \<not> is_commit (wf_op f) \<and> (wf_txn_id f = 0 \<or> wf_txn_id f \<in> C)) fs" for C
    using assms(2) by (intro filter_cong) auto
  moreover have "filter (\<lambda>f. \<not> is_commit (wf_op f) \<and> (wf_txn_id f = 0 \<or> wf_txn_id f \<in> insert t C)) ops = ops" for C
    using assms(1) by (auto simp: is_group_def)
  ultimately show ?thesis using assms(1) by (simp add: committed_frames_def is_group_def)
qed

lemma committed_frames_group_prefix:
  assumes "is_group t ops c" and "t \<notin> wf_txn_id ` set fs" and "k < Suc (length ops)"
  shows "committed_frames (fs @ take k (ops @ [c])) = committed_frames fs"
proof -
  have "take k (ops @ [c]) = take k ops" using assms(3) by simp
  moreover have "\<forall>f \<in> set (take k ops). wf_txn_id f = t \<and> \<not> is_commit (wf_op f)"
    using assms(1) by (auto simp: is_group_def dest: in_set_takeD)
  ultimately show ?thesis
    using committed_frames_open_group [of t "take k ops" fs] assms(1,2) by (simp add: is_group_def)
qed

subsection \<open>Appending\<close>

text \<open>Several frames appended to one buffer, the first failure returned.\<close>

fun append_all :: "wal_frame list \<Rightarrow> writer \<Rightarrow> writer fresult" where
  "append_all [] out = Inr out"
| "append_all (f # fs) out = rbind (append_to f out) (append_all fs)"

lemma append_all_iff:
  "append_all fs out = Inr out' \<longleftrightarrow> (\<forall>f \<in> set fs. frame_ok f) \<and> out' = out @ log_bytes fs"
  by (induction fs arbitrary: out) (auto simp: append_to_eq)

lemma frame_encode_iff: "frame_encode f = Inr bs \<longleftrightarrow> frame_ok f \<and> bs = frame_bytes f"
  by (auto simp: frame_encode_def append_to_eq codec_simps)

subsection \<open>Properties\<close>

text \<open>
  Property C5.  A batch is all or nothing, under a transaction id of its own.  Let a group of operations and
  its commit record be appended, under a transaction id that does not occur in the log, to a log that scans
  clean.  (A writer that reopens a log numbers from 1 again, so the id may occur: \<open>wal_reopen_resurrects\<close>
  shows what happens then.)  Wherever inside the appended bytes the log is then cut, replay sees exactly the operations
  that were committed before; when nothing is cut it sees those and the whole batch.
\<close>

theorem wal_batch_atomic:
  assumes "append_all old [] = Inr bs0" and "append_all (ops @ [c]) bs0 = Inr bs1"
    and "is_group t ops c" and "t \<notin> wf_txn_id ` set old" and "length bs0 \<le> n"
  shows "committed (scan (take n bs1))
     = committed (scan bs0) @ (if length bs1 \<le> n then ops else [])"
proof -
  from assms(1,2) have ok: "\<forall>f \<in> set (old @ ops @ [c]). frame_ok f"
    and bs: "bs0 = log_bytes old" "bs1 = log_bytes (old @ ops @ [c])"
    by (auto simp: append_all_iff)
  let ?k = "whole_frames (n - length bs0) (ops @ [c])"
  have "ws_frames (scan (take n bs1)) = take (length old + ?k) (old @ ops @ [c])"
    using ws_frames_scan_take [OF ok, of n] whole_frames_append [of old n "ops @ [c]"] assms(5) bs
    by simp
  then have 1: "ws_frames (scan (take n bs1)) = old @ take ?k (ops @ [c])" by simp
  have 0: "ws_frames (scan bs0) = old" using ok bs(1) by (simp add: scan_log_clean)
  have full: "length bs1 \<le> n \<longleftrightarrow> ?k = Suc (length ops)"
    using whole_frames_full [of "ops @ [c]" "n - length bs0"] assms(5) bs by auto
  have "?k \<le> Suc (length ops)" using whole_frames_le [of "n - length bs0" "ops @ [c]"] by simp
  then show ?thesis
    using committed_frames_group [OF assms(3,4)] committed_frames_group_prefix [OF assms(3,4), of ?k] full
    by (auto simp: committed_eq 0 1 simp del: take_append)
qed

theorem wal_batch_atomic_witness:
  "\<exists>bs0 bs1. append_all [standalone 1 (Delete [7])] [] = Inr bs0
     \<and> append_all [in_txn 2 1 (Put [8] [0,0,128,63] [] None), in_txn 3 1 (Commit 1)] bs0 = Inr bs1
     \<and> length bs1 = 45
     \<and> committed (scan (take 44 bs1)) = committed (scan bs0)
     \<and> committed (scan bs1) = committed (scan bs0) @ [in_txn 2 1 (Put [8] [0,0,128,63] [] None)]"
proof -
  let ?old = "[standalone 1 (Delete [7])]" and ?p = "in_txn 2 1 (Put [8] [0,0,128,63] [] None)"
    and ?c = "in_txn 3 1 (Commit 1)"
  let ?bs0 = "log_bytes ?old" and ?bs1 = "log_bytes (?old @ [?p, ?c])"
  note ev = standalone_def in_txn_def frame_body_def blob_bytes_def varint_bytes.simps u64_of_def
  have 0: "append_all ?old [] = Inr ?bs0"
    by (simp add: append_all_iff frame_ok_def ev del: append_all.simps)
  have 1: "append_all ([?p] @ [?c]) ?bs0 = Inr ?bs1"
    by (simp add: append_all_iff frame_ok_def ev del: append_all.simps)
  have l: "length ?bs0 = 13" "length ?bs1 = 45"
    by (simp_all add: length_frame_bytes ev)
  have g: "is_group 1 [?p] ?c" "1 \<notin> wf_txn_id ` set ?old"
    by (simp_all add: is_group_def is_commit_def ev)
  show ?thesis
    using wal_batch_atomic [OF 0 1 g, of 44] wal_batch_atomic [OF 0 1 g, of 45] 0 1 l
    by (intro exI [of _ ?bs0] exI [of _ ?bs1]) simp
qed

text \<open>
  Property C15.  A log cut anywhere is read back as the frames that are completely in what is
  left.  The tail is clean exactly when the cut falls between two frames and torn otherwise,
  never corrupt, and the reported valid length is the end of the last whole frame.
\<close>

theorem wal_cut_anywhere:
  assumes "append_all fs [] = Inr bs"
  shows "scan (take n bs) =
     (let k = whole_frames n fs; b = length (log_bytes (take k fs)); m = min n (length bs) in
      \<lparr>ws_frames = take k fs, ws_tail = (if m = b then Clean else Torn (u64_of b) (m - b)),
       ws_valid_bytes = u64_of b\<rparr>)"
  using assms scan_take [of fs n] by (auto simp: append_all_iff Let_def)

theorem wal_cut_anywhere_witness:
  "\<exists>bs. append_all [standalone 1 (Delete [7]), standalone 2 (Delete [8])] [] = Inr bs
     \<and> scan (take 20 bs) = \<lparr>ws_frames = [standalone 1 (Delete [7])], ws_tail = Torn 13 7, ws_valid_bytes = 13\<rparr>"
proof -
  let ?fs = "[standalone 1 (Delete [7]), standalone 2 (Delete [8])]"
  note ev = standalone_def frame_body_def blob_bytes_def varint_bytes.simps u64_of_def length_frame_bytes
  have 0: "append_all ?fs [] = Inr (log_bytes ?fs)"
    by (simp add: append_all_iff frame_ok_def ev del: append_all.simps)
  have "scan (take 20 (log_bytes ?fs)) =
      \<lparr>ws_frames = [standalone 1 (Delete [7])], ws_tail = Torn 13 7, ws_valid_bytes = 13\<rparr>"
    unfolding wal_cut_anywhere [OF 0] by (simp add: Let_def ev)
  with 0 show ?thesis by blast
qed

text \<open>
  Property C18.  Frames round trip and have one encoding: decoding succeeds exactly on the
  encoding of the frame it returns, followed by anything, and consumes exactly that encoding.
\<close>

theorem wal_frame_roundtrip:
  "decode_at bs base = Inr (f, n) \<longleftrightarrow>
     (\<exists>enc rest. frame_encode f = Inr enc \<and> bs = enc @ rest \<and> n = length enc)"
  using decode_at_frame decode_at_sound by (auto simp: frame_encode_iff)

text \<open>
  Property C17.  Truncating any byte string, damaged or not, at the valid length the scan
  reports gives a clean log with the same frames: what recovery leaves behind reads the same.
\<close>

theorem wal_truncate_to_valid:
  assumes "length bs < 2 ^ 64"
  shows "scan (take (unat (ws_valid_bytes (scan bs))) bs) = (scan bs)\<lparr>ws_tail := Clean\<rparr>"
proof -
  obtain fs rest where s: "bs = log_bytes fs @ rest" "\<forall>f \<in> set fs. frame_ok f"
    "ws_frames (scan bs) = fs" "ws_valid_bytes (scan bs) = u64_of (length (log_bytes fs))"
    by (rule scan_split)
  then have "take (unat (ws_valid_bytes (scan bs))) bs = log_bytes fs" using assms by simp
  with s scan_log_clean [OF s(2)] show ?thesis by simp
qed

theorem wal_truncate_to_valid_witness:
  "scan (take (unat (ws_valid_bytes (scan [1, 2, 3]))) [1, 2, 3]) = (scan [1, 2, 3])\<lparr>ws_tail := Clean\<rparr>"
  by (rule wal_truncate_to_valid) simp

text \<open>
  Property C16.  Damage is told from tearing: when up to four consecutive bytes of the body of
  a complete frame were changed and its checksum is intact, or its body is intact and its stored
  checksum was changed in any way, the scan keeps every frame before it and reports corruption,
  with a checksum mismatch, at the start of that frame.
\<close>

theorem wal_damage_reported:
  assumes "append_all fs [] = Inr bs" and "frame_ok f"
    and "stored = crc32c (frame_body f) \<and> burst_apart 4 (frame_body f) body \<and> body \<noteq> frame_body f
      \<or> stored \<noteq> crc32c (frame_body f) \<and> body = frame_body f"
  shows "scan (bs @ to_le 4 (of_nat (length body) :: u32) @ to_le 4 stored @ body @ rest)
     = \<lparr>ws_frames = fs,
        ws_tail = Corrupt (u64_of (length bs)) (ChecksumMismatch (u64_of (length bs)) stored (crc32c body)),
        ws_valid_bytes = u64_of (length bs)\<rparr>"
proof -
  let ?len = "of_nat (length body) :: u32"
  let ?t = "to_le 4 ?len @ to_le 4 stored @ body @ rest"
  have ok: "\<forall>f \<in> set fs. frame_ok f" and bs: "bs = log_bytes fs"
    using assms(1) by (auto simp: append_all_iff)
  have len: "length (frame_body f) = length body" using assms(3) by (auto simp: burst_apart_def)
  have crc: "crc32c body \<noteq> stored" using crc32c_burst [of "frame_body f" body] assms(3) by metis
  have u: "unread (reader_with_base ?t (u64_of (length bs))) ?t" by simp
  have "decode_at ?t (u64_of (length bs))
      = Inl (ChecksumMismatch (u64_of (length bs)) stored (crc32c body))"
    unfolding decode_at_def Let_def
    apply (rule codec_steps, rule u, simp)
    apply (rule codec_steps, assumption, simp)
    apply (simp only: frame_ok_small [OF assms(2), unfolded len] if_False unat_body_len [OF assms(2), unfolded len])
    apply (rule codec_steps, assumption, simp)
    apply (simp add: crc)
    done
  from scan_log_stop [OF ok _ this [unfolded bs]] show ?thesis unfolding bs by simp
qed

theorem wal_damage_reported_witness:
  "scan ([] @ to_le 4 (5 :: u32) @ to_le 4 (crc32c [1, 0, 2, 1, 7]) @ [1, 0, 2, 1, 6] @ [])
     = \<lparr>ws_frames = [],
        ws_tail = Corrupt 0 (ChecksumMismatch 0 (crc32c [1, 0, 2, 1, 7]) (crc32c [1, 0, 2, 1, 6])),
        ws_valid_bytes = 0\<rparr>"
proof -
  let ?f = "standalone 1 (Delete [7])"
  have body: "frame_body ?f = [1, 0, 2, 1, 7]"
    by (simp add: standalone_def frame_body_def OP_DELETE_def blob_bytes_def varint_bytes.simps u64_of_def)
  have d: "burst_apart 4 (frame_body ?f) [1, 0, 2, 1, 6]"
    unfolding body by (rule burst_apartI [where i = 4]) (auto simp: less_Suc_eq numeral_eq_Suc)
  have ok: "frame_ok ?f" by (simp add: frame_ok_def u64_of_def body)
  from wal_damage_reported [where fs = "[]" and rest = "[]" and f = ?f and body = "[1, 0, 2, 1, 6]", OF _ ok disjI1 [OF conjI [OF refl conjI [OF d]]]] body
  show ?thesis by (simp add: u64_of_def)
qed

end
