(* ===== verification/Wal_Log.thy ===== *)
theory Wal_Log
  imports Storage_Memory Wal_Format Memtable
begin

text \<open>
  The log on storage: \<open>core/src/persistence/wal.rs\<close> (appending) and \<open>recovery.rs\<close> (replaying),
  with the durability policy of \<open>persistence/mod.rs\<close>.  Shown, for every backend that keeps the
  storage contract and then for the in-memory one: the log file always holds exactly the frames
  appended, replay applies exactly the committed operations, and what was appended under a
  syncing policy survives a power cut.
\<close>

subsection \<open>Durability policy\<close>

datatype durability = Full | Batch | Relaxed

definition syncs_every_write :: "durability \<Rightarrow> bool" where
  "syncs_every_write d \<longleftrightarrow> d = Full"

definition syncs_on_commit :: "durability \<Rightarrow> bool" where
  "syncs_on_commit d \<longleftrightarrow> d = Full \<or> d = Batch"

subsection \<open>The writer\<close>

record 'h wal_writer =
  ww_file :: 'h
  ww_path :: db_path
  ww_next_sequence :: u64
  ww_next_txn :: u64
  ww_bytes :: u64
  ww_durability :: durability
  ww_unsynced :: bool

definition ww_open :: "('s, 'h) storage \<Rightarrow> db_path \<Rightarrow> u64 \<Rightarrow> durability \<Rightarrow> ('s, 'h wal_writer) io" where
  "ww_open st path first_sequence dur =
     io_bind (st_open_file st path OpenCreate) (\<lambda>file.
     io_bind (f_len st file) (\<lambda>n.
     io_ok \<lparr>ww_file = file, ww_path = path, ww_next_sequence = first_sequence, ww_next_txn = 1,
            ww_bytes = n, ww_durability = dur, ww_unsynced = False\<rparr>))"

definition ww_sync :: "('s, 'h) storage \<Rightarrow> ('h wal_writer \<times> 's, unit) io" where
  "ww_sync st =
     io_bind io_self (\<lambda>w.
     io_bind (io_snd (f_sync_data st (ww_file w))) (\<lambda>_.
     io_modify (\<lambda>w. w\<lparr>ww_unsynced := False\<rparr>)))"

definition ww_write :: "('s, 'h) storage \<Rightarrow> bytes \<Rightarrow> ('h wal_writer \<times> 's, unit) io" where
  "ww_write st bs =
     io_bind io_self (\<lambda>w.
     io_bind (io_snd (f_append st (ww_file w) bs)) (\<lambda>off.
     if off \<noteq> ww_bytes w then io_err (StorageErr (Io (ww_path w) OpAppend ''append landed elsewhere; another writer?''))
     else io_modify (\<lambda>w. w\<lparr>ww_bytes := ww_bytes w + u64_of (length bs), ww_unsynced := True\<rparr>)))"

definition ww_append :: "('s, 'h) storage \<Rightarrow> wal_op \<Rightarrow> ('h wal_writer \<times> 's, u64) io" where
  "ww_append st p =
     io_bind io_self (\<lambda>w.
     let sequence = ww_next_sequence w; frame = standalone sequence p in
     io_bind (io_of (map_err (\<lambda>e. from_format_at e (ww_path w)) (append_to frame writer_new))) (\<lambda>buf.
     io_bind (ww_write st buf) (\<lambda>_.
     io_bind (io_modify (\<lambda>w. w\<lparr>ww_next_sequence := ww_next_sequence w + 1\<rparr>)) (\<lambda>_.
     io_bind (if syncs_every_write (ww_durability w) then ww_sync st else io_ok ()) (\<lambda>_.
     io_ok sequence)))))"

definition group_step :: "u64 \<Rightarrow> db_path \<Rightarrow> wal_op \<Rightarrow> writer \<times> u64 \<Rightarrow> (writer \<times> u64) db_result" where
  "group_step txn_id path p = (\<lambda>(buf, sequence).
     rbind (map_err (\<lambda>e. from_format_at e path) (append_to (in_txn sequence txn_id p) buf)) (\<lambda>buf.
     Inr (buf, sequence + 1)))"

definition ww_append_group :: "('s, 'h) storage \<Rightarrow> wal_op list \<Rightarrow> ('h wal_writer \<times> 's, u64) io" where
  "ww_append_group st ops =
     io_bind io_self (\<lambda>w.
     let txn_id = ww_next_txn w in
     io_bind (io_modify (\<lambda>w. w\<lparr>ww_next_txn := ww_next_txn w + 1\<rparr>)) (\<lambda>_.
     let op_count = u64_of (length ops) in
     io_bind (io_of (try_fold (group_step txn_id (ww_path w)) ops (writer_new, ww_next_sequence w))) (\<lambda>(buf, sequence).
     io_bind (io_of (map_err (\<lambda>e. from_format_at e (ww_path w)) (append_to (in_txn sequence txn_id (Commit op_count)) buf))) (\<lambda>buf.
     let sequence = sequence + 1 in
     io_bind (ww_write st buf) (\<lambda>_.
     io_bind (io_modify (\<lambda>w. w\<lparr>ww_next_sequence := sequence\<rparr>)) (\<lambda>_.
     io_bind (if syncs_on_commit (ww_durability w) then ww_sync st else io_ok ()) (\<lambda>_.
     io_ok txn_id)))))))"

subsection \<open>Replay\<close>

record replay_report =
  rr_applied :: nat
  rr_rolled_back :: nat
  rr_last_sequence :: u64
  rr_valid_bytes :: u64
  rr_truncated_tail :: bool

definition replay_frame :: "fpu \<Rightarrow> id_kind \<Rightarrow> wal_frame \<Rightarrow> memtable \<Rightarrow> memtable db_result" where
  "replay_frame F kind frame m =
     (case wf_op frame of
        Put idb vector md content \<Rightarrow>
          rbind (id_from_bytes kind idb) (\<lambda>docid.
          rbind (if md = [] then Inr None else rbind (meta_decode md) (\<lambda>x. Inr (Some x))) (\<lambda>meta.
          rbind (mt_put_bytes F docid vector meta content m) (\<lambda>(_, m). Inr m)))
      | Delete idb \<Rightarrow> rbind (id_from_bytes kind idb) (\<lambda>docid. Inr (fst (mt_delete docid m)))
      | Commit _ \<Rightarrow> Inr m)"

definition max_sequence :: "wal_frame list \<Rightarrow> u64" where
  "max_sequence fs = (case fs of [] \<Rightarrow> 0 | f # fs \<Rightarrow> fold (\<lambda>f a. max a (wf_sequence f)) fs (wf_sequence f))"

definition replay_into ::
  "fpu \<Rightarrow> ('s, 'h) storage \<Rightarrow> db_path \<Rightarrow> id_kind \<Rightarrow> memtable \<Rightarrow> ('s, replay_report \<times> memtable) io" where
  "replay_into F st path kind m =
     io_bind (st_metadata st path) (\<lambda>meta.
     case meta of
       None \<Rightarrow> io_ok (\<lparr>rr_applied = 0, rr_rolled_back = 0, rr_last_sequence = 0, rr_valid_bytes = 0,
                        rr_truncated_tail = False\<rparr>, m)
     | Some meta \<Rightarrow>
         io_bind (st_open_file st path OpenRead) (\<lambda>file.
         io_bind (f_read_at st file (unat (fm_len meta)) 0) (\<lambda>bs.
         let sc = scan bs in
         case ws_tail sc of
           Corrupt off reason \<Rightarrow> io_err (Corruption (MalformedStructure path off (DFormat reason)))
         | tail \<Rightarrow>
             let truncated_tail = (case tail of Torn _ _ \<Rightarrow> True | _ \<Rightarrow> False);
                 com = committed sc;
                 applied = length com;
                 non_commit = length (filter (\<lambda>f. \<not> is_commit (wf_op f)) (ws_frames sc)) in
             io_bind (io_of (try_fold (replay_frame F kind) com m)) (\<lambda>m.
             io_ok (\<lparr>rr_applied = applied, rr_rolled_back = non_commit - applied,
                     rr_last_sequence = max_sequence (ws_frames sc), rr_valid_bytes = ws_valid_bytes sc,
                     rr_truncated_tail = truncated_tail\<rparr>, m)))))"

definition truncate_tail :: "('s, 'h) storage \<Rightarrow> db_path \<Rightarrow> u64 \<Rightarrow> ('s, unit) io" where
  "truncate_tail st path valid_bytes =
     io_bind (st_metadata st path) (\<lambda>meta.
     case meta of
       None \<Rightarrow> io_ok ()
     | Some meta \<Rightarrow>
         if fm_len meta \<le> valid_bytes then io_ok ()
         else
           io_bind (st_open_file st path OpenReadWrite) (\<lambda>file.
           io_bind (f_truncate st file valid_bytes) (\<lambda>_.
           f_sync_data st file)))"

subsection \<open>The frames of a group\<close>

fun group_frames :: "u64 \<Rightarrow> u64 \<Rightarrow> wal_op list \<Rightarrow> wal_frame list" where
  "group_frames q t [] = []"
| "group_frames q t (p # ps) = in_txn q t p # group_frames (q + 1) t ps"

text \<open>The operations and the commit record, numbered from \<open>q\<close>, under the transaction \<open>t\<close>.\<close>

definition whole_group :: "u64 \<Rightarrow> u64 \<Rightarrow> wal_op list \<Rightarrow> wal_frame list" where
  "whole_group q t ps = group_frames q t ps @ [in_txn (q + u64_of (length ps)) t (Commit (u64_of (length ps)))]"

lemma u64_of_add [simp]: "u64_of m + u64_of n = u64_of (m + n)" "u64_of (Suc 0) = 1"
  by (simp_all add: u64_of_def)

lemma group_step_run:
  "try_fold (group_step t path) ps (buf, q) = Inr (buf', q') \<longleftrightarrow>
     (\<forall>f \<in> set (group_frames q t ps). frame_ok f) \<and> buf' = buf @ log_bytes (group_frames q t ps) \<and> q' = q + u64_of (length ps)"
proof (induction ps arbitrary: buf q)
  case Nil
  then show ?case by (auto simp: u64_of_def)
next
  case (Cons p ps)
  then show ?case by (auto simp: group_step_def append_to_eq u64_of_def algebra_simps)
qed

lemma group_frames_ids:
  "f \<in> set (group_frames q t ps) \<Longrightarrow> wf_txn_id f = t \<and> wf_op f \<in> set ps"
  by (induction ps arbitrary: q) (auto simp: in_txn_def)

lemma whole_group_is_group:
  assumes "t \<noteq> 0" and "\<forall>p \<in> set ps. \<not> is_commit p"
  shows "is_group t (group_frames q t ps) (in_txn (q + u64_of (length ps)) t (Commit (u64_of (length ps))))"
  using assms group_frames_ids by (fastforce simp: is_group_def in_txn_def is_commit_def)

subsection \<open>What the log file holds\<close>

text \<open>
  The writer stands on its file, whose bytes are exactly the frames \<open>fs\<close> and whose durable
  bytes are \<open>d\<close>; the writer's own byte count agrees.
\<close>

definition wal_holds ::
  "('s \<Rightarrow> db_path \<Rightarrow> file_view option) \<Rightarrow> ('s \<Rightarrow> 'h \<Rightarrow> db_path \<Rightarrow> bool) \<Rightarrow> ('h \<Rightarrow> bool)
    \<Rightarrow> 'h wal_writer \<Rightarrow> 's \<Rightarrow> wal_frame list \<Rightarrow> bytes \<Rightarrow> bool" where
  "wal_holds files stands writable w s fs d \<longleftrightarrow>
     stands s (ww_file w) (ww_path w) \<and> writable (ww_file w) \<and> files s (ww_path w) = Some (log_bytes fs, d)
     \<and> ww_bytes w = u64_of (length (log_bytes fs)) \<and> (\<forall>f \<in> set fs. frame_ok f)"

text \<open>What replaying a clean log of the frames \<open>fs\<close> returns.\<close>

definition replay_clean :: "fpu \<Rightarrow> id_kind \<Rightarrow> memtable \<Rightarrow> wal_frame list \<Rightarrow> (replay_report \<times> memtable) db_result" where
  "replay_clean F kind m fs =
     rbind (try_fold (replay_frame F kind) (committed_frames fs) m) (\<lambda>m.
     Inr (\<lparr>rr_applied = length (committed_frames fs),
           rr_rolled_back = length (filter (\<lambda>f. \<not> is_commit (wf_op f)) fs) - length (committed_frames fs),
           rr_last_sequence = max_sequence fs, rr_valid_bytes = u64_of (length (log_bytes fs)),
           rr_truncated_tail = False\<rparr>, m))"

lemma replay_clean_ok:
  assumes "try_fold (replay_frame F kind) (committed_frames fs) m = Inr m'"
  obtains rep where "replay_clean F kind m fs = Inr (rep, m')" and "rr_applied rep = length (committed_frames fs)"
  using assms by (simp add: replay_clean_def)

context storage_contract
begin

lemma ww_open_holds:
  assumes "good s" and "\<not> dirs s p" and "dirs s (parent_of p)"
    and "files s p = None \<and> fs = [] \<and> d = [] \<or> files s p = Some (log_bytes fs, d)" and "\<forall>f \<in> set fs. frame_ok f"
  obtains w s' where "ww_open st p q dur s = (Inr w, s')" and "good s'" and "wal_holds files stands writable w s' fs d"
    and "dirs s' = dirs s" and "files s' = (files s)(p \<mapsto> (log_bytes fs, d))"
    and "ww_path w = p" and "ww_next_sequence w = q" and "ww_next_txn w = 1" and "ww_durability w = dur"
proof -
  from assms(1-3) obtain h s' where o: "st_open_file st p OpenCreate s = (Inr h, s')" "good s'" "stands s' h p" "writable h"
    "dirs s' = dirs s" "files s' = (files s)(p \<mapsto> (case files s p of Some f \<Rightarrow> f | None \<Rightarrow> ([], [])))"
    by (rule open_write)
  from assms(4) o(6) have f: "files s' = (files s)(p \<mapsto> (log_bytes fs, d))" by auto
  then have "f_len st h s' = (Inr (u64_of (length (log_bytes fs))), s')"
    using len_law [OF o(2,3)] by simp
  moreover define w where "w = \<lparr>ww_file = h, ww_path = p, ww_next_sequence = q, ww_next_txn = 1,
      ww_bytes = u64_of (length (log_bytes fs)), ww_durability = dur, ww_unsynced = False\<rparr>"
  ultimately have "ww_open st p q dur s = (Inr w, s')" using o(1) by (simp add: ww_open_def)
  with o(2-5) f assms(5) show ?thesis by (intro that [of w s']) (simp_all add: wal_holds_def w_def)
qed

lemma ww_write_holds:
  assumes "good s" and "wal_holds files stands writable w s fs d" and "\<forall>f \<in> set gs. frame_ok f"
  obtains s' where "ww_write st (log_bytes gs) (w, s) =
      (Inr (), (w\<lparr>ww_bytes := u64_of (length (log_bytes (fs @ gs))), ww_unsynced := True\<rparr>, s'))"
    and "good s'" and "dirs s' = dirs s" and "stands s' = stands s"
    and "files s' = (files s)(ww_path w \<mapsto> (log_bytes (fs @ gs), d))"
proof -
  from assms(2) append_law [OF assms(1), of "ww_file w" "ww_path w" "(log_bytes fs, d)" "log_bytes gs"]
  obtain s' where a: "f_append st (ww_file w) (log_bytes gs) s = (Inr (u64_of (length (log_bytes fs))), s')" "good s'"
    "stands s' = stands s" "dirs s' = dirs s" "files s' = (files s)(ww_path w \<mapsto> (log_bytes (fs @ gs), d))"
    by (auto simp: wal_holds_def)
  with assms(2) show ?thesis by (intro that [of s']) (simp_all add: ww_write_def wal_holds_def)
qed

lemma ww_sync_holds:
  assumes "good s" and "stands s (ww_file w) p" and "writable (ww_file w)" and "files s p = Some f"
  obtains s' where "ww_sync st (w, s) = (Inr (), (w\<lparr>ww_unsynced := False\<rparr>, s'))" and "good s'" and "dirs s' = dirs s"
    and "stands s' = stands s" and "files s' = (files s)(p \<mapsto> (fst f, fst f))"
  using sync_law [OF assms] by (auto simp: ww_sync_def intro: that)

text \<open>Writing frames and syncing if the policy says so: the part the two append operations share.\<close>

lemma ww_write_sync:
  assumes "good s" and "wal_holds files stands writable w s fs d" and "\<forall>f \<in> set gs. frame_ok f"
  obtains w' s' where "io_bind (ww_write st (log_bytes gs)) (\<lambda>_.
       io_bind (io_modify (\<lambda>w. w\<lparr>ww_next_sequence := q\<rparr>)) (\<lambda>_.
       io_bind (if b then ww_sync st else io_ok ()) (\<lambda>_. io_ok r))) (w, s) = (Inr r, (w', s'))"
    and "good s'" and "wal_holds files stands writable w' s' (fs @ gs) (if b then log_bytes (fs @ gs) else d)"
    and "dirs s' = dirs s" and "stands s' = stands s"
    and "files s' = (files s)(ww_path w \<mapsto> (log_bytes (fs @ gs), if b then log_bytes (fs @ gs) else d))"
    and "ww_path w' = ww_path w" and "ww_next_sequence w' = q" and "ww_next_txn w' = ww_next_txn w"
    and "ww_durability w' = ww_durability w"
proof -
  let ?w = "w\<lparr>ww_bytes := u64_of (length (log_bytes (fs @ gs))), ww_unsynced := True, ww_next_sequence := q\<rparr>"
  from assms obtain s1 where w: "ww_write st (log_bytes gs) (w, s) =
      (Inr (), (w\<lparr>ww_bytes := u64_of (length (log_bytes (fs @ gs))), ww_unsynced := True\<rparr>, s1))"
    "good s1" "dirs s1 = dirs s" "stands s1 = stands s"
    "files s1 = (files s)(ww_path w \<mapsto> (log_bytes (fs @ gs), d))" by (rule ww_write_holds)
  have h: "wal_holds files stands writable ?w s1 (fs @ gs) d" using assms(2,3) w by (auto simp: wal_holds_def)
  show ?thesis
  proof (cases b)
    case False
    with w h show ?thesis by (intro that [of ?w s1]) simp_all
  next
    case True
    have "stands s1 (ww_file ?w) (ww_path w)" "writable (ww_file ?w)" "files s1 (ww_path w) = Some (log_bytes (fs @ gs), d)"
      using h by (simp_all add: wal_holds_def)
    from ww_sync_holds [OF w(2) this] obtain s2 where y: "ww_sync st (?w, s1) = (Inr (), (?w\<lparr>ww_unsynced := False\<rparr>, s2))"
      "good s2" "dirs s2 = dirs s1" "stands s2 = stands s1"
      "files s2 = (files s1)(ww_path w \<mapsto> (log_bytes (fs @ gs), log_bytes (fs @ gs)))" by auto
    with True w h show ?thesis
      by (intro that [of "?w\<lparr>ww_unsynced := False\<rparr>" s2]) (simp_all add: wal_holds_def)
  qed
qed

lemma ww_append_holds:
  assumes "good s" and "wal_holds files stands writable w s fs d" and "frame_ok (standalone (ww_next_sequence w) p)"
  obtains w' s' where "ww_append st p (w, s) = (Inr (ww_next_sequence w), (w', s'))"
    and "good s'" and "dirs s' = dirs s" and "stands s' = stands s"
    and "let fs' = fs @ [standalone (ww_next_sequence w) p]; d' = (if ww_durability w = Full then log_bytes fs' else d) in
         wal_holds files stands writable w' s' fs' d' \<and> files s' = (files s)(ww_path w \<mapsto> (log_bytes fs', d'))"
    and "ww_path w' = ww_path w" and "ww_next_sequence w' = ww_next_sequence w + 1"
    and "ww_next_txn w' = ww_next_txn w" and "ww_durability w' = ww_durability w"
proof -
  let ?f = "standalone (ww_next_sequence w) p" and ?b = "syncs_every_write (ww_durability w)"
  from ww_write_sync [OF assms(1,2), of "[?f]" "ww_next_sequence w + 1" ?b "ww_next_sequence w"] assms(3)
  obtain w' s' where *: "io_bind (ww_write st (log_bytes [?f])) (\<lambda>_.
       io_bind (io_modify (\<lambda>w'. w'\<lparr>ww_next_sequence := ww_next_sequence w + 1\<rparr>)) (\<lambda>_.
       io_bind (if ?b then ww_sync st else io_ok ()) (\<lambda>_. io_ok (ww_next_sequence w)))) (w, s) = (Inr (ww_next_sequence w), (w', s'))"
    "good s'" "wal_holds files stands writable w' s' (fs @ [?f]) (if ?b then log_bytes (fs @ [?f]) else d)"
    "dirs s' = dirs s" "stands s' = stands s"
    "files s' = (files s)(ww_path w \<mapsto> (log_bytes (fs @ [?f]), if ?b then log_bytes (fs @ [?f]) else d))"
    "ww_path w' = ww_path w" "ww_next_sequence w' = ww_next_sequence w + 1" "ww_next_txn w' = ww_next_txn w"
    "ww_durability w' = ww_durability w" by auto
  obtain s1 where wr: "ww_write st (log_bytes [?f]) (w, s) =
      (Inr (), (w\<lparr>ww_bytes := u64_of (length (log_bytes (fs @ [?f]))), ww_unsynced := True\<rparr>, s1))"
    using ww_write_holds [OF assms(1,2), of "[?f]"] assms(3) by auto
  have "append_to ?f writer_new = Inr (log_bytes [?f])" using assms(3) by (simp add: append_to_eq codec_simps)
  with *(1) wr have "ww_append st p (w, s) = (Inr (ww_next_sequence w), (w', s'))"
    by (simp add: ww_append_def Let_def)
  with * show ?thesis by (intro that [of w' s']) (simp_all add: syncs_every_write_def Let_def)
qed

lemma ww_append_group_holds:
  assumes "good s" and "wal_holds files stands writable w s fs d"
    and "\<forall>f \<in> set (whole_group (ww_next_sequence w) (ww_next_txn w) ps). frame_ok f"
  obtains w' s' where "ww_append_group st ps (w, s) = (Inr (ww_next_txn w), (w', s'))"
    and "good s'" and "dirs s' = dirs s" and "stands s' = stands s"
    and "let fs' = fs @ whole_group (ww_next_sequence w) (ww_next_txn w) ps;
             d' = (if ww_durability w \<noteq> Relaxed then log_bytes fs' else d) in
         wal_holds files stands writable w' s' fs' d' \<and> files s' = (files s)(ww_path w \<mapsto> (log_bytes fs', d'))"
    and "ww_path w' = ww_path w" and "ww_next_sequence w' = ww_next_sequence w + u64_of (length ps) + 1"
    and "ww_next_txn w' = ww_next_txn w + 1" and "ww_durability w' = ww_durability w"
proof -
  let ?q = "ww_next_sequence w" and ?t = "ww_next_txn w" and ?b = "syncs_on_commit (ww_durability w)"
  let ?g = "whole_group ?q ?t ps" and ?w = "w\<lparr>ww_next_txn := ww_next_txn w + 1\<rparr>"
  have h: "wal_holds files stands writable ?w s fs d" using assms(2) by (simp add: wal_holds_def)
  from ww_write_sync [OF assms(1) h assms(3), of "?q + u64_of (length ps) + 1" ?b ?t]
  obtain w' s' where *: "io_bind (ww_write st (log_bytes ?g)) (\<lambda>_.
       io_bind (io_modify (\<lambda>w'. w'\<lparr>ww_next_sequence := ?q + u64_of (length ps) + 1\<rparr>)) (\<lambda>_.
       io_bind (if ?b then ww_sync st else io_ok ()) (\<lambda>_. io_ok ?t))) (?w, s) = (Inr ?t, (w', s'))"
    "good s'" "wal_holds files stands writable w' s' (fs @ ?g) (if ?b then log_bytes (fs @ ?g) else d)"
    "dirs s' = dirs s" "stands s' = stands s"
    "files s' = (files s)(ww_path w \<mapsto> (log_bytes (fs @ ?g), if ?b then log_bytes (fs @ ?g) else d))"
    "ww_path w' = ww_path w" "ww_next_sequence w' = ?q + u64_of (length ps) + 1" "ww_next_txn w' = ?t + 1"
    "ww_durability w' = ww_durability w" by auto
  have run: "try_fold (group_step ?t (ww_path w)) ps (writer_new, ?q)
      = Inr (log_bytes (group_frames ?q ?t ps), ?q + u64_of (length ps))"
    using assms(3) by (simp add: group_step_run whole_group_def codec_simps)
  moreover have "append_to (in_txn (?q + u64_of (length ps)) ?t (Commit (u64_of (length ps)))) (log_bytes (group_frames ?q ?t ps))
      = Inr (log_bytes ?g)" using assms(3) by (simp add: append_to_eq whole_group_def)
  ultimately have "ww_append_group st ps (w, s) = (Inr ?t, (w', s'))"
    using *(1) by (simp add: ww_append_group_def Let_def)
  moreover have "?b \<longleftrightarrow> ww_durability w \<noteq> Relaxed"
    unfolding syncs_on_commit_def by (cases "ww_durability w") auto
  ultimately show ?thesis using * by (intro that [of w' s']) (simp_all add: Let_def)
qed

lemma replay_log:
  assumes "good s" and "files s p = Some (log_bytes fs, d)" and "\<forall>f \<in> set fs. frame_ok f" and "length (log_bytes fs) < 2 ^ 64"
  shows "replay_into F st p kind m s = (replay_clean F kind m fs, s)"
proof -
  obtain h where r: "st_metadata st p s = (Inr (Some \<lparr>fm_len = u64_of (length (log_bytes fs)), fm_kind = EntryFile\<rparr>), s)"
    "st_open_file st p OpenRead s = (Inr h, s)"
    "f_read_at st h (unat (u64_of (length (log_bytes fs)))) 0 s = (Inr (log_bytes fs), s)"
    using read_whole [OF assms(1,2)] assms(4) by (metis fst_conv)
  show ?thesis
  proof (cases "try_fold (replay_frame F kind) (committed_frames fs) m")
    case (Inl e)
    with r scan_log_clean [OF assms(3)] show ?thesis
      by (simp add: replay_into_def replay_clean_def Let_def committed_eq)
  next
    case (Inr m')
    with r scan_log_clean [OF assms(3)] show ?thesis
      by (simp add: replay_into_def replay_clean_def Let_def committed_eq)
  qed
qed

end

subsection \<open>Properties\<close>

lemma resurrected_group:
  assumes "t \<noteq> 0" and "t \<notin> wf_txn_id ` set fs" and "\<forall>p \<in> set lost. \<not> is_commit p" and "\<forall>p \<in> set ps. \<not> is_commit p"
  shows "committed_frames (fs @ group_frames q t lost) = committed_frames fs"
    and "committed_frames ((fs @ group_frames q t lost) @ whole_group q' t ps)
       = committed_frames fs @ group_frames q t lost @ group_frames q' t ps"
proof -
  let ?c = "in_txn (q' + u64_of (length ps)) t (Commit (u64_of (length ps)))"
  have l: "\<forall>f \<in> set (group_frames q t lost). wf_txn_id f = t \<and> \<not> is_commit (wf_op f)"
    and g: "\<forall>f \<in> set (group_frames q' t ps). wf_txn_id f = t \<and> \<not> is_commit (wf_op f)"
    using group_frames_ids assms(3,4) by fastforce+
  show "committed_frames (fs @ group_frames q t lost) = committed_frames fs"
    using committed_frames_open_group [OF assms(1) l assms(2)] .
  have "is_group t (group_frames q t lost @ group_frames q' t ps) ?c"
    using l g assms(1) by (auto simp: is_group_def in_txn_def is_commit_def)
  from committed_frames_group [OF this assms(2)]
  show "committed_frames ((fs @ group_frames q t lost) @ whole_group q' t ps)
       = committed_frames fs @ group_frames q t lost @ group_frames q' t ps"
    by (simp add: whole_group_def)
qed

text \<open>What replay finds in a log of which a part is durable, now and after a power cut.\<close>

lemma replay_written:
  assumes "mem_good s" and "mem_files s p = Some (log_bytes fs, log_bytes ds)" and "\<forall>f \<in> set (fs @ ds). frame_ok f"
    and "length (log_bytes fs) < 2 ^ 64" and "length (log_bytes ds) < 2 ^ 64"
  shows "fst (replay_into F memory_storage p kind m s) = replay_clean F kind m fs"
    and "fst (replay_into F memory_storage p kind m (simulate_power_loss s)) = replay_clean F kind m ds"
proof -
  have c: "mem_files (simulate_power_loss s) p = Some (log_bytes ds, log_bytes ds)" using mem.crash_file [OF assms(1,2)] by simp
  have g: "mem_good (simulate_power_loss s)" using mem.crash_law [OF assms(1)] by blast
  show "fst (replay_into F memory_storage p kind m s) = replay_clean F kind m fs"
    using mem.replay_log [OF assms(1,2) _ assms(4)] assms(3) by simp
  show "fst (replay_into F memory_storage p kind m (simulate_power_loss s)) = replay_clean F kind m ds"
    using mem.replay_log [OF g c _ assms(5)] assms(3) by simp
qed

text \<open>
  Property C4.  A write that was acknowledged survives.  When the log file holds the frames
  \<open>fs\<close>, of which \<open>ds\<close> are durable, appending a batch succeeds and puts the operations and their
  commit record behind \<open>fs\<close>, and appending a single operation puts its frame there.  After process
  death, replay returns exactly the committed operations of the old frames and of what was appended.
  After a power cut it does so as well when the policy syncs: on commit for a batch, which is every policy but
  the relaxed one, on every write for a single operation, which is \<open>Full\<close> only; otherwise it returns what
  the last sync left.
\<close>

theorem wal_power_loss:
  assumes "mem_good s" and "wal_holds mem_files mem_stands mf_writable w s fs (log_bytes ds)" and "\<forall>f \<in> set ds. frame_ok f"
    and "gs = whole_group (ww_next_sequence w) (ww_next_txn w) ps" and "\<forall>f \<in> set gs. frame_ok f"
    and "length (log_bytes (fs @ gs)) < 2 ^ 64" and "length (log_bytes ds) < 2 ^ 64"
    and "f = standalone (ww_next_sequence w) p" and "frame_ok f" and "length (log_bytes (fs @ [f])) < 2 ^ 64"
  shows "(\<exists>w' s'. ww_append_group memory_storage ps (w, s) = (Inr (ww_next_txn w), (w', s'))
       \<and> fst (replay_into F memory_storage (ww_path w) kind m s') = replay_clean F kind m (fs @ gs)
       \<and> fst (replay_into F memory_storage (ww_path w) kind m (simulate_power_loss s'))
           = replay_clean F kind m (if ww_durability w = Relaxed then ds else fs @ gs))
    \<and> (\<exists>w' s'. ww_append memory_storage p (w, s) = (Inr (ww_next_sequence w), (w', s'))
       \<and> fst (replay_into F memory_storage (ww_path w) kind m s') = replay_clean F kind m (fs @ [f])
       \<and> fst (replay_into F memory_storage (ww_path w) kind m (simulate_power_loss s'))
           = replay_clean F kind m (if ww_durability w = Full then fs @ [f] else ds))"
proof -
  have ok: "\<forall>f \<in> set fs. frame_ok f" using assms(2) by (simp add: wal_holds_def)
  let ?dg = "if ww_durability w = Relaxed then ds else fs @ gs" and ?df = "if ww_durability w = Full then fs @ [f] else ds"
  obtain w1 s1 where a: "ww_append_group memory_storage ps (w, s) = (Inr (ww_next_txn w), (w1, s1))" "mem_good s1"
    and "mem_files s1 (ww_path w) = Some (log_bytes (fs @ gs), if ww_durability w \<noteq> Relaxed then log_bytes (fs @ gs) else log_bytes ds)"
    using mem.ww_append_group_holds [OF assms(1,2) assms(5) [unfolded assms(4)]] assms(4) fun_upd_same unfolding Let_def by metis
  then have f1: "mem_files s1 (ww_path w) = Some (log_bytes (fs @ gs), log_bytes ?dg)" by simp
  obtain w2 s2 where b: "ww_append memory_storage p (w, s) = (Inr (ww_next_sequence w), (w2, s2))" "mem_good s2"
    and "mem_files s2 (ww_path w) = Some (log_bytes (fs @ [f]), if ww_durability w = Full then log_bytes (fs @ [f]) else log_bytes ds)"
    using mem.ww_append_holds [OF assms(1,2) assms(9) [unfolded assms(8)]] assms(8) fun_upd_same unfolding Let_def by metis
  then have f2: "mem_files s2 (ww_path w) = Some (log_bytes (fs @ [f]), log_bytes ?df)" by simp
  have l: "length (log_bytes ?dg) < 2 ^ 64" "length (log_bytes ?df) < 2 ^ 64" using assms(6,7,10) by simp_all
  have o: "\<forall>x \<in> set ((fs @ gs) @ ?dg). frame_ok x" "\<forall>x \<in> set ((fs @ [f]) @ ?df). frame_ok x" using ok assms(3,5,9) by auto
  note replay_written [OF a(2) f1 o(1) assms(6) l(1), of F kind m] replay_written [OF b(2) f2 o(2) assms(10) l(2), of F kind m]
  with a(1) b(1) show ?thesis by blast
qed

theorem wal_power_loss_witness:
  "\<exists>w s w' s' rep m'. ww_open memory_storage (ascii ''w'') 1 Batch mem_new = (Inr w, s)
     \<and> ww_append_group memory_storage [Delete [7], Delete [8]] (w, s) = (Inr 1, (w', s'))
     \<and> fst (replay_into \<lparr>f_mul = \<lambda>x y. x, f_sum = \<lambda>xs. 0, f_sqrt = \<lambda>x. x, f_recip = \<lambda>x. x\<rparr>
         memory_storage (ascii ''w'') (StrId 9) (mt_new 1 F32) (simulate_power_loss s')) = Inr (rep, m')
     \<and> rr_applied rep = 2 \<and> mt_get m' (DocStr [8]) = Some LookupDeleted"
proof -
  let ?F = "\<lparr>f_mul = \<lambda>x y. x, f_sum = \<lambda>xs. 0, f_sqrt = \<lambda>x. x, f_recip = \<lambda>x. x\<rparr>"
  let ?p = "ascii ''w''" and ?ps = "[Delete [7], Delete [8]]" and ?m = "mt_new 1 F32"
  let ?gs = "whole_group 1 1 ?ps"
  note ev = standalone_def whole_group_def in_txn_def frame_body_def blob_bytes_def varint_bytes.simps u64_of_def length_frame_bytes
  have root: "is_dir mem_new (parent_of ?p)" "\<not> is_dir mem_new ?p" "mem_files mem_new ?p = None"
    by (simp_all add: is_dir_def mem_files_def get_entry_def mem_new_def parent_of_def path_parent_def path_root_def
        ascii_def SEP_def)
  obtain w s where o: "ww_open memory_storage ?p 1 Batch mem_new = (Inr w, s)" "mem_good s"
    "wal_holds mem_files mem_stands mf_writable w s [] []" "ww_path w = ?p" "ww_next_sequence w = 1" "ww_next_txn w = 1"
    "ww_durability w = Batch"
    using mem.ww_open_holds [OF mem_good_new root(2,1), of "[]" "[]" 1 Batch] root(3) empty_iff list.set(1) by metis
  have ok: "\<forall>f \<in> set ?gs. frame_ok f" by (simp add: frame_ok_def ev)
  have len: "length (log_bytes ([] @ ?gs)) < 2 ^ 64" by (simp add: ev)
  have gs: "?gs = whole_group (ww_next_sequence w) (ww_next_txn w) ?ps" using o by simp
  have h: "wal_holds mem_files mem_stands mf_writable w s [] (log_bytes [])" using o(3) by simp
  have one: "frame_ok (standalone (ww_next_sequence w) (Delete [7]))" "length (log_bytes ([] @ [standalone (ww_next_sequence w) (Delete [7])])) < 2 ^ 64"
    unfolding o(5) by (simp_all add: frame_ok_def ev)
  have e: "\<forall>f \<in> set []. frame_ok f" "length (log_bytes []) < 2 ^ 64" by simp_all
  obtain w' s' where a: "ww_append_group memory_storage ?ps (w, s) = (Inr 1, (w', s'))"
    and r: "fst (replay_into ?F memory_storage ?p (StrId 9) ?m (simulate_power_loss s'))
       = replay_clean ?F (StrId 9) ?m (if Batch = Relaxed then [] else [] @ ?gs)"
    using wal_power_loss [OF o(2) h e(1) gs ok len e(2) refl one, of ?F "StrId 9" ?m] unfolding o(4,6,7) by blast
  have cf: "committed_frames ?gs = group_frames 1 1 ?ps"
    by (simp add: committed_frames_def ev is_commit_def)
  have u: "valid_utf8 [7]" "valid_utf8 [8]" by (simp_all add: valid_utf8_ascii)
  let ?m' = "fst (mt_delete (DocStr [8]) (fst (mt_delete (DocStr [7]) ?m)))"
  have "try_fold (replay_frame ?F (StrId 9)) (committed_frames ?gs) ?m = Inr ?m'"
    unfolding cf by (simp add: replay_frame_def in_txn_def u)
  then obtain rep where "replay_clean ?F (StrId 9) ?m ?gs = Inr (rep, ?m')" "rr_applied rep = length (committed_frames ?gs)"
    by (rule replay_clean_ok)
  moreover have "length (committed_frames ?gs) = 2" unfolding cf by simp
  moreover have "mt_get ?m' (DocStr [8]) = Some LookupDeleted"
    by (simp add: mt_get_def mt_delete_def mt_new_def Let_def)
  ultimately show ?thesis using o(1) a r by auto

qed

text \<open>
  Property C19.  Atomicity does not hold across a restart.  Let a crash cut a batch at a frame
  boundary, so that operations of transaction 1 are in the log without their commit record.
  Replay leaves them out; but the reopened writer numbers transactions from 1 again and keeps
  those frames, so the next batch's commit record also commits them, and the following replay
  applies the operations that were rolled back.
\<close>

theorem wal_reopen_resurrects:
  assumes "mem_good s" and "mem_files s p = Some (log_bytes (fs @ group_frames q 1 lost), d)" and "is_dir s (parent_of p)"
    and "\<forall>f \<in> set (fs @ group_frames q 1 lost @ whole_group q' 1 ps). frame_ok f"
    and "1 \<notin> wf_txn_id ` set fs" and "\<forall>x \<in> set (lost @ ps). \<not> is_commit x"
    and "length (log_bytes (fs @ group_frames q 1 lost @ whole_group q' 1 ps)) < 2 ^ 64"
  shows "\<exists>w s1 w' s2. fst (replay_into F memory_storage p kind m s) = replay_clean F kind m (fs @ group_frames q 1 lost)
     \<and> committed_frames (fs @ group_frames q 1 lost) = committed_frames fs
     \<and> ww_open memory_storage p q' dur s = (Inr w, s1) \<and> ww_append_group memory_storage ps (w, s1) = (Inr 1, (w', s2))
     \<and> fst (replay_into F memory_storage p kind m s2) = replay_clean F kind m ((fs @ group_frames q 1 lost) @ whole_group q' 1 ps)
     \<and> committed_frames ((fs @ group_frames q 1 lost) @ whole_group q' 1 ps)
         = committed_frames fs @ group_frames q 1 lost @ group_frames q' 1 ps"
proof -
  let ?old = "fs @ group_frames q 1 lost"
  have ok: "\<forall>f \<in> set ?old. frame_ok f" "\<forall>f \<in> set (whole_group q' 1 ps). frame_ok f" using assms(4) by auto
  have nd: "\<not> is_dir s p" using assms(2) by (auto simp: mem_files_def is_dir_def)
  obtain w s1 where o: "ww_open memory_storage p q' dur s = (Inr w, s1)" "mem_good s1"
    "wal_holds mem_files mem_stands mf_writable w s1 ?old d" "ww_path w = p" "ww_next_sequence w = q'" "ww_next_txn w = 1"
    using mem.ww_open_holds [OF assms(1) nd assms(3), of ?old d q' dur] assms(2) ok(1) by metis
  obtain w' s2 where a: "ww_append_group memory_storage ps (w, s1) = (Inr 1, (w', s2))" "mem_good s2"
    "wal_holds mem_files mem_stands mf_writable w' s2 (?old @ whole_group q' 1 ps)
       (if ww_durability w \<noteq> Relaxed then log_bytes (?old @ whole_group q' 1 ps) else d)" "ww_path w' = p"
    using mem.ww_append_group_holds [OF o(2,3), of ps] o(4-6) ok(2) unfolding Let_def by metis
  have len: "length (log_bytes ?old) < 2 ^ 64" using assms(7) by simp
  have "fst (replay_into F memory_storage p kind m s) = replay_clean F kind m ?old"
    using mem.replay_log [OF assms(1,2) ok(1) len] by simp
  moreover have "fst (replay_into F memory_storage p kind m s2) = replay_clean F kind m (?old @ whole_group q' 1 ps)"
    using mem.replay_log [OF a(2), of p "?old @ whole_group q' 1 ps"] a(3,4) assms(7) by (auto simp: wal_holds_def)
  moreover have "\<forall>x \<in> set lost. \<not> is_commit x" "\<forall>x \<in> set ps. \<not> is_commit x" using assms(6) by auto
  note resurrected_group(1) [OF _ assms(5) this, of q] resurrected_group(2) [OF _ assms(5) this, of q q']
  ultimately show ?thesis using o(1) a(1) by auto
qed

theorem wal_reopen_resurrects_witness:
  "\<exists>w s1 w' s2 rep rep' m1 m2.
     let F = \<lparr>f_mul = \<lambda>x y. x, f_sum = \<lambda>xs. 0, f_sqrt = \<lambda>x. x, f_recip = \<lambda>x. x\<rparr>; p = ascii ''w'';
         s = write_all p (log_bytes [in_txn 1 1 (Delete [7])]) mem_new in
     fst (replay_into F memory_storage p (StrId 9) (mt_new 1 F32) s) = Inr (rep, m1) \<and> mt_get m1 (DocStr [7]) = None
     \<and> ww_open memory_storage p 2 Batch s = (Inr w, s1) \<and> ww_append_group memory_storage [Delete [8]] (w, s1) = (Inr 1, (w', s2))
     \<and> fst (replay_into F memory_storage p (StrId 9) (mt_new 1 F32) s2) = Inr (rep', m2) \<and> mt_get m2 (DocStr [7]) = Some LookupDeleted"
proof -
  let ?F = "\<lparr>f_mul = \<lambda>x y. x, f_sum = \<lambda>xs. 0, f_sqrt = \<lambda>x. x, f_recip = \<lambda>x. x\<rparr>"
  let ?p = "ascii ''w''" and ?m = "mt_new 1 F32" and ?lost = "group_frames 1 1 [Delete [7]]"
  let ?s = "write_all ?p (log_bytes ?lost) mem_new"
  note ev = whole_group_def in_txn_def frame_body_def blob_bytes_def varint_bytes.simps u64_of_def length_frame_bytes
  note mv = write_all_def add_file_def put_shared_def mem_new_def get_entry_def ascii_def
  have f: "mem_files ?s ?p = Some (log_bytes ([] @ ?lost), log_bytes ?lost)"
    by (simp add: mem_files_def mv shared_def)
  have d: "is_dir ?s (parent_of ?p)" by (simp add: is_dir_def mv parent_of_def path_parent_def path_root_def SEP_def)
  have g: "mem_good ?s" by (auto simp: mem_good_def is_dir_def mv split: if_splits)
  have ok: "\<forall>f \<in> set ([] @ ?lost @ whole_group 2 1 [Delete [8]]). frame_ok f" by (simp add: frame_ok_def ev)
  have nc: "\<forall>x \<in> set ([Delete [7]] @ [Delete [8]]). \<not> is_commit x" by (simp add: is_commit_def)
  have len: "length (log_bytes ([] @ ?lost @ whole_group 2 1 [Delete [8]])) < 2 ^ 64" by (simp add: ev)
  from wal_reopen_resurrects [OF g f d ok _ nc len, of ?F "StrId 9" ?m Batch]
  obtain w s1 w' s2 where r: "fst (replay_into ?F memory_storage ?p (StrId 9) ?m ?s) = replay_clean ?F (StrId 9) ?m ?lost"
    "committed_frames ?lost = committed_frames []" "ww_open memory_storage ?p 2 Batch ?s = (Inr w, s1)"
    "ww_append_group memory_storage [Delete [8]] (w, s1) = (Inr 1, (w', s2))"
    "fst (replay_into ?F memory_storage ?p (StrId 9) ?m s2) = replay_clean ?F (StrId 9) ?m (?lost @ whole_group 2 1 [Delete [8]])"
    "committed_frames (?lost @ whole_group 2 1 [Delete [8]]) = committed_frames [] @ ?lost @ group_frames 2 1 [Delete [8]]" by auto
  have u: "valid_utf8 [7]" "valid_utf8 [8]" by (simp_all add: valid_utf8_ascii)
  have e: "committed_frames [] = []" by (simp add: committed_frames_def)
  let ?m' = "fst (mt_delete (DocStr [8]) (fst (mt_delete (DocStr [7]) ?m)))"
  have "try_fold (replay_frame ?F (StrId 9)) (committed_frames (?lost @ whole_group 2 1 [Delete [8]])) ?m = Inr ?m'"
    unfolding r(6) e by (simp add: replay_frame_def in_txn_def u)
  then obtain rep' where "replay_clean ?F (StrId 9) ?m (?lost @ whole_group 2 1 [Delete [8]]) = Inr (rep', ?m')"
    by (rule replay_clean_ok)
  moreover have "try_fold (replay_frame ?F (StrId 9)) (committed_frames ?lost) ?m = Inr ?m" unfolding r(2) e by simp
  then obtain rep where "replay_clean ?F (StrId 9) ?m ?lost = Inr (rep, ?m)" by (rule replay_clean_ok)
  moreover have "mt_get ?m' (DocStr [7]) = Some LookupDeleted" "mt_get ?m (DocStr [7]) = None"
    by (simp_all add: mt_get_def mt_delete_def mt_new_def Let_def)
  ultimately show ?thesis
    using r unfolding Let_def by (intro exI [of _ w] exI [of _ s1] exI [of _ w'] exI [of _ s2] exI [of _ rep] exI [of _ rep']
        exI [of _ ?m] exI [of _ ?m']) simp
qed

end
