(* ===== verification/Max_Heap.thy ===== *)
theory Max_Heap
  imports Main "HOL-Library.Multiset"
begin

text \<open>
  The contract of the standard library's \<open>BinaryHeap\<close> as the engine uses it (top-k selection
  and graph search): a multiset with a greatest element under a key.  \<open>max_heap\<close> states the
  laws; inside it, the step of a bounded selection is proved once: keeping at most \<open>k\<close> elements
  by replacing the greatest one keeps the \<open>k\<close> smallest of everything offered.  The model's heap
  is the list of its elements in descending order, which gives the same answers.
\<close>

text \<open>A heap as its elements, greatest first.\<close>

fun bh_push :: "('a \<Rightarrow> 'k::linorder) \<Rightarrow> 'a \<Rightarrow> 'a list \<Rightarrow> 'a list" where
  "bh_push f x [] = [x]"
| "bh_push f x (y # ys) = (if f y \<le> f x then x # y # ys else y # bh_push f x ys)"

fun bh_peek :: "'a list \<Rightarrow> 'a option" where
  "bh_peek [] = None"
| "bh_peek (x # xs) = Some x"

definition bh_pop :: "'a list \<Rightarrow> 'a list" where
  "bh_pop h = tl h"

locale max_heap =
  fixes key :: "'a \<Rightarrow> 'k::linorder"
    and inv :: "'h \<Rightarrow> bool"
    and elems :: "'h \<Rightarrow> 'a multiset"
    and push :: "'a \<Rightarrow> 'h \<Rightarrow> 'h"
    and peek :: "'h \<Rightarrow> 'a option"
    and pop :: "'h \<Rightarrow> 'h"
  assumes push_inv: "inv h \<Longrightarrow> inv (push x h)"
    and push_elems: "inv h \<Longrightarrow> elems (push x h) = add_mset x (elems h)"
    and peek_None: "inv h \<Longrightarrow> peek h = None \<longleftrightarrow> elems h = {#}"
    and peek_in: "inv h \<Longrightarrow> peek h = Some x \<Longrightarrow> x \<in># elems h"
    and peek_max: "inv h \<Longrightarrow> peek h = Some x \<Longrightarrow> y \<in># elems h \<Longrightarrow> key y \<le> key x"
    and pop_inv: "inv h \<Longrightarrow> inv (pop h)"
    and pop_elems: "inv h \<Longrightarrow> peek h = Some x \<Longrightarrow> elems (pop h) = elems h - {#x#}"

lemma take_insort_key:
  assumes "sorted (map key L)" and "0 < k" "k \<le> length L" and "inj key"
  shows "take k (insort_key key c L) =
    (if key c < key (L ! (k - 1)) then insort_key key c (take (k - 1) L) else take k L)"
  using assms(1-3)
proof (induction L arbitrary: k)
  case Nil
  then show ?case by simp
next
  case (Cons y L)
  show ?case
  proof (cases "key c \<le> key y")
    case le: True
    show ?thesis
    proof (cases "key c < key ((y # L) ! (k - 1))")
      case True
      with le Cons.prems(2) show ?thesis by (cases k; cases "k - 1") auto
    next
      case False
      have same: "(y # L) ! j = c" if "j < k" for j
      proof -
        have mono: "key ((y # L) ! a) \<le> key ((y # L) ! b)" if "a \<le> b" "b < length (y # L)" for a b
          using sorted_nth_mono [OF Cons.prems(1), of a b] that nth_map [of a "y # L" key] nth_map [of b "y # L" key]
          by (simp del: list.map)
        have "key y \<le> key ((y # L) ! j)" "key ((y # L) ! j) \<le> key ((y # L) ! (k - 1))"
          using mono [of 0 j] mono [of j "k - 1"] that Cons.prems(3) by auto
        with le False have "key ((y # L) ! j) = key c" by auto
        then show ?thesis using assms(4) by (auto dest: injD)
      qed
      have "take k (c # y # L) = take k (y # L)"
      proof (rule nth_equalityI)
        fix i assume "i < length (take k (c # y # L))"
        then have "i < k" by simp
        then show "take k (c # y # L) ! i = take k (y # L) ! i"
          using same [of i] same [of "i - 1"] by (cases i) auto
      qed (use Cons.prems(3) in simp)
      with le False show ?thesis by simp
    qed
  next
    case gt: False
    show ?thesis
    proof (cases "k = 1")
      case True
      with gt show ?thesis by auto
    next
      case False
      with Cons.prems have "take (k - 1) (insort_key key c L) =
          (if key c < key (L ! (k - 2)) then insort_key key c (take (k - 2) L) else take (k - 1) L)"
        using Cons.IH [of "k - 1"] by (auto simp: numeral_2_eq_2)
      moreover have "(y # L) ! (k - 1) = L ! (k - 2)" "take (k - 1) (y # L) = y # take (k - 2) L"
        "take k (y # xs) = y # take (k - 1) xs" for xs
        using False Cons.prems(2) by (auto simp: nth_Cons' take_Cons' numeral_2_eq_2)
      ultimately show ?thesis using gt by simp
    qed
  qed
qed

context max_heap
begin

lemma offer_step:
  assumes inv: "inv h" and el: "elems h = mset (take k (sort_key key xs))" and k: "0 < k" and inj: "inj key"
    and h': "h' = (if size (elems h) < k then push c h
       else case peek h of Some w \<Rightarrow> if key c < key w then push c (pop h) else h | None \<Rightarrow> h)"
  shows "inv h' \<and> elems h' = mset (take k (sort_key key (c # xs)))"
proof -
  let ?L = "sort_key key xs"
  have sz: "size (elems h) = min k (length xs)" by (simp add: el)
  show ?thesis
  proof (cases "length xs < k")
    case True
    then have "elems h = mset xs" using el by simp
    with True show ?thesis using h' sz inv push_inv push_elems [OF inv] by simp
  next
    case False
    then have len: "k \<le> length ?L" by simp
    have ne: "elems h \<noteq> {#}" using sz False k by auto
    obtain w where w: "peek h = Some w" using peek_None [OF inv] ne by (cases "peek h") auto
    have w_last: "w = ?L ! (k - 1)"
    proof -
      have "w \<in> set (take k ?L)" using peek_in [OF inv w] by (simp add: el)
      then obtain j where j: "j < k" "w = ?L ! j" using len by (auto simp: in_set_conv_nth)
      have "?L ! (k - 1) \<in># elems h" using len k by (auto simp: el in_set_conv_nth intro!: exI [of _ "k - 1"])
      from peek_max [OF inv w this] have "key (?L ! (k - 1)) \<le> key w" .
      moreover have "key w \<le> key (?L ! (k - 1))"
        using sorted_nth_mono [of "map key ?L" j "k - 1"] j len by simp
      ultimately show ?thesis using inj by (auto dest: injD)
    qed
    have "take k ?L = take (k - 1) ?L @ [?L ! (k - 1)]"
      using take_Suc_conv_app_nth [of "k - 1" ?L] len k by simp
    then have "elems (pop h) = mset (take (k - 1) ?L)" using pop_elems [OF inv w] by (simp add: el w_last)
    then have pp: "elems (push c (pop h)) = mset (insort_key key c (take (k - 1) ?L))"
      using push_elems [OF pop_inv [OF inv]] by simp
    have "take k (insort_key key c ?L) =
        (if key c < key w then insort_key key c (take (k - 1) ?L) else take k ?L)"
      using take_insort_key [OF _ k len inj, of c] w_last by simp
    with False show ?thesis
      using h' sz w pp el inv push_inv pop_inv by auto
  qed
qed

end

interpretation bh: max_heap f "\<lambda>h. sorted_wrt (\<ge>) (map f h)" mset "bh_push f" bh_peek bh_pop
  for f :: "'a \<Rightarrow> 'k::linorder"
proof
  have set_push: "set (bh_push f x h) = insert x (set h)" for x :: 'a and h by (induction h) auto
  fix h :: "'a list" and x y :: 'a
  assume s: "sorted_wrt (\<ge>) (map f h)"
  from s show "sorted_wrt (\<ge>) (map f (bh_push f x h))"
    by (induction h) (auto simp: set_push)
  show "mset (bh_push f x h) = add_mset x (mset h)" by (induction h) auto
  show "bh_peek h = None \<longleftrightarrow> mset h = {#}" by (cases h) auto
  show "x \<in># mset h" if "bh_peek h = Some x" using that by (cases h) auto
  show "f y \<le> f x" if "bh_peek h = Some x" "y \<in># mset h" using that s by (cases h) auto
  show "sorted_wrt (\<ge>) (map f (bh_pop h))" using s by (cases h) (auto simp: bh_pop_def)
  show "mset (bh_pop h) = mset h - {#x#}" if "bh_peek h = Some x" using that by (cases h) (auto simp: bh_pop_def)
qed

end
