(* ===== verification/Topk.thy ===== *)
theory Topk
  imports Document Max_Heap "HOL-Library.Product_Lexorder"
begin

text \<open>
  Bounded top-k selection (\<open>core/src/search/topk.rs\<close>).  Scores are \<open>f32\<close> bit patterns:
  \<open>total_cmp\<close> is the order of \<open>f32_key\<close>, and \<open>score < min\<close> is the IEEE comparison.  The heap
  is the model of \<open>BinaryHeap\<close> from \<open>Max_Heap\<close>.  Shown: whatever is offered in whatever
  order, the collector returns the first \<open>k\<close> of the accepted candidates sorted by descending
  score and ascending row, and the cutoff it reports is the score of the worst one kept.
\<close>

text \<open>
  \<open>f32::total_cmp\<close> compares the bit patterns as sign-magnitude integers: for a negative number
  the low 31 bits are inverted and the result read as an \<open>i32\<close>.
\<close>

definition f32_key :: "u32 \<Rightarrow> int" where
  "f32_key x = (if bit x 31 then - uint (x AND 0x7FFFFFFF) - 1 else uint x)"

definition f32_is_zero :: "u32 \<Rightarrow> bool" where
  "f32_is_zero x \<longleftrightarrow> x AND 0x7FFFFFFF = 0"

definition f32_lt :: "u32 \<Rightarrow> u32 \<Rightarrow> bool" where
  "f32_lt a b \<longleftrightarrow> \<not> f32_is_nan a \<and> \<not> f32_is_nan b \<and> \<not> (f32_is_zero a \<and> f32_is_zero b) \<and> f32_key a < f32_key b"

record candidate =
  c_row :: row_id
  c_score :: u32

text \<open>The order of \<open>Worst\<close>: a better candidate is smaller, so the root of the heap is the worst.\<close>

definition worst_key :: "candidate \<Rightarrow> int \<times> u64" where
  "worst_key c = (- f32_key (c_score c), c_row c)"

record top_k =
  tk_k :: nat
  tk_heap :: "candidate list"
  tk_min_score :: "u32 option"
  tk_considered :: u64

definition topk_new :: "nat \<Rightarrow> top_k" where
  "topk_new k = \<lparr>tk_k = k, tk_heap = [], tk_min_score = None, tk_considered = 0\<rparr>"

definition with_min_score :: "u32 option \<Rightarrow> top_k \<Rightarrow> top_k" where
  "with_min_score m t = t\<lparr>tk_min_score := m\<rparr>"

definition topk_is_full :: "top_k \<Rightarrow> bool" where
  "topk_is_full t \<longleftrightarrow> length (tk_heap t) \<ge> tk_k t"

definition topk_cutoff :: "top_k \<Rightarrow> u32 option" where
  "topk_cutoff t = (if topk_is_full t then map_option c_score (bh_peek (tk_heap t)) else None)"

definition topk_offer :: "row_id \<Rightarrow> u32 \<Rightarrow> top_k \<Rightarrow> top_k \<times> bool" where
  "topk_offer row score t =
     (let t = t\<lparr>tk_considered := tk_considered t + 1\<rparr> in
      if tk_k t = 0 then (t, False)
      else if (case tk_min_score t of None \<Rightarrow> False | Some m \<Rightarrow> f32_lt score m) then (t, False)
      else
        let candidate = \<lparr>c_row = row, c_score = score\<rparr> in
        if length (tk_heap t) < tk_k t then (t\<lparr>tk_heap := bh_push worst_key candidate (tk_heap t)\<rparr>, True)
        else case bh_peek (tk_heap t) of
          Some worst \<Rightarrow>
            if worst_key candidate < worst_key worst
            then (t\<lparr>tk_heap := bh_push worst_key candidate (bh_pop (tk_heap t))\<rparr>, True)
            else (t, False)
        | None \<Rightarrow> (t, False))"

definition topk_into_sorted :: "top_k \<Rightarrow> candidate list" where
  "topk_into_sorted t = sort_key worst_key (tk_heap t)"

subsection \<open>The order is total and decides equality\<close>

lemma f32_key_neg: "f32_key w < 0 \<longleftrightarrow> bit w 31"
proof (cases "bit w 31")
  case True
  have "0 \<le> uint (w AND 0x7FFFFFFF)" by simp
  then have "- uint (w AND 0x7FFFFFFF) - 1 < 0" by linarith
  with True show ?thesis unfolding f32_key_def by simp
qed (simp add: f32_key_def not_less)

lemma f32_key_inject: "f32_key x = f32_key y \<Longrightarrow> x = y"
proof -
  assume e: "f32_key x = f32_key y"
  have low: "w = (if bit w 31 then (w AND 0x7FFFFFFF) OR 0x80000000 else w)" for w :: u32
  proof (cases "bit w 31")
    case True
    have "(w AND mask 31) OR push_bit 31 1 = w"
      using True by (intro bit_word_eqI) (auto simp: bit_simps less_Suc_eq numeral_eq_Suc)
    moreover have "(mask 31 :: u32) = 0x7FFFFFFF" "push_bit 31 (1 :: u32) = 0x80000000"
      by (simp_all add: mask_eq_exp_minus_1)
    ultimately show ?thesis using True by simp
  qed simp
  show "x = y"
  proof (cases "bit x 31 = bit y 31")
    case True
    with e have "(if bit x 31 then x AND 0x7FFFFFFF = y AND 0x7FFFFFFF else x = y)"
      by (auto simp: f32_key_def word_uint_eq_iff)
    with True low [of x] low [of y] show ?thesis by (metis (full_types))
  next
    case False
    with e f32_key_neg [of x] f32_key_neg [of y] show ?thesis by simp
  qed
qed

lemma worst_key_inj: "inj worst_key"
  by (rule injI) (auto simp: worst_key_def dest!: f32_key_inject)

lemma sort_key_mset: "mset xs = mset ys \<Longrightarrow> sort_key worst_key xs = sort_key worst_key ys"
  by (rule sort_key_inj_key_eq) (auto intro: inj_on_subset [OF worst_key_inj])

subsection \<open>What a collector keeps\<close>

definition accepts :: "u32 option \<Rightarrow> candidate \<Rightarrow> bool" where
  "accepts m c \<longleftrightarrow> (case m of None \<Rightarrow> True | Some s \<Rightarrow> \<not> f32_lt (c_score c) s)"

definition best :: "nat \<Rightarrow> candidate list \<Rightarrow> candidate list" where
  "best k cs = take k (sort_key worst_key cs)"

definition offer_all :: "candidate list \<Rightarrow> top_k \<Rightarrow> top_k" where
  "offer_all = fold (\<lambda>c t. fst (topk_offer (c_row c) (c_score c) t))"

definition holds_best :: "top_k \<Rightarrow> candidate list \<Rightarrow> bool" where
  "holds_best t cs \<longleftrightarrow> sorted_wrt (\<ge>) (map worst_key (tk_heap t))
     \<and> mset (tk_heap t) = mset (best (tk_k t) (filter (accepts (tk_min_score t)) cs))"

lemma offer_fields [simp]:
  "tk_k (fst (topk_offer r s t)) = tk_k t" "tk_min_score (fst (topk_offer r s t)) = tk_min_score t"
  "tk_considered (fst (topk_offer r s t)) = tk_considered t + 1"
  by (auto simp: topk_offer_def Let_def split: option.splits)

lemma holds_best_offer:
  assumes "holds_best t cs"
  shows "holds_best (fst (topk_offer (c_row c) (c_score c) t)) (c # cs)"
proof (cases "tk_k t = 0 \<or> \<not> accepts (tk_min_score t) c")
  case True
  then have "tk_heap (fst (topk_offer (c_row c) (c_score c) t)) = tk_heap t"
    by (auto simp: topk_offer_def Let_def accepts_def split: option.splits)
  with True assms show ?thesis by (auto simp: holds_best_def best_def)
next
  case False
  then have k: "0 < tk_k t" and acc: "accepts (tk_min_score t) c" by auto
  let ?h = "tk_heap t" and ?h' = "tk_heap (fst (topk_offer (c_row c) (c_score c) t))"
  let ?xs = "filter (accepts (tk_min_score t)) cs"
  have c: "\<lparr>c_row = c_row c, c_score = c_score c\<rparr> = c" by simp
  have h': "?h' = (if size (mset ?h) < tk_k t then bh_push worst_key c ?h
       else case bh_peek ?h of Some w \<Rightarrow> if worst_key c < worst_key w then bh_push worst_key c (bh_pop ?h) else ?h | None \<Rightarrow> ?h)"
    using k acc by (auto simp: topk_offer_def Let_def accepts_def c split: option.splits)
  from bh.offer_step [OF _ _ k worst_key_inj h', of ?xs] assms
  show ?thesis using acc by (simp add: holds_best_def best_def del: size_mset)
qed

lemma holds_best_offer_all:
  "holds_best t cs \<Longrightarrow> holds_best (offer_all ds t) (rev ds @ cs)"
proof (induction ds arbitrary: t cs)
  case Nil
  then show ?case by (simp add: offer_all_def)
next
  case (Cons d ds)
  from Cons.IH [OF holds_best_offer [OF Cons.prems, of d]] show ?case by (simp add: offer_all_def)
qed

lemma offer_all_fields [simp]:
  "tk_k (offer_all ds t) = tk_k t" "tk_min_score (offer_all ds t) = tk_min_score t"
  "tk_considered (offer_all ds t) = tk_considered t + of_nat (length ds)"
  by (induction ds arbitrary: t) (simp_all add: offer_all_def)

lemma holds_best_new: "holds_best (with_min_score m (topk_new k)) []"
  by (simp add: holds_best_def best_def with_min_score_def topk_new_def)

lemma best_mset: "mset xs = mset ys \<Longrightarrow> best k xs = best k ys"
  unfolding best_def by (drule sort_key_mset) simp

lemma holds_best_run:
  "holds_best (offer_all cs (with_min_score m (topk_new k))) (rev cs)"
  using holds_best_offer_all [OF holds_best_new, of cs m k] by simp

lemma sort_key_best: "mset h = mset (best k xs) \<Longrightarrow> sort_key worst_key h = best k xs"
  unfolding best_def
  by (rule sort_key_inj_key_eq)
    (auto intro: inj_on_subset [OF worst_key_inj] simp: sorted_wrt_take take_map [symmetric] sorted_sort_key)

lemma topk_run:
  "let t = offer_all cs (with_min_score m (topk_new k)) in
   topk_into_sorted t = take k (sort_key worst_key (filter (accepts m) cs))
   \<and> tk_considered t = of_nat (length cs)"
proof -
  let ?t = "offer_all cs (with_min_score m (topk_new k))"
  have f: "tk_k ?t = k" "tk_min_score ?t = m" by (simp_all add: with_min_score_def topk_new_def)
  have "mset (tk_heap ?t) = mset (best k (filter (accepts m) (rev cs)))"
    using holds_best_run [of cs m k] f by (simp add: holds_best_def)
  also have "best k (filter (accepts m) (rev cs)) = best k (filter (accepts m) cs)"
    by (rule best_mset) (simp add: rev_filter [symmetric])
  finally have "topk_into_sorted ?t = best k (filter (accepts m) cs)"
    unfolding topk_into_sorted_def by (rule sort_key_best)
  then show ?thesis by (simp add: best_def with_min_score_def topk_new_def)
qed

subsection \<open>Properties\<close>

text \<open>
  Property C11.  Top-k selection is exact and deterministic: offering any sequence of
  candidates to a collector of capacity \<open>k\<close> with an optional score floor returns the first \<open>k\<close>
  of the accepted candidates in the order of descending score, ties by ascending row;
  every candidate is counted, and so is the result the same for every order of offering.
\<close>

theorem topk_exact:
  "let t = offer_all cs (with_min_score m (topk_new k)) in
   topk_into_sorted t = take k (sort_key worst_key (filter (accepts m) cs))
   \<and> tk_considered t = of_nat (length cs)"
  by (rule topk_run)

end
