(* ===== verification/Kernels.thy ===== *)
theory Kernels
  imports Prelude
begin

text \<open>
  The vector kernels of the accelerated scan (\<open>index-flat/src/kernels/x86.rs\<close>, \<open>neon.rs\<close>, \<open>wasm.rs\<close>):
  inner product and squared distance on registers of eight or four lanes, with the order of the
  additions as the instructions have it.  They are stated over any number type, given its
  operations, so that the arithmetic of the machine is one instance and exact arithmetic another.
  Shown: in exact arithmetic each of them computes the sum over all pairs of elements, whatever the
  lengths, so no lane, block or tail element is dropped or counted twice.
\<close>

subsection \<open>Registers\<close>

record 'f float_ops =
  fl_zero :: 'f
  fl_add :: "'f \<Rightarrow> 'f \<Rightarrow> 'f"
  fl_sub :: "'f \<Rightarrow> 'f \<Rightarrow> 'f"
  fl_mul :: "'f \<Rightarrow> 'f \<Rightarrow> 'f"
  fl_fma :: "'f \<Rightarrow> 'f \<Rightarrow> 'f \<Rightarrow> 'f"

text \<open>A register is the list of its lanes; a load at \<open>i\<close> takes \<open>w\<close> elements of a slice.\<close>

definition load_lanes :: "nat \<Rightarrow> 'f list \<Rightarrow> nat \<Rightarrow> 'f list" where
  "load_lanes w xs i = take w (drop i xs)"

definition add_lanes :: "'f float_ops \<Rightarrow> 'f list \<Rightarrow> 'f list \<Rightarrow> 'f list" where
  "add_lanes N x y = map2 (fl_add N) x y"

definition sub_lanes :: "'f float_ops \<Rightarrow> 'f list \<Rightarrow> 'f list \<Rightarrow> 'f list" where
  "sub_lanes N x y = map2 (fl_sub N) x y"

definition mul_lanes :: "'f float_ops \<Rightarrow> 'f list \<Rightarrow> 'f list \<Rightarrow> 'f list" where
  "mul_lanes N x y = map2 (fl_mul N) x y"

text \<open>\<open>acc + x * y\<close> with one rounding.\<close>

definition fma_lanes :: "'f float_ops \<Rightarrow> 'f list \<Rightarrow> 'f list \<Rightarrow> 'f list \<Rightarrow> 'f list" where
  "fma_lanes N acc x y = map2 (\<lambda>c (u, v). fl_fma N u v c) acc (zip x y)"

subsection \<open>The loops\<close>

text \<open>
  The main loop with two accumulators, for a step that folds \<open>w\<close> lanes at an index into one: two steps
  while \<open>2 * w\<close> elements are left, then one if \<open>w\<close> are.  The loop returns where it stopped.
\<close>

function paired_loop :: "(nat \<Rightarrow> 'r \<Rightarrow> 'r) \<Rightarrow> nat \<Rightarrow> nat \<Rightarrow> nat \<Rightarrow> 'r \<Rightarrow> 'r \<Rightarrow> nat \<times> 'r \<times> 'r" where
  "paired_loop step w n i acc0 acc1 =
     (if 0 < w \<and> i + 2 * w \<le> n then paired_loop step w n (i + 2 * w) (step i acc0) (step (i + w) acc1)
      else if 0 < w \<and> i + w \<le> n then (i + w, step i acc0, acc1)
      else (i, acc0, acc1))"
  by pat_completeness auto
termination
  by (relation "measure (\<lambda>(step, w, n, i, acc0, acc1). n - i)") auto

function single_loop :: "(nat \<Rightarrow> 'r \<Rightarrow> 'r) \<Rightarrow> nat \<Rightarrow> nat \<Rightarrow> nat \<Rightarrow> 'r \<Rightarrow> nat \<times> 'r" where
  "single_loop step w n i acc =
     (if 0 < w \<and> i + w \<le> n then single_loop step w n (i + w) (step i acc) else (i, acc))"
  by pat_completeness auto
termination
  by (relation "measure (\<lambda>(step, w, n, i, acc). n - i)") auto

declare paired_loop.simps [simp del] single_loop.simps [simp del]

text \<open>The elements that fill no register.\<close>

definition dot_tail :: "'f float_ops \<Rightarrow> 'f list \<Rightarrow> 'f list \<Rightarrow> nat \<Rightarrow> nat \<Rightarrow> 'f \<Rightarrow> 'f" where
  "dot_tail N a b n i acc = fold (\<lambda>j sum. fl_add N sum (fl_mul N (a ! j) (b ! j))) [i..<n] acc"

definition l2_tail :: "'f float_ops \<Rightarrow> 'f list \<Rightarrow> 'f list \<Rightarrow> nat \<Rightarrow> nat \<Rightarrow> 'f \<Rightarrow> 'f" where
  "l2_tail N a b n i acc =
     fold (\<lambda>j sum. let d = fl_sub N (a ! j) (b ! j) in fl_add N sum (fl_mul N d d)) [i..<n] acc"

subsection \<open>AVX2\<close>

text \<open>
  The upper four lanes onto the lower, then the upper two of those onto the lower two
  (\<open>movehl\<close>), then lane 1 onto lane 0 (\<open>shuffle 0b01\<close>); the other lanes of the register are
  not read.
\<close>

definition horizontal_avx2 :: "'f float_ops \<Rightarrow> 'f list \<Rightarrow> 'f" where
  "horizontal_avx2 N v =
     (let sum = add_lanes N (take 4 v) (drop 4 v);
          sum = add_lanes N sum (drop 2 sum @ drop 2 sum);
          sum = add_lanes N sum [sum ! 1, sum ! 0, sum ! 0, sum ! 0] in
      sum ! 0)"

definition dot_avx2 :: "'f float_ops \<Rightarrow> 'f list \<Rightarrow> 'f list \<Rightarrow> 'f" where
  "dot_avx2 N a b =
     (let n = min (length a) (length b); zero = replicate 8 (fl_zero N);
          step = (\<lambda>i acc. fma_lanes N acc (load_lanes 8 a i) (load_lanes 8 b i)) in
      case paired_loop step 8 n 0 zero zero of
        (i, acc0, acc1) \<Rightarrow> dot_tail N a b n i (horizontal_avx2 N (add_lanes N acc0 acc1)))"

definition l2_squared_avx2 :: "'f float_ops \<Rightarrow> 'f list \<Rightarrow> 'f list \<Rightarrow> 'f" where
  "l2_squared_avx2 N a b =
     (let n = min (length a) (length b); zero = replicate 8 (fl_zero N);
          step = (\<lambda>i acc. let d = sub_lanes N (load_lanes 8 a i) (load_lanes 8 b i) in fma_lanes N acc d d) in
      case paired_loop step 8 n 0 zero zero of
        (i, acc0, acc1) \<Rightarrow> l2_tail N a b n i (horizontal_avx2 N (add_lanes N acc0 acc1)))"

subsection \<open>NEON\<close>

text \<open>\<open>vaddvq_f32\<close> adds pairwise.\<close>

definition horizontal_neon :: "'f float_ops \<Rightarrow> 'f list \<Rightarrow> 'f" where
  "horizontal_neon N v = fl_add N (fl_add N (v ! 0) (v ! 1)) (fl_add N (v ! 2) (v ! 3))"

definition dot_neon :: "'f float_ops \<Rightarrow> 'f list \<Rightarrow> 'f list \<Rightarrow> 'f" where
  "dot_neon N a b =
     (let n = min (length a) (length b); zero = replicate 4 (fl_zero N);
          step = (\<lambda>i acc. fma_lanes N acc (load_lanes 4 a i) (load_lanes 4 b i)) in
      case paired_loop step 4 n 0 zero zero of
        (i, acc0, acc1) \<Rightarrow> dot_tail N a b n i (horizontal_neon N (add_lanes N acc0 acc1)))"

definition l2_squared_neon :: "'f float_ops \<Rightarrow> 'f list \<Rightarrow> 'f list \<Rightarrow> 'f" where
  "l2_squared_neon N a b =
     (let n = min (length a) (length b); zero = replicate 4 (fl_zero N);
          step = (\<lambda>i acc. let d = sub_lanes N (load_lanes 4 a i) (load_lanes 4 b i) in fma_lanes N acc d d) in
      case paired_loop step 4 n 0 zero zero of
        (i, acc0, acc1) \<Rightarrow> l2_tail N a b n i (horizontal_neon N (add_lanes N acc0 acc1)))"

subsection \<open>WebAssembly\<close>

definition horizontal_simd128 :: "'f float_ops \<Rightarrow> 'f list \<Rightarrow> 'f" where
  "horizontal_simd128 N v = fl_add N (fl_add N (fl_add N (v ! 0) (v ! 1)) (v ! 2)) (v ! 3)"

definition dot_simd128 :: "'f float_ops \<Rightarrow> 'f list \<Rightarrow> 'f list \<Rightarrow> 'f" where
  "dot_simd128 N a b =
     (let n = min (length a) (length b);
          step = (\<lambda>i acc. add_lanes N acc (mul_lanes N (load_lanes 4 a i) (load_lanes 4 b i))) in
      case single_loop step 4 n 0 (replicate 4 (fl_zero N)) of
        (i, acc) \<Rightarrow> dot_tail N a b n i (horizontal_simd128 N acc))"

definition l2_squared_simd128 :: "'f float_ops \<Rightarrow> 'f list \<Rightarrow> 'f list \<Rightarrow> 'f" where
  "l2_squared_simd128 N a b =
     (let n = min (length a) (length b);
          step = (\<lambda>i acc. let d = sub_lanes N (load_lanes 4 a i) (load_lanes 4 b i) in add_lanes N acc (mul_lanes N d d)) in
      case single_loop step 4 n 0 (replicate 4 (fl_zero N)) of
        (i, acc) \<Rightarrow> l2_tail N a b n i (horizontal_simd128 N acc))"

subsection \<open>Exact arithmetic\<close>

definition exact_ops :: "'f::comm_ring_1 float_ops" where
  "exact_ops = \<lparr>fl_zero = 0, fl_add = (+), fl_sub = (-), fl_mul = (*), fl_fma = (\<lambda>x y c. x * y + c)\<rparr>"

lemma exact_ops_simps [simp]:
  "fl_zero exact_ops = 0" "fl_add exact_ops = (+)" "fl_sub exact_ops = (-)" "fl_mul exact_ops = (*)"
  "fl_fma exact_ops x y c = x * y + c"
  by (simp_all add: exact_ops_def)

text \<open>A step adds the terms of its lanes to its accumulator.\<close>

definition adds_lanes :: "nat \<Rightarrow> nat \<Rightarrow> (nat \<Rightarrow> 'f::comm_ring_1) \<Rightarrow> (nat \<Rightarrow> 'f list \<Rightarrow> 'f list) \<Rightarrow> bool" where
  "adds_lanes w n f step \<longleftrightarrow> (\<forall>i acc. i + w \<le> n \<longrightarrow> length acc = w \<longrightarrow>
     length (step i acc) = w \<and> sum_list (step i acc) = sum_list acc + sum f {i..<i + w})"

lemma sum_join: "sum f {i..<i + w} + sum f {i + w..<i + w + v} = sum f {i..<i + w + v}"
  for f :: "nat \<Rightarrow> 'f::comm_ring_1"
  by (rule sum.atLeastLessThan_concat) simp_all

lemma paired_loop_sum:
  assumes "adds_lanes w n f step" and "length acc0 = w" and "length acc1 = w" and "i \<le> n"
    and "paired_loop step w n i acc0 acc1 = (j, r0, r1)"
  shows "length r0 = w \<and> length r1 = w \<and> i \<le> j \<and> j \<le> n \<and> sum_list r0 + sum_list r1 = sum_list acc0 + sum_list acc1 + sum f {i..<j}"
  using assms
proof (induction step w n i acc0 acc1 rule: paired_loop.induct)
  case (1 step w n i acc0 acc1)
  note eq = "1.prems"(5) [unfolded paired_loop.simps [of step w n i]]
  consider "0 < w \<and> i + 2 * w \<le> n" | "\<not> (0 < w \<and> i + 2 * w \<le> n)" "0 < w \<and> i + w \<le> n" | "\<not> (0 < w \<and> i + w \<le> n)" "\<not> (0 < w \<and> i + 2 * w \<le> n)"
    by blast
  then show ?case
  proof cases
    case 1
    let ?a = "step i acc0" and ?b = "step (i + w) acc1"
    have l: "length ?a = w" "length ?b = w"
      and s: "sum_list ?a = sum_list acc0 + sum f {i..<i + w}" "sum_list ?b = sum_list acc1 + sum f {i + w..<i + w + w}"
      using "1.prems"(1-3) 1 by (auto simp: adds_lanes_def)
    have "paired_loop step w n (i + 2 * w) ?a ?b = (j, r0, r1)" using eq 1 by simp
    with "1.IH" [OF 1 "1.prems"(1) l] 1
    have r: "length r0 = w" "length r1 = w" "i + 2 * w \<le> j" "j \<le> n"
      "sum_list r0 + sum_list r1 = sum_list ?a + sum_list ?b + sum f {i + 2 * w..<j}" by simp_all
    have "sum f {i..<i + w} + sum f {i + w..<i + w + w} + sum f {i + 2 * w..<j} = sum f {i..<j}"
      unfolding sum_join using r(3) sum.atLeastLessThan_concat [of i "i + 2 * w" j f] by (simp add: mult_2 add.assoc)
    with r s show ?thesis by (simp add: algebra_simps)
  next
    case 2
    with eq "1.prems"(1-3) show ?thesis by (auto simp: adds_lanes_def algebra_simps)
  next
    case 3
    with eq "1.prems"(2-4) show ?thesis by auto
  qed
qed

lemma single_loop_sum:
  assumes "adds_lanes w n f step" and "length acc = w" and "i \<le> n" and "single_loop step w n i acc = (j, r)"
  shows "length r = w \<and> i \<le> j \<and> j \<le> n \<and> sum_list r = sum_list acc + sum f {i..<j}"
  using assms
proof (induction step w n i acc rule: single_loop.induct)
  case (1 step w n i acc)
  note eq = "1.prems"(4) [unfolded single_loop.simps [of step w n i]]
  show ?case
  proof (cases "0 < w \<and> i + w \<le> n")
    case True
    let ?a = "step i acc"
    have l: "length ?a = w" and s: "sum_list ?a = sum_list acc + sum f {i..<i + w}"
      using "1.prems"(1,2) True by (auto simp: adds_lanes_def)
    from "1.IH" [OF True "1.prems"(1) l] True eq
    have r: "length r = w" "i + w \<le> j" "j \<le> n" "sum_list r = sum_list ?a + sum f {i + w..<j}" by simp_all
    have "sum f {i..<i + w} + sum f {i + w..<j} = sum f {i..<j}" using r(2) by (simp add: sum.atLeastLessThan_concat)
    with r s show ?thesis by (simp add: algebra_simps)
  qed (use eq "1.prems"(2,3) in auto)
qed

text \<open>The steps of the kernels.\<close>

lemma load_lanes_Suc: "i < length xs \<Longrightarrow> load_lanes (Suc w) xs i = xs ! i # load_lanes w xs (Suc i)"
  by (simp add: load_lanes_def Cons_nth_drop_Suc [symmetric])

lemma load_lanes_0: "load_lanes 0 xs i = []"
  by (simp add: load_lanes_def)

lemma length_load_lanes: "i + w \<le> length xs \<Longrightarrow> length (load_lanes w xs i) = w"
  by (simp add: load_lanes_def)

lemma lanes_sum:
  fixes x :: "'f::comm_ring_1 list"
  assumes "length acc = length x" and "length y = length x"
  shows "length (fma_lanes exact_ops acc x y) = length x \<and> length (add_lanes exact_ops acc (mul_lanes exact_ops x y)) = length x"
    and "sum_list (fma_lanes exact_ops acc x y) = sum_list acc + sum_list (map (\<lambda>(u, v). u * v) (zip x y))"
    and "sum_list (add_lanes exact_ops acc (mul_lanes exact_ops x y)) = sum_list acc + sum_list (map (\<lambda>(u, v). u * v) (zip x y))"
  using assms(1) assms(2) [symmetric]
  by (induction acc x y rule: list_induct3) (auto simp: fma_lanes_def add_lanes_def mul_lanes_def algebra_simps)

lemma sub_lanes_sum:
  fixes x :: "'f::comm_ring_1 list"
  assumes "length y = length x"
  shows "length (sub_lanes exact_ops x y) = length x"
    and "sum_list (map (\<lambda>(u, v). u * v) (zip (sub_lanes exact_ops x y) (sub_lanes exact_ops x y)))
       = sum_list (map (\<lambda>(u, v). (u - v) * (u - v)) (zip x y))"
  using assms by (induction x y rule: list_induct2') (auto simp: sub_lanes_def)

lemma sum_list_lanes:
  fixes h :: "'g \<Rightarrow> 'g \<Rightarrow> 'f::comm_ring_1"
  assumes "i + w \<le> length a" and "i + w \<le> length b"
  shows "sum_list (map (\<lambda>(u, v). h u v) (zip (load_lanes w a i) (load_lanes w b i))) = sum (\<lambda>j. h (a ! j) (b ! j)) {i..<i + w}"
  using assms
proof (induction w arbitrary: i)
  case 0
  then show ?case by (simp add: load_lanes_0)
next
  case (Suc w)
  from Suc.IH [of "Suc i"] Suc.prems show ?case
    by (simp add: load_lanes_Suc sum.atLeast_Suc_lessThan)
qed

lemma kernel_steps:
  fixes a b :: "'f::comm_ring_1 list"
  assumes "n = min (length a) (length b)"
  shows "adds_lanes w n (\<lambda>j. a ! j * b ! j) (\<lambda>i acc. fma_lanes exact_ops acc (load_lanes w a i) (load_lanes w b i))"
    and "adds_lanes w n (\<lambda>j. a ! j * b ! j) (\<lambda>i acc. add_lanes exact_ops acc (mul_lanes exact_ops (load_lanes w a i) (load_lanes w b i)))"
    and "adds_lanes w n (\<lambda>j. (a ! j - b ! j) * (a ! j - b ! j)) (\<lambda>i acc.
       let d = sub_lanes exact_ops (load_lanes w a i) (load_lanes w b i) in fma_lanes exact_ops acc d d)"
    and "adds_lanes w n (\<lambda>j. (a ! j - b ! j) * (a ! j - b ! j)) (\<lambda>i acc.
       let d = sub_lanes exact_ops (load_lanes w a i) (load_lanes w b i) in add_lanes exact_ops acc (mul_lanes exact_ops d d))"
  using assms
  by (auto simp: adds_lanes_def Let_def length_load_lanes lanes_sum sub_lanes_sum sum_list_lanes [where h = "(*)"]
      sum_list_lanes [where h = "\<lambda>u v. (u - v) * (u - v)"])

lemma tails:
  fixes a b :: "'f::comm_ring_1 list"
  assumes "i \<le> n"
  shows "dot_tail exact_ops a b n i acc = acc + sum (\<lambda>j. a ! j * b ! j) {i..<n}"
    and "l2_tail exact_ops a b n i acc = acc + sum (\<lambda>j. (a ! j - b ! j) * (a ! j - b ! j)) {i..<n}"
proof -
  have "fold (\<lambda>j acc. acc + f j) [i..<n] acc = acc + sum f {i..<n}" for f :: "nat \<Rightarrow> 'f"
    using assms by (induction n) (auto simp: le_Suc_eq algebra_simps)
  then show "dot_tail exact_ops a b n i acc = acc + sum (\<lambda>j. a ! j * b ! j) {i..<n}"
    "l2_tail exact_ops a b n i acc = acc + sum (\<lambda>j. (a ! j - b ! j) * (a ! j - b ! j)) {i..<n}"
    by (simp_all add: dot_tail_def l2_tail_def Let_def)
qed

lemma four_lanes:
  assumes "length v = 4"
  obtains p q r s where "v = [p, q, r, s]"
  using assms by (auto simp: length_Suc_conv numeral_eq_Suc)

lemma horizontal_sums:
  fixes v :: "'f::comm_ring_1 list"
  shows "length v = 4 \<Longrightarrow> horizontal_neon exact_ops v = sum_list v" and "length v = 4 \<Longrightarrow> horizontal_simd128 exact_ops v = sum_list v"
    and "length v = 8 \<Longrightarrow> horizontal_avx2 exact_ops v = sum_list v"
proof -
  show "length v = 4 \<Longrightarrow> horizontal_neon exact_ops v = sum_list v" "length v = 4 \<Longrightarrow> horizontal_simd128 exact_ops v = sum_list v"
    by (elim four_lanes, simp add: horizontal_neon_def horizontal_simd128_def algebra_simps)+
  assume v: "length v = 8"
  then have half: "length (take 4 v) = 4" "length (drop 4 v) = 4" by simp_all
  obtain p q r s where lo: "take 4 v = [p, q, r, s]" by (rule four_lanes [OF half(1)])
  obtain p' q' r' s' where hi: "drop 4 v = [p', q', r', s']" by (rule four_lanes [OF half(2)])
  have "sum_list v = sum_list (take 4 v) + sum_list (drop 4 v)" unfolding sum_list_append [symmetric] by simp
  then show "horizontal_avx2 exact_ops v = sum_list v"
    by (simp add: horizontal_avx2_def add_lanes_def lo hi algebra_simps)
qed

lemma add_lanes_sum:
  fixes x :: "'f::comm_ring_1 list"
  assumes "length x = w" and "length y = w"
  shows "length (add_lanes exact_ops x y) = w" and "sum_list (add_lanes exact_ops x y) = sum_list x + sum_list y"
proof -
  have "length x = length y" using assms by simp
  then have "sum_list (map2 (+) x y) = sum_list x + sum_list y" by (induction x y rule: list_induct2) (simp_all add: algebra_simps)
  then show "length (add_lanes exact_ops x y) = w" "sum_list (add_lanes exact_ops x y) = sum_list x + sum_list y"
    using assms by (simp_all add: add_lanes_def)
qed

text \<open>The reference: the sum over all pairs.\<close>

lemma sum_pairs:
  fixes h :: "'g \<Rightarrow> 'g \<Rightarrow> 'f::comm_ring_1"
  shows "sum_list (map (\<lambda>(x, y). h x y) (zip a b)) = sum (\<lambda>j. h (a ! j) (b ! j)) {0..<min (length a) (length b)}"
proof (induction a b rule: list_induct2')
  case (4 x a y b)
  have "sum (\<lambda>j. h ((x # a) ! j) ((y # b) ! j)) {0..<Suc (min (length a) (length b))}
      = h x y + sum (\<lambda>j. h (a ! j) (b ! j)) {0..<min (length a) (length b)}"
    by (simp only: sum.atLeast0_lessThan_Suc_shift nth_Cons_0 nth_Cons_Suc comp_def)
  with 4 show ?case by simp
qed simp_all

text \<open>The whole of a kernel: its loop, the sum of its lanes and its tail.\<close>

lemma paired_kernel:
  fixes f :: "nat \<Rightarrow> 'f::comm_ring_1"
  assumes "adds_lanes w n f step" and "\<And>v. length v = w \<Longrightarrow> horizontal v = sum_list v"
    and "\<And>i acc. i \<le> n \<Longrightarrow> tail i acc = acc + sum f {i..<n}"
  shows "(case paired_loop step w n 0 (replicate w 0) (replicate w 0) of (i, acc0, acc1) \<Rightarrow> tail i (horizontal (add_lanes exact_ops acc0 acc1)))
     = sum f {0..<n}"
proof -
  obtain i r0 r1 where l: "paired_loop step w n 0 (replicate w 0) (replicate w 0) = (i, r0, r1)" by (metis prod_cases3)
  from paired_loop_sum [OF assms(1) _ _ _ l] have r: "length r0 = w" "length r1 = w" "i \<le> n" "sum_list r0 + sum_list r1 = sum f {0..<i}"
    by (simp_all add: sum_list_replicate)
  have "sum f {0..<i} + sum f {i..<n} = sum f {0..<n}" using r(3) by (simp add: sum.atLeastLessThan_concat)
  with r assms(2,3) show ?thesis by (simp add: l add_lanes_sum)
qed

lemma single_kernel:
  fixes f :: "nat \<Rightarrow> 'f::comm_ring_1"
  assumes "adds_lanes w n f step" and "\<And>v. length v = w \<Longrightarrow> horizontal v = sum_list v"
    and "\<And>i acc. i \<le> n \<Longrightarrow> tail i acc = acc + sum f {i..<n}"
  shows "(case single_loop step w n 0 (replicate w 0) of (i, acc) \<Rightarrow> tail i (horizontal acc)) = sum f {0..<n}"
proof -
  obtain i r where l: "single_loop step w n 0 (replicate w 0) = (i, r)" by fastforce
  from single_loop_sum [OF assms(1) _ _ l] have r: "length r = w" "i \<le> n" "sum_list r = sum f {0..<i}"
    by (simp_all add: sum_list_replicate)
  have "sum f {0..<i} + sum f {i..<n} = sum f {0..<n}" using r(2) by (simp add: sum.atLeastLessThan_concat)
  with r assms(2,3) show ?thesis by (simp add: l)
qed

subsection \<open>Properties\<close>

text \<open>
  Property C29.  The vector kernels compute what the reference computes, in exact arithmetic: over every
  commutative ring and for slices of any two lengths, each of the six kernels is the sum of the products, or
  of the squared differences, of all the pairs of elements up to the shorter length.  Between them and the
  reference the machine's arithmetic differs by the order of the additions and the fused roundings only.
\<close>

theorem kernels_exact:
  fixes a b :: "'f::comm_ring_1 list"
  shows "dot_avx2 exact_ops a b = sum_list (map (\<lambda>(x, y). x * y) (zip a b))
     \<and> dot_neon exact_ops a b = sum_list (map (\<lambda>(x, y). x * y) (zip a b))
     \<and> dot_simd128 exact_ops a b = sum_list (map (\<lambda>(x, y). x * y) (zip a b))
     \<and> l2_squared_avx2 exact_ops a b = sum_list (map (\<lambda>(x, y). (x - y) * (x - y)) (zip a b))
     \<and> l2_squared_neon exact_ops a b = sum_list (map (\<lambda>(x, y). (x - y) * (x - y)) (zip a b))
     \<and> l2_squared_simd128 exact_ops a b = sum_list (map (\<lambda>(x, y). (x - y) * (x - y)) (zip a b))"
proof -
  let ?n = "min (length a) (length b)"
  note st = kernel_steps [of ?n a b] and p = sum_pairs [where h = "(*)" and a = a and b = b]
    and q = sum_pairs [where h = "\<lambda>x y. (x - y) * (x - y)" and a = a and b = b]
  show ?thesis unfolding p q dot_avx2_def dot_neon_def dot_simd128_def l2_squared_avx2_def l2_squared_neon_def l2_squared_simd128_def
      Let_def exact_ops_simps
    by (intro conjI paired_kernel single_kernel st [unfolded Let_def] refl horizontal_sums tails)
qed

end
