(* ===== verification/Search_Index.thy ===== *)
theory Search_Index
  imports Topk Storage Kernels
begin

text \<open>
  Scoring and the index interface (\<open>core/src/search/metric.rs\<close>, \<open>core/src/index/mod.rs\<close>,
  \<open>core/src/api/search.rs\<close>, \<open>index-flat/src/lib.rs\<close>): kernels, scorers, budgets, the
  sources and predicates an index is given, the exact scan, and the accelerated scan with the
  kernels of \<open>Kernels\<close>.  Shown: both scans return the first \<open>k\<close> rows under their own scores.
\<close>

subsection \<open>Kernels\<close>

text \<open>The floating-point operations beside those of \<open>fpu\<close>.\<close>

record fops =
  fo_fpu :: fpu
  fo_add :: "u32 \<Rightarrow> u32 \<Rightarrow> u32"
  fo_sub :: "u32 \<Rightarrow> u32 \<Rightarrow> u32"
  fo_neg :: "u32 \<Rightarrow> u32"
  fo_max :: "u32 \<Rightarrow> u32 \<Rightarrow> u32"
  fo_fma :: "u32 \<Rightarrow> u32 \<Rightarrow> u32 \<Rightarrow> u32"

definition fmul :: "fops \<Rightarrow> u32 \<Rightarrow> u32 \<Rightarrow> u32" where
  "fmul A = f_mul (fo_fpu A)"

definition dot_bytes :: "fops \<Rightarrow> u32 list \<Rightarrow> bytes \<Rightarrow> u32" where
  "dot_bytes A query row = foldl (\<lambda>sum (q, x). fo_add A sum (fmul A q x)) 0 (zip query (f32s_of row))"

definition l2_squared_bytes :: "fops \<Rightarrow> u32 list \<Rightarrow> bytes \<Rightarrow> u32" where
  "l2_squared_bytes A query row =
     foldl (\<lambda>sum (q, x). let d = fo_sub A q x in fo_add A sum (fmul A d d)) 0 (zip query (f32s_of row))"

definition dot :: "fops \<Rightarrow> u32 list \<Rightarrow> u32 list \<Rightarrow> u32" where
  "dot A a b = f_sum (fo_fpu A) (map (\<lambda>(x, y). fmul A x y) (zip a b))"

definition l2_squared :: "fops \<Rightarrow> u32 list \<Rightarrow> u32 list \<Rightarrow> u32" where
  "l2_squared A a b = f_sum (fo_fpu A) (map (\<lambda>(x, y). fmul A (fo_sub A x y) (fo_sub A x y)) (zip a b))"

record scorer =
  sco_metric :: metric
  sco_query :: "u32 list"
  sco_query_inv_norm :: u32

definition inv_norm :: "fops \<Rightarrow> u32 list \<Rightarrow> u32" where
  "inv_norm A xs =
     (let n = f_sqrt (fo_fpu A) (f_sum (fo_fpu A) (map (\<lambda>v. fmul A v v) xs)) in
      if f32_positive n \<and> f32_is_finite n then f_recip (fo_fpu A) n else 0)"

definition scorer_new :: "fops \<Rightarrow> metric \<Rightarrow> u32 list \<Rightarrow> scorer" where
  "scorer_new A metric query =
     (let norm = f_sqrt (fo_fpu A) (f_sum (fo_fpu A) (map (\<lambda>v. fmul A v v) query)) in
      \<lparr>sco_metric = metric, sco_query = query,
       sco_query_inv_norm = (if f32_positive norm \<and> f32_is_finite norm then f_recip (fo_fpu A) norm else 0)\<rparr>)"

definition score_bytes :: "fops \<Rightarrow> scorer \<Rightarrow> bytes \<Rightarrow> u32 \<Rightarrow> u32" where
  "score_bytes A s row row_inv_norm =
     (case sco_metric s of
        Cosine \<Rightarrow> fmul A (fmul A (dot_bytes A (sco_query s) row) (sco_query_inv_norm s)) row_inv_norm
      | Dot \<Rightarrow> dot_bytes A (sco_query s) row
      | L2 \<Rightarrow> fo_neg A (l2_squared_bytes A (sco_query s) row))"

definition score_floats :: "fops \<Rightarrow> scorer \<Rightarrow> u32 list \<Rightarrow> u32 \<Rightarrow> u32" where
  "score_floats A s row row_inv_norm =
     (case sco_metric s of
        Cosine \<Rightarrow> fmul A (fmul A (dot A (sco_query s) row) (sco_query_inv_norm s)) row_inv_norm
      | Dot \<Rightarrow> dot A (sco_query s) row
      | L2 \<Rightarrow> fo_neg A (l2_squared A (sco_query s) row))"

definition distance_from_score :: "fops \<Rightarrow> metric \<Rightarrow> u32 \<Rightarrow> u32 option" where
  "distance_from_score A metric score =
     (case metric of
        Cosine \<Rightarrow> Some (fo_sub A 0x3F800000 score)
      | L2 \<Rightarrow> Some (f_sqrt (fo_fpu A) (fo_max A (fo_neg A score) 0))
      | Dot \<Rightarrow> None)"

subsection \<open>The index interface\<close>

datatype index_kind = FlatKind | HnswKind

primrec kind_name :: "index_kind \<Rightarrow> string" where
  "kind_name FlatKind = ''flat''"
| "kind_name HnswKind = ''hnsw''"

record search_params =
  sp_ef_search :: "nat option"
  sp_n_probe :: "nat option"

definition params_default :: search_params where
  "params_default = \<lparr>sp_ef_search = None, sp_n_probe = None\<rparr>"

record budget =
  bd_cancelled :: bool
  bd_scanned :: u64
  bd_max_scanned :: "u64 option"

definition bd_unlimited :: budget where
  "bd_unlimited = \<lparr>bd_cancelled = False, bd_scanned = 0, bd_max_scanned = None\<rparr>"

definition bd_with_max :: "u64 \<Rightarrow> budget" where
  "bd_with_max m = \<lparr>bd_cancelled = False, bd_scanned = 0, bd_max_scanned = Some m\<rparr>"

definition bd_cancel :: "budget \<Rightarrow> budget" where
  "bd_cancel b = b\<lparr>bd_cancelled := True\<rparr>"

definition bd_charge :: "u64 \<Rightarrow> (budget, unit) io" where
  "bd_charge candidates b =
     (let total = bd_scanned b + candidates; b = b\<lparr>bd_scanned := total\<rparr> in
      if bd_cancelled b then (Inl Cancelled, b)
      else case bd_max_scanned b of
        Some m \<Rightarrow> if total > m then (Inl Cancelled, b) else (Inr (), b)
      | None \<Rightarrow> (Inr (), b))"

text \<open>
  A source lists its rows in the order \<open>for_each\<close> visits them; a visitor that fails stops the
  visit with its error, so running one is a fold.
\<close>

type_synonym visited_row = "row_id \<times> bytes \<times> u32"

record vector_source =
  vs_dimension :: u32
  vs_len :: nat
  vs_rows :: "visited_row list"
  vs_vector :: "row_id \<Rightarrow> (bytes \<times> u32) option"

definition vs_is_empty :: "vector_source \<Rightarrow> bool" where
  "vs_is_empty src \<longleftrightarrow> vs_len src = 0"

definition vs_for_each :: "vector_source \<Rightarrow> (visited_row \<Rightarrow> 'c \<Rightarrow> ('s, 'c) io) \<Rightarrow> 'c \<Rightarrow> ('s, 'c) io" where
  "vs_for_each src visit = io_fold visit (vs_rows src)"

record search_ctx =
  sc_query :: "u32 list"
  sc_top_k :: nat
  sc_metric :: metric
  sc_source :: vector_source
  sc_live :: "row_id \<Rightarrow> bool"
  sc_filter :: "(row_id \<Rightarrow> bool db_result) option"
  sc_min_score :: "u32 option"
  sc_params :: search_params

definition all_live_set :: "row_id \<Rightarrow> bool" where
  "all_live_set row \<longleftrightarrow> True"

definition ctx_admits :: "search_ctx \<Rightarrow> row_id \<Rightarrow> bool db_result" where
  "ctx_admits ctx row =
     (if \<not> sc_live ctx row then Inr False
      else case sc_filter ctx of Some f \<Rightarrow> f row | None \<Rightarrow> Inr True)"

text \<open>Where an index keeps what it built; \<open>'i\<close> is the index's own state, \<open>'s\<close> the backend's.\<close>

record 's snapshots =
  sn_load :: "('s, bytes option) io"
  sn_store :: "bytes \<Rightarrow> ('s, unit) io"

definition no_snapshots :: "'s snapshots" where
  "no_snapshots = \<lparr>sn_load = io_ok None, sn_store = (\<lambda>bs. io_ok ())\<rparr>"

record index_stats =
  is_kind :: index_kind
  is_rows :: nat
  is_memory_bytes :: nat

record ('i, 's) vector_index =
  vi_kind :: index_kind
  vi_is_exact :: bool
  vi_prepare :: "vector_source \<Rightarrow> metric \<Rightarrow> 's snapshots \<Rightarrow> ('i \<times> 's, unit) io"
  vi_search :: "search_ctx \<Rightarrow> ('i \<times> budget \<times> top_k, unit) io"
  vi_stats :: "'i \<Rightarrow> index_stats"

text \<open>The default \<open>prepare\<close>.\<close>

definition prepare_nothing :: "vector_source \<Rightarrow> metric \<Rightarrow> 's snapshots \<Rightarrow> ('i \<times> 's, unit) io" where
  "prepare_nothing src metric sn = io_ok ()"

subsection \<open>The exact scan\<close>

definition BUDGET_STRIDE :: u64 where
  "BUDGET_STRIDE = 1024"

text \<open>
  One visit and the whole scan of \<open>ExactScan::search\<close>, for the scorer it has made.  The state is the
  budget and the collector.
\<close>

definition scan_visit :: "search_ctx \<Rightarrow> (bytes \<Rightarrow> u32 \<Rightarrow> u32) \<Rightarrow> visited_row \<Rightarrow> u64 \<Rightarrow> (budget \<times> top_k, u64) io" where
  "scan_visit ctx score = (\<lambda>(row, bs, norm) since (b, t).
     case ctx_admits ctx row of
       Inl e \<Rightarrow> (Inl e, (b, t))
     | Inr False \<Rightarrow> (Inr since, (b, t))
     | Inr True \<Rightarrow>
         let t = fst (topk_offer row (score bs norm) t); since = since + 1 in
         if since \<ge> BUDGET_STRIDE
         then (case bd_charge since b of (Inl e, b) \<Rightarrow> (Inl e, (b, t)) | (Inr _, b) \<Rightarrow> (Inr 0, (b, t)))
         else (Inr since, (b, t)))"

definition scan_search :: "search_ctx \<Rightarrow> (bytes \<Rightarrow> u32 \<Rightarrow> u32) \<Rightarrow> (budget \<times> top_k, unit) io" where
  "scan_search ctx score =
     (if sc_top_k ctx = 0 then io_ok ()
      else io_bind (vs_for_each (sc_source ctx) (scan_visit ctx score) 0) (\<lambda>since (b, t).
        case bd_charge since b of (r, b) \<Rightarrow> (r, (b, t))))"

definition exact_search :: "fops \<Rightarrow> search_ctx \<Rightarrow> ('i \<times> budget \<times> top_k, unit) io" where
  "exact_search A ctx = io_snd (scan_search ctx (score_bytes A (scorer_new A (sc_metric ctx) (sc_query ctx))))"

definition exact_scan :: "fops \<Rightarrow> ('i, 's) vector_index" where
  "exact_scan A = \<lparr>vi_kind = FlatKind, vi_is_exact = True, vi_prepare = prepare_nothing,
     vi_search = exact_search A, vi_stats = (\<lambda>_. \<lparr>is_kind = FlatKind, is_rows = 0, is_memory_bytes = 0\<rparr>)\<rparr>"

subsection \<open>The accelerated scan\<close>

datatype backend = Scalar | Avx2 | Neon | Simd128

primrec backend_name :: "backend \<Rightarrow> string" where
  "backend_name Scalar = ''scalar''"
| "backend_name Avx2 = ''avx2''"
| "backend_name Neon = ''neon''"
| "backend_name Simd128 = ''simd128''"

text \<open>
  What the machine provides: the backend it detects, and whether a row's bytes lie aligned for
  \<open>f32\<close>.
\<close>

record kernels =
  kn_backend :: backend
  kn_aligned :: "bytes \<Rightarrow> bool"

definition as_f32 :: "kernels \<Rightarrow> bytes \<Rightarrow> u32 list option" where
  "as_f32 K row = (if kn_aligned K row then Some (f32s_of row) else None)"

text \<open>The operations of the machine's \<open>f32\<close>.\<close>

definition f32_ops :: "fops \<Rightarrow> u32 float_ops" where
  "f32_ops A = \<lparr>fl_zero = 0, fl_add = fo_add A, fl_sub = fo_sub A, fl_mul = fmul A, fl_fma = fo_fma A\<rparr>"

definition kernel_dot_f32 :: "fops \<Rightarrow> kernels \<Rightarrow> u32 list \<Rightarrow> u32 list \<Rightarrow> u32" where
  "kernel_dot_f32 A K a b =
     (case kn_backend K of
        Avx2 \<Rightarrow> dot_avx2 (f32_ops A) a b
      | Neon \<Rightarrow> dot_neon (f32_ops A) a b
      | Simd128 \<Rightarrow> dot_simd128 (f32_ops A) a b
      | Scalar \<Rightarrow> dot A a b)"

definition kernel_l2_f32 :: "fops \<Rightarrow> kernels \<Rightarrow> u32 list \<Rightarrow> u32 list \<Rightarrow> u32" where
  "kernel_l2_f32 A K a b =
     (case kn_backend K of
        Avx2 \<Rightarrow> l2_squared_avx2 (f32_ops A) a b
      | Neon \<Rightarrow> l2_squared_neon (f32_ops A) a b
      | Simd128 \<Rightarrow> l2_squared_simd128 (f32_ops A) a b
      | Scalar \<Rightarrow> l2_squared A a b)"

definition kernel_dot :: "fops \<Rightarrow> kernels \<Rightarrow> u32 list \<Rightarrow> bytes \<Rightarrow> u32" where
  "kernel_dot A K query row =
     (case as_f32 K row of Some values \<Rightarrow> kernel_dot_f32 A K query values | None \<Rightarrow> dot_bytes A query row)"

definition kernel_l2_squared :: "fops \<Rightarrow> kernels \<Rightarrow> u32 list \<Rightarrow> bytes \<Rightarrow> u32" where
  "kernel_l2_squared A K query row =
     (case as_f32 K row of Some values \<Rightarrow> kernel_l2_f32 A K query values | None \<Rightarrow> l2_squared_bytes A query row)"

definition fast_scorer_new :: "fops \<Rightarrow> kernels \<Rightarrow> metric \<Rightarrow> u32 list \<Rightarrow> scorer" where
  "fast_scorer_new A K metric query =
     (let norm = f_sqrt (fo_fpu A) (kernel_dot_f32 A K query query) in
      \<lparr>sco_metric = metric, sco_query = query,
       sco_query_inv_norm = (if f32_positive norm \<and> f32_is_finite norm then f_recip (fo_fpu A) norm else 0)\<rparr>)"

definition fast_score :: "fops \<Rightarrow> kernels \<Rightarrow> scorer \<Rightarrow> bytes \<Rightarrow> u32 \<Rightarrow> u32" where
  "fast_score A K s row row_inv_norm =
     (case sco_metric s of
        Cosine \<Rightarrow> fmul A (fmul A (kernel_dot A K (sco_query s) row) (sco_query_inv_norm s)) row_inv_norm
      | Dot \<Rightarrow> kernel_dot A K (sco_query s) row
      | L2 \<Rightarrow> fo_neg A (kernel_l2_squared A K (sco_query s) row))"

definition FLAT_STRIDE :: u64 where
  "FLAT_STRIDE = 1024"

text \<open>The scan of \<open>FlatIndex::search\<close>, with a stride and a budget check of its own.\<close>

definition flat_visit :: "fops \<Rightarrow> kernels \<Rightarrow> scorer \<Rightarrow> search_ctx \<Rightarrow> visited_row \<Rightarrow> u64 \<Rightarrow> (budget \<times> top_k, u64) io" where
  "flat_visit A K s ctx = (\<lambda>(row, bs, norm) since_check (b, t).
     case ctx_admits ctx row of
       Inl e \<Rightarrow> (Inl e, (b, t))
     | Inr admitted \<Rightarrow>
         if \<not> admitted then (Inr since_check, (b, t))
         else
           let t = fst (topk_offer row (fast_score A K s bs norm) t); since_check = since_check + 1 in
           if since_check \<ge> FLAT_STRIDE
           then (case bd_charge since_check b of (Inl e, b) \<Rightarrow> (Inl e, (b, t)) | (Inr _, b) \<Rightarrow> (Inr 0, (b, t)))
           else (Inr since_check, (b, t)))"

definition flat_search :: "fops \<Rightarrow> kernels \<Rightarrow> search_ctx \<Rightarrow> ('i \<times> budget \<times> top_k, unit) io" where
  "flat_search A K ctx =
     (if sc_top_k ctx = 0 then io_ok ()
      else
        let s = fast_scorer_new A K (sc_metric ctx) (sc_query ctx) in
        io_snd (\<lambda>(b, t).
          case vs_for_each (sc_source ctx) (flat_visit A K s ctx) 0 (b, t) of
            (Inl e, (b, t)) \<Rightarrow> (Inl e, (b, t))
          | (Inr since_check, (b, t)) \<Rightarrow> (case bd_charge since_check b of (r, b) \<Rightarrow> (r, (b, t)))))"

definition flat_index :: "fops \<Rightarrow> kernels \<Rightarrow> ('i, 's) vector_index" where
  "flat_index A K = \<lparr>vi_kind = FlatKind, vi_is_exact = True, vi_prepare = prepare_nothing,
     vi_search = flat_search A K, vi_stats = (\<lambda>_. \<lparr>is_kind = FlatKind, is_rows = 0, is_memory_bytes = 0\<rparr>)\<rparr>"

subsection \<open>What a scan computes\<close>

text \<open>The candidates a scan offers: the admitted rows with their scores.\<close>

definition scored :: "search_ctx \<Rightarrow> (bytes \<Rightarrow> u32 \<Rightarrow> u32) \<Rightarrow> visited_row list \<Rightarrow> candidate list" where
  "scored ctx score rows = map (\<lambda>(row, bs, n). \<lparr>c_row = row, c_score = score bs n\<rparr>)
     (filter (\<lambda>(row, bs, n). ctx_admits ctx row = Inr True) rows)"

text \<open>Whether a budget allows a total of \<open>x\<close> candidates.\<close>

definition budget_allows :: "budget \<Rightarrow> nat \<Rightarrow> bool" where
  "budget_allows b x \<longleftrightarrow> \<not> bd_cancelled b \<and> (case bd_max_scanned b of None \<Rightarrow> True | Some m \<Rightarrow> x \<le> unat m)"

lemma bd_charge_cases:
  assumes "unat (bd_scanned b) + unat n < 2 ^ 64"
  shows "bd_charge n b = (if budget_allows b (unat (bd_scanned b) + unat n) then Inr () else Inl Cancelled,
     b\<lparr>bd_scanned := bd_scanned b + n\<rparr>)"
    and "unat (bd_scanned b + n) = unat (bd_scanned b) + unat n"
proof -
  show u: "unat (bd_scanned b + n) = unat (bd_scanned b) + unat n"
    using assms by (simp add: unat_word_ariths)
  show "bd_charge n b = (if budget_allows b (unat (bd_scanned b) + unat n) then Inr () else Inl Cancelled,
     b\<lparr>bd_scanned := bd_scanned b + n\<rparr>)"
    by (auto simp: bd_charge_def Let_def budget_allows_def u [symmetric] word_less_nat_alt word_le_nat_alt not_less split: option.splits)
qed

lemma budget_allows_mono: "budget_allows b y \<Longrightarrow> x \<le> y \<Longrightarrow> budget_allows b x"
  by (auto simp: budget_allows_def split: option.splits)

lemma budget_allows_scanned [simp]: "budget_allows (b\<lparr>bd_scanned := n\<rparr>) = budget_allows b"
  by (simp add: budget_allows_def fun_eq_iff)

lemma offer_all_Cons [simp]: "offer_all (c # cs) t = offer_all cs (fst (topk_offer (c_row c) (c_score c) t))"
  by (simp add: offer_all_def)

lemma offer_all_Nil [simp]: "offer_all [] t = t"
  by (simp add: offer_all_def)

lemma scan_fold:
  assumes "\<forall>r \<in> set rows. is_ok (ctx_admits ctx (fst r))"
    and "unat (bd_scanned b) + unat since + length (scored ctx score rows) < 2 ^ 64" and "since < BUDGET_STRIDE"
  shows "(\<forall>since' b' t'. io_fold (scan_visit ctx score) rows since (b, t) = (Inr since', (b', t')) \<longrightarrow>
        since' < BUDGET_STRIDE \<and> bd_cancelled b' = bd_cancelled b \<and> bd_max_scanned b' = bd_max_scanned b
        \<and> unat (bd_scanned b') + unat since' = unat (bd_scanned b) + unat since + length (scored ctx score rows)
        \<and> t' = offer_all (scored ctx score rows) t)
    \<and> (\<forall>e x. io_fold (scan_visit ctx score) rows since (b, t) = (Inl e, x) \<longrightarrow> e = Cancelled
        \<and> \<not> budget_allows b (unat (bd_scanned b) + unat since + length (scored ctx score rows)))"
  using assms
proof (induction rows arbitrary: since b t)
  case Nil
  then show ?case by (simp add: scored_def)
next
  case (Cons r rows)
  obtain row bs n where r: "r = (row, bs, n)" by (cases r)
  from Cons.prems(1) obtain v where v: "ctx_admits ctx row = Inr v" by (auto simp: r elim: is_okE)
  have ok: "\<forall>r \<in> set rows. is_ok (ctx_admits ctx (fst r))" using Cons.prems(1) by simp
  show ?case
  proof (cases v)
    case False
    with v have sc: "scored ctx score (r # rows) = scored ctx score rows" by (simp add: scored_def r)
    from False v have "scan_visit ctx score r since (b, t) = (Inr since, (b, t))" by (simp add: scan_visit_def r)
    then have f: "io_fold (scan_visit ctx score) (r # rows) since (b, t) = io_fold (scan_visit ctx score) rows since (b, t)" by simp
    show ?thesis unfolding f sc by (rule Cons.IH [OF ok Cons.prems(2) [unfolded sc] Cons.prems(3)])
  next
    case True
    let ?c = "\<lparr>c_row = row, c_score = score bs n\<rparr>" and ?t = "fst (topk_offer row (score bs n) t)"
    have sc: "scored ctx score (r # rows) = ?c # scored ctx score rows" using True v by (simp add: scored_def r)
    have s1: "unat (since + 1) = Suc (unat since)"
      using Cons.prems(3) by (auto simp: BUDGET_STRIDE_def word_less_nat_alt unat_word_ariths)
    show ?thesis
    proof (cases "since + 1 \<ge> BUDGET_STRIDE")
      case False
      then have "scan_visit ctx score r since (b, t) = (Inr (since + 1), (b, ?t))"
        using True v by (simp add: scan_visit_def r Let_def)
      then have f: "io_fold (scan_visit ctx score) (r # rows) since (b, t) = io_fold (scan_visit ctx score) rows (since + 1) (b, ?t)" by simp
      have "unat (bd_scanned b) + unat (since + 1) + length (scored ctx score rows) < 2 ^ 64" "since + 1 < BUDGET_STRIDE"
        using Cons.prems(2) False by (simp_all add: sc s1 not_le)
      note IH = Cons.IH [OF ok this, of ?t]
      have n: "unat (bd_scanned b) + unat since + length (?c # scored ctx score rows) = unat (bd_scanned b) + unat (since + 1) + length (scored ctx score rows)"
        by (simp add: s1)
      have o: "offer_all (?c # scored ctx score rows) t = offer_all (scored ctx score rows) ?t" by simp
      show ?thesis unfolding f sc n o by (rule IH)
    next
      case ge: True
      have lt: "unat (bd_scanned b) + unat (since + 1) < 2 ^ 64" using Cons.prems(2) by (simp add: sc s1)
      note ch = bd_charge_cases [OF lt]
      show ?thesis
      proof (cases "budget_allows b (unat (bd_scanned b) + unat (since + 1))")
        case True
        then have "scan_visit ctx score r since (b, t) = (Inr 0, (b\<lparr>bd_scanned := bd_scanned b + (since + 1)\<rparr>, ?t))"
          using ge v \<open>v\<close> ch(1) by (simp add: scan_visit_def r Let_def)
        then have f: "io_fold (scan_visit ctx score) (r # rows) since (b, t)
            = io_fold (scan_visit ctx score) rows 0 (b\<lparr>bd_scanned := bd_scanned b + (since + 1)\<rparr>, ?t)" by simp
        have "unat (bd_scanned (b\<lparr>bd_scanned := bd_scanned b + (since + 1)\<rparr>)) + unat (0 :: u64) + length (scored ctx score rows) < 2 ^ 64"
          "0 < BUDGET_STRIDE" using Cons.prems(2) ch(2) by (simp_all add: sc s1 BUDGET_STRIDE_def)
        note IH = Cons.IH [OF ok this, of ?t]
        have n: "unat (bd_scanned b) + unat since + length (?c # scored ctx score rows)
            = unat (bd_scanned (b\<lparr>bd_scanned := bd_scanned b + (since + 1)\<rparr>)) + unat (0 :: u64) + length (scored ctx score rows)"
          using ch(2) by (simp add: s1)
        have o: "offer_all (?c # scored ctx score rows) t = offer_all (scored ctx score rows) ?t" by simp
        have e: "bd_cancelled (b\<lparr>bd_scanned := bd_scanned b + (since + 1)\<rparr>) = bd_cancelled b"
          "bd_max_scanned (b\<lparr>bd_scanned := bd_scanned b + (since + 1)\<rparr>) = bd_max_scanned b" by simp_all
        show ?thesis unfolding f sc n o using IH unfolding e budget_allows_scanned .
      next
        case False
        then have "scan_visit ctx score r since (b, t) = (Inl Cancelled, (b\<lparr>bd_scanned := bd_scanned b + (since + 1)\<rparr>, ?t))"
          using ge v \<open>v\<close> ch(1) by (simp add: scan_visit_def r Let_def)
        then show ?thesis using False budget_allows_mono by (force simp: sc s1)
      qed
    qed
  qed
qed

lemma scan_search_correct:
  assumes "\<forall>r \<in> set (vs_rows (sc_source ctx)). is_ok (ctx_admits ctx (fst r))" and "0 < sc_top_k ctx"
    and "cs = scored ctx score (vs_rows (sc_source ctx))" and "unat (bd_scanned b) + length cs < 2 ^ 64"
  shows "if budget_allows b (unat (bd_scanned b) + length cs)
     then scan_search ctx score (b, t) = (Inr (), (b\<lparr>bd_scanned := bd_scanned b + of_nat (length cs)\<rparr>, offer_all cs t))
     else fst (scan_search ctx score (b, t)) = Inl Cancelled"
proof -
  let ?f = "io_fold (scan_visit ctx score) (vs_rows (sc_source ctx)) 0 (b, t)"
  note sf = scan_fold [OF assms(1), of b 0 score t, folded assms(3)]
  obtain r b' t' where f: "?f = (r, (b', t'))" by (metis prod.exhaust)
  have s: "scan_search ctx score (b, t) = (case r of Inl e \<Rightarrow> (Inl e, (b', t'))
      | Inr since \<Rightarrow> (case bd_charge since b' of (r, b) \<Rightarrow> (r, (b, t'))))"
    using assms(2) by (simp add: scan_search_def vs_for_each_def io_bind_def f split: sum.split)
  show ?thesis
  proof (cases r)
    case (Inl e)
    with sf f assms(4) s show ?thesis by (simp add: BUDGET_STRIDE_def)
  next
    case (Inr since)
    with sf f assms(4) have z: "bd_cancelled b' = bd_cancelled b" "bd_max_scanned b' = bd_max_scanned b" "t' = offer_all cs t"
      "unat (bd_scanned b') + unat since = unat (bd_scanned b) + length cs" by (simp_all add: BUDGET_STRIDE_def)
    with assms(4) have "unat (bd_scanned b') + unat since < 2 ^ 64" by simp
    note ch = bd_charge_cases [OF this]
    have "unat (bd_scanned b' + since) = unat (bd_scanned b + of_nat (length cs))"
      using ch(2) z(4) assms(4) by (simp add: unat_word_ariths unat_of_nat)
    then have "bd_scanned b' + since = bd_scanned b + of_nat (length cs)" by (simp add: word_unat_eq_iff)
    moreover have "budget_allows b' = budget_allows b" using z(1,2) by (simp add: budget_allows_def fun_eq_iff)
    moreover have "b'\<lparr>bd_scanned := x\<rparr> = b\<lparr>bd_scanned := x\<rparr>" for x using z(1,2) by (cases b; cases b') simp
    ultimately show ?thesis using s Inr ch(1) z(3,4) by simp
  qed
qed

text \<open>A scan that starts with an empty collector.\<close>

lemma scan_topk:
  assumes "\<forall>r \<in> set (vs_rows (sc_source ctx)). is_ok (ctx_admits ctx (fst r))" and "0 < sc_top_k ctx"
    and "cs = scored ctx score (vs_rows (sc_source ctx))" and "unat (bd_scanned b) + length cs < 2 ^ 64"
    and "t = with_min_score (sc_min_score ctx) (topk_new (sc_top_k ctx))"
  shows "if budget_allows b (unat (bd_scanned b) + length cs)
     then (\<exists>t'. io_snd (scan_search ctx score) (i, b, t) = (Inr (), (i, b\<lparr>bd_scanned := bd_scanned b + of_nat (length cs)\<rparr>, t'))
        \<and> topk_into_sorted t' = take (sc_top_k ctx) (sort_key worst_key (filter (accepts (sc_min_score ctx)) cs))
        \<and> tk_considered t' = of_nat (length cs))
     else fst (io_snd (scan_search ctx score) (i, b, t)) = Inl Cancelled"
proof -
  note sc = scan_search_correct [OF assms(1-4), of t]
  note tk = topk_run [of cs "sc_min_score ctx" "sc_top_k ctx", folded assms(5), unfolded Let_def]
  show ?thesis
  proof (cases "budget_allows b (unat (bd_scanned b) + length cs)")
    case True
    with sc have "io_snd (scan_search ctx score) (i, b, t)
        = (Inr (), (i, b\<lparr>bd_scanned := bd_scanned b + of_nat (length cs)\<rparr>, offer_all cs t))" by simp
    with True tk show ?thesis by auto
  next
    case False
    with sc show ?thesis by (auto simp: io_snd_def split: prod.splits)
  qed
qed

text \<open>The two scans differ in how they score only.\<close>

lemma flat_search_scan:
  "flat_search A K ctx = io_snd (scan_search ctx (fast_score A K (fast_scorer_new A K (sc_metric ctx) (sc_query ctx))))"
proof -
  have v: "flat_visit A K s ctx = scan_visit ctx (fast_score A K s)" for s
    by (intro ext) (auto simp: flat_visit_def scan_visit_def FLAT_STRIDE_def BUDGET_STRIDE_def split: sum.split bool.split)
  show ?thesis unfolding flat_search_def v Let_def
    by (auto simp: fun_eq_iff scan_search_def io_bind_def io_snd_def split: prod.splits sum.splits)
qed

subsection \<open>Properties\<close>

text \<open>
  Property C9.  The exact scan is exact and stays within its budget.  When no row's filter
  fails, the search succeeds precisely when the budget, neither cancelled nor exceeded by the
  number of admitted rows, allows it, and then returns the first \<open>k\<close> of the admitted rows at
  or above the score floor, by descending score and ascending row, charging every admitted
  row once; otherwise it is cancelled.
\<close>

theorem exact_scan_correct:
  assumes "\<forall>r \<in> set (vs_rows (sc_source ctx)). is_ok (ctx_admits ctx (fst r))" and "0 < sc_top_k ctx"
    and "cs = scored ctx (score_bytes A (scorer_new A (sc_metric ctx) (sc_query ctx))) (vs_rows (sc_source ctx))"
    and "unat (bd_scanned b) + length cs < 2 ^ 64"
    and "t = with_min_score (sc_min_score ctx) (topk_new (sc_top_k ctx))"
  shows "if budget_allows b (unat (bd_scanned b) + length cs)
     then (\<exists>t'. vi_search (exact_scan A) ctx (i, b, t) = (Inr (), (i, b\<lparr>bd_scanned := bd_scanned b + of_nat (length cs)\<rparr>, t'))
        \<and> topk_into_sorted t' = take (sc_top_k ctx) (sort_key worst_key (filter (accepts (sc_min_score ctx)) cs))
        \<and> tk_considered t' = of_nat (length cs))
     else fst (vi_search (exact_scan A) ctx (i, b, t)) = Inl Cancelled"
  using scan_topk [OF assms, of i] by (simp add: exact_scan_def exact_search_def)

theorem exact_scan_correct_witness:
  "\<exists>t'. vi_search (exact_scan \<lparr>fo_fpu = \<lparr>f_mul = \<lambda>x y. y, f_sum = \<lambda>xs. 0, f_sqrt = \<lambda>x. x, f_recip = \<lambda>x. x\<rparr>,
        fo_add = \<lambda>x y. x + y, fo_sub = \<lambda>x y. x - y, fo_neg = \<lambda>x. x, fo_max = max, fo_fma = \<lambda>x y c. x * y + c\<rparr> :: (unit, unit) vector_index)
      \<lparr>sc_query = [1], sc_top_k = 1, sc_metric = Dot,
       sc_source = \<lparr>vs_dimension = 1, vs_len = 2, vs_rows = [(5, [3, 0, 0, 0], 0), (6, [9, 0, 0, 0], 0)], vs_vector = \<lambda>_. None\<rparr>,
       sc_live = all_live_set, sc_filter = None, sc_min_score = None, sc_params = params_default\<rparr>
      ((), bd_unlimited, with_min_score None (topk_new 1)) = (Inr (), ((), bd_unlimited\<lparr>bd_scanned := 2\<rparr>, t'))
     \<and> topk_into_sorted t' = [\<lparr>c_row = 6, c_score = 9\<rparr>]"
proof -
  let ?A = "\<lparr>fo_fpu = \<lparr>f_mul = \<lambda>x y. y, f_sum = \<lambda>xs. 0, f_sqrt = \<lambda>x. x, f_recip = \<lambda>x. x\<rparr>,
        fo_add = \<lambda>x y. x + y, fo_sub = \<lambda>x y. x - y, fo_neg = \<lambda>x. x, fo_max = max, fo_fma = \<lambda>x y c. x * y + c\<rparr> :: fops"
  let ?ctx = "\<lparr>sc_query = [1], sc_top_k = 1, sc_metric = Dot,
       sc_source = \<lparr>vs_dimension = 1, vs_len = 2, vs_rows = [(5, [3, 0, 0, 0], 0), (6, [9, 0, 0, 0], 0)], vs_vector = \<lambda>_. None\<rparr>,
       sc_live = all_live_set, sc_filter = None, sc_min_score = None, sc_params = params_default\<rparr>"
  let ?cs = "[\<lparr>c_row = 5, c_score = 3\<rparr>, \<lparr>c_row = 6, c_score = 9\<rparr>]"
  have ad: "\<forall>r \<in> set (vs_rows (sc_source ?ctx)). is_ok (ctx_admits ?ctx (fst r))"
    by (simp add: ctx_admits_def all_live_set_def)
  have cs: "?cs = scored ?ctx (score_bytes ?A (scorer_new ?A (sc_metric ?ctx) (sc_query ?ctx))) (vs_rows (sc_source ?ctx))"
    by (simp add: scored_def ctx_admits_def all_live_set_def score_bytes_def scorer_new_def Let_def dot_bytes_def fmul_def)
  have k: "(0 :: nat) < sc_top_k ?ctx" "unat (bd_scanned bd_unlimited) + length ?cs < 2 ^ 64"
    "with_min_score None (topk_new 1) = with_min_score (sc_min_score ?ctx) (topk_new (sc_top_k ?ctx))"
    by (simp_all add: bd_unlimited_def)
  have al: "budget_allows bd_unlimited n" for n by (simp add: budget_allows_def bd_unlimited_def)
  from exact_scan_correct [OF ad k(1) cs k(2,3), of "()"] al obtain t' where
    t: "vi_search (exact_scan ?A :: (unit, unit) vector_index) ?ctx ((), bd_unlimited, with_min_score None (topk_new 1))
       = (Inr (), ((), bd_unlimited\<lparr>bd_scanned := bd_scanned bd_unlimited + of_nat (length ?cs)\<rparr>, t'))"
    and s: "topk_into_sorted t' = take (sc_top_k ?ctx) (sort_key worst_key (filter (accepts (sc_min_score ?ctx)) ?cs))" by auto
  have "sort_key worst_key ?cs = [\<lparr>c_row = 6, c_score = 9\<rparr>, \<lparr>c_row = 5, c_score = 3\<rparr>]"
    by (simp add: worst_key_def f32_key_def)
  moreover have "filter (accepts None) ?cs = ?cs" by (simp add: accepts_def)
  ultimately have r: "topk_into_sorted t' = [\<lparr>c_row = 6, c_score = 9\<rparr>]" using s by simp
  have "bd_scanned bd_unlimited + of_nat (length ?cs) = 2" by (simp add: bd_unlimited_def)
  with t have t2: "vi_search (exact_scan ?A :: (unit, unit) vector_index) ?ctx ((), bd_unlimited, with_min_score None (topk_new 1))
       = (Inr (), ((), bd_unlimited\<lparr>bd_scanned := 2\<rparr>, t'))" by (simp only:)
  show ?thesis by (intro exI conjI) (rule t2, rule r)
qed

text \<open>
  Property C30.  The accelerated scan, on whatever backend is detected and however the rows are aligned, is
  exact for the scores its kernels compute: when no row's filter fails it returns the first \<open>k\<close> of the
  admitted rows at or above the score floor by descending score and ascending row, charges every admitted
  row once, and is cancelled precisely when the budget does not allow that many.
\<close>

theorem flat_scan_correct:
  assumes "\<forall>r \<in> set (vs_rows (sc_source ctx)). is_ok (ctx_admits ctx (fst r))" and "0 < sc_top_k ctx"
    and "cs = scored ctx (fast_score A K (fast_scorer_new A K (sc_metric ctx) (sc_query ctx))) (vs_rows (sc_source ctx))"
    and "unat (bd_scanned b) + length cs < 2 ^ 64"
    and "t = with_min_score (sc_min_score ctx) (topk_new (sc_top_k ctx))"
  shows "if budget_allows b (unat (bd_scanned b) + length cs)
     then (\<exists>t'. vi_search (flat_index A K) ctx (i, b, t) = (Inr (), (i, b\<lparr>bd_scanned := bd_scanned b + of_nat (length cs)\<rparr>, t'))
        \<and> topk_into_sorted t' = take (sc_top_k ctx) (sort_key worst_key (filter (accepts (sc_min_score ctx)) cs))
        \<and> tk_considered t' = of_nat (length cs))
     else fst (vi_search (flat_index A K) ctx (i, b, t)) = Inl Cancelled"
  using scan_topk [OF assms, of i] by (simp add: flat_index_def flat_search_scan)

theorem flat_scan_correct_witness:
  "\<exists>t'. vi_search (flat_index \<lparr>fo_fpu = \<lparr>f_mul = \<lambda>x y. x * y, f_sum = \<lambda>xs. 0, f_sqrt = \<lambda>x. x, f_recip = \<lambda>x. x\<rparr>,
        fo_add = \<lambda>x y. x + y, fo_sub = \<lambda>x y. x - y, fo_neg = \<lambda>x. x, fo_max = max, fo_fma = \<lambda>x y c. x * y + c\<rparr>
        \<lparr>kn_backend = Neon, kn_aligned = \<lambda>row. True\<rparr> :: (unit, unit) vector_index)
      \<lparr>sc_query = [1, 2, 3, 4, 5], sc_top_k = 1, sc_metric = Dot,
       sc_source = \<lparr>vs_dimension = 5, vs_len = 2, vs_rows = [(5, [1,0,0,0, 0,0,0,0, 0,0,0,0, 0,0,0,0, 0,0,0,0], 0), (6, [0,0,0,0, 0,0,0,0, 0,0,0,0, 1,0,0,0, 1,0,0,0], 0)], vs_vector = \<lambda>_. None\<rparr>,
       sc_live = all_live_set, sc_filter = None, sc_min_score = None, sc_params = params_default\<rparr>
      ((), bd_unlimited, with_min_score None (topk_new 1)) = (Inr (), ((), bd_unlimited\<lparr>bd_scanned := 2\<rparr>, t'))
     \<and> topk_into_sorted t' = [\<lparr>c_row = 6, c_score = 9\<rparr>]"
proof -
  let ?A = "\<lparr>fo_fpu = \<lparr>f_mul = \<lambda>x y. x * y, f_sum = \<lambda>xs. 0, f_sqrt = \<lambda>x. x, f_recip = \<lambda>x. x\<rparr>,
        fo_add = \<lambda>x y. x + y, fo_sub = \<lambda>x y. x - y, fo_neg = \<lambda>x. x, fo_max = max, fo_fma = \<lambda>x y c. x * y + c\<rparr> :: fops"
  let ?K = "\<lparr>kn_backend = Neon, kn_aligned = \<lambda>row. True\<rparr>"
  let ?ctx = "\<lparr>sc_query = [1, 2, 3, 4, 5], sc_top_k = 1, sc_metric = Dot,
       sc_source = \<lparr>vs_dimension = 5, vs_len = 2, vs_rows = [(5, [1,0,0,0, 0,0,0,0, 0,0,0,0, 0,0,0,0, 0,0,0,0], 0), (6, [0,0,0,0, 0,0,0,0, 0,0,0,0, 1,0,0,0, 1,0,0,0], 0)], vs_vector = \<lambda>_. None\<rparr>,
       sc_live = all_live_set, sc_filter = None, sc_min_score = None, sc_params = params_default\<rparr>"
  let ?cs = "[\<lparr>c_row = 5, c_score = 1\<rparr>, \<lparr>c_row = 6, c_score = 9\<rparr>]"
  have ad: "\<forall>r \<in> set (vs_rows (sc_source ?ctx)). is_ok (ctx_admits ?ctx (fst r))"
    by (simp add: ctx_admits_def all_live_set_def)
  have cs: "?cs = scored ?ctx (fast_score ?A ?K (fast_scorer_new ?A ?K (sc_metric ?ctx) (sc_query ?ctx))) (vs_rows (sc_source ?ctx))"
    by (simp add: scored_def ctx_admits_def all_live_set_def fast_score_def fast_scorer_new_def Let_def kernel_dot_def as_f32_def
      kernel_dot_f32_def dot_neon_def f32_ops_def fmul_def paired_loop.simps fma_lanes_def load_lanes_def add_lanes_def horizontal_neon_def
      dot_tail_def numeral_eq_Suc)
  have k: "(0 :: nat) < sc_top_k ?ctx" "unat (bd_scanned bd_unlimited) + length ?cs < 2 ^ 64"
    "with_min_score None (topk_new 1) = with_min_score (sc_min_score ?ctx) (topk_new (sc_top_k ?ctx))"
    by (simp_all add: bd_unlimited_def)
  have al: "budget_allows bd_unlimited n" for n by (simp add: budget_allows_def bd_unlimited_def)
  from flat_scan_correct [OF ad k(1) cs k(2,3), of "()"] al obtain t' where
    t: "vi_search (flat_index ?A ?K :: (unit, unit) vector_index) ?ctx ((), bd_unlimited, with_min_score None (topk_new 1))
       = (Inr (), ((), bd_unlimited\<lparr>bd_scanned := bd_scanned bd_unlimited + of_nat (length ?cs)\<rparr>, t'))"
    and s: "topk_into_sorted t' = take (sc_top_k ?ctx) (sort_key worst_key (filter (accepts (sc_min_score ?ctx)) ?cs))" by auto
  have "sort_key worst_key ?cs = [\<lparr>c_row = 6, c_score = 9\<rparr>, \<lparr>c_row = 5, c_score = 1\<rparr>]"
    by (simp add: worst_key_def f32_key_def)
  moreover have "filter (accepts None) ?cs = ?cs" by (simp add: accepts_def)
  ultimately have r: "topk_into_sorted t' = [\<lparr>c_row = 6, c_score = 9\<rparr>]" using s by simp
  have "bd_scanned bd_unlimited + of_nat (length ?cs) = 2" by (simp add: bd_unlimited_def)
  with t have t2: "vi_search (flat_index ?A ?K :: (unit, unit) vector_index) ?ctx ((), bd_unlimited, with_min_score None (topk_new 1))
       = (Inr (), ((), bd_unlimited\<lparr>bd_scanned := 2\<rparr>, t'))" by (simp only:)
  show ?thesis by (intro exI conjI) (rule t2, rule r)
qed

end
