(* ===== verification/Filter_Eval.thy ===== *)
theory Filter_Eval
  imports Document
begin

text \<open>
  Metadata filters (\<open>core/src/filter/mod.rs\<close>, \<open>core/src/filter/eval.rs\<close>): the expression tree,
  its limits, and the total evaluation over decoded or encoded metadata.  Floats are bit
  patterns with the IEEE comparisons written out, and \<open>i64 as f64\<close> rounds to nearest, ties
  to even.  Shown: evaluating a filter on the encoded bytes of a segment row gives the same
  answer as on the decoded map, and the comparison operators are mutually consistent.
\<close>

datatype ordering = Less | Equal | Greater

definition cmp :: "'a::linorder \<Rightarrow> 'a \<Rightarrow> ordering" where
  "cmp a b = (if a < b then Less else if a = b then Equal else Greater)"

subsection \<open>Floating-point comparison\<close>

definition f64_is_nan :: "u64 \<Rightarrow> bool" where
  "f64_is_nan x \<longleftrightarrow> x AND 0x7FFFFFFFFFFFFFFF > 0x7FF0000000000000"

text \<open>The numeric order of non-NaN doubles: sign and magnitude, both zeros equal.\<close>

definition f64_rank :: "u64 \<Rightarrow> int" where
  "f64_rank x = (if bit x 63 then - uint (x AND 0x7FFFFFFFFFFFFFFF) else uint x)"

definition f64_partial_cmp :: "u64 \<Rightarrow> u64 \<Rightarrow> ordering option" where
  "f64_partial_cmp a b = (if f64_is_nan a \<or> f64_is_nan b then None else Some (cmp (f64_rank a) (f64_rank b)))"

definition f64_eq :: "u64 \<Rightarrow> u64 \<Rightarrow> bool" where
  "f64_eq a b \<longleftrightarrow> \<not> f64_is_nan a \<and> \<not> f64_is_nan b \<and> f64_rank a = f64_rank b"

text \<open>\<open>x as f64\<close> for an \<open>i64\<close>, on its bits.\<close>

fun ilog2 :: "nat \<Rightarrow> nat" where
  "ilog2 n = (if n < 2 then 0 else Suc (ilog2 (n div 2)))"

declare ilog2.simps [simp del]

definition nat_to_f64 :: "nat \<Rightarrow> u64" where
  "nat_to_f64 n =
     (if n = 0 then 0
      else
        let e = ilog2 n;
            m = (if e \<le> 52 then n * 2 ^ (52 - e)
                 else let s = e - 52; q = n div 2 ^ s; r = n mod 2 ^ s; half = 2 ^ (s - 1)
                      in if r > half \<or> (r = half \<and> odd q) then q + 1 else q)
        in of_nat ((e + 1022) * 2 ^ 52 + m))"

definition i64_to_f64 :: "u64 \<Rightarrow> u64" where
  "i64_to_f64 v =
     (if 0 \<le> sint v then nat_to_f64 (nat (sint v)) else nat_to_f64 (nat (- sint v)) OR push_bit 63 1)"

subsection \<open>The expression tree\<close>

type_synonym field = rust_string

datatype mfilter =
    FAnd "mfilter list" | FOr "mfilter list" | FNot mfilter
  | FEq field val | FNe field val
  | FGt field val | FGte field val | FLt field val | FLte field val
  | FIn field "val list" | FNin field "val list"
  | FExists field | FIsNull field
  | FStartsWith field rust_string | FContains field val

definition filter_and :: "mfilter \<Rightarrow> mfilter \<Rightarrow> mfilter" where
  "filter_and self other = (case self of FAnd fs \<Rightarrow> FAnd (fs @ [other]) | first \<Rightarrow> FAnd [first, other])"

definition filter_or :: "mfilter \<Rightarrow> mfilter \<Rightarrow> mfilter" where
  "filter_or self other = (case self of FOr fs \<Rightarrow> FOr (fs @ [other]) | first \<Rightarrow> FOr [first, other])"

fun node_count :: "mfilter \<Rightarrow> nat" where
  "node_count (FAnd fs) = 1 + sum_list (map node_count fs)"
| "node_count (FOr fs) = 1 + sum_list (map node_count fs)"
| "node_count (FNot f) = 1 + node_count f"
| "node_count _ = 1"

fun filter_depth :: "mfilter \<Rightarrow> nat" where
  "filter_depth (FAnd fs) = 1 + max_or_zero (map filter_depth fs)"
| "filter_depth (FOr fs) = 1 + max_or_zero (map filter_depth fs)"
| "filter_depth (FNot f) = 1 + filter_depth f"
| "filter_depth _ = 1"

fun collect_fields :: "mfilter \<Rightarrow> field list" where
  "collect_fields (FAnd fs) = concat (map collect_fields fs)"
| "collect_fields (FOr fs) = concat (map collect_fields fs)"
| "collect_fields (FNot f) = collect_fields f"
| "collect_fields (FEq fd v) = [fd]"
| "collect_fields (FNe fd v) = [fd]"
| "collect_fields (FGt fd v) = [fd]"
| "collect_fields (FGte fd v) = [fd]"
| "collect_fields (FLt fd v) = [fd]"
| "collect_fields (FLte fd v) = [fd]"
| "collect_fields (FIn fd vs) = [fd]"
| "collect_fields (FNin fd vs) = [fd]"
| "collect_fields (FExists fd) = [fd]"
| "collect_fields (FIsNull fd) = [fd]"
| "collect_fields (FStartsWith fd p) = [fd]"
| "collect_fields (FContains fd v) = [fd]"

definition referenced_fields :: "mfilter \<Rightarrow> field list" where
  "referenced_fields f = remdups_adj (sort (collect_fields f))"

definition MAX_FILTER_NODES :: nat where "MAX_FILTER_NODES = 256"
definition MAX_FILTER_DEPTH :: nat where "MAX_FILTER_DEPTH = 32"

definition filter_validate :: "mfilter \<Rightarrow> unit db_result" where
  "filter_validate f =
     (let nodes = node_count f; d = filter_depth f in
      if nodes > MAX_FILTER_NODES \<or> d > MAX_FILTER_DEPTH
      then Inl (Validation (FilterTooComplex nodes d MAX_FILTER_NODES MAX_FILTER_DEPTH))
      else Inr ())"

subsection \<open>Evaluation\<close>

datatype fields = Decoded metadata | Encoded bytes | EmptyFields

primrec resolve :: "fields \<Rightarrow> field \<Rightarrow> val option" where
  "resolve EmptyFields path = None"
| "resolve (Decoded m) path = get_path m path"
| "resolve (Encoded bs) path = (case find_path bs path of Inl _ \<Rightarrow> None | Inr x \<Rightarrow> x)"

lemma zip_item_size: "(p, q) \<in> set (zip xs ys) \<Longrightarrow> size (p :: val) < Suc (size_list size xs)"
  using size_list_estimation' [of p xs "size p" size] by (auto dest: set_zip_leftD)

lemma zip_entry_size:
  "((k, v), e) \<in> set (zip xs ys) \<Longrightarrow> size (v :: val) < Suc (size_list (size_prod (\<lambda>x. 0) size) xs)"
proof -
  assume "((k, v), e) \<in> set (zip xs ys)"
  then have "(k, v) \<in> set xs" by (rule set_zip_leftD)
  then have "size_prod (\<lambda>x. 0) size (k, v) \<le> size_list (size_prod (\<lambda>x. 0) size) xs"
    by (rule size_list_estimation') simp
  then show ?thesis by simp
qed

function same :: "val \<Rightarrow> val \<Rightarrow> bool" where
  "same a b =
     (case a of
        Null \<Rightarrow> (case b of Null \<Rightarrow> True | _ \<Rightarrow> False)
      | Bool x \<Rightarrow> (case b of Bool y \<Rightarrow> x = y | _ \<Rightarrow> False)
      | I64 x \<Rightarrow> (case b of I64 y \<Rightarrow> x = y | F64 y \<Rightarrow> f64_eq (i64_to_f64 x) y | _ \<Rightarrow> False)
      | F64 x \<Rightarrow> (case b of F64 y \<Rightarrow> f64_eq x y | I64 y \<Rightarrow> f64_eq (i64_to_f64 y) x | _ \<Rightarrow> False)
      | Str x \<Rightarrow> (case b of Str y \<Rightarrow> x = y | _ \<Rightarrow> False)
      | Bytes x \<Rightarrow> (case b of Bytes y \<Rightarrow> x = y | _ \<Rightarrow> False)
      | Array xs \<Rightarrow> (case b of
            Array ys \<Rightarrow> length xs = length ys \<and> list_all (\<lambda>(p, q). same p q) (zip xs ys) | _ \<Rightarrow> False)
      | Map xs \<Rightarrow> (case b of
            Map ys \<Rightarrow> length xs = length ys
              \<and> list_all (\<lambda>((xk, xv), (yk, yv)). xk = yk \<and> same xv yv) (zip xs ys) | _ \<Rightarrow> False))"
  by auto

termination
  by (relation "measure (\<lambda>(a, b). size a)") (auto dest: zip_item_size zip_entry_size)

declare same.simps [simp del]

definition equals :: "val option \<Rightarrow> val \<Rightarrow> bool" where
  "equals actual expected = (case actual of None \<Rightarrow> expected = Null | Some a \<Rightarrow> same a expected)"

definition compare_vals :: "val \<Rightarrow> val \<Rightarrow> ordering option" where
  "compare_vals a b =
     (case a of
        I64 x \<Rightarrow> (case b of I64 y \<Rightarrow> Some (cmp (sint x) (sint y)) | F64 y \<Rightarrow> f64_partial_cmp (i64_to_f64 x) y | _ \<Rightarrow> None)
      | F64 x \<Rightarrow> (case b of F64 y \<Rightarrow> f64_partial_cmp x y | I64 y \<Rightarrow> f64_partial_cmp x (i64_to_f64 y) | _ \<Rightarrow> None)
      | Str x \<Rightarrow> (case b of Str y \<Rightarrow> Some (cmp x y) | _ \<Rightarrow> None)
      | Bool x \<Rightarrow> (case b of Bool y \<Rightarrow> Some (cmp x y) | _ \<Rightarrow> None)
      | Bytes x \<Rightarrow> (case b of Bytes y \<Rightarrow> Some (cmp x y) | _ \<Rightarrow> None)
      | _ \<Rightarrow> None)"

definition ordered :: "fields \<Rightarrow> field \<Rightarrow> val \<Rightarrow> (ordering \<Rightarrow> bool) \<Rightarrow> bool" where
  "ordered fs fd expected accept =
     (case Option.bind (resolve fs fd) (\<lambda>actual. compare_vals actual expected) of
        Some o' \<Rightarrow> accept o' | None \<Rightarrow> False)"

fun starts_with :: "rust_string \<Rightarrow> rust_string \<Rightarrow> bool" where
  "starts_with s [] = True"
| "starts_with [] (p # ps) = False"
| "starts_with (b # bs) (p # ps) = (b = p \<and> starts_with bs ps)"

fun matches_fields :: "mfilter \<Rightarrow> fields \<Rightarrow> bool" where
  "matches_fields (FAnd fs) md = list_all (\<lambda>c. matches_fields c md) fs"
| "matches_fields (FOr fs) md = list_ex (\<lambda>c. matches_fields c md) fs"
| "matches_fields (FNot f) md = (\<not> matches_fields f md)"
| "matches_fields (FEq fd v) md = equals (resolve md fd) v"
| "matches_fields (FNe fd v) md = (\<not> equals (resolve md fd) v)"
| "matches_fields (FGt fd v) md = ordered md fd v (\<lambda>c. c = Greater)"
| "matches_fields (FGte fd v) md = ordered md fd v (\<lambda>c. c \<noteq> Less)"
| "matches_fields (FLt fd v) md = ordered md fd v (\<lambda>c. c = Less)"
| "matches_fields (FLte fd v) md = ordered md fd v (\<lambda>c. c \<noteq> Greater)"
| "matches_fields (FIn fd vs) md = (let actual = resolve md fd in list_ex (equals actual) vs)"
| "matches_fields (FNin fd vs) md = (let actual = resolve md fd in \<not> list_ex (equals actual) vs)"
| "matches_fields (FExists fd) md = (resolve md fd \<noteq> None)"
| "matches_fields (FIsNull fd) md = (case resolve md fd of None \<Rightarrow> True | Some v \<Rightarrow> v = Null)"
| "matches_fields (FStartsWith fd p) md = (case resolve md fd of Some (Str s) \<Rightarrow> starts_with s p | _ \<Rightarrow> False)"
| "matches_fields (FContains fd v) md =
     (case resolve md fd of Some (Array items) \<Rightarrow> list_ex (\<lambda>item. same item v) items | _ \<Rightarrow> False)"

definition matches :: "mfilter \<Rightarrow> metadata \<Rightarrow> bool" where
  "matches f m = matches_fields f (Decoded m)"

subsection \<open>Encoded and decoded metadata give one answer\<close>

definition agree_on :: "field list \<Rightarrow> fields \<Rightarrow> fields \<Rightarrow> bool" where
  "agree_on fds a b \<longleftrightarrow> (\<forall>fd \<in> set fds. resolve a fd = resolve b fd)"

lemma matches_agree: "agree_on (collect_fields f) a b \<Longrightarrow> matches_fields f a = matches_fields f b"
proof (induction f)
  case (FAnd fs)
  then show ?case by (auto simp: agree_on_def list_all_iff)
next
  case (FOr fs)
  then show ?case by (auto simp: agree_on_def list_ex_iff)
qed (auto simp: agree_on_def ordered_def)

lemma resolve_encoded:
  assumes "length bs < 2 ^ 64" and "decode bs = Inr (Map m)" and "fd \<noteq> []"
  shows "resolve (Encoded bs) fd = resolve (Decoded m) fd"
proof -
  have rep: "val_rep 1 (Map m) bs" using assms decode_iff by blast
  have "split_dots fd \<noteq> []" by (cases fd) (auto split: list.splits)
  moreover have "stands_on 1 (reader_new bs) (Map m)"
    using rep assms(1) unfolding stands_on_def by (intro conjI exI [of _ bs] exI [of _ "[]"]) simp_all
  moreover have "bs \<noteq> []" using val_rep_pos [OF rep] by auto
  ultimately show ?thesis using find_segments_rep assms(3) by (simp add: find_path_def get_path_lookup)
qed

subsection \<open>Consistency of the comparisons\<close>

lemma cmp_eq [simp]: "cmp a b = Equal \<longleftrightarrow> a = b"
  by (auto simp: cmp_def)

lemma compare_equal_same: "compare_vals a b = Some c \<Longrightarrow> same a b \<longleftrightarrow> c = Equal"
  unfolding same.simps [of a b]
  by (cases a; cases b)
    (auto simp: compare_vals_def f64_partial_cmp_def f64_eq_def intro: signed_word_eqI split: if_splits)

subsection \<open>Properties\<close>

text \<open>
  Property C12.  The lazy evaluation and where it departs.  On the encoded bytes of any decodable
  metadata map, a filter gives the answer it gives on the decoded map, however deep the tree and
  whichever map layout the bytes use, unless the filter names the empty field path and the map has an
  empty key.  In that case the two sides disagree about this field: the filter that asks whether it exists holds
  of the decoded map, which is how rows of the memtable are filtered, and not of the encoded bytes, which is how
  rows of a segment are.
\<close>

theorem filter_encoded_decoded:
  assumes "length bs < 2 ^ 64" and "decode bs = Inr (Map m)"
  shows "(if [] \<in> set (collect_fields f) \<and> [] \<in> fst ` set m
      then matches (FExists []) m \<and> \<not> matches_fields (FExists []) (Encoded bs)
      else matches_fields f (Encoded bs) = matches f m)"
proof (cases "[] \<in> set (collect_fields f) \<and> [] \<in> fst ` set m")
  case True
  then have "map_of m [] \<noteq> None" by (simp add: map_of_eq_None_iff)
  then have "matches (FExists []) m" by (auto simp: matches_def get_path_def)
  moreover have "\<not> matches_fields (FExists []) (Encoded bs)" by (simp add: find_path_def)
  ultimately show ?thesis using True by simp
next
  case False
  have "resolve (Encoded bs) fd = resolve (Decoded m) fd" if "fd \<in> set (collect_fields f)" for fd
  proof (cases "fd = []")
    case True
    with False that have "map_of m [] = None" by (simp add: map_of_eq_None_iff)
    then show ?thesis using True by (simp add: find_path_def get_path_def)
  qed (rule resolve_encoded [OF assms])
  then have "agree_on (collect_fields f) (Encoded bs) (Decoded m)" unfolding agree_on_def by blast
  then have "matches_fields f (Encoded bs) = matches f m" unfolding matches_def by (rule matches_agree)
  then show ?thesis unfolding if_not_P [OF False] .
qed

theorem filter_encoded_decoded_witness:
  "matches_fields (FNot (FGt [0x6B] (I64 7))) (Encoded [8, 1, 1, 0x6B, 3, 10])"
proof -
  let ?m = "[([0x6B], I64 5)] :: metadata"
  have wf: "val_wf (Map ?m)" by (simp add: entries_ok_def string_ok_def blob_ok_def)
  have e: "encode (Map ?m) = Inr [8, 1, 1, 0x6B, 3, 10]"
    by (simp add: encode_def write_to_def write_at_depth.simps MAX_VALUE_DEPTH_def INDEX_MIN_ENTRIES_def
        codec_simps tag_defs varint_bytes.simps u64_of_def blob_bytes_def zigzag_def)
  have d: "decode [8, 1, 1, 0x6B, 3, 10] = Inr (Map ?m)" using encode_rep [OF e wf] by (subst decode_iff) simp_all
  have m: "matches (FNot (FGt [0x6B] (I64 7))) ?m"
    by (simp add: matches_def ordered_def get_path_def compare_vals_def cmp_def)
  show ?thesis using filter_encoded_decoded [OF _ d, of "FNot (FGt [0x6B] (I64 7))"] m by simp
qed

text \<open>
  The comparison operators are consistent: where the field's value can be
  ordered against the filter's, exactly one of less, equal and greater matches, and the two
  inclusive operators are the corresponding disjunctions; where it cannot, none of the four
  orderings matches.
\<close>

lemma filter_trichotomy:
  "case Option.bind (resolve md fd) (\<lambda>a. compare_vals a v) of
     Some c \<Rightarrow> matches_fields (FLt fd v) md = (c = Less) \<and> matches_fields (FEq fd v) md = (c = Equal)
       \<and> matches_fields (FGt fd v) md = (c = Greater)
       \<and> matches_fields (FLte fd v) md = (matches_fields (FLt fd v) md \<or> matches_fields (FEq fd v) md)
       \<and> matches_fields (FGte fd v) md = (matches_fields (FGt fd v) md \<or> matches_fields (FEq fd v) md)
   | None \<Rightarrow> \<not> matches_fields (FLt fd v) md \<and> \<not> matches_fields (FGt fd v) md
       \<and> \<not> matches_fields (FLte fd v) md \<and> \<not> matches_fields (FGte fd v) md"
proof (cases "Option.bind (resolve md fd) (\<lambda>a. compare_vals a v)")
  case None
  then show ?thesis by (simp add: ordered_def)
next
  case (Some c)
  then obtain a where a: "resolve md fd = Some a" "compare_vals a v = Some c" by (auto simp: bind_eq_Some_conv)
  have "equals (resolve md fd) v \<longleftrightarrow> c = Equal" using compare_equal_same [OF a(2)] by (simp add: equals_def a(1))
  with Some show ?thesis by (cases c) (simp_all add: ordered_def)
qed

end
