(* ===== verification/Api_Types.thy ===== *)
theory Api_Types
  imports Segment_Store Wal_Log Search_Index Filter_Eval
begin

text \<open>
  The values the public interface takes and returns (\<open>core/src/api/\<close>: \<open>config.rs\<close>,
  \<open>batch.rs\<close>, \<open>search.rs\<close>, \<open>stats.rs\<close>, \<open>verify.rs\<close>; \<open>core/src/clock.rs\<close>) and the slot an
  index keeps its snapshot in (\<open>core/src/persistence/index_snapshot.rs\<close>).
\<close>

subsection \<open>Configuration\<close>

record database_config =
  dcf_create_if_missing :: bool
  dcf_read_only :: bool
  dcf_durability :: durability
  dcf_flush_threshold_bytes :: nat

definition config_default :: database_config where
  "config_default = \<lparr>dcf_create_if_missing = True, dcf_read_only = False, dcf_durability = Batch,
     dcf_flush_threshold_bytes = 8 * 1024 * 1024\<rparr>"

definition config_create_if_missing :: "bool \<Rightarrow> database_config \<Rightarrow> database_config" where
  "config_create_if_missing yes c = c\<lparr>dcf_create_if_missing := yes\<rparr>"

definition config_read_only :: "bool \<Rightarrow> database_config \<Rightarrow> database_config" where
  "config_read_only yes c =
     (let c = c\<lparr>dcf_read_only := yes\<rparr> in if yes then c\<lparr>dcf_create_if_missing := False\<rparr> else c)"

definition config_durability :: "durability \<Rightarrow> database_config \<Rightarrow> database_config" where
  "config_durability d c = c\<lparr>dcf_durability := d\<rparr>"

definition config_flush_threshold :: "nat \<Rightarrow> database_config \<Rightarrow> database_config" where
  "config_flush_threshold n c = c\<lparr>dcf_flush_threshold_bytes := n\<rparr>"

definition config_validate :: "database_config \<Rightarrow> unit db_result" where
  "config_validate c =
     (if dcf_flush_threshold_bytes c = 0
      then Inl (Config (InvalidField ''flush_threshold_bytes'' (ascii ''0'') ''at least 1''))
      else if dcf_read_only c \<and> dcf_create_if_missing c
      then Inl (Config (InvalidField ''create_if_missing'' (ascii ''true'')
             ''false when read_only is set, since creating requires writing''))
      else Inr ())"

record collection_spec =
  csp_name :: rust_string
  csp_dimension :: u32
  csp_metric :: metric
  csp_dtype :: vector_dtype
  csp_id_kind :: id_kind
  csp_index :: index_spec

definition spec_new :: "rust_string \<Rightarrow> u32 \<Rightarrow> metric \<Rightarrow> collection_spec" where
  "spec_new name dimension m = \<lparr>csp_name = name, csp_dimension = dimension, csp_metric = m, csp_dtype = F32,
     csp_id_kind = StrId (of_nat MAX_DOC_ID_LEN), csp_index = Flat\<rparr>"

definition spec_with_u64_ids :: "collection_spec \<Rightarrow> collection_spec" where
  "spec_with_u64_ids c = c\<lparr>csp_id_kind := U64Id\<rparr>"

definition spec_with_id_max_len :: "u32 \<Rightarrow> collection_spec \<Rightarrow> collection_spec" where
  "spec_with_id_max_len n c = c\<lparr>csp_id_kind := StrId n\<rparr>"

definition spec_with_index :: "index_spec \<Rightarrow> collection_spec \<Rightarrow> collection_spec" where
  "spec_with_index i c = c\<lparr>csp_index := i\<rparr>"

definition spec_validate :: "collection_spec \<Rightarrow> unit db_result" where
  "spec_validate c = rbind (check_collection_name (csp_name c)) (\<lambda>_. check_dimension (csp_dimension c))"

subsection \<open>Clocks\<close>

text \<open>
  A clock is read once by each operation that commits, so operations take the reading as an
  argument.  The manual clock is its current time.
\<close>

type_synonym manual_clock = u64

definition clock_set :: "u64 \<Rightarrow> manual_clock \<Rightarrow> manual_clock" where
  "clock_set now_ms c = now_ms"

definition clock_advance :: "u64 \<Rightarrow> manual_clock \<Rightarrow> manual_clock" where
  "clock_advance millis c = c + millis"

definition clock_default :: manual_clock where
  "clock_default = 1700000000000"

definition clock_now_ms :: "manual_clock \<Rightarrow> u64" where
  "clock_now_ms c = c"

subsection \<open>Batches\<close>

datatype batch_op =
    BatchUpsert doc_id bytes "metadata option" "bytes option"
  | BatchDelete doc_id

primrec bop_id :: "batch_op \<Rightarrow> doc_id" where
  "bop_id (BatchUpsert docid vector md content) = docid"
| "bop_id (BatchDelete docid) = docid"

type_synonym write_batch = "batch_op list"

definition wb_upsert :: "document_input \<Rightarrow> write_batch \<Rightarrow> write_batch" where
  "wb_upsert doc ops = ops @ [BatchUpsert (di_id doc) (view_bytes (di_vector doc)) (di_metadata doc) (di_content doc)]"

definition wb_delete :: "doc_id \<Rightarrow> write_batch \<Rightarrow> write_batch" where
  "wb_delete docid ops = ops @ [BatchDelete docid]"

definition wb_validate :: "write_batch \<Rightarrow> unit db_result" where
  "wb_validate ops = check_batch_size (length ops)"

record batch_report =
  br_inserted :: nat
  br_updated :: nat
  br_deleted :: nat
  br_missing_deletes :: nat

definition br_default :: batch_report where
  "br_default = \<lparr>br_inserted = 0, br_updated = 0, br_deleted = 0, br_missing_deletes = 0\<rparr>"

definition br_changed :: "batch_report \<Rightarrow> nat" where
  "br_changed r = br_inserted r + br_updated r + br_deleted r"

subsection \<open>Searches\<close>

record search_request =
  rq_vector :: vector_view
  rq_top_k :: nat
  rq_metric :: "metric option"
  rq_filter :: "mfilter option"
  rq_min_score :: "u32 option"
  rq_include :: include_parts
  rq_params :: search_params

definition request_new :: "vector_view \<Rightarrow> nat \<Rightarrow> search_request" where
  "request_new v top_k = \<lparr>rq_vector = v, rq_top_k = top_k, rq_metric = None, rq_filter = None,
     rq_min_score = None, rq_include = include_default, rq_params = params_default\<rparr>"

definition request_with_metric :: "metric \<Rightarrow> search_request \<Rightarrow> search_request" where
  "request_with_metric m r = r\<lparr>rq_metric := Some m\<rparr>"

definition request_with_filter :: "mfilter \<Rightarrow> search_request \<Rightarrow> search_request" where
  "request_with_filter f r = r\<lparr>rq_filter := Some f\<rparr>"

definition request_with_min_score :: "u32 \<Rightarrow> search_request \<Rightarrow> search_request" where
  "request_with_min_score x r = r\<lparr>rq_min_score := Some x\<rparr>"

definition request_with_include :: "include_parts \<Rightarrow> search_request \<Rightarrow> search_request" where
  "request_with_include i r = r\<lparr>rq_include := i\<rparr>"

definition request_with_params :: "search_params \<Rightarrow> search_request \<Rightarrow> search_request" where
  "request_with_params p r = r\<lparr>rq_params := p\<rparr>"

record hit =
  hit_id :: doc_id
  hit_score :: u32
  hit_distance :: "u32 option"
  hit_document :: "document option"

record search_stats =
  ss_index_kind :: index_kind
  ss_exact :: bool
  ss_considered :: u64
  ss_scanned :: u64
  ss_skipped :: u64

record search_response =
  rsp_hits :: "hit list"
  rsp_stats :: search_stats

definition rsp_len :: "search_response \<Rightarrow> nat" where
  "rsp_len r = length (rsp_hits r)"

definition rsp_is_empty :: "search_response \<Rightarrow> bool" where
  "rsp_is_empty r \<longleftrightarrow> rsp_hits r = []"

definition rsp_ids :: "search_response \<Rightarrow> doc_id list" where
  "rsp_ids r = map hit_id (rsp_hits r)"

subsection \<open>Reports\<close>

record database_stats =
  dst_format_version :: u16
  dst_manifest_sequence :: u64
  dst_collections :: nat
  dst_live_documents :: u64
  dst_total_rows :: u64
  dst_read_only :: bool
  dst_durable_sync :: bool

record collection_stats =
  cst_name :: rust_string
  cst_dimension :: u32
  cst_metric :: metric
  cst_dtype :: vector_dtype
  cst_id_kind :: id_kind
  cst_index :: index_spec
  cst_live_documents :: u64
  cst_total_rows :: u64
  cst_segments :: nat
  cst_buffered_documents :: nat
  cst_memtable_bytes :: nat
  cst_dead_ratio :: u32

datatype verify_level = Quick | Checksums | FullVerify

primrec level_rank :: "verify_level \<Rightarrow> nat" where
  "level_rank Quick = 0"
| "level_rank Checksums = 1"
| "level_rank FullVerify = 2"

instantiation verify_level :: linorder
begin

definition less_eq_verify_level :: "verify_level \<Rightarrow> verify_level \<Rightarrow> bool" where
  "a \<le> b \<longleftrightarrow> level_rank a \<le> level_rank b"

definition less_verify_level :: "verify_level \<Rightarrow> verify_level \<Rightarrow> bool" where
  "a < b \<longleftrightarrow> level_rank a < level_rank b"

instance
proof
  fix a b :: verify_level
  show "a \<le> b \<Longrightarrow> b \<le> a \<Longrightarrow> a = b" by (cases a; cases b; simp add: less_eq_verify_level_def)
qed (auto simp: less_eq_verify_level_def less_verify_level_def)

end

text \<open>What the problem messages are formatted from; the collection is named by all but the last.\<close>

datatype problem =
    ChecksumFailed u64 db_error
  | LiveTwice rust_string
  | RowWithoutId u64 u32
  | UnreadableMetadata u64 u32 db_error
  | UnreferencedSegment u64
  | MostlyTombstones u64 u64
  | LiveCountDiffers u64 u64
  | RowCountDiffers u64 u64
  | UnnamedDirectory

type_synonym problems = "(rust_string \<times> problem) list"

record collection_verify =
  cv_name :: rust_string
  cv_segments_checked :: nat
  cv_live_documents :: u64
  cv_total_rows :: u64

record verify_report =
  vr_level :: verify_level
  vr_collections :: "collection_verify list"
  vr_errors :: problems
  vr_warnings :: problems

definition vr_is_clean :: "verify_report \<Rightarrow> bool" where
  "vr_is_clean r \<longleftrightarrow> vr_errors r = []"

definition vr_segments_checked :: "verify_report \<Rightarrow> nat" where
  "vr_segments_checked r = sum_list (map cv_segments_checked (vr_collections r))"

subsection \<open>The snapshot slot\<close>

text \<open>Every failure to load is the absence of a snapshot.\<close>

definition snapshot_load :: "('s, 'h) storage \<Rightarrow> rust_string \<Rightarrow> string \<Rightarrow> ('s, bytes option) io" where
  "snapshot_load st collection kind =
     (case index_file collection (ascii kind) 0 of
        Inl _ \<Rightarrow> io_ok None
      | Inr path \<Rightarrow>
          io_bind (io_catch (st_open_file st path OpenRead)) (\<lambda>opened.
          case opened of
            Inl _ \<Rightarrow> io_ok None
          | Inr file \<Rightarrow>
              io_bind (io_catch (f_len st file)) (\<lambda>measured.
              case measured of
                Inl _ \<Rightarrow> io_ok None
              | Inr len \<Rightarrow>
                  if len = 0 \<or> len > 2 ^ 32 then io_ok None
                  else
                    io_bind (io_catch (f_read_exact_at st file (unat len) 0 path)) (\<lambda>got.
                    case got of
                      Inl _ \<Rightarrow> io_ok None
                    | Inr bs \<Rightarrow> (case open_block bs Index of
                          Inr payload \<Rightarrow> io_ok (Some payload) | Inl _ \<Rightarrow> io_ok None)))))"

definition snapshot_store :: "('s, 'h) storage \<Rightarrow> rust_string \<Rightarrow> string \<Rightarrow> bytes \<Rightarrow> ('s, unit) io" where
  "snapshot_store st collection kind bs =
     io_bind (io_of (index_dir collection)) (\<lambda>dir.
     io_bind (st_create_dir_all st dir) (\<lambda>_.
     io_bind (io_of (index_file collection (ascii kind) 0)) (\<lambda>path.
     replace_bytes st path (encode_block Index bs))))"

definition stored_snapshots :: "('s, 'h) storage \<Rightarrow> rust_string \<Rightarrow> string \<Rightarrow> 's snapshots" where
  "stored_snapshots st collection kind =
     \<lparr>sn_load = snapshot_load st collection kind, sn_store = snapshot_store st collection kind\<rparr>"

end
