(* ===== verification/Manifest_Store.thy ===== *)
theory Manifest_Store
  imports Storage_Memory
begin

text \<open>
  Reading and committing the database root (\<open>core/src/persistence/manifest.rs\<close>).  A commit
  encodes the manifest, replaces the file of the slot that is not authoritative and syncs it.
  Shown, for every backend that keeps the storage contract: a commit that returned is what the
  next load adopts, also after a power cut, and a commit interrupted anywhere leaves the old
  manifest authoritative.
\<close>

record manifest_store =
  mst_current :: manifest
  mst_slot :: slot

primrec slot_describe :: "slot_status \<Rightarrow> slot_desc" where
  "slot_describe Missing = DescMissing"
| "slot_describe (Invalid e) = DescInvalid e"
| "slot_describe (Valid m) = DescValid (m_sequence m)"

definition no_valid_manifest :: "slot_scan \<Rightarrow> db_error" where
  "no_valid_manifest sc = Corruption (NoValidManifest path_root (slot_describe (ss_a sc)) (slot_describe (ss_b sc)))"

definition read_slot :: "('s, 'h) storage \<Rightarrow> slot \<Rightarrow> ('s, bytes option) io" where
  "read_slot st slot =
     io_bind (io_of (layout_manifest slot)) (\<lambda>path.
     io_bind (st_metadata st path) (\<lambda>meta.
     case meta of
       None \<Rightarrow> io_ok None
     | Some meta \<Rightarrow>
         if fm_len meta = 0 then io_ok None
         else
           io_bind (st_open_file st path OpenRead) (\<lambda>file.
           io_bind (f_read_at st file (unat (fm_len meta)) 0) (\<lambda>bs.
           io_ok (Some bs)))))"

definition mst_load :: "('s, 'h) storage \<Rightarrow> ('s, manifest_store option) io" where
  "mst_load st =
     io_bind (read_slot st SlotA) (\<lambda>a.
     io_bind (read_slot st SlotB) (\<lambda>b.
     if a = None \<and> b = None then io_ok None
     else
       let sc = scan_slots a b in
       case ss_chosen sc of
         Some (slot, current) \<Rightarrow> io_ok (Some \<lparr>mst_current = current, mst_slot = slot\<rparr>)
       | None \<Rightarrow> io_err (no_valid_manifest sc)))"

definition mst_scan :: "('s, 'h) storage \<Rightarrow> ('s, slot_scan) io" where
  "mst_scan st =
     io_bind (read_slot st SlotA) (\<lambda>a.
     io_bind (read_slot st SlotB) (\<lambda>b.
     io_ok (scan_slots a b)))"

definition mst_write :: "('s, 'h) storage \<Rightarrow> manifest \<Rightarrow> (manifest_store \<times> 's, unit) io" where
  "mst_write st next =
     io_bind io_self (\<lambda>self.
     let target = slot_other (mst_slot self) in
     io_bind (io_of (map_err (\<lambda>e. from_format_at e
         (case layout_manifest target of Inr p \<Rightarrow> p | Inl _ \<Rightarrow> path_root)) (manifest_encode next))) (\<lambda>bs.
     io_bind (io_of (layout_manifest target)) (\<lambda>path.
     io_bind (io_snd (st_open_file st path OpenCreate)) (\<lambda>file.
     io_bind (io_snd (f_truncate st file 0)) (\<lambda>_.
     io_bind (io_snd (f_write_at st file bs 0)) (\<lambda>_.
     io_bind (io_snd (f_sync_data st file)) (\<lambda>_.
     io_modify (\<lambda>self. self\<lparr>mst_current := next, mst_slot := target\<rparr>))))))))"

definition mst_create :: "('s, 'h) storage \<Rightarrow> bytes \<Rightarrow> u64 \<Rightarrow> ('s, manifest_store) io" where
  "mst_create st db_uuid now_ms = (\<lambda>s.
     let manifest = manifest_new db_uuid now_ms;
         store = \<lparr>mst_current = manifest, mst_slot = SlotB\<rparr> in
     case mst_write st manifest (store, s) of
       (Inl e, (_, s')) \<Rightarrow> (Inl e, s')
     | (Inr _, (store', s')) \<Rightarrow> (Inr store', s'))"

definition mst_next :: "manifest_store \<Rightarrow> manifest \<Rightarrow> u64 \<Rightarrow> manifest" where
  "mst_next self next now_ms = next\<lparr>m_sequence := sat_add (m_sequence (mst_current self)) 1,
     m_db_uuid := m_db_uuid (mst_current self), m_created_at_ms := m_created_at_ms (mst_current self),
     m_updated_at_ms := now_ms\<rparr>"

definition mst_commit :: "('s, 'h) storage \<Rightarrow> manifest \<Rightarrow> u64 \<Rightarrow> (manifest_store \<times> 's, unit) io" where
  "mst_commit st next now_ms = io_bind io_self (\<lambda>self. mst_write st (mst_next self next now_ms))"

subsection \<open>The slot files\<close>

definition slot_path :: "slot \<Rightarrow> db_path" where
  "slot_path s = ascii (slot_file_name s)"

lemma layout_manifest_eq: "layout_manifest s = Inr (slot_path s)"
proof -
  have "plain (ascii (slot_file_name s))" by (cases s) (simp_all add: plain_def ascii_def SEP_def)
  then show ?thesis
    using path_join_intercal [of "[]" "ascii (slot_file_name s)" "slot_path s"]
    by (cases s) (simp_all add: layout_manifest_def path_root_def slot_path_def)
qed

lemma slot_path_inject [simp]: "slot_path s = slot_path t \<longleftrightarrow> s = t"
  by (cases s; cases t) (simp_all add: slot_path_def)

lemma slot_parent: "parent_of (slot_path s) = path_root"
  by (cases s) (simp_all add: parent_of_def path_parent_def slot_path_def ascii_def SEP_def)

lemma slot_other_simps [simp]: "slot_other (slot_other s) = s" "slot_other s \<noteq> s" "s \<noteq> slot_other s"
  by (cases s; simp)+

text \<open>What a slot's file contributes to the scan: nothing if it is absent or empty.\<close>

definition slot_content :: "file_view option \<Rightarrow> bytes option" where
  "slot_content f = (case f of None \<Rightarrow> None | Some (l, d) \<Rightarrow> if l = [] then None else Some l)"

text \<open>
  The store and the files agree: the recorded slot holds the current manifest, and the other
  slot does not win against it.
\<close>

definition store_agrees :: "(db_path \<Rightarrow> file_view option) \<Rightarrow> manifest_store \<Rightarrow> bool" where
  "store_agrees fs self \<longleftrightarrow>
     ss_chosen (scan_slots (slot_content (fs (slot_path SlotA))) (slot_content (fs (slot_path SlotB))))
       = Some (mst_slot self, mst_current self)"

definition slots_small :: "(db_path \<Rightarrow> file_view option) \<Rightarrow> bool" where
  "slots_small fs \<longleftrightarrow> (\<forall>s f. fs (slot_path s) = Some f \<longrightarrow> length (fst f) < 2 ^ 64)"

lemma u64_of_eq_0: "n < 2 ^ 64 \<Longrightarrow> u64_of n = 0 \<longleftrightarrow> n = 0"
  using unat_u64_of [of n] by (metis unat_eq_zero)

context storage_contract
begin

lemma read_slot_content:
  assumes "good s" and "slots_small (files s)" and "\<not> dirs s (slot_path k)"
  shows "read_slot st k s = (Inr (slot_content (files s (slot_path k))), s)"
proof (cases "files s (slot_path k)")
  case None
  with assms(1,3) metadata_law show ?thesis by (simp add: read_slot_def layout_manifest_eq slot_content_def)
next
  case (Some f)
  with assms(2) have l: "length (fst f) < 2 ^ 64" unfolding slots_small_def by blast
  from read_whole [OF assms(1) Some l] obtain h where
    r: "st_metadata st (slot_path k) s = (Inr (Some \<lparr>fm_len = u64_of (length (fst f)), fm_kind = EntryFile\<rparr>), s)"
      "st_open_file st (slot_path k) OpenRead s = (Inr h, s)"
      "f_read_at st h (unat (u64_of (length (fst f)))) 0 s = (Inr (fst f), s)" by metis
  show ?thesis
  proof (cases "fst f = []")
    case True
    with r(1) Some show ?thesis
      by (cases f) (simp add: read_slot_def layout_manifest_eq slot_content_def u64_of_def)
  next
    case False
    with r Some l show ?thesis
      by (cases f) (simp add: read_slot_def layout_manifest_eq slot_content_def u64_of_eq_0)
  qed
qed

lemma load_agrees:
  assumes "good s" and "slots_small (files s)" and "\<forall>k. \<not> dirs s (slot_path k)"
  shows "mst_load st s = (Inr (Some self), s) \<longleftrightarrow> store_agrees (files s) self"
proof -
  let ?c = "\<lambda>k. slot_content (files s (slot_path k))" and ?sc = "\<lambda>a b. ss_chosen (scan_slots a b)"
  have r: "read_slot st k s = (Inr (?c k), s)" for k using read_slot_content assms by blast
  have empty: "?sc None None = None" by (simp add: scan_slots_def examine_def)
  show ?thesis
    using r [of SlotA] r [of SlotB] empty
    by (cases "?sc (?c SlotA) (?c SlotB)")
      (auto simp: mst_load_def store_agrees_def Let_def split: prod.splits)
qed

lemma mst_write_files:
  assumes "good s" and "\<not> dirs s (slot_path (slot_other (mst_slot self)))" and "dirs s path_root"
    and "manifest_encode next = Inr bs" and "length bs < 2 ^ 64"
  obtains s' where "mst_write st next (self, s) = (Inr (), (\<lparr>mst_current = next, mst_slot = slot_other (mst_slot self)\<rparr>, s'))"
    and "good s'" and "dirs s' = dirs s" and "files s' = (files s)(slot_path (slot_other (mst_slot self)) \<mapsto> (bs, bs))"
    and "\<forall>k q. stands s k q \<longrightarrow> stands s' k q"
proof -
  let ?p = "slot_path (slot_other (mst_slot self))"
  have "dirs s (parent_of ?p)" using assms(3) by (simp add: slot_parent)
  from replace_file [OF assms(1,2) this assms(5)] obtain h s1 s2 s3 s4 where
    w: "st_open_file st ?p OpenCreate s = (Inr h, s1)" "f_truncate st h 0 s1 = (Inr (), s2)"
      "f_write_at st h bs 0 s2 = (Inr (), s3)" "f_sync_data st h s3 = (Inr (), s4)"
      "good s4" "files s4 = (files s)(?p \<mapsto> (bs, bs))" "dirs s4 = dirs s" "\<forall>k q. stands s k q \<longrightarrow> stands s4 k q" by metis
  then show ?thesis by (intro that [of s4]) (simp_all add: mst_write_def layout_manifest_eq assms(4) Let_def)
qed

end

text \<open>The scan's inputs when the other slot's file is replaced.\<close>

lemma slot_content_update:
  assumes "fs' = fs(slot_path (slot_other k) \<mapsto> (take n bs, d))"
  shows "(\<lambda>j. slot_content (fs' (slot_path j)))
    = (\<lambda>j. slot_content (fs (slot_path j)))(slot_other k := (if take n bs = [] then None else Some (take n bs)))"
  using assms by (auto simp: fun_eq_iff slot_content_def)

lemma store_agrees_commit:
  assumes "store_agrees fs self" and "manifest_wf m'" and "manifest_encode m' = Inr bs" and "length bs < 2 ^ 64"
    and "m_sequence (mst_current self) < m_sequence m'"
    and "fs' = fs(slot_path (slot_other (mst_slot self)) \<mapsto> (take n bs, d))"
  shows "store_agrees fs' (if length bs \<le> n then \<lparr>mst_current = m', mst_slot = slot_other (mst_slot self)\<rparr> else self)"
proof -
  let ?x = "if take n bs = [] then None else Some (take n bs)" and ?n = "if take n bs = [] then 0 else n"
  have ne: "bs \<noteq> []" using assms(3) by (auto simp: manifest_encode_iff encode_block_eq)
  then have "length bs \<le> ?n \<longleftrightarrow> length bs \<le> n" by auto
  moreover have "?x = Some (take ?n bs) \<or> ?x = None \<and> ?n = 0" by auto
  ultimately show ?thesis
    using commit_scan [OF assms(1) [unfolded store_agrees_def] assms(2-5), of ?x ?n]
      fun_cong [OF slot_content_update [OF assms(6)], of SlotA] fun_cong [OF slot_content_update [OF assms(6)], of SlotB]
    unfolding store_agrees_def by auto
qed

lemma manifest_wf_next:
  "manifest_wf next \<Longrightarrow> manifest_wf (mst_current self) \<Longrightarrow> manifest_wf (mst_next self next t)"
  by (simp add: manifest_wf_def mst_next_def)

lemma sequence_grows: "q \<noteq> - 1 \<Longrightarrow> q < sat_add q (1 :: u64)"
  using unat_sat_add [of q 1] unat_minus_one_64 unat_lt_64 [of q]
  by (auto simp: word_less_nat_alt word_unat_eq_iff)

subsection \<open>Properties\<close>

text \<open>
  Property C6.  Commits on storage are atomic and durable.  Let the store's manifest be the one
  the files determine, now and after a power cut, and let the commit's manifest encode.  The
  commit returns, and loading adopts exactly the committed manifest, also after a power cut.
  When the commit is interrupted so that only a prefix of the new bytes is in the target
  file, whatever of it had become durable, loading adopts the old manifest unless every byte is
  there.
\<close>

theorem manifest_store_commit:
  assumes "mem_good s" and "is_dir s path_root" and "\<forall>k. \<not> is_dir s (slot_path k)" 
    and "slots_small (mem_files s)" and "slots_small (mem_files (simulate_power_loss s))"
    and "store_agrees (mem_files s) self" and "store_agrees (mem_files (simulate_power_loss s)) self"
    and "m' = mst_next self next now_ms" and "manifest_wf m'" and "manifest_encode m' = Inr bs" and "length bs < 2 ^ 64"
    and "m_sequence (mst_current self) \<noteq> - 1" and "self' = \<lparr>mst_current = m', mst_slot = slot_other (mst_slot self)\<rparr>"
  shows "(\<exists>s'. mst_commit memory_storage next now_ms (self, s) = (Inr (), (self', s'))
       \<and> mst_load memory_storage s' = (Inr (Some self'), s')
       \<and> mst_load memory_storage (simulate_power_loss s') = (Inr (Some self'), simulate_power_loss s'))
     \<and> (\<forall>t n d. mem_good t \<longrightarrow> is_dir t = is_dir s \<longrightarrow>
          mem_files t = (mem_files s)(slot_path (slot_other (mst_slot self)) \<mapsto> (take n bs, d)) \<longrightarrow>
          mst_load memory_storage t = (Inr (Some (if length bs \<le> n then self' else self)), t))"
proof -
  let ?p = "slot_path (slot_other (mst_slot self))"
  have seq: "m_sequence (mst_current self) < m_sequence m'"
    using sequence_grows [OF assms(12)] by (simp add: assms(8) mst_next_def)
  have load: "mst_load memory_storage t = (Inr (Some (if length bs \<le> n then self' else self)), t)"
    if "mem_good t" "is_dir t = is_dir s" "slots_small fs" "store_agrees fs self" "mem_files t = fs(?p \<mapsto> (take n bs, d))" for t fs n d
  proof -
    have "store_agrees (mem_files t) (if length bs \<le> n then self' else self)"
      using store_agrees_commit [OF that(4) assms(9-11) seq that(5)] unfolding assms(13) .
    moreover have "slots_small (mem_files t)" using that(3,5) assms(11) by (auto simp: slots_small_def)
    moreover have "\<forall>k. \<not> is_dir t (slot_path k)" using that(2) assms(3) by simp
    ultimately show ?thesis using mem.load_agrees [OF that(1)] by blast
  qed
  have nd: "\<not> is_dir s ?p" using assms(3) by blast
  obtain s' where w: "mst_write memory_storage m' (self, s) = (Inr (), (self', s'))" "mem_good s'" "is_dir s' = is_dir s"
    "mem_files s' = (mem_files s)(?p \<mapsto> (bs, bs))"
    using mem.mst_write_files [OF assms(1) nd assms(2) assms(10,11)] unfolding assms(13) by metis
  have "mst_commit memory_storage next now_ms (self, s) = (Inr (), (self', s'))"
    using w(1) by (simp add: mst_commit_def assms(8))
  moreover have "mst_load memory_storage s' = (Inr (Some self'), s')"
    using load [OF w(2,3) assms(4,6), of "length bs" bs] w(4) by simp
  moreover have "mem_files (simulate_power_loss s') = (mem_files (simulate_power_loss s))(?p \<mapsto> (bs, bs))"
    using mem.crash_law [OF w(2)] mem.crash_law [OF assms(1)] w(4) by (auto simp: fun_eq_iff)
  then have "mst_load memory_storage (simulate_power_loss s') = (Inr (Some self'), simulate_power_loss s')"
    using load [of "simulate_power_loss s'", OF _ _ assms(5,7), of "length bs" bs] mem.crash_law [OF w(2)] w(3) by simp
  ultimately show ?thesis using load [OF _ _ assms(4,6)] by blast
qed

theorem manifest_store_commit_witness:
  "\<exists>self s self' s'. mst_create memory_storage (replicate 16 0) 5 mem_new = (Inr self, s)
     \<and> mst_commit memory_storage (manifest_new (replicate 16 0) 0) 7 (self, s) = (Inr (), (self', s'))
     \<and> mst_load memory_storage (simulate_power_loss s') = (Inr (Some self'), simulate_power_loss s')
     \<and> m_sequence (mst_current self') = 2"
proof -
  let ?m = "manifest_new (replicate 16 0) 5" and ?st = "memory_storage"
  let ?b = "\<lparr>mst_current = ?m, mst_slot = SlotB\<rparr>" and ?a = "\<lparr>mst_current = ?m, mst_slot = SlotA\<rparr>"
  let ?n = "manifest_new (replicate 16 0) 0"
  let ?m' = "mst_next ?a ?n 7" and ?a' = "\<lparr>mst_current = mst_next ?a ?n 7, mst_slot = SlotB\<rparr>"
  let ?bs = "encode_block Manifest (manifest_payload ?m)" and ?bs' = "encode_block Manifest (manifest_payload ?m')"
  have wf: "manifest_wf ?m" "manifest_wf ?m'" by (simp_all add: manifest_wf_def manifest_new_def mst_next_def)
  have e: "manifest_encode ?m = Inr ?bs" "manifest_encode ?m' = Inr ?bs'"
    by (simp_all add: manifest_encode_iff manifest_validate_iff manifest_new_def mst_next_def)
  have l: "length ?bs = 85" "length ?bs' = 85"
    by (simp_all add: encode_block_eq manifest_payload_def counted_bytes_def manifest_new_def mst_next_def varint_bytes.simps)
  have root: "is_dir mem_new path_root" "\<not> is_dir mem_new (slot_path k)" "mem_files mem_new q = None" for k q
    by (cases k; auto simp: is_dir_def mem_files_def get_entry_def mem_new_def path_root_def slot_path_def)+
  have lt: "(85 :: nat) < 2 ^ 64" by simp
  obtain s where w: "mst_write ?st ?m (?b, mem_new) = (Inr (), (?a, s))" "mem_good s" "is_dir s = is_dir mem_new"
    "mem_files s = (mem_files mem_new)(slot_path SlotA \<mapsto> (?bs, ?bs))"
    using mem.mst_write_files [OF mem_good_new root(2) root(1) e(1), of ?b, simplified manifest_store.select_convs slot_other.simps]
      l(1) lt by metis
  have f: "mem_files s = Map.empty(slot_path SlotA \<mapsto> (?bs, ?bs))" using w(4) root(3) by (auto simp: fun_eq_iff)
  then have c: "mem_files (simulate_power_loss s) = Map.empty(slot_path SlotA \<mapsto> (?bs, ?bs))"
    using mem.crash_law [OF w(2)] by (auto simp: fun_eq_iff)
  have "examine (Some ?bs) = Valid ?m"
    using manifest_decode_encode [OF wf(1) e(1), of "[]"] l by (simp add: examine_eq_Valid)
  then have "ss_chosen (scan_slots (Some ?bs) None) = Some (SlotA, ?m)"
    by (simp add: scan_slots_def Let_def) (simp add: examine_def)
  moreover have "?bs \<noteq> []" using l(1) by force
  ultimately have ag: "store_agrees (Map.empty(slot_path SlotA \<mapsto> (?bs, ?bs))) ?a"
    by (simp add: store_agrees_def slot_content_def)
  have sm: "slots_small (Map.empty(slot_path SlotA \<mapsto> (?bs, ?bs)))" using l(1) by (simp add: slots_small_def)
  have d: "is_dir s path_root" "\<forall>k. \<not> is_dir s (slot_path k)" using w(3) root by simp_all
  have q: "m_sequence (mst_current ?a) \<noteq> - 1" by (simp add: manifest_new_def)
  have "length ?bs' < 2 ^ 64" "?a' = \<lparr>mst_current = ?m', mst_slot = slot_other (mst_slot ?a)\<rparr>" using l(2) by simp_all
  from manifest_store_commit [OF w(2) d, of ?a, unfolded f c, OF sm sm ag ag refl wf(2) e(2) this(1) q this(2)]
  obtain s' where "mst_commit ?st ?n 7 (?a, s) = (Inr (), (?a', s'))"
    "mst_load ?st (simulate_power_loss s') = (Inr (Some ?a'), simulate_power_loss s')" by blast
  moreover have "mst_create ?st (replicate 16 0) 5 mem_new = (Inr ?a, s)" using w(1) by (simp add: mst_create_def Let_def)
  moreover have "m_sequence (mst_current ?a') = 2" by (simp add: mst_next_def manifest_new_def sat_add_def)
  ultimately show ?thesis by blast
qed

end
