(* ===== verification/Collection.thy ===== *)
theory Collection
  imports Api_Types Manifest_Store
begin

text \<open>
  The collection handle (\<open>core/src/api/collection.rs\<close>) and the shared state behind every handle
  (\<open>DbInner\<close> of \<open>core/src/api/database.rs\<close>).  An operation runs on the collection's state, the
  shared state and the backend; on an error whatever it changed before stays changed.
\<close>

subsection \<open>The shared state\<close>

text \<open>
  The floating-point division and conversions the ratios use; \<open>nat_to_f64\<close> converts to \<open>f64\<close>.
  \<open>en_display\<close> is the text of an error, which is kept in one message only.
\<close>

record ratios =
  ra_div64 :: "u64 \<Rightarrow> u64 \<Rightarrow> u64"
  ra_widen :: "u32 \<Rightarrow> u64"
  ra_of_u64 :: "u64 \<Rightarrow> u32"
  ra_div32 :: "u32 \<Rightarrow> u32 \<Rightarrow> u32"

record ('s, 'h, 'i) engine =
  en_storage :: "('s, 'h) storage"
  en_index :: "('i, 's) vector_index"
  en_config :: database_config
  en_floats :: fops
  en_ratios :: ratios
  en_display :: "db_error \<Rightarrow> rust_string"

text \<open>\<open>'i\<close> is the state the index keeps, \<open>'h\<close> the backend's file handles.\<close>

record 'i db_shared =
  ds_manifest :: manifest_store
  ds_closed :: bool
  ds_index :: 'i

definition check_open :: "('i db_shared \<times> 's, unit) io" where
  "check_open =
     io_bind io_self (\<lambda>d. if ds_closed d then io_err (Lifecycle DatabaseClosed) else io_ok ())"

definition check_writable :: "('s, 'h, 'i) engine \<Rightarrow> string \<Rightarrow> ('i db_shared \<times> 's, unit) io" where
  "check_writable E operation =
     io_bind check_open (\<lambda>_.
     if dcf_read_only (en_config E) then io_err (Lifecycle (ReadOnly operation)) else io_ok ())"

text \<open>Run an operation of the manifest store under its lock.\<close>

definition in_manifest :: "(manifest_store \<times> 's, 'a) io \<Rightarrow> ('i db_shared \<times> 's, 'a) io" where
  "in_manifest m = (\<lambda>(d, s). case m (ds_manifest d, s) of (r, (ms, s)) \<Rightarrow> (r, (d\<lparr>ds_manifest := ms\<rparr>, s)))"

fun put_entry :: "collection_entry \<Rightarrow> collection_entry list \<Rightarrow> collection_entry list" where
  "put_entry entry [] = [entry]"
| "put_entry entry (c # cs) = (if ce_name c = ce_name entry then entry # cs else c # put_entry entry cs)"

definition commit_collection ::
  "('s, 'h, 'i) engine \<Rightarrow> u64 \<Rightarrow> collection_entry \<Rightarrow> ('i db_shared \<times> 's, unit) io" where
  "commit_collection E now_ms entry =
     io_bind io_self (\<lambda>d.
     let manifest = mst_current (ds_manifest d) in
     in_manifest (mst_commit (en_storage E) (manifest\<lparr>m_collections := put_entry entry (m_collections manifest)\<rparr>) now_ms))"

definition manifest_snapshot :: "('i db_shared \<times> 's, manifest) io" where
  "manifest_snapshot = io_bind io_self (\<lambda>d. io_ok (mst_current (ds_manifest d)))"

subsection \<open>The collection's state\<close>

record 'h coll_state =
  cs_memtable :: memtable
  cs_segments :: "segment_data list"
  cs_wal :: "'h wal_writer"
  cs_next_segment_id :: u64
  cs_next_txn_hint :: u64

record 'h coll_inner =
  ci_catalog :: catalog
  ci_state :: "'h coll_state"

type_synonym ('h, 'i, 's) world = "'h coll_state \<times> 'i db_shared \<times> 's"

definition in_storage :: "('s, 'a) io \<Rightarrow> (('h, 'i, 's) world, 'a) io" where
  "in_storage m = io_snd (io_snd m)"

definition in_wal :: "('h wal_writer \<times> 's, 'a) io \<Rightarrow> (('h, 'i, 's) world, 'a) io" where
  "in_wal m = (\<lambda>(c, d, s). case m (cs_wal c, s) of (r, (w, s)) \<Rightarrow> (r, (c\<lparr>cs_wal := w\<rparr>, d, s)))"

definition in_segment :: "nat \<Rightarrow> (segment_data \<times> 's, 'a) io \<Rightarrow> (('h, 'i, 's) world, 'a) io" where
  "in_segment i m = (\<lambda>(c, d, s). case m (cs_segments c ! i, s) of
     (r, (seg, s)) \<Rightarrow> (r, (c\<lparr>cs_segments := (cs_segments c)[i := seg]\<rparr>, d, s)))"

definition coll_open ::
  "('s, 'h, 'i) engine \<Rightarrow> catalog \<Rightarrow> collection_entry \<Rightarrow> ('s, 'h coll_inner) io" where
  "coll_open E cat entry =
     (let st = en_storage E; name = cat_name cat; referenced = map sr_id (ce_segments entry);
          read_only = dcf_read_only (en_config E) in
      io_bind (if read_only then io_ok ()
               else io_bind (list_segment_ids st name) (\<lambda>ids.
                 io_fold (\<lambda>segid _. if segid \<in> set referenced then io_ok () else remove_segment st name segid) ids ())) (\<lambda>_.
      io_bind (io_fold (\<lambda>seg_ref segs. io_bind (sd_open st cat seg_ref) (\<lambda>seg. io_ok (segs @ [seg]))) (ce_segments entry) []) (\<lambda>segments.
      io_bind (io_of (wal_file name 1)) (\<lambda>wal_path.
      io_bind (replay_into (fo_fpu (en_floats E)) st wal_path (cat_id_kind cat) (mt_new (cat_dimension cat) F32)) (\<lambda>(report, memtable).
      io_bind (if rr_truncated_tail report \<and> \<not> read_only then truncate_tail st wal_path (rr_valid_bytes report) else io_ok ()) (\<lambda>_.
      io_bind (ww_open st wal_path (sat_add (rr_last_sequence report) 1) (dcf_durability (en_config E))) (\<lambda>wal.
      io_ok \<lparr>ci_catalog = cat, ci_state = \<lparr>cs_memtable = memtable, cs_segments = segments, cs_wal = wal,
        cs_next_segment_id = fold max referenced 0 + 1, cs_next_txn_hint = 1\<rparr>\<rparr>)))))))"

subsection \<open>Where a document lives\<close>

datatype located = InMemtable | InSegment nat u32

definition live_row_of :: "segment_data \<Rightarrow> doc_id \<Rightarrow> u32 option" where
  "live_row_of seg docid =
     (case sd_row_of seg docid of Some row \<Rightarrow> if sd_is_live seg row then Some row else None | None \<Rightarrow> None)"

fun locate_in :: "(nat \<times> segment_data) list \<Rightarrow> doc_id \<Rightarrow> located option" where
  "locate_in [] docid = None"
| "locate_in ((i, seg) # segs) docid =
     (case live_row_of seg docid of Some row \<Rightarrow> Some (InSegment i row) | None \<Rightarrow> locate_in segs docid)"

definition locate_doc :: "'h coll_state \<Rightarrow> doc_id \<Rightarrow> located option" where
  "locate_doc c docid =
     (case mt_get (cs_memtable c) docid of
        Some LookupDeleted \<Rightarrow> None
      | Some (Present _) \<Rightarrow> Some InMemtable
      | None \<Rightarrow> locate_in (rev (List.enumerate 0 (cs_segments c))) docid)"

definition segment_has_live :: "'h coll_state \<Rightarrow> doc_id \<Rightarrow> bool" where
  "segment_has_live c docid = list_ex (\<lambda>seg. live_row_of seg docid \<noteq> None) (cs_segments c)"

definition live_on_disk :: "segment_data list \<Rightarrow> u64" where
  "live_on_disk segs = sum_list (map (\<lambda>seg. ucast (sd_live_count seg)) segs)"

definition coll_live_count :: "'h coll_state \<Rightarrow> u64" where
  "coll_live_count c =
     (let shadowed = length (filter (\<lambda>row. segment_has_live c (mw_id row)) (mt_live_rows (cs_memtable c)));
          hidden = length (filter (segment_has_live c) (mt_deleted_ids (cs_memtable c))) in
      live_on_disk (cs_segments c) + u64_of (mt_len (cs_memtable c)) - u64_of shadowed - u64_of hidden)"

subsection \<open>Flush\<close>

text \<open>Kill the rows of the given ids, and say whether any row was live.\<close>

definition kill_ids :: "doc_id list \<Rightarrow> segment_data \<Rightarrow> segment_data \<times> bool" where
  "kill_ids ids seg = fold (\<lambda>docid (seg, changed).
     case sd_row_of seg docid of
       Some row \<Rightarrow> (case sd_kill row seg of (seg, killed) \<Rightarrow> (seg, changed \<or> killed))
     | None \<Rightarrow> (seg, changed)) ids (seg, False)"

definition segment_reference :: "segment_data \<Rightarrow> segment_ref" where
  "segment_reference seg = \<lparr>sr_id = sd_id seg, sr_rows = sd_rows seg, sr_del_generation = ts_generation (sd_tombstones seg)\<rparr>"

definition supersede_segment ::
  "('s, 'h, 'i) engine \<Rightarrow> catalog \<Rightarrow> doc_id list \<Rightarrow> nat \<Rightarrow> segment_ref list \<Rightarrow> (('h, 'i, 's) world, segment_ref list) io" where
  "supersede_segment E cat ids i refs =
     io_bind (in_segment i (\<lambda>(seg, s). case kill_ids ids seg of (seg, changed) \<Rightarrow> (Inr changed, (seg, s)))) (\<lambda>changed.
     io_bind (if changed then io_bind (in_segment i (sd_persist_tombstones (en_storage E) (cat_name cat))) (\<lambda>_. io_ok ())
              else io_ok ()) (\<lambda>_.
     io_bind io_self (\<lambda>c. io_ok (refs @ [segment_reference (cs_segments c ! i)]))))"

text \<open>The new segment joins the list, or its empty files go.\<close>

definition adopt_segment ::
  "('s, 'h, 'i) engine \<Rightarrow> catalog \<Rightarrow> segment_ref \<Rightarrow> segment_ref list \<Rightarrow> (('h, 'i, 's) world, segment_ref list) io" where
  "adopt_segment E cat written refs =
     (if sr_rows written > 0
      then io_bind (in_storage (sd_open (en_storage E) cat written)) (\<lambda>opened.
           io_bind (io_modify (\<lambda>c. c\<lparr>cs_segments := cs_segments c @ [opened]\<rparr>)) (\<lambda>_.
           io_ok (refs @ [written])))
      else io_bind (in_storage (remove_segment (en_storage E) (cat_name cat) (sr_id written))) (\<lambda>_. io_ok refs))"

text \<open>The log is emptied and reopened once the segment is committed.\<close>

definition checkpoint_wal :: "('s, 'h, 'i) engine \<Rightarrow> catalog \<Rightarrow> u64 \<Rightarrow> (('h, 'i, 's) world, unit) io" where
  "checkpoint_wal E cat segment_id =
     (let st = en_storage E in
      io_bind (io_of (wal_file (cat_name cat) 1)) (\<lambda>wal_path.
      io_bind (in_storage (st_open_file st wal_path OpenReadWrite)) (\<lambda>file.
      io_bind (in_storage (f_truncate st file 0)) (\<lambda>_.
      io_bind (in_storage (f_sync_data st file)) (\<lambda>_.
      io_bind (io_modify (\<lambda>c. c\<lparr>cs_memtable := mt_clear (cs_memtable c), cs_next_segment_id := segment_id + 1\<rparr>)) (\<lambda>_.
      io_bind io_self (\<lambda>c.
      io_bind (in_storage (ww_open st wal_path (ww_next_sequence (cs_wal c)) (dcf_durability (en_config E)))) (\<lambda>wal.
      io_modify (\<lambda>c. c\<lparr>cs_wal := wal\<rparr>)))))))))"

definition flushed_entry :: "catalog \<Rightarrow> 'h coll_state \<Rightarrow> segment_ref list \<Rightarrow> collection_entry" where
  "flushed_entry cat c refs =
     \<lparr>ce_name = cat_name cat, ce_segments = refs, ce_index_snapshot = None,
      ce_last_applied_wal = ww_next_sequence (cs_wal c), ce_live_count = live_on_disk (cs_segments c),
      ce_total_rows = sum_list (map (\<lambda>r. ucast (sr_rows r)) refs)\<rparr>"

definition do_flush :: "('s, 'h, 'i) engine \<Rightarrow> catalog \<Rightarrow> u64 \<Rightarrow> (('h, 'i, 's) world, unit) io" where
  "do_flush E cat now_ms =
     io_bind io_self (\<lambda>c.
     let segment_id = cs_next_segment_id c in
     if mt_is_empty (cs_memtable c) then io_ok ()
     else
       io_bind (in_storage (flush_memtable (en_storage E) cat segment_id (cs_memtable c))) (\<lambda>result.
       let superseded = map mw_id (mt_live_rows (cs_memtable c)); doomed = fr_pending result in
       io_bind (io_fold (supersede_segment E cat (superseded @ doomed)) [0..<length (cs_segments c)] []) (\<lambda>refs.
       io_bind (adopt_segment E cat (fr_segment result) refs) (\<lambda>refs.
       io_bind io_self (\<lambda>c.
       io_bind (io_snd (commit_collection E now_ms (flushed_entry cat c refs))) (\<lambda>_.
       checkpoint_wal E cat segment_id))))))"

definition maybe_flush :: "('s, 'h, 'i) engine \<Rightarrow> catalog \<Rightarrow> u64 \<Rightarrow> (('h, 'i, 's) world, unit) io" where
  "maybe_flush E cat now_ms =
     io_bind io_self (\<lambda>c.
     if mt_byte_size (cs_memtable c) \<ge> dcf_flush_threshold_bytes (en_config E) then do_flush E cat now_ms else io_ok ())"

definition coll_flush :: "('s, 'h, 'i) engine \<Rightarrow> catalog \<Rightarrow> u64 \<Rightarrow> (('h, 'i, 's) world, unit) io" where
  "coll_flush E cat now_ms =
     io_bind (io_snd check_open) (\<lambda>_.
     if dcf_read_only (en_config E) then io_ok () else do_flush E cat now_ms)"

subsection \<open>Writes\<close>

text \<open>An assignment from a fallible computation on the collection's state.\<close>

definition io_update :: "('w \<Rightarrow> 'w db_result) \<Rightarrow> ('w \<times> 's, unit) io" where
  "io_update f = io_bind io_self (\<lambda>w. io_bind (io_of (f w)) (\<lambda>w'. io_modify (\<lambda>_. w')))"

definition id_display :: "doc_id \<Rightarrow> rust_string" where
  "id_display docid = (case docid of DocStr s \<Rightarrow> s | DocU64 v \<Rightarrow> decimal (unat v))"

definition apply_put :: "('s, 'h, 'i) engine \<Rightarrow> document_input \<Rightarrow> (('h, 'i, 's) world, unit) io" where
  "apply_put E doc =
     io_bind (io_of (case di_metadata doc of Some m \<Rightarrow> meta_encode m | None \<Rightarrow> Inr [])) (\<lambda>md.
     io_bind (in_wal (ww_append (en_storage E) (Put (id_to_bytes (di_id doc)) (view_bytes (di_vector doc)) md (di_content doc)))) (\<lambda>_.
     io_update (\<lambda>c.
       rbind (mt_put_view (fo_fpu (en_floats E)) (di_id doc) (di_vector doc) (di_metadata doc) (di_content doc) (cs_memtable c)) (\<lambda>(_, m).
       Inr (c\<lparr>cs_memtable := m\<rparr>)))))"

definition coll_validate :: "catalog \<Rightarrow> document_input \<Rightarrow> unit db_result" where
  "coll_validate cat doc = doc_validate doc (cat_name cat) (cat_dimension cat) (cat_id_kind cat)"

definition coll_insert ::
  "('s, 'h, 'i) engine \<Rightarrow> catalog \<Rightarrow> u64 \<Rightarrow> document_input \<Rightarrow> (('h, 'i, 's) world, unit) io" where
  "coll_insert E cat now_ms doc =
     io_bind (io_snd (check_writable E ''insert'')) (\<lambda>_.
     io_bind (io_of (coll_validate cat doc)) (\<lambda>_.
     io_bind io_self (\<lambda>c.
     if locate_doc c (di_id doc) \<noteq> None
     then io_err (Conflict (DuplicateId (cat_name cat) (id_display (di_id doc))))
     else io_bind (apply_put E doc) (\<lambda>_. maybe_flush E cat now_ms))))"

datatype upsert_outcome = Inserted | Updated

definition coll_upsert ::
  "('s, 'h, 'i) engine \<Rightarrow> catalog \<Rightarrow> u64 \<Rightarrow> document_input \<Rightarrow> (('h, 'i, 's) world, upsert_outcome) io" where
  "coll_upsert E cat now_ms doc =
     io_bind (io_snd (check_writable E ''upsert'')) (\<lambda>_.
     io_bind (io_of (coll_validate cat doc)) (\<lambda>_.
     io_bind io_self (\<lambda>c.
     let existed = locate_doc c (di_id doc) \<noteq> None in
     io_bind (apply_put E doc) (\<lambda>_.
     io_bind (maybe_flush E cat now_ms) (\<lambda>_.
     io_ok (if existed then Updated else Inserted))))))"

definition coll_delete ::
  "('s, 'h, 'i) engine \<Rightarrow> catalog \<Rightarrow> u64 \<Rightarrow> doc_id \<Rightarrow> (('h, 'i, 's) world, bool) io" where
  "coll_delete E cat now_ms docid =
     io_bind (io_snd (check_writable E ''delete'')) (\<lambda>_.
     io_bind io_self (\<lambda>c.
     let existed = locate_doc c docid \<noteq> None in
     io_bind (in_wal (ww_append (en_storage E) (Delete (id_to_bytes docid)))) (\<lambda>_.
     io_bind (io_modify (\<lambda>c. c\<lparr>cs_memtable := fst (mt_delete docid (cs_memtable c))\<rparr>)) (\<lambda>_.
     io_bind (maybe_flush E cat now_ms) (\<lambda>_.
     io_ok existed)))))"

definition validate_op :: "catalog \<Rightarrow> batch_op \<Rightarrow> unit db_result" where
  "validate_op cat p =
     (case p of
        BatchUpsert docid vector md content \<Rightarrow>
          rbind (id_validate docid (cat_id_kind cat)) (\<lambda>_.
          rbind (view_raw F32 vector (cat_dimension cat)) (\<lambda>view.
          rbind (view_validate view (cat_name cat) (cat_dimension cat)) (\<lambda>_.
          case md of Some m \<Rightarrow> meta_validate m | None \<Rightarrow> Inr ())))
      | BatchDelete docid \<Rightarrow> id_validate docid (cat_id_kind cat))"

definition validate_ops :: "catalog \<Rightarrow> write_batch \<Rightarrow> unit db_result" where
  "validate_ops cat ops =
     try_fold (\<lambda>(i, p) _. map_err (\<lambda>e. Transaction (Aborted i (length ops) e)) (validate_op cat p)) (List.enumerate 0 ops) ()"

definition log_op :: "'h coll_state \<Rightarrow> batch_op \<Rightarrow> batch_report \<times> wal_op list \<Rightarrow> (batch_report \<times> wal_op list) db_result" where
  "log_op c p = (\<lambda>(report, wal_ops).
     let existed = locate_doc c (bop_id p) \<noteq> None in
     case p of
       BatchUpsert docid vector md content \<Rightarrow>
         let report = (if existed then report\<lparr>br_updated := br_updated report + 1\<rparr>
                       else report\<lparr>br_inserted := br_inserted report + 1\<rparr>) in
         rbind (case md of Some m \<Rightarrow> meta_encode m | None \<Rightarrow> Inr []) (\<lambda>md.
         Inr (report, wal_ops @ [Put (id_to_bytes docid) vector md content]))
     | BatchDelete docid \<Rightarrow>
         let report = (if existed then report\<lparr>br_deleted := br_deleted report + 1\<rparr>
                       else report\<lparr>br_missing_deletes := br_missing_deletes report + 1\<rparr>) in
         Inr (report, wal_ops @ [Delete (id_to_bytes docid)]))"

definition apply_op :: "('s, 'h, 'i) engine \<Rightarrow> batch_op \<Rightarrow> unit \<Rightarrow> (('h, 'i, 's) world, unit) io" where
  "apply_op E p _ = io_update (\<lambda>c.
     case p of
       BatchUpsert docid vector md content \<Rightarrow>
         rbind (mt_put_bytes (fo_fpu (en_floats E)) docid vector md content (cs_memtable c)) (\<lambda>(_, m).
         Inr (c\<lparr>cs_memtable := m\<rparr>))
     | BatchDelete docid \<Rightarrow> Inr (c\<lparr>cs_memtable := fst (mt_delete docid (cs_memtable c))\<rparr>))"

definition coll_write_batch ::
  "('s, 'h, 'i) engine \<Rightarrow> catalog \<Rightarrow> u64 \<Rightarrow> write_batch \<Rightarrow> (('h, 'i, 's) world, batch_report) io" where
  "coll_write_batch E cat now_ms ops =
     io_bind (io_snd (check_writable E ''write a batch'')) (\<lambda>_.
     io_bind (io_of (wb_validate ops)) (\<lambda>_.
     if ops = [] then io_ok br_default
     else
       io_bind (io_of (validate_ops cat ops)) (\<lambda>_.
       io_bind io_self (\<lambda>c.
       io_bind (io_of (try_fold (log_op c) ops (br_default, []))) (\<lambda>(report, wal_ops).
       io_bind (in_wal (ww_append_group (en_storage E) wal_ops)) (\<lambda>txn.
       io_bind (io_modify (\<lambda>c. c\<lparr>cs_next_txn_hint := sat_add txn 1\<rparr>)) (\<lambda>_.
       io_bind (io_fold (apply_op E) ops ()) (\<lambda>_.
       io_bind (maybe_flush E cat now_ms) (\<lambda>_.
       io_ok report)))))))))"

end
