(* ===== verification/Collection_Query.thy ===== *)
theory Collection_Query
  imports Collection
begin

text \<open>
  Reads and searches of a collection (\<open>core/src/api/collection.rs\<close>): point lookups, the scannable
  sequence an index sees, and the search that uses it.
\<close>

subsection \<open>Point lookups\<close>

abbreviation map_ok :: "('a \<Rightarrow> 'b) \<Rightarrow> 'e + 'a \<Rightarrow> 'e + 'b" where
  "map_ok f m \<equiv> rbind m (\<lambda>a. Inr (f a))"

text \<open>A buffered row as a document, and a document wherever it lives.\<close>

definition memtable_document :: "memtable \<Rightarrow> u32 \<Rightarrow> mem_row \<Rightarrow> include_parts \<Rightarrow> document db_result" where
  "memtable_document m dimension row inc =
     rbind (if inc_vector inc
            then rbind (ok_or (mt_vector_bytes m row) (Internal (ascii ''memtable row lost its vector''))) (\<lambda>bs.
                 rbind (view_raw F32 bs dimension) (\<lambda>view. Inr (Some (view_f32 view))))
            else Inr None) (\<lambda>vector.
     Inr \<lparr>dc_id = mw_id row, dc_vector = vector,
          dc_metadata = (if inc_metadata inc then (case mw_metadata row of Some md \<Rightarrow> md | None \<Rightarrow> []) else []),
          dc_content = (if inc_content inc then mw_content row else None)\<rparr>)"

definition document_of :: "catalog \<Rightarrow> 'h coll_state \<Rightarrow> doc_id \<Rightarrow> include_parts \<Rightarrow> document option db_result" where
  "document_of cat c docid inc =
     (case locate_doc c docid of
        None \<Rightarrow> Inr None
      | Some InMemtable \<Rightarrow>
          (case mt_get (cs_memtable c) docid of
             Some (Present row) \<Rightarrow> map_ok Some (memtable_document (cs_memtable c) (cat_dimension cat) row inc)
           | _ \<Rightarrow> Inr None)
      | Some (InSegment i row) \<Rightarrow>
          if i < length (cs_segments c) then sd_document (cs_segments c ! i) row inc else Inr None)"

definition coll_get_with :: "catalog \<Rightarrow> doc_id \<Rightarrow> include_parts \<Rightarrow> (('h, 'i, 's) world, document option) io" where
  "coll_get_with cat docid inc =
     io_bind (io_snd check_open) (\<lambda>_. io_bind io_self (\<lambda>c. io_of (document_of cat c docid inc)))"

definition coll_get :: "catalog \<Rightarrow> doc_id \<Rightarrow> (('h, 'i, 's) world, document option) io" where
  "coll_get cat docid = coll_get_with cat docid include_default"

definition coll_contains :: "doc_id \<Rightarrow> (('h, 'i, 's) world, bool) io" where
  "coll_contains docid =
     io_bind (io_snd check_open) (\<lambda>_. io_bind io_self (\<lambda>c. io_ok (locate_doc c docid \<noteq> None)))"

definition coll_require :: "catalog \<Rightarrow> doc_id \<Rightarrow> (('h, 'i, 's) world, document) io" where
  "coll_require cat docid =
     io_bind (coll_get cat docid) (\<lambda>found.
     io_of (ok_or found (NotFound (DocumentNotFound (cat_name cat) (id_display docid)))))"

definition coll_count :: "(('h, 'i, 's) world, u64) io" where
  "coll_count = io_bind (io_snd check_open) (\<lambda>_. io_bind io_self (\<lambda>c. io_ok (coll_live_count c)))"

text \<open>The rows of a segment the memtable does not supersede.\<close>

definition shadowed :: "'h coll_state \<Rightarrow> doc_id option \<Rightarrow> bool" where
  "shadowed c docid = (case docid of Some docid \<Rightarrow> mt_get (cs_memtable c) docid \<noteq> None | None \<Rightarrow> False)"

definition visible_row :: "'h coll_state \<Rightarrow> segment_data \<Rightarrow> u32 \<Rightarrow> bool" where
  "visible_row c seg row \<longleftrightarrow> sd_is_live seg row \<and> \<not> shadowed c (sd_id_at seg row)"

definition all_rows :: "segment_data \<Rightarrow> u32 list" where
  "all_rows seg = map of_nat [0..<unat (sd_rows seg)]"

definition live_id :: "'h coll_state \<Rightarrow> segment_data \<Rightarrow> u32 \<Rightarrow> doc_id option" where
  "live_id c seg row =
     (if \<not> sd_is_live seg row then None
      else case sd_id_at seg row of
        Some docid \<Rightarrow> if mt_get (cs_memtable c) docid = None then Some docid else None
      | None \<Rightarrow> None)"

definition ids_of :: "'h coll_state \<Rightarrow> doc_id list" where
  "ids_of c =
     (let on_disk = concat (map (\<lambda>seg. List.map_filter (live_id c seg) (all_rows seg)) (cs_segments c));
          buffered = map mw_id (mt_live_rows (cs_memtable c)) in
      remdups_adj (sort (on_disk @ buffered)))"

definition coll_ids :: "(('h, 'i, 's) world, doc_id list) io" where
  "coll_ids = io_bind (io_snd check_open) (\<lambda>_. io_bind io_self (\<lambda>c. io_ok (ids_of c)))"

subsection \<open>One scannable sequence\<close>

definition MEMTABLE_SEGMENT :: u32 where
  "MEMTABLE_SEGMENT = - 1"

record 'h coll_source =
  src_state :: "'h coll_state"
  src_dimension :: u32
  src_blocks :: "vector_block list"
  src_memtable_rows :: "mem_row list"
  src_len :: nat

definition source_build :: "'h coll_state \<Rightarrow> u32 \<Rightarrow> 'h coll_source db_result" where
  "source_build c dimension =
     rbind (try_fold (\<lambda>seg blocks. rbind (sd_vectors seg) (\<lambda>b. Inr (blocks @ [b]))) (cs_segments c) []) (\<lambda>blocks.
     let memtable_rows = mt_live_rows (cs_memtable c) in
     Inr \<lparr>src_state = c, src_dimension = dimension, src_blocks = blocks, src_memtable_rows = memtable_rows,
          src_len = length memtable_rows
            + sum_list (map (\<lambda>seg. length (filter (visible_row c seg) (all_rows seg))) (cs_segments c))\<rparr>)"

definition source_segment :: "'h coll_source \<Rightarrow> row_id \<Rightarrow> segment_data option" where
  "source_segment src row =
     (let i = unat (row_id_segment row); segs = cs_segments (src_state src) in
      if i < length segs then Some (segs ! i) else None)"

definition source_memtable_row :: "'h coll_source \<Rightarrow> row_id \<Rightarrow> mem_row option" where
  "source_memtable_row src row =
     (let i = unat (row_id_row row) in if i < length (src_memtable_rows src) then Some (src_memtable_rows src ! i) else None)"

definition memtable_metadata :: "'h coll_source \<Rightarrow> row_id \<Rightarrow> metadata option" where
  "memtable_metadata src row = Option.bind (source_memtable_row src row) mw_metadata"

definition segment_metadata_bytes :: "'h coll_source \<Rightarrow> row_id \<Rightarrow> bytes option db_result" where
  "segment_metadata_bytes src row =
     (case source_segment src row of Some seg \<Rightarrow> sd_metadata_bytes seg (row_id_row row) | None \<Rightarrow> Inr None)"

definition source_doc_id :: "'h coll_source \<Rightarrow> row_id \<Rightarrow> doc_id option" where
  "source_doc_id src row =
     (if row_id_segment row = MEMTABLE_SEGMENT then map_option mw_id (source_memtable_row src row)
      else Option.bind (source_segment src row) (\<lambda>seg. sd_id_at seg (row_id_row row)))"

definition source_document :: "'h coll_source \<Rightarrow> row_id \<Rightarrow> include_parts \<Rightarrow> document option db_result" where
  "source_document src row inc =
     (if row_id_segment row = MEMTABLE_SEGMENT
      then (case source_memtable_row src row of
              None \<Rightarrow> Inr None
            | Some mem \<Rightarrow> map_ok Some (memtable_document (cs_memtable (src_state src)) (src_dimension src) mem inc))
      else (case source_segment src row of
              Some seg \<Rightarrow> sd_document seg (row_id_row row) inc
            | None \<Rightarrow> Inr None))"

definition segment_visit :: "'h coll_state \<Rightarrow> nat \<Rightarrow> segment_data \<Rightarrow> vector_block \<Rightarrow> u32 \<Rightarrow> visited_row option" where
  "segment_visit c i seg block row =
     (if \<not> visible_row c seg row then None
      else case (vb_row block row, sd_inv_norm seg row) of
        (Some bs, Some norm) \<Rightarrow> Some (row_id_new (of_nat i) row, bs, norm)
      | _ \<Rightarrow> None)"

definition memtable_visit :: "'h coll_state \<Rightarrow> nat \<Rightarrow> mem_row \<Rightarrow> visited_row option" where
  "memtable_visit c i mem =
     (case mt_vector_bytes (cs_memtable c) mem of
        Some bs \<Rightarrow> Some (row_id_new MEMTABLE_SEGMENT (of_nat i), bs, mw_inv_norm mem)
      | None \<Rightarrow> None)"

definition source_rows :: "'h coll_source \<Rightarrow> visited_row list" where
  "source_rows src =
     concat (map (\<lambda>(i, seg). if i < length (src_blocks src)
         then List.map_filter (segment_visit (src_state src) i seg (src_blocks src ! i)) (all_rows seg) else [])
       (List.enumerate 0 (cs_segments (src_state src))))
     @ List.map_filter (\<lambda>(i, mem). memtable_visit (src_state src) i mem) (List.enumerate 0 (src_memtable_rows src))"

definition source_vector :: "'h coll_source \<Rightarrow> row_id \<Rightarrow> (bytes \<times> u32) option" where
  "source_vector src row =
     (if row_id_segment row = MEMTABLE_SEGMENT
      then Option.bind (source_memtable_row src row) (\<lambda>mem.
           Option.bind (mt_vector_bytes (cs_memtable (src_state src)) mem) (\<lambda>bs. Some (bs, mw_inv_norm mem)))
      else Option.bind (source_segment src row) (\<lambda>seg.
           if unat (row_id_segment row) < length (src_blocks src)
           then Option.bind (vb_row (src_blocks src ! unat (row_id_segment row)) (row_id_row row)) (\<lambda>bs.
                Option.bind (sd_inv_norm seg (row_id_row row)) (\<lambda>norm. Some (bs, norm)))
           else None))"

definition source_is_live :: "'h coll_source \<Rightarrow> row_id \<Rightarrow> bool" where
  "source_is_live src row =
     (if row_id_segment row = MEMTABLE_SEGMENT then unat (row_id_row row) < length (src_memtable_rows src)
      else case source_segment src row of Some seg \<Rightarrow> sd_is_live seg (row_id_row row) | None \<Rightarrow> False)"

definition source_view :: "'h coll_source \<Rightarrow> vector_source" where
  "source_view src = \<lparr>vs_dimension = src_dimension src, vs_len = src_len src, vs_rows = source_rows src,
     vs_vector = source_vector src\<rparr>"

text \<open>The compiled filter: buffered rows are decoded already, segment rows stay encoded.\<close>

definition compiled_matches :: "mfilter \<Rightarrow> 'h coll_source \<Rightarrow> row_id \<Rightarrow> bool db_result" where
  "compiled_matches f src row =
     (if row_id_segment row = MEMTABLE_SEGMENT
      then Inr (matches_fields f (case memtable_metadata src row of Some m \<Rightarrow> Decoded m | None \<Rightarrow> EmptyFields))
      else rbind (segment_metadata_bytes src row) (\<lambda>found.
           Inr (matches_fields f (case found of Some bs \<Rightarrow> Encoded bs | None \<Rightarrow> EmptyFields))))"

subsection \<open>Search\<close>

text \<open>A search runs with its budget beside the collection; the index keeps its state in the database.\<close>

definition in_prepare :: "('i \<times> 's, 'a) io \<Rightarrow> (budget \<times> ('h, 'i, 's) world, 'a) io" where
  "in_prepare m = (\<lambda>(b, c, d, s). case m (ds_index d, s) of (r, (i, s)) \<Rightarrow> (r, (b, c, d\<lparr>ds_index := i\<rparr>, s)))"

definition in_search :: "top_k \<Rightarrow> ('i \<times> budget \<times> top_k, unit) io \<Rightarrow> (budget \<times> ('h, 'i, 's) world, top_k) io" where
  "in_search found m = (\<lambda>(b, c, d, s). case m (ds_index d, b, found) of
     (r, (i, b, found)) \<Rightarrow> (map_ok (\<lambda>_. found) r, (b, c, d\<lparr>ds_index := i\<rparr>, s)))"

definition search_hit ::
  "fops \<Rightarrow> 'h coll_source \<Rightarrow> metric \<Rightarrow> include_parts \<Rightarrow> candidate \<Rightarrow> hit list \<Rightarrow> hit list db_result" where
  "search_hit A src m inc cand hits =
     (case source_doc_id src (c_row cand) of
        None \<Rightarrow> Inr hits
      | Some docid \<Rightarrow>
          rbind (if inc = include_none then Inr None else source_document src (c_row cand) inc) (\<lambda>doc.
          Inr (hits @ [\<lparr>hit_id = docid, hit_score = c_score cand,
            hit_distance = distance_from_score A m (c_score cand), hit_document = doc\<rparr>])))"

definition hit_order :: "hit \<Rightarrow> int \<times> doc_id" where
  "hit_order h = (- f32_key (hit_score h), hit_id h)"

definition search_context :: "search_request \<Rightarrow> metric \<Rightarrow> 'h coll_source \<Rightarrow> search_ctx" where
  "search_context rq m src =
     \<lparr>sc_query = view_f32 (rq_vector rq), sc_top_k = rq_top_k rq, sc_metric = m, sc_source = source_view src,
      sc_live = source_is_live src, sc_filter = map_option (\<lambda>f. compiled_matches f src) (rq_filter rq),
      sc_min_score = rq_min_score rq, sc_params = rq_params rq\<rparr>"

definition request_metric :: "catalog \<Rightarrow> search_request \<Rightarrow> metric" where
  "request_metric cat rq = (case rq_metric rq of Some m \<Rightarrow> m | None \<Rightarrow> cat_metric cat)"

definition coll_search_with_budget ::
  "('s, 'h, 'i) engine \<Rightarrow> catalog \<Rightarrow> search_request \<Rightarrow> (budget \<times> ('h, 'i, 's) world, search_response) io" where
  "coll_search_with_budget E cat rq =
     (let index = en_index E; m = request_metric cat rq in
      io_bind (io_snd (io_snd check_open)) (\<lambda>_.
      io_bind (io_of (check_top_k (rq_top_k rq))) (\<lambda>_.
      io_bind (io_of (view_check_dimension (rq_vector rq) (cat_name cat) (cat_dimension cat))) (\<lambda>_.
      io_bind (io_of (check_finite (rq_vector rq))) (\<lambda>_.
      io_bind (io_snd io_self) (\<lambda>c.
      io_bind (io_of (source_build c (cat_dimension cat))) (\<lambda>src.
      io_bind (io_of (case rq_filter rq of Some f \<Rightarrow> filter_validate f | None \<Rightarrow> Inr ())) (\<lambda>_.
      io_bind (in_prepare (vi_prepare index (source_view src) m
          (stored_snapshots (en_storage E) (cat_name cat) (kind_name (vi_kind index))))) (\<lambda>_.
      io_bind (in_search (with_min_score (rq_min_score rq) (topk_new (rq_top_k rq)))
          (vi_search index (search_context rq m src))) (\<lambda>found.
      io_bind (io_of (try_fold (search_hit (en_floats E) src m (rq_include rq)) (topk_into_sorted found) [])) (\<lambda>hits.
      io_bind io_self (\<lambda>budget.
      io_ok \<lparr>rsp_hits = sort_key hit_order hits,
             rsp_stats = \<lparr>ss_index_kind = vi_kind index, ss_exact = vi_is_exact index, ss_considered = tk_considered found,
               ss_scanned = bd_scanned budget,
               ss_skipped = u64_of (src_len src) - min (tk_considered found) (u64_of (src_len src))\<rparr>\<rparr>))))))))))))"

definition coll_search :: "('s, 'h, 'i) engine \<Rightarrow> catalog \<Rightarrow> search_request \<Rightarrow> (('h, 'i, 's) world, search_response) io" where
  "coll_search E cat rq = (\<lambda>w. case coll_search_with_budget E cat rq (bd_unlimited, w) of (r, (_, w)) \<Rightarrow> (r, w))"

end
