(* ===== verification/Segment_Flush.thy ===== *)
theory Segment_Flush
  imports Segment_Store
begin

text \<open>
  What \<open>flush_memtable\<close> writes, \<open>SegmentData::open\<close> reads (\<open>core/src/persistence/segment.rs\<close>).
  \<open>seg_shows\<close> is the contract of an open segment: it lists the documents of the segment by row,
  with their vector bytes, cached norm, metadata and content.  The two sides meet in the list of
  rows pushed, and the files between them only in the bytes they hold.
\<close>

subsection \<open>Whole files under the storage contract\<close>

context storage_contract
begin

lemma replace_bytes_ok:
  assumes "good s" and "replace_bytes st p bs s = (Inr (), s')" and "length bs < 2 ^ 64"
  shows "good s' \<and> dirs s' = dirs s \<and> files s' = (files s)(p \<mapsto> (bs, bs)) \<and> (\<forall>k q. stands s k q \<longrightarrow> stands s' k q)"
proof -
  obtain h s1 where o: "st_open_file st p OpenCreate s = (Inr h, s1)"
    and rest: "io_bind (f_truncate st h 0) (\<lambda>_. io_bind (f_write_at st h bs 0) (\<lambda>_. f_sync_data st h)) s1 = (Inr (), s')"
    by (rule io_bind_InrE [OF assms(2) [unfolded replace_bytes_def]])
  note ow = open_write_ok [OF assms(1) o]
  let ?f = "case files s p of Some f \<Rightarrow> f | None \<Rightarrow> ([], [])"
  from ow(3) have w: "good s1" "stands s1 h p" "writable h" "dirs s1 = dirs s" "files s1 = (files s)(p \<mapsto> ?f)"
    "\<forall>k q. stands s k q \<longrightarrow> stands s1 k q" by blast+
  from truncate_law [OF w(1-3), of ?f 0] w(5) obtain s2 where t: "f_truncate st h 0 s1 = (Inr (), s2)" "good s2"
    "stands s2 = stands s1" "dirs s2 = dirs s" "files s2 = (files s)(p \<mapsto> ([], snd ?f))" using w(4) by auto
  from write_law [OF t(2) _ w(3), of p "([], snd ?f)" 0 bs] t w(2) assms(3)
  obtain s3 where wr: "f_write_at st h bs 0 s2 = (Inr (), s3)" "good s3"
    "stands s3 = stands s1" "dirs s3 = dirs s" "files s3 = (files s)(p \<mapsto> (bs, snd ?f))" by auto
  from sync_law [OF wr(2) _ w(3), of p "(bs, snd ?f)"] wr w(2)
  obtain s4 where "f_sync_data st h s3 = (Inr (), s4)" "good s4"
    "stands s4 = stands s1" "dirs s4 = dirs s" "files s4 = (files s)(p \<mapsto> (bs, bs))" by auto
  with rest t(1) wr(1) w(6) show ?thesis by auto
qed

lemma write_segment_file_ok:
  assumes "good s" and "write_segment_file st c n k bs s = (Inr (), s')" and "length bs < 2 ^ 64"
  obtains p where "segment_file c n k = Inr p" and "good s'" and "dirs s' = dirs s"
    and "files s' = (files s)(p \<mapsto> (bs, bs))" and "\<forall>h q. stands s h q \<longrightarrow> stands s' h q"
proof -
  from assms(2) obtain p where p: "segment_file c n k = Inr p" and r: "replace_bytes st p bs s = (Inr (), s')"
    unfolding write_segment_file_def by (auto elim!: io_bind_InrE)
  from replace_bytes_ok [OF assms(1) r assms(3)] p that show ?thesis by blast
qed

lemma read_file_there:
  assumes "good s" and "files s p = Some f" and "length (fst f) < 2 ^ 64"
  shows "read_file st p s = (Inr (Some (fst f)), s)"
proof -
  from read_whole [OF assms] obtain h where
    "st_metadata st p s = (Inr (Some \<lparr>fm_len = u64_of (length (fst f)), fm_kind = EntryFile\<rparr>), s)"
    "st_open_file st p OpenRead s = (Inr h, s)"
    "f_read_at st h (unat (u64_of (length (fst f)))) 0 s = (Inr (fst f), s)" by metis
  then show ?thesis by (simp add: read_file_def)
qed

lemma read_file_missing: "good s \<Longrightarrow> files s p = None \<Longrightarrow> \<not> dirs s p \<Longrightarrow> read_file st p s = (Inr None, s)"
  using metadata_law [of s p] by (simp add: read_file_def)

lemma require_file_there:
  "good s \<Longrightarrow> segment_file c n k = Inr p \<Longrightarrow> files s p = Some f \<Longrightarrow> length (fst f) < 2 ^ 64 \<Longrightarrow>
     require_file st c n k s = (Inr (fst f), s)"
  using read_file_there [of s p f] by (simp add: require_file_def)

end

subsection \<open>The rows pushed\<close>

text \<open>Vector bytes, record, id bytes, cached norm.\<close>

type_synonym pushed_row = "bytes \<times> meta_record \<times> bytes \<times> u32"

definition push_rows :: "pushed_row list \<Rightarrow> segment_writers \<Rightarrow> segment_writers db_result" where
  "push_rows = try_fold (\<lambda>(bs, record, idb, n). push_segment_row bs record idb n)"

definition dir_rows :: "pushed_row list \<Rightarrow> (u64 \<times> u32) list \<Rightarrow> (bytes \<times> u64 \<times> u32 \<times> u32) list" where
  "dir_rows rows locs = map (\<lambda>((bs, record, idb, n), (off, len)). (idb, off, len, n)) (zip rows locs)"

lemma push_segment_row_Inr:
  assumes "push_segment_row bs record idb n w = Inr w'"
  obtains i off len where "vw_push_row bs (sw_vectors w) = Inr (i, sw_vectors w')"
    and "mw_push record (sw_meta w) = Inr ((off, len), sw_meta w')"
    and "\<exists>k. dw_push idb off len n (sw_directory w) = (sw_directory w', Inr k)"
  using assms unfolding push_segment_row_def
  by (auto elim!: rbind_InrE split: prod.splits sum.splits)

lemma vw_push_row_Inr:
  "vw_push_row bs v = Inr (i, v') \<Longrightarrow> length bs = vw_stride v \<and> vw_stride v' = vw_stride v
     \<and> vw_data v' = vw_data v @ bs \<and> vw_rows v' = (if vw_rows v = - 1 then - 1 else vw_rows v + 1)"
  by (auto simp: vw_push_row_def split: if_splits)

lemma push_rows_Inr:
  assumes "push_rows rows w = Inr w'"
  shows "(\<forall>r \<in> set rows. length (fst r) = vw_stride (sw_vectors w))
     \<and> vw_data (sw_vectors w') = vw_data (sw_vectors w) @ concat (map fst rows)
     \<and> (unat (vw_rows (sw_vectors w)) + length rows < 2 ^ 32 \<longrightarrow>
          vw_rows (sw_vectors w') = vw_rows (sw_vectors w) + of_nat (length rows))
     \<and> (\<exists>locs. mw_push_all (map (fst \<circ> snd) rows) (sw_meta w) = Inr (locs, sw_meta w') \<and> length locs = length rows
          \<and> dw_push_all (dir_rows rows locs) (sw_directory w) = Inr (sw_directory w'))"
  using assms
proof (induction rows arbitrary: w)
  case Nil
  then show ?case by (simp add: push_rows_def dw_push_all_def dir_rows_def)
next
  case (Cons r rows)
  obtain bs mr idb n where r: "r = (bs, mr, idb, n)" by (cases r)
  from Cons.prems obtain w1 where p: "push_segment_row bs mr idb n w = Inr w1" and rest: "push_rows rows w1 = Inr w'"
    by (auto simp: push_rows_def r elim!: rbind_InrE)
  from p obtain i off len k where v: "vw_push_row bs (sw_vectors w) = Inr (i, sw_vectors w1)"
    and m: "mw_push mr (sw_meta w) = Inr ((off, len), sw_meta w1)"
    and d: "dw_push idb off len n (sw_directory w) = (sw_directory w1, Inr k)"
    by (rule push_segment_row_Inr) blast
  note v1 = vw_push_row_Inr [OF v]
  note IH = Cons.IH [OF rest]
  then obtain locs where l: "mw_push_all (map (fst \<circ> snd) rows) (sw_meta w1) = Inr (locs, sw_meta w')"
    "length locs = length rows" "dw_push_all (dir_rows rows locs) (sw_directory w1) = Inr (sw_directory w')" by blast
  have "mw_push_all (map (fst \<circ> snd) (r # rows)) (sw_meta w) = Inr ((off, len) # locs, sw_meta w')"
    using m l(1) by (simp add: r)
  moreover have "dw_push_all (dir_rows (r # rows) ((off, len) # locs)) (sw_directory w) = Inr (sw_directory w')"
    using d l(3) by (simp add: dw_push_all_def dir_rows_def r)
  moreover have "length ((off, len) # locs) = length (r # rows)" using l(2) by simp
  ultimately have E: "\<exists>locs. mw_push_all (map (fst \<circ> snd) (r # rows)) (sw_meta w) = Inr (locs, sw_meta w')
      \<and> length locs = length (r # rows) \<and> dw_push_all (dir_rows (r # rows) locs) (sw_directory w) = Inr (sw_directory w')" by blast
  have N: "vw_rows (sw_vectors w') = vw_rows (sw_vectors w) + of_nat (length (r # rows))"
    if "unat (vw_rows (sw_vectors w)) + length (r # rows) < 2 ^ 32"
  proof -
    have "vw_rows (sw_vectors w) \<noteq> - 1" and "unat (vw_rows (sw_vectors w) + 1) = unat (vw_rows (sw_vectors w)) + 1"
    proof -
      have "unat (- 1 :: u32) = 2 ^ 32 - 1" by (simp add: unsigned_minus_1_eq_mask mask_eq_exp_minus_1)
      then show "vw_rows (sw_vectors w) \<noteq> - 1" using that by auto
      show "unat (vw_rows (sw_vectors w) + 1) = unat (vw_rows (sw_vectors w)) + 1"
        using that by (simp add: unat_word_ariths)
    qed
    with IH that v1 show ?thesis by simp
  qed
  show ?case
  proof (intro conjI)
    show "\<forall>r \<in> set (r # rows). length (fst r) = vw_stride (sw_vectors w)" using IH v1 r by simp
    show "vw_data (sw_vectors w') = vw_data (sw_vectors w) @ concat (map fst (r # rows))" using IH v1 r by simp
  qed (use N in blast, rule E)
qed

subsection \<open>What an open segment shows\<close>

definition stored_record :: "stored \<Rightarrow> meta_record" where
  "stored_record d = (case d of (bs, n, md, c) \<Rightarrow> \<lparr>mr_metadata = map_option Map md, mr_content = c\<rparr>)"

definition pushed :: "doc_id \<times> stored \<Rightarrow> pushed_row" where
  "pushed x = (fst (snd x), stored_record (snd x), id_to_bytes (fst x), fst (snd (snd x)))"

text \<open>
  The rows of the segment are the documents \<open>xs\<close>: ids are found by row and rows by id, and each
  row has its vector bytes, norm and record.  The bitmap covers the rows; which of them are
  live is not said here.
\<close>

definition seg_shows :: "segment_data \<Rightarrow> (doc_id \<times> stored) list \<Rightarrow> bool" where
  "seg_shows seg xs \<longleftrightarrow>
     length xs < 2 ^ 32 \<and> distinct (map fst xs) \<and> length (sd_entries seg) = length xs \<and> sd_ids seg = map fst xs
     \<and> (\<forall>i < length xs. sd_row_of seg (fst (xs ! i)) = Some (of_nat i))
     \<and> (\<forall>k. k \<notin> fst ` set xs \<longrightarrow> sd_row_of seg k = None)
     \<and> (\<exists>b. sd_vectors seg = Inr b \<and> (\<forall>i < length xs. vb_row b (of_nat i) = Some (fst (snd (xs ! i)))))
     \<and> (\<forall>i < length xs. sd_inv_norm seg (of_nat i) = Some (fst (snd (snd (xs ! i))))
          \<and> sd_meta_record seg (of_nat i) = Inr (stored_record (snd (xs ! i))))
     \<and> ts_inv (sd_tombstones seg) \<and> unat (ts_rows (sd_tombstones seg)) = length xs"

definition seg_live :: "segment_data \<Rightarrow> nat set" where
  "seg_live seg = live_set (sd_tombstones seg)"

text \<open>What a reader finds for an id: the live row's document.\<close>

definition sd_read :: "segment_data \<Rightarrow> doc_id \<Rightarrow> stored option" where
  "sd_read seg k =
     (case sd_row_of seg k of None \<Rightarrow> None | Some row \<Rightarrow>
      if \<not> sd_is_live seg row then None
      else case (sd_vectors seg, sd_inv_norm seg row, sd_meta_record seg row) of
        (Inr b, Some n, Inr rec) \<Rightarrow>
          map_option (\<lambda>bs. (bs, n, (case mr_metadata rec of Some (Map m) \<Rightarrow> Some m | _ \<Rightarrow> None), mr_content rec)) (vb_row b row)
      | _ \<Rightarrow> None)"

lemma stored_record_inv:
  "(fst d, fst (snd d), (case mr_metadata (stored_record d) of Some (Map m) \<Rightarrow> Some m | _ \<Rightarrow> None), mr_content (stored_record d)) = d"
  by (cases d) (auto simp: stored_record_def split: option.splits)

lemma nat_u32 [simp]: "n < 2 ^ 32 \<Longrightarrow> unat (of_nat n :: u32) = n"
  by (simp add: unat_of_nat)

lemma sd_read_shows:
  assumes "seg_shows seg xs"
  shows "i < length xs \<Longrightarrow> sd_read seg (fst (xs ! i)) = (if i \<in> seg_live seg then Some (snd (xs ! i)) else None)"
    and "k \<notin> fst ` set xs \<Longrightarrow> sd_read seg k = None"
proof -
  assume i: "i < length xs"
  from assms obtain b where b: "sd_vectors seg = Inr b" "vb_row b (of_nat i) = Some (fst (snd (xs ! i)))"
    using i unfolding seg_shows_def by blast
  from assms i have f: "sd_row_of seg (fst (xs ! i)) = Some (of_nat i)" "sd_inv_norm seg (of_nat i) = Some (fst (snd (snd (xs ! i))))"
    "sd_meta_record seg (of_nat i) = Inr (stored_record (snd (xs ! i)))" "ts_inv (sd_tombstones seg)"
    "unat (of_nat i :: u32) = i" unfolding seg_shows_def by auto
  have "sd_is_live seg (of_nat i) \<longleftrightarrow> i \<in> seg_live seg"
    using is_live_iff [OF f(4), of "of_nat i"] f(5) by (simp add: sd_is_live_def seg_live_def)
  with b f stored_record_inv [of "snd (xs ! i)"]
  show "sd_read seg (fst (xs ! i)) = (if i \<in> seg_live seg then Some (snd (xs ! i)) else None)"
    by (simp add: sd_read_def)
next
  assume "k \<notin> fst ` set xs"
  with assms show "sd_read seg k = None" by (simp add: seg_shows_def sd_read_def)
qed

text \<open>Loading the row table.\<close>

lemma load_rows:
  assumes "\<forall>i < n. dir_entry d (of_nat i) = Some (E i) \<and> dir_id d (of_nat i) = Some (id_to_bytes (ks ! i))"
    and "\<forall>k \<in> set ks. id_from_bytes (cat_id_kind cat) (id_to_bytes k) = Inr k" and "distinct ks"
    and "n \<le> length ks" and "n < 2 ^ 32"
  shows "\<exists>by_id. try_fold (sd_load_row cat d) [0..<n] ([], [], []) = Inr (map E [0..<n], take n ks, by_id)
     \<and> (\<forall>i < n. map_of by_id (ks ! i) = Some (of_nat i)) \<and> (\<forall>k. k \<notin> set (take n ks) \<longrightarrow> map_of by_id k = None)"
  using assms
proof (induction n)
  case 0
  then show ?case by simp
next
  case (Suc n)
  then obtain by_id where IH: "try_fold (sd_load_row cat d) [0..<n] ([], [], []) = Inr (map E [0..<n], take n ks, by_id)"
    "\<forall>i < n. map_of by_id (ks ! i) = Some (of_nat i)" "\<forall>k. k \<notin> set (take n ks) \<longrightarrow> map_of by_id k = None" by auto
  have n: "n < length ks" using Suc.prems(4) by simp
  then have fresh: "ks ! n \<notin> set (take n ks)"
    using Suc.prems(3) by (auto simp: in_set_conv_nth distinct_conv_nth)
  have ne: "ks ! i \<noteq> ks ! n" if "i < n" for i using that n Suc.prems(3) by (simp add: nth_eq_iff_index_eq)
  have "sd_load_row cat d n (map E [0..<n], take n ks, by_id)
      = Inr (map E [0..<n] @ [E n], take n ks @ [ks ! n], AList.update (ks ! n) (of_nat n) by_id)"
    using Suc.prems(1,2) n IH(3) fresh by (simp add: sd_load_row_def)
  with IH(1) n have "try_fold (sd_load_row cat d) [0..<Suc n] ([], [], [])
      = Inr (map E [0..<Suc n], take (Suc n) ks, AList.update (ks ! n) (of_nat n) by_id)"
    by (simp add: try_fold_append take_Suc_conv_app_nth)
  moreover have "\<forall>i < Suc n. map_of (AList.update (ks ! n) (of_nat n :: u32) by_id) (ks ! i) = Some (of_nat i)"
    using IH(2) ne by (auto simp: update_conv' less_Suc_eq)
  moreover have "\<forall>k. k \<notin> set (take (Suc n) ks) \<longrightarrow> map_of (AList.update (ks ! n) (of_nat n :: u32) by_id) k = None"
    using IH(3) n by (auto simp: update_conv' take_Suc_conv_app_nth)
  ultimately show ?case by blast
qed

subsection \<open>The files a writer ends as\<close>

primrec seg_bytes :: "segment_writers \<Rightarrow> tombstones \<Rightarrow> segment_file_kind \<Rightarrow> bytes" where
  "seg_bytes w t VectorsFile = vw_finish (sw_vectors w)"
| "seg_bytes w t DirectoryFile = dw_finish (sw_directory w)"
| "seg_bytes w t MetadataFile = mw_finish (sw_meta w)"
| "seg_bytes w t TombstonesFile = tombstones_encode t"

text \<open>The offsets of the directory fit their 32 bits and each file a 64-bit length.\<close>

definition segment_fits :: "segment_writers \<Rightarrow> bool" where
  "segment_fits w \<longleftrightarrow> 16 + 24 * length (dw_entries (sw_directory w)) < 2 ^ 32
     \<and> length (vw_data (sw_vectors w)) + 68 < 2 ^ 64 \<and> length (sw_meta w) + 36 < 2 ^ 64"

text \<open>A document a collection of this catalog may store.\<close>

definition storable :: "catalog \<Rightarrow> doc_id \<times> stored \<Rightarrow> bool" where
  "storable cat x \<longleftrightarrow> id_from_bytes (cat_id_kind cat) (id_to_bytes (fst x)) = Inr (fst x) \<and> mr_wf (stored_record (snd x))"

lemma new_writers_Inr:
  "new_writers cat = Inr w \<longleftrightarrow> cat_dimension cat \<noteq> 0 \<and> cat_row_stride cat \<noteq> 0
     \<and> w = \<lparr>sw_vectors = \<lparr>vw_dimension = cat_dimension cat, vw_stride = cat_row_stride cat, vw_rows = 0, vw_data = []\<rparr>,
            sw_directory = dw_new, sw_meta = []\<rparr>"
  by (auto simp: new_writers_def vw_new_def split: if_splits)

lemma length_encode_block: "length (encode_block k pl) = 36 + length pl"
  by (simp add: encode_block_eq)

lemma length_tombstones: "ts_inv t \<Longrightarrow> length (tombstones_payload t) = 16 + 8 * div_ceil (unat (ts_rows t)) 64"
  by (simp add: tombstones_payload_def length_concat_u64 ts_inv_def)

text \<open>The sizes and the four files, read back one by one.\<close>

lemma pushed_sizes:
  assumes "new_writers cat = Inr w0" and "push_rows rows w0 = Inr w" and "segment_fits w"
  shows "16 + 24 * length rows < 2 ^ 32" and "vw_rows (sw_vectors w) = of_nat (length rows)"
    and "vw_data (sw_vectors w) = concat (map fst rows)" and "0 < cat_row_stride cat"
    and "list_all (\<lambda>r. length r = cat_row_stride cat) (map fst rows)"
    and "\<exists>locs. mw_push_all (map (fst \<circ> snd) rows) [] = Inr (locs, sw_meta w) \<and> length locs = length rows
          \<and> dw_push_all (dir_rows rows locs) dw_new = Inr (sw_directory w)"
proof -
  note w0 = assms(1) [unfolded new_writers_Inr]
  note p = push_rows_Inr [OF assms(2)]
  from p w0 show d: "\<exists>locs. mw_push_all (map (fst \<circ> snd) rows) [] = Inr (locs, sw_meta w) \<and> length locs = length rows
          \<and> dw_push_all (dir_rows rows locs) dw_new = Inr (sw_directory w)" by simp
  then obtain locs where "dw_push_all (dir_rows rows locs) dw_new = Inr (sw_directory w)" "length locs = length rows" by blast
  moreover have "dw_ok dw_new" by (simp add: dw_ok_def dw_new_def)
  ultimately have "length (dw_entries (sw_directory w)) = length rows"
    using dw_push_all_Inr [of "dir_rows rows locs" dw_new "sw_directory w"] by (simp add: dw_new_def dir_rows_def)
  with assms(3) show n: "16 + 24 * length rows < 2 ^ 32" by (simp add: segment_fits_def)
  then have "length rows < 2 ^ 32" by simp
  with p w0 show "vw_rows (sw_vectors w) = of_nat (length rows)" by simp
  from p w0 show "vw_data (sw_vectors w) = concat (map fst rows)" "0 < cat_row_stride cat"
    "list_all (\<lambda>r. length r = cat_row_stride cat) (map fst rows)" by (simp_all add: list_all_iff)
qed

lemma vectors_read_back:
  assumes "new_writers cat = Inr w0" and "push_rows rows w0 = Inr w" and "segment_fits w"
  shows "\<exists>b. vb_open (vw_finish (sw_vectors w)) (cat_row_stride cat) = Inr b
     \<and> (\<forall>i < length rows. vb_row b (of_nat i) = Some (fst (rows ! i)))"
proof -
  note z = pushed_sizes [OF assms]
  let ?d = "vw_data (sw_vectors w)" and ?n = "cat_row_stride cat"
  have len: "length ?d = length rows * ?n" using length_concat_rows [OF z(5)] z(3) by simp
  have "vb_open (vw_finish (sw_vectors w)) ?n = Inr \<lparr>vb_data = ?d, vb_stride = ?n, vb_rows = of_nat (length rows)\<rparr>"
    using vb_open_finish [of ?n "sw_vectors w"] z(1,4) len assms(3) by (simp add: segment_fits_def)
  moreover have "vb_row \<lparr>vb_data = ?d, vb_stride = ?n, vb_rows = of_nat (length rows)\<rparr> (of_nat i) = Some (fst (rows ! i))"
    if "i < length rows" for i
    using slice_concat [OF z(5), of i] that z(1,3) by (simp add: vb_row_def Let_def)
  ultimately show ?thesis by blast
qed

lemma directory_read_back:
  assumes "new_writers cat = Inr w0" and "push_rows rows w0 = Inr w" and "segment_fits w"
  shows "\<exists>d E. dir_open (dw_finish (sw_directory w)) = Inr d \<and> unat (d_rows d) = length rows
     \<and> (\<forall>i < length rows. dir_entry d (of_nat i) = Some (E i) \<and> dir_id d (of_nat i) = Some (fst (snd (snd (rows ! i))))
          \<and> re_inv_norm (E i) = snd (snd (snd (rows ! i))) \<and> located (sw_meta w) (E i) (fst (snd (rows ! i))))"
proof -
  note z = pushed_sizes [OF assms]
  from z(6) obtain locs where l: "mw_push_all (map (fst \<circ> snd) rows) [] = Inr (locs, sw_meta w)" "length locs = length rows"
    "dw_push_all (dir_rows rows locs) dw_new = Inr (sw_directory w)" by blast
  have len: "length (dir_rows rows locs) = length rows" using l(2) by (simp add: dir_rows_def)
  have nth: "dir_rows rows locs ! i = (fst (snd (snd (rows ! i))), fst (locs ! i), snd (locs ! i), snd (snd (snd (rows ! i))))"
    if "i < length rows" for i
    using that l(2) by (simp add: dir_rows_def case_prod_beta)
  have "16 + 24 * length (dir_rows rows locs) < 2 ^ 32" using z(1) len by simp
  from dir_rows_pushed [OF l(3) this, unfolded len] obtain d where d: "dir_open (dw_finish (sw_directory w)) = Inr d"
    "unat (d_rows d) = length rows"
    "\<And>i. dir_id d i = (if unat i < length rows then Some (fst (dir_rows rows locs ! unat i)) else None)"
    "\<And>i. map_option (\<lambda>e. (re_meta_offset e, re_meta_len e, re_inv_norm e)) (dir_entry d i)
            = (if unat i < length rows then Some (snd (dir_rows rows locs ! unat i)) else None)" by blast
  let ?E = "\<lambda>i. the (dir_entry d (of_nat i))"
  have "dir_entry d (of_nat i) = Some (?E i) \<and> dir_id d (of_nat i) = Some (fst (snd (snd (rows ! i))))
          \<and> re_inv_norm (?E i) = snd (snd (snd (rows ! i))) \<and> located (sw_meta w) (?E i) (fst (snd (rows ! i)))"
    if i: "i < length rows" for i
  proof -
    have u: "unat (of_nat i :: u32) = i" using i z(1) by simp
    from d(4) [of "of_nat i"] i obtain e where e: "dir_entry d (of_nat i) = Some e"
      "(re_meta_offset e, re_meta_len e) = locs ! i" "re_inv_norm e = snd (snd (snd (rows ! i)))"
      unfolding u nth [OF i] by (cases "dir_entry d (of_nat i)") auto
    have "length (sw_meta w) < 2 ^ 64" using assms(3) by (simp add: segment_fits_def)
    with mw_push_all_Inr [OF l(1)] i e(2) have "located (sw_meta w) e (fst (snd (rows ! i)))" by simp
    with e d(3) [of "of_nat i"] i nth [OF i] show ?thesis by (simp add: u)
  qed
  with d(1,2) show ?thesis by (intro exI [of _ d] exI [of _ ?E]) simp
qed

lemma tombstones_short: "ts_inv t \<Longrightarrow> length (tombstones_payload t) + 36 < 2 ^ 64"
  using length_tombstones [of t] unat_lt_32 [of "ts_rows t"] by (simp add: div_ceil_def)

lemma tombstones_read_back:
  assumes "ts_inv t"
  shows "tombstones_decode (tombstones_encode t) = Inr t"
  using decode_block_encode [OF tombstones_short [OF assms], of Deleted "[]"]
  by (intro tombstones_decode_payload assms) (simp add: tombstones_encode_eq)

lemma seg_bytes_short:
  assumes "new_writers cat = Inr w0" and "push_rows rows w0 = Inr w" and "segment_fits w" and "ts_inv t"
  shows "length (seg_bytes w t k) < 2 ^ 64"
proof (cases k)
  case DirectoryFile
  from pushed_sizes(6) [OF assms(1-3)] obtain locs where
    "dw_push_all (dir_rows rows locs) dw_new = Inr (sw_directory w)" by blast
  from dw_push_all_heap [OF this] show ?thesis
    using DirectoryFile assms(3) by (simp add: dw_finish_eq length_encode_block length_dir_payload segment_fits_def)
next
  case TombstonesFile
  then show ?thesis using tombstones_short [OF assms(4)] by (simp add: tombstones_encode_eq length_encode_block)
qed (use assms(3) in \<open>simp_all add: segment_fits_def vw_finish_eq mw_finish_def length_encode_block\<close>)

subsection \<open>Opening what was written\<close>

definition holds_segment :: "(db_path \<Rightarrow> file_view option) \<Rightarrow> rust_string \<Rightarrow> u64 \<Rightarrow> segment_writers \<Rightarrow> tombstones \<Rightarrow> bool" where
  "holds_segment fs name n w t \<longleftrightarrow>
     (\<forall>k. \<exists>p d. segment_file name n k = Inr p \<and> fs p = Some (seg_bytes w t k, d))"

context storage_contract
begin

lemma write_segment_ok:
  assumes "good s" and "write_segment st name n w s = (Inr r, s')" and "\<forall>k. length (seg_bytes w (all_live (vw_rows (sw_vectors w)) 0) k) < 2 ^ 64"
  shows "good s' \<and> dirs s' = dirs s \<and> (\<forall>h q. stands s h q \<longrightarrow> stands s' h q)
     \<and> r = \<lparr>sr_id = n, sr_rows = vw_rows (sw_vectors w), sr_del_generation = 0\<rparr>
     \<and> holds_segment (files s') name n w (all_live (vw_rows (sw_vectors w)) 0) \<and> holds_segment (files (crash s')) name n w (all_live (vw_rows (sw_vectors w)) 0)
     \<and> (\<forall>q. (\<forall>k. segment_file name n k \<noteq> Inr q) \<longrightarrow> files s' q = files s q)"
proof -
  let ?t = "all_live (vw_rows (sw_vectors w)) 0"
  from assms(2) obtain s1 s2 s3 where
    w1: "write_segment_file st name n VectorsFile (seg_bytes w ?t VectorsFile) s = (Inr (), s1)" and
    w2: "write_segment_file st name n DirectoryFile (seg_bytes w ?t DirectoryFile) s1 = (Inr (), s2)" and
    w3: "write_segment_file st name n MetadataFile (seg_bytes w ?t MetadataFile) s2 = (Inr (), s3)" and
    w4: "write_segment_file st name n TombstonesFile (seg_bytes w ?t TombstonesFile) s3 = (Inr (), s')" and
    r: "r = \<lparr>sr_id = n, sr_rows = vw_rows (sw_vectors w), sr_del_generation = 0\<rparr>"
    unfolding write_segment_def Let_def by (auto elim!: io_bind_InrE)
  have l: "length (seg_bytes w ?t k) < 2 ^ 64" for k using assms(3) by blast
  obtain p1 where f1: "segment_file name n VectorsFile = Inr p1" "good s1" "dirs s1 = dirs s"
    "files s1 = (files s)(p1 \<mapsto> (seg_bytes w ?t VectorsFile, seg_bytes w ?t VectorsFile))" "\<forall>h q. stands s h q \<longrightarrow> stands s1 h q"
    by (rule write_segment_file_ok [OF assms(1) w1 l])
  obtain p2 where f2: "segment_file name n DirectoryFile = Inr p2" "good s2" "dirs s2 = dirs s1"
    "files s2 = (files s1)(p2 \<mapsto> (seg_bytes w ?t DirectoryFile, seg_bytes w ?t DirectoryFile))" "\<forall>h q. stands s1 h q \<longrightarrow> stands s2 h q"
    by (rule write_segment_file_ok [OF f1(2) w2 l])
  obtain p3 where f3: "segment_file name n MetadataFile = Inr p3" "good s3" "dirs s3 = dirs s2"
    "files s3 = (files s2)(p3 \<mapsto> (seg_bytes w ?t MetadataFile, seg_bytes w ?t MetadataFile))" "\<forall>h q. stands s2 h q \<longrightarrow> stands s3 h q"
    by (rule write_segment_file_ok [OF f2(2) w3 l])
  obtain p4 where f4: "segment_file name n TombstonesFile = Inr p4" "good s'" "dirs s' = dirs s3"
    "files s' = (files s3)(p4 \<mapsto> (seg_bytes w ?t TombstonesFile, seg_bytes w ?t TombstonesFile))" "\<forall>h q. stands s3 h q \<longrightarrow> stands s' h q"
    by (rule write_segment_file_ok [OF f3(2) w4 l])
  have ne: "p1 \<noteq> p2" "p1 \<noteq> p3" "p1 \<noteq> p4" "p2 \<noteq> p3" "p2 \<noteq> p4" "p3 \<noteq> p4"
    using f1(1) f2(1) f3(1) f4(1) layout_inject [of "SegFile name n _" _ "SegFile name n _"] by auto
  have all: "\<exists>p. segment_file name n k = Inr p \<and> files s' p = Some (seg_bytes w ?t k, seg_bytes w ?t k)" for k
    using f1(1,4) f2(1,4) f3(1,4) f4(1,4) ne by (cases k) auto
  then have "holds_segment (files s') name n w ?t" unfolding holds_segment_def by blast
  moreover have "holds_segment (files (crash s')) name n w ?t"
    unfolding holds_segment_def
  proof
    fix k
    from all [of k] obtain p where "segment_file name n k = Inr p" "files s' p = Some (seg_bytes w ?t k, seg_bytes w ?t k)" by blast
    with crash_file [OF f4(2)] show "\<exists>p d. segment_file name n k = Inr p \<and> files (crash s') p = Some (seg_bytes w ?t k, d)" by force
  qed
  moreover have "files s' q = files s q" if "\<forall>k. segment_file name n k \<noteq> Inr q" for q
    using that f1(1,4) f2(1,4) f3(1,4) f4(1,4) by (metis fun_upd_other)
  ultimately show ?thesis using f1(3,5) f2(3,5) f3(3,5) f4(2,3,5) r by simp
qed

lemma require_written:
  assumes "good s" and "holds_segment (files s) name n w t" and "\<forall>k. length (seg_bytes w t k) < 2 ^ 64"
  shows "require_file st name n k s = (Inr (seg_bytes w t k), s)" and "\<exists>p. segment_file name n k = Inr p"
proof -
  from assms(2) obtain p d where p: "segment_file name n k = Inr p" "files s p = Some (seg_bytes w t k, d)"
    unfolding holds_segment_def by blast
  then show "\<exists>p. segment_file name n k = Inr p" by blast
  from require_file_there [OF assms(1) p] assms(3) show "require_file st name n k s = (Inr (seg_bytes w t k), s)" by simp
qed

lemma sd_open_written:
  assumes "good s" and "holds_segment (files s) (cat_name cat) n w t"
    and "new_writers cat = Inr w0" and "push_rows (map pushed xs) w0 = Inr w" and "segment_fits w"
    and "list_all (storable cat) xs" and "distinct (map fst xs)" and "ts_inv t" and "ts_rows t = vw_rows (sw_vectors w)"
  shows "\<exists>seg. sd_open st cat \<lparr>sr_id = n, sr_rows = vw_rows (sw_vectors w), sr_del_generation = g\<rparr> s = (Inr seg, s)
     \<and> seg_shows seg xs \<and> sd_tombstones seg = t \<and> sd_id seg = n"
proof -
  let ?N = "length xs" and ?ks = "map fst xs"
  note z = pushed_sizes [OF assms(3-5), unfolded length_map]
  have N: "?N < 2 ^ 32" using z(1) by simp
  have sh: "\<forall>k. length (seg_bytes w t k) < 2 ^ 64" using seg_bytes_short [OF assms(3-5,8)] by blast
  note rq = require_written [OF assms(1,2) sh]
  obtain b where b: "vb_open (vw_finish (sw_vectors w)) (cat_row_stride cat) = Inr b"
    "\<forall>i < ?N. vb_row b (of_nat i) = Some (fst (snd (xs ! i)))"
    using vectors_read_back [OF assms(3-5)] by (auto simp: pushed_def)
  obtain d E where d: "dir_open (dw_finish (sw_directory w)) = Inr d" "unat (d_rows d) = ?N"
    "\<forall>i < ?N. dir_entry d (of_nat i) = Some (E i) \<and> dir_id d (of_nat i) = Some (id_to_bytes (?ks ! i))
       \<and> re_inv_norm (E i) = fst (snd (snd (xs ! i))) \<and> located (sw_meta w) (E i) (stored_record (snd (xs ! i)))"
    using directory_read_back [OF assms(3-5)] by (auto simp: pushed_def)
  have rows: "d_rows d = vw_rows (sw_vectors w)" using d(2) z(2) N by (simp add: word_unat_eq_iff)
  have mb: "mb_open (mw_finish (sw_meta w)) = Inr \<lparr>mb_payload = sw_meta w\<rparr>"
    using mb_open_finish assms(5) by (simp add: segment_fits_def)
  have ids: "\<forall>k \<in> set ?ks. id_from_bytes (cat_id_kind cat) (id_to_bytes k) = Inr k"
    using assms(6) by (auto simp: list_all_iff storable_def)
  obtain by_id where l: "try_fold (sd_load_row cat d) [0..<?N] ([], [], []) = Inr (map E [0..<?N], ?ks, by_id)"
    "\<forall>i < ?N. map_of by_id (?ks ! i) = Some (of_nat i)" "\<forall>k. k \<notin> set ?ks \<longrightarrow> map_of by_id k = None"
    using load_rows [of ?N d E ?ks cat] d(3) ids assms(7) N by auto
  let ?seg = "\<lparr>sd_id = n, sd_stride = cat_row_stride cat, sd_dtype = cat_dtype cat, sd_dimension = cat_dimension cat,
     sd_vec_bytes = vw_finish (sw_vectors w), sd_meta_payload = sw_meta w, sd_entries = map E [0..<?N], sd_ids = ?ks,
     sd_by_id = by_id, sd_tombstones = t\<rparr>"
  obtain mp dp where pp: "segment_file (cat_name cat) n MetadataFile = Inr mp" "segment_file (cat_name cat) n DirectoryFile = Inr dp"
    using rq(2) by metis
  have "sd_open st cat \<lparr>sr_id = n, sr_rows = vw_rows (sw_vectors w), sr_del_generation = g\<rparr> s = (Inr ?seg, s)"
    using rq(1) [of VectorsFile] rq(1) [of DirectoryFile] rq(1) [of MetadataFile] rq(1) [of TombstonesFile] pp
    by (simp add: sd_open_def Let_def mb d(1) tombstones_read_back [OF assms(8)] rows assms(9) d(2) [unfolded rows] l(1))
  moreover have "seg_shows ?seg xs"
  proof -
    have "sd_meta_record ?seg (of_nat i) = Inr (stored_record (snd (xs ! i)))" if i: "i < ?N" for i
    proof -
      have "located (sw_meta w) (E i) (stored_record (snd (xs ! i)))" and "mr_wf (stored_record (snd (xs ! i)))"
        using d(3) i assms(6) by (auto simp: list_all_length storable_def)
      from record_located(1) [OF this] have "mb_record \<lparr>mb_payload = sw_meta w\<rparr> (E i) = Inr (stored_record (snd (xs ! i)))" .
      then show ?thesis using i N by (auto simp: sd_meta_record_def sd_entry_def mb_record_def)
    qed
    then show ?thesis
      using N assms(7-9) b d(3) l(2,3) z(2)
      by (simp add: seg_shows_def sd_row_of_def sd_vectors_def sd_inv_norm_def sd_entry_def)
  qed
  ultimately show ?thesis by force
qed

text \<open>A write fails only for want of a directory.\<close>

lemma replace_bytes_total:
  assumes "good s" and "\<not> dirs s p" and "dirs s (parent_of p)" and "length bs < 2 ^ 64"
  shows "\<exists>s'. replace_bytes st p bs s = (Inr (), s') \<and> good s' \<and> dirs s' = dirs s"
proof -
  from replace_file [OF assms] obtain h s1 s2 s3 s4 where "st_open_file st p OpenCreate s = (Inr h, s1)"
    "f_truncate st h 0 s1 = (Inr (), s2)" "f_write_at st h bs 0 s2 = (Inr (), s3)" "f_sync_data st h s3 = (Inr (), s4)"
    "good s4" "dirs s4 = dirs s" by metis
  then show ?thesis by (simp add: replace_bytes_def)
qed

lemma write_segment_file_total:
  assumes "good s" and "segment_file name n k = Inr p" and "\<not> dirs s p" and "dirs s (parent_of p)" and "length bs < 2 ^ 64"
  shows "\<exists>s'. write_segment_file st name n k bs s = (Inr (), s') \<and> good s' \<and> dirs s' = dirs s"
  using replace_bytes_total [OF assms(1,3-5)] assms(2) by (simp add: write_segment_file_def)

lemma write_segment_total:
  assumes "good s" and "\<forall>k. length (seg_bytes w (all_live (vw_rows (sw_vectors w)) 0) k) < 2 ^ 64"
    and "\<forall>k. \<exists>p. segment_file name n k = Inr p \<and> \<not> dirs s p \<and> dirs s (parent_of p)"
  shows "\<exists>r s'. write_segment st name n w s = (Inr r, s')"
proof -
  let ?t = "all_live (vw_rows (sw_vectors w)) 0"
  have step: "\<exists>s'. write_segment_file st name n k (seg_bytes w ?t k) s0 = (Inr (), s') \<and> good s' \<and> dirs s' = dirs s"
    if "good s0" "dirs s0 = dirs s" for s0 k
    using write_segment_file_total [OF that(1), of name n k] assms(2,3) that(2) by metis
  obtain s1 where 1: "write_segment_file st name n VectorsFile (seg_bytes w ?t VectorsFile) s = (Inr (), s1)" "good s1" "dirs s1 = dirs s"
    using step [OF assms(1) refl] by metis
  obtain s2 where 2: "write_segment_file st name n DirectoryFile (seg_bytes w ?t DirectoryFile) s1 = (Inr (), s2)" "good s2" "dirs s2 = dirs s"
    using step [OF 1(2,3)] by metis
  obtain s3 where 3: "write_segment_file st name n MetadataFile (seg_bytes w ?t MetadataFile) s2 = (Inr (), s3)" "good s3" "dirs s3 = dirs s"
    using step [OF 2(2,3)] by metis
  obtain s4 where "write_segment_file st name n TombstonesFile (seg_bytes w ?t TombstonesFile) s3 = (Inr (), s4)"
    using step [OF 3(2,3)] by metis
  with 1(1) 2(1) 3(1) show ?thesis by (simp add: write_segment_def Let_def)
qed

end

subsection \<open>Flushing a memtable\<close>

text \<open>The writers a flush fills, and the documents it puts into them, in row order.\<close>

definition flush_rows :: "catalog \<Rightarrow> memtable \<Rightarrow> segment_writers db_result" where
  "flush_rows cat m = rbind (new_writers cat) (try_fold (flush_row m) (mt_live_rows m))"

definition live_docs :: "memtable \<Rightarrow> (doc_id \<times> stored) list" where
  "live_docs m = map (\<lambda>r. (mw_id r, row_doc m r)) (mt_live_rows m)"

lemma try_fold_map: "try_fold f (map g xs) s = try_fold (\<lambda>x. f (g x)) xs s"
  by (induction xs arbitrary: s) (auto simp: rbind_def split: sum.splits)

lemma live_row_abs:
  assumes "mt_inv m" and "r \<in> set (mt_live_rows m)"
  shows "mt_abs m (mw_id r) = Some (Some (row_doc m r))" and "mt_vector_bytes m r = Some (fst (row_doc m r))"
proof -
  from assms obtain i k where i: "(k, Row i) \<in> set (mt_index m)" "r = mt_rows m ! unat i"
    by (auto simp: mt_live_rows_eq row_indices_set)
  with assms(1) have "map_of (mt_index m) k = Some (Row i)" "mw_id r = k" "unat i < length (mt_rows m)"
    by (auto simp: mt_inv_def)
  then have "mt_get m (mw_id r) = Some (Present r)" using i(2) by (simp add: mt_get_def)
  with mt_get_abs [OF assms(1), of "mw_id r"] show "mt_abs m (mw_id r) = Some (Some (row_doc m r))"
    "mt_vector_bytes m r = Some (fst (row_doc m r))" by auto
qed

lemma live_docs_correct:
  assumes "mt_inv m"
  shows "distinct (map fst (live_docs m))" and "map_of (live_docs m) k = (case mt_abs m k of Some d \<Rightarrow> d | None \<Rightarrow> None)"
    and "(k, d) \<in> set (live_docs m) \<longleftrightarrow> mt_abs m k = Some (Some d)"
proof -
  have f: "map fst (live_docs m) = map mw_id (mt_live_rows m)" by (simp add: live_docs_def)
  show d: "distinct (map fst (live_docs m))" unfolding f by (rule mt_live_rows_correct [OF assms])
  have one: "(k, d) \<in> set (live_docs m) \<longleftrightarrow> mt_abs m k = Some (Some d)" for d
  proof
    assume "(k, d) \<in> set (live_docs m)"
    then show "mt_abs m k = Some (Some d)" using live_row_abs(1) [OF assms] by (auto simp: live_docs_def)
  next
    assume a: "mt_abs m k = Some (Some d)"
    then have "k \<in> set (map mw_id (mt_live_rows m))"
      unfolding mt_live_rows_correct(1) [OF assms] live_ids_def by blast
    then obtain r where r: "r \<in> set (mt_live_rows m)" "mw_id r = k" by auto
    with live_row_abs(1) [OF assms r(1)] a show "(k, d) \<in> set (live_docs m)" by (force simp: live_docs_def)
  qed
  then show "(k, d) \<in> set (live_docs m) \<longleftrightarrow> mt_abs m k = Some (Some d)" .
  show "map_of (live_docs m) k = (case mt_abs m k of Some d \<Rightarrow> d | None \<Rightarrow> None)"
  proof (cases "map_of (live_docs m) k")
    case None
    then have "(k, d) \<notin> set (live_docs m)" for d by (force simp: map_of_eq_None_iff)
    with one have "mt_abs m k \<noteq> Some (Some d)" for d by blast
    then have "mt_abs m k = None \<or> mt_abs m k = Some None" by (metis option.exhaust)
    with None show ?thesis by auto
  next
    case (Some d)
    then show ?thesis using map_of_SomeD [OF Some] one by simp
  qed
qed

lemma flush_rows_pushed:
  assumes "mt_inv m"
  shows "try_fold (flush_row m) (mt_live_rows m) w = push_rows (map pushed (live_docs m)) w"
proof -
  have "flush_row m r v = (case pushed (mw_id r, row_doc m r) of (bs, rec, idb, n) \<Rightarrow> push_segment_row bs rec idb n) v"
    if "r \<in> set (mt_live_rows m)" for r v
    using live_row_abs(2) [OF assms that] by (simp add: flush_row_def pushed_def stored_record_def row_doc_def)
  then show ?thesis
    by (simp add: push_rows_def live_docs_def try_fold_map comp_def cong: try_fold_cong)
qed

lemma parent_of_join:
  assumes "path_join d c = Inr q"
  shows "parent_of q = d"
proof -
  from assms have c: "SEP \<notin> set c" and q: "q = push_component d c"
    by (auto simp: path_join_def Let_def check_component_iff plain_def elim!: rbind_InrE split: if_splits)
  have "dropWhile (\<lambda>b. b \<noteq> SEP) (rev c @ SEP # rest) = SEP # rest" for rest
    using c by (subst dropWhile_append2) auto
  with c q show ?thesis by (simp add: parent_of_def path_parent_def push_component_def path_root_def)
qed

lemma segment_file_parent:
  "segments_dir name = Inr d \<Longrightarrow> segment_file name n k = Inr p \<Longrightarrow> parent_of p = d"
  using parent_of_join by (auto simp: segment_file_def)

lemma segments_dir_parses:
  assumes "segments_dir name = Inr d"
  shows "path_parse d = Inr d"
proof -
  from assms obtain d0 where d0: "collection_dir name = Inr d0" and j: "path_join d0 (ascii ''segments'') = Inr d"
    by (auto simp: segments_dir_def elim!: rbind_InrE)
  from collection_dir_components [OF d0] have pl: "list_all plain [ascii ''collections'', name]"
    and e: "d0 = intercal [ascii ''collections'', name]" by blast+
  from j [unfolded e] have "plain (ascii ''segments'')" "d = intercal ([ascii ''collections'', name] @ [ascii ''segments''])"
    "length d \<le> 1024" unfolding path_join_intercal [OF pl] by blast+
  with pl split_intercal [of "[ascii ''collections'', name] @ [ascii ''segments'']"]
  show ?thesis unfolding path_parse_plain by auto
qed

context storage_contract
begin

lemma flush_memtable_dirs:
  assumes "good s" and "mt_inv m" and "flush_rows cat m = Inr w" and "segment_fits w"
    and "flush_memtable st cat n m s = (Inr r, s')" and "dirs s' q"
  shows "dirs s q \<or> (\<exists>d n. segments_dir (cat_name cat) = Inr d \<and> q = intercal (take n (path_components d)))"
proof -
  from assms(3) obtain w0 where w0: "new_writers cat = Inr w0" "try_fold (flush_row m) (mt_live_rows m) w0 = Inr w"
    unfolding flush_rows_def by (rule rbind_InrE)
  from assms(5) obtain d s1 where d: "segments_dir (cat_name cat) = Inr d" and c: "st_create_dir_all st d s = (Inr (), s1)"
    and x: "write_segment st (cat_name cat) n w s1 = (Inr (fr_segment r), s')"
    unfolding flush_memtable_def Let_def by (auto simp: w0 elim!: io_bind_InrE)
  note p = segments_dir_parses [OF d]
  have "good s1" using create_dirs [OF assms(1) c p] by blast
  have "\<forall>k. length (seg_bytes w (all_live (vw_rows (sw_vectors w)) 0) k) < 2 ^ 64"
    using seg_bytes_short [OF w0(1) w0(2) [unfolded flush_rows_pushed [OF assms(2)]] assms(4) all_live_correct(1)] by blast
  with write_segment_ok [OF \<open>good s1\<close> x] assms(6) have "dirs s1 q" by simp
  with create_dirs_new [OF assms(1) c p] d show ?thesis by blast
qed

lemma flush_memtable_ok:
  assumes "good s" and "mt_inv m" and "flush_rows cat m = Inr w" and "segment_fits w"
    and "flush_memtable st cat n m s = (Inr r, s')"
  shows "good s' \<and> (\<forall>q. dirs s q \<longrightarrow> dirs s' q) \<and> (\<forall>h q. stands s h q \<longrightarrow> stands s' h q)
     \<and> r = \<lparr>fr_segment = \<lparr>sr_id = n, sr_rows = vw_rows (sw_vectors w), sr_del_generation = 0\<rparr>, fr_pending = mt_deleted_ids m\<rparr>
     \<and> holds_segment (files s') (cat_name cat) n w (all_live (vw_rows (sw_vectors w)) 0)
     \<and> holds_segment (files (crash s')) (cat_name cat) n w (all_live (vw_rows (sw_vectors w)) 0)
     \<and> (\<forall>q. (\<forall>k. segment_file (cat_name cat) n k \<noteq> Inr q) \<longrightarrow> files s' q = files s q)"
proof -
  from assms(3) obtain w0 where w0: "new_writers cat = Inr w0" "try_fold (flush_row m) (mt_live_rows m) w0 = Inr w"
    unfolding flush_rows_def by (rule rbind_InrE)
  from assms(5) obtain d s1 where d: "segments_dir (cat_name cat) = Inr d" and c: "st_create_dir_all st d s = (Inr (), s1)"
    and x: "write_segment st (cat_name cat) n w s1 = (Inr (fr_segment r), s')" and fp: "fr_pending r = mt_deleted_ids m"
    unfolding flush_memtable_def Let_def by (auto simp: w0 elim!: io_bind_InrE)
  note c1 = create_dirs [OF assms(1) c segments_dir_parses [OF d]]
  from c1 have "good s1" by blast
  have "\<forall>k. length (seg_bytes w (all_live (vw_rows (sw_vectors w)) 0) k) < 2 ^ 64"
    using seg_bytes_short [OF w0(1) w0(2) [unfolded flush_rows_pushed [OF assms(2)]] assms(4) all_live_correct(1)] by blast
  from write_segment_ok [OF \<open>good s1\<close> x this] c1 fp show ?thesis by (cases r) auto
qed

lemma flush_memtable_opens:
  assumes "good s" and "mt_inv m" and "flush_rows cat m = Inr w" and "segment_fits w"
    and "flush_memtable st cat n m s = (Inr r, s')" and "list_all (storable cat) (live_docs m)"
    and "good t" and "holds_segment (files t) (cat_name cat) n w (all_live (vw_rows (sw_vectors w)) 0)"
  shows "\<exists>seg. sd_open st cat (fr_segment r) t = (Inr seg, t) \<and> seg_shows seg (live_docs m)
     \<and> seg_live seg = {..<length (live_docs m)} \<and> sd_id seg = n"
proof -
  let ?a = "all_live (vw_rows (sw_vectors w)) 0"
  from assms(3) obtain w0 where w0: "new_writers cat = Inr w0" "push_rows (map pushed (live_docs m)) w0 = Inr w"
    unfolding flush_rows_def by (rule rbind_InrE) (simp add: flush_rows_pushed [OF assms(2)])
  have ts: "ts_rows ?a = vw_rows (sw_vectors w)" by (simp add: all_live_def)
  have r: "fr_segment r = \<lparr>sr_id = n, sr_rows = vw_rows (sw_vectors w), sr_del_generation = 0\<rparr>"
    using flush_memtable_ok [OF assms(1-5)] by simp
  from sd_open_written [OF assms(7,8) w0 assms(4,6) live_docs_correct(1) [OF assms(2)] all_live_correct(1) ts, of 0]
  obtain seg where seg: "sd_open st cat (fr_segment r) t = (Inr seg, t)" "seg_shows seg (live_docs m)" "sd_tombstones seg = ?a"
    "sd_id seg = n" unfolding r by blast
  have "unat (vw_rows (sw_vectors w)) = length (live_docs m)" using seg(2) seg(3) by (simp add: seg_shows_def all_live_def)
  with seg show ?thesis by (auto simp: seg_live_def all_live_correct)
qed

end

lemma sd_read_all_live:
  assumes "seg_shows seg xs" and "seg_live seg = {..<length xs}"
  shows "sd_read seg k = map_of xs k"
proof (cases "map_of xs k")
  case None
  then have "k \<notin> fst ` set xs" by (simp only: map_of_eq_None_iff not_False_eq_True)
  with sd_read_shows(2) [OF assms(1), of k] None show ?thesis by simp
next
  case (Some d)
  then have "(k, d) \<in> set xs" by (rule map_of_SomeD)
  then obtain i where "i < length xs" "xs ! i = (k, d)" by (auto simp: in_set_conv_nth)
  with sd_read_shows(1) [OF assms(1), of i] assms(2) Some show ?thesis by simp
qed

text \<open>Rows pushed and written are found again, now and after a power cut.\<close>

lemma all_live_rows:
  assumes "seg_shows seg xs" and "seg_live seg = {..<length xs}"
  shows "unat (sd_rows seg) = length xs" and "row < sd_rows seg \<Longrightarrow> sd_is_live seg row"
proof -
  from assms(1) have l: "length xs < 2 ^ 32" "length (sd_entries seg) = length xs" "ts_inv (sd_tombstones seg)"
    by (auto simp: seg_shows_def)
  then show rows: "unat (sd_rows seg) = length xs" by (simp add: sd_rows_def)
  show "row < sd_rows seg \<Longrightarrow> sd_is_live seg row"
    using is_live_iff [OF l(3), of row] assms(2) rows by (simp add: sd_is_live_def seg_live_def word_less_nat_alt)
qed

context storage_contract
begin

lemma rows_written:
  assumes "good s" and "segments_dir (cat_name cat) = Inr d" and "dirs s d"
    and "\<forall>k. \<exists>p. segment_file (cat_name cat) n k = Inr p \<and> \<not> dirs s p"
    and "new_writers cat = Inr w0" and "push_rows (map pushed xs) w0 = Inr w" and "segment_fits w"
    and "list_all (storable cat) xs" and "distinct (map fst xs)"
  shows "\<exists>r s'. write_segment st (cat_name cat) n w s = (Inr r, s') \<and> good s' \<and> dirs s' = dirs s
     \<and> (\<forall>q. (\<forall>k. segment_file (cat_name cat) n k \<noteq> Inr q) \<longrightarrow> files s' q = files s q)
     \<and> (\<forall>t. t = s' \<or> t = crash s' \<longrightarrow> (\<exists>seg. sd_open st cat r t = (Inr seg, t) \<and> seg_shows seg xs
          \<and> seg_live seg = {..<length xs} \<and> (\<forall>k. sd_read seg k = map_of xs k)))"
proof -
  let ?t = "all_live (vw_rows (sw_vectors w)) 0"
  have sh: "\<forall>k. length (seg_bytes w ?t k) < 2 ^ 64" using seg_bytes_short [OF assms(5-7) all_live_correct(1)] by blast
  have "\<forall>k. \<exists>p. segment_file (cat_name cat) n k = Inr p \<and> \<not> dirs s p \<and> dirs s (parent_of p)"
    using assms(3,4) segment_file_parent [OF assms(2)] by metis
  from write_segment_total [OF assms(1) sh this] obtain r s' where w: "write_segment st (cat_name cat) n w s = (Inr r, s')" by blast
  note ok = write_segment_ok [OF assms(1) w sh]
  have ts: "ts_rows ?t = vw_rows (sw_vectors w)" by (simp add: all_live_def)
  have op: "\<exists>seg. sd_open st cat r t = (Inr seg, t) \<and> seg_shows seg xs
      \<and> seg_live seg = {..<length xs} \<and> (\<forall>k. sd_read seg k = map_of xs k)"
    if "good t" "holds_segment (files t) (cat_name cat) n w ?t" for t
  proof -
    from sd_open_written [OF that assms(5-9) all_live_correct(1) ts, of 0] ok obtain seg where
      seg: "sd_open st cat r t = (Inr seg, t)" "seg_shows seg xs" "sd_tombstones seg = ?t" by auto
    then have "unat (ts_rows ?t) = length xs" by (auto simp: seg_shows_def)
    with seg(3) have "seg_live seg = {..<length xs}" by (simp add: seg_live_def all_live_correct ts)
    with seg sd_read_all_live [OF seg(2) this] show ?thesis by blast
  qed
  have "good (crash s')" using crash_law ok by blast
  with op ok have o: "\<forall>t. t = s' \<or> t = crash s' \<longrightarrow> (\<exists>seg. sd_open st cat r t = (Inr seg, t) \<and> seg_shows seg xs
      \<and> seg_live seg = {..<length xs} \<and> (\<forall>k. sd_read seg k = map_of xs k))" by blast
  have f: "\<forall>q. (\<forall>k. segment_file (cat_name cat) n k \<noteq> Inr q) \<longrightarrow> files s' q = files s q" and g: "good s'" "dirs s' = dirs s" using ok by blast+
  show ?thesis by (intro exI conjI) (rule w, rule g, rule g, rule f, rule o)
qed

end

text \<open>A collection named \<open>a\<close> on an empty backend.\<close>

lemma example_dirs:
  assumes "n = 1 \<or> n = 2"
  shows "\<exists>d s1. segments_dir [0x61] = Inr d \<and> mem_create_dir_all d mem_new = (Inr (), s1)
     \<and> (\<forall>k. \<exists>p. segment_file [0x61] n k = Inr p \<and> \<not> is_dir s1 p)
     \<and> (\<forall>s. is_dir s = is_dir s1 \<longrightarrow> mem_create_dir_all d s = (Inr (), s))"
proof -
  have dc: "decimal 1 = [0x31]" "decimal 2 = [0x32]" by (simp_all add: decimal.simps)
  then have "pad6 1 = replicate 5 0x30 @ [0x31]" "pad6 2 = replicate 5 0x30 @ [0x32]" by (simp_all add: pad6_def)
  then have pn: "\<exists>x. pad6 n = replicate 5 0x30 @ [x] \<and> x \<noteq> 0 \<and> x \<noteq> 0x2F \<and> x \<noteq> 0x5C" using assms by auto
  have pk: "plain (pad6 n @ ascii (CHR ''.'' # extension k))" for k
    using pn by (cases k) (auto simp: plain_def ascii_def SEP_def append_eq_Cons_conv)
  have pl: "plain (ascii ''collections'')" "plain [0x61]" "plain (ascii ''segments'')"
    by (simp add: plain_def ascii_def SEP_def)+
  have jn: "path_join p c = Inr (push_component p c)" if "plain c" "length (push_component p c) \<le> 1024" for p c
    using that by (simp add: path_join_def MAX_PATH_LEN_def Let_def check_component_iff)
  have n: "check_collection_name [0x61] = Inr ()"
    by (simp add: check_collection_name_def ascii_def MAX_COLLECTION_NAME_LEN_def is_valid_name_byte_def)
  let ?d1 = "ascii ''collections''" and ?d2 = "ascii ''collections'' @ SEP # [0x61]"
  let ?d3 = "ascii ''collections'' @ SEP # 0x61 # SEP # ascii ''segments''"
  have lp: "length (pad6 n) = 6" "pad6 n \<noteq> []" using pn by auto
  have cd: "segments_dir [0x61] = Inr ?d3"
    by (simp add: segments_dir_def collection_dir_def collections_dir_def n jn pl push_component_def path_root_def)
  have pf: "segment_file [0x61] n k = Inr (?d3 @ SEP # pad6 n @ ascii (CHR ''.'' # extension k))" for k
  proof -
    have "length (push_component ?d3 (pad6 n @ ascii (CHR ''.'' # extension k))) \<le> 1024"
      by (cases k; simp add: push_component_def lp)
    from jn [OF pk this] show ?thesis by (simp add: segment_file_def cd push_component_def)
  qed
  have pc: "path_components ?d3 = [ascii ''collections'', [0x61], ascii ''segments'']"
    using components_intercal [of "[ascii ''collections'', [0x61], ascii ''segments'']"] pl by simp
  have ne: "?d1 \<noteq> []" "?d2 \<noteq> []" "?d3 \<noteq> []" "?d2 \<noteq> ?d1" "?d3 \<noteq> ?d1" "?d3 \<noteq> ?d2" by (simp_all add: ascii_def)
  have step: "create_dir_step c p s0 = (Inr q, s0\<lparr>mi_entries := btree_insert q EDir (mi_entries s0)\<rparr>)"
    if "path_join p c = Inr q" "get_entry s0 q = None" for c p q s0
    using that by (simp add: create_dir_step_def)
  have j: "path_join path_root (ascii ''collections'') = Inr ?d1" "path_join ?d1 [0x61] = Inr ?d2"
    "path_join ?d2 (ascii ''segments'') = Inr ?d3" by (simp_all add: jn pl push_component_def path_root_def)
  have e0: "get_entry mem_new q = (if q = [] then Some EDir else None)" for q
    by (simp add: mem_new_def get_entry_def path_root_def)
  obtain s1 where s1: "mem_create_dir_all ?d3 mem_new = (Inr (), s1)"
    and e1: "get_entry s1 = (get_entry mem_new)(?d1 \<mapsto> EDir, ?d2 \<mapsto> EDir, ?d3 \<mapsto> EDir)"
    by (simp add: mem_create_dir_all_def pc step j e0 ne ext)
  have nd: "\<forall>k. \<exists>p. segment_file [0x61] n k = Inr p \<and> \<not> is_dir s1 p"
    by (simp add: pf is_dir_def e1 e0)
  have again: "mem_create_dir_all ?d3 s = (Inr (), s)" if "is_dir s = is_dir s1" for s
  proof -
    have "is_dir s1 ?d1" "is_dir s1 ?d2" "is_dir s1 ?d3" by (simp_all add: is_dir_def e1)
    then have "get_entry s ?d1 = Some EDir" "get_entry s ?d2 = Some EDir" "get_entry s ?d3 = Some EDir"
      using that by (simp_all add: is_dir_def [abs_def] fun_eq_iff)
    then show ?thesis by (simp add: mem_create_dir_all_def pc create_dir_step_def j)
  qed
  show ?thesis by (intro exI conjI) (rule cd, rule s1, rule nd, use again in blast)
qed

subsection \<open>Properties\<close>

text \<open>
  Property C7.  A flush makes the memtable's contents durable.  Let the memtable be well formed,
  its documents storable under the catalog and the files small enough for their length fields.
  When the segments directory can be made and no directory stands at the new files' paths, the
  flush returns; then the segment it names opens, also after a power cut, every row of it is
  live, reading any id gives what the memtable held for it, and the ids the memtable had deleted
  are returned for the older segments.  No other file has changed.
\<close>

theorem flush_segment_correct:
  assumes "mem_good s" and "mt_inv m" and "flush_rows cat m = Inr w" and "segment_fits w" and "list_all (storable cat) (live_docs m)"
    and "segments_dir (cat_name cat) = Inr d" and "mem_create_dir_all d s = (Inr (), s1)"
    and "\<forall>k. \<exists>p. segment_file (cat_name cat) n k = Inr p \<and> \<not> is_dir s1 p"
  shows "\<exists>r s'. flush_memtable memory_storage cat n m s = (Inr r, s') \<and> mem_good s'
     \<and> (\<forall>t. t = s' \<or> t = simulate_power_loss s' \<longrightarrow>
          (\<exists>seg. sd_open memory_storage cat (fr_segment r) t = (Inr seg, t) \<and> unat (sd_rows seg) = mt_len m
             \<and> (\<forall>row < sd_rows seg. sd_is_live seg row)
             \<and> (\<forall>k. sd_read seg k = (case mt_abs m k of Some x \<Rightarrow> x | None \<Rightarrow> None))))
     \<and> set (fr_pending r) = {k. mt_abs m k = Some None}
     \<and> (\<forall>q. (\<forall>k. segment_file (cat_name cat) n k \<noteq> Inr q) \<longrightarrow> mem_files s' q = mem_files s q)"
proof -
  let ?xs = "live_docs m"
  from assms(3) obtain w0 where w0: "new_writers cat = Inr w0" "try_fold (flush_row m) (mt_live_rows m) w0 = Inr w"
    unfolding flush_rows_def by (rule rbind_InrE)
  have c: "st_create_dir_all memory_storage d s = (Inr (), s1)" using assms(7) by (simp add: memory_storage_def)
  from mem.create_dirs [OF assms(1) c segments_dir_parses [OF assms(6)]] have s1: "mem_good s1" "is_dir s1 d" "mem_files s1 = mem_files s" by blast+
  from mem.rows_written [OF s1(1) assms(6) s1(2) assms(8) w0(1) w0(2) [unfolded flush_rows_pushed [OF assms(2)]] assms(4,5)
      live_docs_correct(1) [OF assms(2)]] obtain r0 s' where
    w: "write_segment memory_storage (cat_name cat) n w s1 = (Inr r0, s')" "mem_good s'"
      "\<forall>q. (\<forall>k. segment_file (cat_name cat) n k \<noteq> Inr q) \<longrightarrow> mem_files s' q = mem_files s1 q"
    and op: "\<And>t. t = s' \<or> t = simulate_power_loss s' \<Longrightarrow> \<exists>seg. sd_open memory_storage cat r0 t = (Inr seg, t) \<and> seg_shows seg ?xs
       \<and> seg_live seg = {..<length ?xs} \<and> (\<forall>k. sd_read seg k = map_of ?xs k)" by blast
  have fl: "flush_memtable memory_storage cat n m s = (Inr \<lparr>fr_segment = r0, fr_pending = mt_deleted_ids m\<rparr>, s')"
    using w(1) by (simp add: flush_memtable_def Let_def assms(6) c w0)
  have "length ?xs = mt_len m"
    using mt_len_card [OF assms(2)] mt_live_rows_correct(1,2) [OF assms(2)] distinct_card [of "map mw_id (mt_live_rows m)"]
    by (simp add: live_docs_def)
  then have "\<exists>seg. sd_open memory_storage cat r0 t = (Inr seg, t) \<and> unat (sd_rows seg) = mt_len m
      \<and> (\<forall>row < sd_rows seg. sd_is_live seg row) \<and> (\<forall>k. sd_read seg k = (case mt_abs m k of Some x \<Rightarrow> x | None \<Rightarrow> None))"
    if "t = s' \<or> t = simulate_power_loss s'" for t
    using op [OF that] all_live_rows live_docs_correct(2) [OF assms(2)] by metis
  with fl w(2,3) s1(3) mt_deleted_ids_correct(2) [OF assms(2)] show ?thesis by auto
qed

theorem flush_segment_correct_witness:
  "\<exists>r s' seg. flush_memtable memory_storage
        \<lparr>cat_name = [0x61], cat_dimension = 1, cat_metric = Dot, cat_dtype = F32, cat_id_kind = U64Id, cat_index = Flat,
         cat_created_at_ms = 0\<rparr> 1
        \<lparr>mt_dimension = 1, mt_dtype = F32, mt_stride = 4, mt_arena = [0, 0, 0x80, 0x3F],
         mt_rows = [\<lparr>mw_id = DocU64 7, mw_offset = 0, mw_inv_norm = 0x3F800000, mw_metadata = None, mw_content = None\<rparr>],
         mt_index = [(DocU64 7, Row 0), (DocU64 8, SlotDeleted)], mt_tombstones = 1, mt_metadata_bytes = 0\<rparr> mem_new = (Inr r, s')
     \<and> sd_open memory_storage
        \<lparr>cat_name = [0x61], cat_dimension = 1, cat_metric = Dot, cat_dtype = F32, cat_id_kind = U64Id, cat_index = Flat,
         cat_created_at_ms = 0\<rparr> (fr_segment r) (simulate_power_loss s') = (Inr seg, simulate_power_loss s')
     \<and> sd_read seg (DocU64 7) = Some ([0, 0, 0x80, 0x3F], 0x3F800000, None, None) \<and> sd_read seg (DocU64 8) = None"
proof -
  let ?c = "\<lparr>cat_name = [0x61], cat_dimension = 1, cat_metric = Dot, cat_dtype = F32, cat_id_kind = U64Id, cat_index = Flat,
         cat_created_at_ms = 0\<rparr>"
  let ?m = "\<lparr>mt_dimension = 1, mt_dtype = F32, mt_stride = 4, mt_arena = [0, 0, 0x80, 0x3F],
         mt_rows = [\<lparr>mw_id = DocU64 7, mw_offset = 0, mw_inv_norm = 0x3F800000, mw_metadata = None, mw_content = None\<rparr>],
         mt_index = [(DocU64 7, Row 0), (DocU64 8, SlotDeleted)], mt_tombstones = 1, mt_metadata_bytes = 0\<rparr>"
  have inv: "mt_inv ?m" by (simp add: mt_inv_def dtype_row_stride_def)
  have lr: "mt_live_rows ?m = mt_rows ?m" by (simp add: mt_live_rows_def row_indices_def List.map_filter_def)
  have ld: "live_docs ?m = [(DocU64 7, ([0, 0, 0x80, 0x3F], 0x3F800000, None, None))]"
    unfolding live_docs_def lr by (simp add: row_doc_def)
  have fits: "is_ok (flush_rows ?c ?m) \<and> (\<forall>w. flush_rows ?c ?m = Inr w \<longrightarrow> segment_fits w)"
    unfolding flush_rows_def lr
    by (simp add: new_writers_def vw_new_def cat_row_stride_def dtype_row_stride_def flush_row_def mt_vector_bytes_def slice_def
        push_segment_row_def vw_push_row_def mw_push_def mr_is_empty_def dw_push_def Let_def f32_is_finite_def dw_new_def segment_fits_def)
  then obtain w where w: "flush_rows ?c ?m = Inr w" "segment_fits w" by (auto elim!: is_okE)
  have st: "list_all (storable ?c) (live_docs ?m)"
    unfolding ld using id_bytes_roundtrip [of "DocU64 7" U64Id] by (simp add: storable_def stored_record_def mr_wf_def id_wf_def del: id_to_bytes.simps id_from_bytes.simps)
  obtain d s1 where d: "segments_dir [0x61] = Inr d" "mem_create_dir_all d mem_new = (Inr (), s1)"
    "\<forall>k. \<exists>p. segment_file [0x61] 1 k = Inr p \<and> \<not> is_dir s1 p"
    using example_dirs [of 1] by auto
  have ad: "segments_dir (cat_name ?c) = Inr d" and nd: "\<forall>k. \<exists>p. segment_file (cat_name ?c) 1 k = Inr p \<and> \<not> is_dir s1 p"
    using d by simp_all
  from flush_segment_correct [OF mem_good_new inv w st ad d(2) nd] obtain r s' where
    f: "flush_memtable memory_storage ?c 1 ?m mem_new = (Inr r, s')"
    and o: "\<exists>seg. sd_open memory_storage ?c (fr_segment r) (simulate_power_loss s') = (Inr seg, simulate_power_loss s')
       \<and> (\<forall>k. sd_read seg k = (case mt_abs ?m k of Some x \<Rightarrow> x | None \<Rightarrow> None))"
    by blast
  from o obtain seg where "sd_open memory_storage ?c (fr_segment r) (simulate_power_loss s') = (Inr seg, simulate_power_loss s')"
    "\<forall>k. sd_read seg k = (case mt_abs ?m k of Some x \<Rightarrow> x | None \<Rightarrow> None)" by blast
  moreover from this(2) have "sd_read seg (DocU64 7) = Some ([0, 0, 0x80, 0x3F], 0x3F800000, None, None)" "sd_read seg (DocU64 8) = None"
    by (simp_all add: mt_abs_def row_doc_def)
  ultimately show ?thesis using f by blast
qed

end
