(* ===== verification/Segment_Compact.thy ===== *)
theory Segment_Compact
  imports Segment_Flush
begin

text \<open>
  Compaction (\<open>compact_segments\<close> of \<open>core/src/persistence/segment.rs\<close>): the live rows of the
  sources, in order, are the rows of the new segment.
\<close>

definition live_part :: "segment_data \<Rightarrow> (doc_id \<times> stored) list \<Rightarrow> (doc_id \<times> stored) list" where
  "live_part seg xs = map ((!) xs) (filter (\<lambda>i. sd_is_live seg (of_nat i)) [0..<length xs])"

definition compact_source :: "segment_data \<Rightarrow> segment_writers \<Rightarrow> segment_writers db_result" where
  "compact_source seg w = rbind (sd_vectors seg) (\<lambda>block. try_fold (compact_row seg block) [0..<unat (sd_rows seg)] w)"

text \<open>The writers a compaction fills.\<close>

definition compact_rows :: "catalog \<Rightarrow> segment_data list \<Rightarrow> segment_writers db_result" where
  "compact_rows cat sources = rbind (new_writers cat) (try_fold compact_source sources)"

lemma push_rows_append: "push_rows (xs @ ys) w = rbind (push_rows xs w) (push_rows ys)"
  by (simp add: push_rows_def try_fold_append)

lemma compact_row_pushed:
  assumes "seg_shows seg xs" and "sd_vectors seg = Inr b" and "i < length xs" and "sd_is_live seg (of_nat i)"
  shows "compact_row seg b i w = push_rows [pushed (xs ! i)] w"
proof -
  from assms(1-3) have "vb_row b (of_nat i) = Some (fst (snd (xs ! i)))" "sd_id_at seg (of_nat i) = Some (fst (xs ! i))"
    "sd_inv_norm seg (of_nat i) = Some (fst (snd (snd (xs ! i))))"
    "sd_meta_record seg (of_nat i) = Inr (stored_record (snd (xs ! i)))"
    by (auto simp: seg_shows_def sd_id_at_def)
  with assms(4) show ?thesis
    by (cases "push_segment_row (fst (snd (xs ! i))) (stored_record (snd (xs ! i))) (id_to_bytes (fst (xs ! i))) (fst (snd (snd (xs ! i)))) w")
      (simp_all add: compact_row_def Let_def push_rows_def pushed_def push_segment_row_def)
qed

lemma compact_rows_pushed:
  assumes "seg_shows seg xs"
  shows "compact_source seg w = push_rows (map pushed (live_part seg xs)) w"
proof -
  from assms obtain b where b: "sd_vectors seg = Inr b" by (auto simp: seg_shows_def)
  have n: "unat (sd_rows seg) = length xs" using assms by (simp add: seg_shows_def sd_rows_def)
  have "try_fold (compact_row seg b) is w = push_rows (map (\<lambda>i. pushed (xs ! i)) (filter (\<lambda>i. sd_is_live seg (of_nat i)) is)) w"
    if "set is \<subseteq> {..<length xs}" for "is" w
    using that
  proof (induction "is" arbitrary: w)
    case Nil
    then show ?case by (simp add: push_rows_def)
  next
    case (Cons i js)
    have IH: "try_fold (compact_row seg b) js = push_rows (map (\<lambda>i. pushed (xs ! i)) (filter (\<lambda>i. sd_is_live seg (of_nat i)) js))"
      using Cons by auto
    show ?case
    proof (cases "sd_is_live seg (of_nat i)")
      case True
      let ?ys = "map (\<lambda>i. pushed (xs ! i)) (filter (\<lambda>i. sd_is_live seg (of_nat i)) js)"
      have "push_rows (pushed (xs ! i) # ?ys) w = rbind (compact_row seg b i w) (push_rows ?ys)"
        using push_rows_append [of "[pushed (xs ! i)]" ?ys w] compact_row_pushed [OF assms b _ True, of w] Cons.prems by simp
      then show ?thesis using True by (simp add: IH)
    next
      case False
      then have "compact_row seg b i w = Inr w" by (simp add: compact_row_def Let_def)
      with IH False show ?thesis by simp
    qed
  qed
  from this [of "[0..<length xs]" w] show ?thesis
    by (simp add: atLeast0LessThan compact_source_def b n live_part_def comp_def)
qed

lemma compact_sources_pushed:
  "list_all2 seg_shows sources xss \<Longrightarrow>
     try_fold compact_source sources w = push_rows (map pushed (concat (map2 live_part sources xss))) w"
proof (induction arbitrary: w rule: list_all2_induct)
  case Nil
  then show ?case by (simp add: push_rows_def)
next
  case (Cons seg segs xs xss)
  then have "try_fold compact_source segs = push_rows (map pushed (concat (map2 live_part segs xss)))" by (intro ext)
  with compact_rows_pushed [OF Cons(1)] show ?case by (simp add: push_rows_append)
qed

lemma sd_read_live_part:
  assumes "seg_shows seg xs"
  shows "sd_read seg k = map_of (live_part seg xs) k" and "distinct (map fst (live_part seg xs))"
    and "set (live_part seg xs) \<subseteq> set xs"
proof -
  have d: "distinct (map fst xs)" and ti: "ts_inv (sd_tombstones seg)" and l: "length xs < 2 ^ 32" using assms by (auto simp: seg_shows_def)
  have lv: "sd_is_live seg (of_nat i) \<longleftrightarrow> i \<in> seg_live seg" if "i < length xs" for i
    using is_live_iff [OF ti, of "of_nat i"] that l by (simp add: sd_is_live_def seg_live_def)
  have "inj_on (\<lambda>i. fst (xs ! i)) {..<length xs}" using nth_eq_iff_index_eq [OF d] by (auto simp: inj_on_def)
  then show dl: "distinct (map fst (live_part seg xs))"
    by (auto simp: live_part_def distinct_map comp_def intro: inj_on_subset)
  show "set (live_part seg xs) \<subseteq> set xs" by (auto simp: live_part_def)
  have mem: "(k, d) \<in> set (live_part seg xs) \<longleftrightarrow> sd_read seg k = Some d" for d
  proof (cases "k \<in> fst ` set xs")
    case True
    then obtain i where i: "i < length xs" "fst (xs ! i) = k" by (force simp: in_set_conv_nth)
    have "(k, d) \<in> set (live_part seg xs) \<longleftrightarrow> i \<in> seg_live seg \<and> snd (xs ! i) = d"
    proof
      assume "(k, d) \<in> set (live_part seg xs)"
      then obtain j where j: "j < length xs" "sd_is_live seg (of_nat j)" "xs ! j = (k, d)" by (auto simp: live_part_def)
      with i d have "j = i" using nth_eq_iff_index_eq [of "map fst xs" j i] by simp
      with j lv show "i \<in> seg_live seg \<and> snd (xs ! i) = d" by auto
    next
      assume "i \<in> seg_live seg \<and> snd (xs ! i) = d"
      moreover from this i have "xs ! i = (k, d)" by auto
      ultimately show "(k, d) \<in> set (live_part seg xs)" using i lv by (force simp: live_part_def)
    qed
    with sd_read_shows(1) [OF assms i(1)] i(2) show ?thesis by auto
  next
    case False
    then show ?thesis using sd_read_shows(2) [OF assms] \<open>set (live_part seg xs) \<subseteq> set xs\<close> by force
  qed
  show "sd_read seg k = map_of (live_part seg xs) k"
  proof (cases "map_of (live_part seg xs) k")
    case None
    then have "(k, d) \<notin> set (live_part seg xs)" for d by (force simp: map_of_eq_None_iff)
    with mem have "sd_read seg k \<noteq> Some d" for d by blast
    with None show ?thesis by (metis option.exhaust)
  next
    case (Some d)
    then show ?thesis using map_of_SomeD [OF Some] mem by simp
  qed
qed

lemma compact_reads:
  assumes "list_all2 seg_shows sources xss"
    and "\<forall>i < length sources. \<forall>j < i. \<forall>k. sd_read (sources ! i) k = None \<or> sd_read (sources ! j) k = None"
  shows "distinct (map fst (concat (map2 live_part sources xss)))"
    and "map_of (concat (map2 live_part sources xss)) k = Some d \<longleftrightarrow> (\<exists>src \<in> set sources. sd_read src k = Some d)"
proof -
  have "distinct (map fst (concat (map2 live_part sources xss)))
      \<and> (\<forall>k d. map_of (concat (map2 live_part sources xss)) k = Some d \<longleftrightarrow> (\<exists>src \<in> set sources. sd_read src k = Some d))"
    using assms
  proof (induction rule: list_all2_induct)
    case Nil
    then show ?case by simp
  next
    case (Cons seg segs xs xss)
    let ?rest = "concat (map2 live_part segs xss)"
    have ap: "sd_read (segs ! i) k = None \<or> sd_read seg k = None" if "i < length segs" for i k
      using Cons.prems [rule_format, of "Suc i" 0 k] that by simp
    have "\<forall>i < length segs. \<forall>j < i. \<forall>k. sd_read (segs ! i) k = None \<or> sd_read (segs ! j) k = None"
      using Cons.prems [rule_format, of "Suc _" "Suc _"] by simp
    note ih = Cons.IH [OF this]
    note IH = ih [THEN conjunct1] ih [THEN conjunct2, rule_format]
    note lp = sd_read_live_part [OF Cons(1)]
    have off: "map_of ?rest k = None" if "sd_read seg k \<noteq> None" for k
    proof (rule ccontr)
      assume "map_of ?rest k \<noteq> None"
      then obtain d where "map_of ?rest k = Some d" by blast
      then obtain src where src: "src \<in> set segs" "sd_read src k = Some d" using IH(2) by blast
      then obtain i where "i < length segs" "segs ! i = src" by (auto simp: in_set_conv_nth)
      with ap src that show False by (metis option.distinct(1))
    qed
    have "k \<notin> fst ` set ?rest" if "k \<in> fst ` set (live_part seg xs)" for k
    proof -
      from that have "map_of (live_part seg xs) k \<noteq> None" by (simp only: map_of_eq_None_iff not_not)
      then have "map_of ?rest k = None" using off lp(1) by simp
      then show ?thesis by (simp only: map_of_eq_None_iff not_False_eq_True)
    qed
    then have "distinct (map fst (live_part seg xs @ ?rest))" using lp(2) IH(1) by (simp add: disjoint_iff) 
    moreover have "map_of (live_part seg xs @ ?rest) k = Some d \<longleftrightarrow> (\<exists>src \<in> set (seg # segs). sd_read src k = Some d)" for k d
    proof -
      have "map_of (live_part seg xs @ ?rest) k = (case sd_read seg k of None \<Rightarrow> map_of ?rest k | Some e \<Rightarrow> Some e)"
        using off [of k] by (simp add: map_add_def lp(1) split: option.splits)
      then show ?thesis using IH(2) [of k d] off [of k] by (cases "sd_read seg k") auto
    qed
    ultimately show ?case by simp
  qed
  then show "distinct (map fst (concat (map2 live_part sources xss)))"
    "map_of (concat (map2 live_part sources xss)) k = Some d \<longleftrightarrow> (\<exists>src \<in> set sources. sd_read src k = Some d)" by blast+
qed

subsection \<open>Properties\<close>

text \<open>
  Property C8.  Compaction preserves the contents.  Let the sources be open segments with no id
  live in two of them, their rows storable, and the new files small enough.  When the segments
  directory is there and no directory stands at the new files' paths, the compaction returns; the
  segment it writes opens, also after a power cut, all its rows are live, and reading an id in
  it gives exactly what reading it in the sources gave.  No other file has changed.
\<close>

theorem compact_segment_correct:
  assumes "mem_good s" and "list_all2 seg_shows sources xss"
    and "\<forall>i < length sources. \<forall>j < i. \<forall>k. sd_read (sources ! i) k = None \<or> sd_read (sources ! j) k = None"
    and "compact_rows cat sources = Inr w" and "segment_fits w" and "\<forall>xs \<in> set xss. list_all (storable cat) xs"
    and "segments_dir (cat_name cat) = Inr d" and "mem_create_dir_all d s = (Inr (), s1)"
    and "\<forall>k. \<exists>p. segment_file (cat_name cat) n k = Inr p \<and> \<not> is_dir s1 p"
  shows "\<exists>r s'. compact_segments memory_storage cat n sources s = (Inr r, s') \<and> mem_good s' \<and> fr_pending r = []
     \<and> (\<forall>t. t = s' \<or> t = simulate_power_loss s' \<longrightarrow>
          (\<exists>seg. sd_open memory_storage cat (fr_segment r) t = (Inr seg, t)
             \<and> (\<forall>row < sd_rows seg. sd_is_live seg row)
             \<and> (\<forall>k x. sd_read seg k = Some x \<longleftrightarrow> (\<exists>src \<in> set sources. sd_read src k = Some x))))
     \<and> (\<forall>q. (\<forall>k. segment_file (cat_name cat) n k \<noteq> Inr q) \<longrightarrow> mem_files s' q = mem_files s q)"
proof -
  let ?xs = "concat (map2 live_part sources xss)"
  note cr = compact_reads [OF assms(2,3)]
  from assms(4) obtain w0 where w0: "new_writers cat = Inr w0" "try_fold compact_source sources w0 = Inr w"
    unfolding compact_rows_def by (rule rbind_InrE)
  have st: "list_all (storable cat) ?xs"
    using assms(2,6) sd_read_live_part(3) by (force simp: list_all_iff list_all2_conv_all_nth in_set_zip)
  have c: "st_create_dir_all memory_storage d s = (Inr (), s1)" using assms(8) by (simp add: memory_storage_def)
  from mem.create_dirs [OF assms(1) c segments_dir_parses [OF assms(7)]] have s1: "mem_good s1" "is_dir s1 d" "mem_files s1 = mem_files s" by blast+
  from mem.rows_written [OF s1(1) assms(7) s1(2) assms(9) w0(1) w0(2) [unfolded compact_sources_pushed [OF assms(2)]] assms(5) st cr(1)]
  obtain r0 s' where w: "write_segment memory_storage (cat_name cat) n w s1 = (Inr r0, s')" "mem_good s'"
      "\<forall>q. (\<forall>k. segment_file (cat_name cat) n k \<noteq> Inr q) \<longrightarrow> mem_files s' q = mem_files s1 q"
    and op: "\<And>t. t = s' \<or> t = simulate_power_loss s' \<Longrightarrow> \<exists>seg. sd_open memory_storage cat r0 t = (Inr seg, t) \<and> seg_shows seg ?xs
       \<and> seg_live seg = {..<length ?xs} \<and> (\<forall>k. sd_read seg k = map_of ?xs k)" by blast
  have "compact_segments memory_storage cat n sources s = (Inr \<lparr>fr_segment = r0, fr_pending = []\<rparr>, s')"
    using w(1) w0 by (simp add: compact_segments_def Let_def assms(7) c compact_source_def [abs_def])
  moreover have "\<exists>seg. sd_open memory_storage cat r0 t = (Inr seg, t) \<and> (\<forall>row < sd_rows seg. sd_is_live seg row)
      \<and> (\<forall>k x. sd_read seg k = Some x \<longleftrightarrow> (\<exists>src \<in> set sources. sd_read src k = Some x))"
    if t: "t = s' \<or> t = simulate_power_loss s'" for t
  proof -
    from op [OF t] obtain seg where "sd_open memory_storage cat r0 t = (Inr seg, t)" "seg_shows seg ?xs"
      "seg_live seg = {..<length ?xs}" "\<forall>k. sd_read seg k = map_of ?xs k" by blast
    with all_live_rows(2) [of seg ?xs] cr(2) show ?thesis by (intro exI [of _ seg]) simp
  qed
  ultimately show ?thesis using w(2,3) s1(3) by auto
qed

theorem compact_segment_correct_witness:
  "\<exists>src s r s' seg. compact_segments memory_storage
        \<lparr>cat_name = [0x61], cat_dimension = 1, cat_metric = Dot, cat_dtype = F32, cat_id_kind = U64Id, cat_index = Flat,
         cat_created_at_ms = 0\<rparr> 2 [src] s = (Inr r, s')
     \<and> sd_open memory_storage
        \<lparr>cat_name = [0x61], cat_dimension = 1, cat_metric = Dot, cat_dtype = F32, cat_id_kind = U64Id, cat_index = Flat,
         cat_created_at_ms = 0\<rparr> (fr_segment r) (simulate_power_loss s') = (Inr seg, simulate_power_loss s')
     \<and> sd_read src (DocU64 7) = sd_read seg (DocU64 7) \<and> sd_read seg (DocU64 7) = Some ([0, 0, 0x80, 0x3F], 0x3F800000, None, None)"
proof -
  let ?c = "\<lparr>cat_name = [0x61], cat_dimension = 1, cat_metric = Dot, cat_dtype = F32, cat_id_kind = U64Id, cat_index = Flat,
         cat_created_at_ms = 0\<rparr>"
  let ?d = "([0, 0, 0x80, 0x3F], 0x3F800000, None, None) :: stored" and ?n = "cat_name ?c"
  let ?xs = "[(DocU64 7, ?d)]"
  obtain w0 where w0: "new_writers ?c = Inr w0"
    by (simp add: new_writers_def vw_new_def cat_row_stride_def dtype_row_stride_def)
  then have "is_ok (push_rows (map pushed ?xs) w0) \<and> (\<forall>w. push_rows (map pushed ?xs) w0 = Inr w \<longrightarrow> segment_fits w)"
    by (simp add: new_writers_Inr push_rows_def pushed_def stored_record_def cat_row_stride_def dtype_row_stride_def
        push_segment_row_def vw_push_row_def mw_push_def mr_is_empty_def dw_push_def Let_def f32_is_finite_def dw_new_def segment_fits_def)
  then obtain w where w: "push_rows (map pushed ?xs) w0 = Inr w" "segment_fits w" by (auto elim!: is_okE)
  have st: "list_all (storable ?c) ?xs" using id_bytes_roundtrip [of "DocU64 7" U64Id]
    by (simp add: storable_def stored_record_def mr_wf_def id_wf_def del: id_to_bytes.simps id_from_bytes.simps)
  have di: "distinct (map fst ?xs)" by simp
  obtain d s1 where d: "segments_dir ?n = Inr d" "mem_create_dir_all d mem_new = (Inr (), s1)"
    and p1: "\<forall>k. \<exists>p. segment_file ?n 1 k = Inr p \<and> \<not> is_dir s1 p" and again: "\<And>s. is_dir s = is_dir s1 \<Longrightarrow> mem_create_dir_all d s = (Inr (), s)"
    using example_dirs [of 1] by auto
  have p2: "\<forall>k. \<exists>p. segment_file ?n 2 k = Inr p \<and> \<not> is_dir s1 p" using example_dirs [of 2] d by auto
  have "st_create_dir_all memory_storage d mem_new = (Inr (), s1)" using d(2) by (simp add: memory_storage_def)
  from mem.create_dirs [OF mem_good_new this segments_dir_parses [OF d(1)]] have s1: "mem_good s1" "is_dir s1 d" by blast+
  from mem.rows_written [OF s1(1) d(1) s1(2) p1 w0 w st di] obtain r s src where s: "mem_good s" "is_dir s = is_dir s1"
    and src: "seg_shows src ?xs" "seg_live src = {..<length ?xs}" "sd_read src (DocU64 7) = Some ?d" by force
  have "sd_is_live src 0" using all_live_rows [OF src(1,2)] by (simp add: word_less_nat_alt)
  then have "live_part src ?xs = ?xs" by (simp add: live_part_def)
  then have cr: "compact_rows ?c [src] = Inr w"
    using compact_sources_pushed [of "[src]" "[?xs]" w0] src(1) w0 w(1) by (simp add: compact_rows_def)
  have "\<forall>k. \<exists>p. segment_file ?n 2 k = Inr p \<and> \<not> is_dir s p" using p2 s(2) by simp
  from compact_segment_correct [OF s(1) _ _ cr w(2) _ d(1) again [OF s(2)] this, of "[?xs]"] src(1) st
  obtain r' s' where f: "compact_segments memory_storage ?c 2 [src] s = (Inr r', s')"
    and o: "\<exists>seg. sd_open memory_storage ?c (fr_segment r') (simulate_power_loss s') = (Inr seg, simulate_power_loss s')
       \<and> (\<forall>k x. sd_read seg k = Some x \<longleftrightarrow> (\<exists>src \<in> set [src]. sd_read src k = Some x))" by auto
  from o obtain seg where "sd_open memory_storage ?c (fr_segment r') (simulate_power_loss s') = (Inr seg, simulate_power_loss s')"
    and "sd_read seg (DocU64 7) = Some ?d" using src(3) by auto
  note sg = this
  have "sd_read src (DocU64 7) = sd_read seg (DocU64 7)" using sg(2) src(3) by simp
  note eq = this
  show ?thesis by (intro exI conjI) (rule f, rule sg(1), rule eq, rule sg(2))
qed

end
