(* ===== verification/Collection_View.thy ===== *)
theory Collection_View
  imports Collection_Query Segment_Compact
begin

text \<open>
  What a collection holds: a map from ids to documents, with the memtable over the newest live
  segment row, and the reads that compute it (\<open>core/src/api/collection.rs\<close>).
\<close>

declare split_paired_All [simp del] split_paired_Ex [simp del]

subsection \<open>The abstract collection\<close>

text \<open>The newest segment that has the id live decides.\<close>

definition newest :: "segment_data list \<Rightarrow> doc_id \<Rightarrow> stored option" where
  "newest segs k = fold (\<lambda>seg older. case sd_read seg k of Some d \<Rightarrow> Some d | None \<Rightarrow> older) segs None"

definition coll_abs :: "'h coll_state \<Rightarrow> doc_id \<Rightarrow> stored option" where
  "coll_abs c k = (case mt_abs (cs_memtable c) k of Some x \<Rightarrow> x | None \<Rightarrow> newest (cs_segments c) k)"

text \<open>An open segment of the catalog; no id is live in two segments; a well-formed collection.\<close>

definition seg_ok :: "catalog \<Rightarrow> segment_data \<Rightarrow> bool" where
  "seg_ok cat seg \<longleftrightarrow> (\<exists>xs. seg_shows seg xs) \<and> sd_stride seg = cat_row_stride cat \<and> sd_dimension seg = cat_dimension cat"

definition apart :: "segment_data list \<Rightarrow> bool" where
  "apart segs \<longleftrightarrow> (\<forall>i < length segs. \<forall>j < i. \<forall>k. sd_read (segs ! i) k = None \<or> sd_read (segs ! j) k = None)"

definition coll_wf :: "catalog \<Rightarrow> 'h coll_state \<Rightarrow> bool" where
  "coll_wf cat c \<longleftrightarrow> mt_inv (cs_memtable c) \<and> mt_dimension (cs_memtable c) = cat_dimension cat
     \<and> (\<forall>seg \<in> set (cs_segments c). seg_ok cat seg) \<and> apart (cs_segments c)"

lemma newest_simps [simp]:
  "newest [] k = None"
  "newest (segs @ [seg]) k = (case sd_read seg k of Some d \<Rightarrow> Some d | None \<Rightarrow> newest segs k)"
  unfolding newest_def by simp_all

lemma newest_None: "newest segs k = None \<longleftrightarrow> (\<forall>seg \<in> set segs. sd_read seg k = None)"
  by (induction segs rule: rev_induct) (auto split: option.splits)

lemma apart_simps [simp]: "apart []"
  "apart (segs @ [seg]) \<longleftrightarrow> apart segs \<and> (\<forall>old \<in> set segs. \<forall>k. sd_read seg k = None \<or> sd_read old k = None)"
proof -
  show "apart []" by (simp add: apart_def)
  show "apart (segs @ [seg]) \<longleftrightarrow> apart segs \<and> (\<forall>old \<in> set segs. \<forall>k. sd_read seg k = None \<or> sd_read old k = None)"
    (is "?l = ?r")
  proof
    assume l: ?l
    have "apart segs" unfolding apart_def
    proof (intro allI impI)
      fix i j k assume "i < length segs" "j < i"
      with l [unfolded apart_def, rule_format, of i j k] show "sd_read (segs ! i) k = None \<or> sd_read (segs ! j) k = None"
        by (simp add: nth_append)
    qed
    moreover have "\<forall>old \<in> set segs. \<forall>k. sd_read seg k = None \<or> sd_read old k = None"
    proof (intro ballI allI)
      fix old k assume "old \<in> set segs"
      then obtain j where "j < length segs" "segs ! j = old" by (auto simp: in_set_conv_nth)
      with l [unfolded apart_def, rule_format, of "length segs" j k]
      show "sd_read seg k = None \<or> sd_read old k = None" by (simp add: nth_append)
    qed
    ultimately show ?r by blast
  qed (auto simp: apart_def nth_append less_Suc_eq)
qed

lemma newest_apart: "apart segs \<Longrightarrow> newest segs k = Some d \<longleftrightarrow> (\<exists>seg \<in> set segs. sd_read seg k = Some d)"
proof (induction segs rule: rev_induct)
  case (snoc seg segs)
  then have IH: "newest segs k = Some d \<longleftrightarrow> (\<exists>seg \<in> set segs. sd_read seg k = Some d)"
    and ap: "sd_read seg k = None \<or> (\<forall>old \<in> set segs. sd_read old k = None)" by (simp_all, blast)
  show ?case
  proof (cases "sd_read seg k")
    case None
    with IH show ?thesis by simp
  next
    case (Some e)
    with ap have "\<forall>old \<in> set segs. sd_read old k = None" by simp
    with Some show ?thesis by simp
  qed
qed simp

subsection \<open>Live rows\<close>

lemma live_row_of_iff:
  assumes "seg_shows seg xs"
  shows "live_row_of seg k = Some row \<longleftrightarrow> (\<exists>i < length xs. row = of_nat i \<and> fst (xs ! i) = k \<and> i \<in> seg_live seg)"
proof -
  from assms have ti: "ts_inv (sd_tombstones seg)" and l: "length xs < 2 ^ 32"
    and ro: "\<forall>i < length xs. sd_row_of seg (fst (xs ! i)) = Some (of_nat i)"
    and rn: "\<forall>k. k \<notin> fst ` set xs \<longrightarrow> sd_row_of seg k = None" by (auto simp: seg_shows_def)
  have lv: "sd_is_live seg (of_nat i) \<longleftrightarrow> i \<in> seg_live seg" if "i < length xs" for i
    using is_live_iff [OF ti, of "of_nat i"] that l by (simp add: sd_is_live_def seg_live_def)
  show ?thesis
  proof (cases "k \<in> fst ` set xs")
    case True
    then obtain i where i: "i < length xs" "fst (xs ! i) = k" by (force simp: in_set_conv_nth)
    have "j = i" if "j < length xs" "fst (xs ! j) = k" for j
      using assms that i nth_eq_iff_index_eq [of "map fst xs" j i] by (simp add: seg_shows_def)
    then have "(\<exists>j < length xs. row = of_nat j \<and> fst (xs ! j) = k \<and> j \<in> seg_live seg) \<longleftrightarrow> row = of_nat i \<and> i \<in> seg_live seg"
      using i by metis
    with i ro lv [OF i(1)] show ?thesis by (auto simp: live_row_of_def)
  next
    case False
    then have "live_row_of seg k = None" using rn by (simp add: live_row_of_def)
    moreover have "fst (xs ! i) \<noteq> k" if "i < length xs" for i using that False by force
    ultimately show ?thesis by auto
  qed
qed

lemma live_row_read:
  assumes "seg_shows seg xs"
  shows "live_row_of seg k = None \<longleftrightarrow> sd_read seg k = None"
proof -
  have "live_row_of seg k \<noteq> None \<longleftrightarrow> (\<exists>i < length xs. fst (xs ! i) = k \<and> i \<in> seg_live seg)"
    using live_row_of_iff [OF assms, of k] by blast
  moreover have "sd_read seg k \<noteq> None \<longleftrightarrow> (\<exists>i < length xs. fst (xs ! i) = k \<and> i \<in> seg_live seg)"
  proof (cases "k \<in> fst ` set xs")
    case True
    then obtain i where i: "i < length xs" "fst (xs ! i) = k" by (force simp: in_set_conv_nth)
    have "j = i" if "j < length xs" "fst (xs ! j) = k" for j
      using assms that i nth_eq_iff_index_eq [of "map fst xs" j i] by (simp add: seg_shows_def)
    then have "(\<exists>j < length xs. fst (xs ! j) = k \<and> j \<in> seg_live seg) \<longleftrightarrow> i \<in> seg_live seg" using i by metis
    with i sd_read_shows(1) [OF assms i(1)] show ?thesis by simp
  next
    case False
    then have "fst (xs ! i) \<noteq> k" if "i < length xs" for i using that by force
    then show ?thesis using sd_read_shows(2) [OF assms False] by auto
  qed
  ultimately show ?thesis by blast
qed

lemma locate_in_newest:
  assumes "\<forall>seg \<in> set segs. \<exists>xs. seg_shows seg xs"
  shows "case locate_in (rev (List.enumerate 0 segs)) k of
      None \<Rightarrow> newest segs k = None
    | Some loc \<Rightarrow> \<exists>i row. loc = InSegment i row \<and> i < length segs \<and> live_row_of (segs ! i) k = Some row
        \<and> newest segs k = sd_read (segs ! i) k \<and> sd_read (segs ! i) k \<noteq> None"
  using assms
proof (induction segs rule: rev_induct)
  case (snoc seg segs)
  have e: "rev (List.enumerate 0 (segs @ [seg])) = (length segs, seg) # rev (List.enumerate 0 segs)"
    by (simp add: enumerate_append_eq)
  from snoc.prems obtain xs where "seg_shows seg xs" by auto
  note lr = live_row_read [OF this, of k]
  show ?case
  proof (cases "live_row_of seg k")
    case None
    with lr have n: "newest (segs @ [seg]) k = newest segs k" by simp
    have l: "locate_in (rev (List.enumerate 0 (segs @ [seg]))) k = locate_in (rev (List.enumerate 0 segs)) k"
      by (simp add: e None)
    have "\<forall>seg \<in> set segs. \<exists>xs. seg_shows seg xs" using snoc.prems by simp
    note IH = snoc.IH [OF this]
    show ?thesis
    proof (cases "locate_in (rev (List.enumerate 0 segs)) k")
      case None
      with IH n show ?thesis unfolding l by simp
    next
      case (Some loc)
      with IH obtain i row where "loc = InSegment i row" "i < length segs" "live_row_of (segs ! i) k = Some row"
        "newest segs k = sd_read (segs ! i) k" "sd_read (segs ! i) k \<noteq> None" by auto
      with Some n show ?thesis unfolding l by (auto simp: nth_append)
    qed
  next
    case (Some row)
    with lr have "sd_read seg k \<noteq> None" by simp
    with Some show ?thesis unfolding e by (auto simp: nth_append)
  qed
qed simp

lemma locate_doc_abs:
  assumes "coll_wf cat c"
  shows "locate_doc c k = None \<longleftrightarrow> coll_abs c k = None"
proof -
  from assms have s: "\<forall>seg \<in> set (cs_segments c). \<exists>xs. seg_shows seg xs" by (auto simp: coll_wf_def seg_ok_def)
  from assms have "mt_inv (cs_memtable c)" by (simp add: coll_wf_def)
  note g = mt_get_abs [OF this, of k]
  show ?thesis
  proof (cases "mt_get (cs_memtable c) k")
    case None
    with g locate_in_newest [OF s, of k] show ?thesis by (auto simp: locate_doc_def coll_abs_def split: option.splits)
  next
    case (Some l)
    with g show ?thesis by (cases l) (auto simp: locate_doc_def coll_abs_def)
  qed
qed

subsection \<open>Reads\<close>

text \<open>A stored document as it is returned.\<close>

definition doc_view :: "include_parts \<Rightarrow> doc_id \<Rightarrow> stored \<Rightarrow> document" where
  "doc_view inc k = (\<lambda>(bs, n, md, content).
     \<lparr>dc_id = k, dc_vector = (if inc_vector inc then Some (f32s_of bs) else None),
      dc_metadata = (if inc_metadata inc then (case md of Some m \<Rightarrow> m | None \<Rightarrow> []) else []),
      dc_content = (if inc_content inc then content else None)\<rparr>)"

lemma view_raw_stride:
  "length bs = dtype_row_stride dt dimension \<Longrightarrow> view_raw dt bs dimension = Inr (VRaw dt bs dimension)"
  by (simp add: view_raw_def)

lemma memtable_document_view:
  assumes "mt_inv m" and "mt_dimension m = dimension" and "mt_vector_bytes m r = Some (fst (row_doc m r))" and "mw_id r = k"
  shows "memtable_document m dimension r inc = Inr (doc_view inc k (row_doc m r))"
proof -
  from assms(3) have "length (fst (row_doc m r)) = mt_stride m"
    by (auto simp: mt_vector_bytes_def slice_def row_doc_def split: if_splits)
  with assms(1,2) have "length (fst (row_doc m r)) = dtype_row_stride F32 dimension"
    by (simp add: mt_inv_def dtype_only [of "mt_dtype m" F32])
  then show ?thesis using assms(3,4)
    by (simp add: memtable_document_def doc_view_def row_doc_def view_raw_stride split: option.split)
qed

lemma sd_document_view:
  assumes "seg_ok cat seg" and "live_row_of seg k = Some row"
  obtains d where "sd_read seg k = Some d" and "\<And>inc. sd_document seg row inc = Inr (Some (doc_view inc k d))"
    and "sd_id_at seg row = Some k"
proof -
  from assms(1) obtain xs where xs: "seg_shows seg xs" and st: "sd_stride seg = cat_row_stride cat" "sd_dimension seg = cat_dimension cat"
    by (auto simp: seg_ok_def)
  from assms(2) live_row_of_iff [OF xs, of k row] obtain i where i: "i < length xs" "row = of_nat i" "fst (xs ! i) = k" "i \<in> seg_live seg"
    by auto
  have rd: "sd_read seg k = Some (snd (xs ! i))" using sd_read_shows(1) [OF xs i(1)] i(3,4) by simp
  have lv: "sd_is_live seg row" using assms(2) by (auto simp: live_row_of_def split: option.splits if_splits)
  from xs i(1) have l: "unat row = i" "sd_ids seg = map fst xs" "length (sd_entries seg) = length xs"
    by (auto simp: seg_shows_def i(2))
  then have ida: "sd_id_at seg row = Some k" using i by (simp add: sd_id_at_def)
  have en: "sd_entry seg row = Some (sd_entries seg ! i)" using l i(1) by (simp add: sd_entry_def)
  from xs i(1,2) obtain b where b: "sd_vectors seg = Inr b" "vb_row b row = Some (fst (snd (xs ! i)))"
    and mr: "sd_meta_record seg row = Inr (stored_record (snd (xs ! i)))" by (auto simp: seg_shows_def)
  from mr en have rec: "map_err (\<lambda>e. from_format_at e path_root) (mb_record \<lparr>mb_payload = sd_meta_payload seg\<rparr> (sd_entries seg ! i))
      = Inr (stored_record (snd (xs ! i)))"
    by (auto simp: sd_meta_record_def mb_record_def map_err_def split: if_splits)
  have "vb_stride b = sd_stride seg" using b(1)
    by (auto simp: sd_vectors_def vb_open_def map_err_def Let_def elim!: rbind_InrE split: sum.splits if_splits)
  then have "unat row * sd_stride seg + sd_stride seg \<le> length (vb_data b)
      \<and> fst (snd (xs ! i)) = take (sd_stride seg) (drop (unat row * sd_stride seg) (vb_data b))"
    using b(2) by (simp add: vb_row_def slice_def Let_def split: if_splits)
  then have "length (fst (snd (xs ! i))) = sd_stride seg" by (elim conjE) simp
  then have vr: "view_raw (sd_dtype seg) (fst (snd (xs ! i))) (sd_dimension seg) = Inr (VRaw (sd_dtype seg) (fst (snd (xs ! i))) (sd_dimension seg))"
    by (simp add: view_raw_stride st cat_row_stride_def dtype_only [of "cat_dtype cat" "sd_dtype seg"])
  have "sd_document seg row inc = Inr (Some (doc_view inc k (snd (xs ! i))))" for inc
    using lv ida en rec b vr
    by (cases "snd (xs ! i)")
       (auto simp: sd_document_def doc_view_def stored_record_def split: option.splits)
  with rd ida that show ?thesis by blast
qed

lemma document_of_abs:
  assumes "coll_wf cat c"
  shows "document_of cat c k inc = Inr (map_option (doc_view inc k) (coll_abs c k))"
proof -
  from assms have s: "\<forall>seg \<in> set (cs_segments c). \<exists>xs. seg_shows seg xs" and so: "\<forall>seg \<in> set (cs_segments c). seg_ok cat seg"
    and mi: "mt_inv (cs_memtable c)" "mt_dimension (cs_memtable c) = cat_dimension cat" by (auto simp: coll_wf_def seg_ok_def)
  note g = mt_get_abs [OF mi(1), of k]
  show ?thesis
  proof (cases "mt_get (cs_memtable c) k")
    case None
    note loc = locate_in_newest [OF s, of k]
    show ?thesis
    proof (cases "locate_in (rev (List.enumerate 0 (cs_segments c))) k")
      case None
      with loc g \<open>mt_get (cs_memtable c) k = None\<close> show ?thesis
        by (simp add: document_of_def locate_doc_def coll_abs_def)
    next
      case (Some l)
      with loc obtain i row where l: "l = InSegment i row" "i < length (cs_segments c)" "live_row_of (cs_segments c ! i) k = Some row"
        "newest (cs_segments c) k = sd_read (cs_segments c ! i) k" by auto
      have "seg_ok cat (cs_segments c ! i)" using so l(2) by simp
      from sd_document_view [OF this l(3)] obtain d where "sd_read (cs_segments c ! i) k = Some d"
        "sd_document (cs_segments c ! i) row inc = Inr (Some (doc_view inc k d))" by metis
      with l g Some None show ?thesis by (simp add: document_of_def locate_doc_def coll_abs_def)
    qed
  next
    case (Some x)
    show ?thesis
    proof (cases x)
      case (Present r)
      with g Some have "mw_id r = k" "mt_abs (cs_memtable c) k = Some (Some (row_doc (cs_memtable c) r))"
        "mt_vector_bytes (cs_memtable c) r = Some (fst (row_doc (cs_memtable c) r))" by auto
      with memtable_document_view [OF mi this(3,1)] Some Present show ?thesis
        by (simp add: document_of_def locate_doc_def coll_abs_def)
    next
      case LookupDeleted
      with g Some show ?thesis by (simp add: document_of_def locate_doc_def coll_abs_def)
    qed
  qed
qed

subsection \<open>Listing and counting\<close>

lemma finite_reads:
  assumes "seg_shows seg xs"
  shows "finite {k. sd_read seg k \<noteq> None}"
proof (rule finite_subset)
  show "{k. sd_read seg k \<noteq> None} \<subseteq> fst ` set xs" 
  proof
    fix k assume "k \<in> {k. sd_read seg k \<noteq> None}"
    then show "k \<in> fst ` set xs" using sd_read_shows(2) [OF assms, of k] by (simp del: not_None_eq) argo
  qed
qed simp

lemma finite_coll:
  assumes "coll_wf cat c"
  shows "finite {k. newest (cs_segments c) k \<noteq> None}" and "finite (live_ids (cs_memtable c))"
    and "finite {k. mt_abs (cs_memtable c) k = Some None}"
proof -
  have "finite {k. sd_read seg k \<noteq> None}" if "seg \<in> set (cs_segments c)" for seg
    using assms that finite_reads unfolding coll_wf_def seg_ok_def by blast
  then have "finite (\<Union>seg \<in> set (cs_segments c). {k. sd_read seg k \<noteq> None})" by simp
  moreover have "{k. newest (cs_segments c) k \<noteq> None} = (\<Union>seg \<in> set (cs_segments c). {k. sd_read seg k \<noteq> None})"
    unfolding newest_None by (simp add: set_eq_iff)
  ultimately show "finite {k. newest (cs_segments c) k \<noteq> None}" by simp
  from assms have mi: "mt_inv (cs_memtable c)" by (simp add: coll_wf_def)
  show "finite (live_ids (cs_memtable c))" unfolding mt_live_rows_correct(1) [OF mi, symmetric] by simp
  show "finite {k. mt_abs (cs_memtable c) k = Some None}" unfolding mt_deleted_ids_correct(2) [OF mi, symmetric] by simp
qed

lemma in_set_map_filter: "y \<in> set (List.map_filter f xs) \<longleftrightarrow> (\<exists>x \<in> set xs. f x = Some y)"
  by (induction xs) (auto split: option.splits)

lemma segment_ids:
  assumes "seg_shows seg xs"
  shows "set (List.map_filter (live_id c seg) (all_rows seg)) = {k. sd_read seg k \<noteq> None \<and> mt_get (cs_memtable c) k = None}"
proof -
  from assms have ti: "ts_inv (sd_tombstones seg)" and l: "length xs < 2 ^ 32" and ids: "sd_ids seg = map fst xs"
    and rows: "all_rows seg = map of_nat [0..<length xs]" by (auto simp: seg_shows_def all_rows_def sd_rows_def)
  have id: "sd_id_at seg (of_nat i) = Some (fst (xs ! i))" if "i < length xs" for i
    using that l by (simp add: sd_id_at_def ids)
  have lv: "sd_is_live seg (of_nat i) \<longleftrightarrow> i \<in> seg_live seg" if "i < length xs" for i
    using is_live_iff [OF ti, of "of_nat i"] that l by (simp add: sd_is_live_def seg_live_def)
  have mf: "k \<in> set (List.map_filter (live_id c seg) (all_rows seg))
      \<longleftrightarrow> (\<exists>i < length xs. live_id c seg (of_nat i) = Some k)" for k
    by (auto simp: in_set_map_filter rows)
  have li: "live_id c seg (of_nat i) = Some k \<longleftrightarrow> i \<in> seg_live seg \<and> fst (xs ! i) = k \<and> mt_get (cs_memtable c) k = None"
    if "i < length xs" for i k using id [OF that] lv [OF that] by (auto simp: live_id_def)
  have "(\<exists>i < length xs. i \<in> seg_live seg \<and> fst (xs ! i) = k) \<longleftrightarrow> sd_read seg k \<noteq> None" for k
    using live_row_of_iff [OF assms, of k] live_row_read [OF assms, of k] by (metis not_None_eq)
  then show ?thesis unfolding set_eq_iff mem_Collect_eq mf using li by blast
qed

lemma sorted_remdups_adj_distinct: "sorted xs \<Longrightarrow> sorted (remdups_adj xs) \<and> distinct (remdups_adj xs)"
  by (induction xs rule: remdups_adj.induct) auto

lemma ids_of_abs:
  assumes "coll_wf cat c"
  shows "set (ids_of c) = {k. coll_abs c k \<noteq> None}" and "sorted (ids_of c)" and "distinct (ids_of c)"
proof -
  from assms have mi: "mt_inv (cs_memtable c)" by (simp add: coll_wf_def)
  have g: "mt_get (cs_memtable c) k = None \<longleftrightarrow> mt_abs (cs_memtable c) k = None" for k using mt_get_abs [OF mi] by blast
  have s: "set (List.map_filter (live_id c seg) (all_rows seg)) = {k. sd_read seg k \<noteq> None \<and> mt_abs (cs_memtable c) k = None}"
    if sg: "seg \<in> set (cs_segments c)" for seg
  proof -
    from assms sg obtain xs where "seg_shows seg xs" by (auto simp: coll_wf_def seg_ok_def)
    from segment_ids [OF this, of c] g show ?thesis by simp
  qed
  have "set (ids_of c) = (\<Union>seg \<in> set (cs_segments c). {k. sd_read seg k \<noteq> None \<and> mt_abs (cs_memtable c) k = None})
      \<union> live_ids (cs_memtable c)"
    unfolding mt_live_rows_correct(1) [OF mi, symmetric] by (simp add: ids_of_def Let_def s)
  also have "\<dots> = {k. coll_abs c k \<noteq> None}"
  proof (intro set_eqI)
    fix k
    show "k \<in> (\<Union>seg \<in> set (cs_segments c). {k. sd_read seg k \<noteq> None \<and> mt_abs (cs_memtable c) k = None}) \<union> live_ids (cs_memtable c)
        \<longleftrightarrow> k \<in> {k. coll_abs c k \<noteq> None}"
    proof (cases "mt_abs (cs_memtable c) k")
      case None
      have "coll_abs c k \<noteq> None \<longleftrightarrow> (\<exists>seg \<in> set (cs_segments c). sd_read seg k \<noteq> None)"
        using None newest_None [of "cs_segments c" k] by (simp add: coll_abs_def del: not_None_eq)
      with None show ?thesis by (auto simp: live_ids_def)
    next
      case (Some x)
      then show ?thesis by (cases x) (auto simp: live_ids_def coll_abs_def)
    qed
  qed
  finally show "set (ids_of c) = {k. coll_abs c k \<noteq> None}" .
  show "sorted (ids_of c)" "distinct (ids_of c)"
    using sorted_remdups_adj_distinct [OF sorted_sort] by (simp_all add: ids_of_def Let_def)
qed

lemma card_seg_live:
  assumes "seg_shows seg xs"
  shows "card {k. sd_read seg k \<noteq> None} = unat (sd_live_count seg)"
proof -
  from assms have ti: "ts_inv (sd_tombstones seg)" and d: "distinct (map fst xs)" and r: "unat (ts_rows (sd_tombstones seg)) = length xs"
    by (auto simp: seg_shows_def)
  have sub: "seg_live seg \<subseteq> {..<length xs}" using ti r by (auto simp: seg_live_def ts_inv_def)
  have "{k. sd_read seg k \<noteq> None} = (\<lambda>i. fst (xs ! i)) ` seg_live seg"
  proof -
    have "sd_read seg k \<noteq> None \<longleftrightarrow> (\<exists>i < length xs. i \<in> seg_live seg \<and> fst (xs ! i) = k)" for k
      using live_row_of_iff [OF assms, of k] live_row_read [OF assms, of k] by (metis not_None_eq)
    then show ?thesis using sub by (auto simp del: not_None_eq)
  qed
  moreover have "inj_on (\<lambda>i. fst (xs ! i)) (seg_live seg)"
    using sub nth_eq_iff_index_eq [OF d] by (auto simp: inj_on_def)
  ultimately show ?thesis by (simp add: card_image sd_live_count_def live_count_card [OF ti] seg_live_def)
qed

lemma live_on_disk_card:
  assumes "\<forall>seg \<in> set segs. \<exists>xs. seg_shows seg xs" and "apart segs" and "length segs < 2 ^ 31"
  shows "unat (live_on_disk segs) = card {k. newest segs k \<noteq> None} \<and> card {k. newest segs k \<noteq> None} \<le> length segs * 2 ^ 32
     \<and> finite {k. newest segs k \<noteq> None}"
  using assms
proof (induction segs rule: rev_induct)
  case Nil
  then show ?case by (simp add: live_on_disk_def)
next
  case (snoc seg segs)
  then have IH: "unat (live_on_disk segs) = card {k. newest segs k \<noteq> None}" "card {k. newest segs k \<noteq> None} \<le> length segs * 2 ^ 32"
    "finite {k. newest segs k \<noteq> None}" by auto
  from snoc.prems obtain xs where xs: "seg_shows seg xs" by auto
  have b: "unat (sd_live_count seg) < 2 ^ 32" using unsigned_less [of "sd_live_count seg"] by simp
  note fin = finite_reads [OF xs]
  have eq: "{k. newest (segs @ [seg]) k \<noteq> None} = {k. newest segs k \<noteq> None} \<union> {k. sd_read seg k \<noteq> None}"
    by (simp add: set_eq_iff split: option.split)
  have "sd_read seg k = None" if "newest segs k \<noteq> None" for k
  proof -
    from that obtain old where "old \<in> set segs" "sd_read old k \<noteq> None" unfolding newest_None by blast
    moreover from this snoc.prems(2) have "sd_read seg k = None \<or> sd_read old k = None" by simp
    ultimately show ?thesis by auto
  qed
  then have "{k. newest segs k \<noteq> None} \<inter> {k. sd_read seg k \<noteq> None} = {}" by (auto simp del: not_None_eq)
  with fin IH(3) have "card {k. newest (segs @ [seg]) k \<noteq> None} = card {k. newest segs k \<noteq> None} + unat (sd_live_count seg)"
    unfolding eq by (simp only: card_Un_disjoint card_seg_live [OF xs])
  note c = this
  have "length segs * 2 ^ 32 + 2 ^ 32 < (2 :: nat) ^ 64" using snoc.prems(3) by simp
  with IH(2) b have lt: "card {k. newest segs k \<noteq> None} + unat (sd_live_count seg) < 2 ^ 64" by linarith
  have "unat (ucast (sd_live_count seg) :: u64) = unat (sd_live_count seg)" by (simp add: unsigned_ucast_eq take_bit_nat_eq_self_iff)
  then have "unat (live_on_disk (segs @ [seg])) = unat (live_on_disk segs) + unat (sd_live_count seg)"
    using lt IH(1) by (simp add: live_on_disk_def unat_word_ariths)
  with c IH b show ?case unfolding eq using fin by auto
qed

lemma live_count_abs:
  assumes "coll_wf cat c" and "length (cs_segments c) < 2 ^ 31" and "mt_len (cs_memtable c) < 2 ^ 63"
  shows "unat (coll_live_count c) = card {k. coll_abs c k \<noteq> None}"
proof -
  let ?m = "cs_memtable c" and ?D = "{k. newest (cs_segments c) k \<noteq> None}" and ?X = "{k. mt_abs (cs_memtable c) k = Some None}"
  from assms have mi: "mt_inv ?m" and sh: "\<forall>seg \<in> set (cs_segments c). \<exists>xs. seg_shows seg xs" and ap: "apart (cs_segments c)"
    by (auto simp: coll_wf_def seg_ok_def)
  note dc = live_on_disk_card [OF sh ap assms(2)]
  have hl: "segment_has_live c k \<longleftrightarrow> k \<in> ?D" for k
  proof -
    have "live_row_of seg k \<noteq> None \<longleftrightarrow> sd_read seg k \<noteq> None" if "seg \<in> set (cs_segments c)" for seg
      using sh that live_row_read by metis
    then show ?thesis unfolding segment_has_live_def list_ex_iff mem_Collect_eq newest_None by blast
  qed
  have s: "length (filter (\<lambda>row. segment_has_live c (mw_id row)) (mt_live_rows ?m)) = card (live_ids ?m \<inter> ?D)"
  proof -
    have "length (filter (\<lambda>row. segment_has_live c (mw_id row)) (mt_live_rows ?m))
        = length (filter (segment_has_live c) (map mw_id (mt_live_rows ?m)))" by (simp add: filter_map comp_def)
    also have "\<dots> = card (set (filter (segment_has_live c) (map mw_id (mt_live_rows ?m))))"
      using mt_live_rows_correct(2) [OF mi] by (simp add: distinct_card del: set_filter set_map)
    also have "set (filter (segment_has_live c) (map mw_id (mt_live_rows ?m))) = live_ids ?m \<inter> ?D"
      unfolding set_filter mt_live_rows_correct(1) [OF mi] hl by blast
    finally show ?thesis .
  qed
  have dd: "distinct (mt_deleted_ids ?m)" using mi by (simp add: mt_deleted_ids_def mt_inv_def distinct_map_filter)
  have h: "length (filter (segment_has_live c) (mt_deleted_ids ?m)) = card (?X \<inter> ?D)"
  proof -
    have "length (filter (segment_has_live c) (mt_deleted_ids ?m)) = card (set (filter (segment_has_live c) (mt_deleted_ids ?m)))"
      using dd by (simp add: distinct_card del: set_filter)
    also have "set (filter (segment_has_live c) (mt_deleted_ids ?m)) = ?X \<inter> ?D"
      unfolding set_filter mt_deleted_ids_correct(2) [OF mi] hl by blast
    finally show ?thesis .
  qed
  note fin = finite_coll [OF assms(1)]
  have disj: "live_ids ?m \<inter> ?X = {}" by (auto simp: live_ids_def)
  have dom: "{k. coll_abs c k \<noteq> None} = live_ids ?m \<union> (?D - (live_ids ?m \<inter> ?D) - (?X \<inter> ?D))"
    by (auto simp: coll_abs_def live_ids_def split: option.splits)
  have sub: "card (live_ids ?m \<inter> ?D) + card (?X \<inter> ?D) = card ((live_ids ?m \<inter> ?D) \<union> (?X \<inter> ?D))"
    using fin disj by (subst card_Un_disjoint) auto
  have le: "card (live_ids ?m \<inter> ?D) + card (?X \<inter> ?D) \<le> card ?D"
    unfolding sub using fin(1) by (intro card_mono) auto
  have "card {k. coll_abs c k \<noteq> None} = card (live_ids ?m) + card (?D - ((live_ids ?m \<inter> ?D) \<union> (?X \<inter> ?D)))"
    unfolding dom using fin by (subst card_Un_disjoint) (auto simp: Diff_Un [symmetric] set_diff_eq)
  also have "card (?D - ((live_ids ?m \<inter> ?D) \<union> (?X \<inter> ?D))) = card ?D - (card (live_ids ?m \<inter> ?D) + card (?X \<inter> ?D))"
    unfolding sub using fin by (subst card_Diff_subset) auto
  finally have cd: "card {k. coll_abs c k \<noteq> None} = mt_len ?m + card ?D - card (live_ids ?m \<inter> ?D) - card (?X \<inter> ?D)"
    using le mt_len_card [OF mi] by simp
  have "card ?D < 2 ^ 63" using dc assms(2) by (simp add: le_less_trans)
  then have bd: "card ?D + mt_len ?m < 2 ^ 64" using assms(3) by simp
  have "coll_live_count c = of_nat (card ?D + mt_len ?m - card (live_ids ?m \<inter> ?D) - card (?X \<inter> ?D))"
  proof -
    have "live_on_disk (cs_segments c) = of_nat (card ?D)" using dc by (metis of_nat_unat ucast_id)
    then show ?thesis using le by (simp add: coll_live_count_def Let_def s h u64_of_def of_nat_diff)
  qed
  moreover have "unat (of_nat n :: u64) = n" if "n < 2 ^ 64" for n using that by (simp add: unat_of_nat)
  ultimately show ?thesis using bd cd by (simp add: add.commute)
qed

end
