(* ===== verification/Collection_Admin.thy ===== *)
theory Collection_Admin
  imports Collection_Query
begin

text \<open>
  Compaction, verification and statistics of a collection (\<open>core/src/api/collection.rs\<close>).
\<close>

subsection \<open>Compaction\<close>

record compact_options =
  co_min_dead_ratio :: u32

definition compact_default :: compact_options where
  "compact_default = \<lparr>co_min_dead_ratio = 0x3E99999A\<rparr>"

definition compact_everything :: compact_options where
  "compact_everything = \<lparr>co_min_dead_ratio = 0\<rparr>"

definition compact_min_dead_ratio :: "u32 \<Rightarrow> compact_options \<Rightarrow> compact_options" where
  "compact_min_dead_ratio ratio c = c\<lparr>co_min_dead_ratio := ratio\<rparr>"

record compact_report =
  cr_segments_rewritten :: nat
  cr_segments_created :: nat
  cr_rows_reclaimed :: u64

definition cr_default :: compact_report where
  "cr_default = \<lparr>cr_segments_rewritten = 0, cr_segments_created = 0, cr_rows_reclaimed = 0\<rparr>"

definition dead_rows :: "segment_data \<Rightarrow> u32" where
  "dead_rows seg = sd_rows seg - sd_live_count seg"

definition worth_compacting :: "ratios \<Rightarrow> compact_options \<Rightarrow> segment_data \<Rightarrow> bool" where
  "worth_compacting R options seg \<longleftrightarrow>
     (let rows = sd_rows seg in
      if rows = 0 then True
      else let dead = ra_div64 R (nat_to_f64 (unat (dead_rows seg))) (nat_to_f64 (unat rows)) in
        (case f64_partial_cmp dead (ra_widen R (co_min_dead_ratio options)) of
           Some Greater \<Rightarrow> True | Some Equal \<Rightarrow> True | _ \<Rightarrow> False))"

definition coll_compact ::
  "('s, 'h, 'i) engine \<Rightarrow> catalog \<Rightarrow> u64 \<Rightarrow> compact_options \<Rightarrow> (('h, 'i, 's) world, compact_report) io" where
  "coll_compact E cat now_ms options =
     io_bind (io_snd (check_writable E ''compact'')) (\<lambda>_.
     io_bind io_self (\<lambda>c.
     let st = en_storage E; chosen = worth_compacting (en_ratios E) options; sources = filter chosen (cs_segments c) in
     if sources = [] then io_ok cr_default
     else
       let reclaimed_rows = sum_list (map (\<lambda>seg. ucast (dead_rows seg)) sources);
           old_ids = map sd_id sources; new_id = cs_next_segment_id c;
           untouched = filter (\<lambda>seg. \<not> chosen seg) (cs_segments c);
           untouched_refs = map segment_reference untouched in
       io_bind (in_storage (compact_segments st cat new_id sources)) (\<lambda>result.
       let rewritten = fr_segment result in
       io_bind (io_modify (\<lambda>c. c\<lparr>cs_segments := []\<rparr>)) (\<lambda>_.
       io_bind (if sr_rows rewritten > 0
                then io_bind (in_storage (sd_open st cat rewritten)) (\<lambda>opened.
                     io_ok (untouched @ [opened], untouched_refs @ [rewritten]))
                else io_bind (in_storage (remove_segment st (cat_name cat) new_id)) (\<lambda>_.
                     io_ok (untouched, untouched_refs))) (\<lambda>(kept, refs).
       let refs = sort_key sr_id refs; kept = sort_key sd_id kept in
       io_bind (io_modify (\<lambda>c. c\<lparr>cs_segments := kept, cs_next_segment_id := new_id + 1\<rparr>)) (\<lambda>_.
       io_bind io_self (\<lambda>c.
       io_bind (io_snd (commit_collection E now_ms (flushed_entry cat c refs))) (\<lambda>_.
       io_bind (in_storage (io_fold (\<lambda>segid _. remove_segment st (cat_name cat) segid) old_ids ())) (\<lambda>_.
       io_ok \<lparr>cr_segments_rewritten = length old_ids,
              cr_segments_created = (if sr_rows rewritten > 0 then 1 else 0),
              cr_rows_reclaimed = reclaimed_rows\<rparr>)))))))))"

subsection \<open>Verification\<close>

text \<open>The errors and warnings found so far lie beside the collection.\<close>

definition report_error :: "rust_string \<Rightarrow> problem \<Rightarrow> ((problems \<times> problems) \<times> 'w, unit) io" where
  "report_error name x = io_modify (\<lambda>(errs, warns). (errs @ [(name, x)], warns))"

definition report_warning :: "rust_string \<Rightarrow> problem \<Rightarrow> ((problems \<times> problems) \<times> 'w, unit) io" where
  "report_warning name x = io_modify (\<lambda>(errs, warns). (errs, warns @ [(name, x)]))"

definition verify_row ::
  "rust_string \<Rightarrow> segment_data \<Rightarrow> u32 \<Rightarrow> doc_id list \<Rightarrow> ((problems \<times> problems) \<times> 'w, doc_id list) io" where
  "verify_row name seg row seen =
     (if \<not> sd_is_live seg row then io_ok seen
      else
        io_bind (case sd_id_at seg row of
            Some docid \<Rightarrow>
              if docid \<in> set seen then io_bind (report_error name (LiveTwice (id_display docid))) (\<lambda>_. io_ok seen)
              else io_ok (docid # seen)
          | None \<Rightarrow> io_bind (report_error name (RowWithoutId (sd_id seg) row)) (\<lambda>_. io_ok seen)) (\<lambda>seen.
        io_bind (case sd_meta_record seg row of
            Inl e \<Rightarrow> report_error name (UnreadableMetadata (sd_id seg) row e)
          | Inr _ \<Rightarrow> io_ok ()) (\<lambda>_.
        io_ok seen)))"

definition verify_segment ::
  "('s, 'h, 'i) engine \<Rightarrow> rust_string \<Rightarrow> verify_level \<Rightarrow> segment_data \<Rightarrow> u64 \<times> u64 \<times> doc_id list
    \<Rightarrow> ((problems \<times> problems) \<times> ('h, 'i, 's) world, u64 \<times> u64 \<times> doc_id list) io" where
  "verify_segment E name level seg = (\<lambda>(live_documents, total_rows, seen).
     let total_rows = total_rows + ucast (sd_rows seg); live_documents = live_documents + ucast (sd_live_count seg) in
     io_bind (if level \<ge> Checksums
              then io_bind (io_catch (io_snd (in_storage (sd_verify_checksums (en_storage E) seg name)))) (\<lambda>r.
                   case r of Inl e \<Rightarrow> report_error name (ChecksumFailed (sd_id seg) e) | Inr _ \<Rightarrow> io_ok ())
              else io_ok ()) (\<lambda>_.
     io_bind (if level \<ge> FullVerify then io_fold (verify_row name seg) (all_rows seg) seen else io_ok seen) (\<lambda>seen.
     io_ok (live_documents, total_rows, seen))))"

definition over_half :: "ratios \<Rightarrow> u64 \<Rightarrow> u64 \<Rightarrow> bool" where
  "over_half R part whole \<longleftrightarrow>
     f64_partial_cmp (ra_div64 R (nat_to_f64 (unat part)) (nat_to_f64 (unat whole))) 0x3FE0000000000000 = Some Greater"

definition coll_verify ::
  "('s, 'h, 'i) engine \<Rightarrow> catalog \<Rightarrow> verify_level \<Rightarrow> ((problems \<times> problems) \<times> ('h, 'i, 's) world, collection_verify) io" where
  "coll_verify E cat level =
     (let name = cat_name cat in
      io_bind (io_snd (io_snd check_open)) (\<lambda>_.
      io_bind (io_snd io_self) (\<lambda>c.
      io_bind (io_fold (verify_segment E name level) (cs_segments c) (0, 0, [])) (\<lambda>(live_documents, total_rows, seen).
      let referenced = map sd_id (cs_segments c) in
      io_bind (io_snd (in_storage (list_segment_ids (en_storage E) name))) (\<lambda>ids.
      io_bind (io_fold (\<lambda>segid _. if segid \<in> set referenced then io_ok ()
                 else report_warning name (UnreferencedSegment segid)) ids ()) (\<lambda>_.
      io_bind (if total_rows > 0 \<and> over_half (en_ratios E) (total_rows - live_documents) total_rows
               then report_warning name (MostlyTombstones (total_rows - live_documents) total_rows) else io_ok ()) (\<lambda>_.
      io_ok \<lparr>cv_name = name, cv_segments_checked = length (cs_segments c), cv_live_documents = coll_live_count c,
             cv_total_rows = total_rows\<rparr>)))))))"

subsection \<open>Statistics\<close>

definition coll_stats :: "('s, 'h, 'i) engine \<Rightarrow> catalog \<Rightarrow> (('h, 'i, 's) world, collection_stats) io" where
  "coll_stats E cat =
     io_bind (io_snd check_open) (\<lambda>_.
     io_bind io_self (\<lambda>c.
     let R = en_ratios E;
         total_rows = sum_list (map (\<lambda>seg. ucast (sd_rows seg)) (cs_segments c)) :: u64;
         live = live_on_disk (cs_segments c) in
     io_ok \<lparr>cst_name = cat_name cat, cst_dimension = cat_dimension cat, cst_metric = cat_metric cat,
            cst_dtype = cat_dtype cat, cst_id_kind = cat_id_kind cat, cst_index = cat_index cat,
            cst_live_documents = coll_live_count c, cst_total_rows = total_rows, cst_segments = length (cs_segments c),
            cst_buffered_documents = mt_len (cs_memtable c), cst_memtable_bytes = mt_byte_size (cs_memtable c),
            cst_dead_ratio = (if total_rows = 0 then 0
              else ra_div32 R (ra_of_u64 R (total_rows - live)) (ra_of_u64 R total_rows))\<rparr>))"

end
