(* ===== verification/Collection_Flush.thy ===== *)
theory Collection_Flush
  imports Collection_View Collection_Admin
begin

text \<open>
  Flushing a collection (\<open>do_flush\<close> of \<open>core/src/api/collection.rs\<close>): the open segments mirror
  their files, superseding them keeps it so, and a flush preserves the contents.
\<close>

subsection \<open>Open segments and their files\<close>

text \<open>What opening computes from the bytes of the four files; an error is \<open>None\<close> here.\<close>

definition sd_load :: "catalog \<Rightarrow> segment_ref \<Rightarrow> (segment_file_kind \<Rightarrow> bytes) \<Rightarrow> segment_data option" where
  "sd_load cat r B =
     (case (mb_open (B MetadataFile), dir_open (B DirectoryFile), tombstones_decode (B TombstonesFile)) of
        (Inr mb, Inr directory, Inr tombs) \<Rightarrow>
          if d_rows directory \<noteq> sr_rows r \<or> ts_rows tombs \<noteq> sr_rows r then None
          else (case try_fold (sd_load_row cat directory) [0..<unat (d_rows directory)] ([], [], []) of
              Inr (entries, ids, by_id) \<Rightarrow> Some
                \<lparr>sd_id = sr_id r, sd_stride = cat_row_stride cat, sd_dtype = cat_dtype cat,
                 sd_dimension = cat_dimension cat, sd_vec_bytes = B VectorsFile, sd_meta_payload = mb_payload mb,
                 sd_entries = entries, sd_ids = ids, sd_by_id = by_id, sd_tombstones = tombs\<rparr>
            | Inl _ \<Rightarrow> None)
      | _ \<Rightarrow> None)"

text \<open>The four files of segment \<open>n\<close> have these bytes, durably.\<close>

definition seg_files :: "(db_path \<Rightarrow> file_view option) \<Rightarrow> rust_string \<Rightarrow> u64 \<Rightarrow> (segment_file_kind \<Rightarrow> bytes) \<Rightarrow> bool" where
  "seg_files fs name n B \<longleftrightarrow>
     (\<forall>k. \<exists>p. segment_file name n k = Inr p \<and> fs p = Some (B k, B k) \<and> length (B k) < 2 ^ 64)"

definition mirrored :: "(db_path \<Rightarrow> file_view option) \<Rightarrow> catalog \<Rightarrow> segment_data \<Rightarrow> bool" where
  "mirrored fs cat seg \<longleftrightarrow>
     (\<exists>B. seg_files fs (cat_name cat) (sd_id seg) B \<and> sd_load cat (segment_reference seg) B = Some seg)"

lemma sd_load_tombstones:
  assumes "sd_load cat r B = Some seg" and "ts_inv t" and "ts_rows t = sr_rows r" and "sr_id r' = sr_id r" and "sr_rows r' = sr_rows r"
  shows "sd_load cat r' (B(TombstonesFile := tombstones_encode t)) = Some (seg\<lparr>sd_tombstones := t\<rparr>)"
  using assms by (auto simp: sd_load_def tombstones_read_back split: sum.splits prod.splits if_splits)

lemma sd_load_fields:
  assumes "sd_load cat r B = Some seg"
  shows "sd_id seg = sr_id r" and "ts_rows (sd_tombstones seg) = sr_rows r" and "sd_stride seg = cat_row_stride cat"
    and "sd_dimension seg = cat_dimension cat"
  using assms by (auto simp: sd_load_def split: sum.splits prod.splits if_splits)

lemma segment_file_inject:
  "segment_file name n k = Inr p \<Longrightarrow> segment_file name' n' k' = Inr p \<Longrightarrow> name = name' \<and> n = n' \<and> k = k'"
  using layout_inject [of "SegFile name n k" p "SegFile name' n' k'"] by simp

lemma seg_files_frame:
  assumes "seg_files fs name n B" and "\<And>k p. segment_file name n k = Inr p \<Longrightarrow> fs' p = fs p"
  shows "seg_files fs' name n B"
  unfolding seg_files_def
proof
  fix k
  from assms(1) obtain p where "segment_file name n k = Inr p" "fs p = Some (B k, B k)" "length (B k) < 2 ^ 64"
    unfolding seg_files_def by blast
  with assms(2) [of k p] show "\<exists>p. segment_file name n k = Inr p \<and> fs' p = Some (B k, B k) \<and> length (B k) < 2 ^ 64" by auto
qed

lemma mirrored_frame:
  "mirrored fs cat seg \<Longrightarrow> (\<And>k p. segment_file (cat_name cat) (sd_id seg) k = Inr p \<Longrightarrow> fs' p = fs p) \<Longrightarrow> mirrored fs' cat seg"
  unfolding mirrored_def using seg_files_frame by blast

lemma seg_files_update:
  assumes "seg_files fs name n B" and "segment_file name n k = Inr p" and "length bs < 2 ^ 64"
  shows "seg_files (fs(p \<mapsto> (bs, bs))) name n (B(k := bs))"
  unfolding seg_files_def
proof
  fix j
  from assms(1) obtain q where q: "segment_file name n j = Inr q" "fs q = Some (B j, B j)" "length (B j) < 2 ^ 64"
    unfolding seg_files_def by blast
  have "q = p \<longleftrightarrow> j = k" using segment_file_inject [OF q(1), of name n k] assms(2) q(1) by auto
  with q assms(3) show "\<exists>p'. segment_file name n j = Inr p' \<and> (fs(p \<mapsto> (bs, bs))) p' = Some ((B(k := bs)) j, (B(k := bs)) j)
      \<and> length ((B(k := bs)) j) < 2 ^ 64" by (intro exI [of _ q]) auto
qed

lemma mirrored_reference:
  assumes "mirrored fs cat seg" and "seg_shows seg xs"
  shows "sr_rows (segment_reference seg) = ts_rows (sd_tombstones seg)"
  using assms sd_load_fields(2) by (auto simp: mirrored_def)

context storage_contract
begin

lemma seg_files_crash: "good s \<Longrightarrow> seg_files (files s) name n B \<Longrightarrow> seg_files (files (crash s)) name n B"
  unfolding seg_files_def using crash_file by fastforce

lemma mirrored_crash: "good s \<Longrightarrow> mirrored (files s) cat seg \<Longrightarrow> mirrored (files (crash s)) cat seg"
  unfolding mirrored_def using seg_files_crash by blast

lemma sd_open_load:
  assumes "good s" and "seg_files (files s) (cat_name cat) (sr_id r) B"
  shows "sd_open st cat r s = (Inr seg, s') \<longleftrightarrow> sd_load cat r B = Some seg \<and> s' = s"
proof -
  have rq: "require_file st (cat_name cat) (sr_id r) k s = (Inr (B k), s)" for k
  proof -
    from assms(2) obtain p where "segment_file (cat_name cat) (sr_id r) k = Inr p" "files s p = Some (B k, B k)" "length (B k) < 2 ^ 64"
      unfolding seg_files_def by blast
    from require_file_there [OF assms(1) this(1,2)] this(3) show ?thesis by simp
  qed
  obtain mp dp where pp: "segment_file (cat_name cat) (sr_id r) MetadataFile = Inr mp"
    "segment_file (cat_name cat) (sr_id r) DirectoryFile = Inr dp" using assms(2) unfolding seg_files_def by metis
  show ?thesis
    by (auto simp: sd_open_def Let_def rq pp sd_load_def map_err_def io_bind_def split: sum.splits prod.splits)
qed

lemma mirrored_opens:
  assumes "good s" and "mirrored (files s) cat seg"
  shows "sd_open st cat (segment_reference seg) s = (Inr seg, s)"
proof -
  from assms(2) obtain B where B: "seg_files (files s) (cat_name cat) (sr_id (segment_reference seg)) B"
    "sd_load cat (segment_reference seg) B = Some seg" by (auto simp: mirrored_def segment_reference_def)
  from sd_open_load [OF assms(1) B(1)] B(2) show ?thesis by blast
qed

end

subsection \<open>Killing rows\<close>

lemma ts_rows_kill [simp]: "ts_rows (fst (kill t row)) = ts_rows t"
  by (simp add: kill_def Let_def)

lemma seg_tombstones_simps [simp]:
  "sd_row_of (seg\<lparr>sd_tombstones := t\<rparr>) = sd_row_of seg" "sd_vectors (seg\<lparr>sd_tombstones := t\<rparr>) = sd_vectors seg"
  "sd_inv_norm (seg\<lparr>sd_tombstones := t\<rparr>) = sd_inv_norm seg" "sd_meta_record (seg\<lparr>sd_tombstones := t\<rparr>) = sd_meta_record seg"
  "sd_entry (seg\<lparr>sd_tombstones := t\<rparr>) = sd_entry seg" "sd_rows (seg\<lparr>sd_tombstones := t\<rparr>) = sd_rows seg"
  by (simp_all add: fun_eq_iff sd_row_of_def sd_vectors_def sd_inv_norm_def sd_meta_record_def sd_entry_def sd_rows_def)

definition kill_step :: "doc_id \<Rightarrow> segment_data \<times> bool \<Rightarrow> segment_data \<times> bool" where
  "kill_step docid = (\<lambda>(seg, changed). case sd_row_of seg docid of
       Some row \<Rightarrow> (case sd_kill row seg of (seg, killed) \<Rightarrow> (seg, changed \<or> killed))
     | None \<Rightarrow> (seg, changed))"

lemma kill_step_correct:
  assumes "seg_shows seg xs"
  shows "\<exists>t. kill_step docid (seg, changed) = (seg\<lparr>sd_tombstones := t\<rparr>, changed \<or> sd_read seg docid \<noteq> None)
     \<and> ts_rows t = ts_rows (sd_tombstones seg) \<and> seg_shows (seg\<lparr>sd_tombstones := t\<rparr>) xs
     \<and> (\<forall>k. sd_read (seg\<lparr>sd_tombstones := t\<rparr>) k = (if k = docid then None else sd_read seg k))
     \<and> (sd_read seg docid = None \<longrightarrow> t = sd_tombstones seg)"
proof (cases "docid \<in> fst ` set xs")
  case False
  then have "sd_row_of seg docid = None" "sd_read seg docid = None"
    using assms sd_read_shows(2) [OF assms] by (auto simp: seg_shows_def)
  then show ?thesis using assms by (intro exI [of _ "sd_tombstones seg"]) (simp add: kill_step_def)
next
  case True
  then obtain i where i: "i < length xs" "fst (xs ! i) = docid" by (force simp: in_set_conv_nth)
  from assms have ti: "ts_inv (sd_tombstones seg)" and l: "length xs < 2 ^ 32" and d: "distinct (map fst xs)"
    and ro: "sd_row_of seg docid = Some (of_nat i)" using i by (auto simp: seg_shows_def)
  let ?t = "fst (kill (sd_tombstones seg) (of_nat i))"
  note kc = kill_correct [OF ti, of "of_nat i"] and ui = nat_u32 [of i]
  have u: "unat (of_nat i :: u32) = i" using i(1) l by simp
  have sh: "seg_shows (seg\<lparr>sd_tombstones := ?t\<rparr>) xs"
    using assms kc(3) by (simp add: seg_shows_def)
  have lv: "seg_live (seg\<lparr>sd_tombstones := ?t\<rparr>) = seg_live seg - {i}" using kc(2) u by (simp add: seg_live_def)
  have rd: "sd_read (seg\<lparr>sd_tombstones := ?t\<rparr>) k = (if k = docid then None else sd_read seg k)" for k
  proof (cases "k \<in> fst ` set xs")
    case False
    with sd_read_shows(2) [OF assms False] sd_read_shows(2) [OF sh False] True show ?thesis by auto
  next
    case True
    then obtain j where j: "j < length xs" "fst (xs ! j) = k" by (force simp: in_set_conv_nth)
    have "j = i \<longleftrightarrow> k = docid" using i j nth_eq_iff_index_eq [OF d, of j i] by auto
    with sd_read_shows(1) [OF sh j(1)] sd_read_shows(1) [OF assms j(1)] j(2) lv show ?thesis by auto
  qed
  have ch: "snd (kill (sd_tombstones seg) (of_nat i)) \<longleftrightarrow> sd_read seg docid \<noteq> None"
    using kc(1) u sd_read_shows(1) [OF assms i(1)] i(2) by (simp add: seg_live_def del: not_None_eq)
  have "sd_read seg docid = None \<longrightarrow> ?t = sd_tombstones seg"
    using ch kill_cases [OF ti, of "of_nat i"] by (auto split: if_splits)
  then show ?thesis using sh rd ch by (intro exI [of _ ?t]) (simp add: kill_step_def ro sd_kill_def case_prod_beta)
qed

lemma kill_ids_steps: "kill_ids ids seg = fold kill_step ids (seg, False)"
  by (simp add: kill_ids_def kill_step_def [abs_def])

lemma kill_ids_correct:
  assumes "seg_shows seg xs"
  shows "\<exists>t. kill_ids ids seg = (seg\<lparr>sd_tombstones := t\<rparr>, \<exists>k \<in> set ids. sd_read seg k \<noteq> None)
     \<and> ts_rows t = ts_rows (sd_tombstones seg) \<and> seg_shows (seg\<lparr>sd_tombstones := t\<rparr>) xs
     \<and> (\<forall>k. sd_read (seg\<lparr>sd_tombstones := t\<rparr>) k = (if k \<in> set ids then None else sd_read seg k))
     \<and> ((\<forall>k \<in> set ids. sd_read seg k = None) \<longrightarrow> t = sd_tombstones seg)"
proof -
  have "\<exists>t. fold kill_step ids (seg, changed) = (seg\<lparr>sd_tombstones := t\<rparr>, changed \<or> (\<exists>k \<in> set ids. sd_read seg k \<noteq> None))
     \<and> ts_rows t = ts_rows (sd_tombstones seg) \<and> seg_shows (seg\<lparr>sd_tombstones := t\<rparr>) xs
     \<and> (\<forall>k. sd_read (seg\<lparr>sd_tombstones := t\<rparr>) k = (if k \<in> set ids then None else sd_read seg k))
     \<and> ((\<forall>k \<in> set ids. sd_read seg k = None) \<longrightarrow> t = sd_tombstones seg)" for changed
    using assms
  proof (induction ids arbitrary: seg changed)
    case Nil
    then show ?case by (intro exI [of _ "sd_tombstones seg"]) simp
  next
    case (Cons x ids)
    from kill_step_correct [OF Cons.prems, of x changed] obtain t where
      t: "kill_step x (seg, changed) = (seg\<lparr>sd_tombstones := t\<rparr>, changed \<or> sd_read seg x \<noteq> None)"
      "ts_rows t = ts_rows (sd_tombstones seg)" "seg_shows (seg\<lparr>sd_tombstones := t\<rparr>) xs"
      "\<forall>k. sd_read (seg\<lparr>sd_tombstones := t\<rparr>) k = (if k = x then None else sd_read seg k)"
      "sd_read seg x = None \<longrightarrow> t = sd_tombstones seg" by (elim exE conjE)
    from Cons.IH [OF t(3), of "changed \<or> sd_read seg x \<noteq> None"] obtain u where
      u: "fold kill_step ids (seg\<lparr>sd_tombstones := t\<rparr>, changed \<or> sd_read seg x \<noteq> None)
        = (seg\<lparr>sd_tombstones := u\<rparr>, (changed \<or> sd_read seg x \<noteq> None) \<or> (\<exists>k \<in> set ids. sd_read (seg\<lparr>sd_tombstones := t\<rparr>) k \<noteq> None))"
      "ts_rows u = ts_rows t" "seg_shows (seg\<lparr>sd_tombstones := u\<rparr>) xs"
      "\<forall>k. sd_read (seg\<lparr>sd_tombstones := u\<rparr>) k = (if k \<in> set ids then None else sd_read (seg\<lparr>sd_tombstones := t\<rparr>) k)"
      "(\<forall>k \<in> set ids. sd_read (seg\<lparr>sd_tombstones := t\<rparr>) k = None) \<longrightarrow> u = t"
      by auto
    have "(changed \<or> sd_read seg x \<noteq> None) \<or> (\<exists>k \<in> set ids. sd_read (seg\<lparr>sd_tombstones := t\<rparr>) k \<noteq> None)
        \<longleftrightarrow> changed \<or> (\<exists>k \<in> set (x # ids). sd_read seg k \<noteq> None)"
      unfolding t(4) [rule_format] by (simp del: not_None_eq) metis
    with t(1) u(1) have "fold kill_step (x # ids) (seg, changed)
        = (seg\<lparr>sd_tombstones := u\<rparr>, changed \<or> (\<exists>k \<in> set (x # ids). sd_read seg k \<noteq> None))" by (simp only: fold_simps)
    moreover have "\<forall>k. sd_read (seg\<lparr>sd_tombstones := u\<rparr>) k = (if k \<in> set (x # ids) then None else sd_read seg k)"
      using u(4) t(4) by simp
    moreover have "(\<forall>k \<in> set (x # ids). sd_read seg k = None) \<longrightarrow> u = sd_tombstones seg" using u(5) t(4,5) by auto
    ultimately show ?case using u(2,3) t(2) by (intro exI [of _ u]) simp
  qed
  from this [of False] show ?thesis unfolding kill_ids_steps by simp
qed

subsection \<open>Superseding the open segments\<close>

text \<open>The segment after its rows for the given ids were killed: another bitmap, those ids gone.\<close>

definition superseded :: "doc_id list \<Rightarrow> segment_data \<Rightarrow> segment_data \<Rightarrow> bool" where
  "superseded ids seg seg' \<longleftrightarrow> (\<exists>t. seg' = seg\<lparr>sd_tombstones := t\<rparr>) \<and> (\<forall>xs. seg_shows seg xs \<longrightarrow> seg_shows seg' xs)
     \<and> (\<forall>k. sd_read seg' k = (if k \<in> set ids then None else sd_read seg k))"

lemma superseded_fields:
  "superseded ids seg seg' \<Longrightarrow> sd_id seg' = sd_id seg \<and> sd_stride seg' = sd_stride seg \<and> sd_dimension seg' = sd_dimension seg
     \<and> (seg_ok cat seg \<longrightarrow> seg_ok cat seg')"
  by (auto simp: superseded_def seg_ok_def)

lemma superseded_ids: "list_all2 (superseded ids) xs ys \<Longrightarrow> map sd_id ys = map sd_id xs"
  by (induction rule: list_all2_induct) (use superseded_fields in auto)

lemma ts_inv_generation [simp]: "ts_inv (t\<lparr>ts_generation := g\<rparr>) = ts_inv t"
  by (simp add: ts_inv_def live_set_def)

lemma sd_read_generation [simp]: "sd_read (seg\<lparr>sd_tombstones := t\<lparr>ts_generation := g\<rparr>\<rparr>) = sd_read (seg\<lparr>sd_tombstones := t\<rparr>)"
  by (simp add: fun_eq_iff sd_read_def sd_is_live_def is_live_def cong: if_cong option.case_cong)

lemma seg_shows_generation: "seg_shows (seg\<lparr>sd_tombstones := t\<rparr>) xs \<Longrightarrow> seg_shows (seg\<lparr>sd_tombstones := t\<lparr>ts_generation := g\<rparr>\<rparr>) xs"
  by (simp add: seg_shows_def)

context storage_contract
begin

lemma persist_mirrored:
  assumes "good s" and "mirrored (files s) cat seg" and "ts_rows t = ts_rows (sd_tombstones seg)"
    and "seg_shows (seg\<lparr>sd_tombstones := t\<rparr>) xs"
    and "sd_persist_tombstones st (cat_name cat) (seg\<lparr>sd_tombstones := t\<rparr>, s) = (Inr g, (seg', s'))"
  shows "good s' \<and> dirs s' = dirs s \<and> (\<forall>h q. stands s h q \<longrightarrow> stands s' h q)
     \<and> (\<exists>n. seg' = seg\<lparr>sd_tombstones := t\<lparr>ts_generation := n\<rparr>\<rparr>) \<and> mirrored (files s') cat seg'
     \<and> (\<forall>q. segment_file (cat_name cat) (sd_id seg) TombstonesFile \<noteq> Inr q \<longrightarrow> files s' q = files s q)"
proof -
  let ?n = "if ts_generation t = - 1 then - 1 else ts_generation t + 1" and ?name = "cat_name cat"
  let ?t = "t\<lparr>ts_generation := ?n\<rparr>"
  let ?seg = "seg\<lparr>sd_tombstones := ?t\<rparr>"
  have ti: "ts_inv ?t" using assms(4) by (simp add: seg_shows_def)
  have l: "length (tombstones_encode ?t) < 2 ^ 64"
    using tombstones_short [OF ti] by (simp add: tombstones_encode_eq length_encode_block)
  from assms(5) have seg': "seg' = ?seg"
    and w: "write_segment_file st ?name (sd_id seg) TombstonesFile (tombstones_encode ?t) s = (Inr (), s')"
    by (auto simp: sd_persist_tombstones_def io_snd_def elim!: io_bind_InrE split: prod.splits)
  from write_segment_file_ok [OF assms(1) w l] obtain p where p: "segment_file ?name (sd_id seg) TombstonesFile = Inr p"
    and ok: "good s'" "dirs s' = dirs s" "files s' = (files s)(p \<mapsto> (tombstones_encode ?t, tombstones_encode ?t))"
      "\<forall>h q. stands s h q \<longrightarrow> stands s' h q" by metis
  from assms(2) obtain B where B: "seg_files (files s) ?name (sd_id seg) B" "sd_load cat (segment_reference seg) B = Some seg"
    unfolding mirrored_def by blast
  have r: "sr_rows (segment_reference seg) = ts_rows (sd_tombstones seg)" using sd_load_fields(2) [OF B(2)] by simp
  have "sd_load cat (segment_reference ?seg) (B(TombstonesFile := tombstones_encode ?t)) = Some ?seg"
    by (rule sd_load_tombstones [OF B(2) ti]) (use r assms(3) in \<open>simp_all add: segment_reference_def\<close>)
  moreover have "seg_files (files s') ?name (sd_id ?seg) (B(TombstonesFile := tombstones_encode ?t))"
    unfolding ok(3) using seg_files_update [OF B(1) p l] by simp
  ultimately have "mirrored (files s') cat ?seg" unfolding mirrored_def by blast
  moreover have "\<forall>q. segment_file ?name (sd_id seg) TombstonesFile \<noteq> Inr q \<longrightarrow> files s' q = files s q"
    using ok(3) p by auto
  ultimately show ?thesis using ok seg' by blast
qed

lemma supersede_segment_ok:
  assumes "en_storage E = st" and "good s" and "i < length (cs_segments c)" and "seg = cs_segments c ! i"
    and "mirrored (files s) cat seg" and "seg_shows seg xs"
    and "supersede_segment E cat ids i refs (c, d, s) = (Inr refs', (c', d', s'))"
  shows "\<exists>seg'. c' = c\<lparr>cs_segments := (cs_segments c)[i := seg']\<rparr> \<and> d' = d \<and> refs' = refs @ [segment_reference seg']
     \<and> superseded ids seg seg' \<and> good s' \<and> dirs s' = dirs s \<and> (\<forall>h q. stands s h q \<longrightarrow> stands s' h q)
     \<and> mirrored (files s') cat seg'
     \<and> (\<forall>q. segment_file (cat_name cat) (sd_id seg) TombstonesFile \<noteq> Inr q \<longrightarrow> files s' q = files s q)"
proof -
  from kill_ids_correct [OF assms(6), of ids] obtain t where t: "kill_ids ids seg = (seg\<lparr>sd_tombstones := t\<rparr>, \<exists>k \<in> set ids. sd_read seg k \<noteq> None)"
    "ts_rows t = ts_rows (sd_tombstones seg)" "seg_shows (seg\<lparr>sd_tombstones := t\<rparr>) xs"
    "\<forall>k. sd_read (seg\<lparr>sd_tombstones := t\<rparr>) k = (if k \<in> set ids then None else sd_read seg k)"
    "(\<forall>k \<in> set ids. sd_read seg k = None) \<longrightarrow> t = sd_tombstones seg" by (elim exE conjE)
  let ?k = "seg\<lparr>sd_tombstones := t\<rparr>"
  have shows_all: "\<forall>ys. seg_shows seg ys \<longrightarrow> seg_shows ?k ys"
  proof (intro allI impI)
    fix ys assume "seg_shows seg ys"
    then show "seg_shows ?k ys" using t(2,3) by (simp add: seg_shows_def)
  qed
  have kill: "in_segment i (\<lambda>(seg, s). case kill_ids ids seg of (seg, changed) \<Rightarrow> (Inr changed, (seg, s))) (c, d, s)
      = (Inr (\<exists>k \<in> set ids. sd_read seg k \<noteq> None), (c\<lparr>cs_segments := (cs_segments c)[i := ?k]\<rparr>, d, s))"
    unfolding in_segment_def using t(1) assms(4) by simp
  show ?thesis
  proof (cases "\<exists>k \<in> set ids. sd_read seg k \<noteq> None")
    case False
    then have "\<forall>k \<in> set ids. sd_read seg k = None" by metis
    with t(5) have ts: "t = sd_tombstones seg" by simp
    then have "?k = seg" by simp
    moreover have "superseded ids seg seg"
      unfolding superseded_def using t(4) \<open>?k = seg\<close> shows_all by (metis segment_data.surjective)
    ultimately show ?thesis using assms(2-5,7) kill False
      by (intro exI [of _ seg]) (auto simp: supersede_segment_def simp del: not_None_eq)
  next
    case True
    with assms(7) kill obtain g w where p: "in_segment i (sd_persist_tombstones (en_storage E) (cat_name cat))
        (c\<lparr>cs_segments := (cs_segments c)[i := ?k]\<rparr>, d, s) = (Inr g, w)"
      and fin: "refs' = refs @ [segment_reference (cs_segments (fst w) ! i)]" "w = (c', d', s')"
      unfolding supersede_segment_def by (auto elim!: io_bind_InrE simp del: not_None_eq)
    from p assms(1,3) obtain seg' s2 where ps: "sd_persist_tombstones st (cat_name cat) (?k, s) = (Inr g, (seg', s2))"
      and w: "w = (c\<lparr>cs_segments := (cs_segments c)[i := seg']\<rparr>, d, s2)"
      unfolding in_segment_def by (auto split: prod.splits)
    from persist_mirrored [OF assms(2,5) t(2,3) ps] obtain n where ok: "good s2" "dirs s2 = dirs s" "\<forall>h q. stands s h q \<longrightarrow> stands s2 h q"
      "seg' = seg\<lparr>sd_tombstones := t\<lparr>ts_generation := n\<rparr>\<rparr>" "mirrored (files s2) cat seg'"
      "\<forall>q. segment_file (cat_name cat) (sd_id seg) TombstonesFile \<noteq> Inr q \<longrightarrow> files s2 q = files s q" by (elim exE conjE)
    have "superseded ids seg seg'" unfolding superseded_def ok(4)
      using t(4) shows_all seg_shows_generation by (intro conjI) (blast, blast, simp)
    with ok w fin assms(3) show ?thesis by (intro exI [of _ seg']) auto
  qed
qed

lemma supersede_fold:
  assumes "en_storage E = st" and "good s" and "\<forall>seg \<in> set (cs_segments c). mirrored (files s) cat seg \<and> (\<exists>xs. seg_shows seg xs)"
    and "distinct (map sd_id (cs_segments c))" and "n \<le> length (cs_segments c)"
    and "io_fold (supersede_segment E cat ids) [0..<n] [] (c, d, s) = (Inr refs, (c', d', s'))"
  shows "\<exists>new. c' = c\<lparr>cs_segments := new @ drop n (cs_segments c)\<rparr> \<and> d' = d
     \<and> list_all2 (superseded ids) (take n (cs_segments c)) new \<and> refs = map segment_reference new
     \<and> good s' \<and> dirs s' = dirs s \<and> (\<forall>h q. stands s h q \<longrightarrow> stands s' h q)
     \<and> (\<forall>seg \<in> set (new @ drop n (cs_segments c)). mirrored (files s') cat seg)
     \<and> (\<forall>q. (\<forall>seg \<in> set (cs_segments c). segment_file (cat_name cat) (sd_id seg) TombstonesFile \<noteq> Inr q) \<longrightarrow> files s' q = files s q)"
  using assms(5,6)
proof (induction n arbitrary: refs c' d' s')
  case 0
  then show ?case using assms(2,3) by (intro exI [of _ "[]"]) auto
next
  case (Suc n)
  let ?segs = "cs_segments c" and ?T = "\<lambda>seg. segment_file (cat_name cat) (sd_id seg) TombstonesFile"
  have "[0..<Suc n] = [0..<n] @ [n]" by simp
  with Suc.prems(2) obtain refs1 c1 d1 s1 where f: "io_fold (supersede_segment E cat ids) [0..<n] [] (c, d, s) = (Inr refs1, (c1, d1, s1))"
    and l: "supersede_segment E cat ids n refs1 (c1, d1, s1) = (Inr refs, (c', d', s'))"
    by (auto simp: io_fold_append elim!: io_bind_InrE)
  have n: "n \<le> length ?segs" "n < length ?segs" using Suc.prems(1) by auto
  from Suc.IH [OF n(1) f] obtain new where IH: "c1 = c\<lparr>cs_segments := new @ drop n ?segs\<rparr>" "d1 = d"
    "list_all2 (superseded ids) (take n ?segs) new" "refs1 = map segment_reference new" "good s1" "dirs s1 = dirs s"
    "\<forall>h q. stands s h q \<longrightarrow> stands s1 h q" "\<forall>seg \<in> set (new @ drop n ?segs). mirrored (files s1) cat seg"
    "\<forall>q. (\<forall>seg \<in> set ?segs. ?T seg \<noteq> Inr q) \<longrightarrow> files s1 q = files s q" by (elim exE conjE)
  have ln: "length new = n" using list_all2_lengthD [OF IH(3)] n by simp
  let ?seg = "?segs ! n"
  have drop: "drop n ?segs = ?seg # drop (Suc n) ?segs" using n(2) by (rule Cons_nth_drop_Suc [symmetric])
  have at: "n < length (cs_segments c1)" "?seg = cs_segments c1 ! n" using n ln by (simp_all add: IH(1) nth_append)
  have m: "mirrored (files s1) cat ?seg" using IH(8) drop by simp
  from assms(3) nth_mem [OF n(2)] have "\<exists>xs. seg_shows ?seg xs" by blast
  then obtain xs where xs: "seg_shows ?seg xs" by blast
  from supersede_segment_ok [OF assms(1) IH(5) at m xs l] obtain seg' where
    st: "c' = c1\<lparr>cs_segments := (cs_segments c1)[n := seg']\<rparr>" "d' = d1" "refs = refs1 @ [segment_reference seg']"
      "superseded ids ?seg seg'" "good s'" "dirs s' = dirs s1" "\<forall>h q. stands s1 h q \<longrightarrow> stands s' h q" "mirrored (files s') cat seg'"
      "\<forall>q. ?T ?seg \<noteq> Inr q \<longrightarrow> files s' q = files s1 q" by (elim exE conjE)
  have upd: "(new @ drop n ?segs)[n := seg'] = (new @ [seg']) @ drop (Suc n) ?segs"
    using ln drop by (simp add: list_update_append)
  have ids_new: "map sd_id new = map sd_id (take n ?segs)"
    using superseded_ids [OF IH(3)] .
  have other: "mirrored (files s') cat old" if old: "old \<in> set new \<or> old \<in> set (drop (Suc n) ?segs)" for old
  proof -
    have "map sd_id ?segs = map sd_id (take n ?segs @ ?seg # drop (Suc n) ?segs)"
      using n(2) by (simp add: id_take_nth_drop [symmetric])
    with assms(4) have dn: "distinct (map sd_id (take n ?segs @ ?seg # drop (Suc n) ?segs))" by simp
    then have "sd_id ?seg \<notin> set (map sd_id new) \<union> set (map sd_id (drop (Suc n) ?segs))" unfolding ids_new by auto
    with old have "sd_id old \<noteq> sd_id ?seg" by (metis UnI1 UnI2 image_eqI set_map)
    then have "files s' p = files s1 p" if "segment_file (cat_name cat) (sd_id old) k = Inr p" for k p
      using st(9) that segment_file_inject [OF that] by metis
    moreover have "mirrored (files s1) cat old" using IH(8) old drop by auto
    ultimately show ?thesis using mirrored_frame by blast
  qed
  have "\<forall>seg \<in> set ((new @ [seg']) @ drop (Suc n) ?segs). mirrored (files s') cat seg" using other st(8) by auto
  moreover have "list_all2 (superseded ids) (take (Suc n) ?segs) (new @ [seg'])"
    using IH(3) st(4) n(2) by (simp add: take_Suc_conv_app_nth list_all2_appendI)
  moreover have "\<forall>q. (\<forall>seg \<in> set ?segs. ?T seg \<noteq> Inr q) \<longrightarrow> files s' q = files s q"
    using IH(9) st(9) nth_mem [OF n(2)] by metis
  moreover have "c' = c\<lparr>cs_segments := (new @ [seg']) @ drop (Suc n) ?segs\<rparr>" using st(1) upd by (simp add: IH(1))
  moreover have "refs = map segment_reference (new @ [seg'])" using st(3) IH(4) by simp
  moreover have "d' = d" "good s'" "dirs s' = dirs s" using st(2,5,6) IH(2,6) by simp_all
  moreover have "\<forall>h q. stands s h q \<longrightarrow> stands s' h q" using IH(7) st(7) by blast
  ultimately show ?case by (intro exI [of _ "new @ [seg']"]) simp
qed

end

subsection \<open>Committing the entry\<close>

text \<open>The manifest after a commit.\<close>

definition committed_store :: "manifest_store \<Rightarrow> collection_entry \<Rightarrow> u64 \<Rightarrow> manifest_store" where
  "committed_store ms entry now_ms =
     \<lparr>mst_current = mst_next ms ((mst_current ms)\<lparr>m_collections := put_entry entry (m_collections (mst_current ms))\<rparr>) now_ms,
      mst_slot = slot_other (mst_slot ms)\<rparr>"

lemma set_put_entry: "set (put_entry e es) \<subseteq> insert e (set es)" "e \<in> set (put_entry e es)"
  by (induction es) auto

lemma length_put_entry: "length (put_entry e es) \<le> Suc (length es)"
  by (induction es) auto

lemma put_entry_names: "map ce_name (put_entry e es) = (if ce_name e \<in> ce_name ` set es then map ce_name es else map ce_name es @ [ce_name e])"
  by (induction es) auto

context storage_contract
begin

lemma commit_collection_ok:
  assumes "en_storage E = st" and "good s" and "commit_collection E now_ms entry (d, s) = (Inr (), (d', s'))"
    and "\<forall>bs. manifest_encode (mst_current (ds_manifest d')) = Inr bs \<longrightarrow> length bs < 2 ^ 64"
  shows "\<exists>bs. manifest_encode (mst_current (ds_manifest d')) = Inr bs \<and> length bs < 2 ^ 64
     \<and> d' = d\<lparr>ds_manifest := committed_store (ds_manifest d) entry now_ms\<rparr>
     \<and> good s' \<and> dirs s' = dirs s \<and> (\<forall>h q. stands s h q \<longrightarrow> stands s' h q)
     \<and> files s' = (files s)(slot_path (slot_other (mst_slot (ds_manifest d))) \<mapsto> (bs, bs))"
proof -
  let ?ms = "ds_manifest d"
  let ?next = "mst_current (committed_store ?ms entry now_ms)" and ?p = "slot_path (slot_other (mst_slot ?ms))"
  from assms(1,3) obtain ms' where w: "mst_write st ?next (?ms, s) = (Inr (), (ms', s'))" and d': "d' = d\<lparr>ds_manifest := ms'\<rparr>"
    by (auto simp: commit_collection_def Let_def in_manifest_def mst_commit_def committed_store_def split: prod.splits)
  from w obtain bs where bs: "manifest_encode ?next = Inr bs" and r: "replace_bytes st ?p bs s = (Inr (), s')"
    and ms': "ms' = \<lparr>mst_current = ?next, mst_slot = slot_other (mst_slot ?ms)\<rparr>"
    by (auto simp: mst_write_def Let_def layout_manifest_eq replace_bytes_def io_snd_def io_bind_def
        split: prod.splits sum.splits)
  have l: "length bs < 2 ^ 64" using assms(4) bs by (simp add: d' ms')
  from replace_bytes_ok [OF assms(2) r l] bs l d' ms' show ?thesis by (intro exI [of _ bs]) (simp add: committed_store_def)
qed

end

subsection \<open>What the new segment list reads\<close>

lemma newest_Cons: "newest (seg # segs) k = (case newest segs k of Some d \<Rightarrow> Some d | None \<Rightarrow> sd_read seg k)"
  by (induction segs rule: rev_induct) (auto simp: newest_def split: option.splits)

lemma newest_superseded:
  assumes "list_all2 (superseded ids) xs ys"
  shows "newest ys k = (if k \<in> set ids then None else newest xs k)"
  using assms
proof (induction rule: list_all2_induct)
  case (Cons x xs y ys)
  then have "sd_read y k = (if k \<in> set ids then None else sd_read x k)" by (simp add: superseded_def)
  with Cons.IH show ?case by (simp add: newest_Cons split: option.split)
qed simp

lemma apart_superseded:
  assumes "list_all2 (superseded ids) xs ys" and "apart xs"
  shows "apart ys"
  unfolding apart_def
proof (intro allI impI)
  fix i j k assume ij: "i < length ys" "j < i"
  with assms have "superseded ids (xs ! i) (ys ! i)" "superseded ids (xs ! j) (ys ! j)" "length xs = length ys"
    by (auto simp: list_all2_conv_all_nth)
  then have r: "sd_read (ys ! i) k = (if k \<in> set ids then None else sd_read (xs ! i) k)"
    "sd_read (ys ! j) k = (if k \<in> set ids then None else sd_read (xs ! j) k)" "i < length xs"
    using ij by (simp_all add: superseded_def)
  from assms(2) r(3) ij(2) have "sd_read (xs ! i) k = None \<or> sd_read (xs ! j) k = None" unfolding apart_def by metis
  with r(1,2) show "sd_read (ys ! i) k = None \<or> sd_read (ys ! j) k = None" by auto
qed

lemma seg_ok_superseded: "list_all2 (superseded ids) xs ys \<Longrightarrow> \<forall>seg \<in> set xs. seg_ok cat seg \<Longrightarrow> \<forall>seg \<in> set ys. seg_ok cat seg"
  by (induction rule: list_all2_induct) (use superseded_fields in auto)

text \<open>The ids a flush kills in the open segments: every id the memtable knows.\<close>

lemma flushed_ids:
  assumes "mt_inv m"
  shows "k \<in> set (map mw_id (mt_live_rows m) @ mt_deleted_ids m) \<longleftrightarrow> mt_abs m k \<noteq> None"
proof -
  have "k \<in> set (map mw_id (mt_live_rows m) @ mt_deleted_ids m) \<longleftrightarrow> k \<in> live_ids m \<or> mt_abs m k = Some None"
    unfolding set_append mt_live_rows_correct(1) [OF assms] mt_deleted_ids_correct(2) [OF assms] by simp
  then show ?thesis by (cases "mt_abs m k") (auto simp: live_ids_def)
qed

lemma flushed_view:
  assumes "coll_wf cat c" and "m = cs_memtable c" and "ids = map mw_id (mt_live_rows m) @ mt_deleted_ids m"
    and "list_all2 (superseded ids) (cs_segments c) new"
    and "live_docs m = [] \<and> segs = new \<or> seg_ok cat seg \<and> (\<forall>k. sd_read seg k = map_of (live_docs m) k) \<and> segs = new @ [seg]"
  shows "newest segs k = coll_abs c k" and "apart segs" and "\<forall>seg \<in> set segs. seg_ok cat seg"
proof -
  from assms(1,2) have inv: "mt_inv m" and ap: "apart (cs_segments c)" and ok: "\<forall>seg \<in> set (cs_segments c). seg_ok cat seg"
    by (auto simp: coll_wf_def)
  note ns = newest_superseded [OF assms(4)] and aps = apart_superseded [OF assms(4) ap] and oks = seg_ok_superseded [OF assms(4) ok]
  note ids = flushed_ids [OF inv, folded assms(3)] and ld = live_docs_correct(2) [OF inv]
  show "\<forall>seg \<in> set segs. seg_ok cat seg" using assms(5) oks by auto
  show "newest segs k = coll_abs c k"
  proof (cases "live_docs m = [] \<and> segs = new")
    case True
    then have "(case mt_abs m k of Some d \<Rightarrow> d | None \<Rightarrow> None) = None" using ld [of k] by simp
    with True ns [of k] ids [of k] show ?thesis by (simp add: coll_abs_def assms(2) [symmetric] split: option.splits)
  next
    case False
    with assms(5) have sg: "segs = new @ [seg]" "sd_read seg k = map_of (live_docs m) k" by auto
    show ?thesis
    proof (cases "mt_abs m k")
      case None
      with sg ld [of k] ns [of k] ids [of k] show ?thesis by (simp add: coll_abs_def assms(2) [symmetric])
    next
      case (Some x)
      with sg ld [of k] ns [of k] ids [of k] show ?thesis
        by (cases x) (simp_all add: coll_abs_def assms(2) [symmetric])
    qed
  qed
  show "apart segs"
  proof (cases "live_docs m = [] \<and> segs = new")
    case False
    with assms(5) have sg: "segs = new @ [seg]" and rd: "\<forall>k. sd_read seg k = map_of (live_docs m) k" by auto
    have "sd_read seg k = None \<or> sd_read old k = None" if old: "old \<in> set new" for old k
    proof (cases "mt_abs m k")
      case None
      with rd ld [of k] show ?thesis by simp
    next
      case (Some x)
      then have "newest new k = None" using ns [of k] ids [of k] by simp
      with old newest_None [of new k] show ?thesis by simp
    qed
    with aps show ?thesis unfolding sg apart_simps by simp
  qed (use aps in simp)
qed

end
