(* ===== verification/Collection_Durable.thy ===== *)
theory Collection_Durable
  imports Collection_Flush
begin

text \<open>
  What a collection keeps on its backend (\<open>core/src/api/collection.rs\<close>, \<open>core/src/persistence/\<close>):
  the invariant every successful write and flush preserves, and recovery from it.
\<close>

subsection \<open>Removing a segment's files\<close>

definition disk_inv :: "(db_path \<Rightarrow> file_view option) \<Rightarrow> catalog \<Rightarrow> 'h coll_state \<Rightarrow> bool" where
  "disk_inv fs cat c \<longleftrightarrow> (\<forall>seg \<in> set (cs_segments c). mirrored fs cat seg \<and> sd_id seg < cs_next_segment_id c)
     \<and> sorted_wrt (<) (map sd_id (cs_segments c))"

lemma disk_inv_distinct: "disk_inv fs cat c \<Longrightarrow> distinct (map sd_id (cs_segments c))"
  by (simp add: disk_inv_def strict_sorted_iff)

lemma in_storage_InrE:
  assumes "in_storage m (c, d, s) = (Inr a, w)"
  obtains s' where "m s = (Inr a, s')" and "w = (c, d, s')"
  using assms by (auto simp: in_storage_def io_snd_def split: prod.splits)

lemma in_storage_simp [simp]: "m s = (r, s') \<Longrightarrow> in_storage m (c, d, s) = (r, (c, d, s'))"
  by (simp add: in_storage_def io_snd_def)

lemma unat_plus_one: "(n :: 'a::len word) + 1 \<noteq> 0 \<Longrightarrow> unat (n + 1) = Suc (unat n)"
  using unatSuc [of n] by (simp add: add.commute)

text \<open>The directory of the segments or one above it.\<close>

definition segments_path :: "rust_string \<Rightarrow> db_path \<Rightarrow> bool" where
  "segments_path name q \<longleftrightarrow> (\<exists>d n. segments_dir name = Inr d \<and> q = intercal (take n (path_components d)))"

context storage_contract
begin

lemma remove_files_ok:
  assumes "good s" and "\<forall>k p. segment_file name n k = Inr p \<longrightarrow> \<not> dirs s p"
    and "io_fold (\<lambda>which _. io_bind (io_of (segment_file name n which)) (\<lambda>path.
       io_bind (st_exists st path) (\<lambda>there. if there then st_remove_file st path else io_ok ()))) ks () s = (Inr (), s')"
  shows "good s' \<and> dirs s' = dirs s \<and> (\<forall>q. files s' q = (if \<exists>k \<in> set ks. segment_file name n k = Inr q then None else files s q))
     \<and> (\<forall>h q. stands s h q \<longrightarrow> (\<forall>k. segment_file name n k \<noteq> Inr q) \<longrightarrow> stands s' h q)"
  using assms
proof (induction ks arbitrary: s)
  case (Cons k ks)
  from Cons.prems(3) obtain p where p: "segment_file name n k = Inr p" by (auto elim!: io_bind_InrE)
  have ex: "st_exists st p s = (Inr (files s p \<noteq> None), s)" using exists_law [OF Cons.prems(1), of p] Cons.prems(2) p by auto
  have "\<exists>s1. (if files s p \<noteq> None then st_remove_file st p else io_ok ()) s = (Inr (), s1) \<and> good s1 \<and> files s1 = (files s)(p := None)
      \<and> dirs s1 = dirs s \<and> (\<forall>k q. stands s k q \<longrightarrow> q \<noteq> p \<longrightarrow> stands s1 k q)"
  proof (cases "files s p")
    case None
    then show ?thesis using Cons.prems(1) by (intro exI [of _ s]) (auto simp: fun_upd_idem)
  next
    case (Some f)
    then show ?thesis using remove_law [OF Cons.prems(1) Some] by simp
  qed
  then obtain s1 where s1: "(if files s p \<noteq> None then st_remove_file st p else io_ok ()) s = (Inr (), s1)" "good s1"
    "files s1 = (files s)(p := None)" "dirs s1 = dirs s" "\<forall>k q. stands s k q \<longrightarrow> q \<noteq> p \<longrightarrow> stands s1 k q" by (elim exE conjE)
  let ?f = "\<lambda>which _. io_bind (io_of (segment_file name n which)) (\<lambda>path.
       io_bind (st_exists st path) (\<lambda>there. if there then st_remove_file st path else io_ok ()))"
  have fk: "?f k () s = (Inr (), s1)" using s1(1) p ex by (simp add: io_bind_def io_of_def)
  have r: "io_fold ?f ks () s1 = (Inr (), s')" using Cons.prems(3)
    unfolding io_fold.simps io_bind_Inr [where m = "?f k ()" and s = s, OF fk] .
  have IH: "good s' \<and> dirs s' = dirs s1 \<and> (\<forall>q. files s' q = (if \<exists>k \<in> set ks. segment_file name n k = Inr q then None else files s1 q))
     \<and> (\<forall>h q. stands s1 h q \<longrightarrow> (\<forall>k. segment_file name n k \<noteq> Inr q) \<longrightarrow> stands s' h q)"
    using Cons.IH [OF s1(2) _ r] Cons.prems(2) unfolding s1(4) by blast
  have "stands s' h q" if "stands s h q" "\<forall>k. segment_file name n k \<noteq> Inr q" for h q
    using IH s1(5) that p by metis
  moreover have "files s' q = (if \<exists>k \<in> set (k # ks). segment_file name n k = Inr q then None else files s q)" for q
    using IH p by (auto simp: s1(3))
  ultimately show ?case using IH s1(4) by simp
qed simp

lemma remove_segment_ok:
  assumes "good s" and "\<forall>k p. segment_file name n k = Inr p \<longrightarrow> \<not> dirs s p" and "remove_segment st name n s = (Inr (), s')"
  shows "good s' \<and> dirs s' = dirs s \<and> (\<forall>q. files s' q = (if \<exists>k. segment_file name n k = Inr q then None else files s q))
     \<and> (\<forall>h q. stands s h q \<longrightarrow> (\<forall>k. segment_file name n k \<noteq> Inr q) \<longrightarrow> stands s' h q)"
proof -
  have "k \<in> set ALL_SEGMENT_FILES" for k by (cases k) (simp_all add: ALL_SEGMENT_FILES_def)
  with remove_files_ok [OF assms(1,2), of ALL_SEGMENT_FILES s'] assms(3) show ?thesis by (simp add: remove_segment_def)
qed

subsection \<open>The steps of a flush\<close>

lemma adopt_segment_ok:
  assumes "en_storage E = st" and "good s" and "adopt_segment E cat r refs (c, d, s) = (Inr refs', (c', d', s'))"
    and "seg_files (files s) (cat_name cat) (sr_id r) B"
  shows "d' = d \<and> good s' \<and> dirs s' = dirs s
     \<and> (\<forall>q. (\<forall>k. segment_file (cat_name cat) (sr_id r) k \<noteq> Inr q) \<longrightarrow> files s' q = files s q \<and> (\<forall>h. stands s h q \<longrightarrow> stands s' h q))
     \<and> (if sr_rows r > 0 then s' = s \<and> (\<exists>seg. sd_load cat r B = Some seg \<and> c' = c\<lparr>cs_segments := cs_segments c @ [seg]\<rparr> \<and> refs' = refs @ [r])
        else c' = c \<and> refs' = refs)"
proof (cases "sr_rows r > 0")
  case True
  with assms(1,3) obtain seg where "sd_open st cat r s = (Inr seg, s')" "d' = d" "refs' = refs @ [r]"
    "c' = c\<lparr>cs_segments := cs_segments c @ [seg]\<rparr>"
    by (auto simp: adopt_segment_def elim!: io_bind_InrE in_storage_InrE)
  with sd_open_load [OF assms(2,4), of seg s'] True assms(2) show ?thesis by auto
next
  case False
  with assms(1,3) have r: "remove_segment st (cat_name cat) (sr_id r) s = (Inr (), s')" and e: "d' = d" "refs' = refs" "c' = c"
    by (auto simp: adopt_segment_def elim!: io_bind_InrE in_storage_InrE)
  have "\<forall>k p. segment_file (cat_name cat) (sr_id r) k = Inr p \<longrightarrow> \<not> dirs s p"
  proof (intro allI impI notI)
    fix k p assume p: "segment_file (cat_name cat) (sr_id r) k = Inr p" "dirs s p"
    from assms(4) [unfolded seg_files_def, rule_format, of k] p(1) have "files s p = Some (B k, B k)" by auto
    with not_both [OF assms(2) p(2)] show False by simp
  qed
  from remove_segment_ok [OF assms(2) this r] e False show ?thesis by simp
qed

lemma checkpoint_wal_ok:
  assumes "en_storage E = st" and "good s" and "checkpoint_wal E cat n (c, d, s) = (Inr (), (c', d', s'))"
  shows "\<exists>p w. wal_file (cat_name cat) 1 = Inr p \<and> d' = d \<and> good s' \<and> dirs s' = dirs s \<and> files s' = (files s)(p \<mapsto> ([], []))
     \<and> (\<forall>h q. stands s h q \<longrightarrow> stands s' h q)
     \<and> c' = c\<lparr>cs_memtable := mt_clear (cs_memtable c), cs_next_segment_id := n + 1, cs_wal := w\<rparr>
     \<and> wal_holds files stands writable w s' [] [] \<and> ww_path w = p \<and> ww_next_sequence w = ww_next_sequence (cs_wal c)
     \<and> ww_next_txn w = 1 \<and> ww_durability w = dcf_durability (en_config E)"
proof -
  let ?dur = "dcf_durability (en_config E)" and ?q = "ww_next_sequence (cs_wal c)"
  from assms(1,3) obtain p h s1 s2 s3 w where p: "wal_file (cat_name cat) 1 = Inr p"
    and o: "st_open_file st p OpenReadWrite s = (Inr h, s1)" and t: "f_truncate st h 0 s1 = (Inr (), s2)"
    and y: "f_sync_data st h s2 = (Inr (), s3)" and w: "ww_open st p ?q ?dur s3 = (Inr w, s')"
    and e: "d' = d" "c' = c\<lparr>cs_memtable := mt_clear (cs_memtable c), cs_next_segment_id := n + 1, cs_wal := w\<rparr>"
    unfolding checkpoint_wal_def Let_def by (auto elim!: io_bind_InrE in_storage_InrE)
  have "\<not> dirs s p" using o open_dir [OF assms(2), of p OpenReadWrite] by auto
  then have "files s p \<noteq> None" using o open_missing [OF assms(2), of p OpenReadWrite] by (cases "files s p") auto
  then obtain f where f: "files s p = Some f" by blast
  from open_existing [OF assms(2) f, of OpenReadWrite] o have s1: "s1 = s" "stands s h p" "writable h" by (auto simp: is_writable_def)
  from truncate_law [OF assms(2) s1(2,3) f, of 0] t s1(1) have s2: "good s2" "stands s2 = stands s" "dirs s2 = dirs s"
    "files s2 = (files s)(p \<mapsto> ([], snd f))" by auto
  from sync_law [OF s2(1), of h p "([], snd f)"] s1 s2 y have s3: "good s3" "stands s3 = stands s" "dirs s3 = dirs s"
    "files s3 = (files s)(p \<mapsto> ([], []))" by auto
  from w obtain h2 len s4 where o2: "st_open_file st p OpenCreate s3 = (Inr h2, s4)" and l2: "f_len st h2 s4 = (Inr len, s')"
    and w2: "w = \<lparr>ww_file = h2, ww_path = p, ww_next_sequence = ?q, ww_next_txn = 1, ww_bytes = len, ww_durability = ?dur, ww_unsynced = False\<rparr>"
    by (auto simp: ww_open_def elim!: io_bind_InrE)
  from open_existing [OF s3(1), of p "([], [])" OpenCreate] s3(4) o2 have s4: "s4 = s3" "stands s3 h2 p" "writable h2"
    by (auto simp: is_writable_def)
  from len_law [OF s3(1) s4(2), of "([], [])"] s3(4) l2 s4(1) have s': "s' = s3" "len = 0" by (auto simp: u64_of_def)
  have "wal_holds files stands writable w s' [] []" using s' s4 s3(4) w2 by (simp add: wal_holds_def u64_of_def)
  with p e s' s3 w2 show ?thesis by auto
qed

lemma holds_seg_files:
  assumes "good s" and "holds_segment (files s) name n w t" and "holds_segment (files (crash s)) name n w t"
    and "\<forall>k. length (seg_bytes w t k) < 2 ^ 64"
  shows "seg_files (files s) name n (seg_bytes w t)"
  unfolding seg_files_def
proof
  fix k
  from assms(2) obtain p d where p: "segment_file name n k = Inr p" "files s p = Some (seg_bytes w t k, d)"
    unfolding holds_segment_def by blast
  with crash_file [OF assms(1) p(2)] assms(3) have "d = seg_bytes w t k" unfolding holds_segment_def by (force dest: spec [of _ k])
  with p assms(4) show "\<exists>p. segment_file name n k = Inr p \<and> files s p = Some (seg_bytes w t k, seg_bytes w t k) \<and> length (seg_bytes w t k) < 2 ^ 64"
    by blast
qed

text \<open>The flushed segment, as the files of the new segment load it.\<close>

lemma flushed_segment_loads:
  assumes "good s" and "mt_inv m" and "flush_rows cat m = Inr w" and "segment_fits w"
    and "flush_memtable st cat n m s = (Inr r, s')" and "list_all (storable cat) (live_docs m)"
  shows "\<exists>B seg. seg_files (files s') (cat_name cat) n B \<and> sd_load cat (fr_segment r) B = Some seg
     \<and> seg_ok cat seg \<and> sd_id seg = n \<and> segment_reference seg = fr_segment r
     \<and> (\<forall>k. sd_read seg k = map_of (live_docs m) k) \<and> sr_id (fr_segment r) = n
     \<and> (sr_rows (fr_segment r) = 0 \<longleftrightarrow> live_docs m = [])"
proof -
  let ?t = "all_live (vw_rows (sw_vectors w)) 0"
  note ok = flush_memtable_ok [OF assms(1-5)]
  then have g: "good s'" and h: "holds_segment (files s') (cat_name cat) n w ?t" "holds_segment (files (crash s')) (cat_name cat) n w ?t"
    and r: "fr_segment r = \<lparr>sr_id = n, sr_rows = vw_rows (sw_vectors w), sr_del_generation = 0\<rparr>" by simp_all
  from assms(3) obtain w0 where w0: "new_writers cat = Inr w0" "push_rows (map pushed (live_docs m)) w0 = Inr w"
    unfolding flush_rows_def by (rule rbind_InrE) (simp add: flush_rows_pushed [OF assms(2)])
  have short: "\<forall>k. length (seg_bytes w ?t k) < 2 ^ 64" using seg_bytes_short [OF w0 assms(4) all_live_correct(1)] by blast
  note sf = holds_seg_files [OF g h short]
  have ts: "ts_rows ?t = vw_rows (sw_vectors w)" by (simp add: all_live_def)
  from sd_open_written [OF g h(1) w0 assms(4,6) live_docs_correct(1) [OF assms(2)] all_live_correct(1) ts, of 0]
  obtain seg where seg: "sd_open st cat (fr_segment r) s' = (Inr seg, s')" "seg_shows seg (live_docs m)" "sd_tombstones seg = ?t"
    "sd_id seg = n" unfolding r by blast
  have ld: "sd_load cat (fr_segment r) (seg_bytes w ?t) = Some seg"
    using sd_open_load [OF g, of cat "fr_segment r" "seg_bytes w ?t" seg s'] sf seg(1) r by simp
  have n: "unat (vw_rows (sw_vectors w)) = length (live_docs m)" using seg(2,3) by (simp add: seg_shows_def all_live_def)
  then have lv: "seg_live seg = {..<length (live_docs m)}" using seg(3) by (simp add: seg_live_def all_live_correct)
  have "sd_rows seg = vw_rows (sw_vectors w)"
    using all_live_rows(1) [OF seg(2) lv] n by (simp add: word_unat_eq_iff)
  then have "segment_reference seg = fr_segment r" using seg(3,4) r by (simp add: segment_reference_def all_live_def)
  moreover have "seg_ok cat seg" using seg(2) sd_load_fields(3,4) [OF ld] unfolding seg_ok_def by blast
  moreover have "sr_rows (fr_segment r) = 0 \<longleftrightarrow> live_docs m = []"
    using n r by (metis length_0_conv segment_ref.select_convs(2) unat_eq_zero)
  ultimately show ?thesis using sf ld seg(4) r sd_read_all_live [OF seg(2) lv] by (intro exI [of _ "seg_bytes w ?t"] exI [of _ seg]) simp
qed

end

text \<open>The new list of open segments: the old ones superseded, and the flushed one if it has rows.\<close>

definition segments_after :: "doc_id list \<Rightarrow> memtable \<Rightarrow> u64 \<Rightarrow> catalog \<Rightarrow> segment_data list \<Rightarrow> segment_data list \<Rightarrow> bool" where
  "segments_after ids m n cat old segs \<longleftrightarrow> (\<exists>new seg. list_all2 (superseded ids) old new
     \<and> (live_docs m = [] \<and> segs = new
        \<or> seg_ok cat seg \<and> (\<forall>k. sd_read seg k = map_of (live_docs m) k) \<and> sd_id seg = n \<and> segs = new @ [seg]))"

context storage_contract
begin

lemma do_flush_segments:
  assumes "en_storage E = st" and "good s" and "coll_wf cat c" and "disk_inv (files s) cat c"
    and "m = cs_memtable c" and "flush_rows cat m = Inr w" and "segment_fits w" and "list_all (storable cat) (live_docs m)"
    and "n = cs_next_segment_id c"
    and "flush_memtable st cat n m s = (Inr r, s1)" and "ids = map mw_id (mt_live_rows m) @ mt_deleted_ids m"
    and "io_fold (supersede_segment E cat ids) [0..<length (cs_segments c)] [] (c, d, s1) = (Inr refs1, (c2, d2, s2))"
    and "adopt_segment E cat (fr_segment r) refs1 (c2, d2, s2) = (Inr refs, (c', d', s'))"
  shows "\<exists>segs. segments_after ids m n cat (cs_segments c) segs \<and> c' = c\<lparr>cs_segments := segs\<rparr> \<and> d' = d
     \<and> refs = map segment_reference segs \<and> good s' \<and> (\<forall>q. dirs s q \<longrightarrow> dirs s' q)
     \<and> (\<forall>q. dirs s' q \<longrightarrow> dirs s q \<or> segments_path (cat_name cat) q)
     \<and> (\<forall>seg \<in> set segs. mirrored (files s') cat seg)
     \<and> (\<forall>q. (\<forall>i k. segment_file (cat_name cat) i k \<noteq> Inr q) \<longrightarrow> files s' q = files s q \<and> (\<forall>h. stands s h q \<longrightarrow> stands s' h q))"
proof -
  let ?name = "cat_name cat" and ?segs = "cs_segments c"
  from assms(3,5) have inv: "mt_inv m" and shows_all: "\<forall>seg \<in> set ?segs. \<exists>xs. seg_shows seg xs" by (auto simp: coll_wf_def seg_ok_def)
  from assms(4,9) have mir: "\<forall>seg \<in> set ?segs. mirrored (files s) cat seg" and lt: "\<forall>seg \<in> set ?segs. sd_id seg \<noteq> n"
    and dis: "distinct (map sd_id ?segs)" using disk_inv_distinct unfolding disk_inv_def by auto
  note fl = flush_memtable_ok [OF assms(2) inv assms(6,7,10)]
  from flushed_segment_loads [OF assms(2) inv assms(6,7,10,8)] obtain B seg where
    B: "seg_files (files s1) ?name n B" "sd_load cat (fr_segment r) B = Some seg" "seg_ok cat seg" "sd_id seg = n"
      "segment_reference seg = fr_segment r" "\<forall>k. sd_read seg k = map_of (live_docs m) k" "sr_id (fr_segment r) = n"
      "sr_rows (fr_segment r) = 0 \<longleftrightarrow> live_docs m = []" by (elim exE conjE)
  have away: "(\<forall>k. segment_file ?name n k \<noteq> Inr p)" if "segment_file ?name i k = Inr p" "i \<noteq> n" for i k p
  proof (intro allI notI)
    fix j assume "segment_file ?name n j = Inr p"
    from segment_file_inject [OF that(1) this] that(2) show False by simp
  qed
  have mir1: "\<forall>seg \<in> set ?segs. mirrored (files s1) cat seg \<and> (\<exists>xs. seg_shows seg xs)"
  proof
    fix old assume old: "old \<in> set ?segs"
    with mir have "mirrored (files s) cat old" by blast
    moreover have "files s1 p = files s p" if "segment_file ?name (sd_id old) k = Inr p" for k p
      using away [OF that] lt old fl by blast
    ultimately show "mirrored (files s1) cat old \<and> (\<exists>xs. seg_shows old xs)" using mirrored_frame shows_all old by blast
  qed
  from fl have g1: "good s1" by blast
  from supersede_fold [OF assms(1) g1 mir1 dis order_refl assms(12)] obtain new where
    f: "c2 = c\<lparr>cs_segments := new\<rparr>" "d2 = d" "list_all2 (superseded ids) ?segs new" "refs1 = map segment_reference new"
      "good s2" "dirs s2 = dirs s1" "\<forall>h q. stands s1 h q \<longrightarrow> stands s2 h q" "\<forall>seg \<in> set new. mirrored (files s2) cat seg"
      "\<forall>q. (\<forall>seg \<in> set ?segs. segment_file ?name (sd_id seg) TombstonesFile \<noteq> Inr q) \<longrightarrow> files s2 q = files s1 q" by auto
  have new_ids: "\<forall>x \<in> set new. sd_id x \<noteq> n"
    using superseded_ids [OF f(3)] lt by (metis image_eqI image_iff set_map)
  have "files s2 p = files s1 p" if "segment_file ?name n k = Inr p" for k p
    using f(9) lt segment_file_inject [OF that] by metis
  with B(1) have B2: "seg_files (files s2) ?name (sr_id (fr_segment r)) B" unfolding B(7) by (rule seg_files_frame)
  from adopt_segment_ok [OF assms(1) f(5) assms(13) B2] have a: "d' = d2" "good s'" "dirs s' = dirs s2"
    "\<forall>q. (\<forall>k. segment_file ?name n k \<noteq> Inr q) \<longrightarrow> files s' q = files s2 q \<and> (\<forall>h. stands s2 h q \<longrightarrow> stands s' h q)"
    and ad: "if sr_rows (fr_segment r) > 0 then s' = s2 \<and> (\<exists>seg. sd_load cat (fr_segment r) B = Some seg
        \<and> c' = c2\<lparr>cs_segments := cs_segments c2 @ [seg]\<rparr> \<and> refs = refs1 @ [fr_segment r]) else c' = c2 \<and> refs = refs1"
    unfolding B(7) by auto
  have mn: "mirrored (files s') cat x" if "x \<in> set new" for x
  proof -
    have "mirrored (files s2) cat x" using f(8) that by blast
    moreover have "files s' p = files s2 p" if "segment_file ?name (sd_id x) k = Inr p" for k p
      using a(4) away [OF that] new_ids \<open>x \<in> set new\<close> by blast
    ultimately show ?thesis by (rule mirrored_frame)
  qed
  have fr: "\<forall>q. (\<forall>i k. segment_file ?name i k \<noteq> Inr q) \<longrightarrow> files s' q = files s q \<and> (\<forall>h. stands s h q \<longrightarrow> stands s' h q)"
  proof (intro allI impI)
    fix q assume q: "\<forall>i k. segment_file ?name i k \<noteq> Inr q"
    then have "files s' q = files s2 q" "\<forall>h. stands s2 h q \<longrightarrow> stands s' h q" using a(4) by blast+
    moreover have "files s2 q = files s1 q" using f(9) q by blast
    moreover have "files s1 q = files s q" "\<forall>h. stands s h q \<longrightarrow> stands s1 h q" using fl q by blast+
    ultimately show "files s' q = files s q \<and> (\<forall>h. stands s h q \<longrightarrow> stands s' h q)" using f(7) by simp
  qed
  have dm: "\<forall>q. dirs s q \<longrightarrow> dirs s' q" "\<forall>q. dirs s' q \<longrightarrow> dirs s q \<or> segments_path ?name q"
    unfolding a(3) f(6) segments_path_def using fl flush_memtable_dirs [OF assms(2) inv assms(6,7,10)] by blast+
  show ?thesis
  proof (cases "live_docs m = []")
    case True
    then have "segments_after ids m n cat ?segs new" unfolding segments_after_def using f(3) by blast
    with True ad B(8) f(1,2,4) a(1,2) mn fr dm show ?thesis by (intro exI [of _ new]) simp
  next
    case False
    with B(8) have "sr_rows (fr_segment r) > 0" by (simp add: word_gt_0)
    with ad B(2) have c: "s' = s2" "c' = c2\<lparr>cs_segments := cs_segments c2 @ [seg]\<rparr>" "refs = refs1 @ [fr_segment r]" by auto
    have "mirrored (files s') cat seg"
      unfolding mirrored_def B(4,5) using B2 [unfolded B(7)] B(2) c(1) by blast
    moreover have "segments_after ids m n cat ?segs (new @ [seg])" unfolding segments_after_def using f(3) B(3,4,6) by blast
    ultimately show ?thesis using c f(1,2,4) a(1,2) mn fr dm B(5) by (intro exI [of _ "new @ [seg]"]) auto
  qed
qed

lemma segments_after_view:
  assumes "segments_after ids (cs_memtable c) n cat (cs_segments c) segs" and "coll_wf cat c" and "disk_inv fs cat c"
    and "ids = map mw_id (mt_live_rows (cs_memtable c)) @ mt_deleted_ids (cs_memtable c)" and "n = cs_next_segment_id c" and "n \<noteq> - 1"
  shows "\<forall>k. newest segs k = coll_abs c k" and "apart segs" and "\<forall>seg \<in> set segs. seg_ok cat seg"
    and "sorted_wrt (<) (map sd_id segs)" and "\<forall>seg \<in> set segs. sd_id seg < n + 1"
proof -
  from assms(1) obtain new seg where a: "list_all2 (superseded ids) (cs_segments c) new"
    "live_docs (cs_memtable c) = [] \<and> segs = new
      \<or> seg_ok cat seg \<and> (\<forall>k. sd_read seg k = map_of (live_docs (cs_memtable c)) k) \<and> sd_id seg = n \<and> segs = new @ [seg]"
    unfolding segments_after_def by blast
  then have v: "live_docs (cs_memtable c) = [] \<and> segs = new
      \<or> seg_ok cat seg \<and> (\<forall>k. sd_read seg k = map_of (live_docs (cs_memtable c)) k) \<and> segs = new @ [seg]" by blast
  show "\<forall>k. newest segs k = coll_abs c k" and "apart segs" and "\<forall>seg \<in> set segs. seg_ok cat seg"
    using flushed_view [OF assms(2) refl assms(4) a(1) v] by blast+
  have "n + 1 \<noteq> 0" using assms(6) by (simp add: eq_neg_iff_add_eq_0)
  then have nn: "x < n \<Longrightarrow> x < n + 1" "n < n + 1" for x by (simp_all add: word_less_nat_alt unat_plus_one)
  from superseded_ids [OF a(1)] have m: "map sd_id new = map sd_id (cs_segments c)" .
  from assms(3,5) have d: "sorted_wrt (<) (map sd_id new)" and lt: "\<forall>x \<in> set (map sd_id new). x < n" unfolding m disk_inv_def by auto
  show "sorted_wrt (<) (map sd_id segs)" using a(2) d lt by (auto simp: sorted_wrt_append)
  show "\<forall>seg \<in> set segs. sd_id seg < n + 1" using a(2) lt nn by auto
qed

lemma do_flush_ok:
  assumes "en_storage E = st" and "good s" and "coll_wf cat c" and "disk_inv (files s) cat c" and "\<not> mt_is_empty (cs_memtable c)"
    and "flush_rows cat (cs_memtable c) = Inr w" and "segment_fits w" and "list_all (storable cat) (live_docs (cs_memtable c))"
    and "cs_next_segment_id c \<noteq> - 1" and "do_flush E cat now_ms (c, d, s) = (Inr (), (c', d', s'))"
    and "\<forall>bs. manifest_encode (mst_current (ds_manifest d')) = Inr bs \<longrightarrow> length bs < 2 ^ 64"
  shows "\<exists>entry bs p. coll_wf cat c' \<and> coll_abs c' = coll_abs c \<and> cs_memtable c' = mt_clear (cs_memtable c)
     \<and> good s' \<and> disk_inv (files s') cat c' \<and> (\<forall>q. dirs s q \<longrightarrow> dirs s' q)
     \<and> (\<forall>q. dirs s' q \<longrightarrow> dirs s q \<or> segments_path (cat_name cat) q)
     \<and> d' = d\<lparr>ds_manifest := committed_store (ds_manifest d) entry now_ms\<rparr>
     \<and> ce_name entry = cat_name cat \<and> ce_segments entry = map segment_reference (cs_segments c') \<and> ce_index_snapshot entry = None
     \<and> manifest_encode (mst_current (ds_manifest d')) = Inr bs \<and> files s' (slot_path (mst_slot (ds_manifest d'))) = Some (bs, bs)
     \<and> wal_file (cat_name cat) 1 = Inr p \<and> ww_path (cs_wal c') = p \<and> wal_holds files stands writable (cs_wal c') s' [] []
     \<and> ww_next_sequence (cs_wal c') = ww_next_sequence (cs_wal c) \<and> ww_durability (cs_wal c') = dcf_durability (en_config E)
     \<and> ww_next_txn (cs_wal c') = 1
     \<and> (\<forall>q. (\<forall>i k. segment_file (cat_name cat) i k \<noteq> Inr q) \<longrightarrow> q \<noteq> p \<longrightarrow> q \<noteq> slot_path (mst_slot (ds_manifest d')) \<longrightarrow>
          files s' q = files s q)"
proof -
  let ?m = "cs_memtable c" and ?n = "cs_next_segment_id c" and ?name = "cat_name cat"
  let ?ids = "map mw_id (mt_live_rows ?m) @ mt_deleted_ids ?m"
  from assms(3) have inv: "mt_inv ?m" by (simp add: coll_wf_def)
  from assms(1,5,10) obtain r s1 refs1 c2 d2 s2 refs c3 d3 s3 d4 s4 where
    fl: "flush_memtable st cat ?n ?m s = (Inr r, s1)"
    and fo: "io_fold (supersede_segment E cat (map mw_id (mt_live_rows ?m) @ fr_pending r)) [0..<length (cs_segments c)] [] (c, d, s1)
      = (Inr refs1, (c2, d2, s2))"
    and ad: "adopt_segment E cat (fr_segment r) refs1 (c2, d2, s2) = (Inr refs, (c3, d3, s3))"
    and co: "commit_collection E now_ms (flushed_entry cat c3 refs) (d3, s3) = (Inr (), (d4, s4))"
    and ck: "checkpoint_wal E cat ?n (c3, d4, s4) = (Inr (), (c', d', s'))"
    unfolding do_flush_def Let_def
    by (auto simp: io_snd_def elim!: io_bind_InrE in_storage_InrE split: prod.splits)
  have fp: "fr_pending r = mt_deleted_ids ?m" using flush_memtable_ok [OF assms(2) inv assms(6,7) fl] by simp
  from do_flush_segments [OF assms(1-4) refl assms(6-8) refl fl refl fo [unfolded fp] ad] obtain segs where
    a: "segments_after ?ids ?m ?n cat (cs_segments c) segs" "c3 = c\<lparr>cs_segments := segs\<rparr>" "d3 = d" "refs = map segment_reference segs"
      "good s3" "\<forall>q. dirs s q \<longrightarrow> dirs s3 q" "\<forall>q. dirs s3 q \<longrightarrow> dirs s q \<or> segments_path ?name q" "\<forall>seg \<in> set segs. mirrored (files s3) cat seg"
      "\<forall>q. (\<forall>i k. segment_file ?name i k \<noteq> Inr q) \<longrightarrow> files s3 q = files s q \<and> (\<forall>h. stands s h q \<longrightarrow> stands s3 h q)"
    by (elim exE conjE)
  note v = segments_after_view [OF a(1) assms(3,4) refl refl assms(9)]
  let ?entry = "flushed_entry cat c3 refs" and ?slot = "slot_path (slot_other (mst_slot (ds_manifest d)))"
  have d4: "d' = d4" using ck by (auto simp: checkpoint_wal_def Let_def io_modify_def io_self_def elim!: io_bind_InrE in_storage_InrE)
  from commit_collection_ok [OF assms(1) a(5) co] assms(11) obtain bs where
    b: "manifest_encode (mst_current (ds_manifest d4)) = Inr bs" "d4 = d3\<lparr>ds_manifest := committed_store (ds_manifest d3) ?entry now_ms\<rparr>"
      "good s4" "dirs s4 = dirs s3" "files s4 = (files s3)(slot_path (slot_other (mst_slot (ds_manifest d3))) \<mapsto> (bs, bs))"
    unfolding d4 by blast
  from checkpoint_wal_ok [OF assms(1) b(3) ck] obtain p wr where
    k: "wal_file ?name 1 = Inr p" "good s'" "dirs s' = dirs s4" "files s' = (files s4)(p \<mapsto> ([], []))"
      "c' = c3\<lparr>cs_memtable := mt_clear (cs_memtable c3), cs_next_segment_id := ?n + 1, cs_wal := wr\<rparr>"
      "wal_holds files stands writable wr s' [] []" "ww_path wr = p" "ww_next_sequence wr = ww_next_sequence (cs_wal c3)"
      "ww_durability wr = dcf_durability (en_config E)" "ww_next_txn wr = 1" by (elim exE conjE)
  have slot: "mst_slot (ds_manifest d') = slot_other (mst_slot (ds_manifest d))" unfolding d4 b(2) a(3) by (simp add: committed_store_def)
  have seg_p: "q \<noteq> p" "q \<noteq> slot_path t" if "segment_file ?name i j = Inr q" for i j q t
    using layout_inject [of "SegFile ?name i j" q "WalFile ?name 1"] layout_inject [of "SegFile ?name i j" q "ManifestFile t"]
      that k(1) layout_manifest_eq [of t] by auto
  have p_slot: "p \<noteq> slot_path t" for t
    using layout_inject [of "WalFile ?name 1" p "ManifestFile t"] k(1) layout_manifest_eq [of t] by auto
  have mir: "mirrored (files s') cat seg" if "seg \<in> set segs" for seg
  proof -
    have "mirrored (files s3) cat seg" using a(8) that by blast
    moreover have "files s' q = files s3 q" if "segment_file ?name (sd_id seg) j = Inr q" for j q
      using seg_p [OF that] by (simp add: k(4) b(5))
    ultimately show ?thesis by (rule mirrored_frame)
  qed
  have "disk_inv (files s') cat c'" unfolding disk_inv_def using mir v(4,5) by (simp add: k(5) a(2))
  moreover have "coll_wf cat c'"
    using assms(3) v(2,3) mt_inv_clear(1) [OF inv] by (simp add: coll_wf_def k(5) a(2) mt_clear_def)
  moreover have "coll_abs c' = coll_abs c" using v(1) by (simp add: fun_eq_iff coll_abs_def k(5) a(2) mt_inv_clear(2))
  moreover have "files s' q = files s q"
    if "\<forall>i j. segment_file ?name i j \<noteq> Inr q" "q \<noteq> p" "q \<noteq> slot_path (mst_slot (ds_manifest d'))" for q
    using a(9) that by (simp add: k(4) b(5) a(3) slot)
  ultimately show ?thesis
    using a b k p_slot p_slot [symmetric] slot d4
    by (rule_tac exI [of _ ?entry], rule_tac exI [of _ bs], rule_tac exI [of _ p]) (simp add: flushed_entry_def)
qed

end

end
