(* ===== verification/Collection_Writes.thy ===== *)
theory Collection_Writes
  imports Collection_Durable
begin

text \<open>
  Writes to a collection (\<open>insert\<close>, \<open>upsert\<close>, \<open>delete\<close> and \<open>write_batch\<close> of
  \<open>core/src/api/collection.rs\<close>): each refines an update of the map the collection stands for, and
  keeps the invariant from which \<open>Collection_Recovery\<close> recovers it.
\<close>

subsection \<open>Logs without open groups\<close>

definition settled :: "wal_frame list \<Rightarrow> bool" where
  "settled fs \<longleftrightarrow> (\<forall>f \<in> set fs. \<not> is_commit (wf_op f) \<longrightarrow> wf_txn_id f = 0 \<or> wf_txn_id f \<in> set (committed_txns fs))"

lemma settled_filter: "settled fs \<Longrightarrow> committed_frames fs = filter (\<lambda>f. \<not> is_commit (wf_op f)) fs"
  unfolding committed_frames_def settled_def by (intro filter_cong) auto

lemma settled_append: "settled fs \<Longrightarrow> settled gs \<Longrightarrow> settled (fs @ gs)"
  by (auto simp: settled_def)

lemma committed_append: "settled fs \<Longrightarrow> settled gs \<Longrightarrow> committed_frames (fs @ gs) = committed_frames fs @ committed_frames gs"
  using settled_append by (simp add: settled_filter)

lemma settled_Nil [simp]: "settled []"
  by (simp add: settled_def)

lemma settled_standalone: "\<not> is_commit p \<Longrightarrow> settled [standalone q p] \<and> committed_frames [standalone q p] = [standalone q p]"
  by (auto simp: settled_def committed_frames_def standalone_def)

lemma settled_group:
  assumes "t \<noteq> 0" and "\<forall>p \<in> set ps. \<not> is_commit p"
  shows "settled (whole_group q t ps)" and "committed_frames (whole_group q t ps) = group_frames q t ps"
proof -
  have g: "is_group t (group_frames q t ps) (in_txn (q + u64_of (length ps)) t (Commit (u64_of (length ps))))"
    using whole_group_is_group [OF assms] .
  from committed_frames_group [OF g, of "[]"] show c: "committed_frames (whole_group q t ps) = group_frames q t ps"
    by (simp add: whole_group_def committed_frames_def)
  have "t \<in> set (committed_txns (whole_group q t ps))" using g by (auto simp: whole_group_def is_group_def)
  then show "settled (whole_group q t ps)"
    using group_frames_ids by (fastforce simp: settled_def whole_group_def in_txn_def)
qed

lemma group_frames_ops: "map wf_op (group_frames q t ps) = ps"
  by (induction ps arbitrary: q) (simp_all add: in_txn_def)

text \<open>Replay looks at the operations only.\<close>

lemma replay_ops:
  assumes "map wf_op fs = map wf_op gs"
  shows "try_fold (replay_frame F kind) fs m = try_fold (replay_frame F kind) gs m"
  using assms
proof (induction fs arbitrary: gs m)
  case (Cons f fs)
  then obtain g gs' where g: "gs = g # gs'" "wf_op f = wf_op g" "map wf_op fs = map wf_op gs'" by auto
  then have "replay_frame F kind f = replay_frame F kind g" by (simp add: fun_eq_iff replay_frame_def)
  with g Cons.IH show ?case by (simp add: rbind_def split: sum.split)
qed simp

subsection \<open>Sizes of frames\<close>

lemma varint_length: "length (varint_bytes v) \<le> 10"
  using length_varint_bytes_le [of v] by (simp add: MAX_LEN_U64_def)

lemma blob_length: "length (blob_bytes bs) \<le> 10 + length bs"
  using varint_length [of "u64_of (length bs)"] by (simp add: blob_bytes_def)

lemma frame_ok_op: "length (op_bytes (wf_op f)) \<le> 2 ^ 24 \<Longrightarrow> frame_ok f"
  using varint_length [of "wf_sequence f"] varint_length [of "wf_txn_id f"] by (simp add: frame_ok_def frame_body_def)

lemma op_bytes_put:
  assumes "length ib \<le> 2048" and "length vec \<le> 2 ^ 20" and "length md \<le> 2 ^ 20" and "\<forall>c. content = Some c \<longrightarrow> length c \<le> 2 ^ 23"
  shows "length (op_bytes (Put ib vec md content)) \<le> 2 ^ 24"
  using blob_length [of ib] blob_length [of vec] blob_length [of md] blob_length [of "the content"] assms
  by (cases content) auto

lemma op_bytes_small: "length ib \<le> 2048 \<Longrightarrow> length (op_bytes (Delete ib)) \<le> 2 ^ 24" "length (op_bytes (Commit n)) \<le> 2 ^ 24"
  using blob_length [of ib] varint_length [of n] by simp_all

subsection \<open>Well-formed documents\<close>

text \<open>What the types of the arguments guarantee: UTF-8 strings, a view over whole components, maps with sorted keys.\<close>

definition input_wf :: "document_input \<Rightarrow> bool" where
  "input_wf doc \<longleftrightarrow> id_wf (di_id doc) \<and> view_wf (di_vector doc) \<and> (\<forall>m. di_metadata doc = Some m \<longrightarrow> val_wf (Map m))"

text \<open>What storing the document adds to the map.\<close>

definition stored_of :: "fpu \<Rightarrow> document_input \<Rightarrow> stored" where
  "stored_of F doc = (view_bytes (di_vector doc), view_inv_norm F (di_vector doc), di_metadata doc, di_content doc)"

lemma coll_validate_parts:
  assumes "coll_validate cat doc = Inr ()"
  shows "id_validate (di_id doc) (cat_id_kind cat) = Inr ()" and "view_dimension (di_vector doc) = cat_dimension cat"
    and "\<forall>m. di_metadata doc = Some m \<longrightarrow> meta_validate m = Inr ()"
    and "\<forall>c. di_content doc = Some c \<longrightarrow> length c \<le> MAX_CONTENT_BYTES"
  using assms
  by (auto simp: coll_validate_def doc_validate_def view_validate_def view_check_dimension_def Let_def elim!: rbind_InrE split: option.splits if_splits)

text \<open>
  What storing a document needs.  A batch does not check the length of a content as an insert does;
  the content must still fit a frame of the log and a record, for which the room taken here is
  \<open>8 MiB\<close>, eight times the limit on inserts.
\<close>

definition CONTENT_ROOM :: nat where
  "CONTENT_ROOM = 2 ^ 23"

definition input_fits :: "catalog \<Rightarrow> document_input \<Rightarrow> bool" where
  "input_fits cat doc \<longleftrightarrow> id_validate (di_id doc) (cat_id_kind cat) = Inr () \<and> view_dimension (di_vector doc) = cat_dimension cat
     \<and> (\<forall>m. di_metadata doc = Some m \<longrightarrow> meta_validate m = Inr ()) \<and> (\<forall>c. di_content doc = Some c \<longrightarrow> length c \<le> CONTENT_ROOM)"

lemma coll_validate_fits: "coll_validate cat doc = Inr () \<Longrightarrow> input_fits cat doc"
  using coll_validate_parts [of cat doc] by (auto simp: input_fits_def CONTENT_ROOM_def MAX_CONTENT_BYTES_def)

lemma input_fits_parts:
  assumes "input_fits cat doc"
  shows "id_validate (di_id doc) (cat_id_kind cat) = Inr ()" and "view_dimension (di_vector doc) = cat_dimension cat"
    and "\<forall>m. di_metadata doc = Some m \<longrightarrow> meta_validate m = Inr ()"
    and "\<forall>c. di_content doc = Some c \<longrightarrow> length c \<le> CONTENT_ROOM"
  using assms by (simp_all add: input_fits_def)

lemma meta_encode_total:
  assumes "meta_validate m = Inr ()"
  shows "\<exists>bs. meta_encode m = Inr bs"
  using assms by (auto simp: meta_encode_def meta_validate_def Let_def elim!: rbind_InrE split: if_splits)

lemma id_length: "id_validate i k = Inr () \<Longrightarrow> length (id_to_bytes i) \<le> 512"
  by (cases i; cases k) (auto simp: Let_def MAX_DOC_ID_LEN_def split: if_splits)

lemma view_bytes_eq:
  assumes "view_wf v" and "view_dimension v = dimension"
  shows "view_raw F32 (view_bytes v) dimension = Inr (VRaw F32 (view_bytes v) dimension)"
    and "view_inv_norm F (VRaw F32 (view_bytes v) dimension) = view_inv_norm F v"
proof -
  have d: "view_dtype v = F32" by (rule dtype_only)
  show "view_raw F32 (view_bytes v) dimension = Inr (VRaw F32 (view_bytes v) dimension)"
    using assms d by (simp add: view_raw_def view_wf_def)
  have "view_f32 (VRaw F32 (view_bytes v) dimension) = view_f32 v" by (cases v) simp_all
  then show "view_inv_norm F (VRaw F32 (view_bytes v) dimension) = view_inv_norm F v"
    by (simp add: view_inv_norm_def view_norm_def)
qed

lemma put_bytes_view:
  assumes "view_wf v" and "view_dimension v = mt_dimension m"
  shows "mt_put_bytes F k (view_bytes v) md c m = mt_put_view F k v md c m"
    and "\<exists>r m'. mt_put_view F k v md c m = Inr (r, m')"
proof -
  have t: "mt_dtype m = F32" by (rule dtype_only)
  show "mt_put_bytes F k (view_bytes v) md c m = mt_put_view F k v md c m"
    using view_bytes_eq(1) [OF assms] view_bytes_eq(2) [OF assms, of F] assms(2)
    by (simp add: mt_put_bytes_def t mt_put_view_def view_check_dimension_def Let_def)
  show "\<exists>r m'. mt_put_view F k v md c m = Inr (r, m')"
    using assms(2) by (simp add: mt_put_view_def view_check_dimension_def Let_def)
qed

text \<open>Replaying the frame a put logged does what the put did to the memtable.\<close>

lemma replay_put:
  assumes "input_wf doc" and "input_fits cat doc" and "cat_dimension cat = mt_dimension m"
    and "(case di_metadata doc of Some m \<Rightarrow> meta_encode m | None \<Rightarrow> Inr []) = Inr md"
    and "wf_op f = Put (id_to_bytes (di_id doc)) (view_bytes (di_vector doc)) md (di_content doc)"
  shows "replay_frame F (cat_id_kind cat) f m
    = rbind (mt_put_view F (di_id doc) (di_vector doc) (di_metadata doc) (di_content doc) m) (\<lambda>(_, m). Inr m)"
proof -
  note v = input_fits_parts [OF assms(2)]
  from assms(1) have w: "id_wf (di_id doc)" "view_wf (di_vector doc)" by (auto simp: input_wf_def)
  note idr = id_bytes_roundtrip [OF w(1) v(1)]
  have md: "(if md = [] then Inr None else rbind (meta_decode md) (\<lambda>x. Inr (Some x))) = Inr (di_metadata doc)"
  proof (cases "di_metadata doc")
    case None
    with assms(4) show ?thesis by simp
  next
    case (Some m0)
    with assms(1,4) have e: "val_wf (Map m0)" "meta_encode m0 = Inr md" by (auto simp: input_wf_def)
    from e(2) have "encode (Map m0) = Inr md" by (auto simp: meta_encode_def elim!: rbind_InrE)
    then have "md \<noteq> []" using val_rep_pos [OF encode_rep [OF _ e(1)]] by auto
    with meta_encode_decode(1) [OF e] Some show ?thesis by simp
  qed
  show ?thesis
    unfolding replay_frame_def assms(5)
    using idr md put_bytes_view(1) [OF w(2), of m F] v(2) assms(3) by simp
qed

lemma put_op_small:
  assumes "input_wf doc" and "input_fits cat doc" and "unat (cat_dimension cat) \<le> 65536"
    and "(case di_metadata doc of Some m \<Rightarrow> meta_encode m | None \<Rightarrow> Inr []) = Inr md"
  shows "length (op_bytes (Put (id_to_bytes (di_id doc)) (view_bytes (di_vector doc)) md (di_content doc))) \<le> 2 ^ 24"
proof (rule op_bytes_put)
  note v = input_fits_parts [OF assms(2)]
  show "length (id_to_bytes (di_id doc)) \<le> 2048" using id_length [OF v(1)] by simp
  have "view_dtype (di_vector doc) = F32" by (rule dtype_only)
  then have "length (view_bytes (di_vector doc)) = dtype_row_stride F32 (cat_dimension cat)"
    using assms(1) v(2) by (simp add: input_wf_def view_wf_def)
  with assms(3) show "length (view_bytes (di_vector doc)) \<le> 2 ^ 20" by (simp add: dtype_row_stride_def)
  show "length md \<le> 2 ^ 20"
  proof (cases "di_metadata doc")
    case (Some m)
    with assms(1,4) have "val_wf (Map m)" "meta_encode m = Inr md" by (auto simp: input_wf_def)
    from meta_encode_decode(2) [OF this] show ?thesis by (simp add: MAX_METADATA_BYTES_def)
  qed (use assms(4) in simp)
  show "\<forall>c. di_content doc = Some c \<longrightarrow> length c \<le> 2 ^ 23" using v(4) by (auto simp: CONTENT_ROOM_def)
qed

subsection \<open>The invariant\<close>

text \<open>No directory stands where a file of the collection goes, nor a file on the way to its segment directory.\<close>

definition paths_clear :: "(db_path \<Rightarrow> file_view option) \<Rightarrow> (db_path \<Rightarrow> bool) \<Rightarrow> rust_string \<Rightarrow> bool" where
  "paths_clear fs ds name \<longleftrightarrow> (\<forall>i k p. segment_file name i k = Inr p \<longrightarrow> \<not> ds p)
     \<and> (\<forall>q. segments_path name q \<longrightarrow> fs q = None) \<and> (\<forall>t. \<not> ds (slot_path t))"

text \<open>
  The collection is well formed, its open segments mirror their files, everything buffered can be
  stored, and the log holds exactly the frames whose replay gives the memtable; under \<open>Full\<close> all
  of the log is durable.
\<close>

definition coll_inv ::
  "('s \<Rightarrow> db_path \<Rightarrow> file_view option) \<Rightarrow> ('s \<Rightarrow> db_path \<Rightarrow> bool) \<Rightarrow> ('s \<Rightarrow> 'h \<Rightarrow> db_path \<Rightarrow> bool) \<Rightarrow> ('h \<Rightarrow> bool)
    \<Rightarrow> ('s, 'h, 'i) engine \<Rightarrow> catalog \<Rightarrow> 'h coll_state \<Rightarrow> 's \<Rightarrow> bool" where
  "coll_inv files dirs stands writable E cat c s \<longleftrightarrow> coll_wf cat c \<and> disk_inv (files s) cat c
     \<and> paths_clear (files s) (dirs s) (cat_name cat) \<and> list_all (storable cat) (live_docs (cs_memtable c))
     \<and> wal_file (cat_name cat) 1 = Inr (ww_path (cs_wal c)) \<and> ww_durability (cs_wal c) = dcf_durability (en_config E)
     \<and> ww_next_txn (cs_wal c) \<noteq> 0
     \<and> (\<exists>fs d. wal_holds files stands writable (cs_wal c) s fs d \<and> settled fs \<and> (dcf_durability (en_config E) = Full \<longrightarrow> d = log_bytes fs)
          \<and> try_fold (replay_frame (fo_fpu (en_floats E)) (cat_id_kind cat)) (committed_frames fs) (mt_new (cat_dimension cat) F32)
              = Inr (cs_memtable c))"

lemma storable_abs:
  assumes "mt_inv m"
  shows "list_all (storable cat) (live_docs m) \<longleftrightarrow> (\<forall>k x. mt_abs m k = Some (Some x) \<longrightarrow> storable cat (k, x))"
  using live_docs_correct(3) [OF assms] by (simp add: list_all_iff split_paired_All Ball_def)

lemma segments_path_components:
  assumes "segments_path name q"
  shows "length (path_components q) \<le> 3" and "segment_file name' i k \<noteq> Inr q" and "q \<noteq> slot_path t"
proof -
  from assms obtain d n where d: "segments_dir name = Inr d" and q: "q = intercal (take n (path_components d))"
    unfolding segments_path_def by blast
  let ?cs = "[ascii ''collections'', name, ascii ''segments'']"
  from collection_sub [OF d [unfolded segments_dir_def]] have p: "list_all plain ?cs" "d = intercal ?cs" by blast+
  have pc: "path_components d = ?cs" using components_intercal [OF p(1)] p(2) by simp
  have "list_all plain (take n ?cs)" using p(1) by (auto simp: list_all_iff dest: in_set_takeD)
  from components_intercal [OF this] have c: "path_components q = take n ?cs" unfolding q pc .
  then show "length (path_components q) \<le> 3" by simp
  show "segment_file name' i k \<noteq> Inr q"
    using layout_components [of "SegFile name' i k" q] \<open>length (path_components q) \<le> 3\<close> by auto
  show "q \<noteq> slot_path t"
  proof
    assume "q = slot_path t"
    then have "path_components q = [ascii (slot_file_name t)]"
      using layout_components [of "ManifestFile t" q] layout_manifest_eq by simp
    with c have "ascii ''collections'' = ascii (slot_file_name t)" by (cases n) auto
    then show False by (cases t) (simp_all add: ascii_def)
  qed
qed

lemma segments_dir_components: "segments_dir name = Inr d \<Longrightarrow> length (path_components d) = 3 \<and> segments_path name d"
proof -
  assume d: "segments_dir name = Inr d"
  let ?cs = "[ascii ''collections'', name, ascii ''segments'']"
  from collection_sub [OF d [unfolded segments_dir_def]] have p: "list_all plain ?cs" "d = intercal ?cs" by blast+
  have pc: "path_components d = ?cs" using components_intercal [OF p(1)] p(2) by simp
  then have "d = intercal (take 3 (path_components d))" using p(2) by simp
  with d pc show ?thesis unfolding segments_path_def by (intro conjI exI [of _ d] exI [of _ 3]) simp_all
qed

lemma wal_not_segments_path: "wal_file name n = Inr p \<Longrightarrow> segments_path name' p \<Longrightarrow> False"
  using layout_components [of "WalFile name n" p] segments_path_components(1) [of name' p] by simp

text \<open>The bytes in the log, and how many of them \<open>n\<close> frames take at most.\<close>

definition log_len :: "(db_path \<Rightarrow> file_view option) \<Rightarrow> 'h coll_state \<Rightarrow> nat" where
  "log_len fs c = (case fs (ww_path (cs_wal c)) of Some f \<Rightarrow> length (fst f) | None \<Rightarrow> 0)"

lemma log_bytes_length: "\<forall>f \<in> set fs. frame_ok f \<Longrightarrow> length (log_bytes fs) \<le> length fs * 2 ^ 27"
  by (induction fs) (auto simp: length_frame_bytes frame_ok_def)

lemma log_len_grows:
  assumes "files s (ww_path (cs_wal c)) = Some (log_bytes fs, d)" and "ww_path (cs_wal c') = ww_path (cs_wal c)"
    and "files s' (ww_path (cs_wal c)) = Some (log_bytes (fs @ gs), d')" and "\<forall>f \<in> set gs. frame_ok f"
  shows "log_len (files s') c' \<le> log_len (files s) c + length gs * 2 ^ 27"
  using assms log_bytes_length [OF assms(4)] by (simp add: log_len_def)

context storage_contract
begin

text \<open>Writing the log leaves the segments and the directories alone.\<close>

lemma log_write_frame:
  assumes "disk_inv (files s) cat c" and "paths_clear (files s) (dirs s) (cat_name cat)" and "wal_file (cat_name cat) 1 = Inr p"
    and "files s' = (files s)(p \<mapsto> x)" and "dirs s' = dirs s"
  shows "disk_inv (files s') cat c" and "paths_clear (files s') (dirs s') (cat_name cat)"
proof -
  have "mirrored (files s') cat seg" if "seg \<in> set (cs_segments c)" for seg
  proof -
    have "mirrored (files s) cat seg" using assms(1) that by (simp add: disk_inv_def)
    moreover have "files s' q = files s q" if "segment_file (cat_name cat) (sd_id seg) k = Inr q" for k q
      using layout_inject [of "SegFile (cat_name cat) (sd_id seg) k" q "WalFile (cat_name cat) 1"] that assms(3,4) by auto
    ultimately show ?thesis by (rule mirrored_frame)
  qed
  then show "disk_inv (files s') cat c" using assms(1) by (simp add: disk_inv_def)
  show "paths_clear (files s') (dirs s') (cat_name cat)"
    using assms(2) wal_not_segments_path [OF assms(3)] unfolding paths_clear_def assms(4,5) by auto
qed

text \<open>The log grew by settled frames, and the memtable by what they replay to.\<close>

lemma coll_inv_extend:
  assumes "coll_inv files dirs stands writable E cat c s" and "wal_holds files stands writable (cs_wal c) s fs d" and "settled fs"
    and "dirs s' = dirs s"
    and "try_fold (replay_frame (fo_fpu (en_floats E)) (cat_id_kind cat)) (committed_frames fs) (mt_new (cat_dimension cat) F32)
      = Inr (cs_memtable c)"
    and "settled gs" and "try_fold (replay_frame (fo_fpu (en_floats E)) (cat_id_kind cat)) (committed_frames gs) (cs_memtable c) = Inr m'"
    and "wal_holds files stands writable w' s' (fs @ gs) d'" and "ww_path w' = ww_path (cs_wal c)"
    and "ww_durability w' = ww_durability (cs_wal c)" and "ww_next_txn w' \<noteq> 0"
    and "files s' = (files s)(ww_path (cs_wal c) \<mapsto> x)" and "ww_durability (cs_wal c) = Full \<longrightarrow> d' = log_bytes (fs @ gs)"
    and "mt_inv m'" and "mt_dimension m' = cat_dimension cat" and "list_all (storable cat) (live_docs m')"
  shows "coll_inv files dirs stands writable E cat (c\<lparr>cs_wal := w', cs_memtable := m'\<rparr>) s'"
proof -
  from assms(1) have p: "wal_file (cat_name cat) 1 = Inr (ww_path (cs_wal c))" "ww_durability (cs_wal c) = dcf_durability (en_config E)"
    and wf: "coll_wf cat c" and dk: "disk_inv (files s) cat c" and pc: "paths_clear (files s) (dirs s) (cat_name cat)"
    by (auto simp: coll_inv_def)
  note fr = log_write_frame [OF dk pc p(1) assms(12,4)]
  have "disk_inv (files s') cat (c\<lparr>cs_wal := w', cs_memtable := m'\<rparr>)" using fr(1) by (simp add: disk_inv_def)
  moreover have "coll_wf cat (c\<lparr>cs_wal := w', cs_memtable := m'\<rparr>)" using wf assms(14,15) by (simp add: coll_wf_def)
  moreover note fr(2)
  moreover have "try_fold (replay_frame (fo_fpu (en_floats E)) (cat_id_kind cat)) (committed_frames (fs @ gs)) (mt_new (cat_dimension cat) F32) = Inr m'"
    unfolding committed_append [OF assms(3,6)] try_fold_append assms(5) using assms(7) by simp
  ultimately show ?thesis
    using p assms(8-11,13,16) settled_append [OF assms(3,6)] unfolding coll_inv_def
    by (intro conjI exI [of _ "fs @ gs"] exI [of _ d']) simp_all
qed

text \<open>One operation logged and applied.\<close>

lemma log_one:
  assumes "en_storage E = st" and "good s" and "coll_inv files dirs stands writable E cat c s" and "\<not> is_commit p" and "length (op_bytes p) \<le> 2 ^ 24"
    and "\<And>q. replay_frame (fo_fpu (en_floats E)) (cat_id_kind cat) (standalone q p) (cs_memtable c) = Inr m'"
    and "mt_inv m'" and "mt_dimension m' = cat_dimension cat" and "list_all (storable cat) (live_docs m')"
  obtains q w' s' where "in_wal (ww_append st p) (c, d, s) = (Inr q, (c\<lparr>cs_wal := w'\<rparr>, d, s'))" and "good s'" and "dirs s' = dirs s"
    and "coll_inv files dirs stands writable E cat (c\<lparr>cs_wal := w', cs_memtable := m'\<rparr>) s'"
    and "\<forall>r. r \<noteq> ww_path (cs_wal c) \<longrightarrow> files s' r = files s r"
    and "log_len (files s') (c\<lparr>cs_wal := w', cs_memtable := m'\<rparr>) \<le> log_len (files s) c + 2 ^ 27"
proof -
  let ?q = "ww_next_sequence (cs_wal c)"
  from assms(3) obtain fs dd where h: "wal_holds files stands writable (cs_wal c) s fs dd" "settled fs"
    "dcf_durability (en_config E) = Full \<longrightarrow> dd = log_bytes fs"
    "try_fold (replay_frame (fo_fpu (en_floats E)) (cat_id_kind cat)) (committed_frames fs) (mt_new (cat_dimension cat) F32) = Inr (cs_memtable c)"
    and nt: "ww_next_txn (cs_wal c) \<noteq> 0" unfolding coll_inv_def by auto
  have fok: "frame_ok (standalone ?q p)" by (rule frame_ok_op) (use assms(5) in \<open>simp add: standalone_def\<close>)
  from ww_append_holds [OF assms(2) h(1) fok] obtain w' s' where
    a: "ww_append st p (cs_wal c, s) = (Inr ?q, (w', s'))" "good s'" "dirs s' = dirs s"
      "let fs' = fs @ [standalone ?q p]; d' = (if ww_durability (cs_wal c) = Full then log_bytes fs' else dd) in
         wal_holds files stands writable w' s' fs' d' \<and> files s' = (files s)(ww_path (cs_wal c) \<mapsto> (log_bytes fs', d'))"
      "ww_path w' = ww_path (cs_wal c)" "ww_next_txn w' = ww_next_txn (cs_wal c)" "ww_durability w' = ww_durability (cs_wal c)" by metis
  note st1 = settled_standalone [OF assms(4), of ?q]
  have r: "try_fold (replay_frame (fo_fpu (en_floats E)) (cat_id_kind cat)) (committed_frames [standalone ?q p]) (cs_memtable c) = Inr m'"
    using st1 assms(6) by simp
  have "coll_inv files dirs stands writable E cat (c\<lparr>cs_wal := w', cs_memtable := m'\<rparr>) s'"
    using a(4-7) nt assms(7-9) unfolding Let_def
    by (intro coll_inv_extend [OF assms(3) h(1,2) a(3) h(4) conjunct1 [OF st1] r]) auto
  moreover have "log_len (files s') (c\<lparr>cs_wal := w', cs_memtable := m'\<rparr>) \<le> log_len (files s) c + length [standalone ?q p] * 2 ^ 27"
    using h(1) a(4,5) fok by (intro log_len_grows [where fs = fs and d = dd]) (auto simp: wal_holds_def Let_def)
  moreover have "in_wal (ww_append st p) (c, d, s) = (Inr ?q, (c\<lparr>cs_wal := w'\<rparr>, d, s'))" using a(1) by (simp add: in_wal_def)
  ultimately show ?thesis using a(2-4) by (intro that [of ?q w' s']) (auto simp: Let_def)
qed

text \<open>The steps a write makes before it looks at the flush threshold.\<close>

lemma apply_put_ok:
  assumes "en_storage E = st" and "good s" and "coll_inv files dirs stands writable E cat c s" and "input_wf doc"
    and "coll_validate cat doc = Inr ()" and "unat (cat_dimension cat) \<le> 65536" and "length (mt_rows (cs_memtable c)) < 2 ^ 32"
  obtains c' s' where "apply_put E doc (c, d, s) = (Inr (), (c', d, s'))" and "good s'" and "dirs s' = dirs s"
    and "coll_inv files dirs stands writable E cat c' s'" and "coll_abs c' = (coll_abs c)(di_id doc \<mapsto> stored_of (fo_fpu (en_floats E)) doc)"
    and "\<forall>r. r \<noteq> ww_path (cs_wal c) \<longrightarrow> files s' r = files s r" and "cs_next_segment_id c' = cs_next_segment_id c"
    and "cs_segments c' = cs_segments c" and "length (mt_rows (cs_memtable c')) \<le> Suc (length (mt_rows (cs_memtable c)))"
    and "log_len (files s') c' \<le> log_len (files s) c + 2 ^ 27"
proof -
  let ?F = "fo_fpu (en_floats E)" and ?m = "cs_memtable c"
  from assms(3) have inv: "mt_inv ?m" "mt_dimension ?m = cat_dimension cat" and st: "list_all (storable cat) (live_docs ?m)"
    by (auto simp: coll_inv_def coll_wf_def)
  note v = coll_validate_parts [OF assms(5)] and fits = coll_validate_fits [OF assms(5)]
  from assms(4) have w: "id_wf (di_id doc)" "view_wf (di_vector doc)" "\<forall>m. di_metadata doc = Some m \<longrightarrow> val_wf (Map m)"
    by (auto simp: input_wf_def)
  obtain md where md: "(case di_metadata doc of Some m \<Rightarrow> meta_encode m | None \<Rightarrow> Inr []) = Inr md"
    using v(3) meta_encode_total by (cases "di_metadata doc") auto
  have vd: "view_dimension (di_vector doc) = mt_dimension ?m" using v(2) inv(2) by simp
  from put_bytes_view(2) [OF w(2) vd] obtain r m' where
    put: "mt_put_view ?F (di_id doc) (di_vector doc) (di_metadata doc) (di_content doc) ?m = Inr (r, m')" by blast
  note pc = mt_put_correct [OF inv(1) put w(2) assms(7)]
  let ?p = "Put (id_to_bytes (di_id doc)) (view_bytes (di_vector doc)) md (di_content doc)"
  have rp: "replay_frame ?F (cat_id_kind cat) (standalone q ?p) ?m = Inr m'" for q
    using replay_put [OF assms(4) fits inv(2) [symmetric] md, of "standalone q ?p" ?F] put by (simp add: standalone_def)
  have new: "storable cat (di_id doc, stored_of ?F doc)"
    using id_bytes_roundtrip [OF w(1) v(1)] w(3)
    by (auto simp: storable_def mr_wf_def stored_record_def stored_of_def split: option.splits)
  have "list_all (storable cat) (live_docs m')"
    using st new unfolding storable_abs [OF inv(1)] storable_abs [OF pc(1)] pc(2) stored_of_def by simp
  from log_one [OF assms(1-3) _ put_op_small [OF assms(4) fits assms(6) md] rp pc(1) _ this] mt_put_shape(4) [OF put] inv(2)
  obtain q w' s' where l: "in_wal (ww_append st ?p) (c, d, s) = (Inr q, (c\<lparr>cs_wal := w'\<rparr>, d, s'))" "good s'" "dirs s' = dirs s"
    "coll_inv files dirs stands writable E cat (c\<lparr>cs_wal := w', cs_memtable := m'\<rparr>) s'"
    "\<forall>r. r \<noteq> ww_path (cs_wal c) \<longrightarrow> files s' r = files s r"
    "log_len (files s') (c\<lparr>cs_wal := w', cs_memtable := m'\<rparr>) \<le> log_len (files s) c + 2 ^ 27" by (metis is_commit_def wal_op.simps(10))
  have "apply_put E doc (c, d, s) = (Inr (), (c\<lparr>cs_wal := w', cs_memtable := m'\<rparr>, d, s'))"
    using l(1) put assms(1) by (simp add: apply_put_def md io_update_def)
  moreover have "coll_abs (c\<lparr>cs_wal := w', cs_memtable := m'\<rparr>) = (coll_abs c)(di_id doc \<mapsto> stored_of ?F doc)"
    using pc(2) by (simp add: fun_eq_iff coll_abs_def stored_of_def split: option.split)
  ultimately show ?thesis
    using l(2-6) mt_put_shape(5) [OF put] by (intro that [of "c\<lparr>cs_wal := w', cs_memtable := m'\<rparr>" s']) simp_all
qed

lemma log_delete_ok:
  assumes "en_storage E = st" and "good s" and "coll_inv files dirs stands writable E cat c s"
    and "id_wf k" and "id_validate k (cat_id_kind cat) = Inr ()"
  obtains q c1 s' where "in_wal (ww_append st (Delete (id_to_bytes k))) (c, d, s) = (Inr q, (c1, d, s'))" and "good s'"
    and "dirs s' = dirs s" and "cs_memtable c1 = cs_memtable c"
    and "coll_inv files dirs stands writable E cat (c1\<lparr>cs_memtable := fst (mt_delete k (cs_memtable c))\<rparr>) s'"
    and "coll_abs (c1\<lparr>cs_memtable := fst (mt_delete k (cs_memtable c))\<rparr>) = (coll_abs c)(k := None)"
    and "\<forall>r. r \<noteq> ww_path (cs_wal c) \<longrightarrow> files s' r = files s r" and "cs_next_segment_id c1 = cs_next_segment_id c"
    and "cs_segments c1 = cs_segments c"
    and "log_len (files s') (c1\<lparr>cs_memtable := fst (mt_delete k (cs_memtable c))\<rparr>) \<le> log_len (files s) c + 2 ^ 27"
proof -
  let ?m = "cs_memtable c" and ?m' = "fst (mt_delete k (cs_memtable c))"
  from assms(3) have inv: "mt_inv ?m" "mt_dimension ?m = cat_dimension cat" and st: "list_all (storable cat) (live_docs ?m)"
    by (auto simp: coll_inv_def coll_wf_def)
  note dc = mt_delete_correct [OF inv(1), of k]
  have rp: "replay_frame (fo_fpu (en_floats E)) (cat_id_kind cat) (standalone q (Delete (id_to_bytes k))) ?m = Inr ?m'" for q
    using id_bytes_roundtrip [OF assms(4,5)] by (simp add: replay_frame_def standalone_def)
  have dim: "mt_dimension ?m' = cat_dimension cat"
    using inv(2) by (auto simp: mt_delete_def Let_def split: option.splits mem_slot.splits)
  have small: "length (op_bytes (Delete (id_to_bytes k))) \<le> 2 ^ 24" using id_length [OF assms(5)] by (intro op_bytes_small) simp
  have "list_all (storable cat) (live_docs ?m')"
    using st unfolding storable_abs [OF inv(1)] storable_abs [OF dc(1)] dc(2) by simp
  from log_one [OF assms(1-3) _ small rp dc(1) dim this]
  obtain q w' s' where l: "in_wal (ww_append st (Delete (id_to_bytes k))) (c, d, s) = (Inr q, (c\<lparr>cs_wal := w'\<rparr>, d, s'))" "good s'" "dirs s' = dirs s"
    "coll_inv files dirs stands writable E cat (c\<lparr>cs_wal := w', cs_memtable := ?m'\<rparr>) s'"
    "\<forall>r. r \<noteq> ww_path (cs_wal c) \<longrightarrow> files s' r = files s r"
    "log_len (files s') (c\<lparr>cs_wal := w', cs_memtable := ?m'\<rparr>) \<le> log_len (files s) c + 2 ^ 27" by (metis is_commit_def wal_op.simps(11))
  have "coll_abs (c\<lparr>cs_wal := w', cs_memtable := ?m'\<rparr>) = (coll_abs c)(k := None)"
    using dc(2) by (simp add: fun_eq_iff coll_abs_def split: option.split)
  with l show ?thesis by (intro that [of q "c\<lparr>cs_wal := w'\<rparr>" s']) simp_all
qed

end

subsection \<open>Batches\<close>

text \<open>The operation a batch entry is logged as, and its effect on the map.\<close>

definition logged :: "batch_op \<Rightarrow> wal_op \<Rightarrow> bool" where
  "logged b p \<longleftrightarrow> (case b of
     BatchUpsert k vector md content \<Rightarrow>
       (\<exists>bs. (case md of Some m \<Rightarrow> meta_encode m | None \<Rightarrow> Inr []) = Inr bs \<and> p = Put (id_to_bytes k) vector bs content)
   | BatchDelete k \<Rightarrow> p = Delete (id_to_bytes k))"

primrec op_effect :: "fpu \<Rightarrow> u32 \<Rightarrow> batch_op \<Rightarrow> (doc_id \<Rightarrow> stored option) \<Rightarrow> doc_id \<Rightarrow> stored option" where
  "op_effect F dimension (BatchUpsert k vector md content) a
     = a(k \<mapsto> (vector, view_inv_norm F (VRaw F32 vector dimension), md, content))"
| "op_effect F dimension (BatchDelete k) a = a(k := None)"

text \<open>What the types of a batch operation guarantee, and that its content has room.\<close>

primrec op_wf :: "batch_op \<Rightarrow> bool" where
  "op_wf (BatchUpsert k vector md content) \<longleftrightarrow> id_wf k \<and> (\<forall>m. md = Some m \<longrightarrow> val_wf (Map m))
     \<and> (\<forall>c. content = Some c \<longrightarrow> length c \<le> CONTENT_ROOM)"
| "op_wf (BatchDelete k) \<longleftrightarrow> id_wf k"

text \<open>The counts of a batch: documents that were there before the batch count as updated or deleted.\<close>

definition batch_counts :: "(doc_id \<Rightarrow> stored option) \<Rightarrow> batch_op list \<Rightarrow> batch_report" where
  "batch_counts a bs =
     (let ups = filter (\<lambda>b. \<exists>k v md c. b = BatchUpsert k v md c) bs; dels = filter (\<lambda>b. \<exists>k. b = BatchDelete k) bs in
      \<lparr>br_inserted = length (filter (\<lambda>b. a (bop_id b) = None) ups), br_updated = length (filter (\<lambda>b. a (bop_id b) \<noteq> None) ups),
       br_deleted = length (filter (\<lambda>b. a (bop_id b) \<noteq> None) dels), br_missing_deletes = length (filter (\<lambda>b. a (bop_id b) = None) dels)\<rparr>)"

lemma logged_not_commit: "logged b p \<Longrightarrow> \<not> is_commit p"
  by (auto simp: logged_def is_commit_def split: batch_op.splits)

text \<open>A valid upsert in a batch is a document that can be stored, if not one an insert would accept.\<close>

definition batch_doc :: "catalog \<Rightarrow> doc_id \<Rightarrow> bytes \<Rightarrow> metadata option \<Rightarrow> bytes option \<Rightarrow> document_input" where
  "batch_doc cat k vector md content =
     \<lparr>di_id = k, di_vector = VRaw F32 vector (cat_dimension cat), di_metadata = md, di_content = content\<rparr>"

lemma valid_upsert:
  assumes "validate_op cat (BatchUpsert k vector md content) = Inr ()" and "op_wf (BatchUpsert k vector md content)"
  shows "input_wf (batch_doc cat k vector md content)" and "input_fits cat (batch_doc cat k vector md content)"
    and "view_raw F32 vector (cat_dimension cat) = Inr (VRaw F32 vector (cat_dimension cat))"
proof -
  from assms(1) obtain view where idv: "id_validate k (cat_id_kind cat) = Inr ()" and vr: "view_raw F32 vector (cat_dimension cat) = Inr view"
    and vv: "view_validate view (cat_name cat) (cat_dimension cat) = Inr ()"
    and mv: "(case md of Some m \<Rightarrow> meta_validate m | None \<Rightarrow> Inr ()) = Inr ()"
    by (auto simp: validate_op_def elim!: rbind_InrE)
  from view_raw_wf [OF vr] have view: "view_wf view" "view = VRaw F32 vector (cat_dimension cat)" by auto
  then show "view_raw F32 vector (cat_dimension cat) = Inr (VRaw F32 vector (cat_dimension cat))" using vr by simp
  show "input_wf (batch_doc cat k vector md content)" using assms(2) view by (simp add: input_wf_def batch_doc_def)
  show "input_fits cat (batch_doc cat k vector md content)"
    using idv mv assms(2) by (auto simp: input_fits_def batch_doc_def)
qed

lemma log_ops:
  assumes "try_fold (log_op c) ops (rep, ps) = Inr (rep', ps')"
  shows "\<exists>qs. ps' = ps @ qs \<and> list_all2 logged ops qs"
  using assms
proof (induction ops arbitrary: rep ps)
  case (Cons b ops)
  then obtain rep1 ps1 where l: "log_op c b (rep, ps) = Inr (rep1, ps1)" and r: "try_fold (log_op c) ops (rep1, ps1) = Inr (rep', ps')"
    by (auto elim!: rbind_InrE)
  from l obtain p where p: "ps1 = ps @ [p]" "logged b p"
    by (cases b) (auto simp: log_op_def Let_def logged_def elim!: rbind_InrE)
  from Cons.IH [OF r] p show ?case by auto
qed simp

lemma log_ops_total:
  assumes "\<forall>b \<in> set ops. validate_op cat b = Inr ()"
  shows "\<exists>rep' ps'. try_fold (log_op c) ops (rep, ps) = Inr (rep', ps')"
  using assms
proof (induction ops arbitrary: rep ps)
  case (Cons b ops)
  have "\<exists>rep1 ps1. log_op c b (rep, ps) = Inr (rep1, ps1)"
  proof (cases b)
    case (BatchUpsert k v md content)
    with Cons.prems have "(case md of Some m \<Rightarrow> meta_validate m | None \<Rightarrow> Inr ()) = Inr ()"
      by (auto simp: validate_op_def elim!: rbind_InrE)
    then obtain bs where "(case md of Some m \<Rightarrow> meta_encode m | None \<Rightarrow> Inr []) = Inr bs"
      using meta_encode_total by (cases md) auto
    with BatchUpsert show ?thesis by (simp add: log_op_def Let_def)
  qed (simp add: log_op_def Let_def)
  then obtain rep1 ps1 where "log_op c b (rep, ps) = Inr (rep1, ps1)" by blast
  with Cons.IH [of rep1 ps1] Cons.prems show ?case by simp
qed simp

lemma log_ops_counts:
  assumes "try_fold (log_op c) ops (rep, ps) = Inr (rep', ps')" and "\<And>k. locate_doc c k = None \<longleftrightarrow> a k = None"
  shows "br_inserted rep' = br_inserted rep + br_inserted (batch_counts a ops)"
    and "br_updated rep' = br_updated rep + br_updated (batch_counts a ops)"
    and "br_deleted rep' = br_deleted rep + br_deleted (batch_counts a ops)"
    and "br_missing_deletes rep' = br_missing_deletes rep + br_missing_deletes (batch_counts a ops)"
proof -
  have "br_inserted rep' = br_inserted rep + br_inserted (batch_counts a ops)
      \<and> br_updated rep' = br_updated rep + br_updated (batch_counts a ops)
      \<and> br_deleted rep' = br_deleted rep + br_deleted (batch_counts a ops)
      \<and> br_missing_deletes rep' = br_missing_deletes rep + br_missing_deletes (batch_counts a ops)"
    using assms(1)
  proof (induction ops arbitrary: rep ps)
    case (Cons b ops)
    then obtain rep1 ps1 where l: "log_op c b (rep, ps) = Inr (rep1, ps1)" and r: "try_fold (log_op c) ops (rep1, ps1) = Inr (rep', ps')"
      by (auto elim!: rbind_InrE)
    from Cons.IH [OF r] l assms(2) [of "bop_id b"] show ?case
      by (cases b) (auto simp: log_op_def Let_def batch_counts_def elim!: rbind_InrE)
  qed (simp add: batch_counts_def)
  then show "br_inserted rep' = br_inserted rep + br_inserted (batch_counts a ops)"
    "br_updated rep' = br_updated rep + br_updated (batch_counts a ops)"
    "br_deleted rep' = br_deleted rep + br_deleted (batch_counts a ops)"
    "br_missing_deletes rep' = br_missing_deletes rep + br_missing_deletes (batch_counts a ops)" by simp_all
qed

lemma batch_apply:
  assumes "list_all2 logged ops ps" and "\<forall>b \<in> set ops. op_wf b \<and> validate_op cat b = Inr ()" and "mt_inv m"
    and "mt_dimension m = cat_dimension cat" and "list_all (storable cat) (live_docs m)" and "length (mt_rows m) + length ops \<le> 2 ^ 32"
  shows "\<exists>m'. io_fold (apply_op E) ops () (c\<lparr>cs_memtable := m\<rparr>, d, s) = (Inr (), (c\<lparr>cs_memtable := m'\<rparr>, d, s))
     \<and> (\<forall>fs. map wf_op fs = ps \<longrightarrow> try_fold (replay_frame (fo_fpu (en_floats E)) (cat_id_kind cat)) fs m = Inr m')
     \<and> mt_inv m' \<and> mt_dimension m' = cat_dimension cat \<and> list_all (storable cat) (live_docs m')
     \<and> length (mt_rows m') \<le> length (mt_rows m) + length ops
     \<and> coll_abs (c\<lparr>cs_memtable := m'\<rparr>) = fold (op_effect (fo_fpu (en_floats E)) (cat_dimension cat)) ops (coll_abs (c\<lparr>cs_memtable := m\<rparr>))"
  using assms
proof (induction arbitrary: m rule: list_all2_induct)
  case Nil
  then show ?case by (intro exI [of _ m]) simp
next
  case (Cons b ops p ps)
  let ?F = "fo_fpu (en_floats E)"
  have bw: "op_wf b" "validate_op cat b = Inr ()" using Cons.prems(1) by simp_all
  obtain m1 where m1: "apply_op E b () (c\<lparr>cs_memtable := m\<rparr>, d, s) = (Inr (), (c\<lparr>cs_memtable := m1\<rparr>, d, s))"
    "\<forall>f. wf_op f = p \<longrightarrow> replay_frame ?F (cat_id_kind cat) f m = Inr m1" "mt_inv m1" "mt_dimension m1 = cat_dimension cat"
    "list_all (storable cat) (live_docs m1)" "length (mt_rows m1) \<le> Suc (length (mt_rows m))"
    "coll_abs (c\<lparr>cs_memtable := m1\<rparr>) = op_effect ?F (cat_dimension cat) b (coll_abs (c\<lparr>cs_memtable := m\<rparr>))"
  proof (cases b)
    case (BatchUpsert k v md content)
    let ?doc = "batch_doc cat k v md content"
    note vu = valid_upsert [OF bw(2,1) [unfolded BatchUpsert]]
    from Cons.hyps(1) BatchUpsert obtain bs where bs: "(case md of Some m \<Rightarrow> meta_encode m | None \<Rightarrow> Inr []) = Inr bs"
      "p = Put (id_to_bytes k) v bs content" by (auto simp: logged_def)
    have w: "view_wf (VRaw F32 v (cat_dimension cat))" using view_raw_wf [OF vu(3)] by simp
    have vd: "view_dimension (VRaw F32 v (cat_dimension cat)) = mt_dimension m" using Cons.prems(3) by simp
    from put_bytes_view [OF w vd] obtain r m1 where put: "mt_put_view ?F k (VRaw F32 v (cat_dimension cat)) md content m = Inr (r, m1)"
      "mt_put_bytes ?F k v md content m = Inr (r, m1)" by fastforce
    have room: "length (mt_rows m) < 2 ^ 32" using Cons.prems(5) by simp
    note pc = mt_put_correct [OF Cons.prems(2) put(1) w room]
    have rp: "\<forall>f. wf_op f = p \<longrightarrow> replay_frame ?F (cat_id_kind cat) f m = Inr m1"
      using replay_put [OF vu(1,2) Cons.prems(3) [symmetric], of bs _ ?F] bs put(1) by (simp add: batch_doc_def)
    have "storable cat (k, view_bytes (VRaw F32 v (cat_dimension cat)), view_inv_norm ?F (VRaw F32 v (cat_dimension cat)), md, content)"
      using id_bytes_roundtrip [of k "cat_id_kind cat"] bw BatchUpsert
      by (auto simp: storable_def mr_wf_def stored_record_def validate_op_def elim!: rbind_InrE split: option.splits)
    then have sto: "list_all (storable cat) (live_docs m1)"
      using Cons.prems(4) unfolding storable_abs [OF Cons.prems(2)] storable_abs [OF pc(1)] pc(2) by simp
    have "apply_op E b () (c\<lparr>cs_memtable := m\<rparr>, d, s) = (Inr (), (c\<lparr>cs_memtable := m1\<rparr>, d, s))"
      using put(2) by (simp add: apply_op_def BatchUpsert io_update_def)
    moreover have "coll_abs (c\<lparr>cs_memtable := m1\<rparr>) = op_effect ?F (cat_dimension cat) b (coll_abs (c\<lparr>cs_memtable := m\<rparr>))"
      using pc(2) by (simp add: BatchUpsert fun_eq_iff coll_abs_def split: option.split)
    ultimately show ?thesis using that rp pc(1) sto mt_put_shape(4,5) [OF put(1)] Cons.prems(3) by simp
  next
    case (BatchDelete k)
    let ?m1 = "fst (mt_delete k m)"
    from Cons.hyps(1) BatchDelete have p: "p = Delete (id_to_bytes k)" by (simp add: logged_def)
    note dc = mt_delete_correct [OF Cons.prems(2), of k]
    have rp: "\<forall>f. wf_op f = p \<longrightarrow> replay_frame ?F (cat_id_kind cat) f m = Inr ?m1"
      using id_bytes_roundtrip [of k "cat_id_kind cat"] bw by (simp add: replay_frame_def p BatchDelete validate_op_def)
    have sto: "list_all (storable cat) (live_docs ?m1)"
      using Cons.prems(4) unfolding storable_abs [OF Cons.prems(2)] storable_abs [OF dc(1)] dc(2) by simp
    have sh: "mt_dimension ?m1 = mt_dimension m" "mt_rows ?m1 = mt_rows m"
      by (auto simp: mt_delete_def Let_def split: option.splits mem_slot.splits)
    have "apply_op E b () (c\<lparr>cs_memtable := m\<rparr>, d, s) = (Inr (), (c\<lparr>cs_memtable := ?m1\<rparr>, d, s))"
      by (simp add: apply_op_def BatchDelete io_update_def)
    moreover have "coll_abs (c\<lparr>cs_memtable := ?m1\<rparr>) = op_effect ?F (cat_dimension cat) b (coll_abs (c\<lparr>cs_memtable := m\<rparr>))"
      using dc(2) by (simp add: BatchDelete fun_eq_iff coll_abs_def split: option.split)
    ultimately show ?thesis using that rp dc(1) sto sh Cons.prems(3) by simp
  qed
  have "length (mt_rows m1) + length ops \<le> 2 ^ 32" using m1(6) Cons.prems(5) by simp
  from Cons.IH [OF _ m1(3-5) this] Cons.prems(1) obtain m' where
    m': "io_fold (apply_op E) ops () (c\<lparr>cs_memtable := m1\<rparr>, d, s) = (Inr (), (c\<lparr>cs_memtable := m'\<rparr>, d, s))"
      "\<forall>fs. map wf_op fs = ps \<longrightarrow> try_fold (replay_frame ?F (cat_id_kind cat)) fs m1 = Inr m'"
      "mt_inv m'" "mt_dimension m' = cat_dimension cat" "list_all (storable cat) (live_docs m')"
      "length (mt_rows m') \<le> length (mt_rows m1) + length ops"
      "coll_abs (c\<lparr>cs_memtable := m'\<rparr>) = fold (op_effect ?F (cat_dimension cat)) ops (coll_abs (c\<lparr>cs_memtable := m1\<rparr>))" by auto
  have "try_fold (replay_frame ?F (cat_id_kind cat)) fs m = Inr m'" if fs: "map wf_op fs = p # ps" for fs
  proof -
    from fs obtain f fs' where f: "fs = f # fs'" "wf_op f = p" "map wf_op fs' = ps" by auto
    with m1(2) have "replay_frame ?F (cat_id_kind cat) f m = Inr m1" by blast
    with m'(2) f show ?thesis by simp
  qed
  then show ?case using m1(1,6,7) m' by (intro exI [of _ m']) simp
qed

lemma logged_small:
  assumes "logged b p" and "op_wf b" and "validate_op cat b = Inr ()" and "unat (cat_dimension cat) \<le> 65536"
  shows "length (op_bytes p) \<le> 2 ^ 24"
proof (cases b)
  case (BatchUpsert k v md content)
  with assms(1) obtain bs where bs: "(case md of Some m \<Rightarrow> meta_encode m | None \<Rightarrow> Inr []) = Inr bs"
    "p = Put (id_to_bytes k) v bs content" by (auto simp: logged_def)
  note vu = valid_upsert [OF assms(3,2) [unfolded BatchUpsert]]
  from put_op_small [OF vu(1,2) assms(4), of bs] bs show ?thesis by (simp add: batch_doc_def del: op_bytes.simps)
next
  case (BatchDelete k)
  with assms have "p = Delete (id_to_bytes k)" "length (id_to_bytes k) \<le> 512"
    using id_length by (auto simp: logged_def validate_op_def)
  then show ?thesis using op_bytes_small(1) [of "id_to_bytes k"] by simp
qed

lemma validate_ops_iff: "validate_ops cat ops = Inr () \<longleftrightarrow> (\<forall>b \<in> set ops. validate_op cat b = Inr ())"
proof -
  have "try_fold (\<lambda>(i, p) _. map_err (\<lambda>e. Transaction (Aborted i n e)) (validate_op cat p)) (List.enumerate k ops) () = Inr ()
      \<longleftrightarrow> (\<forall>b \<in> set ops. validate_op cat b = Inr ())" for k n
    by (induction ops arbitrary: k) (auto simp: map_err_def rbind_def split: sum.splits)
  then show ?thesis unfolding validate_ops_def by blast
qed

lemma check_writable_ok: "\<not> ds_closed d \<Longrightarrow> \<not> dcf_read_only (en_config E) \<Longrightarrow> io_snd (check_writable E what) (c, d, s) = (Inr (), (c, d, s))"
  by (simp add: check_writable_def check_open_def io_snd_def)

context storage_contract
begin

lemma coll_inv_wf: "coll_inv files dirs stands writable E cat c s \<Longrightarrow> coll_wf cat c"
  by (simp add: coll_inv_def)

lemma coll_inv_hint: "coll_inv files dirs stands writable E cat (c\<lparr>cs_next_txn_hint := x\<rparr>) s = coll_inv files dirs stands writable E cat c s"
  by (simp add: coll_inv_def coll_wf_def disk_inv_def)

lemma coll_abs_hint: "coll_abs (c\<lparr>cs_next_txn_hint := x\<rparr>) = coll_abs c"
  by (simp add: fun_eq_iff coll_abs_def split: option.split)

lemma batch_steps:
  assumes "en_storage E = st" and "good s" and "coll_inv files dirs stands writable E cat c s" and "\<not> ds_closed d"
    and "\<not> dcf_read_only (en_config E)" and "ops \<noteq> []" and "wb_validate ops = Inr ()" and "validate_ops cat ops = Inr ()"
    and "\<forall>b \<in> set ops. op_wf b" and "unat (cat_dimension cat) \<le> 65536"
    and "length (mt_rows (cs_memtable c)) + length ops \<le> 2 ^ 32" and "ww_next_txn (cs_wal c) \<noteq> - 1"
  obtains c' s' where "good s'" and "dirs s' = dirs s" and "coll_inv files dirs stands writable E cat c' s'"
    and "coll_abs c' = fold (op_effect (fo_fpu (en_floats E)) (cat_dimension cat)) ops (coll_abs c)"
    and "coll_write_batch E cat now_ms ops (c, d, s) = io_bind (maybe_flush E cat now_ms) (\<lambda>_. io_ok (batch_counts (coll_abs c) ops)) (c', d, s')"
    and "\<forall>r. r \<noteq> ww_path (cs_wal c) \<longrightarrow> files s' r = files s r" and "cs_next_segment_id c' = cs_next_segment_id c"
    and "cs_segments c' = cs_segments c" and "length (mt_rows (cs_memtable c')) \<le> length (mt_rows (cs_memtable c)) + length ops"
    and "log_len (files s') c' \<le> log_len (files s) c + Suc (length ops) * 2 ^ 27"
proof -
  let ?F = "fo_fpu (en_floats E)" and ?m = "cs_memtable c" and ?q = "ww_next_sequence (cs_wal c)" and ?t = "ww_next_txn (cs_wal c)"
  from assms(3) have wf: "coll_wf cat c" and inv: "mt_inv ?m" "mt_dimension ?m = cat_dimension cat"
    and sto: "list_all (storable cat) (live_docs ?m)" and nt: "?t \<noteq> 0" by (auto simp: coll_inv_def coll_wf_def)
  have val: "\<forall>b \<in> set ops. op_wf b \<and> validate_op cat b = Inr ()" using assms(8,9) by (simp add: validate_ops_iff)
  from log_ops_total [of ops cat c br_default "[]"] val obtain rep ps where
    lg: "try_fold (log_op c) ops (br_default, []) = Inr (rep, ps)" by blast
  from log_ops [OF lg] have lo: "list_all2 logged ops ps" by simp
  have rep: "rep = batch_counts (coll_abs c) ops"
    using log_ops_counts [OF lg locate_doc_abs [OF wf]] by (cases rep) (simp add: batch_counts_def br_default_def Let_def)
  from assms(3) obtain fs dd where h: "wal_holds files stands writable (cs_wal c) s fs dd" "settled fs"
    "dcf_durability (en_config E) = Full \<longrightarrow> dd = log_bytes fs"
    "try_fold (replay_frame ?F (cat_id_kind cat)) (committed_frames fs) (mt_new (cat_dimension cat) F32) = Inr ?m"
    unfolding coll_inv_def by auto
  have small: "\<forall>p \<in> set ps. length (op_bytes p) \<le> 2 ^ 24 \<and> \<not> is_commit p"
    using lo val logged_small [OF _ _ _ assms(10)] logged_not_commit by (fastforce simp: list_all2_conv_all_nth in_set_conv_nth)
  have "frame_ok f" if "f \<in> set (whole_group ?q ?t ps)" for f
  proof (rule frame_ok_op)
    show "length (op_bytes (wf_op f)) \<le> 2 ^ 24"
      using that small group_frames_ids [of f ?q ?t ps] op_bytes_small(2) by (auto simp: whole_group_def in_txn_def simp del: op_bytes.simps)
  qed
  then have fok: "\<forall>f \<in> set (whole_group ?q ?t ps). frame_ok f" by blast
  from ww_append_group_holds [OF assms(2) h(1) fok] obtain w' s' where
    a: "ww_append_group st ps (cs_wal c, s) = (Inr ?t, (w', s'))" "good s'" "dirs s' = dirs s"
      "let fs' = fs @ whole_group ?q ?t ps; d' = (if ww_durability (cs_wal c) \<noteq> Relaxed then log_bytes fs' else dd) in
         wal_holds files stands writable w' s' fs' d' \<and> files s' = (files s)(ww_path (cs_wal c) \<mapsto> (log_bytes fs', d'))"
      "ww_path w' = ww_path (cs_wal c)" "ww_next_txn w' = ?t + 1" "ww_durability w' = ww_durability (cs_wal c)" by metis
  note sg = settled_group [OF nt, of ps ?q]
  let ?c = "c\<lparr>cs_wal := w', cs_next_txn_hint := sat_add ?t 1\<rparr>"
  have cm: "?c\<lparr>cs_memtable := ?m\<rparr> = ?c" by simp
  from batch_apply [OF lo val inv sto assms(11), of E ?c d s', unfolded cm] obtain m' where
    m': "io_fold (apply_op E) ops () (?c, d, s') = (Inr (), (?c\<lparr>cs_memtable := m'\<rparr>, d, s'))"
      "\<forall>fs. map wf_op fs = ps \<longrightarrow> try_fold (replay_frame ?F (cat_id_kind cat)) fs ?m = Inr m'"
      "mt_inv m'" "mt_dimension m' = cat_dimension cat" "list_all (storable cat) (live_docs m')"
      "length (mt_rows m') \<le> length (mt_rows ?m) + length ops"
      "coll_abs (?c\<lparr>cs_memtable := m'\<rparr>) = fold (op_effect ?F (cat_dimension cat)) ops (coll_abs ?c)" by blast
  have rp: "try_fold (replay_frame ?F (cat_id_kind cat)) (committed_frames (whole_group ?q ?t ps)) ?m = Inr m'"
    using m'(2) group_frames_ops sg(2) small by simp
  have "?t + 1 \<noteq> 0" using assms(12) by (simp add: eq_neg_iff_add_eq_0)
  then have ci: "coll_inv files dirs stands writable E cat (c\<lparr>cs_wal := w', cs_memtable := m'\<rparr>) s'"
    using a(4-7) sg(1) small m'(3-5) unfolding Let_def
    by (intro coll_inv_extend [OF assms(3) h(1,2) a(3) h(4) sg(1) rp]) auto
  let ?c' = "?c\<lparr>cs_memtable := m'\<rparr>"
  have eq: "?c' = (c\<lparr>cs_wal := w', cs_memtable := m'\<rparr>)\<lparr>cs_next_txn_hint := sat_add ?t 1\<rparr>" by simp
  have "coll_abs ?c = coll_abs c" by (simp add: fun_eq_iff coll_abs_def split: option.split)
  moreover have "length (whole_group ?q ?t ps) = Suc (length ops)"
    using list_all2_lengthD [OF lo] arg_cong [OF group_frames_ops [of ?q ?t ps], of length] by (simp add: whole_group_def)
  then have "log_len (files s') ?c' \<le> log_len (files s) c + Suc (length ops) * 2 ^ 27"
    using log_len_grows [of files s c fs dd ?c' s' "whole_group ?q ?t ps"] h(1) a(4,5) fok
    by (auto simp: wal_holds_def Let_def split: if_splits)
  moreover have "coll_write_batch E cat now_ms ops (c, d, s) = io_bind (maybe_flush E cat now_ms) (\<lambda>_. io_ok (batch_counts (coll_abs c) ops)) (?c', d, s')"
  proof -
    have "in_wal (ww_append_group st ps) (c, d, s) = (Inr ?t, (c\<lparr>cs_wal := w'\<rparr>, d, s'))" using a(1) by (simp add: in_wal_def)
    then show ?thesis using check_writable_ok [OF assms(4,5), of "''write a batch''" c s] assms(1,6-8) lg m'(1) rep
      by (simp add: coll_write_batch_def)
  qed
  ultimately show ?thesis
    using a(2-4) ci m'(6,7) by (intro that [of s' ?c']) (auto simp: Let_def eq coll_inv_hint simp del: coll_state.update_convs)
qed

subsection \<open>Flushing when the threshold is reached\<close>

lemma clear_new: "mt_inv m \<Longrightarrow> mt_clear m = mt_new (mt_dimension m) F32"
  using dtype_only [of "mt_dtype m" F32] by (cases m) (simp add: mt_clear_def mt_new_def mt_inv_def)

lemma do_flush_inv:
  assumes "en_storage E = st" and "good s" and "coll_inv files dirs stands writable E cat c s" and "\<not> mt_is_empty (cs_memtable c)"
    and "\<And>w. flush_rows cat (cs_memtable c) = Inr w \<Longrightarrow> segment_fits w" and "cs_next_segment_id c \<noteq> - 1"
    and "do_flush E cat now_ms (c, d, s) = (Inr (), (c', d', s'))"
    and "\<And>bs. manifest_encode (mst_current (ds_manifest d')) = Inr bs \<Longrightarrow> length bs < 2 ^ 64"
  shows "good s' \<and> coll_inv files dirs stands writable E cat c' s' \<and> coll_abs c' = coll_abs c \<and> mt_is_empty (cs_memtable c') \<and> (\<forall>q. dirs s q \<longrightarrow> dirs s' q) \<and> log_len (files s') c' = 0
     \<and> (\<exists>entry bs. d' = d\<lparr>ds_manifest := committed_store (ds_manifest d) entry now_ms\<rparr>
          \<and> ce_name entry = cat_name cat \<and> ce_segments entry = map segment_reference (cs_segments c') \<and> ce_index_snapshot entry = None
          \<and> manifest_encode (mst_current (ds_manifest d')) = Inr bs \<and> files s' (slot_path (mst_slot (ds_manifest d'))) = Some (bs, bs))
     \<and> (\<forall>q. (\<forall>i k. segment_file (cat_name cat) i k \<noteq> Inr q) \<longrightarrow> q \<noteq> ww_path (cs_wal c) \<longrightarrow> q \<noteq> slot_path (mst_slot (ds_manifest d')) \<longrightarrow>
          files s' q = files s q)"
proof -
  let ?m = "cs_memtable c" and ?name = "cat_name cat"
  from assms(3) have wf: "coll_wf cat c" and dk: "disk_inv (files s) cat c" and inv: "mt_inv ?m" "mt_dimension ?m = cat_dimension cat"
    and sto: "list_all (storable cat) (live_docs ?m)" and wp: "wal_file ?name 1 = Inr (ww_path (cs_wal c))"
    and pcl: "paths_clear (files s) (dirs s) ?name" by (auto simp: coll_inv_def coll_wf_def)
  from assms(1,4,7) obtain r s1 where "flush_memtable st cat (cs_next_segment_id c) ?m s = (Inr r, s1)"
    unfolding do_flush_def Let_def by (auto elim!: io_bind_InrE in_storage_InrE)
  then obtain w where w: "flush_rows cat ?m = Inr w"
    by (auto simp: flush_memtable_def flush_rows_def Let_def elim!: io_bind_InrE)
  from do_flush_ok [OF assms(1,2) wf dk assms(4) w assms(5) [OF w] sto assms(6,7)] assms(8) obtain entry bs p where
    f: "coll_wf cat c'" "coll_abs c' = coll_abs c" "cs_memtable c' = mt_clear ?m" "good s'" "disk_inv (files s') cat c'"
      "\<forall>q. dirs s q \<longrightarrow> dirs s' q" "\<forall>q. dirs s' q \<longrightarrow> dirs s q \<or> segments_path ?name q"
      "d' = d\<lparr>ds_manifest := committed_store (ds_manifest d) entry now_ms\<rparr>"
      "ce_name entry = ?name" "ce_segments entry = map segment_reference (cs_segments c') \<and> ce_index_snapshot entry = None"
      "manifest_encode (mst_current (ds_manifest d')) = Inr bs" "files s' (slot_path (mst_slot (ds_manifest d'))) = Some (bs, bs)"
      "wal_file ?name 1 = Inr p" "ww_path (cs_wal c') = p" "wal_holds files stands writable (cs_wal c') s' [] []"
      "ww_durability (cs_wal c') = dcf_durability (en_config E)" "ww_next_txn (cs_wal c') = 1"
      "\<forall>q. (\<forall>i k. segment_file ?name i k \<noteq> Inr q) \<longrightarrow> q \<noteq> p \<longrightarrow> q \<noteq> slot_path (mst_slot (ds_manifest d')) \<longrightarrow> files s' q = files s q"
    by blast
  have pp: "p = ww_path (cs_wal c)" using f(13) wp by simp
  have "files s' q = None" if q: "segments_path ?name q" for q
  proof -
    have "q \<noteq> p" using wal_not_segments_path [OF f(13)] q by blast
    with f(18) segments_path_components(2,3) [OF q] have "files s' q = files s q" by blast
    with pcl q show ?thesis by (simp add: paths_clear_def)
  qed
  moreover have "\<not> dirs s' q" if "segment_file ?name i k = Inr q" for i k q
    using f(7) segments_path_components(2) that pcl unfolding paths_clear_def by blast
  moreover have "\<not> dirs s' (slot_path t)" for t
    using f(7) segments_path_components(3) pcl unfolding paths_clear_def by blast
  ultimately have "paths_clear (files s') (dirs s') ?name" unfolding paths_clear_def by blast
  moreover have "list_all (storable cat) (live_docs (cs_memtable c'))"
    using storable_abs [OF mt_inv_clear(1) [OF inv(1)]] by (simp add: f(3) mt_inv_clear(2))
  moreover have "cs_memtable c' = mt_new (cat_dimension cat) F32" using clear_new [OF inv(1)] inv(2) f(3) by simp
  ultimately have "coll_inv files dirs stands writable E cat c' s'"
    unfolding coll_inv_def using f by (intro conjI exI [of _ "[]"]) (simp_all add: committed_frames_def)
  moreover have "mt_is_empty (cs_memtable c')" by (simp add: f(3) mt_clear_def mt_is_empty_def)
  moreover have "log_len (files s') c' = 0" using f(15) by (simp add: wal_holds_def log_len_def)
  ultimately show ?thesis using f(2,4,6,8-12,18) pp by blast
qed

lemma maybe_flush_inv:
  assumes "en_storage E = st" and "good s" and "coll_inv files dirs stands writable E cat c s"
    and "\<And>w. flush_rows cat (cs_memtable c) = Inr w \<Longrightarrow> segment_fits w" and "cs_next_segment_id c \<noteq> - 1"
    and "maybe_flush E cat now_ms (c, d, s) = (Inr (), (c', d', s'))"
    and "\<And>bs. manifest_encode (mst_current (ds_manifest d')) = Inr bs \<Longrightarrow> length bs < 2 ^ 64"
  shows "good s' \<and> coll_inv files dirs stands writable E cat c' s' \<and> coll_abs c' = coll_abs c"
proof (cases "mt_byte_size (cs_memtable c) \<ge> dcf_flush_threshold_bytes (en_config E) \<and> \<not> mt_is_empty (cs_memtable c)")
  case True
  with assms(6) have "do_flush E cat now_ms (c, d, s) = (Inr (), (c', d', s'))" by (simp add: maybe_flush_def)
  from do_flush_inv [OF assms(1-3) _ assms(4,5) this assms(7)] True show ?thesis by blast
next
  case False
  with assms(6) have "(c', d', s') = (c, d, s)" by (auto simp: maybe_flush_def do_flush_def Let_def split: if_splits)
  with assms(2,3) show ?thesis by simp
qed

subsection \<open>The operations, up to the flush\<close>

lemma upsert_steps:
  assumes "en_storage E = st" and "good s" and "coll_inv files dirs stands writable E cat c s" and "\<not> ds_closed d"
    and "\<not> dcf_read_only (en_config E)" and "input_wf doc" and "coll_validate cat doc = Inr ()"
    and "unat (cat_dimension cat) \<le> 65536" and "length (mt_rows (cs_memtable c)) < 2 ^ 32"
  obtains c' s' where "good s'" and "dirs s' = dirs s" and "coll_inv files dirs stands writable E cat c' s'"
    and "coll_abs c' = (coll_abs c)(di_id doc \<mapsto> stored_of (fo_fpu (en_floats E)) doc)"
    and "coll_upsert E cat now_ms doc (c, d, s)
      = io_bind (maybe_flush E cat now_ms) (\<lambda>_. io_ok (if coll_abs c (di_id doc) = None then Inserted else Updated)) (c', d, s')"
    and "coll_insert E cat now_ms doc (c, d, s)
      = (if coll_abs c (di_id doc) = None then maybe_flush E cat now_ms (c', d, s')
         else (Inl (Conflict (DuplicateId (cat_name cat) (id_display (di_id doc)))), (c, d, s)))"
    and "cs_next_segment_id c' = cs_next_segment_id c" and "cs_segments c' = cs_segments c"
    and "\<forall>r. r \<noteq> ww_path (cs_wal c) \<longrightarrow> files s' r = files s r" and "length (mt_rows (cs_memtable c')) \<le> Suc (length (mt_rows (cs_memtable c)))"
    and "log_len (files s') c' \<le> log_len (files s) c + 2 ^ 27"
proof -
  obtain c' s' where a: "apply_put E doc (c, d, s) = (Inr (), (c', d, s'))" "good s'" "dirs s' = dirs s"
    "coll_inv files dirs stands writable E cat c' s'" "coll_abs c' = (coll_abs c)(di_id doc \<mapsto> stored_of (fo_fpu (en_floats E)) doc)"
    "\<forall>r. r \<noteq> ww_path (cs_wal c) \<longrightarrow> files s' r = files s r" "cs_next_segment_id c' = cs_next_segment_id c"
    "cs_segments c' = cs_segments c" "length (mt_rows (cs_memtable c')) \<le> Suc (length (mt_rows (cs_memtable c)))"
    "log_len (files s') c' \<le> log_len (files s) c + 2 ^ 27"
    by (rule apply_put_ok [OF assms(1-3,6-9), of d])
  note loc = locate_doc_abs [OF coll_inv_wf [OF assms(3)], of "di_id doc"]
  have "coll_upsert E cat now_ms doc (c, d, s)
      = io_bind (maybe_flush E cat now_ms) (\<lambda>_. io_ok (if coll_abs c (di_id doc) = None then Inserted else Updated)) (c', d, s')"
    using check_writable_ok [OF assms(4,5), of "''upsert''" c s] assms(7) a(1) loc by (simp add: coll_upsert_def del: not_None_eq)
  moreover have "coll_insert E cat now_ms doc (c, d, s) = (if coll_abs c (di_id doc) = None then maybe_flush E cat now_ms (c', d, s')
         else (Inl (Conflict (DuplicateId (cat_name cat) (id_display (di_id doc)))), (c, d, s)))"
    using check_writable_ok [OF assms(4,5), of "''insert''" c s] assms(7) a(1) loc by (simp add: coll_insert_def del: not_None_eq)
  ultimately show ?thesis using a that by blast
qed

lemma delete_steps:
  assumes "en_storage E = st" and "good s" and "coll_inv files dirs stands writable E cat c s" and "\<not> ds_closed d"
    and "\<not> dcf_read_only (en_config E)" and "id_wf k" and "id_validate k (cat_id_kind cat) = Inr ()"
  obtains c' s' where "good s'" and "dirs s' = dirs s" and "coll_inv files dirs stands writable E cat c' s'"
    and "coll_abs c' = (coll_abs c)(k := None)"
    and "coll_delete E cat now_ms k (c, d, s) = io_bind (maybe_flush E cat now_ms) (\<lambda>_. io_ok (coll_abs c k \<noteq> None)) (c', d, s')"
    and "cs_next_segment_id c' = cs_next_segment_id c" and "cs_segments c' = cs_segments c"
    and "\<forall>r. r \<noteq> ww_path (cs_wal c) \<longrightarrow> files s' r = files s r" and "mt_rows (cs_memtable c') = mt_rows (cs_memtable c)"
    and "log_len (files s') c' \<le> log_len (files s) c + 2 ^ 27"
proof -
  let ?m' = "fst (mt_delete k (cs_memtable c))"
  have rows: "mt_rows ?m' = mt_rows (cs_memtable c)" by (auto simp: mt_delete_def Let_def split: option.splits mem_slot.splits)
  obtain q c1 s' where
    a: "in_wal (ww_append st (Delete (id_to_bytes k))) (c, d, s) = (Inr q, (c1, d, s'))" "good s'" "dirs s' = dirs s"
      "cs_memtable c1 = cs_memtable c" "coll_inv files dirs stands writable E cat (c1\<lparr>cs_memtable := ?m'\<rparr>) s'"
      "coll_abs (c1\<lparr>cs_memtable := ?m'\<rparr>) = (coll_abs c)(k := None)" "\<forall>r. r \<noteq> ww_path (cs_wal c) \<longrightarrow> files s' r = files s r"
    "cs_next_segment_id c1 = cs_next_segment_id c" "cs_segments c1 = cs_segments c"
    "log_len (files s') (c1\<lparr>cs_memtable := ?m'\<rparr>) \<le> log_len (files s) c + 2 ^ 27"
    by (rule log_delete_ok [OF assms(1-3,6,7), of d])
  note loc = locate_doc_abs [OF coll_inv_wf [OF assms(3)], of k]
  have "coll_delete E cat now_ms k (c, d, s)
      = io_bind (maybe_flush E cat now_ms) (\<lambda>_. io_ok (coll_abs c k \<noteq> None)) (c1\<lparr>cs_memtable := ?m'\<rparr>, d, s')"
    using check_writable_ok [OF assms(4,5), of "''delete''" c s] assms(1) a(1,4) loc by (simp add: coll_delete_def del: not_None_eq)
  with a rows show ?thesis by (intro that [of s' "c1\<lparr>cs_memtable := ?m'\<rparr>"]) simp_all
qed

end

end
