(* ===== verification/Collection_Recovery.thy ===== *)
theory Collection_Recovery
  imports Collection_Writes
begin

text \<open>
  Opening a collection (\<open>Collection::open\<close> of \<open>core/src/api/collection.rs\<close>): orphaned segment files
  go, the segments of the manifest are opened and the log is replayed, so that the collection stands
  for the same map as the one that was closed, or cut off by a power failure.
\<close>

subsection \<open>Removing orphans\<close>

context storage_contract
begin

lemma remove_files_total:
  assumes "good s" and "\<forall>k. \<exists>p. segment_file name n k = Inr p \<and> \<not> dirs s p"
  shows "\<exists>s'. io_fold (\<lambda>which _. io_bind (io_of (segment_file name n which)) (\<lambda>path.
       io_bind (st_exists st path) (\<lambda>there. if there then st_remove_file st path else io_ok ()))) ks () s = (Inr (), s')"
  using assms
proof (induction ks arbitrary: s)
  case (Cons k ks)
  let ?f = "\<lambda>which _. io_bind (io_of (segment_file name n which)) (\<lambda>path.
       io_bind (st_exists st path) (\<lambda>there. if there then st_remove_file st path else io_ok ()))"
  from Cons.prems(2) obtain p where p: "segment_file name n k = Inr p" "\<not> dirs s p" by blast
  have ex: "st_exists st p s = (Inr (files s p \<noteq> None), s)" using exists_law [OF Cons.prems(1), of p] p(2) by auto
  have "\<exists>s1. (if files s p \<noteq> None then st_remove_file st p else io_ok ()) s = (Inr (), s1) \<and> good s1 \<and> dirs s1 = dirs s"
  proof (cases "files s p")
    case None
    then show ?thesis using Cons.prems(1) by simp
  next
    case (Some f)
    then show ?thesis using remove_law [OF Cons.prems(1) Some] by auto
  qed
  then obtain s1 where s1: "(if files s p \<noteq> None then st_remove_file st p else io_ok ()) s = (Inr (), s1)" "good s1" "dirs s1 = dirs s"
    by (elim exE conjE)
  have fk: "?f k () s = (Inr (), s1)" using s1(1) p ex by (simp add: io_bind_def io_of_def)
  from Cons.IH [OF s1(2)] Cons.prems(2) s1(3) obtain s' where "io_fold ?f ks () s1 = (Inr (), s')" by metis
  then show ?case unfolding io_fold.simps io_bind_Inr [where m = "?f k ()" and s = s, OF fk] by blast
qed simp

lemma remove_segment_total:
  assumes "good s" and "\<forall>k. \<exists>p. segment_file name n k = Inr p \<and> \<not> dirs s p"
  obtains s' where "remove_segment st name n s = (Inr (), s')" and "good s'" and "dirs s' = dirs s"
    and "\<And>q. (\<And>k. segment_file name n k \<noteq> Inr q) \<Longrightarrow> files s' q = files s q"
    and "\<And>q. files s q = None \<Longrightarrow> files s' q = None"
proof -
  from remove_files_total [OF assms] obtain s' where s': "remove_segment st name n s = (Inr (), s')"
    unfolding remove_segment_def by blast
  have "\<forall>k p. segment_file name n k = Inr p \<longrightarrow> \<not> dirs s p" using assms(2) by (metis Inr_inject)
  from remove_segment_ok [OF assms(1) this s'] s' that show ?thesis by auto
qed

lemma remove_orphans:
  assumes "good s" and "\<forall>i k. \<exists>p. segment_file name i k = Inr p \<and> \<not> dirs s p"
  shows "\<exists>s'. io_fold (\<lambda>i _. if i \<in> known then io_ok () else remove_segment st name i) ids () s = (Inr (), s')
     \<and> good s' \<and> dirs s' = dirs s
     \<and> (\<forall>q. (\<forall>i k. segment_file name i k = Inr q \<longrightarrow> i \<in> known) \<longrightarrow> files s' q = files s q)
     \<and> (\<forall>q. files s q = None \<longrightarrow> files s' q = None)"
  using assms
proof (induction ids arbitrary: s)
  case (Cons i ids)
  show ?case
  proof (cases "i \<in> known")
    case True
    with Cons.IH [OF Cons.prems] show ?thesis by simp
  next
    case False
    have "\<forall>k. \<exists>p. segment_file name i k = Inr p \<and> \<not> dirs s p" using Cons.prems(2) by blast
    from remove_segment_total [OF Cons.prems(1) this] obtain s1 where
      s1: "remove_segment st name i s = (Inr (), s1)" "good s1" "dirs s1 = dirs s"
        "\<And>q. (\<And>k. segment_file name i k \<noteq> Inr q) \<Longrightarrow> files s1 q = files s q" "\<And>q. files s q = None \<Longrightarrow> files s1 q = None" by metis
    have "\<forall>i k. \<exists>p. segment_file name i k = Inr p \<and> \<not> dirs s1 p" using Cons.prems(2) unfolding s1(3) .
    from Cons.IH [OF s1(2) this] obtain s' where
      s': "io_fold (\<lambda>i _. if i \<in> known then io_ok () else remove_segment st name i) ids () s1 = (Inr (), s')"
        "good s'" "dirs s' = dirs s1" "\<forall>q. (\<forall>i k. segment_file name i k = Inr q \<longrightarrow> i \<in> known) \<longrightarrow> files s' q = files s1 q"
        "\<forall>q. files s1 q = None \<longrightarrow> files s' q = None" by blast
    have "files s' q = files s q" if q: "\<forall>i k. segment_file name i k = Inr q \<longrightarrow> i \<in> known" for q
    proof -
      have "segment_file name i k \<noteq> Inr q" for k using q False by blast
      then show ?thesis using s'(4) s1(4) q by metis
    qed
    then show ?thesis using s' s1 False by simp
  qed
qed simp

lemma list_segment_ids_ok:
  assumes "good s" and "segments_dir name = Inr d" and "files s d = None"
  shows "\<exists>ids. list_segment_ids st name s = (Inr ids, s)"
proof (cases "dirs s d")
  case True
  from list_law [OF assms(1) True] obtain es where "st_list_dir st d s = (Inr es, s)" by blast
  with True exists_law [OF assms(1), of d] assms(2) show ?thesis by (simp add: list_segment_ids_def)
next
  case False
  with exists_law [OF assms(1), of d] assms(2,3) show ?thesis by (simp add: list_segment_ids_def)
qed

subsection \<open>Opening what is there\<close>

lemma open_mirrored:
  assumes "good s" and "\<forall>seg \<in> set segs. mirrored (files s) cat seg"
  shows "io_fold (\<lambda>seg_ref acc. io_bind (sd_open st cat seg_ref) (\<lambda>seg. io_ok (acc @ [seg]))) (map segment_reference segs) acc s
    = (Inr (acc @ segs), s)"
  using assms
proof (induction segs arbitrary: acc)
  case (Cons seg segs)
  then have "sd_open st cat (segment_reference seg) s = (Inr seg, s)" using mirrored_opens by simp
  with Cons show ?case by simp
qed simp

lemma ww_open_existing:
  assumes "good s" and "files s p = Some (log_bytes fs, d)" and "\<forall>f \<in> set fs. frame_ok f"
  obtains w where "ww_open st p q dur s = (Inr w, s)" and "wal_holds files stands writable w s fs d"
    and "ww_path w = p" and "ww_next_sequence w = q" and "ww_next_txn w = 1" and "ww_durability w = dur"
proof -
  from open_existing [OF assms(1,2), of OpenCreate] obtain h where
    h: "st_open_file st p OpenCreate s = (Inr h, s)" "stands s h p" "writable h" by (auto simp: is_writable_def)
  from len_law [OF assms(1) h(2) assms(2)] h assms(2,3) show ?thesis
    by (intro that [of "\<lparr>ww_file = h, ww_path = p, ww_next_sequence = q, ww_next_txn = 1,
      ww_bytes = u64_of (length (log_bytes fs)), ww_durability = dur, ww_unsynced = False\<rparr>"]) (simp_all add: ww_open_def wal_holds_def)
qed

end

lemma fold_max_words:
  fixes xs :: "u64 list"
  assumes "\<forall>x \<in> set xs. x < y"
  shows "\<forall>x \<in> set xs. x < fold max xs 0 + 1"
proof -
  have ge: "a \<le> fold max xs a \<and> (\<forall>x \<in> set xs. x \<le> fold max xs a)" for a :: u64 and xs
  proof (induction xs arbitrary: a)
    case (Cons b xs)
    from Cons.IH [of "max b a"] show ?case by (simp add: max.bounded_iff)
  qed simp
  have mem: "fold max xs a \<in> insert a (set xs)" for a :: u64 and xs
    by (induction xs arbitrary: a) (auto simp: max_def)
  show ?thesis
  proof
    fix x assume x: "x \<in> set xs"
    let ?m = "fold max xs 0"
    have "?m < y"
    proof (cases "?m \<in> set xs")
      case False
      then have "?m = 0" using mem [where xs = xs and a = 0] by blast
      with assms x show ?thesis by (metis order_le_less_trans word_zero_le)
    qed (use assms in blast)
    have "?m \<noteq> - 1"
    proof
      assume "?m = - 1"
      with \<open>?m < y\<close> have "- 1 < y" by (simp only:)
      then show False using word_order.extremum_strict [of y] by blast
    qed
    then have "?m + 1 \<noteq> 0" by (simp add: eq_neg_iff_add_eq_0)
    then have "?m < ?m + 1" by (simp add: word_less_nat_alt unat_plus_one)
    moreover have "x \<le> ?m" using ge [where a = 0 and xs = xs] x by blast
    ultimately show "x < ?m + 1" by (rule order_le_less_trans [rotated])
  qed
qed

context storage_contract
begin

text \<open>
  Whatever the backend's state, if the files are those of the collection, opening removes orphans, opens the
  same segments and comes to the log.
\<close>

lemma coll_open_prefix:
  assumes "en_storage E = st" and "good t" and "check_collection_name (cat_name cat) = Inr ()"
    and "disk_inv (files t) cat c" and "paths_clear (files t) (dirs t) (cat_name cat)" and "wal_file (cat_name cat) 1 = Inr p"
    and "ce_segments entry = map segment_reference (cs_segments c)"
  obtains t1 where "coll_open E cat entry t
      = io_bind (replay_into (fo_fpu (en_floats E)) st p (cat_id_kind cat) (mt_new (cat_dimension cat) F32)) (\<lambda>(report, memtable).
        io_bind (if rr_truncated_tail report \<and> \<not> dcf_read_only (en_config E) then truncate_tail st p (rr_valid_bytes report) else io_ok ()) (\<lambda>_.
        io_bind (ww_open st p (sat_add (rr_last_sequence report) 1) (dcf_durability (en_config E))) (\<lambda>wal.
        io_ok \<lparr>ci_catalog = cat, ci_state = \<lparr>cs_memtable = memtable, cs_segments = cs_segments c, cs_wal = wal,
          cs_next_segment_id = fold max (map sd_id (cs_segments c)) 0 + 1, cs_next_txn_hint = 1\<rparr>\<rparr>))) t1"
    and "good t1" and "dirs t1 = dirs t" and "\<forall>q. (\<forall>i k. segment_file (cat_name cat) i k \<noteq> Inr q) \<longrightarrow> files t1 q = files t q"
    and "files t1 p = files t p" and "\<forall>q. files t q = None \<longrightarrow> files t1 q = None"
    and "\<forall>seg \<in> set (cs_segments c). mirrored (files t1) cat seg"
proof -
  let ?name = "cat_name cat" and ?segs = "cs_segments c"
  let ?known = "set (map sr_id (ce_segments entry))"
  have known: "map sr_id (ce_segments entry) = map sd_id ?segs" by (simp add: assms(7) segment_reference_def)
  from assms(5) have pc: "\<forall>i k q. segment_file ?name i k = Inr q \<longrightarrow> \<not> dirs t q" unfolding paths_clear_def by blast
  have sf: "\<forall>i k. \<exists>q. segment_file ?name i k = Inr q \<and> \<not> dirs t q" using collection_paths(3) [OF assms(3)] pc by metis
  obtain dd where dd: "segments_dir ?name = Inr dd" using collection_paths(2) [OF assms(3)] by blast
  with assms(5) segments_dir_components have "files t dd = None" by (simp add: paths_clear_def)
  from list_segment_ids_ok [OF assms(2) dd this] obtain ids where ids: "list_segment_ids st ?name t = (Inr ids, t)" by blast
  let ?clean = "if dcf_read_only (en_config E) then io_ok ()
      else io_bind (list_segment_ids st ?name) (\<lambda>ids. io_fold (\<lambda>i _. if i \<in> ?known then io_ok () else remove_segment st ?name i) ids ())"
  have "\<exists>t1. ?clean t = (Inr (), t1) \<and> good t1 \<and> dirs t1 = dirs t
      \<and> (\<forall>q. (\<forall>i k. segment_file ?name i k = Inr q \<longrightarrow> i \<in> ?known) \<longrightarrow> files t1 q = files t q) \<and> (\<forall>q. files t q = None \<longrightarrow> files t1 q = None)"
  proof (cases "dcf_read_only (en_config E)")
    case False
    with remove_orphans [OF assms(2) sf, of ?known ids] ids show ?thesis by simp
  qed (use assms(2) in simp)
  then obtain t1 where t1: "?clean t = (Inr (), t1)" "good t1" "dirs t1 = dirs t"
    "\<forall>q. (\<forall>i k. segment_file ?name i k = Inr q \<longrightarrow> i \<in> ?known) \<longrightarrow> files t1 q = files t q"
    "\<forall>q. files t q = None \<longrightarrow> files t1 q = None" by (elim exE conjE)
  have clean: "io_bind ?clean k t = k () t1" for k :: "unit \<Rightarrow> ('s, 'h coll_inner) io"
    by (rule io_bind_Inr) (rule t1(1))
  have mir: "\<forall>seg \<in> set ?segs. mirrored (files t1) cat seg"
  proof
    fix seg assume seg: "seg \<in> set ?segs"
    have "files t1 q = files t q" if "segment_file ?name (sd_id seg) k = Inr q" for k q
      using t1(4) segment_file_inject [OF that] seg unfolding known by (metis imageI list.set_map)
    moreover have "mirrored (files t) cat seg" using assms(4) seg by (simp add: disk_inv_def)
    ultimately show "mirrored (files t1) cat seg" using mirrored_frame by blast
  qed
  have fp: "segment_file ?name i k \<noteq> Inr p" for i k
    using layout_inject [of "SegFile ?name i k" p "WalFile ?name 1"] assms(6) by auto
  show ?thesis
  proof (rule that [of t1])
    show "coll_open E cat entry t
      = io_bind (replay_into (fo_fpu (en_floats E)) st p (cat_id_kind cat) (mt_new (cat_dimension cat) F32)) (\<lambda>(report, memtable).
        io_bind (if rr_truncated_tail report \<and> \<not> dcf_read_only (en_config E) then truncate_tail st p (rr_valid_bytes report) else io_ok ()) (\<lambda>_.
        io_bind (ww_open st p (sat_add (rr_last_sequence report) 1) (dcf_durability (en_config E))) (\<lambda>wal.
        io_ok \<lparr>ci_catalog = cat, ci_state = \<lparr>cs_memtable = memtable, cs_segments = cs_segments c, cs_wal = wal,
          cs_next_segment_id = fold max (map sd_id (cs_segments c)) 0 + 1, cs_next_txn_hint = 1\<rparr>\<rparr>))) t1"
      unfolding coll_open_def Let_def assms(1) clean
      using open_mirrored [OF t1(2) mir, of "[]", folded assms(7)] by (simp add: assms(6) known)
    show "files t1 p = files t p" using t1(4) fp by blast
  qed (use t1 mir in \<open>blast+\<close>)
qed

text \<open>When the log replays, opening gives the collection back.\<close>

lemma coll_open_ok:
  assumes "en_storage E = st" and "good t" and "check_collection_name (cat_name cat) = Inr ()" and "coll_wf cat c"
    and "disk_inv (files t) cat c" and "paths_clear (files t) (dirs t) (cat_name cat)"
    and "list_all (storable cat) (live_docs (cs_memtable c))" and "wal_file (cat_name cat) 1 = Inr p"
    and "files t p = Some (log_bytes fs, d)" and "\<forall>f \<in> set fs. frame_ok f" and "length (log_bytes fs) < 2 ^ 64" and "settled fs"
    and "try_fold (replay_frame (fo_fpu (en_floats E)) (cat_id_kind cat)) (committed_frames fs) (mt_new (cat_dimension cat) F32)
      = Inr (cs_memtable c)"
    and "dcf_durability (en_config E) = Full \<Longrightarrow> d = log_bytes fs"
    and "ce_segments entry = map segment_reference (cs_segments c)"
  shows "\<exists>c' t'. coll_open E cat entry t = (Inr \<lparr>ci_catalog = cat, ci_state = c'\<rparr>, t') \<and> good t'
     \<and> coll_inv files dirs stands writable E cat c' t' \<and> coll_abs c' = coll_abs c \<and> cs_segments c' = cs_segments c
     \<and> dirs t' = dirs t \<and> (\<forall>q. (\<forall>i k. segment_file (cat_name cat) i k \<noteq> Inr q) \<longrightarrow> files t' q = files t q)"
proof -
  let ?name = "cat_name cat" and ?segs = "cs_segments c" and ?m0 = "mt_new (cat_dimension cat) F32"
  obtain t1 where pre: "coll_open E cat entry t
      = io_bind (replay_into (fo_fpu (en_floats E)) st p (cat_id_kind cat) ?m0) (\<lambda>(report, memtable).
        io_bind (if rr_truncated_tail report \<and> \<not> dcf_read_only (en_config E) then truncate_tail st p (rr_valid_bytes report) else io_ok ()) (\<lambda>_.
        io_bind (ww_open st p (sat_add (rr_last_sequence report) 1) (dcf_durability (en_config E))) (\<lambda>wal.
        io_ok \<lparr>ci_catalog = cat, ci_state = \<lparr>cs_memtable = memtable, cs_segments = cs_segments c, cs_wal = wal,
          cs_next_segment_id = fold max (map sd_id ?segs) 0 + 1, cs_next_txn_hint = 1\<rparr>\<rparr>))) t1"
    and t1: "good t1" "dirs t1 = dirs t" "\<forall>q. (\<forall>i k. segment_file ?name i k \<noteq> Inr q) \<longrightarrow> files t1 q = files t q"
      "files t1 p = files t p" "\<forall>q. files t q = None \<longrightarrow> files t1 q = None" "\<forall>seg \<in> set ?segs. mirrored (files t1) cat seg"
    by (rule coll_open_prefix [OF assms(1-3,5,6,8,15)])
  have fp: "files t1 p = Some (log_bytes fs, d)" using t1(4) assms(9) by simp
  from replay_clean_ok [OF assms(13)] obtain rep where
    rc: "replay_clean (fo_fpu (en_floats E)) (cat_id_kind cat) ?m0 fs = Inr (rep, cs_memtable c)" by metis
  then have rt: "\<not> rr_truncated_tail rep" by (auto simp: replay_clean_def elim!: rbind_InrE)
  from replay_log [OF t1(1) fp assms(10,11)] rc have rl: "replay_into (fo_fpu (en_floats E)) st p (cat_id_kind cat) ?m0 t1
      = (Inr (rep, cs_memtable c), t1)" by simp
  from ww_open_existing [OF t1(1) fp assms(10)] obtain w where
    w: "ww_open st p (sat_add (rr_last_sequence rep) 1) (dcf_durability (en_config E)) t1 = (Inr w, t1)"
      "wal_holds files stands writable w t1 fs d" "ww_path w = p" "ww_next_txn w = 1" "ww_durability w = dcf_durability (en_config E)" by metis
  let ?c = "\<lparr>cs_memtable = cs_memtable c, cs_segments = ?segs, cs_wal = w,
        cs_next_segment_id = fold max (map sd_id ?segs) 0 + 1, cs_next_txn_hint = 1\<rparr>"
  have op: "coll_open E cat entry t = (Inr \<lparr>ci_catalog = cat, ci_state = ?c\<rparr>, t1)"
    unfolding pre using rl rt w(1) by simp
  have "disk_inv (files t1) cat ?c"
    using assms(5) t1(6) fold_max_words [of "map sd_id ?segs"] unfolding disk_inv_def by auto
  moreover have "paths_clear (files t1) (dirs t1) ?name" using assms(6) t1(2,5) by (simp add: paths_clear_def)
  moreover have "coll_wf cat ?c" using assms(4) by (simp add: coll_wf_def)
  ultimately have "coll_inv files dirs stands writable E cat ?c t1"
    unfolding coll_inv_def using assms(7,8,12-14) w by (intro conjI exI [of _ fs] exI [of _ d]) simp_all
  moreover have "coll_abs ?c = coll_abs c" by (simp add: fun_eq_iff coll_abs_def split: option.split)
  ultimately show ?thesis using op t1(1-3) by (intro exI [of _ ?c] exI [of _ t1]) simp
qed

text \<open>When a frame of the log is refused, so is the collection.\<close>

lemma coll_open_refused:
  assumes "en_storage E = st" and "good t" and "check_collection_name (cat_name cat) = Inr ()"
    and "disk_inv (files t) cat c" and "paths_clear (files t) (dirs t) (cat_name cat)" and "wal_file (cat_name cat) 1 = Inr p"
    and "files t p = Some (log_bytes fs, d)" and "\<forall>f \<in> set fs. frame_ok f" and "length (log_bytes fs) < 2 ^ 64"
    and "try_fold (replay_frame (fo_fpu (en_floats E)) (cat_id_kind cat)) (committed_frames fs) (mt_new (cat_dimension cat) F32) = Inl e"
    and "ce_segments entry = map segment_reference (cs_segments c)"
  shows "fst (coll_open E cat entry t) = Inl e"
proof -
  obtain t1 where pre: "coll_open E cat entry t
      = io_bind (replay_into (fo_fpu (en_floats E)) st p (cat_id_kind cat) (mt_new (cat_dimension cat) F32)) (\<lambda>(report, memtable).
        io_bind (if rr_truncated_tail report \<and> \<not> dcf_read_only (en_config E) then truncate_tail st p (rr_valid_bytes report) else io_ok ()) (\<lambda>_.
        io_bind (ww_open st p (sat_add (rr_last_sequence report) 1) (dcf_durability (en_config E))) (\<lambda>wal.
        io_ok \<lparr>ci_catalog = cat, ci_state = \<lparr>cs_memtable = memtable, cs_segments = cs_segments c, cs_wal = wal,
          cs_next_segment_id = fold max (map sd_id (cs_segments c)) 0 + 1, cs_next_txn_hint = 1\<rparr>\<rparr>))) t1"
    and t1: "good t1" "files t1 p = files t p"
    by (rule coll_open_prefix [OF assms(1-6,11)])
  have "files t1 p = Some (log_bytes fs, d)" using t1(2) assms(7) by simp
  from replay_log [OF t1(1) this assms(8,9)] assms(10) show ?thesis
    unfolding pre by (simp add: replay_clean_def io_bind_def)
qed

text \<open>Closed or cut off by a power failure.\<close>

lemma coll_reopen:
  assumes "en_storage E = st" and "good s" and "check_collection_name (cat_name cat) = Inr ()"
    and "coll_inv files dirs stands writable E cat c s" and "\<forall>l d. files s (ww_path (cs_wal c)) = Some (l, d) \<longrightarrow> length l < 2 ^ 64"
    and "ce_segments entry = map segment_reference (cs_segments c)"
    and "t = s \<or> t = crash s \<and> dcf_durability (en_config E) = Full"
  shows "\<exists>c' t'. coll_open E cat entry t = (Inr \<lparr>ci_catalog = cat, ci_state = c'\<rparr>, t') \<and> good t'
     \<and> coll_inv files dirs stands writable E cat c' t' \<and> coll_abs c' = coll_abs c \<and> cs_segments c' = cs_segments c
     \<and> dirs t' = dirs t \<and> (\<forall>q. (\<forall>i k. segment_file (cat_name cat) i k \<noteq> Inr q) \<longrightarrow> files t' q = files t q)"
proof -
  let ?p = "ww_path (cs_wal c)"
  from assms(4) obtain fs d where wf: "coll_wf cat c" "disk_inv (files s) cat c" "paths_clear (files s) (dirs s) (cat_name cat)"
    "list_all (storable cat) (live_docs (cs_memtable c))" "wal_file (cat_name cat) 1 = Inr ?p"
    and h: "wal_holds files stands writable (cs_wal c) s fs d" "settled fs" "dcf_durability (en_config E) = Full \<longrightarrow> d = log_bytes fs"
      "try_fold (replay_frame (fo_fpu (en_floats E)) (cat_id_kind cat)) (committed_frames fs) (mt_new (cat_dimension cat) F32) = Inr (cs_memtable c)"
    unfolding coll_inv_def by blast
  from h(1) have f: "files s ?p = Some (log_bytes fs, d)" "\<forall>f \<in> set fs. frame_ok f" by (auto simp: wal_holds_def)
  with assms(5) have len: "length (log_bytes fs) < 2 ^ 64" by blast
  show ?thesis
  proof (cases "t = s")
    case True
    show ?thesis
      unfolding True by (rule coll_open_ok [OF assms(1-3) wf f len h(2,4) _ assms(6)]) (use h(3) in blast)
  next
    case False
    with assms(7) have t: "t = crash s" "dcf_durability (en_config E) = Full" by auto
    from crash_law [OF assms(2)] have c: "good t" "dirs t = dirs s" unfolding t(1) by blast+
    have "disk_inv (files t) cat c" using wf(2) mirrored_crash [OF assms(2)] unfolding t(1) disk_inv_def by blast
    moreover have "paths_clear (files t) (dirs t) (cat_name cat)"
      using wf(3) crash_law [OF assms(2)] unfolding t(1) paths_clear_def by simp
    moreover have "files t ?p = Some (log_bytes fs, log_bytes fs)" using crash_file [OF assms(2) f(1)] h(3) t by simp
    ultimately show ?thesis
      using coll_open_ok [OF assms(1) c(1) assms(3) wf(1) _ _ wf(4,5) _ f(2) len h(2,4) _ assms(6), of "log_bytes fs"] by blast
  qed
qed

end

end
