(* ===== verification/Collection_Progress.thy ===== *)
theory Collection_Progress
  imports Collection_Recovery
begin

text \<open>
  Progress (\<open>do_flush\<close> of \<open>core/src/api/collection.rs\<close>): on a backend that does what it is asked, a flush of a
  collection that keeps its invariant succeeds.
\<close>

subsection \<open>The manifest with the new entry\<close>

lemma put_entry_bytes: "length (concat (map collection_bytes (put_entry e es))) \<le> length (concat (map collection_bytes es)) + length (collection_bytes e)"
  by (induction es) auto

lemma committed_encodes:
  assumes "manifest_validate (mst_current ms) = Inr ()" and "validate_entry e = Inr ()"
  obtains bs where "manifest_encode (mst_current (committed_store ms e now_ms)) = Inr bs"
    and "length bs \<le> length (manifest_payload (mst_current ms)) + length (collection_bytes e) + 46"
proof -
  let ?m = "mst_current ms" and ?n = "mst_current (committed_store ms e now_ms)"
  have cs: "m_collections ?n = put_entry e (m_collections ?m)" by (simp add: committed_store_def mst_next_def)
  have "manifest_validate ?n = Inr ()"
    using assms set_put_entry(1) [of e "m_collections ?m"] unfolding manifest_validate_iff cs put_entry_names by auto
  then have "manifest_encode ?n = Inr (encode_block Manifest (manifest_payload ?n))" by (simp add: manifest_encode_iff)
  moreover have "length (manifest_payload ?n) \<le> length (manifest_payload ?m) + length (collection_bytes e) + 10"
    using put_entry_bytes [of e "m_collections ?m"] length_varint_bytes_le [of "u64_of (length (put_entry e (m_collections ?m)))"]
    by (simp add: manifest_payload_def counted_bytes_def cs committed_store_def mst_next_def MAX_LEN_U64_def)
  ultimately show ?thesis by (intro that) (assumption, simp add: length_encode_block)
qed

lemma collection_bytes_length:
  "length (collection_bytes e) \<le> length (ce_name e) + 24 * length (ce_segments e) + 64"
proof -
  have "length (segment_ref_bytes r) \<le> 24" for r
    using varint_length [of "sr_id r"] varint_length [of "ucast (sr_del_generation r)"] by (simp add: segment_ref_bytes_def)
  then have "length (concat (map segment_ref_bytes rs)) \<le> 24 * length rs" for rs
    by (induction rs) (simp_all add: add_mono)
  from this [of "ce_segments e"] show ?thesis
    using blob_length [of "ce_name e"] varint_length [of "u64_of (length (ce_segments e))"] varint_length [of "ce_live_count e"]
      varint_length [of "snapshot_code (ce_index_snapshot e)"] varint_length [of "ce_last_applied_wal e"] varint_length [of "ce_total_rows e"]
    by (simp add: collection_bytes_def counted_bytes_def)
qed

lemma live_le_rows:
  assumes "\<forall>seg \<in> set segs. \<exists>xs. seg_shows seg xs" and "length segs < 2 ^ 31"
  shows "live_on_disk segs \<le> segment_rows (map segment_reference segs)"
proof -
  have "unat (live_on_disk segs) \<le> unat (segment_rows (map segment_reference segs))
     \<and> unat (segment_rows (map segment_reference segs)) \<le> length segs * 2 ^ 32"
    using assms
  proof (induction segs)
    case (Cons seg segs)
    then have IH: "unat (live_on_disk segs) \<le> unat (segment_rows (map segment_reference segs))"
      "unat (segment_rows (map segment_reference segs)) \<le> length segs * 2 ^ 32" and len: "length segs < 2 ^ 31" by auto
    from Cons.prems obtain xs where xs: "seg_shows seg xs" by auto
    then have ti: "ts_inv (sd_tombstones seg)" "unat (ts_rows (sd_tombstones seg)) = length xs" "length (sd_entries seg) = length xs" "length xs < 2 ^ 32"
      by (simp_all add: seg_shows_def)
    have r: "unat (sd_rows seg) = length xs" using ti(3,4) by (simp add: sd_rows_def take_bit_nat_eq_self_iff unsigned_of_nat)
    have "card (live_set (sd_tombstones seg)) \<le> card {..<length xs}" using ti(1,2) by (intro card_mono) (auto simp: ts_inv_def)
    then have l: "unat (sd_live_count seg) \<le> unat (sd_rows seg)" using live_count_card [OF ti(1)] r by (simp add: sd_live_count_def)
    have u: "unat (ucast x :: u64) = unat x" for x :: u32 by (simp add: unsigned_ucast_eq take_bit_nat_eq_self_iff)
    have b: "unat (sd_rows seg) < 2 ^ 32" using unsigned_less [of "sd_rows seg"] by simp
    have "length segs * 2 ^ 32 + 2 ^ 32 < (2 :: nat) ^ 64" using len by simp
    then have sm: "unat (sd_rows seg) + unat (segment_rows (map segment_reference segs)) < 2 ^ 64"
      "unat (sd_live_count seg) + unat (live_on_disk segs) < 2 ^ 64" using IH b l by linarith+
    have "unat (segment_rows (map segment_reference (seg # segs))) = unat (sd_rows seg) + unat (segment_rows (map segment_reference segs))"
      using sm(1) by (simp add: segment_rows_def segment_reference_def unat_word_ariths u)
    moreover have "unat (live_on_disk (seg # segs)) = unat (sd_live_count seg) + unat (live_on_disk segs)"
      using sm(2) by (simp add: live_on_disk_def unat_word_ariths u)
    ultimately show ?case using IH l b by simp
  qed (simp add: live_on_disk_def segment_rows_def)
  then show ?thesis by (simp add: word_le_nat_alt)
qed

context storage_contract
begin

subsection \<open>The steps succeed\<close>

lemma flush_memtable_total:
  assumes "good s" and "mt_inv m" and "flush_rows cat m = Inr w" and "segment_fits w" and "check_collection_name (cat_name cat) = Inr ()"
    and "\<forall>q. segments_path (cat_name cat) q \<longrightarrow> files s q = None" and "\<forall>i k p. segment_file (cat_name cat) i k = Inr p \<longrightarrow> \<not> dirs s p"
  obtains r s' d where "flush_memtable st cat n m s = (Inr r, s')" and "segments_dir (cat_name cat) = Inr d" and "dirs s' d"
proof -
  from assms(3) obtain w0 where w0: "new_writers cat = Inr w0" "try_fold (flush_row m) (mt_live_rows m) w0 = Inr w"
    unfolding flush_rows_def by (rule rbind_InrE)
  obtain d where d: "segments_dir (cat_name cat) = Inr d" using collection_paths(2) [OF assms(5)] by blast
  note p = segments_dir_parses [OF d]
  have "\<forall>n. files s (intercal (take n (path_components d))) = None" using assms(6) d unfolding segments_path_def by blast
  from create_dirs_total [OF assms(1) p this] obtain s1 where c: "st_create_dir_all st d s = (Inr (), s1)" by blast
  note c1 = create_dirs [OF assms(1) c p]
  have nd: "\<not> dirs s1 q" if "segment_file (cat_name cat) i k = Inr q" for i k q
  proof
    assume "dirs s1 q"
    with create_dirs_new [OF assms(1) c p] assms(7) that have "segments_path (cat_name cat) q"
      unfolding segments_path_def using d by blast
    from segments_path_components(2) [OF this] that show False by blast
  qed
  have ex: "\<forall>k. \<exists>q. segment_file (cat_name cat) n k = Inr q \<and> \<not> dirs s1 q \<and> dirs s1 (parent_of q)"
    using collection_paths(3) [OF assms(5)] nd segment_file_parent [OF d] c1 by metis
  have sh: "\<forall>k. length (seg_bytes w (all_live (vw_rows (sw_vectors w)) 0) k) < 2 ^ 64"
    using seg_bytes_short [OF w0(1) w0(2) [unfolded flush_rows_pushed [OF assms(2)]] assms(4) all_live_correct(1)] by blast
  from c1 have "good s1" by blast
  from write_segment_total [OF this sh ex] obtain r s' where x: "write_segment st (cat_name cat) n w s1 = (Inr r, s')" by blast
  have "dirs s' d" using write_segment_ok [OF \<open>good s1\<close> x sh] c1 by simp
  then show ?thesis using d c w0 x by (intro that [of "\<lparr>fr_segment = r, fr_pending = mt_deleted_ids m\<rparr>" s' d]) (simp_all add: flush_memtable_def Let_def)
qed

lemma supersede_segment_total:
  assumes "en_storage E = st" and "good s" and "i < length (cs_segments c)" and "seg_shows (cs_segments c ! i) xs"
    and "segment_file (cat_name cat) (sd_id (cs_segments c ! i)) TombstonesFile = Inr p" and "\<not> dirs s p" and "dirs s (parent_of p)"
  shows "\<exists>refs' w. supersede_segment E cat ids i refs (c, d, s) = (Inr refs', w)"
proof -
  let ?seg = "cs_segments c ! i" and ?ch = "\<exists>k \<in> set ids. sd_read (cs_segments c ! i) k \<noteq> None"
  from kill_ids_correct [OF assms(4), of ids] obtain t where t: "kill_ids ids ?seg = (?seg\<lparr>sd_tombstones := t\<rparr>, ?ch)"
    "seg_shows (?seg\<lparr>sd_tombstones := t\<rparr>) xs" by blast
  let ?t = "t\<lparr>ts_generation := if ts_generation t = - 1 then - 1 else ts_generation t + 1\<rparr>"
  have ti: "ts_inv ?t" using t(2) by (simp add: seg_shows_def)
  have l: "length (tombstones_encode ?t) < 2 ^ 64"
    using tombstones_short [OF ti] by (simp add: tombstones_encode_eq length_encode_block)
  from write_segment_file_total [OF assms(2,5,6,7) l] obtain s' where
    w: "write_segment_file st (cat_name cat) (sd_id ?seg) TombstonesFile (tombstones_encode ?t) s = (Inr (), s')" by blast
  have kill: "in_segment i (\<lambda>(seg, s). case kill_ids ids seg of (seg, changed) \<Rightarrow> (Inr changed, (seg, s))) (c, d, s)
      = (Inr ?ch, (c\<lparr>cs_segments := (cs_segments c)[i := ?seg\<lparr>sd_tombstones := t\<rparr>]\<rparr>, d, s))"
    unfolding in_segment_def using t(1) by simp
  have "\<exists>g seg'. sd_persist_tombstones st (cat_name cat) (?seg\<lparr>sd_tombstones := t\<rparr>, s) = (Inr g, (seg', s'))"
    using w by (cases "ts_generation t = - 1") (simp_all add: sd_persist_tombstones_def)
  then obtain g seg' where ps: "sd_persist_tombstones st (cat_name cat) (?seg\<lparr>sd_tombstones := t\<rparr>, s) = (Inr g, (seg', s'))" by blast
  have per: "in_segment i (sd_persist_tombstones st (cat_name cat)) (c\<lparr>cs_segments := (cs_segments c)[i := ?seg\<lparr>sd_tombstones := t\<rparr>]\<rparr>, d, s)
      = (Inr g, (c\<lparr>cs_segments := (cs_segments c)[i := seg']\<rparr>, d, s'))"
    unfolding in_segment_def using ps assms(3) by simp
  note kb = io_bind_Inr [where m = "in_segment i (\<lambda>(seg, s). case kill_ids ids seg of (seg, changed) \<Rightarrow> (Inr changed, (seg, s)))"
      and s = "(c, d, s)", OF kill]
  show ?thesis
    unfolding supersede_segment_def kb using per assms(1) by (cases ?ch) (simp_all del: not_None_eq)
qed

lemma supersede_fold_total:
  assumes "en_storage E = st" and "good s" and "\<forall>seg \<in> set (cs_segments c). mirrored (files s) cat seg \<and> (\<exists>xs. seg_shows seg xs)"
    and "distinct (map sd_id (cs_segments c))" and "n \<le> length (cs_segments c)"
    and "\<forall>i k. \<exists>p. segment_file (cat_name cat) i k = Inr p \<and> \<not> dirs s p \<and> dirs s (parent_of p)"
  shows "\<exists>refs w. io_fold (supersede_segment E cat ids) [0..<n] [] (c, d, s) = (Inr refs, w)"
  using assms(5)
proof (induction n)
  case (Suc n)
  then obtain refs c1 d1 s1 where f: "io_fold (supersede_segment E cat ids) [0..<n] [] (c, d, s) = (Inr refs, (c1, d1, s1))"
    by (metis Suc_leD prod_cases3)
  from Suc.prems have n: "n \<le> length (cs_segments c)" "n < length (cs_segments c)" by auto
  from supersede_fold [OF assms(1-4) n(1) f] obtain new where
    c1: "c1 = c\<lparr>cs_segments := new @ drop n (cs_segments c)\<rparr>" "list_all2 (superseded ids) (take n (cs_segments c)) new"
      "good s1" "dirs s1 = dirs s" by blast
  have ln: "length new = n" using list_all2_lengthD [OF c1(2)] n by simp
  have at: "n < length (cs_segments c1)" "cs_segments c1 ! n = cs_segments c ! n" using n ln by (simp_all add: c1(1) nth_append)
  obtain xs where xs: "seg_shows (cs_segments c1 ! n) xs" using assms(3) nth_mem [OF n(2)] unfolding at(2) by blast
  obtain p where p: "segment_file (cat_name cat) (sd_id (cs_segments c1 ! n)) TombstonesFile = Inr p" "\<not> dirs s1 p" "dirs s1 (parent_of p)"
    using assms(6) unfolding c1(4) by blast
  from supersede_segment_total [OF assms(1) c1(3) at(1) xs p] obtain refs' w where
    "supersede_segment E cat ids n refs (c1, d1, s1) = (Inr refs', w)" by blast
  with f have "io_fold (supersede_segment E cat ids) [0..<Suc n] [] (c, d, s) = (Inr refs', w)" by (simp add: io_fold_append)
  then show ?case by blast
qed simp

lemma adopt_segment_total:
  assumes "en_storage E = st" and "good s" and "seg_files (files s) (cat_name cat) (sr_id r) B" and "sd_load cat r B = Some seg"
  shows "\<exists>refs' c' s'. adopt_segment E cat r refs (c, d, s) = (Inr refs', (c', d, s'))"
proof (cases "sr_rows r > 0")
  case True
  from sd_open_load [OF assms(2,3), of seg s] assms(4) have "sd_open st cat r s = (Inr seg, s)" by simp
  with True assms(1) show ?thesis by (simp add: adopt_segment_def)
next
  case False
  have "\<exists>p. segment_file (cat_name cat) (sr_id r) k = Inr p \<and> \<not> dirs s p" for k
  proof -
    from assms(3) obtain p where p: "segment_file (cat_name cat) (sr_id r) k = Inr p" "files s p = Some (B k, B k)"
      unfolding seg_files_def by blast
    from not_both [OF assms(2), of p] p(2) have "\<not> dirs s p" by auto
    with p(1) show ?thesis by blast
  qed
  then have "\<forall>k. \<exists>p. segment_file (cat_name cat) (sr_id r) k = Inr p \<and> \<not> dirs s p" by blast
  then obtain s' where "remove_segment st (cat_name cat) (sr_id r) s = (Inr (), s')" by (rule remove_segment_total [OF assms(2)])
  with False assms(1) show ?thesis by (simp add: adopt_segment_def)
qed

lemma commit_collection_total:
  assumes "en_storage E = st" and "good s" and "dirs s path_root" and "\<forall>t. \<not> dirs s (slot_path t)"
    and "manifest_encode (mst_current (committed_store (ds_manifest d) entry now_ms)) = Inr bs" and "length bs < 2 ^ 64"
  shows "\<exists>s'. commit_collection E now_ms entry (d, s) = (Inr (), (d\<lparr>ds_manifest := committed_store (ds_manifest d) entry now_ms\<rparr>, s'))"
proof -
  have "\<not> dirs s (slot_path (slot_other (mst_slot (ds_manifest d))))" using assms(4) by blast
  then show ?thesis
    by (rule mst_write_files [OF assms(2) _ assms(3,5,6)])
      (simp add: assms(1) commit_collection_def in_manifest_def mst_commit_def committed_store_def Let_def)
qed

lemma checkpoint_wal_total:
  assumes "en_storage E = st" and "good s" and "wal_file (cat_name cat) 1 = Inr p" and "files s p = Some f"
  shows "\<exists>w. checkpoint_wal E cat n (c, d, s) = (Inr (), w)"
proof -
  from open_existing [OF assms(2,4), of OpenReadWrite] obtain h where
    h: "st_open_file st p OpenReadWrite s = (Inr h, s)" "stands s h p" "writable h" by (auto simp: is_writable_def)
  from truncate_law [OF assms(2) h(2,3) assms(4), of 0] obtain s1 where
    t: "f_truncate st h 0 s = (Inr (), s1)" "good s1" "stands s1 = stands s" "files s1 = (files s)(p \<mapsto> ([], snd f))" by auto
  from sync_law [OF t(2), of h p "([], snd f)"] h t obtain s2 where
    y: "f_sync_data st h s1 = (Inr (), s2)" "good s2" "files s2 = (files s1)(p \<mapsto> ([], []))" by auto
  have "files s2 p = Some (log_bytes [], [])" using y(3) by simp
  from ww_open_existing [OF y(2) this] obtain w where "ww_open st p (ww_next_sequence (cs_wal c)) (dcf_durability (en_config E)) s2 = (Inr w, s2)"
    by (metis empty_iff list.set(1))
  with h t y assms(1,3) show ?thesis by (simp add: checkpoint_wal_def Let_def)
qed

subsection \<open>The flush succeeds\<close>

lemma flushed_entry_valid:
  assumes "check_collection_name (cat_name cat) = Inr ()" and "coll_wf cat c" and "sorted_wrt (<) (map sd_id (cs_segments c))"
    and "length (cs_segments c) < 2 ^ 31"
  shows "validate_entry (flushed_entry cat c (map segment_reference (cs_segments c))) = Inr ()"
proof -
  have "cat_name cat \<noteq> []" using collection_name_plain [OF assms(1)] by (auto simp: plain_def)
  moreover have "sr_id \<circ> segment_reference = sd_id" by (simp add: fun_eq_iff segment_reference_def)
  moreover have "\<forall>seg \<in> set (cs_segments c). \<exists>xs. seg_shows seg xs" using assms(2) by (auto simp: coll_wf_def seg_ok_def)
  ultimately show ?thesis
    using live_le_rows [OF _ assms(4)] assms(3) unfolding validate_entry_iff
    by (simp add: flushed_entry_def segment_rows_def)
qed

lemma do_flush_total:
  assumes "en_storage E = st" and "good s" and "coll_inv files dirs stands writable E cat c s" and "check_collection_name (cat_name cat) = Inr ()"
    and "dirs s path_root" and "flush_rows cat (cs_memtable c) = Inr w" and "segment_fits w" and "cs_next_segment_id c \<noteq> - 1"
    and "manifest_validate (mst_current (ds_manifest d)) = Inr ()" and "length (manifest_payload (mst_current (ds_manifest d))) < 2 ^ 62"
    and "length (cs_segments c) < 2 ^ 30"
  shows "\<exists>c' d' s'. do_flush E cat now_ms (c, d, s) = (Inr (), (c', d', s'))
     \<and> (\<forall>bs. manifest_encode (mst_current (ds_manifest d')) = Inr bs \<longrightarrow> length bs < 2 ^ 64)"
proof (cases "mt_is_empty (cs_memtable c)")
  case True
  have "length bs < 2 ^ 64" if "manifest_encode (mst_current (ds_manifest d)) = Inr bs" for bs
    using that assms(10) by (simp add: manifest_encode_iff length_encode_block)
  with True show ?thesis by (simp add: do_flush_def Let_def)
next
  case False
  let ?m = "cs_memtable c" and ?n = "cs_next_segment_id c" and ?name = "cat_name cat"
  let ?ids = "map mw_id (mt_live_rows ?m) @ mt_deleted_ids ?m"
  from assms(3) have wf: "coll_wf cat c" and dk: "disk_inv (files s) cat c" and inv: "mt_inv ?m"
    and sto: "list_all (storable cat) (live_docs ?m)" and wp: "wal_file ?name 1 = Inr (ww_path (cs_wal c))"
    and pc: "paths_clear (files s) (dirs s) ?name" by (auto simp: coll_inv_def coll_wf_def)
  from assms(3) obtain fs dd where wh: "wal_holds files stands writable (cs_wal c) s fs dd" unfolding coll_inv_def by blast
  from pc have seg: "\<forall>q. segments_path ?name q \<longrightarrow> files s q = None" "\<forall>i k p. segment_file ?name i k = Inr p \<longrightarrow> \<not> dirs s p"
    "\<forall>t. \<not> dirs s (slot_path t)" by (auto simp: paths_clear_def)
  obtain r s1 dd1 where fl: "flush_memtable st cat ?n ?m s = (Inr r, s1)" and sd: "segments_dir ?name = Inr dd1" and dd1: "dirs s1 dd1"
    by (rule flush_memtable_total [OF assms(2) inv assms(6,7,4) seg(1,2)])
  note ok = flush_memtable_ok [OF assms(2) inv assms(6,7) fl]
  from ok have g1: "good s1" and fp: "fr_pending r = mt_deleted_ids ?m" by simp_all
  have nd: "\<not> dirs s1 p" if "segment_file ?name i k = Inr p" for i k p
    using flush_memtable_dirs [OF assms(2) inv assms(6,7) fl] seg(2) segments_path_components(2) that unfolding segments_path_def by blast
  have ex: "\<forall>i k. \<exists>p. segment_file ?name i k = Inr p \<and> \<not> dirs s1 p \<and> dirs s1 (parent_of p)"
    using collection_paths(3) [OF assms(4)] nd segment_file_parent [OF sd] dd1 by metis
  have mir: "\<forall>seg \<in> set (cs_segments c). mirrored (files s1) cat seg \<and> (\<exists>xs. seg_shows seg xs)"
  proof
    fix old assume old: "old \<in> set (cs_segments c)"
    with dk have o: "mirrored (files s) cat old" "sd_id old < ?n" by (auto simp: disk_inv_def)
    have "files s1 p = files s p" if p: "segment_file ?name (sd_id old) k = Inr p" for k p
    proof -
      have "segment_file ?name ?n j \<noteq> Inr p" for j using segment_file_inject [OF p, of ?name ?n j] o(2) by auto
      with ok show ?thesis by blast
    qed
    with o(1) have "mirrored (files s1) cat old" using mirrored_frame by blast
    then show "mirrored (files s1) cat old \<and> (\<exists>xs. seg_shows old xs)" using wf old by (auto simp: coll_wf_def seg_ok_def)
  qed
  have "\<exists>refs w. io_fold (supersede_segment E cat ?ids) [0..<length (cs_segments c)] [] (c, d, s1) = (Inr refs, w)"
    by (rule supersede_fold_total [OF assms(1) g1 mir disk_inv_distinct [OF dk] order_refl ex])
  then obtain refs1 c2 d2 s2 where
    fo: "io_fold (supersede_segment E cat ?ids) [0..<length (cs_segments c)] [] (c, d, s1) = (Inr refs1, (c2, d2, s2))" by auto
  from supersede_fold [OF assms(1) g1 mir disk_inv_distinct [OF dk] order_refl fo] obtain new where
    f: "good s2" "d2 = d" "\<forall>q. (\<forall>seg \<in> set (cs_segments c). segment_file ?name (sd_id seg) TombstonesFile \<noteq> Inr q) \<longrightarrow> files s2 q = files s1 q"
    by (elim exE conjE)
  obtain B seg where B: "seg_files (files s1) ?name ?n B" "sd_load cat (fr_segment r) B = Some seg" "sr_id (fr_segment r) = ?n"
    using flushed_segment_loads [OF assms(2) inv assms(6,7) fl sto] by (elim exE conjE)
  have B2: "seg_files (files s2) ?name (sr_id (fr_segment r)) B"
    unfolding B(3)
  proof (rule seg_files_frame [OF B(1)])
    fix k p assume p: "segment_file ?name ?n k = Inr p"
    have "segment_file ?name (sd_id old) TombstonesFile \<noteq> Inr p" if "old \<in> set (cs_segments c)" for old
      using segment_file_inject [OF p, of ?name "sd_id old" TombstonesFile] that dk by (auto simp: disk_inv_def)
    then show "files s2 p = files s1 p" using f(3) by blast
  qed
  obtain refs c3 s3 where ad: "adopt_segment E cat (fr_segment r) refs1 (c2, d2, s2) = (Inr refs, (c3, d2, s3))"
    using adopt_segment_total [OF assms(1) f(1) B2 B(2), of refs1 c2 d2] by (elim exE)
  from do_flush_segments [OF assms(1,2) wf dk refl assms(6,7) sto refl fl refl fo ad] obtain segs where
    a: "segments_after ?ids ?m ?n cat (cs_segments c) segs" "c3 = c\<lparr>cs_segments := segs\<rparr>" "refs = map segment_reference segs"
      "good s3" "\<forall>q. dirs s q \<longrightarrow> dirs s3 q" "\<forall>q. dirs s3 q \<longrightarrow> dirs s q \<or> segments_path ?name q"
      "\<forall>q. (\<forall>i k. segment_file ?name i k \<noteq> Inr q) \<longrightarrow> files s3 q = files s q \<and> (\<forall>h. stands s h q \<longrightarrow> stands s3 h q)"
    by (elim exE conjE)
  note v = segments_after_view [OF a(1) wf dk refl refl assms(8)]
  have len: "length segs < 2 ^ 30 + 1"
    using a(1) assms(11) list_all2_lengthD unfolding segments_after_def by fastforce
  have "coll_wf cat c3" using wf v(2,3) by (simp add: coll_wf_def a(2))
  from flushed_entry_valid [OF assms(4) this] v(4) len have ve: "validate_entry (flushed_entry cat c3 refs) = Inr ()" by (simp add: a(2,3))
  obtain bs where bs: "manifest_encode (mst_current (committed_store (ds_manifest d) (flushed_entry cat c3 refs) now_ms)) = Inr bs"
    "length bs \<le> length (manifest_payload (mst_current (ds_manifest d))) + length (collection_bytes (flushed_entry cat c3 refs)) + 46"
    by (rule committed_encodes [OF assms(9) ve])
  have "length (cat_name cat) \<le> 255" using collection_name_plain [OF assms(4)] by (simp add: plain_def)
  with collection_bytes_length [of "flushed_entry cat c3 refs"] len have "length (collection_bytes (flushed_entry cat c3 refs)) \<le> 2 ^ 40"
    by (simp add: flushed_entry_def a(3))
  with bs(2) assms(10) have bl: "length bs < 2 ^ 64" by simp
  have root: "dirs s3 path_root" using a(5) assms(5) by blast
  have slots: "\<forall>t. \<not> dirs s3 (slot_path t)" using a(6) seg(3) segments_path_components(3) by blast
  obtain s4 where co: "commit_collection E now_ms (flushed_entry cat c3 refs) (d, s3)
      = (Inr (), (d\<lparr>ds_manifest := committed_store (ds_manifest d) (flushed_entry cat c3 refs) now_ms\<rparr>, s4))"
    using commit_collection_total [OF assms(1) a(4) root slots bs(1) bl] by (elim exE)
  let ?d4 = "d\<lparr>ds_manifest := committed_store (ds_manifest d) (flushed_entry cat c3 refs) now_ms\<rparr>"
  have s4: "good s4" "\<exists>f. files s4 (ww_path (cs_wal c)) = Some f"
  proof -
    from commit_collection_ok [OF assms(1) a(4) co] bl bs(1) have g: "good s4"
      and fl4: "\<exists>bs p. files s4 = (files s3)(p \<mapsto> (bs, bs))" by auto
    have "segment_file ?name i k \<noteq> Inr (ww_path (cs_wal c))" for i k
      using layout_inject [of "SegFile ?name i k" "ww_path (cs_wal c)" "WalFile ?name 1"] wp by auto
    then have "files s3 (ww_path (cs_wal c)) = files s (ww_path (cs_wal c))" using a(7) by blast
    with wh fl4 show "\<exists>f. files s4 (ww_path (cs_wal c)) = Some f" by (auto simp: wal_holds_def)
    show "good s4" by (rule g)
  qed
  then obtain f4 where f4: "files s4 (ww_path (cs_wal c)) = Some f4" by blast
  obtain w5 where ck: "checkpoint_wal E cat ?n (c3, ?d4, s4) = (Inr (), w5)"
    using checkpoint_wal_total [OF assms(1) s4(1) wp f4, of ?n c3 ?d4] by (elim exE)
  obtain c5 d5 s5 where w5: "w5 = (c5, d5, s5)" by (cases w5) auto
  have d5: "d5 = ?d4" using ck unfolding w5
    by (auto simp: checkpoint_wal_def Let_def io_modify_def io_self_def elim!: io_bind_InrE in_storage_InrE)
  have "do_flush E cat now_ms (c, d, s) = (Inr (), (c5, d5, s5))"
    using fl fo ad co ck False assms(1) fp f(2) unfolding w5 by (simp add: do_flush_def Let_def io_snd_def)
  then show ?thesis using bs(1) bl unfolding d5 by (intro exI [of _ c5] exI [of _ ?d4] exI [of _ s5]) (simp add: d5)
qed

end

end
