(* ===== verification/Collection_Capacity.thy ===== *)
theory Collection_Capacity
  imports Collection_Recovery
begin

text \<open>
  What fits into a segment: the documents a collection accepts can always be written by a flush, up
  to the bounds on the number of rows stated here.
\<close>

text \<open>
  The floating-point unit never yields an infinite or undefined reciprocal norm.  IEEE single
  precision satisfies this: the square root of a sum of squares is zero or at least \<open>2 powr -75\<close>.
\<close>

definition norms_finite :: "fpu \<Rightarrow> bool" where
  "norms_finite F \<longleftrightarrow> (\<forall>v. f32_is_finite (view_inv_norm F v))"

text \<open>A document whose row, record, id and norm the segment writers take.\<close>

definition doc_fits :: "catalog \<Rightarrow> doc_id \<Rightarrow> stored \<Rightarrow> bool" where
  "doc_fits cat k x \<longleftrightarrow> length (fst x) = cat_row_stride cat \<and> f32_is_finite (fst (snd x)) \<and> length (id_to_bytes k) \<le> 512
     \<and> (\<exists>bs. mr_encode (stored_record x) = Inr bs \<and> length bs \<le> 2 ^ 24)"

definition all_fit :: "catalog \<Rightarrow> (doc_id \<Rightarrow> stored option) \<Rightarrow> bool" where
  "all_fit cat a \<longleftrightarrow> (\<forall>k x. a k = Some x \<longrightarrow> doc_fits cat k x)"

lemma all_fit_empty: "all_fit cat (\<lambda>_. None)"
  by (simp add: all_fit_def)

lemma all_fit_put: "all_fit cat a \<Longrightarrow> doc_fits cat k x \<Longrightarrow> all_fit cat (a(k \<mapsto> x))"
  by (auto simp: all_fit_def)

lemma all_fit_remove: "all_fit cat a \<Longrightarrow> all_fit cat (a(k := None))"
  by (simp add: all_fit_def)

lemma record_small:
  assumes "case md of Some m \<Rightarrow> \<exists>bs. meta_encode m = Inr bs | None \<Rightarrow> True" and "\<forall>c. content = Some c \<longrightarrow> length c \<le> CONTENT_ROOM"
    and "\<forall>m. md = Some m \<longrightarrow> val_wf (Map m)"
  shows "\<exists>bs. mr_encode (stored_record (v, n, md, content)) = Inr bs \<and> length bs \<le> 2 ^ 24"
proof (cases md)
  case None
  then show ?thesis
    using blob_length [of "the content"] assms(2)
    by (cases content) (auto simp: mr_encode_def stored_record_def Let_def codec_simps CONTENT_ROOM_def)
next
  case (Some m)
  with assms(1) obtain bs where bs: "meta_encode m = Inr bs" by auto
  with Some assms(3) have l: "length bs \<le> 65536" using meta_encode_decode(2) [of m bs] by (simp add: MAX_METADATA_BYTES_def)
  have e: "encode (Map m) = Inr bs" using bs by (auto simp: meta_encode_def elim!: rbind_InrE)
  show ?thesis
    using Some e l blob_length [of "the content"] blob_length [of bs] assms(2)
    by (cases content) (auto simp: mr_encode_def stored_record_def Let_def codec_simps CONTENT_ROOM_def)
qed

text \<open>Rows that fit are pushed, and grow the writers by a bounded amount.\<close>

lemma push_fitting:
  assumes "doc_fits cat k x" and "vw_stride (sw_vectors w) = cat_row_stride cat"
    and "length (dw_heap (sw_directory w)) < 2 ^ 32" and "length (dw_entries (sw_directory w)) < 2 ^ 32"
  obtains w' where "(case pushed (k, x) of (bs, rec, idb, n) \<Rightarrow> push_segment_row bs rec idb n) w = Inr w'"
    and "vw_stride (sw_vectors w') = cat_row_stride cat"
    and "length (vw_data (sw_vectors w')) = length (vw_data (sw_vectors w)) + cat_row_stride cat"
    and "length (dw_heap (sw_directory w')) \<le> length (dw_heap (sw_directory w)) + 512"
    and "length (dw_entries (sw_directory w')) = Suc (length (dw_entries (sw_directory w)))"
    and "length (sw_meta w') \<le> length (sw_meta w) + 2 ^ 24"
proof -
  from assms(1) obtain bs where f: "length (fst x) = cat_row_stride cat" "f32_is_finite (fst (snd x))" "length (id_to_bytes k) \<le> 512"
    "mr_encode (stored_record x) = Inr bs" "length bs \<le> 2 ^ 24" unfolding doc_fits_def by blast
  obtain i v where v: "vw_push_row (fst x) (sw_vectors w) = Inr (i, v)" "vw_stride v = cat_row_stride cat"
    "length (vw_data v) = length (vw_data (sw_vectors w)) + cat_row_stride cat"
    using f(1) assms(2) by (simp add: vw_push_row_def)
  obtain off len mp where m: "mw_push (stored_record x) (sw_meta w) = Inr ((off, len), mp)" "length mp \<le> length (sw_meta w) + 2 ^ 24"
    using f(4,5) by (cases "mr_is_empty (stored_record x)") (simp_all add: mw_push_def Let_def)
  obtain r dw where d: "dw_push (id_to_bytes k) off len (fst (snd x)) (sw_directory w) = (dw, Inr r)"
    "length (dw_heap dw) \<le> length (dw_heap (sw_directory w)) + 512" "length (dw_entries dw) = Suc (length (dw_entries (sw_directory w)))"
    using f(2,3) assms(3,4) by (simp add: dw_push_def Let_def)
  show ?thesis
    using v m d by (intro that [of "\<lparr>sw_vectors = v, sw_directory = dw, sw_meta = mp\<rparr>"]) (simp_all add: pushed_def push_segment_row_def)
qed

lemma push_rows_fitting:
  assumes "\<forall>(k, x) \<in> set xs. doc_fits cat k x" and "vw_stride (sw_vectors w) = cat_row_stride cat"
    and "length (dw_heap (sw_directory w)) + 512 * length xs < 2 ^ 32" and "length (dw_entries (sw_directory w)) + length xs < 2 ^ 32"
  shows "\<exists>w'. push_rows (map pushed xs) w = Inr w'
     \<and> length (vw_data (sw_vectors w')) = length (vw_data (sw_vectors w)) + length xs * cat_row_stride cat
     \<and> length (dw_entries (sw_directory w')) = length (dw_entries (sw_directory w)) + length xs
     \<and> length (sw_meta w') \<le> length (sw_meta w) + length xs * 2 ^ 24"
  using assms
proof (induction xs arbitrary: w)
  case Nil
  then show ?case by (simp add: push_rows_def)
next
  case (Cons y xs)
  obtain k x where y: "y = (k, x)" by (cases y)
  have fit: "doc_fits cat k x" and h: "length (dw_heap (sw_directory w)) < 2 ^ 32" "length (dw_entries (sw_directory w)) < 2 ^ 32"
    using Cons.prems by (auto simp: y)
  obtain w1 where w1: "(case pushed (k, x) of (bs, rec, idb, n) \<Rightarrow> push_segment_row bs rec idb n) w = Inr w1"
    "vw_stride (sw_vectors w1) = cat_row_stride cat"
    "length (vw_data (sw_vectors w1)) = length (vw_data (sw_vectors w)) + cat_row_stride cat"
    "length (dw_heap (sw_directory w1)) \<le> length (dw_heap (sw_directory w)) + 512"
    "length (dw_entries (sw_directory w1)) = Suc (length (dw_entries (sw_directory w)))"
    "length (sw_meta w1) \<le> length (sw_meta w) + 2 ^ 24" by (rule push_fitting [OF fit Cons.prems(2) h])
  have "\<forall>(k, x) \<in> set xs. doc_fits cat k x" "length (dw_heap (sw_directory w1)) + 512 * length xs < 2 ^ 32"
    "length (dw_entries (sw_directory w1)) + length xs < 2 ^ 32" using Cons.prems w1(4,5) by auto
  from Cons.IH [OF this(1) w1(2) this(2,3)] obtain w' where w': "push_rows (map pushed xs) w1 = Inr w'"
    "length (vw_data (sw_vectors w')) = length (vw_data (sw_vectors w1)) + length xs * cat_row_stride cat"
    "length (dw_entries (sw_directory w')) = length (dw_entries (sw_directory w1)) + length xs"
    "length (sw_meta w') \<le> length (sw_meta w1) + length xs * 2 ^ 24" by (elim exE conjE)
  have "push_rows (map pushed (y # xs)) w = Inr w'" using w1(1) w'(1) by (simp add: push_rows_def y)
  then show ?case using w' w1 by simp
qed

lemma live_docs_length: "mt_inv m \<Longrightarrow> length (live_docs m) \<le> length (mt_rows m)"
proof -
  assume inv: "mt_inv m"
  have "set (mt_live_rows m) \<subseteq> set (mt_rows m)"
    by (auto simp: mt_live_rows_def List.map_filter_def split: if_splits)
  then have "set (map mw_id (mt_live_rows m)) \<subseteq> set (map mw_id (mt_rows m))" by auto
  then have "card (set (map mw_id (mt_live_rows m))) \<le> card (set (map mw_id (mt_rows m)))" by (intro card_mono) simp_all
  also have "\<dots> \<le> length (map mw_id (mt_rows m))" by (rule card_length)
  finally show ?thesis using distinct_card [OF mt_live_rows_correct(2) [OF inv]] by (simp add: live_docs_def)
qed

lemma flush_fits:
  assumes "mt_inv m" and "\<And>k x. mt_abs m k = Some (Some x) \<Longrightarrow> doc_fits cat k x" and "length (mt_rows m) < 2 ^ 22"
    and "check_dimension (cat_dimension cat) = Inr ()"
  obtains w where "flush_rows cat m = Inr w" and "segment_fits w"
proof -
  have dim: "cat_dimension cat \<noteq> 0" "unat (cat_dimension cat) \<le> 65536"
    using assms(4) by (auto simp: check_dimension_def MAX_DIMENSION_def word_less_nat_alt split: if_splits)
  have "cat_dtype cat = F32" by (rule dtype_only)
  then have stride: "cat_row_stride cat = 4 * unat (cat_dimension cat)" by (simp add: cat_row_stride_def dtype_row_stride_def)
  then have st: "cat_row_stride cat \<noteq> 0" "cat_row_stride cat \<le> 2 ^ 18" using dim by (simp_all add: unat_eq_zero)
  let ?v = "\<lparr>vw_dimension = cat_dimension cat, vw_stride = cat_row_stride cat, vw_rows = 0, vw_data = []\<rparr>"
  let ?w = "\<lparr>sw_vectors = ?v, sw_directory = dw_new, sw_meta = []\<rparr>"
  have nw: "new_writers cat = Inr ?w" using st(1) dim(1) by (simp add: new_writers_Inr)
  have n: "length (live_docs m) < 2 ^ 22" using live_docs_length [OF assms(1)] assms(3) by simp
  have "\<forall>(k, x) \<in> set (live_docs m). doc_fits cat k x" using assms(2) live_docs_correct(3) [OF assms(1)] by auto
  from push_rows_fitting [OF this, of ?w] n obtain w where w: "push_rows (map pushed (live_docs m)) ?w = Inr w"
    "length (vw_data (sw_vectors w)) = length (live_docs m) * cat_row_stride cat"
    "length (dw_entries (sw_directory w)) = length (live_docs m)" "length (sw_meta w) \<le> length (live_docs m) * 2 ^ 24"
    by (auto simp: dw_new_def)
  have "length (live_docs m) * cat_row_stride cat \<le> 2 ^ 22 * 2 ^ 18" using n st(2) by (intro mult_le_mono) simp_all
  with w(2-4) n have "segment_fits w" by (simp add: segment_fits_def)
  moreover have "flush_rows cat m = Inr w" using w(1) nw flush_rows_pushed [OF assms(1)] by (simp add: flush_rows_def)
  ultimately show ?thesis by (intro that)
qed

end
