(* ===== verification/Collection_Run.thy ===== *)
theory Collection_Run
  imports Collection_Progress Collection_Capacity
begin

text \<open>
  A collection over a whole run: the invariant of an open collection together with what the manifest
  and the catalog on disk say of it, the steps its operations take, and that every step keeps the
  invariant.
\<close>

subsection \<open>Documents that fit\<close>

lemma stored_fits:
  assumes "input_wf doc" and "input_fits cat doc" and "norms_finite F"
  shows "doc_fits cat (di_id doc) (stored_of F doc)"
proof -
  note v = input_fits_parts [OF assms(2)]
  have t: "view_dtype (di_vector doc) = F32" "cat_dtype cat = F32" by (rule dtype_only)+
  have "length (view_bytes (di_vector doc)) = cat_row_stride cat"
    using assms(1) v(2) by (simp add: input_wf_def view_wf_def cat_row_stride_def t)
  moreover have "length (id_to_bytes (di_id doc)) \<le> 512" by (rule id_length [OF v(1)])
  moreover have "\<exists>bs. mr_encode (stored_record (stored_of F doc)) = Inr bs \<and> length bs \<le> 2 ^ 24"
    unfolding stored_of_def
    by (rule record_small) (use v(3,4) meta_encode_total assms(1) in \<open>auto simp: input_wf_def split: option.splits\<close>)
  ultimately show ?thesis using assms(3) by (simp add: doc_fits_def stored_of_def norms_finite_def)
qed

lemma op_effect_fits:
  assumes "op_wf b" and "validate_op cat b = Inr ()" and "norms_finite F" and "all_fit cat a"
  shows "all_fit cat (op_effect F (cat_dimension cat) b a)"
proof (cases b)
  case (BatchUpsert k v md content)
  note vu = valid_upsert [OF assms(2,1) [unfolded BatchUpsert]]
  from stored_fits [OF vu(1,2) assms(3)] all_fit_put [OF assms(4)] show ?thesis
    by (simp add: BatchUpsert batch_doc_def stored_of_def)
qed (use all_fit_remove [OF assms(4)] in simp)

lemma ops_fit:
  assumes "\<forall>b \<in> set ops. op_wf b \<and> validate_op cat b = Inr ()" and "norms_finite F" and "all_fit cat a"
  shows "all_fit cat (fold (op_effect F (cat_dimension cat)) ops a)"
  using assms by (induction ops arbitrary: a) (simp_all add: op_effect_fits)

lemma coll_flush_fits:
  assumes "coll_wf cat c" and "all_fit cat (coll_abs c)" and "length (mt_rows (cs_memtable c)) < 2 ^ 22"
    and "check_dimension (cat_dimension cat) = Inr ()"
  obtains w where "flush_rows cat (cs_memtable c) = Inr w" and "segment_fits w"
proof (rule flush_fits [OF _ _ assms(3,4)])
  show "mt_inv (cs_memtable c)" using assms(1) by (simp add: coll_wf_def)
  show "doc_fits cat k x" if "mt_abs (cs_memtable c) k = Some (Some x)" for k x
  proof -
    have "coll_abs c k = Some x" using that by (simp add: coll_abs_def)
    with assms(2) show ?thesis unfolding all_fit_def by blast
  qed
qed (rule that)

subsection \<open>What is on disk\<close>

text \<open>The files as a power cut leaves them.\<close>

definition durable :: "(db_path \<Rightarrow> file_view option) \<Rightarrow> db_path \<Rightarrow> file_view option" where
  "durable fs = (\<lambda>p. map_option (\<lambda>f. (snd f, snd f)) (fs p))"

text \<open>
  The manifest store agrees with the slot files, now and after a power cut, its manifest lists the
  open segments of the collection, and the catalog file is the collection's.
\<close>

definition agreeing :: "(db_path \<Rightarrow> file_view option) \<Rightarrow> manifest_store \<Rightarrow> bool" where
  "agreeing fs ms \<longleftrightarrow> manifest_wf (mst_current ms) \<and> manifest_validate (mst_current ms) = Inr ()
     \<and> store_agrees fs ms \<and> store_agrees (durable fs) ms \<and> slots_small fs \<and> slots_small (durable fs)"

definition recorded :: "(db_path \<Rightarrow> file_view option) \<Rightarrow> catalog \<Rightarrow> segment_data list \<Rightarrow> manifest_store \<Rightarrow> bool" where
  "recorded fs cat segs ms \<longleftrightarrow> agreeing fs ms
     \<and> (\<exists>entry \<in> set (m_collections (mst_current ms)). ce_name entry = cat_name cat \<and> ce_segments entry = map segment_reference segs)
     \<and> (\<exists>p bs. layout_catalog (cat_name cat) = Inr p \<and> fs p = Some (bs, bs) \<and> length bs < 2 ^ 64 \<and> catalog_decode bs = Inr cat)"

lemma agreeing_frame: "agreeing fs ms \<Longrightarrow> (\<And>t. fs' (slot_path t) = fs (slot_path t)) \<Longrightarrow> agreeing fs' ms"
  by (simp add: agreeing_def store_agrees_def slots_small_def durable_def)

lemma recorded_frame:
  assumes "recorded fs cat segs ms" and "\<And>t. fs' (slot_path t) = fs (slot_path t)"
    and "\<And>p. layout_catalog (cat_name cat) = Inr p \<Longrightarrow> fs' p = fs p"
  shows "recorded fs' cat segs ms"
  using assms agreeing_frame [of fs ms fs'] unfolding recorded_def by auto

lemma slots_small_update: "slots_small fs \<Longrightarrow> length (fst f) < 2 ^ 64 \<Longrightarrow> slots_small (fs(p \<mapsto> f))"
  by (auto simp: slots_small_def)

lemma durable_update: "durable (fs(p \<mapsto> f)) = (durable fs)(p \<mapsto> (snd f, snd f))"
  by (simp add: fun_eq_iff durable_def)

lemma manifest_wf_put:
  assumes "manifest_wf m" and "entry_wf e" and "length (m_collections m) < 2 ^ 64 - 1"
  shows "manifest_wf (m\<lparr>m_collections := put_entry e (m_collections m)\<rparr>)"
  using assms set_put_entry(1) [of e "m_collections m"] length_put_entry [of e "m_collections m"]
  by (auto simp: manifest_wf_def)

lemma payload_count: "length (m_collections m) \<le> length (manifest_payload m)"
proof -
  have "length cs \<le> length (concat (map collection_bytes cs))" for cs
    by (induction cs) (simp_all add: collection_bytes_def)
  from this [of "m_collections m"] show ?thesis by (simp add: manifest_payload_def counted_bytes_def)
qed

lemma agreeing_commit:
  assumes "agreeing fs ms" and "entry_wf entry" and "length (manifest_payload (mst_current ms)) < 2 ^ 62" and "m_sequence (mst_current ms) \<noteq> - 1"
    and "ms' = committed_store ms entry now_ms" and "manifest_encode (mst_current ms') = Inr bs" and "length bs < 2 ^ 64"
    and "\<And>t. fs' (slot_path t) = (fs(slot_path (mst_slot ms') \<mapsto> (bs, bs))) (slot_path t)"
  shows "agreeing fs' ms'" and "entry \<in> set (m_collections (mst_current ms'))"
proof -
  let ?m = "mst_current ms" and ?n = "mst_current ms'"
  let ?fs = "fs(slot_path (slot_other (mst_slot ms)) \<mapsto> (bs, bs))"
  from assms(1) have r: "manifest_wf ?m" "store_agrees fs ms" "store_agrees (durable fs) ms" "slots_small fs" "slots_small (durable fs)"
    by (simp_all add: agreeing_def)
  have n: "?n = mst_next ms (?m\<lparr>m_collections := put_entry entry (m_collections ?m)\<rparr>) now_ms" "mst_slot ms' = slot_other (mst_slot ms)"
    "ms' = \<lparr>mst_current = ?n, mst_slot = slot_other (mst_slot ms)\<rparr>"
    by (simp_all add: assms(5) committed_store_def)
  have wf: "manifest_wf ?n"
    unfolding n(1) using manifest_wf_next manifest_wf_put [OF r(1) assms(2)] r(1) payload_count [of ?m] assms(3) by simp
  have lt: "m_sequence ?m < m_sequence ?n" using sequence_grows [OF assms(4)] by (simp add: n(1) mst_next_def)
  have "store_agrees ?fs ms'"
    using store_agrees_commit [OF r(2) wf assms(6,7) lt, of ?fs "length bs" bs] n(3) by simp
  moreover have "store_agrees (durable ?fs) ms'"
    using store_agrees_commit [OF r(3) wf assms(6,7) lt, of "durable ?fs" "length bs" bs] n(3) by (simp add: durable_update)
  ultimately have "store_agrees fs' ms'" "store_agrees (durable fs') ms'"
    using assms(8) by (simp_all add: store_agrees_def durable_def n(2))
  moreover have "slots_small ?fs" "slots_small (durable ?fs)" using slots_small_update r(4,5) assms(7) by (simp_all add: durable_update)
  then have "slots_small fs'" "slots_small (durable fs')"
    using assms(8) by (simp_all add: slots_small_def durable_def n(2))
  ultimately show "agreeing fs' ms'" using wf assms(6) by (auto simp: agreeing_def manifest_encode_iff)
  show "entry \<in> set (m_collections ?n)" using set_put_entry(2) by (simp add: n(1) mst_next_def)
qed

lemma recorded_commit:
  assumes "recorded fs cat segs ms" and "ce_name entry = cat_name cat" and "ce_segments entry = map segment_reference segs'"
    and "entry_wf entry" and "length (manifest_payload (mst_current ms)) < 2 ^ 62" and "m_sequence (mst_current ms) \<noteq> - 1"
    and "ms' = committed_store ms entry now_ms" and "manifest_encode (mst_current ms') = Inr bs" and "length bs < 2 ^ 64"
    and "\<And>t. fs' (slot_path t) = (fs(slot_path (mst_slot ms') \<mapsto> (bs, bs))) (slot_path t)"
    and "\<And>p. layout_catalog (cat_name cat) = Inr p \<Longrightarrow> fs' p = fs p"
  shows "recorded fs' cat segs' ms'"
proof -
  have "agreeing fs ms" using assms(1) by (simp add: recorded_def)
  note a = agreeing_commit [OF this assms(4-10)]
  have "\<exists>p bs. layout_catalog (cat_name cat) = Inr p \<and> fs' p = Some (bs, bs) \<and> length bs < 2 ^ 64 \<and> catalog_decode bs = Inr cat"
    using assms(1,11) unfolding recorded_def by auto
  with a assms(2,3) show ?thesis by (auto simp: recorded_def)
qed

subsection \<open>The invariant of a run\<close>

definition serving ::
  "('s \<Rightarrow> db_path \<Rightarrow> file_view option) \<Rightarrow> ('s \<Rightarrow> db_path \<Rightarrow> bool) \<Rightarrow> ('s \<Rightarrow> 'h \<Rightarrow> db_path \<Rightarrow> bool) \<Rightarrow> ('h \<Rightarrow> bool)
    \<Rightarrow> ('s, 'h, 'i) engine \<Rightarrow> catalog \<Rightarrow> ('h, 'i, 's) world \<Rightarrow> bool" where
  "serving files dirs stands writable E cat = (\<lambda>(c, d, s). coll_inv files dirs stands writable E cat c s \<and> \<not> ds_closed d
     \<and> dirs s path_root \<and> all_fit cat (coll_abs c) \<and> recorded (files s) cat (cs_segments c) (ds_manifest d)
     \<and> log_len (files s) c < 2 ^ 64)"

text \<open>The configuration, and the bounds under which \<open>n\<close> more rows can be written and flushed.\<close>

definition engine_ok :: "('s, 'h, 'i) engine \<Rightarrow> catalog \<Rightarrow> bool" where
  "engine_ok E cat \<longleftrightarrow> check_collection_name (cat_name cat) = Inr () \<and> check_dimension (cat_dimension cat) = Inr ()
     \<and> norms_finite (fo_fpu (en_floats E))"

definition roomy :: "nat \<Rightarrow> ('h, 'i, 's) world \<Rightarrow> bool" where
  "roomy n = (\<lambda>(c, d, s). length (mt_rows (cs_memtable c)) + n < 2 ^ 22 \<and> length (cs_segments c) < 2 ^ 30
     \<and> cs_next_segment_id c \<noteq> - 1
     \<and> length (manifest_payload (mst_current (ds_manifest d))) < 2 ^ 62 \<and> m_sequence (mst_current (ds_manifest d)) \<noteq> - 1)"

text \<open>The map a world stands for.\<close>

definition world_names :: "('h, 'i, 's) world \<Rightarrow> rust_string list" where
  "world_names w = map ce_name (m_collections (mst_current (ds_manifest (fst (snd w)))))"

definition world_map :: "('h, 'i, 's) world \<Rightarrow> doc_id \<Rightarrow> stored option" where
  "world_map w = coll_abs (fst w)"

lemma name_bytes_ok:
  assumes "check_collection_name name = Inr ()"
  shows "string_ok name"
proof -
  have "is_valid_name_byte b \<Longrightarrow> b < 0x80" for b by (auto simp: is_valid_name_byte_def word_less_nat_alt word_le_nat_alt)
  then have "\<forall>b \<in> set name. b < 0x80"
    using assms by (auto simp: check_collection_name_def Let_def list_all_iff split: if_splits)
  moreover have "length name \<le> 255" using collection_name_plain [OF assms] by (simp add: plain_def)
  ultimately show ?thesis using valid_utf8_ascii by (simp add: string_ok_def blob_ok_def)
qed

text \<open>The ids of the open segments are distinct words.\<close>

lemma segment_count:
  assumes "disk_inv fs cat c"
  shows "length (cs_segments c) < 2 ^ 64"
proof -
  let ?ids = "map unat (map sd_id (cs_segments c))"
  have "distinct ?ids" using disk_inv_distinct [OF assms] by (auto simp: distinct_map inj_on_def dest: unsigned_word_eqI)
  then have "length (cs_segments c) = card (set ?ids)" using distinct_card by fastforce
  also have "\<dots> \<le> card {..<unat (cs_next_segment_id c)}"
    using assms by (intro card_mono) (auto simp: disk_inv_def word_less_nat_alt)
  finally show ?thesis using unat_lt_64 [of "cs_next_segment_id c"] by simp
qed

context storage_contract
begin

lemma serving_log:
  assumes "serving files dirs stands writable E cat (c, d, s)" and "coll_inv files dirs stands writable E cat c' s'"
    and "dirs s' = dirs s" and "cs_segments c' = cs_segments c" and "all_fit cat (coll_abs c')"
    and "\<forall>r. r \<noteq> ww_path (cs_wal c) \<longrightarrow> files s' r = files s r" and "log_len (files s') c' < 2 ^ 64"
  shows "serving files dirs stands writable E cat (c', d, s')"
proof -
  from assms(1) have wp: "wal_file (cat_name cat) 1 = Inr (ww_path (cs_wal c))" and r: "recorded (files s) cat (cs_segments c) (ds_manifest d)"
    by (simp_all add: serving_def coll_inv_def)
  have "slot_path t \<noteq> ww_path (cs_wal c)" for t
    using layout_inject [of "WalFile (cat_name cat) 1" "slot_path t" "ManifestFile t"] wp layout_manifest_eq by auto
  moreover have "p \<noteq> ww_path (cs_wal c)" if "layout_catalog (cat_name cat) = Inr p" for p
    using layout_inject [of "WalFile (cat_name cat) 1" p "CatalogFile (cat_name cat)"] wp that by auto
  ultimately have "recorded (files s') cat (cs_segments c) (ds_manifest d)"
    using assms(6) by (intro recorded_frame [OF r]) simp_all
  with assms show ?thesis by (simp add: serving_def)
qed

lemma do_flush_serving:
  assumes "en_storage E = st" and "engine_ok E cat" and "good s" and "serving files dirs stands writable E cat (c, d, s)" and "roomy 0 (c, d, s)"
  shows "\<exists>c' d' s'. do_flush E cat now_ms (c, d, s) = (Inr (), (c', d', s')) \<and> good s'
     \<and> serving files dirs stands writable E cat (c', d', s') \<and> coll_abs c' = coll_abs c \<and> mt_is_empty (cs_memtable c')
     \<and> world_names (c', d', s') = world_names (c, d, s)"
proof (cases "mt_is_empty (cs_memtable c)")
  case True
  with assms(3,4) show ?thesis by (simp add: do_flush_def Let_def)
next
  case False
  from assms(4) have inv: "coll_inv files dirs stands writable E cat c s" and op: "\<not> ds_closed d" and root: "dirs s path_root"
    and fit: "all_fit cat (coll_abs c)" and rec: "recorded (files s) cat (cs_segments c) (ds_manifest d)" by (simp_all add: serving_def)
  from assms(5) have room: "length (mt_rows (cs_memtable c)) < 2 ^ 22" "length (cs_segments c) < 2 ^ 30" "cs_next_segment_id c \<noteq> - 1"
    "length (manifest_payload (mst_current (ds_manifest d))) < 2 ^ 62" "m_sequence (mst_current (ds_manifest d)) \<noteq> - 1"
    by (simp_all add: roomy_def)
  from assms(2) have env: "check_collection_name (cat_name cat) = Inr ()" "check_dimension (cat_dimension cat) = Inr ()"
    by (simp_all add: engine_ok_def)
  obtain w where w: "flush_rows cat (cs_memtable c) = Inr w" "segment_fits w"
    by (rule coll_flush_fits [OF coll_inv_wf [OF inv] fit room(1) env(2)])
  have mv: "manifest_validate (mst_current (ds_manifest d)) = Inr ()" using rec by (simp add: recorded_def agreeing_def)
  obtain c' d' s' where f: "do_flush E cat now_ms (c, d, s) = (Inr (), (c', d', s'))"
    "\<forall>bs. manifest_encode (mst_current (ds_manifest d')) = Inr bs \<longrightarrow> length bs < 2 ^ 64"
    using do_flush_total [OF assms(1,3) inv env(1) root w room(3) mv room(4,2), of now_ms] by (elim exE conjE)
  have fits: "\<And>w'. flush_rows cat (cs_memtable c) = Inr w' \<Longrightarrow> segment_fits w'" using w by simp
  have short: "\<And>bs. manifest_encode (mst_current (ds_manifest d')) = Inr bs \<Longrightarrow> length bs < 2 ^ 64" using f(2) by blast
  note kept = do_flush_inv [OF assms(1,3) inv False fits room(3) f(1) short]
  obtain entry bs where
    k: "good s'" "coll_inv files dirs stands writable E cat c' s'" "coll_abs c' = coll_abs c" "mt_is_empty (cs_memtable c')"
      "d' = d\<lparr>ds_manifest := committed_store (ds_manifest d) entry now_ms\<rparr>" "ce_name entry = cat_name cat"
      "ce_segments entry = map segment_reference (cs_segments c')" "ce_index_snapshot entry = None"
      "manifest_encode (mst_current (ds_manifest d')) = Inr bs" "files s' (slot_path (mst_slot (ds_manifest d'))) = Some (bs, bs)"
      "\<forall>q. (\<forall>i k. segment_file (cat_name cat) i k \<noteq> Inr q) \<longrightarrow> q \<noteq> ww_path (cs_wal c) \<longrightarrow> q \<noteq> slot_path (mst_slot (ds_manifest d'))
         \<longrightarrow> files s' q = files s q" "\<forall>q. dirs s q \<longrightarrow> dirs s' q"
      "log_len (files s') c' = 0"
    using kept by blast
  have wp: "wal_file (cat_name cat) 1 = Inr (ww_path (cs_wal c))" using inv by (simp add: coll_inv_def)
  have slot: "segment_file (cat_name cat) i k \<noteq> Inr (slot_path t)" "ww_path (cs_wal c) \<noteq> slot_path t" for i k t
    using layout_inject [of "SegFile (cat_name cat) i k" "slot_path t" "ManifestFile t"] layout_manifest_eq [of t]
      layout_inject [of "WalFile (cat_name cat) 1" "slot_path t" "ManifestFile t"] wp by auto
  have catf: "segment_file (cat_name cat) i k \<noteq> Inr p" "p \<noteq> ww_path (cs_wal c)" "p \<noteq> slot_path t"
    if "layout_catalog (cat_name cat) = Inr p" for i k p t
    using layout_inject [of "SegFile (cat_name cat) i k" p "CatalogFile (cat_name cat)"] layout_inject [of "WalFile (cat_name cat) 1" p "CatalogFile (cat_name cat)"]
      layout_inject [of "ManifestFile t" p "CatalogFile (cat_name cat)"] layout_manifest_eq [of t] wp that by auto
  have ew: "entry_wf entry"
    using name_bytes_ok [OF env(1)] k(6-8) segment_count [of "files s'" cat c'] k(2) unfolding coll_inv_def by (simp add: entry_wf_def)
  have "recorded (files s') cat (cs_segments c') (ds_manifest d')"
  proof (rule recorded_commit [OF rec k(6,7) ew room(4,5) _ k(9)])
    show "ds_manifest d' = committed_store (ds_manifest d) entry now_ms" by (simp add: k(5))
    show "length bs < 2 ^ 64" using f(2) k(9) by blast
    show "files s' (slot_path t) = ((files s)(slot_path (mst_slot (ds_manifest d')) \<mapsto> (bs, bs))) (slot_path t)" for t
    proof (cases "t = mst_slot (ds_manifest d')")
      case False
      then have "files s' (slot_path t) = files s (slot_path t)" using k(11) slot(1) slot(2) [symmetric] by simp
      with False show ?thesis by simp
    qed (use k(10) in simp)
    show "files s' p = files s p" if "layout_catalog (cat_name cat) = Inr p" for p using k(11) catf [OF that] by blast
  qed
  moreover have "dirs s' path_root" using k(12) root by blast
  moreover have "cat_name cat \<in> set (map ce_name (m_collections (mst_current (ds_manifest d))))" using rec unfolding recorded_def by force
  then have "world_names (c', d', s') = world_names (c, d, s)"
    using put_entry_names [of entry "m_collections (mst_current (ds_manifest d))"] k(6)
    by (simp add: world_names_def k(5) committed_store_def mst_next_def)
  ultimately show ?thesis using f(1) k(1-5,13) fit op by (simp add: serving_def)
qed

lemma maybe_flush_serving:
  assumes "en_storage E = st" and "engine_ok E cat" and "good s" and "serving files dirs stands writable E cat (c, d, s)" and "roomy 0 (c, d, s)"
  shows "\<exists>c' d' s'. maybe_flush E cat now_ms (c, d, s) = (Inr (), (c', d', s')) \<and> good s'
     \<and> serving files dirs stands writable E cat (c', d', s') \<and> coll_abs c' = coll_abs c \<and> world_names (c', d', s') = world_names (c, d, s)"
proof (cases "mt_byte_size (cs_memtable c) \<ge> dcf_flush_threshold_bytes (en_config E)")
  case True
  with do_flush_serving [OF assms, of now_ms] show ?thesis by (auto simp: maybe_flush_def)
next
  case False
  with assms(3,4) show ?thesis by (simp add: maybe_flush_def)
qed

end

subsection \<open>Requests and their specification\<close>

datatype request = ReqInsert document_input | ReqUpsert document_input | ReqDelete doc_id | ReqBatch write_batch | ReqFlush

datatype response = Done | Outcome upsert_outcome | Existed bool | Report batch_report

definition perform ::
  "('s, 'h, 'i) engine \<Rightarrow> catalog \<Rightarrow> u64 \<Rightarrow> request \<Rightarrow> (('h, 'i, 's) world, response) io" where
  "perform E cat now_ms r =
     (case r of
        ReqInsert doc \<Rightarrow> io_bind (coll_insert E cat now_ms doc) (\<lambda>_. io_ok Done)
      | ReqUpsert doc \<Rightarrow> io_bind (coll_upsert E cat now_ms doc) (\<lambda>x. io_ok (Outcome x))
      | ReqDelete k \<Rightarrow> io_bind (coll_delete E cat now_ms k) (\<lambda>x. io_ok (Existed x))
      | ReqBatch ops \<Rightarrow> io_bind (coll_write_batch E cat now_ms ops) (\<lambda>x. io_ok (Report x))
      | ReqFlush \<Rightarrow> io_bind (coll_flush E cat now_ms) (\<lambda>_. io_ok Done))"

text \<open>What the types of the arguments guarantee, and that the contents of a batch have room.\<close>

definition request_wf :: "catalog \<Rightarrow> request \<Rightarrow> bool" where
  "request_wf cat r =
     (case r of
        ReqInsert doc \<Rightarrow> input_wf doc
      | ReqUpsert doc \<Rightarrow> input_wf doc
      | ReqDelete k \<Rightarrow> id_wf k
      | ReqBatch ops \<Rightarrow> (\<forall>b \<in> set ops. op_wf b)
      | ReqFlush \<Rightarrow> True)"

text \<open>
  A delete whose id is of the collection's kind.  \<open>Collection::delete\<close> does not check it; what a delete of
  another kind of id does to the log is \<open>delete_wrong_kind\<close> of \<open>Collection_Misuse\<close>.
\<close>

definition deletes_own_kind :: "catalog \<Rightarrow> request \<Rightarrow> bool" where
  "deletes_own_kind cat r \<longleftrightarrow> (\<forall>k. r = ReqDelete k \<longrightarrow> id_validate k (cat_id_kind cat) = Inr ())"

definition request_rows :: "request \<Rightarrow> nat" where
  "request_rows r = (case r of ReqBatch ops \<Rightarrow> length ops | ReqInsert _ \<Rightarrow> 1 | ReqUpsert _ \<Rightarrow> 1 | ReqDelete _ \<Rightarrow> 0 | ReqFlush \<Rightarrow> 0)"

definition can_take :: "request \<Rightarrow> ('h, 'i, 's) world \<Rightarrow> bool" where
  "can_take r w \<longleftrightarrow> roomy (request_rows r) w \<and> ww_next_txn (cs_wal (fst w)) \<noteq> - 1 \<and> unat (ww_bytes (cs_wal (fst w))) < 2 ^ 62"

text \<open>
  The specification: a collection is a map, and a request is answered and the map updated without
  a log, a memtable, segments or a manifest.
\<close>

definition spec_step ::
  "('s, 'h, 'i) engine \<Rightarrow> catalog \<Rightarrow> request \<Rightarrow> (doc_id \<Rightarrow> stored option) \<Rightarrow> response db_result \<times> (doc_id \<Rightarrow> stored option)" where
  "spec_step E cat r a =
     (let F = fo_fpu (en_floats E); ro = dcf_read_only (en_config E);
          refuse = (\<lambda>e. (Inl e, a)); read_only = (\<lambda>op. refuse (Lifecycle (ReadOnly op))) in
      case r of
        ReqInsert doc \<Rightarrow>
          if ro then read_only ''insert''
          else (case coll_validate cat doc of
            Inl e \<Rightarrow> refuse e
          | Inr _ \<Rightarrow>
              if a (di_id doc) \<noteq> None then refuse (Conflict (DuplicateId (cat_name cat) (id_display (di_id doc))))
              else (Inr Done, a(di_id doc \<mapsto> stored_of F doc)))
      | ReqUpsert doc \<Rightarrow>
          if ro then read_only ''upsert''
          else (case coll_validate cat doc of
            Inl e \<Rightarrow> refuse e
          | Inr _ \<Rightarrow> (Inr (Outcome (if a (di_id doc) = None then Inserted else Updated)), a(di_id doc \<mapsto> stored_of F doc)))
      | ReqDelete k \<Rightarrow>
          if ro then read_only ''delete'' else (Inr (Existed (a k \<noteq> None)), a(k := None))
      | ReqBatch ops \<Rightarrow>
          if ro then read_only ''write a batch''
          else (case wb_validate ops of
            Inl e \<Rightarrow> refuse e
          | Inr _ \<Rightarrow> (case validate_ops cat ops of
              Inl e \<Rightarrow> refuse e
            | Inr _ \<Rightarrow> (Inr (Report (batch_counts a ops)), fold (op_effect F (cat_dimension cat)) ops a)))
      | ReqFlush \<Rightarrow> (Inr Done, a))"

lemma io_bind_ok: "io_bind m io_ok = m"
  by (auto simp: fun_eq_iff io_bind_def io_ok_def split: sum.split prod.split)

lemma batch_counts_Nil: "batch_counts a [] = br_default"
  by (simp add: batch_counts_def br_default_def)

context storage_contract
begin

text \<open>A step that logged \<open>m\<close> and buffered it, and then looks at the flush threshold.\<close>

lemma flush_after:
  assumes "en_storage E = st" and "engine_ok E cat" and "good s1" and "serving files dirs stands writable E cat (c1, d, s1)"
    and "roomy 0 (c1, d, s1)" and "m w = io_bind (maybe_flush E cat now_ms) (\<lambda>_. io_ok x) (c1, d, s1)"
  shows "\<exists>w'. io_bind m (\<lambda>x. io_ok (g x)) w = (Inr (g x), w') \<and> good (snd (snd w'))
     \<and> serving files dirs stands writable E cat w' \<and> world_map w' = coll_abs c1 \<and> world_names w' = world_names (c1, d, s1)"
proof -
  from maybe_flush_serving [OF assms(1-5), of now_ms] obtain c2 d2 s2 where
    f: "maybe_flush E cat now_ms (c1, d, s1) = (Inr (), (c2, d2, s2))" "good s2"
      "serving files dirs stands writable E cat (c2, d2, s2)" "coll_abs c2 = coll_abs c1"
      "world_names (c2, d2, s2) = world_names (c1, d, s1)" by (elim exE conjE)
  then have "m w = (Inr x, (c2, d2, s2))" using assms(6) by simp
  then show ?thesis using f(2-5) by (intro exI [of _ "(c2, d2, s2)"]) (simp add: world_map_def)
qed

lemma roomy_less:
  assumes "roomy n (c, d, s)" and "length (mt_rows (cs_memtable c1)) \<le> length (mt_rows (cs_memtable c)) + n"
    and "cs_segments c1 = cs_segments c" and "cs_next_segment_id c1 = cs_next_segment_id c"
  shows "roomy 0 (c1, d, s1)"
  using assms by (simp add: roomy_def)

lemma perform_refines:
  assumes "en_storage E = st" and "engine_ok E cat" and "good (snd (snd w))" and "serving files dirs stands writable E cat w"
    and "can_take r w" and "request_wf cat r" and "deletes_own_kind cat r"
  shows "\<exists>w'. perform E cat now_ms r w = (fst (spec_step E cat r (world_map w)), w') \<and> good (snd (snd w'))
     \<and> serving files dirs stands writable E cat w' \<and> world_map w' = snd (spec_step E cat r (world_map w)) \<and> world_names w' = world_names w"
proof -
  obtain c d s where w: "w = (c, d, s)" by (cases w)
  let ?F = "fo_fpu (en_floats E)"
  from assms(3,4) have g: "good s" and inv: "coll_inv files dirs stands writable E cat c s" and op: "\<not> ds_closed d"
    and fit: "all_fit cat (coll_abs c)" and srv: "serving files dirs stands writable E cat (c, d, s)" by (simp_all add: w serving_def)
  from assms(5) have room: "roomy (request_rows r) (c, d, s)" and txn: "ww_next_txn (cs_wal c) \<noteq> - 1" by (simp_all add: w can_take_def)
  from inv obtain fs dd where "wal_holds files stands writable (cs_wal c) s fs dd" unfolding coll_inv_def by blast
  then have "log_len (files s) c = length (log_bytes fs)" "ww_bytes (cs_wal c) = u64_of (length (log_bytes fs))"
    by (simp_all add: wal_holds_def log_len_def)
  with assms(5) srv have ll: "log_len (files s) c < 2 ^ 62" by (simp add: w can_take_def serving_def unat_u64_of)
  from assms(2) have dim: "unat (cat_dimension cat) \<le> 65536" and nf: "norms_finite ?F"
    by (auto simp: engine_ok_def check_dimension_def MAX_DIMENSION_def word_less_nat_alt split: if_splits)
  have co: "io_snd check_open (c, d, s) = (Inr (), (c, d, s))" using op by (simp add: check_open_def io_snd_def)
  have ro: "io_snd (check_writable E what) (c, d, s) = (if dcf_read_only (en_config E) then Inl (Lifecycle (ReadOnly what)) else Inr (), (c, d, s))" for what
    using op by (simp add: check_writable_def check_open_def io_snd_def)
  have stay: "\<exists>w'. (fst (Inl e, coll_abs c), w) = (fst (spec_step E cat r (world_map w)), w') \<and> good (snd (snd w'))
     \<and> serving files dirs stands writable E cat w' \<and> world_map w' = snd (spec_step E cat r (world_map w)) \<and> world_names w' = world_names w"
    if "spec_step E cat r (coll_abs c) = (Inl e, coll_abs c)" for e
    using that assms(3,4) by (intro exI [of _ w]) (simp add: w world_map_def)
  show ?thesis
  proof (cases r)
    case (ReqUpsert doc)
    show ?thesis
    proof (cases "dcf_read_only (en_config E) \<or> coll_validate cat doc \<noteq> Inr ()")
      case True
      then obtain e where "spec_step E cat r (coll_abs c) = (Inl e, coll_abs c)" "perform E cat now_ms r w = (Inl e, w)"
        using ro by (cases "dcf_read_only (en_config E)"; cases "coll_validate cat doc") (auto simp: ReqUpsert w spec_step_def perform_def coll_upsert_def Let_def)
      with stay show ?thesis by simp
    next
      case False
      then have v: "\<not> dcf_read_only (en_config E)" "coll_validate cat doc = Inr ()" by auto
      have iw: "input_wf doc" using assms(6) by (simp add: ReqUpsert request_wf_def)
      have rows: "length (mt_rows (cs_memtable c)) < 2 ^ 32" using room by (simp add: roomy_def)
      obtain c1 s1 where u: "good s1" "dirs s1 = dirs s" "coll_inv files dirs stands writable E cat c1 s1"
        "coll_abs c1 = (coll_abs c)(di_id doc \<mapsto> stored_of ?F doc)"
        "coll_upsert E cat now_ms doc (c, d, s)
          = io_bind (maybe_flush E cat now_ms) (\<lambda>_. io_ok (if coll_abs c (di_id doc) = None then Inserted else Updated)) (c1, d, s1)"
        "coll_insert E cat now_ms doc (c, d, s) = (if coll_abs c (di_id doc) = None then maybe_flush E cat now_ms (c1, d, s1)
           else (Inl (Conflict (DuplicateId (cat_name cat) (id_display (di_id doc)))), (c, d, s)))"
        "cs_next_segment_id c1 = cs_next_segment_id c" "cs_segments c1 = cs_segments c"
        "\<forall>r. r \<noteq> ww_path (cs_wal c) \<longrightarrow> files s1 r = files s r" "length (mt_rows (cs_memtable c1)) \<le> Suc (length (mt_rows (cs_memtable c)))"
        "log_len (files s1) c1 \<le> log_len (files s) c + 2 ^ 27"
        by (rule upsert_steps [OF assms(1) g inv op v(1) iw v(2) dim rows, of now_ms])
      have "all_fit cat (coll_abs c1)" unfolding u(4) by (rule all_fit_put [OF fit stored_fits [OF iw coll_validate_fits [OF v(2)] nf]])
      note af = this
        have "log_len (files s1) c1 < 2 ^ 64" using u(11) ll by simp
        note sv = serving_log [OF srv u(3,2,8) af u(9) this]
      have "roomy 0 (c1, d, s1)" by (rule roomy_less [OF room _ u(8,7)]) (use u(10) in \<open>simp add: ReqUpsert request_rows_def\<close>)
      from flush_after [where m = "coll_upsert E cat now_ms doc" and w = "(c, d, s)" and g = "Outcome", OF assms(1,2) u(1) sv this u(5)] u(4) v show ?thesis
        by (simp add: ReqUpsert w perform_def spec_step_def world_map_def world_names_def Let_def)
    qed
  next
    case (ReqInsert doc)
    show ?thesis
    proof (cases "dcf_read_only (en_config E) \<or> coll_validate cat doc \<noteq> Inr ()")
      case True
      then obtain e where "spec_step E cat r (coll_abs c) = (Inl e, coll_abs c)" "perform E cat now_ms r w = (Inl e, w)"
        using ro by (cases "dcf_read_only (en_config E)"; cases "coll_validate cat doc") (auto simp: ReqInsert w spec_step_def perform_def coll_insert_def Let_def)
      with stay show ?thesis by simp
    next
      case False
      then have v: "\<not> dcf_read_only (en_config E)" "coll_validate cat doc = Inr ()" by auto
      have iw: "input_wf doc" using assms(6) by (simp add: ReqInsert request_wf_def)
      have rows: "length (mt_rows (cs_memtable c)) < 2 ^ 32" using room by (simp add: roomy_def)
      obtain c1 s1 where u: "good s1" "dirs s1 = dirs s" "coll_inv files dirs stands writable E cat c1 s1"
        "coll_abs c1 = (coll_abs c)(di_id doc \<mapsto> stored_of ?F doc)"
        "coll_upsert E cat now_ms doc (c, d, s)
          = io_bind (maybe_flush E cat now_ms) (\<lambda>_. io_ok (if coll_abs c (di_id doc) = None then Inserted else Updated)) (c1, d, s1)"
        "coll_insert E cat now_ms doc (c, d, s) = (if coll_abs c (di_id doc) = None then maybe_flush E cat now_ms (c1, d, s1)
           else (Inl (Conflict (DuplicateId (cat_name cat) (id_display (di_id doc)))), (c, d, s)))"
        "cs_next_segment_id c1 = cs_next_segment_id c" "cs_segments c1 = cs_segments c"
        "\<forall>r. r \<noteq> ww_path (cs_wal c) \<longrightarrow> files s1 r = files s r" "length (mt_rows (cs_memtable c1)) \<le> Suc (length (mt_rows (cs_memtable c)))"
        "log_len (files s1) c1 \<le> log_len (files s) c + 2 ^ 27"
        by (rule upsert_steps [OF assms(1) g inv op v(1) iw v(2) dim rows, of now_ms])
      show ?thesis
      proof (cases "coll_abs c (di_id doc) = None")
        case False
        then obtain e where "spec_step E cat r (coll_abs c) = (Inl e, coll_abs c)" "perform E cat now_ms r w = (Inl e, w)"
          using v u(6) by (simp add: ReqInsert w spec_step_def perform_def Let_def)
        with stay show ?thesis by simp
      next
        case True
        have "all_fit cat (coll_abs c1)" unfolding u(4) by (rule all_fit_put [OF fit stored_fits [OF iw coll_validate_fits [OF v(2)] nf]])
        note af = this
        have "log_len (files s1) c1 < 2 ^ 64" using u(11) ll by simp
        note sv = serving_log [OF srv u(3,2,8) af u(9) this]
        have rm: "roomy 0 (c1, d, s1)" by (rule roomy_less [OF room _ u(8,7)]) (use u(10) in \<open>simp add: ReqInsert request_rows_def\<close>)
        have "coll_insert E cat now_ms doc (c, d, s) = io_bind (maybe_flush E cat now_ms) (\<lambda>_. io_ok ()) (c1, d, s1)"
          using True u(6) by (simp add: io_bind_ok)
        from flush_after [where m = "coll_insert E cat now_ms doc" and w = "(c, d, s)" and g = "\<lambda>_. Done", OF assms(1,2) u(1) sv rm this] u(4) v True show ?thesis
          by (simp add: ReqInsert w perform_def spec_step_def world_map_def world_names_def Let_def)
      qed
    qed
  next
    case (ReqDelete k)
    show ?thesis
    proof (cases "dcf_read_only (en_config E)")
      case True
      then have "spec_step E cat r (coll_abs c) = (Inl (Lifecycle (ReadOnly ''delete'')), coll_abs c)"
        "perform E cat now_ms r w = (Inl (Lifecycle (ReadOnly ''delete'')), w)"
        using ro by (simp_all add: ReqDelete w spec_step_def perform_def coll_delete_def Let_def)
      with stay show ?thesis by simp
    next
      case False
      have k: "id_wf k" "id_validate k (cat_id_kind cat) = Inr ()" using assms(6,7) by (simp_all add: ReqDelete request_wf_def deletes_own_kind_def)
      obtain c1 s1 where u: "good s1" "dirs s1 = dirs s" "coll_inv files dirs stands writable E cat c1 s1"
        "coll_abs c1 = (coll_abs c)(k := None)"
        "coll_delete E cat now_ms k (c, d, s) = io_bind (maybe_flush E cat now_ms) (\<lambda>_. io_ok (coll_abs c k \<noteq> None)) (c1, d, s1)"
        "cs_next_segment_id c1 = cs_next_segment_id c" "cs_segments c1 = cs_segments c"
        "\<forall>r. r \<noteq> ww_path (cs_wal c) \<longrightarrow> files s1 r = files s r" "mt_rows (cs_memtable c1) = mt_rows (cs_memtable c)"
        "log_len (files s1) c1 \<le> log_len (files s) c + 2 ^ 27"
        by (rule delete_steps [OF assms(1) g inv op False k, of now_ms])
      have "all_fit cat (coll_abs c1)" unfolding u(4) by (rule all_fit_remove [OF fit])
      note af = this
        have "log_len (files s1) c1 < 2 ^ 64" using u(10) ll by simp
        note sv = serving_log [OF srv u(3,2,7) af u(8) this]
      have rm: "roomy 0 (c1, d, s1)" by (rule roomy_less [OF room _ u(7,6)]) (use u(9) in \<open>simp add: ReqDelete request_rows_def\<close>)
      from flush_after [where m = "coll_delete E cat now_ms k" and w = "(c, d, s)" and g = "Existed", OF assms(1,2) u(1) sv rm u(5)] u(4) False show ?thesis
        by (simp add: ReqDelete w perform_def spec_step_def world_map_def world_names_def Let_def)
    qed
  next
    case (ReqBatch ops)
    have ow: "\<forall>b \<in> set ops. op_wf b" using assms(6) by (simp add: ReqBatch request_wf_def)
    show ?thesis
    proof (cases "dcf_read_only (en_config E) \<or> wb_validate ops \<noteq> Inr () \<or> validate_ops cat ops \<noteq> Inr () \<or> ops = []")
      case True
      show ?thesis
      proof (cases "\<not> dcf_read_only (en_config E) \<and> wb_validate ops = Inr () \<and> ops = []")
        case True
        then have e: "wb_validate [] = Inr ()" "validate_ops cat [] = Inr ()" "ops = []" "\<not> dcf_read_only (en_config E)"
          by (auto simp: validate_ops_def)
        then have "spec_step E cat r (coll_abs c) = (Inr (Report br_default), coll_abs c)" "perform E cat now_ms r w = (Inr (Report br_default), w)"
          using ro by (simp_all add: ReqBatch w spec_step_def perform_def coll_write_batch_def Let_def batch_counts_Nil)
        with assms(3,4) show ?thesis by (intro exI [of _ w]) (simp add: w world_map_def)
      next
        case False
        with True obtain e where "spec_step E cat r (coll_abs c) = (Inl e, coll_abs c)" "perform E cat now_ms r w = (Inl e, w)"
          using ro by (cases "dcf_read_only (en_config E)"; cases "wb_validate ops"; cases "validate_ops cat ops")
            (auto simp: ReqBatch w spec_step_def perform_def coll_write_batch_def Let_def)
        with stay show ?thesis by simp
      qed
    next
      case False
      then have v: "\<not> dcf_read_only (en_config E)" "wb_validate ops = Inr ()" "validate_ops cat ops = Inr ()" "ops \<noteq> []" by auto
      have rows: "length (mt_rows (cs_memtable c)) + length ops \<le> 2 ^ 32" using room by (simp add: roomy_def ReqBatch request_rows_def)
      obtain c1 s1 where u: "good s1" "dirs s1 = dirs s" "coll_inv files dirs stands writable E cat c1 s1"
        "coll_abs c1 = fold (op_effect ?F (cat_dimension cat)) ops (coll_abs c)"
        "coll_write_batch E cat now_ms ops (c, d, s) = io_bind (maybe_flush E cat now_ms) (\<lambda>_. io_ok (batch_counts (coll_abs c) ops)) (c1, d, s1)"
        "\<forall>r. r \<noteq> ww_path (cs_wal c) \<longrightarrow> files s1 r = files s r"
        "cs_next_segment_id c1 = cs_next_segment_id c" "cs_segments c1 = cs_segments c"
        "length (mt_rows (cs_memtable c1)) \<le> length (mt_rows (cs_memtable c)) + length ops"
        "log_len (files s1) c1 \<le> log_len (files s) c + Suc (length ops) * 2 ^ 27"
        by (rule batch_steps [OF assms(1) g inv op v(1,4,2,3) ow dim rows txn, of now_ms])
      have "all_fit cat (coll_abs c1)" unfolding u(4) by (rule ops_fit [OF _ nf fit]) (use ow v(3) in \<open>simp add: validate_ops_iff\<close>)
      note af = this
      have "Suc (length ops) \<le> 2 ^ 22" using room by (simp add: roomy_def ReqBatch request_rows_def)
      then have "Suc (length ops) * 2 ^ 27 \<le> 2 ^ 49" by simp
      then have "log_len (files s1) c1 < 2 ^ 64" using u(10) ll by simp
      note sv = serving_log [OF srv u(3,2,8) af u(6) this]
      have rm: "roomy 0 (c1, d, s1)" by (rule roomy_less [OF room _ u(8,7)]) (use u(9) in \<open>simp add: ReqBatch request_rows_def\<close>)
      from flush_after [where m = "coll_write_batch E cat now_ms ops" and w = "(c, d, s)" and g = "Report", OF assms(1,2) u(1) sv rm u(5)] u(4) v show ?thesis
        by (simp add: ReqBatch w perform_def spec_step_def world_map_def world_names_def Let_def)
    qed
  next
    case ReqFlush
    have rm: "roomy 0 (c, d, s)" using room by (simp add: ReqFlush request_rows_def)
    show ?thesis
    proof (cases "dcf_read_only (en_config E)")
      case True
      with assms(3,4) co show ?thesis
        by (intro exI [of _ w]) (simp add: ReqFlush w perform_def spec_step_def coll_flush_def world_map_def world_names_def Let_def)
    next
      case False
      from do_flush_serving [OF assms(1,2) g srv rm, of now_ms] co False show ?thesis
        by (auto simp: ReqFlush w perform_def spec_step_def coll_flush_def world_map_def world_names_def Let_def)
    qed
  qed
qed

end

end
