(* ===== verification/Collection_Survival.thy ===== *)
theory Collection_Survival
  imports Collection_Run
begin

text \<open>
  Whole runs of a collection, and what an open after the run finds: a sequence of requests is answered as
  the specification says, and a later open, after a close or after a power cut, recovers the map the
  specification computes.
\<close>

subsection \<open>Runs\<close>

text \<open>
  One after another, the requests the collection can take, at any clock readings; their responses are collected.
\<close>

inductive served ::
  "('s, 'h, 'i) engine \<Rightarrow> catalog \<Rightarrow> ('h, 'i, 's) world \<Rightarrow> request list \<Rightarrow> response db_result list \<Rightarrow> ('h, 'i, 's) world \<Rightarrow> bool"
  for E cat w where
  served_none: "served E cat w [] [] w"
| served_one: "served E cat w rs as w1 \<Longrightarrow> can_take r w1 \<Longrightarrow> request_wf cat r \<Longrightarrow> perform E cat now_ms r w1 = (a, w2)
    \<Longrightarrow> served E cat w (rs @ [r]) (as @ [a]) w2"

inductive_cases served_snocE: "served E cat w (rs @ [r]) as w2"

definition spec_map ::
  "('s, 'h, 'i) engine \<Rightarrow> catalog \<Rightarrow> request list \<Rightarrow> (doc_id \<Rightarrow> stored option) \<Rightarrow> doc_id \<Rightarrow> stored option" where
  "spec_map E cat rs = fold (\<lambda>r a. snd (spec_step E cat r a)) rs"

primrec spec_answers ::
  "('s, 'h, 'i) engine \<Rightarrow> catalog \<Rightarrow> request list \<Rightarrow> (doc_id \<Rightarrow> stored option) \<Rightarrow> response db_result list" where
  "spec_answers E cat [] a = []"
| "spec_answers E cat (r # rs) a = fst (spec_step E cat r a) # spec_answers E cat rs (snd (spec_step E cat r a))"

lemma spec_answers_append: "spec_answers E cat (rs @ qs) a = spec_answers E cat rs a @ spec_answers E cat qs (spec_map E cat rs a)"
  by (induction rs arbitrary: a) (simp_all add: spec_map_def)

lemma spec_map_snoc: "spec_map E cat (rs @ [r]) a = snd (spec_step E cat r (spec_map E cat rs a))"
  by (simp add: spec_map_def)

subsection \<open>Power cuts\<close>

lemma durable_idem: "durable (durable fs) = durable fs"
  by (simp add: fun_eq_iff durable_def option.map_comp comp_def)

lemma recorded_durable: "recorded fs cat segs ms \<Longrightarrow> recorded (durable fs) cat segs ms"
  by (auto simp: recorded_def agreeing_def durable_idem) (auto simp: durable_def)

context storage_contract
begin

lemma served_invariant:
  assumes "served E cat w rs as w'" and "en_storage E = st" and "engine_ok E cat" and "good (snd (snd w))"
    and "serving files dirs stands writable E cat w" and "\<forall>r \<in> set rs. deletes_own_kind cat r"
  shows "good (snd (snd w')) \<and> serving files dirs stands writable E cat w' \<and> world_map w' = spec_map E cat rs (world_map w)
     \<and> as = spec_answers E cat rs (world_map w) \<and> world_names w' = world_names w"
  using assms(1,6)
proof (induction rule: served.induct)
  case served_none
  then show ?case using assms(4,5) by (simp add: spec_map_def)
next
  case (served_one rs as w1 r now_ms a w2)
  then have IH: "good (snd (snd w1))" "serving files dirs stands writable E cat w1" "world_map w1 = spec_map E cat rs (world_map w)"
    "as = spec_answers E cat rs (world_map w)" "world_names w1 = world_names w" by auto
  have own: "deletes_own_kind cat r" using served_one.prems by simp
  from perform_refines [OF assms(2,3) IH(1,2) served_one.hyps(2,3) own, of now_ms] served_one.hyps(4) IH(3-5) show ?case
    by (auto simp: spec_map_snoc spec_answers_append)
qed

lemma read_catalog_file:
  assumes "good s" and "layout_catalog name = Inr p" and "files s p = Some (bs, d)" and "length bs < 2 ^ 64" and "catalog_decode bs = Inr cat"
  shows "read_catalog st name s = (Inr cat, s)"
proof -
  from read_whole [OF assms(1,3)] assms(4) obtain h where
    "st_metadata st p s = (Inr (Some \<lparr>fm_len = u64_of (length bs), fm_kind = EntryFile\<rparr>), s)"
    "st_open_file st p OpenRead s = (Inr h, s)" "f_read_at st h (unat (u64_of (length bs))) 0 s = (Inr bs, s)" by auto
  then have "read_file st p s = (Inr (Some bs), s)" by (simp add: read_file_def)
  with assms(2,5) show ?thesis by (simp add: read_catalog_def ok_or_def)
qed

text \<open>After a close or, under \<open>Full\<close>, a power cut.\<close>

lemma serving_reopens:
  assumes "en_storage E = st" and "engine_ok E cat" and "good s" and "serving files dirs stands writable E cat (c, d, s)"
    and "t = s \<or> t = crash s \<and> dcf_durability (en_config E) = Full"
  shows "good t" and "mst_load st t = (Inr (Some (ds_manifest d)), t)" and "read_catalog st (cat_name cat) t = (Inr cat, t)"
    and "\<exists>entry \<in> set (m_collections (mst_current (ds_manifest d))). ce_name entry = cat_name cat
       \<and> (\<exists>c' t'. coll_open E cat entry t = (Inr \<lparr>ci_catalog = cat, ci_state = c'\<rparr>, t') \<and> good t' \<and> coll_abs c' = coll_abs c
            \<and> serving files dirs stands writable E cat (c', d\<lparr>ds_index := ix\<rparr>, t'))"
proof -
  from assms(4) have inv: "coll_inv files dirs stands writable E cat c s" and op: "\<not> ds_closed d" and root: "dirs s path_root"
    and fit: "all_fit cat (coll_abs c)" and rec: "recorded (files s) cat (cs_segments c) (ds_manifest d)" by (simp_all add: serving_def)
  show g: "good t" using assms(3,5) crash_law by auto
  have dt: "dirs t = dirs s" using assms(5) crash_law [OF assms(3)] by auto
  have ft: "files t = files s \<or> files t = durable (files s)" using assms(5) crash_law [OF assms(3)] by (auto simp: durable_def)
  then have rt: "recorded (files t) cat (cs_segments c) (ds_manifest d)" using rec recorded_durable by auto
  have sl: "\<forall>k. \<not> dirs t (slot_path k)" using inv unfolding dt coll_inv_def paths_clear_def by blast
  have ag: "store_agrees (files t) (ds_manifest d)" "slots_small (files t)" using rt by (simp_all add: recorded_def agreeing_def)
  show "mst_load st t = (Inr (Some (ds_manifest d)), t)" using load_agrees [OF g ag(2) sl] ag(1) by simp
  from rt obtain p bs where "layout_catalog (cat_name cat) = Inr p" "files t p = Some (bs, bs)" "length bs < 2 ^ 64" "catalog_decode bs = Inr cat"
    unfolding recorded_def by blast
  from read_catalog_file [OF g this] show "read_catalog st (cat_name cat) t = (Inr cat, t)" .
  from rt obtain entry where e: "entry \<in> set (m_collections (mst_current (ds_manifest d)))" "ce_name entry = cat_name cat"
    "ce_segments entry = map segment_reference (cs_segments c)" unfolding recorded_def by blast
  from assms(2) have name: "check_collection_name (cat_name cat) = Inr ()" by (simp add: engine_ok_def)
  have lls: "log_len (files s) c < 2 ^ 64" using assms(4) by (simp add: serving_def)
  then have short: "\<forall>l x. files s (ww_path (cs_wal c)) = Some (l, x) \<longrightarrow> length l < 2 ^ 64" by (auto simp: log_len_def)
  obtain c' t' where o: "coll_open E cat entry t = (Inr \<lparr>ci_catalog = cat, ci_state = c'\<rparr>, t')" "good t'"
    "coll_inv files dirs stands writable E cat c' t'" "coll_abs c' = coll_abs c" "cs_segments c' = cs_segments c" "dirs t' = dirs t"
    "\<forall>q. (\<forall>i k. segment_file (cat_name cat) i k \<noteq> Inr q) \<longrightarrow> files t' q = files t q"
    using coll_reopen [OF assms(1,3) name inv short e(3) assms(5)] by (elim exE conjE)
  have "segment_file (cat_name cat) i j \<noteq> Inr (slot_path k)" for i j k
    using layout_inject [of "SegFile (cat_name cat) i j" "slot_path k" "ManifestFile k"] layout_manifest_eq [of k] by auto
  with o(7) have "files t' (slot_path k) = files t (slot_path k)" for k by blast
  moreover have "files t' p = files t p" if p: "layout_catalog (cat_name cat) = Inr p" for p
  proof -
    have "segment_file (cat_name cat) i j \<noteq> Inr p" for i j
      using layout_inject [of "SegFile (cat_name cat) i j" p "CatalogFile (cat_name cat)"] p by auto
    with o(7) show ?thesis by blast
  qed
  ultimately have rec': "recorded (files t') cat (cs_segments c') (ds_manifest d)" using recorded_frame [OF rt] o(5) by simp
  from inv obtain fs x where h: "wal_holds files stands writable (cs_wal c) s fs x" "dcf_durability (en_config E) = Full \<longrightarrow> x = log_bytes fs"
    and wp: "wal_file (cat_name cat) 1 = Inr (ww_path (cs_wal c))" unfolding coll_inv_def by blast
  have wp': "ww_path (cs_wal c') = ww_path (cs_wal c)" using o(3) wp by (simp add: coll_inv_def)
  have "segment_file (cat_name cat) i j \<noteq> Inr (ww_path (cs_wal c))" for i j
    using layout_inject [of "SegFile (cat_name cat) i j" "ww_path (cs_wal c)" "WalFile (cat_name cat) 1"] wp by auto
  with o(7) have "files t' (ww_path (cs_wal c)) = files t (ww_path (cs_wal c))" by blast
  moreover have "log_len (files t) c = log_len (files s) c"
    using assms(5) h crash_law [OF assms(3)] by (auto simp: log_len_def wal_holds_def)
  ultimately have llt: "log_len (files t') c' < 2 ^ 64" using lls by (simp add: log_len_def wp')
  from rec' have "serving files dirs stands writable E cat (c', d\<lparr>ds_index := ix\<rparr>, t')"
    using o(3,4,6) op root fit dt llt by (simp add: serving_def)
  with o(1,2,4) e(1,2) show "\<exists>entry \<in> set (m_collections (mst_current (ds_manifest d))). ce_name entry = cat_name cat
       \<and> (\<exists>c' t'. coll_open E cat entry t = (Inr \<lparr>ci_catalog = cat, ci_state = c'\<rparr>, t') \<and> good t' \<and> coll_abs c' = coll_abs c
            \<and> serving files dirs stands writable E cat (c', d\<lparr>ds_index := ix\<rparr>, t'))" by blast
qed

end

end
