(* ===== verification/Database.thy ===== *)
theory Database
  imports Collection_Admin
begin

text \<open>
  The database handle (\<open>core/src/api/database.rs\<close>): opening and creating a database, its
  registry of collections, and the operations over all of them.  A handle to a collection is its
  name in the registry; the registry lists the collections in the order the hash map yields them.
\<close>

subsection \<open>The handle\<close>

record 'h db_handle =
  db_collections :: "(rust_string \<times> 'h coll_inner) list"
  db_lock :: "file_lock option"

type_synonym ('h, 'i, 's) db_world = "'h db_handle \<times> 'i db_shared \<times> 's"

definition new_uuid :: "u64 \<Rightarrow> u64 \<Rightarrow> bytes" where
  "new_uuid now_ms seq =
     (let mixed = word_rotl 31 (now_ms * 0x9E3779B97F4A7C15) + seq * 0xBF58476D1CE4E5B9 in
      to_le 8 now_ms @ to_le 8 mixed)"

text \<open>Run an operation on a collection of the registry, as \<open>open_collection\<close> finds it.\<close>

definition on_collection ::
  "rust_string \<Rightarrow> (catalog \<Rightarrow> (('h, 'i, 's) world, 'a) io) \<Rightarrow> (('h, 'i, 's) db_world, 'a) io" where
  "on_collection name f =
     io_bind (io_snd check_open) (\<lambda>_ (h, d, s).
     case map_of (db_collections h) name of
       None \<Rightarrow> (Inl (NotFound (CollectionNotFound name)), (h, d, s))
     | Some coll \<Rightarrow> (case f (ci_catalog coll) (ci_state coll, d, s) of
         (r, (c, d, s)) \<Rightarrow>
           (r, (h\<lparr>db_collections := AList.update name (coll\<lparr>ci_state := c\<rparr>) (db_collections h)\<rparr>, d, s))))"

definition db_open_collection :: "rust_string \<Rightarrow> (('h, 'i, 's) db_world, catalog) io" where
  "db_open_collection name = on_collection name (\<lambda>cat. io_ok cat)"

subsection \<open>Open and close\<close>

text \<open>The lock is released when a later step of \<open>open\<close> fails.\<close>

definition holding_lock :: "('s, 'h) storage \<Rightarrow> file_lock option \<Rightarrow> ('s, 'a) io \<Rightarrow> ('s, 'a) io" where
  "holding_lock st lock m = (\<lambda>s. case m s of
     (Inl e, s') \<Rightarrow> (Inl e, (case lock of Some l \<Rightarrow> st_unlock st l s' | None \<Rightarrow> s'))
   | (Inr a, s') \<Rightarrow> (Inr a, s'))"

definition acquire_lock :: "('s, 'h, 'i) engine \<Rightarrow> ('s, file_lock option) io" where
  "acquire_lock E =
     (let st = en_storage E in
      if dcf_read_only (en_config E) \<or> \<not> cap_file_locking (st_capabilities st) then io_ok None
      else
        io_bind (io_of layout_lock) (\<lambda>path.
        io_bind (io_catch (st_try_lock st path)) (\<lambda>r.
        case r of
          Inr l \<Rightarrow> io_ok (Some l)
        | Inl e \<Rightarrow> io_err (Lifecycle (DatabaseAlreadyOpen (st_describe st) (Some (en_display E e)))))))"

definition load_or_create :: "('s, 'h, 'i) engine \<Rightarrow> u64 \<Rightarrow> u64 \<Rightarrow> u64 \<Rightarrow> ('s, manifest_store) io" where
  "load_or_create E seq uuid_ms now_ms =
     (let st = en_storage E in
      io_bind (mst_load st) (\<lambda>loaded.
      case loaded of
        Some store \<Rightarrow> io_ok store
      | None \<Rightarrow>
          if \<not> dcf_create_if_missing (en_config E) then io_err (Lifecycle (DatabaseNotFound (st_describe st)))
          else
            io_bind (io_of collections_dir) (\<lambda>collections.
            io_bind (st_exists st collections) (\<lambda>there.
            io_bind (if there then io_bind (st_list_dir st collections) (\<lambda>es. io_ok (es \<noteq> [])) else io_ok False) (\<lambda>populated.
            if populated
            then io_bind (mst_scan st) (\<lambda>sc.
                 io_err (Corruption (NoValidManifest collections (slot_describe (ss_a sc)) (slot_describe (ss_b sc)))))
            else
              io_bind (st_create_dir_all st collections) (\<lambda>_.
              mst_create st (new_uuid uuid_ms seq) now_ms))))))"

definition open_collections ::
  "('s, 'h, 'i) engine \<Rightarrow> collection_entry list \<Rightarrow> ('s, (rust_string \<times> 'h coll_inner) list) io" where
  "open_collections E entries = io_fold (\<lambda>entry colls.
     io_bind (read_catalog (en_storage E) (ce_name entry)) (\<lambda>cat.
     io_bind (coll_open E cat entry) (\<lambda>coll.
     io_ok (AList.update (ce_name entry) coll colls)))) entries []"

text \<open>
  \<open>open_with_index\<close>: \<open>index\<close> is the state of the index it is given, \<open>seq\<close> the reading of the
  process's uuid counter, and the clock is read for the uuid and for the new manifest.
\<close>

definition db_open ::
  "('s, 'h, 'i) engine \<Rightarrow> 'i \<Rightarrow> u64 \<Rightarrow> u64 \<Rightarrow> u64 \<Rightarrow> ('s, 'h db_handle \<times> 'i db_shared) io" where
  "db_open E index seq uuid_ms now_ms =
     io_bind (io_of (config_validate (en_config E))) (\<lambda>_.
     io_bind (acquire_lock E) (\<lambda>lock.
     holding_lock (en_storage E) lock (
       io_bind (load_or_create E seq uuid_ms now_ms) (\<lambda>store.
       io_bind (open_collections E (m_collections (mst_current store))) (\<lambda>colls.
       io_ok (\<lparr>db_collections = colls, db_lock = lock\<rparr>,
              \<lparr>ds_manifest = store, ds_closed = False, ds_index = index\<rparr>))))))"

definition db_is_open :: "'i db_shared \<Rightarrow> bool" where
  "db_is_open d \<longleftrightarrow> \<not> ds_closed d"

text \<open>The names in the order of the registry; the clock is read at each collection's commit.\<close>

definition db_flush :: "('s, 'h, 'i) engine \<Rightarrow> (rust_string \<Rightarrow> u64) \<Rightarrow> (('h, 'i, 's) db_world, unit) io" where
  "db_flush E now_ms =
     io_bind (io_snd check_open) (\<lambda>_.
     if dcf_read_only (en_config E) then io_ok ()
     else
       io_bind io_self (\<lambda>h.
       io_fold (\<lambda>name _. on_collection name (\<lambda>cat. coll_flush E cat (now_ms name))) (map fst (db_collections h)) ()))"

definition release_lock :: "('s, 'h) storage \<Rightarrow> (('h, 'i, 's) db_world, unit) io" where
  "release_lock st = (\<lambda>(h, d, s).
     (Inr (), (h\<lparr>db_lock := None\<rparr>, d, case db_lock h of Some l \<Rightarrow> st_unlock st l s | None \<Rightarrow> s)))"

definition db_close :: "('s, 'h, 'i) engine \<Rightarrow> (rust_string \<Rightarrow> u64) \<Rightarrow> (('h, 'i, 's) db_world, unit) io" where
  "db_close E now_ms =
     io_bind (io_catch (if dcf_read_only (en_config E) then io_ok () else db_flush E now_ms)) (\<lambda>r.
     io_bind (io_snd (io_modify (\<lambda>d. d\<lparr>ds_closed := True\<rparr>))) (\<lambda>_.
     io_bind (release_lock (en_storage E)) (\<lambda>_.
     io_of r)))"

subsection \<open>Collections\<close>

definition db_collection_exists :: "rust_string \<Rightarrow> (('h, 'i, 's) db_world, bool) io" where
  "db_collection_exists name =
     io_bind (io_snd check_open) (\<lambda>_. io_bind io_self (\<lambda>h. io_ok (map_of (db_collections h) name \<noteq> None)))"

definition spec_catalog :: "collection_spec \<Rightarrow> u64 \<Rightarrow> catalog" where
  "spec_catalog spec now_ms =
     \<lparr>cat_name = csp_name spec, cat_dimension = csp_dimension spec, cat_metric = csp_metric spec,
      cat_dtype = csp_dtype spec, cat_id_kind = csp_id_kind spec, cat_index = csp_index spec, cat_created_at_ms = now_ms\<rparr>"

definition empty_entry :: "rust_string \<Rightarrow> collection_entry" where
  "empty_entry name = \<lparr>ce_name = name, ce_segments = [], ce_index_snapshot = None, ce_last_applied_wal = 0,
     ce_live_count = 0, ce_total_rows = 0\<rparr>"

definition db_create_collection ::
  "('s, 'h, 'i) engine \<Rightarrow> u64 \<Rightarrow> u64 \<Rightarrow> collection_spec \<Rightarrow> (('h, 'i, 's) db_world, catalog) io" where
  "db_create_collection E created_ms now_ms spec =
     (let st = en_storage E; name = csp_name spec; cat = spec_catalog spec created_ms; entry = empty_entry name in
      io_bind (io_snd (check_writable E ''create a collection'')) (\<lambda>_.
      io_bind (io_of (spec_validate spec)) (\<lambda>_.
      io_bind (db_collection_exists name) (\<lambda>there.
      if there then io_err (Conflict (CollectionExists name))
      else
        io_bind (io_snd (io_snd (write_catalog st cat))) (\<lambda>_.
        io_bind (io_of (wal_dir name)) (\<lambda>dir.
        io_bind (io_snd (io_snd (st_create_dir_all st dir))) (\<lambda>_.
        io_bind (io_snd (commit_collection E now_ms entry)) (\<lambda>_.
        io_bind (io_snd (io_snd (coll_open E cat entry))) (\<lambda>coll.
        io_bind (io_modify (\<lambda>h. h\<lparr>db_collections := AList.update name coll (db_collections h)\<rparr>)) (\<lambda>_.
        io_ok cat))))))))))"

definition db_get_or_create_collection ::
  "('s, 'h, 'i) engine \<Rightarrow> u64 \<Rightarrow> u64 \<Rightarrow> collection_spec \<Rightarrow> (('h, 'i, 's) db_world, catalog) io" where
  "db_get_or_create_collection E created_ms now_ms spec =
     io_bind (db_collection_exists (csp_name spec)) (\<lambda>there.
     if there
     then io_bind (db_open_collection (csp_name spec)) (\<lambda>cat.
          if cat_dimension cat \<noteq> csp_dimension spec \<or> cat_metric cat \<noteq> csp_metric spec
             \<or> cat_dtype cat \<noteq> csp_dtype spec \<or> cat_id_kind cat \<noteq> csp_id_kind spec
          then io_err (Conflict (CollectionExists (csp_name spec))) else io_ok cat)
     else db_create_collection E created_ms now_ms spec)"

definition db_drop_collection :: "('s, 'h, 'i) engine \<Rightarrow> u64 \<Rightarrow> rust_string \<Rightarrow> (('h, 'i, 's) db_world, unit) io" where
  "db_drop_collection E now_ms name =
     (let st = en_storage E in
      io_bind (io_snd (check_writable E ''drop a collection'')) (\<lambda>_.
      io_bind (db_collection_exists name) (\<lambda>there.
      if \<not> there then io_err (NotFound (CollectionNotFound name))
      else
        io_bind (io_snd manifest_snapshot) (\<lambda>manifest.
        io_bind (io_snd (in_manifest (mst_commit st
          (manifest\<lparr>m_collections := filter (\<lambda>e. ce_name e \<noteq> name) (m_collections manifest)\<rparr>) now_ms))) (\<lambda>_.
        io_bind (io_modify (\<lambda>h. h\<lparr>db_collections := AList.delete name (db_collections h)\<rparr>)) (\<lambda>_.
        io_bind (io_of (collection_dir name)) (\<lambda>dir.
        io_bind (io_snd (io_snd (st_exists st dir))) (\<lambda>there.
        if there then io_snd (io_snd (st_remove_dir_all st dir)) else io_ok ()))))))))"

record collection_info =
  inf_name :: rust_string
  inf_dimension :: u32
  inf_metric :: metric

definition db_list_collections :: "(('h, 'i, 's) db_world, collection_info list) io" where
  "db_list_collections =
     io_bind (io_snd check_open) (\<lambda>_.
     io_bind io_self (\<lambda>h.
     io_ok (sort_key inf_name (map (\<lambda>(_, coll). let cat = ci_catalog coll in
       \<lparr>inf_name = cat_name cat, inf_dimension = cat_dimension cat, inf_metric = cat_metric cat\<rparr>) (db_collections h)))))"

subsection \<open>Every collection\<close>

definition verify_entry ::
  "('s, 'h, 'i) engine \<Rightarrow> verify_level \<Rightarrow> collection_entry \<Rightarrow> (problems \<times> problems) \<times> collection_verify list
    \<Rightarrow> (('h, 'i, 's) db_world, (problems \<times> problems) \<times> collection_verify list) io" where
  "verify_entry E level entry = (\<lambda>(ew, colls).
     let name = ce_name entry in
     io_bind (on_collection name (\<lambda>cat w. case coll_verify E cat level (ew, w) of
         (r, (ew, w)) \<Rightarrow> (map_ok (\<lambda>cv. (cv, ew)) r, w))) (\<lambda>(cv, errs, warns).
     let warns = (if ce_live_count entry \<noteq> cv_live_documents cv
                  then warns @ [(name, LiveCountDiffers (ce_live_count entry) (cv_live_documents cv))] else warns);
         errs = (if ce_total_rows entry \<noteq> cv_total_rows cv
                 then errs @ [(name, RowCountDiffers (ce_total_rows entry) (cv_total_rows cv))] else errs) in
     io_ok ((errs, warns), colls @ [cv])))"

definition db_verify :: "('s, 'h, 'i) engine \<Rightarrow> verify_level \<Rightarrow> (('h, 'i, 's) db_world, verify_report) io" where
  "db_verify E level =
     (let st = en_storage E in
      io_bind (io_snd check_open) (\<lambda>_.
      io_bind (io_snd manifest_snapshot) (\<lambda>manifest.
      io_bind (io_fold (verify_entry E level) (m_collections manifest) (([], []), [])) (\<lambda>((errs, warns), colls).
      io_bind (io_of collections_dir) (\<lambda>dir.
      io_bind (io_snd (io_snd (st_exists st dir))) (\<lambda>there.
      io_bind (if there then io_snd (io_snd (st_list_dir st dir)) else io_ok []) (\<lambda>es.
      let named = map ce_name (m_collections manifest);
          orphans = filter (\<lambda>e. de_name e \<notin> set named) es in
      io_ok \<lparr>vr_level = level, vr_collections = colls, vr_errors = errs,
             vr_warnings = warns @ map (\<lambda>e. (de_name e, UnnamedDirectory)) orphans\<rparr>)))))))"

definition db_compact ::
  "('s, 'h, 'i) engine \<Rightarrow> (rust_string \<Rightarrow> u64) \<Rightarrow> compact_options \<Rightarrow> (('h, 'i, 's) db_world, compact_report) io" where
  "db_compact E now_ms options =
     io_bind (io_snd (check_writable E ''compact'')) (\<lambda>_.
     io_bind io_self (\<lambda>h.
     io_fold (\<lambda>name sum.
       io_bind (on_collection name (\<lambda>cat. coll_compact E cat (now_ms name) options)) (\<lambda>report.
       io_ok \<lparr>cr_segments_rewritten = cr_segments_rewritten sum + cr_segments_rewritten report,
              cr_segments_created = cr_segments_created sum + cr_segments_created report,
              cr_rows_reclaimed = cr_rows_reclaimed sum + cr_rows_reclaimed report\<rparr>))
       (map fst (db_collections h)) cr_default))"

definition db_stats :: "('s, 'h, 'i) engine \<Rightarrow> (('h, 'i, 's) db_world, database_stats) io" where
  "db_stats E =
     io_bind (io_snd check_open) (\<lambda>_.
     io_bind (io_snd manifest_snapshot) (\<lambda>manifest.
     io_bind io_self (\<lambda>h.
     let names = map fst (db_collections h) in
     io_bind (io_fold (\<lambda>name (live, whole).
         io_bind (on_collection name (coll_stats E)) (\<lambda>stats.
         io_ok (live + cst_live_documents stats, whole + cst_total_rows stats))) names (0, 0)) (\<lambda>(live, whole).
     io_ok \<lparr>dst_format_version = FORMAT_VERSION, dst_manifest_sequence = m_sequence manifest,
            dst_collections = length names, dst_live_documents = live, dst_total_rows = whole,
            dst_read_only = dcf_read_only (en_config E),
            dst_durable_sync = cap_durable_sync (st_capabilities (en_storage E))\<rparr>))))"

end
