(* ===== verification/Collection_Creation.thy ===== *)
theory Collection_Creation
  imports Collection_Survival Database
begin

text \<open>
  Where a collection comes from (\<open>open\<close> and \<open>create_collection\<close> of \<open>core/src/api/database.rs\<close>): the
  manifest of a database without collections, the catalog file, the directories, the first commit
  and the first open give a collection that serves, and stands for the empty map.
\<close>

subsection \<open>Paths of a collection\<close>

definition in_tree :: "rust_string \<Rightarrow> db_path \<Rightarrow> bool" where
  "in_tree name q \<longleftrightarrow> (\<exists>n. q = intercal (take n [ascii ''collections'', name, ascii ''wal'']))"

lemma root_in_tree: "in_tree name path_root"
  unfolding in_tree_def by (intro exI [of _ 0]) (simp add: path_root_def)

lemma in_tree_components:
  assumes "in_tree name q" and "plain name"
  shows "\<exists>n. path_components q = take n [ascii ''collections'', name, ascii ''wal'']"
proof -
  from assms(1) obtain n where n: "q = intercal (take n [ascii ''collections'', name, ascii ''wal''])" unfolding in_tree_def by blast
  have "list_all plain [ascii ''collections'', name, ascii ''wal'']" using assms(2) by (simp add: plain_def ascii_def SEP_def)
  then have "list_all plain (take n [ascii ''collections'', name, ascii ''wal''])" by (auto simp: list_all_iff dest: in_set_takeD)
  from components_intercal [OF this] n show ?thesis by blast
qed

lemma in_tree_not_file:
  assumes "in_tree name q" and "plain name" and "layout f = Inr q"
  shows "f \<noteq> SegFile c i k" and "f \<noteq> WalFile c i" and "f \<noteq> ManifestFile t" and "f \<noteq> CatalogFile c"
proof -
  from in_tree_components [OF assms(1,2)] layout_components [OF assms(3)] obtain n where
    n: "file_components f = take n [ascii ''collections'', name, ascii ''wal'']" by auto
  show "f \<noteq> SegFile c i k" "f \<noteq> WalFile c i" using n by (auto dest: arg_cong [where f = length])
  show "f \<noteq> ManifestFile t"
  proof
    assume "f = ManifestFile t"
    with n have "ascii (slot_file_name t) = ascii ''collections''" by (cases n) auto
    then show False by (cases t) (simp_all add: ascii_def)
  qed
  show "f \<noteq> CatalogFile c"
  proof
    assume "f = CatalogFile c"
    with n have "take n [ascii ''collections'', name, ascii ''wal''] = [ascii ''collections'', c, ascii ''CATALOG'']" by simp
    moreover from this have "n \<ge> 3" by (auto dest: arg_cong [where f = length])
    ultimately show False by (simp add: ascii_def)
  qed
qed

lemma path_parse_intercal:
  assumes "list_all plain cs" and "cs \<noteq> []" and "length (intercal cs) \<le> 1024"
  shows "path_parse (intercal cs) = Inr (intercal cs)" and "path_components (intercal cs) = cs"
proof -
  have "split_on SEP (intercal cs) = cs" using split_intercal [OF assms(1)] assms(2) by simp
  then show "path_parse (intercal cs) = Inr (intercal cs)" unfolding path_parse_plain using assms by simp
  show "path_components (intercal cs) = cs" by (rule components_intercal [OF assms(1)])
qed

text \<open>The directories and files of a collection whose name passes the check.\<close>

lemma collection_tree:
  assumes "check_collection_name name = Inr ()"
  obtains croot cdir wdir cat_path wal_path where "collections_dir = Inr croot" and "collection_dir name = Inr cdir" and "wal_dir name = Inr wdir"
    and "layout_catalog name = Inr cat_path" and "wal_file name 1 = Inr wal_path"
    and "croot = intercal [ascii ''collections'']" and "cdir = intercal [ascii ''collections'', name]" and "wdir = intercal [ascii ''collections'', name, ascii ''wal'']"
    and "path_parse croot = Inr croot" and "path_parse cdir = Inr cdir" and "path_parse wdir = Inr wdir"
    and "parent_of cat_path = cdir" and "parent_of wal_path = wdir"
proof -
  obtain cat_path wal_path where p: "layout_catalog name = Inr cat_path" "wal_file name 1 = Inr wal_path"
    using collection_paths(1,4) [OF assms] by blast
  from p(1) obtain cdir where cd: "collection_dir name = Inr cdir" "path_join cdir (ascii ''CATALOG'') = Inr cat_path"
    unfolding layout_catalog_def by (rule rbind_InrE)
  from p(2) obtain wdir where wd: "wal_dir name = Inr wdir" "path_join wdir (pad6 1 @ ascii ''.wal'') = Inr wal_path"
    unfolding wal_file_def by (rule rbind_InrE)
  from cd(1) obtain croot where cr: "collections_dir = Inr croot" by (auto simp: collection_dir_def elim!: rbind_InrE)
  have nl: "plain name" "length name \<le> 255" using collection_name_plain [OF assms] by (simp_all add: plain_def)
  have ci: "cdir = intercal [ascii ''collections'', name]" using collection_dir_components [OF cd(1)] by blast
  have wi: "wdir = intercal [ascii ''collections'', name, ascii ''wal'']" using collection_sub [OF wd(1) [unfolded wal_dir_def]] by blast
  have ri: "croot = intercal [ascii ''collections'']" using join_root [of "ascii ''collections''" croot] cr by (simp add: collections_dir_def)
  have pl: "plain (ascii ''collections'')" "plain (ascii ''wal'')" "length (ascii ''collections'') = 11" "length (ascii ''wal'') = 3"
    by (simp_all add: plain_def ascii_def SEP_def)
  have "path_parse croot = Inr croot" "path_parse cdir = Inr cdir" "path_parse wdir = Inr wdir"
    unfolding ri ci wi using pl nl by (intro path_parse_intercal; simp add: length_intercal del: intercal.simps)+
  then show ?thesis
    using that [OF cr cd(1) wd(1) p ri ci wi] parent_of_join [OF cd(2)] parent_of_join [OF wd(2)] by blast
qed

lemma catalog_not_segments_path:
  assumes "layout_catalog name = Inr p" and "segments_path name' p" and "plain name"
  shows False
proof -
  from assms(2) obtain d n where d: "segments_dir name' = Inr d" and p: "p = intercal (take n (path_components d))"
    unfolding segments_path_def by blast
  let ?cs = "[ascii ''collections'', name', ascii ''segments'']"
  from collection_sub [OF d [unfolded segments_dir_def]] have pl: "list_all plain ?cs" "d = intercal ?cs" by blast+
  have pc: "path_components d = ?cs" using components_intercal [OF pl(1)] pl(2) by simp
  have "list_all plain (take n ?cs)" using pl(1) by (auto simp: list_all_iff dest: in_set_takeD)
  from components_intercal [OF this] have "path_components p = take n ?cs" unfolding p pc .
  then have "take n ?cs = [ascii ''collections'', name, ascii ''CATALOG'']" using layout_components [of "CatalogFile name" p] assms(1) by simp
  moreover from this have "n \<ge> 3" by (auto dest: arg_cong [where f = length])
  ultimately show False by (simp add: ascii_def)
qed

subsection \<open>The catalog\<close>

lemma catalog_written:
  assumes "check_collection_name (cat_name c) = Inr ()" and "check_dimension (cat_dimension c) = Inr ()" and "cat_id_kind c \<noteq> StrId 0"
  obtains bs where "catalog_encode c = Inr bs" and "length bs < 2 ^ 64" and "catalog_decode bs = Inr c"
proof -
  have name: "cat_name c \<noteq> []" "length (cat_name c) \<le> 255" using collection_name_plain [OF assms(1)] by (auto simp: plain_def)
  have v: "catalog_validate c = Inr ()"
    using name assms(2,3) by (cases "cat_id_kind c") (auto simp: catalog_validate_def check_dimension_def not_less split: if_splits)
  have "length (id_bytes (cat_id_kind c)) \<le> 5" by (cases "cat_id_kind c") (simp_all add: id_bytes_def)
  then have l: "length (catalog_payload c) \<le> 400"
    using blob_length [of "cat_name c"] blob_length [of "[]"] name(2) by (simp add: catalog_payload_def)
  then have "length (catalog_payload c) + 36 < 2 ^ 64" by simp
  from decode_block_encode [OF this, of Catalog "[]"] have "catalog_decode (encode_block Catalog (catalog_payload c)) = Inr c"
    by (intro catalog_decode_payload [OF name_bytes_ok [OF assms(1)] v]) simp
  with v l show ?thesis by (intro that [of "encode_block Catalog (catalog_payload c)"]) (simp_all add: catalog_encode_iff length_encode_block)
qed

subsection \<open>Creating a collection\<close>

text \<open>
  A database without a trace of the collection: no file but the manifest slots, no directory but the root
  and the collections directory, and a manifest that is valid and agrees with its slots.
\<close>

definition untouched :: "(db_path \<Rightarrow> file_view option) \<Rightarrow> (db_path \<Rightarrow> bool) \<Rightarrow> manifest_store \<Rightarrow> bool" where
  "untouched fs ds ms \<longleftrightarrow> (\<forall>q. fs q \<noteq> None \<longrightarrow> (\<exists>t. q = slot_path t)) \<and> ds path_root
     \<and> (\<forall>q. ds q \<longrightarrow> q = path_root \<or> q = intercal [ascii ''collections''])
     \<and> agreeing fs ms \<and> m_collections (mst_current ms) = []"

lemma empty_entry_ok:
  assumes "check_collection_name name = Inr ()"
  shows "validate_entry (empty_entry name) = Inr ()" and "entry_wf (empty_entry name)"
    and "length (collection_bytes (empty_entry name)) \<le> 400"
proof -
  have n: "name \<noteq> []" "length name \<le> 255" using collection_name_plain [OF assms] by (auto simp: plain_def)
  show "validate_entry (empty_entry name) = Inr ()" using n by (simp add: validate_entry_iff empty_entry_def segment_rows_def)
  show "entry_wf (empty_entry name)" using name_bytes_ok [OF assms] by (simp add: entry_wf_def empty_entry_def)
  show "length (collection_bytes (empty_entry name)) \<le> 400"
    using collection_bytes_length [of "empty_entry name"] n by (simp add: empty_entry_def)
qed

context storage_contract
begin

lemma write_catalog_ok:
  assumes "good s" and "collection_dir (cat_name cat) = Inr d" and "layout_catalog (cat_name cat) = Inr p" and "path_parse d = Inr d" and "parent_of p = d"
    and "\<forall>n. files s (intercal (take n (path_components d))) = None" and "catalog_encode cat = Inr bs" and "length bs < 2 ^ 64"
    and "\<not> dirs s p" and "\<not> (\<exists>n. p = intercal (take n (path_components d)))"
  obtains s' where "write_catalog st cat s = (Inr (), s')" and "good s'" and "files s' = (files s)(p \<mapsto> (bs, bs))"
    and "\<forall>q. dirs s q \<longrightarrow> dirs s' q" and "\<forall>q. dirs s' q \<longrightarrow> dirs s q \<or> (\<exists>n. q = intercal (take n (path_components d)))"
proof -
  from create_dirs_total [OF assms(1,4,6)] obtain s1 where c: "st_create_dir_all st d s = (Inr (), s1)" by blast
  note c1 = create_dirs [OF assms(1) c assms(4)]
  note c2 = create_dirs_new [OF assms(1) c assms(4)]
  have nd: "\<not> dirs s1 p" "dirs s1 (parent_of p)" using c1 c2 [of p] assms(5,9,10) by auto
  from c1 have "good s1" by blast
  from replace_file [OF this nd assms(8)] obtain h a1 a2 a3 s' where
    r: "st_open_file st p OpenCreate s1 = (Inr h, a1)" "f_truncate st h 0 a1 = (Inr (), a2)" "f_write_at st h bs 0 a2 = (Inr (), a3)"
      "f_sync_data st h a3 = (Inr (), s')" "good s'" "files s' = (files s1)(p \<mapsto> (bs, bs))" "dirs s' = dirs s1" by metis
  show ?thesis
  proof (rule that)
    show "write_catalog st cat s = (Inr (), s')" using r(1-4) c assms(2,3,7) by (simp add: write_catalog_def replace_bytes_def)
    show "files s' = (files s)(p \<mapsto> (bs, bs))" using r(6) c1 by simp
    show "\<forall>q. dirs s q \<longrightarrow> dirs s' q" using c1 r(7) by simp
    show "\<forall>q. dirs s' q \<longrightarrow> dirs s q \<or> (\<exists>n. q = intercal (take n (path_components d)))" using c2 r(7) by auto
  qed (rule r(5))
qed

lemma open_new:
  assumes "en_storage E = st" and "good t" and "check_collection_name (cat_name cat) = Inr ()" and "paths_clear (files t) (dirs t) (cat_name cat)"
    and "wal_file (cat_name cat) 1 = Inr p" and "files t p = None" and "\<not> dirs t p" and "dirs t (parent_of p)" and "ce_segments entry = []"
  shows "\<exists>c t'. coll_open E cat entry t = (Inr \<lparr>ci_catalog = cat, ci_state = c\<rparr>, t') \<and> good t'
     \<and> coll_inv files dirs stands writable E cat c t' \<and> coll_abs c = (\<lambda>_. None) \<and> cs_segments c = [] \<and> dirs t' = dirs t
     \<and> mt_rows (cs_memtable c) = [] \<and> cs_next_segment_id c = 1 \<and> ww_next_txn (cs_wal c) = 1 \<and> ww_bytes (cs_wal c) = 0
     \<and> log_len (files t') c = 0
     \<and> (\<forall>q. (\<forall>i k. segment_file (cat_name cat) i k \<noteq> Inr q) \<longrightarrow> q \<noteq> p \<longrightarrow> files t' q = files t q)"
proof -
  let ?name = "cat_name cat" and ?m0 = "mt_new (cat_dimension cat) F32" and ?known = "set (map sr_id (ce_segments entry))"
  from assms(4) have pc: "\<forall>i k q. segment_file ?name i k = Inr q \<longrightarrow> \<not> dirs t q" unfolding paths_clear_def by blast
  have sf: "\<forall>i k. \<exists>q. segment_file ?name i k = Inr q \<and> \<not> dirs t q" using collection_paths(3) [OF assms(3)] pc by metis
  obtain dd where dd: "segments_dir ?name = Inr dd" using collection_paths(2) [OF assms(3)] by blast
  with assms(4) segments_dir_components have "files t dd = None" by (simp add: paths_clear_def)
  from list_segment_ids_ok [OF assms(2) dd this] obtain ids where ids: "list_segment_ids st ?name t = (Inr ids, t)" by blast
  let ?clean = "if dcf_read_only (en_config E) then io_ok ()
      else io_bind (list_segment_ids st ?name) (\<lambda>ids. io_fold (\<lambda>i _. if i \<in> ?known then io_ok () else remove_segment st ?name i) ids ())"
  have "\<exists>t1. ?clean t = (Inr (), t1) \<and> good t1 \<and> dirs t1 = dirs t
      \<and> (\<forall>q. (\<forall>i k. segment_file ?name i k = Inr q \<longrightarrow> i \<in> ?known) \<longrightarrow> files t1 q = files t q) \<and> (\<forall>q. files t q = None \<longrightarrow> files t1 q = None)"
  proof (cases "dcf_read_only (en_config E)")
    case False
    with remove_orphans [OF assms(2) sf, of ?known ids] ids show ?thesis by simp
  qed (use assms(2) in simp)
  then obtain t1 where t1: "?clean t = (Inr (), t1)" "good t1" "dirs t1 = dirs t"
    "\<forall>q. (\<forall>i k. segment_file ?name i k = Inr q \<longrightarrow> i \<in> ?known) \<longrightarrow> files t1 q = files t q"
    "\<forall>q. files t q = None \<longrightarrow> files t1 q = None" by (elim exE conjE)
  have none: "files t1 p = None" "\<not> dirs t1 p" "dirs t1 (parent_of p)" using t1(3,5) assms(6-8) by simp_all
  let ?rep = "\<lparr>rr_applied = 0, rr_rolled_back = 0, rr_last_sequence = 0, rr_valid_bytes = 0, rr_truncated_tail = False\<rparr>"
  have rl: "replay_into (fo_fpu (en_floats E)) st p (cat_id_kind cat) ?m0 t1 = (Inr (?rep, ?m0), t1)"
    using metadata_law [OF t1(2), of p] none by (simp add: replay_into_def)
  obtain w t' where w: "ww_open st p 1 (dcf_durability (en_config E)) t1 = (Inr w, t')" "good t'"
    "wal_holds files stands writable w t' [] []" "dirs t' = dirs t1" "files t' = (files t1)(p \<mapsto> (log_bytes [], []))"
    "ww_path w = p" "ww_next_txn w = 1" "ww_durability w = dcf_durability (en_config E)"
    using ww_open_holds [OF t1(2) none(2,3), of "[]" "[]" 1 "dcf_durability (en_config E)"] none(1) empty_iff list.set(1) by metis
  let ?c = "\<lparr>cs_memtable = ?m0, cs_segments = [], cs_wal = w, cs_next_segment_id = 1, cs_next_txn_hint = 1\<rparr>"
  have wb: "ww_bytes w = 0" using w(3) by (simp add: wal_holds_def u64_of_def)
  have segs: "io_fold f (ce_segments entry) [] t1 = (Inr [], t1)" "fold max (map sr_id (ce_segments entry)) 0 = 0" for f :: "segment_ref \<Rightarrow> segment_data list \<Rightarrow> _"
    by (simp_all add: assms(9))
  have q: "sat_add 0 (1 :: u64) = 1" by (simp add: sat_add_def)
  have op: "coll_open E cat entry t = (Inr \<lparr>ci_catalog = cat, ci_state = ?c\<rparr>, t')"
    using t1(1) segs rl w(1) by (simp add: coll_open_def Let_def assms(1,5) q)
  note mn = mt_inv_new [of "cat_dimension cat" F32]
  have "paths_clear (files t') (dirs t') ?name"
    using assms(4) t1(3,5) wal_not_segments_path [OF assms(5)] by (auto simp: paths_clear_def w(4,5))
  moreover have "list_all (storable cat) (live_docs ?m0)" using storable_abs [OF mn(1)] by (simp add: mn(2))
  ultimately have "coll_inv files dirs stands writable E cat ?c t'"
    unfolding coll_inv_def using assms(5) w(3,6-8) mn(1)
    by (intro conjI exI [of _ "[]"]) (simp_all add: coll_wf_def disk_inv_def committed_frames_def mt_new_def)
  moreover have "coll_abs ?c = (\<lambda>_. None)" by (simp add: fun_eq_iff coll_abs_def mn(2))
  moreover have "files t' q = files t q" if "\<forall>i k. segment_file ?name i k \<noteq> Inr q" "q \<noteq> p" for q
    using t1(4) that by (simp add: w(5) assms(9))
  ultimately show ?thesis using op w(2,4,5,6,7) t1(3) by (intro exI [of _ ?c] exI [of _ t']) (simp add: mt_new_def log_len_def wb)
qed

lemma create_serving:
  assumes "en_storage E = st" and "good s" and "untouched (files s) (dirs s) (ds_manifest d)" and "\<not> ds_closed d"
    and "\<not> dcf_read_only (en_config E)" and "spec_validate spec = Inr ()" and "csp_id_kind spec \<noteq> StrId 0"
    and "unat (m_sequence (mst_current (ds_manifest d))) + 2 < 2 ^ 64" and "map_of (db_collections h) (csp_name spec) = None"
    and "cat = spec_catalog spec created_ms"
  shows "\<exists>c d' s'. db_create_collection E created_ms now_ms spec (h, d, s)
       = (Inr cat, (h\<lparr>db_collections := AList.update (csp_name spec) \<lparr>ci_catalog = cat, ci_state = c\<rparr> (db_collections h)\<rparr>, d', s'))
     \<and> good s' \<and> serving files dirs stands writable E cat (c, d', s') \<and> coll_abs c = (\<lambda>_. None)
     \<and> world_names (c, d', s') = [csp_name spec] \<and> roomy (2 ^ 20) (c, d', s') \<and> ww_next_txn (cs_wal c) = 1
     \<and> ww_bytes (cs_wal c) = 0"
proof -
  let ?name = "csp_name spec" and ?ms = "ds_manifest d"
  have cn: "cat_name cat = ?name" by (simp add: assms(10) spec_catalog_def)
  from assms(6) have name: "check_collection_name ?name = Inr ()" "check_dimension (cat_dimension cat) = Inr ()"
    by (auto simp: spec_validate_def assms(10) spec_catalog_def elim!: rbind_InrE)
  have pl: "plain ?name" by (rule collection_name_plain [OF name(1)])
  obtain croot cdir wdir cp wp where tree: "collections_dir = Inr croot" "collection_dir ?name = Inr cdir" "wal_dir ?name = Inr wdir"
    "layout_catalog ?name = Inr cp" "wal_file ?name 1 = Inr wp" "croot = intercal [ascii ''collections'']"
    "cdir = intercal [ascii ''collections'', ?name]" "wdir = intercal [ascii ''collections'', ?name, ascii ''wal'']"
    "path_parse croot = Inr croot" "path_parse cdir = Inr cdir" "path_parse wdir = Inr wdir" "parent_of cp = cdir" "parent_of wp = wdir"
    by (rule collection_tree [OF name(1)])
  have pls: "list_all plain [ascii ''collections'', ?name]" "list_all plain [ascii ''collections'', ?name, ascii ''wal'']"
    using pl by (simp_all add: plain_def ascii_def SEP_def)
  note pcs = components_intercal [OF pls(1), folded tree(7)] components_intercal [OF pls(2), folded tree(8)]
  have tr: "in_tree ?name (intercal (take n (path_components cdir)))" "in_tree ?name (intercal (take n (path_components wdir)))" for n
    unfolding pcs in_tree_def by (rule exI [of _ "min n 2"], simp add: take_Cons' min_def) (rule exI [of _ n], simp)
  have u: "\<forall>q. files s q \<noteq> None \<longrightarrow> (\<exists>t. q = slot_path t)" "dirs s path_root" "\<forall>q. dirs s q \<longrightarrow> q = path_root \<or> q = intercal [ascii ''collections'']"
    "agreeing (files s) ?ms" "m_collections (mst_current ?ms) = []"
    using assms(3) by (simp_all add: untouched_def)
  have ds: "in_tree ?name q" if "dirs s q" for q
  proof -
    have "in_tree ?name (intercal [ascii ''collections''])" unfolding in_tree_def by (rule exI [of _ 1]) simp
    then show ?thesis using u(3) that root_in_tree by blast
  qed
  have tree_none: "files s q = None \<and> q \<noteq> cp" if "in_tree ?name q" for q
  proof -
    have "q \<noteq> slot_path t" for t using in_tree_not_file(3) [OF that pl, of "ManifestFile t" t] layout_manifest_eq [of t] by auto
    with u(1) have "files s q = None" by blast
    moreover have "q \<noteq> cp" using in_tree_not_file(4) [OF that pl, of "CatalogFile ?name" ?name] tree(4) by auto
    ultimately show ?thesis by blast
  qed
  have cp: "\<not> in_tree ?name cp" using tree_none by blast
  obtain bs where bs: "catalog_encode cat = Inr bs" "length bs < 2 ^ 64" "catalog_decode bs = Inr cat"
    by (rule catalog_written [of cat]) (use name assms(7) in \<open>simp_all add: assms(10) spec_catalog_def\<close>)
  have pre: "\<forall>n. files s (intercal (take n (path_components cdir))) = None" using tree_none tr(1) by blast
  have cpd: "\<not> dirs s cp" "\<not> (\<exists>n. cp = intercal (take n (path_components cdir)))" using cp ds tr(1) by metis+
  obtain s1 where s1: "write_catalog st cat s = (Inr (), s1)" "good s1" "files s1 = (files s)(cp \<mapsto> (bs, bs))"
    "\<forall>q. dirs s q \<longrightarrow> dirs s1 q" "\<forall>q. dirs s1 q \<longrightarrow> dirs s q \<or> (\<exists>n. q = intercal (take n (path_components cdir)))"
    by (rule write_catalog_ok [OF assms(2) tree(2,4) [folded cn] tree(10,12) pre bs(1,2) cpd])
  have ds1: "in_tree ?name q" if "dirs s1 q" for q using s1(5) that ds tr(1) by blast
  have "\<forall>n. files s1 (intercal (take n (path_components wdir))) = None" using tree_none tr(2) by (simp add: s1(3))
  from create_dirs_total [OF s1(2) tree(11) this] obtain s2 where c: "st_create_dir_all st wdir s1 = (Inr (), s2)" by blast
  note c1 = create_dirs [OF s1(2) c tree(11)]
  have ds2: "in_tree ?name q" if "dirs s2 q" for q using create_dirs_new [OF s1(2) c tree(11) that] ds1 tr(2) by blast
  note ee = empty_entry_ok [OF name(1)]
  let ?ms' = "committed_store ?ms (empty_entry ?name) now_ms" and ?d = "d\<lparr>ds_manifest := committed_store ?ms (empty_entry ?name) now_ms\<rparr>"
  have mv: "manifest_validate (mst_current ?ms) = Inr ()" "length (m_db_uuid (mst_current ?ms)) = 16"
    using u(4) by (simp_all add: agreeing_def manifest_wf_def)
  have pay: "length (manifest_payload (mst_current ?ms)) \<le> 100"
    using mv(2) u(5) varint_length [of "u64_of 0"] by (simp add: manifest_payload_def counted_bytes_def)
  obtain mb where mb: "manifest_encode (mst_current ?ms') = Inr mb"
    "length mb \<le> length (manifest_payload (mst_current ?ms)) + length (collection_bytes (empty_entry ?name)) + 46"
    by (rule committed_encodes [OF mv(1) ee(1)])
  have ml: "length mb < 2 ^ 64" using mb(2) ee(3) pay by simp
  have slots: "\<forall>t. \<not> dirs s2 (slot_path t)" using ds2 in_tree_not_file(3) [OF _ pl] layout_manifest_eq by (metis layout.simps)
  have root: "dirs s2 path_root" using u(2) s1(4) c1 by blast
  have g2: "good s2" using c1 by blast
  obtain s3 where s3: "commit_collection E now_ms (empty_entry ?name) (d, s2) = (Inr (), (?d, s3))"
    using commit_collection_total [OF assms(1) g2 root slots mb(1) ml] by (elim exE)
  from commit_collection_ok [OF assms(1) g2 s3] mb(1) ml have g3: "good s3" "dirs s3 = dirs s2"
    "files s3 = (files s2)(slot_path (slot_other (mst_slot ?ms)) \<mapsto> (mb, mb))" by auto
  have f3: "files s3 = (files s)(cp \<mapsto> (bs, bs), slot_path (mst_slot ?ms') \<mapsto> (mb, mb))"
    using c1 s1(3) g3(3) by (simp add: committed_store_def)
  have cs: "cp \<noteq> slot_path t" "wp \<noteq> slot_path t" "wp \<noteq> cp" for t
    using layout_inject [of "CatalogFile ?name" cp "ManifestFile t"] layout_inject [of "WalFile ?name 1" wp "ManifestFile t"]
      layout_inject [of "WalFile ?name 1" wp "CatalogFile ?name"] layout_manifest_eq [of t] tree(4,5) by auto
  have "files s wp = None" using u(1) cs(2) by blast
  then have wn: "files s3 wp = None" using cs(2,3) by (simp add: f3)
  have wd: "\<not> dirs s3 wp" "dirs s3 (parent_of wp)"
    using ds2 in_tree_not_file(2) [OF _ pl, of wp "WalFile ?name 1"] tree(5,13) c1 by (auto simp: g3(2))
  have "files s3 q = None" if q: "segments_path ?name q" for q
  proof -
    have "q \<noteq> slot_path t" for t using segments_path_components(3) [OF q] .
    moreover from this u(1) have "files s q = None" by blast
    moreover have "q \<noteq> cp" using catalog_not_segments_path [OF tree(4) _ pl] q by blast
    ultimately show ?thesis by (simp add: f3)
  qed
  moreover have "\<not> dirs s3 q" if "segment_file ?name i k = Inr q" for i k q
    using ds2 in_tree_not_file(1) [OF _ pl, of q "SegFile ?name i k"] that by (auto simp: g3(2))
  ultimately have pc: "paths_clear (files s3) (dirs s3) (cat_name cat)" using slots by (auto simp: paths_clear_def cn g3(2))
  have n3: "check_collection_name (cat_name cat) = Inr ()" "wal_file (cat_name cat) 1 = Inr wp" using name(1) tree(5) by (simp_all add: cn)
  have es: "ce_segments (empty_entry ?name) = []" by (simp add: empty_entry_def)
  obtain c s4 where o: "coll_open E cat (empty_entry ?name) s3 = (Inr \<lparr>ci_catalog = cat, ci_state = c\<rparr>, s4)" "good s4"
    "coll_inv files dirs stands writable E cat c s4" "coll_abs c = (\<lambda>_. None)" "cs_segments c = []" "dirs s4 = dirs s3"
    "mt_rows (cs_memtable c) = []" "cs_next_segment_id c = 1" "ww_next_txn (cs_wal c) = 1" "ww_bytes (cs_wal c) = 0" "log_len (files s4) c = 0"
    "\<forall>q. (\<forall>i k. segment_file (cat_name cat) i k \<noteq> Inr q) \<longrightarrow> q \<noteq> wp \<longrightarrow> files s4 q = files s3 q"
    using open_new [OF assms(1) g3(1) n3(1) pc n3(2) wn wd es] by (elim exE conjE)
  have keep: "files s4 q = files s3 q" if "q = slot_path t \<or> q = cp" for q t
  proof -
    have "segment_file ?name i k \<noteq> Inr q" for i k
      using layout_inject [of "SegFile ?name i k" q "ManifestFile t"] layout_inject [of "SegFile ?name i k" q "CatalogFile ?name"]
        layout_manifest_eq [of t] tree(4) that by auto
    with o(12) cs that show ?thesis by (auto simp: cn)
  qed
  have sq: "m_sequence (mst_current ?ms) \<noteq> - 1" using assms(8) by (auto simp: unat_minus_one_64)
  have "unat (m_sequence (mst_current ?ms')) + 1 < 2 ^ 64"
    using assms(8) by (simp add: committed_store_def mst_next_def unat_sat_add)
  then have sq': "m_sequence (mst_current ?ms') \<noteq> - 1" by (auto simp: unat_minus_one_64)
  have pay': "length (manifest_payload (mst_current ?ms')) < 2 ^ 62"
    using mb ee(3) pay by (auto simp: manifest_encode_iff length_encode_block)
  have f4: "files s4 (slot_path t) = ((files s)(slot_path (mst_slot ?ms') \<mapsto> (mb, mb))) (slot_path t)" for t
    using keep [of "slot_path t" t] cs(1) [of t] by (auto simp: f3)
  have "length (manifest_payload (mst_current ?ms)) < 2 ^ 62" using pay by simp
  note ag = agreeing_commit [OF u(4) ee(2) this sq refl mb(1) ml f4]
  have "ce_name (empty_entry ?name) = cat_name cat \<and> ce_segments (empty_entry ?name) = map segment_reference (cs_segments c)"
    using o(5) by (simp add: cn empty_entry_def)
  moreover have "files s4 cp = Some (bs, bs)" using keep [of cp SlotA] cs(1) by (simp add: f3)
  ultimately have "recorded (files s4) cat (cs_segments c) ?ms'"
    using ag bs(2,3) tree(4) unfolding recorded_def cn by blast
  then have srv: "serving files dirs stands writable E cat (c, ?d, s4)"
    using o(3-6,11) assms(4) root all_fit_empty by (simp add: serving_def g3(2))
  have ws: "io_snd (check_writable E what) (h, d, s) = (Inr (), (h, d, s))" for what and h :: "'h db_handle"
    using assms(4,5) by (simp add: check_writable_def check_open_def io_snd_def)
  have ex: "db_collection_exists ?name (h, d, s) = (Inr False, (h, d, s))"
    using assms(4,9) by (simp add: db_collection_exists_def check_open_def io_snd_def)
  have acts: "io_snd (io_snd (write_catalog st cat)) (h, d, s) = (Inr (), (h, d, s1))"
    "io_snd (io_snd (st_create_dir_all st wdir)) (h, d, s1) = (Inr (), (h, d, s2))"
    "io_snd (commit_collection E now_ms (empty_entry ?name)) (h, d, s2) = (Inr (), (h, ?d, s3))"
    "io_snd (io_snd (coll_open E cat (empty_entry ?name))) (h, ?d, s3) = (Inr \<lparr>ci_catalog = cat, ci_state = c\<rparr>, (h, ?d, s4))"
    using s1(1) c s3 o(1) by (simp_all add: io_snd_def)
  have "db_create_collection E created_ms now_ms spec (h, d, s)
       = (Inr cat, (h\<lparr>db_collections := AList.update ?name \<lparr>ci_catalog = cat, ci_state = c\<rparr> (db_collections h)\<rparr>, ?d, s4))"
    by (simp add: db_create_collection_def assms(1,6) assms(10) [symmetric] Let_def tree(3) ws acts
      io_bind_Inr [where m = "db_collection_exists ?name" and s = "(h, d, s)", OF ex])
  moreover have "world_names (c, ?d, s4) = [?name]"
    using u(5) by (simp add: world_names_def committed_store_def mst_next_def empty_entry_def)
  moreover have "roomy (2 ^ 20) (c, ?d, s4)" using o(5,7,8) sq' pay' by (simp add: roomy_def)
  ultimately show ?thesis using o(2,4,9,10) srv by (intro exI [of _ c] exI [of _ ?d] exI [of _ s4]) simp
qed

end

end
