(* ===== verification/Collection_Spec.thy ===== *)
theory Collection_Spec
  imports Collection_Creation
begin

text \<open>
  The contract of a database on the in-memory backend, over whole runs: creating a collection, reading it,
  serving requests, flushing, and opening the database again after a close or a power cut.
\<close>

abbreviation mem_serving ::
  "(mem_storage, mem_file, 'i) engine \<Rightarrow> catalog \<Rightarrow> (mem_file, 'i, mem_storage) world \<Rightarrow> bool" where
  "mem_serving \<equiv> serving mem_files is_dir mem_stands mf_writable"

subsection \<open>The lock of a database\<close>

text \<open>Taking or releasing the lock changes no file.\<close>

lemma locks_parts: "get_entry (m\<lparr>mi_locks := ls\<rparr>) = get_entry m" "shared (m\<lparr>mi_locks := ls\<rparr>) = shared m"
  "put_shared a x (m\<lparr>mi_locks := ls\<rparr>) = (put_shared a x m)\<lparr>mi_locks := ls\<rparr>"
proof -
  show "get_entry (m\<lparr>mi_locks := ls\<rparr>) = get_entry m" "shared (m\<lparr>mi_locks := ls\<rparr>) = shared m"
    by (rule ext, simp add: shared_def)+
  show "put_shared a x (m\<lparr>mi_locks := ls\<rparr>) = (put_shared a x m)\<lparr>mi_locks := ls\<rparr>" by (simp add: put_shared_def)
qed

lemma locks_view:
  "mem_files (m\<lparr>mi_locks := ls\<rparr>) = mem_files m" "is_dir (m\<lparr>mi_locks := ls\<rparr>) = is_dir m"
  "mem_stands (m\<lparr>mi_locks := ls\<rparr>) = mem_stands m" "mem_good (m\<lparr>mi_locks := ls\<rparr>) = mem_good m"
proof -
  show "mem_files (m\<lparr>mi_locks := ls\<rparr>) = mem_files m" by (simp add: fun_eq_iff mem_files_def locks_parts split: option.split entry.split)
  show d: "is_dir (m\<lparr>mi_locks := ls\<rparr>) = is_dir m" by (simp add: fun_eq_iff is_dir_def locks_parts)
  show "mem_stands (m\<lparr>mi_locks := ls\<rparr>) = mem_stands m" by (simp add: fun_eq_iff mem_stands_def locks_parts)
  show "mem_good (m\<lparr>mi_locks := ls\<rparr>) = mem_good m" by (simp add: mem_good_def d locks_parts)
qed

lemma locks_power_loss: "simulate_power_loss (m\<lparr>mi_locks := ls\<rparr>) = (simulate_power_loss m)\<lparr>mi_locks := ls\<rparr>"
proof -
  have "fold (\<lambda>a m. put_shared a ((shared m a)\<lparr>fd_live := fd_durable (shared m a)\<rparr>) m) as (m\<lparr>mi_locks := ls\<rparr>)
      = (fold (\<lambda>a m. put_shared a ((shared m a)\<lparr>fd_live := fd_durable (shared m a)\<rparr>) m) as m)\<lparr>mi_locks := ls\<rparr>" for as
    by (induction as arbitrary: m) (simp_all add: locks_parts)
  then show ?thesis by (simp add: simulate_power_loss_def)
qed

lemma serving_locks: "mem_serving E cat (c, d, s\<lparr>mi_locks := ls\<rparr>) \<longleftrightarrow> mem_serving E cat (c, d, s)"
proof -
  have "coll_inv mem_files is_dir mem_stands mf_writable E cat c (s\<lparr>mi_locks := ls\<rparr>) = coll_inv mem_files is_dir mem_stands mf_writable E cat c s"
    by (simp add: coll_inv_def wal_holds_def locks_view)
  then show ?thesis by (simp add: serving_def locks_view)
qed

lemma lock_path: "layout_lock = Inr (ascii ''LOCK'')"
proof -
  have "plain (ascii ''LOCK'')" by (simp add: plain_def ascii_def SEP_def)
  then show ?thesis
    using path_join_intercal [of "[]" "ascii ''LOCK''" "ascii ''LOCK''"] by (simp add: layout_lock_def path_root_def ascii_def)
qed

lemma acquire_free:
  assumes "en_storage E = memory_storage" and "ascii ''LOCK'' \<notin> set (mi_locks m)"
  obtains l ls where "acquire_lock E m = (Inr l, m\<lparr>mi_locks := ls\<rparr>)"
proof (cases "dcf_read_only (en_config E)")
  case True
  then show ?thesis using that [of None "mi_locks m"] by (simp add: acquire_lock_def)
next
  case False
  have "st_try_lock memory_storage = mem_try_lock" "cap_file_locking (st_capabilities memory_storage)" by (simp_all add: memory_storage_def)
  with False assms that [of "Some \<lparr>fl_path = ascii ''LOCK'', fl_holder = ascii ''in-process''\<rparr>"] show ?thesis
    by (simp add: acquire_lock_def lock_path mem_try_lock_def io_catch_def)
qed

subsection \<open>A new database\<close>

lemma opened_new:
  assumes "en_storage E = memory_storage" and "config_validate (en_config E) = Inr ()" and "dcf_create_if_missing (en_config E)"
  obtains h d s where "db_open E index seq uuid_ms now_ms mem_new = (Inr (h, d), s)" and "mem_good s"
    and "untouched (mem_files s) (is_dir s) (ds_manifest d)" and "\<not> ds_closed d" and "db_collections h = []"
    and "unat (m_sequence (mst_current (ds_manifest d))) + 2 < 2 ^ 64"
proof -
  obtain l ls where l: "acquire_lock E mem_new = (Inr l, mem_new\<lparr>mi_locks := ls\<rparr>)"
    using acquire_free [OF assms(1), of mem_new] by (auto simp: mem_new_def)
  let ?s0 = "mem_new\<lparr>mi_locks := ls\<rparr>" and ?st = memory_storage
  have g0: "mem_good ?s0" by (simp add: locks_view mem_good_new)
  have f0: "mem_files ?s0 q = None" and d0: "is_dir ?s0 q \<longleftrightarrow> q = path_root" for q
    by (simp_all add: locks_view) (auto simp: mem_files_def is_dir_def get_entry_def mem_new_def path_root_def)
  have sp: "slot_path t \<noteq> path_root" for t by (cases t) (simp_all add: slot_path_def path_root_def ascii_def)
  have "read_slot ?st k ?s0 = (Inr None, ?s0)" for k
    using mem.read_slot_content [OF g0, of k] f0 d0 sp by (simp add: slots_small_def slot_content_def)
  then have load: "mst_load ?st ?s0 = (Inr None, ?s0)" by (simp add: mst_load_def)
  obtain croot where cr: "collections_dir = Inr croot" "croot = intercal [ascii ''collections'']" "path_parse croot = Inr croot"
  proof -
    have "check_collection_name [0x61] = Inr ()"
      by (simp add: check_collection_name_def ascii_def MAX_COLLECTION_NAME_LEN_def is_valid_name_byte_def)
    then show ?thesis using that by (rule collection_tree)
  qed
  have nr: "croot \<noteq> path_root" by (simp add: cr(2) path_root_def ascii_def)
  have ex: "st_exists ?st croot ?s0 = (Inr False, ?s0)" using mem.exists_law [OF g0, of croot] f0 d0 nr by simp
  obtain s1 where c: "st_create_dir_all ?st croot ?s0 = (Inr (), s1)" using mem.create_dirs_total [OF g0 cr(3)] f0 by blast
  note c1 = mem.create_dirs [OF g0 c cr(3)]
  have pc: "path_components croot = [ascii ''collections'']"
    using components_intercal [of "[ascii ''collections'']"] by (simp add: cr(2) plain_def ascii_def SEP_def)
  have d1: "q = path_root \<or> q = intercal [ascii ''collections'']" if "is_dir s1 q" for q
  proof -
    from mem.create_dirs_new [OF g0 c cr(3) that] d0 obtain n where "q = path_root \<or> q = intercal (take n [ascii ''collections''])"
      unfolding pc by blast
    then show ?thesis by (cases n) (auto simp: path_root_def)
  qed
  let ?m = "manifest_new (new_uuid uuid_ms seq) now_ms" and ?bs = "encode_block Manifest (manifest_payload (manifest_new (new_uuid uuid_ms seq) now_ms))"
  let ?ms = "\<lparr>mst_current = ?m, mst_slot = SlotA\<rparr>"
  have wf: "manifest_wf ?m" by (simp add: manifest_wf_def manifest_new_def new_uuid_def Let_def)
  have v: "manifest_validate ?m = Inr ()" by (simp add: manifest_validate_iff manifest_new_def)
  have e: "manifest_encode ?m = Inr ?bs" using v by (simp add: manifest_encode_iff)
  have "length (manifest_payload ?m) \<le> 100"
    using wf varint_length [of "u64_of 0"] by (simp add: manifest_wf_def manifest_payload_def counted_bytes_def manifest_new_def)
  then have lb: "length ?bs < 2 ^ 64" by (simp add: length_encode_block)
  have slots: "\<not> is_dir s1 (slot_path t)" for t
    using d1 [of "slot_path t"] sp [of t] by (cases t) (auto simp: slot_path_def ascii_def)
  have g1: "mem_good s1" and root: "is_dir s1 path_root" using c1 d0 by blast+
  obtain s where w: "mst_write ?st ?m (\<lparr>mst_current = ?m, mst_slot = SlotB\<rparr>, s1) = (Inr (), (?ms, s))" "mem_good s" "is_dir s = is_dir s1"
    "mem_files s = (mem_files s1)(slot_path SlotA \<mapsto> (?bs, ?bs))"
    using mem.mst_write_files [OF g1 slots root e lb, of "\<lparr>mst_current = ?m, mst_slot = SlotB\<rparr>",
      simplified manifest_store.select_convs slot_other.simps] by metis
  have create: "mst_create ?st (new_uuid uuid_ms seq) now_ms s1 = (Inr ?ms, s)" using w(1) by (simp add: mst_create_def Let_def)
  have fs: "mem_files s = Map.empty(slot_path SlotA \<mapsto> (?bs, ?bs))" using w(4) c1 f0 by (auto simp: fun_eq_iff)
  have fd: "durable (Map.empty(slot_path SlotA \<mapsto> (?bs, ?bs))) = Map.empty(slot_path SlotA \<mapsto> (?bs, ?bs))"
    by (auto simp: fun_eq_iff durable_def)
  have ne: "?bs \<noteq> []" using length_encode_block [of Manifest "manifest_payload ?m"] by force
  have "examine (Some ?bs) = Valid ?m" using manifest_decode_encode [OF wf e lb, of "[]"] by (simp add: examine_eq_Valid)
  then have "ss_chosen (scan_slots (Some ?bs) None) = Some (SlotA, ?m)" by (simp add: scan_slots_def Let_def) (simp add: examine_def)
  then have "agreeing (mem_files s) ?ms"
    unfolding agreeing_def fs fd using wf v ne lb by (auto simp: store_agrees_def slot_content_def slots_small_def)
  then have un: "untouched (mem_files s) (is_dir s) ?ms"
    using fs d1 root w(3) by (auto simp: untouched_def manifest_new_def split: if_splits)
  have "load_or_create E seq uuid_ms now_ms ?s0 = (Inr ?ms, s)"
    using load c create cr(1) assms(1,3)
    by (simp add: load_or_create_def Let_def io_bind_Inr [where m = "io_ok False" and a = False] io_bind_Inr [where m = "st_exists ?st croot" and s = ?s0, OF ex])
  then have op: "db_open E index seq uuid_ms now_ms mem_new
      = (Inr (\<lparr>db_collections = [], db_lock = l\<rparr>, \<lparr>ds_manifest = ?ms, ds_closed = False, ds_index = index\<rparr>), s)"
    using l assms(2) by (simp add: db_open_def holding_lock_def open_collections_def manifest_new_def)
  show ?thesis by (rule that [OF op w(2)]) (use un in \<open>simp_all add: manifest_new_def\<close>)
qed

lemma created_serves:
  assumes "en_storage E = memory_storage" and "config_validate (en_config E) = Inr ()" and "dcf_create_if_missing (en_config E)"
    and "spec_validate spec = Inr ()" and "csp_id_kind spec \<noteq> StrId 0"
  shows "\<exists>h d s c h' d' s'. db_open E index seq uuid_ms now_ms mem_new = (Inr (h, d), s) \<and> db_collections h = []
     \<and> db_create_collection E created_ms commit_ms spec (h, d, s) = (Inr (spec_catalog spec created_ms), (h', d', s'))
     \<and> map_of (db_collections h') (csp_name spec) = Some \<lparr>ci_catalog = spec_catalog spec created_ms, ci_state = c\<rparr>
     \<and> mem_good s' \<and> mem_serving E (spec_catalog spec created_ms) (c, d', s') \<and> coll_abs c = (\<lambda>_. None)
     \<and> world_names (c, d', s') = [csp_name spec] \<and> roomy (2 ^ 20) (c, d', s') \<and> ww_next_txn (cs_wal c) = 1
     \<and> ww_bytes (cs_wal c) = 0"
proof -
  have ro: "\<not> dcf_read_only (en_config E)" using assms(2,3) by (auto simp: config_validate_def split: if_splits)
  obtain h d s where op: "db_open E index seq uuid_ms now_ms mem_new = (Inr (h, d), s)" "mem_good s"
    "untouched (mem_files s) (is_dir s) (ds_manifest d)" "\<not> ds_closed d" "db_collections h = []"
    "unat (m_sequence (mst_current (ds_manifest d))) + 2 < 2 ^ 64" by (rule opened_new [OF assms(1-3)])
  have none: "map_of (db_collections h) (csp_name spec) = None" by (simp add: op(5))
  show ?thesis
    using mem.create_serving [OF assms(1) op(2-4) ro assms(4,5) op(6) none refl, of created_ms commit_ms] op(1,5)
    by (elim exE conjE, intro exI conjI) (assumption | simp add: update_conv')+
qed

lemma reopens:
  assumes "en_storage E = memory_storage" and "engine_ok E cat" and "config_validate (en_config E) = Inr ()" and "mem_good s"
    and "mem_serving E cat (c, d, s)" and "world_names (c, d, s) = [cat_name cat]"
    and "t = s \<or> t = simulate_power_loss s \<and> dcf_durability (en_config E) = Full" and "ascii ''LOCK'' \<notin> set (mi_locks t)"
  shows "\<exists>h d' t' c'. db_open E index seq uuid_ms now_ms t = (Inr (h, d'), t')
     \<and> db_collections h = [(cat_name cat, \<lparr>ci_catalog = cat, ci_state = c'\<rparr>)] \<and> mem_good t'
     \<and> mem_serving E cat (c', d', t') \<and> coll_abs c' = coll_abs c"
proof -
  obtain l ls where l: "acquire_lock E t = (Inr l, t\<lparr>mi_locks := ls\<rparr>)" by (rule acquire_free [OF assms(1,8)])
  let ?s = "s\<lparr>mi_locks := ls\<rparr>" and ?t = "t\<lparr>mi_locks := ls\<rparr>" and ?st = memory_storage
  have g: "mem_good ?s" using assms(4) by (simp add: locks_view)
  have sv: "mem_serving E cat (c, d, ?s)" using assms(5) serving_locks by blast
  have cut: "?t = ?s \<or> ?t = simulate_power_loss ?s \<and> dcf_durability (en_config E) = Full" using assms(7) by (auto simp: locks_power_loss)
  note re = mem.serving_reopens [OF assms(1,2) g sv cut]
  from re(4) [of index] obtain entry c' t' where e: "entry \<in> set (m_collections (mst_current (ds_manifest d)))" "ce_name entry = cat_name cat"
    "coll_open E cat entry ?t = (Inr \<lparr>ci_catalog = cat, ci_state = c'\<rparr>, t')" "mem_good t'" "coll_abs c' = coll_abs c"
    "mem_serving E cat (c', d\<lparr>ds_index := index\<rparr>, t')" by blast
  from assms(6) e(1) have one: "m_collections (mst_current (ds_manifest d)) = [entry]"
    by (cases "m_collections (mst_current (ds_manifest d))") (auto simp: world_names_def)
  have cl: "\<not> ds_closed d" using assms(5) by (simp add: serving_def)
  have "load_or_create E seq uuid_ms now_ms ?t = (Inr (ds_manifest d), ?t)" using re(2) by (simp add: load_or_create_def assms(1))
  moreover have "open_collections E [entry] ?t = (Inr [(cat_name cat, \<lparr>ci_catalog = cat, ci_state = c'\<rparr>)], t')"
    using re(3) e(2,3) by (simp add: open_collections_def assms(1))
  ultimately have "db_open E index seq uuid_ms now_ms t
      = (Inr (\<lparr>db_collections = [(cat_name cat, \<lparr>ci_catalog = cat, ci_state = c'\<rparr>)], db_lock = l\<rparr>,
              \<lparr>ds_manifest = ds_manifest d, ds_closed = False, ds_index = index\<rparr>), t')"
    using l assms(3) one by (simp add: db_open_def holding_lock_def)
  moreover have "d\<lparr>ds_index := index\<rparr> = \<lparr>ds_manifest = ds_manifest d, ds_closed = False, ds_index = index\<rparr>" using cl by (cases d) simp
  ultimately show ?thesis using e(4-6) by (intro exI conjI) (assumption | simp)+
qed

subsection \<open>Reads\<close>

lemma get_with_abs:
  assumes "coll_wf cat c" and "\<not> ds_closed d"
  shows "coll_get_with cat k inc (c, d, s) = (Inr (map_option (doc_view inc k) (coll_abs c k)), (c, d, s))"
  using assms document_of_abs [OF assms(1)] by (simp add: coll_get_with_def io_snd_def check_open_def)

text \<open>
  Property C3.  A collection reads as a map.  On a well-formed collection of an open database,
  whatever is in the memtable and in the segments: \<open>contains\<close> says whether the id is in the map,
  \<open>get\<close> and \<open>require\<close> return the document stored last with the requested parts (or that there is
  none), \<open>ids\<close> lists the ids ascending and once each, \<open>count\<close> is their number, and nothing changes.
\<close>

theorem collection_reads:
  assumes "coll_wf cat c" and "\<not> ds_closed d" and "length (cs_segments c) < 2 ^ 31" and "mt_len (cs_memtable c) < 2 ^ 63"
  shows "coll_contains k (c, d, s) = (Inr (coll_abs c k \<noteq> None), (c, d, s))
     \<and> coll_get_with cat k inc (c, d, s) = (Inr (map_option (doc_view inc k) (coll_abs c k)), (c, d, s))
     \<and> coll_require cat k (c, d, s) = (case coll_abs c k of Some x \<Rightarrow> Inr (doc_view include_default k x)
          | None \<Rightarrow> Inl (NotFound (DocumentNotFound (cat_name cat) (id_display k))), (c, d, s))
     \<and> (\<exists>ids. coll_ids (c, d, s) = (Inr ids, (c, d, s)) \<and> sorted ids \<and> distinct ids \<and> set ids = {k. coll_abs c k \<noteq> None})
     \<and> (\<exists>n. coll_count (c, d, s) = (Inr n, (c, d, s)) \<and> unat n = card {k. coll_abs c k \<noteq> None})"
proof -
  have op: "io_snd check_open (c, d, s) = (Inr (), (c, d, s))" using assms(2) by (simp add: io_snd_def check_open_def)
  note g = get_with_abs [OF assms(1,2), where s = s]
  have "coll_contains k (c, d, s) = (Inr (coll_abs c k \<noteq> None), (c, d, s))"
    using op locate_doc_abs [OF assms(1), of k] by (simp add: coll_contains_def del: not_None_eq)
  moreover have "coll_require cat k (c, d, s) = (case coll_abs c k of Some x \<Rightarrow> Inr (doc_view include_default k x)
          | None \<Rightarrow> Inl (NotFound (DocumentNotFound (cat_name cat) (id_display k))), (c, d, s))"
    using g by (simp add: coll_require_def coll_get_def ok_or_def split: option.split)
  moreover have "coll_ids (c, d, s) = (Inr (ids_of c), (c, d, s))" using op by (simp add: coll_ids_def)
  moreover have "coll_count (c, d, s) = (Inr (coll_live_count c), (c, d, s))" using op by (simp add: coll_count_def)
  ultimately show ?thesis using g ids_of_abs [OF assms(1)] live_count_abs [OF assms(1,3,4)] by blast
qed


subsection \<open>An example\<close>

text \<open>A database in memory under \<open>Full\<close>, one document, and the run that stores it.\<close>

definition example_engine :: "(mem_storage, mem_file, unit) engine" where
  "example_engine =
     (let F = \<lparr>fo_fpu = \<lparr>f_mul = \<lambda>x y. y, f_sum = \<lambda>xs. 0x3F800000, f_sqrt = \<lambda>x. x, f_recip = \<lambda>x. 0x3F800000\<rparr>,
          fo_add = \<lambda>x y. y, fo_sub = \<lambda>x y. y, fo_neg = \<lambda>x. x, fo_max = max, fo_fma = \<lambda>x y z. z\<rparr> in
      \<lparr>en_storage = memory_storage, en_index = exact_scan F,
       en_config = config_durability Full (config_flush_threshold 1 config_default), en_floats = F,
       en_ratios = \<lparr>ra_div64 = \<lambda>x y. 0, ra_widen = \<lambda>x. 0, ra_of_u64 = \<lambda>x. 0, ra_div32 = \<lambda>x y. 0\<rparr>, en_display = \<lambda>e. []\<rparr>)"

definition example_spec :: collection_spec where
  "example_spec = spec_with_u64_ids (spec_new (ascii ''a'') 1 Cosine)"

definition example_document :: document_input where
  "example_document = \<lparr>di_id = DocU64 7, di_vector = VF32 [0x3F800000], di_metadata = None, di_content = None\<rparr>"

lemma example_parts:
  "en_storage example_engine = memory_storage" "config_validate (en_config example_engine) = Inr ()"
  "dcf_create_if_missing (en_config example_engine)" "\<not> dcf_read_only (en_config example_engine)" "dcf_durability (en_config example_engine) = Full"
  "spec_validate example_spec = Inr ()" "csp_id_kind example_spec \<noteq> StrId 0" "norms_finite (fo_fpu (en_floats example_engine))"
  "engine_ok example_engine (spec_catalog example_spec now_ms)"
  "coll_validate (spec_catalog example_spec now_ms) example_document = Inr ()" "input_wf example_document"
proof -
  show n: "norms_finite (fo_fpu (en_floats example_engine))"
    by (simp add: norms_finite_def example_engine_def Let_def view_inv_norm_def f32_is_finite_def)
  show sv: "spec_validate example_spec = Inr ()"
    by (simp add: spec_validate_def example_spec_def spec_with_u64_ids_def spec_new_def check_collection_name_def ascii_def
      MAX_COLLECTION_NAME_LEN_def is_valid_name_byte_def check_dimension_def MAX_DIMENSION_def)
  show "input_wf example_document"
    by (simp add: input_wf_def example_document_def id_wf_def view_wf_def view_bytes_def view_dimension_def dtype_row_stride_def)
  have "check_finite (VF32 [0x3F800000]) = Inr ()" by (simp add: check_finite_iff f32_is_finite_def)
  then show "coll_validate (spec_catalog example_spec now_ms) example_document = Inr ()"
    by (simp add: coll_validate_def doc_validate_def example_document_def example_spec_def spec_with_u64_ids_def spec_new_def spec_catalog_def
      view_validate_def view_check_dimension_def)
  from sv show "engine_ok example_engine (spec_catalog example_spec now_ms)" using n by (auto simp: engine_ok_def spec_catalog_def spec_validate_def)
qed (simp_all add: example_engine_def example_spec_def spec_with_u64_ids_def spec_new_def config_durability_def config_flush_threshold_def
  config_default_def config_validate_def Let_def)

lemma example_run:
  "\<exists>h d s c h' d' s' as c2 d2 s2. db_open example_engine () 0 0 0 mem_new = (Inr (h, d), s)
     \<and> db_create_collection example_engine 0 0 example_spec (h, d, s) = (Inr (spec_catalog example_spec 0), (h', d', s'))
     \<and> map_of (db_collections h') (csp_name example_spec) = Some \<lparr>ci_catalog = spec_catalog example_spec 0, ci_state = c\<rparr>
     \<and> mem_good s' \<and> mem_serving example_engine (spec_catalog example_spec 0) (c, d', s') \<and> coll_abs c = (\<lambda>_. None) \<and> roomy 0 (c, d', s')
     \<and> served example_engine (spec_catalog example_spec 0) (c, d', s') [ReqUpsert example_document] as (c2, d2, s2)"
proof -
  let ?E = example_engine and ?cat = "spec_catalog example_spec 0" and ?r = "ReqUpsert example_document"
  obtain h d s c h' d' s' where o: "db_open ?E () 0 0 0 mem_new = (Inr (h, d), s)"
    "db_create_collection ?E 0 0 example_spec (h, d, s) = (Inr ?cat, (h', d', s'))"
    "map_of (db_collections h') (csp_name example_spec) = Some \<lparr>ci_catalog = ?cat, ci_state = c\<rparr>"
    "mem_good s'" "mem_serving ?E ?cat (c, d', s')" "coll_abs c = (\<lambda>_. None)" "roomy (2 ^ 20) (c, d', s')"
    "ww_next_txn (cs_wal c) = 1" "ww_bytes (cs_wal c) = 0"
    using created_serves [OF example_parts(1-3,6,7), of "()" 0 0 0 0 0] by (elim exE conjE)
  obtain a w where p: "perform ?E ?cat 0 ?r (c, d', s') = (a, w)" by (cases "perform ?E ?cat 0 ?r (c, d', s')")
  have "can_take ?r (c, d', s')" using o(7-9) by (simp add: can_take_def roomy_def request_rows_def)
  moreover have "request_wf ?cat ?r" using example_parts(11) by (simp add: request_wf_def)
  ultimately have "served ?E ?cat (c, d', s') ([] @ [?r]) ([] @ [a]) w" by (rule served_one [OF served_none _ _ p])
  moreover have "roomy 0 (c, d', s')" using o(7) by (simp add: roomy_def)
  ultimately show ?thesis using o(1-6) by (cases w) (intro exI conjI, (assumption | simp)+)
qed

subsection \<open>Whole runs\<close>

lemma example_own: "\<forall>r \<in> set [ReqUpsert example_document]. deletes_own_kind cat r"
  by (simp add: deletes_own_kind_def)

lemma example_answer:
  "spec_answers example_engine (spec_catalog example_spec 0) [ReqUpsert example_document] (\<lambda>_. None) = [Inr (Outcome Inserted)]"
  "spec_map example_engine (spec_catalog example_spec 0) [ReqUpsert example_document] (\<lambda>_. None) (DocU64 7)
     = Some (stored_of (fo_fpu (en_floats example_engine)) example_document)"
  using example_parts(4) example_parts(10) [of 0] by (simp_all add: spec_step_def spec_map_def) (simp_all add: example_document_def)

theorem collection_reads_witness:
  "\<exists>(c :: mem_file coll_state) (d :: unit db_shared) (s :: mem_storage). coll_contains (DocU64 7) (c, d, s) = (Inr False, (c, d, s))
     \<and> coll_get_with (spec_catalog example_spec 0) (DocU64 7) include_default (c, d, s) = (Inr None, (c, d, s))"
proof -
  obtain c :: "mem_file coll_state" and d :: "unit db_shared" and s where c: "mem_serving example_engine (spec_catalog example_spec 0) (c, d, s)"
    "coll_abs c = (\<lambda>_. None)" "roomy 0 (c, d, s)" using example_run by (elim exE conjE)
  then have wf: "coll_wf (spec_catalog example_spec 0) c" using mem.coll_inv_wf by (auto simp: serving_def)
  have "mt_abs (cs_memtable c) k \<noteq> Some (Some x)" for k x using fun_cong [OF c(2), of k] by (auto simp: coll_abs_def)
  then have "live_ids (cs_memtable c) = {}" by (simp add: live_ids_def)
  then have "mt_len (cs_memtable c) = 0" using mt_len_card wf by (simp add: coll_wf_def)
  with wf c have w: "coll_wf (spec_catalog example_spec 0) c" "\<not> ds_closed d" "length (cs_segments c) < 2 ^ 31" "mt_len (cs_memtable c) < 2 ^ 63"
    by (auto simp: serving_def roomy_def)
  from collection_reads [OF w, where s = s and k = "DocU64 7" and inc = include_default] c(2)
  show ?thesis by (intro exI [of _ c] exI [of _ d] exI [of _ s]) simp
qed

text \<open>
  Property C2.  A collection serves requests as a map.  Inserts, upserts, batches, flushes and deletes of ids of
  the collection's kind, in any order and at any clock readings, are answered as the map specification
  answers them, errors included, and the run ends in a collection that keeps its invariant, is recorded on disk
  and stands for the map the specification computes.  Three conditions on the run are those of
  \<open>served\<close> and \<open>deletes_own_kind\<close>: a delete names an id of the collection's kind, which the code does not check
  (\<open>delete_wrong_kind\<close> shows what another delete does); a content in a batch has at most \<open>8 MiB\<close>, which the
  code does not check either; and the memtable stays under \<open>2 ^ 22\<close> rows and the log under \<open>2 ^ 62\<close> bytes.
\<close>

theorem collection_serves:
  assumes "en_storage E = memory_storage" and "engine_ok E cat" and "mem_good s" and "mem_serving E cat (c, d, s)"
    and "served E cat (c, d, s) rs as (c', d', s')"
    and "\<forall>r \<in> set rs. deletes_own_kind cat r"
  shows "mem_good s' \<and> mem_serving E cat (c', d', s') \<and> coll_abs c' = spec_map E cat rs (coll_abs c)
     \<and> as = spec_answers E cat rs (coll_abs c)"
  using mem.served_invariant [OF assms(5,1,2) _ assms(4,6)] assms(3) by (simp add: world_map_def)

theorem collection_serves_witness:
  "\<exists>w as w'. served example_engine (spec_catalog example_spec 0) w [ReqUpsert example_document] as w'
     \<and> as = [Inr (Outcome Inserted)] \<and> coll_abs (fst w') (DocU64 7) = Some (stored_of (fo_fpu (en_floats example_engine)) example_document)"
proof -
  let ?cat = "spec_catalog example_spec 0"
  obtain c d s as c2 d2 s2 where r: "mem_good s" "mem_serving example_engine ?cat (c, d, s)" "coll_abs c = (\<lambda>_. None)"
    "served example_engine ?cat (c, d, s) [ReqUpsert example_document] as (c2, d2, s2)"
    using example_run by (elim exE conjE)
  from collection_serves [OF example_parts(1,9) r(1,2,4)] example_own r(3,4) example_answer show ?thesis
    by (intro exI [of _ "(c, d, s)"] exI [of _ as] exI [of _ "(c2, d2, s2)"]) simp
qed

text \<open>
  Property C14.  A flush succeeds: a collection that serves, with fewer than \<open>2 ^ 22\<close> rows in its memtable,
  moves them to a segment, commits it to the manifest, empties its log and memtable, and stands for the same map.
\<close>

theorem collection_flush:
  assumes "en_storage E = memory_storage" and "engine_ok E cat" and "mem_good s" and "mem_serving E cat (c, d, s)"
    and "roomy 0 (c, d, s)" and "\<not> dcf_read_only (en_config E)"
  shows "\<exists>c' d' s'. coll_flush E cat now_ms (c, d, s) = (Inr (), (c', d', s')) \<and> mem_good s'
     \<and> mem_serving E cat (c', d', s') \<and> mt_is_empty (cs_memtable c') \<and> coll_abs c' = coll_abs c"
proof -
  have "io_snd check_open (c, d, s) = (Inr (), (c, d, s))" using assms(4) by (simp add: serving_def io_snd_def check_open_def)
  then have "coll_flush E cat now_ms (c, d, s) = do_flush E cat now_ms (c, d, s)" using assms(6) by (simp add: coll_flush_def)
  with mem.do_flush_serving [OF assms(1-5), of now_ms] show ?thesis by (elim exE conjE) (intro exI conjI, (assumption | simp)+)
qed

theorem collection_flush_witness:
  "\<exists>c d s c' d' s'. coll_flush example_engine (spec_catalog example_spec 0) 5 (c, d, s) = (Inr (), (c', d', s')) \<and> mt_is_empty (cs_memtable c')"
proof -
  let ?cat = "spec_catalog example_spec 0"
  obtain c d s where r: "mem_good s" "mem_serving example_engine ?cat (c, d, s)" "roomy 0 (c, d, s)"
    using example_run by (elim exE conjE)
  from collection_flush [OF example_parts(1,9) r example_parts(4), of 5] show ?thesis
    by (elim exE conjE) (intro exI conjI, assumption+)
qed

text \<open>
  Property C13.  A new database: opening an empty backend and creating a collection succeeds, and the
  collection serves as the empty map.  The specification of the collection validates and does not ask for
  string ids of at most 0 bytes, which validation lets pass but the encoder of the catalog refuses.
\<close>

theorem database_created:
  assumes "en_storage E = memory_storage" and "config_validate (en_config E) = Inr ()" and "dcf_create_if_missing (en_config E)"
    and "spec_validate spec = Inr ()" and "csp_id_kind spec \<noteq> StrId 0"
  shows "\<exists>h d s c h' d' s'. db_open E index seq uuid_ms now_ms mem_new = (Inr (h, d), s) \<and> db_collections h = []
     \<and> db_create_collection E created_ms commit_ms spec (h, d, s) = (Inr (spec_catalog spec created_ms), (h', d', s'))
     \<and> map_of (db_collections h') (csp_name spec) = Some \<lparr>ci_catalog = spec_catalog spec created_ms, ci_state = c\<rparr>
     \<and> mem_good s' \<and> mem_serving E (spec_catalog spec created_ms) (c, d', s') \<and> coll_abs c = (\<lambda>_. None)"
  using created_serves [OF assms, of index seq uuid_ms now_ms created_ms commit_ms]
  by (elim exE conjE) (intro exI conjI, assumption+)

theorem database_created_witness:
  "\<exists>h d s h' d' s'. db_open example_engine () 0 0 0 mem_new = (Inr (h, d), s)
     \<and> db_create_collection example_engine 0 0 example_spec (h, d, s) = (Inr (spec_catalog example_spec 0), (h', d', s'))"
  using database_created [OF example_parts(1-3,6,7), of "()" 0 0 0 0 0] by (elim exE conjE) (intro exI conjI, assumption+)

text \<open>
  Property C1.  Acknowledged writes survive.  A database is opened on an empty backend, a collection is created,
  and requests are served under the conditions of the collection contract: deletes name ids of the
  collection's kind (a delete of another kind is acknowledged and can make the next open refuse the log,
  \<open>delete_wrong_kind\<close>), contents in batches have at most \<open>8 MiB\<close>, and the memtable and the log stay in their
  bounds.  Then the process ends, or under \<open>Full\<close> the power is cut.  The answers were the specification's,
  and the next open finds the collection, whose every document reads as the specification's map has it.
\<close>

theorem database_survives:
  assumes "en_storage E = memory_storage" and "config_validate (en_config E) = Inr ()" and "dcf_create_if_missing (en_config E)"
    and "norms_finite (fo_fpu (en_floats E))" and "spec_validate spec = Inr ()" and "csp_id_kind spec \<noteq> StrId 0"
    and "db_open E index seq uuid_ms now_ms mem_new = (Inr (h, d), s)"
    and "db_create_collection E created_ms commit_ms spec (h, d, s) = (Inr cat, (h', d', s'))"
    and "map_of (db_collections h') (csp_name spec) = Some coll"
    and "served E cat (ci_state coll, d', s') rs as (c2, d2, s2)" and "\<forall>r \<in> set rs. deletes_own_kind cat r"
    and "t = s2 \<or> t = simulate_power_loss s2 \<and> dcf_durability (en_config E) = Full"
  shows "as = spec_answers E cat rs (\<lambda>_. None)
     \<and> (\<exists>h3 d3 s3 c3. db_open E index2 seq2 uuid2 now2 (t\<lparr>mi_locks := []\<rparr>) = (Inr (h3, d3), s3)
          \<and> db_collections h3 = [(csp_name spec, \<lparr>ci_catalog = cat, ci_state = c3\<rparr>)]
          \<and> (\<forall>k inc. coll_get_with cat k inc (c3, d3, s3)
               = (Inr (map_option (doc_view inc k) (spec_map E cat rs (\<lambda>_. None) k)), (c3, d3, s3))))"
proof -
  have cat: "cat = spec_catalog spec created_ms" and new: "mem_good s'" "mem_serving E cat (ci_state coll, d', s')"
    "coll_abs (ci_state coll) = (\<lambda>_. None)" "world_names (ci_state coll, d', s') = [csp_name spec]"
    using created_serves [OF assms(1-3,5,6), of index seq uuid_ms now_ms created_ms commit_ms] assms(7-9) by auto
  have ok: "engine_ok E cat" using assms(4,5) by (auto simp: engine_ok_def cat spec_catalog_def spec_validate_def)
  have run: "mem_good s2" "mem_serving E cat (c2, d2, s2)" "coll_abs c2 = spec_map E cat rs (\<lambda>_. None)"
    "as = spec_answers E cat rs (\<lambda>_. None)" "world_names (c2, d2, s2) = [csp_name spec]"
    using mem.served_invariant [OF assms(10,1) ok _ new(2) assms(11)] new(1,3,4) by (simp_all add: world_map_def)
  let ?s = "s2\<lparr>mi_locks := []\<rparr>"
  have "mem_good ?s" "mem_serving E cat (c2, d2, ?s)" "world_names (c2, d2, ?s) = [cat_name cat]"
    using run(1,2,5) by (simp_all add: locks_view serving_locks world_names_def cat spec_catalog_def)
  moreover have "t\<lparr>mi_locks := []\<rparr> = ?s \<or> t\<lparr>mi_locks := []\<rparr> = simulate_power_loss ?s \<and> dcf_durability (en_config E) = Full"
    using assms(12) by (auto simp: locks_power_loss)
  ultimately obtain h3 d3 s3 c3 where "db_open E index2 seq2 uuid2 now2 (t\<lparr>mi_locks := []\<rparr>) = (Inr (h3, d3), s3)"
    "db_collections h3 = [(cat_name cat, \<lparr>ci_catalog = cat, ci_state = c3\<rparr>)]" "mem_serving E cat (c3, d3, s3)" "coll_abs c3 = coll_abs c2"
    using reopens [OF assms(1) ok assms(2), of ?s c2 d2 "t\<lparr>mi_locks := []\<rparr>" index2 seq2 uuid2 now2] by auto
  moreover from this(3) have "coll_wf cat c3" "\<not> ds_closed d3" using mem.coll_inv_wf by (auto simp: serving_def)
  note get_with_abs [OF this, where s = s3]
  ultimately show ?thesis using run(3,4) by (simp add: cat spec_catalog_def)
qed

theorem database_survives_witness:
  "\<exists>h d s h' d' s' c c2 d2 s2 h3 d3 s3 c3. db_open example_engine () 0 0 0 mem_new = (Inr (h, d), s)
     \<and> db_create_collection example_engine 0 0 example_spec (h, d, s) = (Inr (spec_catalog example_spec 0), (h', d', s'))
     \<and> map_of (db_collections h') (csp_name example_spec) = Some \<lparr>ci_catalog = spec_catalog example_spec 0, ci_state = c\<rparr>
     \<and> served example_engine (spec_catalog example_spec 0) (c, d', s') [ReqUpsert example_document] [Inr (Outcome Inserted)] (c2, d2, s2)
     \<and> db_open example_engine () 1 9 9 (simulate_power_loss s2\<lparr>mi_locks := []\<rparr>) = (Inr (h3, d3), s3)
     \<and> db_collections h3 = [(csp_name example_spec, \<lparr>ci_catalog = spec_catalog example_spec 0, ci_state = c3\<rparr>)]
     \<and> coll_get_with (spec_catalog example_spec 0) (DocU64 7) include_default (c3, d3, s3)
         = (Inr (Some (doc_view include_default (DocU64 7) (stored_of (fo_fpu (en_floats example_engine)) example_document))), (c3, d3, s3))"
proof -
  let ?E = example_engine and ?cat = "spec_catalog example_spec 0" and ?rs = "[ReqUpsert example_document]"
  obtain h d s c h' d' s' as c2 d2 s2 where o: "db_open ?E () 0 0 0 mem_new = (Inr (h, d), s)"
    "db_create_collection ?E 0 0 example_spec (h, d, s) = (Inr ?cat, (h', d', s'))"
    "map_of (db_collections h') (csp_name example_spec) = Some \<lparr>ci_catalog = ?cat, ci_state = c\<rparr>"
    "served ?E ?cat (c, d', s') ?rs as (c2, d2, s2)"
    using example_run by (elim exE conjE)
  have "served ?E ?cat (ci_state \<lparr>ci_catalog = ?cat, ci_state = c\<rparr>, d', s') ?rs as (c2, d2, s2)" using o(4) by simp
  from database_survives [OF example_parts(1-3,8,6,7) o(1-3) this example_own disjI2 [OF conjI [OF refl example_parts(5)]], of "()" 1 9 9]
  obtain h3 d3 s3 c3 where a: "as = spec_answers ?E ?cat ?rs (\<lambda>_. None)"
    and t: "db_open ?E () 1 9 9 (simulate_power_loss s2\<lparr>mi_locks := []\<rparr>) = (Inr (h3, d3), s3)"
    and n: "db_collections h3 = [(csp_name example_spec, \<lparr>ci_catalog = ?cat, ci_state = c3\<rparr>)]"
    and r: "\<forall>k inc. coll_get_with ?cat k inc (c3, d3, s3)
               = (Inr (map_option (doc_view inc k) (spec_map ?E ?cat ?rs (\<lambda>_. None) k)), (c3, d3, s3))"
    by (elim exE conjE)
  show ?thesis using o(1-3) o(4) [unfolded a example_answer(1)] t n r [rule_format, of "DocU64 7" include_default, unfolded example_answer(2)]
    by (intro exI conjI) (assumption | simp only: option.map)+
qed

end
