(* ===== verification/Collection_Misuse.thy ===== *)
theory Collection_Misuse
  imports Collection_Spec
begin

text \<open>
  A delete whose id is not of the collection's kind: \<open>Collection::delete\<close> logs the bytes of the id it is given and
  answers, and replay reads the bytes as an id of the collection's kind.
\<close>

subsection \<open>The delete\<close>

context storage_contract
begin

text \<open>
  The steps of a delete below the flush threshold, whatever the kind of the id.  If the bytes of the id are an id
  \<open>k'\<close> of the collection, disk and log are those of a collection from which \<open>k'\<close> was deleted; if they are none,
  no later open gets past the log.
\<close>

lemma delete_any:
  assumes "en_storage E = st" and "engine_ok E cat" and "good s" and "serving files dirs stands writable E cat (c, d, s)"
    and "\<not> dcf_read_only (en_config E)" and "length (id_to_bytes k) \<le> 2048" and "log_len (files s) c < 2 ^ 62"
    and "mt_byte_size (fst (mt_delete k (cs_memtable c))) < dcf_flush_threshold_bytes (en_config E)"
  obtains c' s' where "coll_delete E cat now_ms k (c, d, s) = (Inr (coll_abs c k \<noteq> None), (c', d, s'))" and "good s'" and "dirs s' = dirs s"
    and "coll_abs c' = (coll_abs c)(k := None)"
    and "recorded (files s') cat (cs_segments c) (ds_manifest d)"
    and "\<forall>k'. id_from_bytes (cat_id_kind cat) (id_to_bytes k) = Inr k' \<longrightarrow>
      (\<exists>c''. serving files dirs stands writable E cat (c'', d, s') \<and> coll_abs c'' = (coll_abs c)(k' := None))"
    and "\<forall>e t entry. id_from_bytes (cat_id_kind cat) (id_to_bytes k) = Inl e \<longrightarrow> ce_segments entry = map segment_reference (cs_segments c)
      \<longrightarrow> good t \<longrightarrow> dirs t = dirs s' \<longrightarrow> files t = files s' \<or> files t = files (crash s') \<and> dcf_durability (en_config E) = Full
      \<longrightarrow> fst (coll_open E cat entry t) = Inl e"
    and "\<forall>q. \<not> dirs s' (slot_path q)"
proof -
  let ?F = "fo_fpu (en_floats E)" and ?kind = "cat_id_kind cat" and ?m = "cs_memtable c" and ?new = "mt_new (cat_dimension cat) F32"
  let ?p = "Delete (id_to_bytes k)" and ?q = "ww_next_sequence (cs_wal c)" and ?wp = "ww_path (cs_wal c)"
  from assms(4) have inv: "coll_inv files dirs stands writable E cat c s" and op: "\<not> ds_closed d" by (simp_all add: serving_def)
  from inv obtain fs dd where wf: "coll_wf cat c" "disk_inv (files s) cat c" "paths_clear (files s) (dirs s) (cat_name cat)"
    "list_all (storable cat) (live_docs ?m)" "wal_file (cat_name cat) 1 = Inr ?wp" "ww_durability (cs_wal c) = dcf_durability (en_config E)"
    "ww_next_txn (cs_wal c) \<noteq> 0"
    and h: "wal_holds files stands writable (cs_wal c) s fs dd" "settled fs" "dcf_durability (en_config E) = Full \<longrightarrow> dd = log_bytes fs"
      "try_fold (replay_frame ?F ?kind) (committed_frames fs) ?new = Inr ?m" unfolding coll_inv_def by blast
  have m: "mt_inv ?m" "mt_dimension ?m = cat_dimension cat" using wf(1) by (simp_all add: coll_wf_def)
  have fok: "frame_ok (standalone ?q ?p)" using op_bytes_small(1) [OF assms(6)] by (intro frame_ok_op) (simp add: standalone_def)
  from ww_append_holds [OF assms(3) h(1) fok] obtain w' s' where
    a: "ww_append st ?p (cs_wal c, s) = (Inr ?q, (w', s'))" "good s'" "dirs s' = dirs s"
      "let fs' = fs @ [standalone ?q ?p]; d' = (if ww_durability (cs_wal c) = Full then log_bytes fs' else dd) in
         wal_holds files stands writable w' s' fs' d' \<and> files s' = (files s)(?wp \<mapsto> (log_bytes fs', d'))"
      "ww_path w' = ?wp" "ww_next_txn w' = ww_next_txn (cs_wal c)" "ww_durability w' = ww_durability (cs_wal c)" by metis
  let ?fs = "fs @ [standalone ?q ?p]"
  define d' where "d' = (if ww_durability (cs_wal c) = Full then log_bytes ?fs else dd)"
  have hw: "wal_holds files stands writable w' s' ?fs d'" and fl: "files s' = (files s)(?wp \<mapsto> (log_bytes ?fs, d'))"
    using a(4) by (simp_all add: Let_def d'_def)
  have st1: "settled [standalone ?q ?p] \<and> committed_frames [standalone ?q ?p] = [standalone ?q ?p]"
    by (rule settled_standalone) (simp add: is_commit_def)
  have cf: "committed_frames ?fs = committed_frames fs @ [standalone ?q ?p]" using committed_append [OF h(2)] st1 by simp
  have rest: "recorded (files s') cat (cs_segments c) (ds_manifest d)"
  proof -
    have r: "recorded (files s) cat (cs_segments c) (ds_manifest d)" using assms(4) by (simp add: serving_def)
    have "slot_path t \<noteq> ?wp" for t
      using layout_inject [of "WalFile (cat_name cat) 1" "slot_path t" "ManifestFile t"] wf(5) layout_manifest_eq by auto
    moreover have "p \<noteq> ?wp" if "layout_catalog (cat_name cat) = Inr p" for p
      using layout_inject [of "WalFile (cat_name cat) 1" p "CatalogFile (cat_name cat)"] wf(5) that by auto
    ultimately show ?thesis unfolding fl by (intro recorded_frame [OF r]) simp_all
  qed
  let ?c' = "c\<lparr>cs_wal := w', cs_memtable := fst (mt_delete k ?m)\<rparr>"
  have "coll_delete E cat now_ms k (c, d, s) = (Inr (coll_abs c k \<noteq> None), (?c', d, s'))"
    using check_writable_ok [OF op assms(5), of "''delete''" c s] a(1) assms(8) locate_doc_abs [OF wf(1), of k]
    by (simp add: coll_delete_def assms(1) in_wal_def maybe_flush_def del: not_None_eq)
  moreover have "coll_abs ?c' = (coll_abs c)(k := None)"
    using mt_delete_correct(2) [OF m(1), of k] by (simp add: fun_eq_iff coll_abs_def split: option.split)
  moreover have "\<exists>c''. serving files dirs stands writable E cat (c'', d, s') \<and> coll_abs c'' = (coll_abs c)(k' := None)"
    if k': "id_from_bytes ?kind (id_to_bytes k) = Inr k'" for k'
  proof -
    let ?m' = "fst (mt_delete k' ?m)" and ?c = "c\<lparr>cs_wal := w', cs_memtable := fst (mt_delete k' ?m)\<rparr>"
    note dc = mt_delete_correct [OF m(1), of k']
    have r: "try_fold (replay_frame ?F ?kind) (committed_frames [standalone ?q ?p]) ?m = Inr ?m'"
      using st1 k' by (simp add: replay_frame_def standalone_def)
    have dim: "mt_dimension ?m' = cat_dimension cat"
      using m(2) by (auto simp: mt_delete_def Let_def split: option.splits mem_slot.splits)
    have stor: "list_all (storable cat) (live_docs ?m')"
      using wf(4) unfolding storable_abs [OF m(1)] storable_abs [OF dc(1)] dc(2) by simp
    have "coll_inv files dirs stands writable E cat ?c s'"
      using hw a(5-7) wf(7) st1 fl
      by (intro coll_inv_extend [OF inv h(1,2) a(3) h(4) _ r, where d' = d']) (auto simp: d'_def dc(1) dim stor)
    moreover have ab: "coll_abs ?c = (coll_abs c)(k' := None)"
      using dc(2) by (simp add: fun_eq_iff coll_abs_def split: option.split)
    moreover have "all_fit cat (coll_abs ?c)" using assms(4) unfolding ab serving_def by (auto simp: all_fit_def)
    moreover have "log_len (files s') ?c < 2 ^ 64"
    proof -
      have "files s ?wp = Some (log_bytes fs, dd)" using h(1) by (simp add: wal_holds_def)
      then have "log_len (files s') ?c \<le> log_len (files s) c + length [standalone ?q ?p] * 2 ^ 27"
        using fl a(5) fok by (intro log_len_grows [where fs = fs and d = dd and d' = d']) simp_all
      with assms(7) show ?thesis by simp
    qed
    ultimately have "serving files dirs stands writable E cat (?c, d, s')"
      by (intro serving_log [OF assms(4)]) (simp_all add: a(3) fl)
    with ab show ?thesis by blast
  qed
  moreover have "fst (coll_open E cat entry t) = Inl e"
    if e: "id_from_bytes ?kind (id_to_bytes k) = Inl e" and seg: "ce_segments entry = map segment_reference (cs_segments c)"
      and t: "good t" "dirs t = dirs s'" "files t = files s' \<or> files t = files (crash s') \<and> dcf_durability (en_config E) = Full" for e t entry
  proof -
    note fr = log_write_frame [OF wf(2,3,5) fl a(3)]
    have name: "check_collection_name (cat_name cat) = Inr ()" using assms(2) by (simp add: engine_ok_def)
    have ok: "\<forall>f \<in> set ?fs. frame_ok f" using hw by (simp add: wal_holds_def)
    have "log_len (files s) c = length (log_bytes fs)" using h(1) by (simp add: log_len_def wal_holds_def)
    then have len: "length (log_bytes ?fs) < 2 ^ 64"
      using assms(7) log_bytes_length [of "[standalone ?q ?p]"] fok by (simp add: log_bytes_def)
    have r: "try_fold (replay_frame ?F ?kind) (committed_frames ?fs) ?new = Inl e"
      unfolding cf try_fold_append h(4) using e by (simp add: replay_frame_def standalone_def)
    obtain dl where ft: "files t ?wp = Some (log_bytes ?fs, dl)"
      using t(3) fl wf(6) crash_file [OF a(2), of ?wp] by (auto simp: d'_def)
    have "disk_inv (files t) cat c" "paths_clear (files t) (dirs t) (cat_name cat)"
      using t(2,3) fr crash_law [OF a(2)] mirrored_crash [OF a(2)] by (auto simp: disk_inv_def paths_clear_def)
    from coll_open_refused [OF assms(1) t(1) name this wf(5) ft ok len r seg] show ?thesis .
  qed
  moreover have "\<forall>q. \<not> dirs s' (slot_path q)" using wf(3) by (simp add: a(3) paths_clear_def)
  ultimately show ?thesis using a(2,3) rest by (intro that [of ?c' s']) blast+
qed

text \<open>The files of a recorded collection are found by the next open.\<close>

lemma recorded_loads:
  assumes "good t" and "recorded (files t) cat segs ms" and "\<forall>k. \<not> dirs t (slot_path k)"
  shows "mst_load st t = (Inr (Some ms), t)" and "read_catalog st (cat_name cat) t = (Inr cat, t)"
proof -
  have ag: "store_agrees (files t) ms" "slots_small (files t)" using assms(2) by (simp_all add: recorded_def agreeing_def)
  show "mst_load st t = (Inr (Some ms), t)" using load_agrees [OF assms(1) ag(2) assms(3)] ag(1) by simp
  from assms(2) obtain p bs where "layout_catalog (cat_name cat) = Inr p" "files t p = Some (bs, bs)" "length bs < 2 ^ 64" "catalog_decode bs = Inr cat"
    unfolding recorded_def by blast
  from read_catalog_file [OF assms(1) this] show "read_catalog st (cat_name cat) t = (Inr cat, t)" .
qed

end

subsection \<open>The next open\<close>

lemma open_refused:
  assumes "en_storage E = memory_storage" and "config_validate (en_config E) = Inr ()" and "mem_good t"
    and "recorded (mem_files t) cat segs ms" and "\<forall>k. \<not> is_dir t (slot_path k)" and "map ce_name (m_collections (mst_current ms)) = [cat_name cat]"
    and "ascii ''LOCK'' \<notin> set (mi_locks t)"
    and "\<And>entry u. ce_segments entry = map segment_reference segs \<Longrightarrow> mem_good u \<Longrightarrow> is_dir u = is_dir t \<Longrightarrow> mem_files u = mem_files t
      \<Longrightarrow> fst (coll_open E cat entry u) = Inl e"
  shows "fst (db_open E index seq uuid_ms now_ms t) = Inl e"
proof -
  obtain l ls where l: "acquire_lock E t = (Inr l, t\<lparr>mi_locks := ls\<rparr>)" by (rule acquire_free [OF assms(1,7)])
  let ?t = "t\<lparr>mi_locks := ls\<rparr>"
  have g: "mem_good ?t" "recorded (mem_files ?t) cat segs ms" "\<forall>k. \<not> is_dir ?t (slot_path k)" using assms(3-5) by (simp_all add: locks_view)
  note ld = mem.recorded_loads [OF g]
  from assms(4) obtain entry where e: "entry \<in> set (m_collections (mst_current ms))" "ce_name entry = cat_name cat"
    "ce_segments entry = map segment_reference segs" unfolding recorded_def by blast
  with assms(6) have one: "m_collections (mst_current ms) = [entry]" by (cases "m_collections (mst_current ms)") auto
  have "fst (coll_open E cat entry ?t) = Inl e" using assms(8) [OF e(3) g(1)] by (simp add: locks_view)
  then obtain u where c: "coll_open E cat entry ?t = (Inl e, u)" by (cases "coll_open E cat entry ?t") auto
  have "load_or_create E seq uuid_ms now_ms ?t = (Inr ms, ?t)" using ld(1) by (simp add: load_or_create_def assms(1))
  moreover have "open_collections E [entry] ?t = (Inl e, u)" using ld(2) e(2) c by (simp add: open_collections_def assms(1))
  ultimately show ?thesis using l assms(2) one by (simp add: db_open_def holding_lock_def)
qed

lemma new_log:
  assumes "mem_serving E cat (c, d, s)" and "ww_bytes (cs_wal c) = 0"
  shows "cs_memtable c = mt_new (cat_dimension cat) F32" and "log_len (mem_files s) c = 0"
proof -
  from assms(1) obtain fs x where h: "wal_holds mem_files mem_stands mf_writable (cs_wal c) s fs x"
    "try_fold (replay_frame (fo_fpu (en_floats E)) (cat_id_kind cat)) (committed_frames fs) (mt_new (cat_dimension cat) F32) = Inr (cs_memtable c)"
    and short: "log_len (mem_files s) c < 2 ^ 64" by (auto simp: serving_def coll_inv_def)
  then have len: "log_len (mem_files s) c = length (log_bytes fs)" by (simp add: log_len_def wal_holds_def)
  have "u64_of (length (log_bytes fs)) = 0" using h(1) assms(2) by (simp add: wal_holds_def)
  then show "log_len (mem_files s) c = 0" using len short unat_u64_of [of "length (log_bytes fs)"] by simp
  with len have "fs = []" by (cases fs) (auto simp: log_bytes_def length_frame_bytes)
  then show "cs_memtable c = mt_new (cat_dimension cat) F32" using h(2) by (simp add: committed_frames_def)
qed

text \<open>
  Property C20.  A delete of the wrong kind of id.  \<open>Collection::delete\<close> does not check the kind of the id it is
  given: below the flush threshold it answers whether a document has this id, as for any other id.  When the
  database is opened again, after a close or under \<open>Full\<close> after a power cut, the log is replayed: if the bytes
  of the id are no id of the collection's kind, the open fails with the error of the conversion and the
  database cannot be opened; if they happen to be one, it is the document with that id that is gone.
\<close>

theorem delete_wrong_kind:
  assumes "en_storage E = memory_storage" and "engine_ok E cat" and "config_validate (en_config E) = Inr ()" and "mem_good s"
    and "mem_serving E cat (c, d, s)" and "world_names (c, d, s) = [cat_name cat]" and "\<not> dcf_read_only (en_config E)"
    and "length (id_to_bytes k) \<le> 2048" and "log_len (mem_files s) c < 2 ^ 62"
    and "mt_byte_size (fst (mt_delete k (cs_memtable c))) < dcf_flush_threshold_bytes (en_config E)"
  shows "\<exists>c' s'. coll_delete E cat now_ms k (c, d, s) = (Inr (coll_abs c k \<noteq> None), (c', d, s'))
     \<and> coll_abs c' = (coll_abs c)(k := None)
     \<and> (\<forall>t. t = s' \<or> t = simulate_power_loss s' \<and> dcf_durability (en_config E) = Full \<longrightarrow>
          (case id_from_bytes (cat_id_kind cat) (id_to_bytes k) of
             Inl e \<Rightarrow> fst (db_open E index seq uuid_ms open_ms (t\<lparr>mi_locks := []\<rparr>)) = Inl e
           | Inr k' \<Rightarrow> (\<exists>h d'' t' c''. db_open E index seq uuid_ms open_ms (t\<lparr>mi_locks := []\<rparr>) = (Inr (h, d''), t')
               \<and> db_collections h = [(cat_name cat, \<lparr>ci_catalog = cat, ci_state = c''\<rparr>)] \<and> coll_abs c'' = (coll_abs c)(k' := None))))"
proof -
  obtain c' s' where a: "coll_delete E cat now_ms k (c, d, s) = (Inr (coll_abs c k \<noteq> None), (c', d, s'))" "mem_good s'" "is_dir s' = is_dir s"
    "coll_abs c' = (coll_abs c)(k := None)" "recorded (mem_files s') cat (cs_segments c) (ds_manifest d)"
    "\<forall>k'. id_from_bytes (cat_id_kind cat) (id_to_bytes k) = Inr k' \<longrightarrow>
      (\<exists>c''. mem_serving E cat (c'', d, s') \<and> coll_abs c'' = (coll_abs c)(k' := None))"
    "\<forall>e t entry. id_from_bytes (cat_id_kind cat) (id_to_bytes k) = Inl e \<longrightarrow> ce_segments entry = map segment_reference (cs_segments c)
      \<longrightarrow> mem_good t \<longrightarrow> is_dir t = is_dir s'
      \<longrightarrow> mem_files t = mem_files s' \<or> mem_files t = mem_files (simulate_power_loss s') \<and> dcf_durability (en_config E) = Full
      \<longrightarrow> fst (coll_open E cat entry t) = Inl e"
    "\<forall>q. \<not> is_dir s' (slot_path q)"
    by (rule mem.delete_any [OF assms(1,2,4,5,7-10), of now_ms])
  have "case id_from_bytes (cat_id_kind cat) (id_to_bytes k) of
             Inl e \<Rightarrow> fst (db_open E index seq uuid_ms open_ms (t\<lparr>mi_locks := []\<rparr>)) = Inl e
           | Inr k' \<Rightarrow> (\<exists>h d'' t' c''. db_open E index seq uuid_ms open_ms (t\<lparr>mi_locks := []\<rparr>) = (Inr (h, d''), t')
               \<and> db_collections h = [(cat_name cat, \<lparr>ci_catalog = cat, ci_state = c''\<rparr>)] \<and> coll_abs c'' = (coll_abs c)(k' := None))"
    if t: "t = s' \<or> t = simulate_power_loss s' \<and> dcf_durability (en_config E) = Full" for t
  proof (cases "id_from_bytes (cat_id_kind cat) (id_to_bytes k)")
    case (Inl e)
    note cl = mem.crash_law [OF a(2)]
    let ?t = "t\<lparr>mi_locks := []\<rparr>"
    have "mem_files ?t = mem_files s' \<or> mem_files ?t = mem_files (simulate_power_loss s') \<and> dcf_durability (en_config E) = Full"
      and v: "mem_good ?t" "is_dir ?t = is_dir s'" "mem_files ?t = mem_files s' \<or> mem_files ?t = durable (mem_files s')"
      using t cl a(2) by (auto simp: durable_def locks_view)
    moreover have "recorded (mem_files ?t) cat (cs_segments c) (ds_manifest d)" using v(3) a(5) recorded_durable by auto
    moreover have "map ce_name (m_collections (mst_current (ds_manifest d))) = [cat_name cat]" using assms(6) by (simp add: world_names_def)
    ultimately have "fst (db_open E index seq uuid_ms open_ms ?t) = Inl e"
      using a(7,8) Inl by (intro open_refused [OF assms(1,3)]) auto
    then show ?thesis by (simp add: Inl)
  next
    case (Inr k')
    let ?s = "s'\<lparr>mi_locks := []\<rparr>"
    from Inr a(6) obtain c'' where c: "mem_serving E cat (c'', d, s')" "coll_abs c'' = (coll_abs c)(k' := None)" by blast
    have v: "mem_good ?s" "mem_serving E cat (c'', d, ?s)" "world_names (c'', d, ?s) = [cat_name cat]"
      using a(2) c(1) assms(6) by (simp_all add: locks_view serving_locks world_names_def)
    have "t\<lparr>mi_locks := []\<rparr> = ?s \<or> t\<lparr>mi_locks := []\<rparr> = simulate_power_loss ?s \<and> dcf_durability (en_config E) = Full"
      using t by (auto simp: locks_power_loss)
    from reopens [OF assms(1-3) v this, of index seq uuid_ms open_ms] c(2) show ?thesis by (fastforce simp: Inr)
  qed
  with a(1,4) show ?thesis by blast
qed

text \<open>A string of one byte, deleted from a new collection of 64-bit ids.\<close>

theorem delete_wrong_kind_witness:
  "\<exists>c d s c' s'. coll_delete example_engine (spec_catalog example_spec 0) 0 (DocStr [0x61]) (c, d, s) = (Inr False, (c', d, s'))
     \<and> fst (db_open example_engine () 0 0 0 (simulate_power_loss s'\<lparr>mi_locks := []\<rparr>)) = Inl (id_reject IdIllegalCharacter 1 8)"
proof -
  let ?E = example_engine and ?cat = "spec_catalog example_spec 0" and ?k = "DocStr [0x61]"
  obtain c d s where o: "mem_good s" "mem_serving ?E ?cat (c, d, s)" "coll_abs c = (\<lambda>_. None)"
    "world_names (c, d, s) = [csp_name example_spec]" "ww_bytes (cs_wal c) = 0"
    using created_serves [OF example_parts(1-3,6,7), of "()" 0 0 0 0 0] by (elim exE conjE)
  have nm: "world_names (c, d, s) = [cat_name ?cat]" using o(4) by (simp add: spec_catalog_def)
  from new_log [OF o(2,5)] have m: "cs_memtable c = mt_new (cat_dimension ?cat) F32" and l: "log_len (mem_files s) c = 0" by simp_all
  have thr: "dcf_flush_threshold_bytes (en_config ?E) = 1"
    by (simp add: example_engine_def Let_def config_durability_def config_flush_threshold_def)
  have sz: "mt_byte_size (fst (mt_delete ?k (cs_memtable c))) < dcf_flush_threshold_bytes (en_config ?E)"
    unfolding m thr by (simp add: mt_byte_size_def mt_delete_def mt_new_def)
  have idb: "id_from_bytes (cat_id_kind ?cat) (id_to_bytes ?k) = Inl (id_reject IdIllegalCharacter 1 8)"
    by (simp add: spec_catalog_def example_spec_def spec_with_u64_ids_def spec_new_def)
  have "length (id_to_bytes ?k) \<le> 2048" "log_len (mem_files s) c < 2 ^ 62" using l by simp_all
  from delete_wrong_kind [OF example_parts(1,9,2) o(1,2) nm example_parts(4) this sz, of 0 "()" 0 0 0]
  obtain c' s' where r: "coll_delete ?E ?cat 0 ?k (c, d, s) = (Inr (coll_abs c ?k \<noteq> None), (c', d, s'))"
    "\<forall>t. t = s' \<or> t = simulate_power_loss s' \<and> dcf_durability (en_config ?E) = Full \<longrightarrow>
        fst (db_open ?E () 0 0 0 (t\<lparr>mi_locks := []\<rparr>)) = Inl (id_reject IdIllegalCharacter 1 8)"
    unfolding idb sum.case by (elim exE conjE)
  have "fst (db_open ?E () 0 0 0 (simulate_power_loss s'\<lparr>mi_locks := []\<rparr>)) = Inl (id_reject IdIllegalCharacter 1 8)"
    using r(2) example_parts(5) by blast
  with r(1) show ?thesis unfolding o(3) by (intro exI conjI) (assumption | simp)+
qed

end
