(* ===== verification/Bitmap.thy ===== *)
theory Bitmap
  imports Bit_Words
begin

text \<open>
  The dense bitmap of \<open>core/src/util/bitmap.rs\<close>: a word array, its length in bits and a
  maintained population count, with the word-at-a-time iterator over the set bits.  The
  abstraction is the set \<open>bm_set b\<close> of indices below the length; every operation is the
  corresponding set operation, the maintained count is the cardinality, and the iterator
  yields the members in ascending order, each once.
\<close>

record bitmap =
  bm_words :: "u64 list"
  bm_len :: nat
  bm_ones :: nat

definition bitmap_clear_tail :: "bitmap \<Rightarrow> bitmap" where
  "bitmap_clear_tail b = b\<lparr>bm_words := clear_tail_words (bm_len b) (bm_words b)\<rparr>"

definition bitmap_new :: "nat \<Rightarrow> bitmap" where
  "bitmap_new len = \<lparr>bm_words = replicate (div_ceil len 64) 0, bm_len = len, bm_ones = 0\<rparr>"

definition bitmap_all_set :: "nat \<Rightarrow> bitmap" where
  "bitmap_all_set len =
     bitmap_clear_tail \<lparr>bm_words = replicate (div_ceil len 64) (- 1), bm_len = len, bm_ones = len\<rparr>"

definition bitmap_count :: "bitmap \<Rightarrow> nat" where
  "bitmap_count b = bm_ones b"

definition bitmap_get :: "bitmap \<Rightarrow> nat \<Rightarrow> bool" where
  "bitmap_get b i =
     (if i \<ge> bm_len b then False
      else if i div 64 < length (bm_words b)
        then bm_words b ! (i div 64) AND push_bit (i mod 64) 1 \<noteq> 0
        else False)"

definition bitmap_assign :: "bitmap \<Rightarrow> nat \<Rightarrow> bool \<Rightarrow> bitmap \<times> bool" where
  "bitmap_assign b i v =
     (if i \<ge> bm_len b then (b, False)
      else if \<not> i div 64 < length (bm_words b) then (b, False)
      else
        let word = bm_words b ! (i div 64); mask = push_bit (i mod 64) 1;
            was = (word AND mask \<noteq> 0)
        in if was = v then (b, False)
           else if v
             then (b\<lparr>bm_words := (bm_words b)[i div 64 := word OR mask], bm_ones := bm_ones b + 1\<rparr>, True)
             else (b\<lparr>bm_words := (bm_words b)[i div 64 := word AND NOT mask], bm_ones := bm_ones b - 1\<rparr>, True))"

definition bitmap_set :: "bitmap \<Rightarrow> nat \<Rightarrow> bitmap \<times> bool" where
  "bitmap_set b i = bitmap_assign b i True"

definition bitmap_clear :: "bitmap \<Rightarrow> nat \<Rightarrow> bitmap \<times> bool" where
  "bitmap_clear b i = bitmap_assign b i False"

text \<open>\<open>Vec::resize(n, 0)\<close>: cut or pad to \<open>n\<close> words.\<close>

definition resize_words :: "nat \<Rightarrow> u64 list \<Rightarrow> u64 list" where
  "resize_words n ws = take n ws @ replicate (n - length ws) 0"

definition bitmap_grow :: "bitmap \<Rightarrow> nat \<Rightarrow> bitmap" where
  "bitmap_grow b new_len =
     (if new_len \<le> bm_len b then b
      else b\<lparr>bm_words := resize_words (div_ceil new_len 64) (bm_words b), bm_len := new_len\<rparr>)"

definition bitmap_clear_all :: "bitmap \<Rightarrow> bitmap" where
  "bitmap_clear_all b = b\<lparr>bm_words := replicate (length (bm_words b)) 0, bm_ones := 0\<rparr>"

definition bitmap_from_words :: "u64 list \<Rightarrow> nat \<Rightarrow> bitmap" where
  "bitmap_from_words words len =
     (let b = bitmap_clear_tail
                \<lparr>bm_words = resize_words (div_ceil len 64) words, bm_len = len, bm_ones = 0\<rparr>
      in b\<lparr>bm_ones := sum_list (map count_ones (bm_words b))\<rparr>)"

subsection \<open>The iterator over set bits\<close>

record set_bits =
  sb_words :: "u64 list"
  sb_word_idx :: nat
  sb_current :: u64

definition iter_set :: "bitmap \<Rightarrow> set_bits" where
  "iter_set b = \<lparr>sb_words = bm_words b, sb_word_idx = 0,
     sb_current = (case bm_words b of [] \<Rightarrow> 0 | w # _ \<Rightarrow> w)\<rparr>"

function set_bits_next :: "set_bits \<Rightarrow> nat option \<times> set_bits" where
  "set_bits_next s =
     (if sb_current s \<noteq> 0 then
        (Some (sb_word_idx s * 64 + trailing_zeros (sb_current s)),
         s\<lparr>sb_current := sb_current s AND (sb_current s - 1)\<rparr>)
      else let idx = sb_word_idx s + 1 in
        if idx < length (sb_words s)
        then set_bits_next (s\<lparr>sb_word_idx := idx, sb_current := sb_words s ! idx\<rparr>)
        else (None, s\<lparr>sb_word_idx := idx\<rparr>))"
  by auto
termination
  by (relation "measure (\<lambda>s. length (sb_words s) - sb_word_idx s)") auto

declare set_bits_next.simps [simp del]

subsection \<open>The lowest set bit\<close>

lemma trailing_zeros_split:
  assumes "w \<noteq> 0"
  shows "trailing_zeros w < 64" and "bit w (trailing_zeros w)"
    and "\<And>i. i < trailing_zeros w \<Longrightarrow> \<not> bit w i"
proof -
  let ?tw = "takeWhile (\<lambda>i. \<not> bit w i) [0..<64]"
  have k: "trailing_zeros w = length ?tw" by (simp add: trailing_zeros_def)
  from assms obtain j where j: "bit w j" by (auto simp: bit_eq_iff)
  then have "j < 64" by (auto dest: bit_imp_le_length)
  have "length ?tw \<noteq> 64"
  proof
    assume "length ?tw = 64"
    then have "?tw = [0..<64]" by (metis diff_zero length_upt takeWhile_eq_take take_all_iff order_refl)
    then have "\<forall>i\<in>set [0..<64]. \<not> bit w i" by (metis set_takeWhileD)
    with j \<open>j < 64\<close> show False by simp
  qed
  moreover have "length ?tw \<le> 64" using length_takeWhile_le [of "\<lambda>i. \<not> bit w i" "[0..<64]"] by simp
  ultimately show lt: "trailing_zeros w < 64" using k by simp
  show "bit w (trailing_zeros w)"
    using nth_length_takeWhile [of "\<lambda>i. \<not> bit w i" "[0..<64]"] lt k by simp
  show "\<And>i. i < trailing_zeros w \<Longrightarrow> \<not> bit w i"
    using k lt by (metis (no_types, lifting) add_0 nth_mem nth_upt order.strict_trans set_takeWhileD takeWhile_nth)
qed

lemma bit_clear_lowest:
  assumes "w \<noteq> 0"
  shows "bit (w AND (w - 1)) i \<longleftrightarrow> bit w i \<and> i \<noteq> trailing_zeros w"
proof -
  let ?k = "trailing_zeros w"
  let ?r = "w AND NOT (push_bit ?k 1)"
  note tz = trailing_zeros_split [OF assms]
  have "?r AND push_bit ?k 1 = 0" by (rule bit_word_eqI) (auto simp: bit_simps)
  then have "?r + push_bit ?k 1 = ?r OR push_bit ?k 1" by (rule disjunctive_add_eq_or)
  also have "\<dots> = w" using tz(2) by (intro bit_word_eqI) (auto simp: bit_simps)
  finally have w: "w = ?r + push_bit ?k 1" by simp
  have "?r AND mask ?k = 0" using tz(3) by (intro bit_word_eqI) (auto simp: bit_simps)
  then have "?r + mask ?k = ?r OR mask ?k" by (rule disjunctive_add_eq_or)
  moreover have "w - 1 = ?r + mask ?k"
    by (subst w) (simp add: mask_eq_exp_minus_1 push_bit_of_1)
  ultimately have "w - 1 = ?r OR mask ?k" by simp
  then show ?thesis using tz(2,3) bit_imp_le_length [of w i] by (auto simp: bit_simps)
qed

definition word_bits :: "u64 \<Rightarrow> nat list" where
  "word_bits w = filter (bit w) [0..<64]"

lemma word_bits_0 [simp]: "word_bits 0 = []"
  by (simp add: word_bits_def)

lemma word_bits_step:
  assumes "w \<noteq> 0"
  shows "word_bits w = trailing_zeros w # word_bits (w AND (w - 1))"
proof -
  let ?k = "trailing_zeros w"
  note tz = trailing_zeros_split [OF assms] and cl = bit_clear_lowest [OF assms]
  have split: "[0..<64] = [0..<?k] @ ?k # [Suc ?k..<64]"
    using tz(1) upt_split [of ?k 64] by (simp only: upt_conv_Cons less_imp_le)
  have low: "filter (bit w) [0..<?k] = []" using tz(3) by (auto simp: filter_empty_conv)
  have low': "filter (bit (w AND (w - 1))) [0..<?k] = []" using cl tz(3) by (auto simp: filter_empty_conv)
  have high: "filter (bit (w AND (w - 1))) [Suc ?k..<64] = filter (bit w) [Suc ?k..<64]"
    using cl by (intro filter_cong) auto
  show ?thesis
    unfolding word_bits_def split filter_append low low' using tz(2) cl high by simp
qed

subsection \<open>Invariant and abstraction\<close>

definition bm_set :: "bitmap \<Rightarrow> nat set" where
  "bm_set b = bits_of (bm_words b)"

definition bm_inv :: "bitmap \<Rightarrow> bool" where
  "bm_inv b \<longleftrightarrow> length (bm_words b) = div_ceil (bm_len b) 64 \<and> bm_set b \<subseteq> {..<bm_len b}
     \<and> bm_ones b = card (bm_set b)"

lemma finite_bm_set [simp]: "finite (bm_set b)"
  by (simp add: bm_set_def)

lemma bm_index:
  "bm_inv b \<Longrightarrow> i < bm_len b \<Longrightarrow> i div 64 < length (bm_words b) \<and> i < 64 * length (bm_words b)"
  using index_in_words [of i "bm_len b"] div_ceil_le [of "bm_len b"] by (simp add: bm_inv_def)

lemma bitmap_get_iff: "bm_inv b \<Longrightarrow> bitmap_get b i \<longleftrightarrow> i \<in> bm_set b"
  using bm_index [of b i]
  by (cases "i < bm_len b") (auto simp: bitmap_get_def test_mask bm_set_def in_bits_of bm_inv_def simp del: push_bit_of_1)

lemma bitmap_new_correct: "bm_inv (bitmap_new n)" "bm_set (bitmap_new n) = {}"
  by (simp_all add: bm_inv_def bm_set_def bitmap_new_def bits_of_replicate)

lemma bitmap_all_set_correct: "bm_inv (bitmap_all_set n)" "bm_set (bitmap_all_set n) = {..<n}"
proof -
  show s: "bm_set (bitmap_all_set n) = {..<n}"
    using div_ceil_le [of n]
    by (auto simp: bm_set_def bitmap_all_set_def bitmap_clear_tail_def bits_of_clear_tail bits_of_replicate)
  then show "bm_inv (bitmap_all_set n)"
    by (simp add: bm_inv_def) (simp add: bitmap_all_set_def bitmap_clear_tail_def)
qed

lemma bitmap_assign_cases:
  assumes "bm_inv b"
  shows "bitmap_assign b i v =
    (if bm_len b \<le> i \<or> (i \<in> bm_set b) = v then (b, False)
     else if v then (b\<lparr>bm_words := (bm_words b)[i div 64 := bm_words b ! (i div 64) OR push_bit (i mod 64) 1],
                      bm_ones := bm_ones b + 1\<rparr>, True)
     else (b\<lparr>bm_words := (bm_words b)[i div 64 := bm_words b ! (i div 64) AND NOT (push_bit (i mod 64) 1)],
              bm_ones := bm_ones b - 1\<rparr>, True))"
proof (cases "i < bm_len b")
  case True
  with bm_index [OF assms] show ?thesis
    by (simp add: bitmap_assign_def not_le [symmetric] Let_def test_mask bm_set_def in_bits_of del: push_bit_of_1)
next
  case False
  then show ?thesis by (simp add: bitmap_assign_def)
qed

lemma bitmap_assign_correct:
  assumes "bm_inv b"
  shows "bm_set (fst (bitmap_assign b i v)) =
      (if bm_len b \<le> i then bm_set b else if v then insert i (bm_set b) else bm_set b - {i})"
    and "snd (bitmap_assign b i v) \<longleftrightarrow> i < bm_len b \<and> (i \<in> bm_set b) \<noteq> v"
    and "bm_len (fst (bitmap_assign b i v)) = bm_len b"
    and "bm_inv (fst (bitmap_assign b i v))"
proof -
  note c = bitmap_assign_cases [OF assms, of i v] and ix = bm_index [OF assms, of i]
  show s: "bm_set (fst (bitmap_assign b i v)) =
      (if bm_len b \<le> i then bm_set b else if v then insert i (bm_set b) else bm_set b - {i})"
    unfolding c using ix
    by (auto simp: bm_set_def bits_of_set_bit bits_of_clear_bit simp del: push_bit_of_1)
  show "snd (bitmap_assign b i v) \<longleftrightarrow> i < bm_len b \<and> (i \<in> bm_set b) \<noteq> v"
    by (auto simp: c)
  show l: "bm_len (fst (bitmap_assign b i v)) = bm_len b"
    by (simp add: c)
  have w: "length (bm_words (fst (bitmap_assign b i v))) = length (bm_words b)" by (simp add: c)
  have "bm_ones (fst (bitmap_assign b i v)) = card (bm_set (fst (bitmap_assign b i v)))"
    unfolding s using assms by (auto simp: c bm_inv_def insert_absorb)
  with s l w assms show "bm_inv (fst (bitmap_assign b i v))" by (auto simp: bm_inv_def split: if_splits)
qed

lemma resize_words_length [simp]: "length (resize_words n ws) = n"
  by (simp add: resize_words_def)

lemma bits_of_resize: "bits_of (resize_words n ws) = bits_of ws \<inter> {..<64 * n}"
  by (simp add: resize_words_def bits_of_take)

lemma bitmap_grow_correct:
  assumes "bm_inv b"
  shows "bm_inv (bitmap_grow b n)" "bm_set (bitmap_grow b n) = bm_set b" "bm_len (bitmap_grow b n) = max n (bm_len b)"
proof -
  have "bm_set b \<subseteq> {..<64 * div_ceil n 64}" if "bm_len b < n"
    using assms that div_ceil_le [of n] by (auto simp: bm_inv_def)
  then have s: "bm_set (bitmap_grow b n) = bm_set b"
    by (auto simp: bitmap_grow_def bm_set_def bits_of_resize)
  then show "bm_set (bitmap_grow b n) = bm_set b" .
  show "bm_len (bitmap_grow b n) = max n (bm_len b)" by (simp add: bitmap_grow_def)
  have "bm_ones (bitmap_grow b n) = bm_ones b" by (simp add: bitmap_grow_def)
  with s assms show "bm_inv (bitmap_grow b n)"
    by (auto simp: bm_inv_def) (auto simp: bitmap_grow_def)
qed

lemma bitmap_clear_all_correct:
  "bm_inv b \<Longrightarrow> bm_inv (bitmap_clear_all b)" "bm_set (bitmap_clear_all b) = {}"
  by (simp_all add: bm_inv_def bm_set_def bitmap_clear_all_def bits_of_replicate)

lemma bitmap_from_words_correct:
  "bm_inv (bitmap_from_words ws n)" "bm_set (bitmap_from_words ws n) = bits_of ws \<inter> {..<n}"
proof -
  show "bm_set (bitmap_from_words ws n) = bits_of ws \<inter> {..<n}"
    using div_ceil_le [of n]
    by (auto simp: bm_set_def bitmap_from_words_def Let_def bitmap_clear_tail_def bits_of_clear_tail bits_of_resize)
  then show "bm_inv (bitmap_from_words ws n)"
    using popcount_card [of "bm_words (bitmap_from_words ws n)"]
    by (simp add: bm_inv_def) (simp add: bitmap_from_words_def Let_def bitmap_clear_tail_def bm_set_def popcount_def)
qed

subsection \<open>What the iterator yields\<close>

definition pending :: "set_bits \<Rightarrow> nat list" where
  "pending s = map (\<lambda>b. sb_word_idx s * 64 + b) (word_bits (sb_current s))
     @ concat (map (\<lambda>j. map (\<lambda>b. j * 64 + b) (word_bits (sb_words s ! j))) [Suc (sb_word_idx s)..<length (sb_words s)])"

lemma set_bits_next_None: "set_bits_next s = (None, s') \<Longrightarrow> pending s = []"
proof (induction s rule: set_bits_next.induct)
  case (1 s)
  show ?case
  proof (cases "Suc (sb_word_idx s) < length (sb_words s)")
    case True
    with 1 show ?thesis
      by (subst (asm) set_bits_next.simps) (auto simp: pending_def upt_conv_Cons split: if_splits)
  next
    case False
    with 1 show ?thesis
      by (subst (asm) set_bits_next.simps) (auto simp: pending_def split: if_splits)
  qed
qed

lemma set_bits_next_Some: "set_bits_next s = (Some i, s') \<Longrightarrow> pending s = i # pending s'"
proof (induction s rule: set_bits_next.induct)
  case (1 s)
  show ?case
  proof (cases "sb_current s = 0 \<and> Suc (sb_word_idx s) < length (sb_words s)")
    case True
    with 1 show ?thesis
      by (subst (asm) set_bits_next.simps) (auto simp: pending_def upt_conv_Cons)
  next
    case False
    with 1(2) show ?thesis
      by (subst (asm) set_bits_next.simps) (auto simp: pending_def word_bits_step split: if_splits)
  qed
qed

lemma pending_less: "set_bits_next s = (Some i, s') \<Longrightarrow> length (pending s') < length (pending s)"
  by (simp add: set_bits_next_Some)

text \<open>Draining the iterator, as a \<open>for\<close> loop or \<open>collect\<close> does.\<close>

function set_bits_collect :: "set_bits \<Rightarrow> nat list" where
  "set_bits_collect s =
     (case set_bits_next s of (None, _) \<Rightarrow> [] | (Some i, s') \<Rightarrow> i # set_bits_collect s')"
  by auto
termination
  by (relation "measure (\<lambda>s. length (pending s))") (auto dest!: pending_less [OF sym])

declare set_bits_collect.simps [simp del]

lemma set_bits_collect_pending: "set_bits_collect s = pending s"
proof (induction s rule: set_bits_collect.induct)
  case (1 s)
  then show ?case
    by (subst set_bits_collect.simps)
      (auto split: prod.splits option.splits dest: set_bits_next_None set_bits_next_Some)
qed

lemma concat_word_bits:
  "concat (map (\<lambda>j. map (\<lambda>b. j * 64 + b) (word_bits (ws ! j))) [0..<n])
   = filter (\<lambda>i. bit (ws ! (i div 64)) (i mod 64)) [0..<64 * n]"
proof (induction n)
  case 0
  then show ?case by simp
next
  case (Suc n)
  have up: "[0..<64 * Suc n] = [0..<64 * n] @ map (\<lambda>b. n * 64 + b) [0..<64]"
  proof -
    have "[0..<64 * Suc n] = [0..<64 * n] @ [64 * n..<64 * n + 64]"
      using upt_add_eq_append [of 0 "64 * n" 64] by (simp add: add.commute)
    also have "[64 * n..<64 * n + 64] = map (\<lambda>b. n * 64 + b) [0..<64]"
      by (rule nth_equalityI) auto
    finally show ?thesis .
  qed
  have "filter (\<lambda>i. bit (ws ! (i div 64)) (i mod 64)) (map (\<lambda>b. n * 64 + b) [0..<64])
      = map (\<lambda>b. n * 64 + b) (filter (bit (ws ! n)) [0..<64])"
    unfolding filter_map o_def by (intro arg_cong [where f = "map _"] filter_cong) auto
  with Suc up show ?case by (simp only: filter_append upt_Suc_append map_append concat_append word_bits_def) (simp add: word_bits_def)
qed

lemma pending_iter_set: "pending (iter_set b) = filter (\<lambda>i. i \<in> bm_set b) [0..<64 * length (bm_words b)]"
proof -
  have "pending (iter_set b)
      = concat (map (\<lambda>j. map (\<lambda>b. j * 64 + b) (word_bits (bm_words b ! j))) [0..<length (bm_words b)])"
    by (cases "bm_words b") (simp_all add: pending_def iter_set_def upt_conv_Cons map_idI del: upt_Suc)
  also have "\<dots> = filter (\<lambda>i. i \<in> bm_set b) [0..<64 * length (bm_words b)]"
    unfolding concat_word_bits by (intro filter_cong) (auto simp: bm_set_def in_bits_of)
  finally show ?thesis .
qed

lemma iter_set_collect:
  assumes "bm_inv b"
  shows "set_bits_collect (iter_set b) = filter (bitmap_get b) [0..<bm_len b]"
proof -
  let ?n = "64 * length (bm_words b)"
  have le: "bm_len b \<le> ?n" using assms div_ceil_le [of "bm_len b"] by (simp add: bm_inv_def)
  have "filter (\<lambda>i. i \<in> bm_set b) [bm_len b..<?n] = []"
    using assms by (auto simp: filter_empty_conv bm_inv_def)
  with upt_split [OF le] have "filter (\<lambda>i. i \<in> bm_set b) [0..<?n] = filter (\<lambda>i. i \<in> bm_set b) [0..<bm_len b]"
    by (metis append_Nil2 filter_append)
  moreover have "bitmap_get b = (\<lambda>i. i \<in> bm_set b)" using bitmap_get_iff [OF assms] by auto
  ultimately show ?thesis by (simp add: set_bits_collect_pending pending_iter_set)
qed

subsection \<open>Sequences of operations against the set\<close>

datatype bitmap_op = OSet nat | OClear nat | OGrow nat | OClearAll

primrec bitmap_step :: "bitmap_op \<Rightarrow> bitmap \<Rightarrow> bitmap \<times> bool" where
  "bitmap_step (OSet i) b = bitmap_set b i"
| "bitmap_step (OClear i) b = bitmap_clear b i"
| "bitmap_step (OGrow n) b = (bitmap_grow b n, False)"
| "bitmap_step OClearAll b = (bitmap_clear_all b, False)"

text \<open>The specification: a length and a set below it.\<close>

primrec set_step :: "bitmap_op \<Rightarrow> nat \<times> nat set \<Rightarrow> (nat \<times> nat set) \<times> bool" where
  "set_step (OSet i) s = (case s of (n, S) \<Rightarrow> if i < n then ((n, insert i S), i \<notin> S) else ((n, S), False))"
| "set_step (OClear i) s = (case s of (n, S) \<Rightarrow> ((n, S - {i}), i \<in> S))"
| "set_step (OGrow m) s = (case s of (n, S) \<Rightarrow> ((max m n, S), False))"
| "set_step OClearAll s = (case s of (n, S) \<Rightarrow> ((n, {}), False))"

fun run_ops :: "('op \<Rightarrow> 's \<Rightarrow> 's \<times> 'r) \<Rightarrow> 'op list \<Rightarrow> 's \<Rightarrow> 's \<times> 'r list" where
  "run_ops f [] s = (s, [])"
| "run_ops f (x # xs) s = (let (s', r) = f x s; (s'', rs) = run_ops f xs s' in (s'', r # rs))"

definition bm_abs :: "bitmap \<Rightarrow> nat \<times> nat set" where
  "bm_abs b = (bm_len b, bm_set b)"

lemma bitmap_step_refines:
  assumes "bm_inv b"
  shows "bm_inv (fst (bitmap_step x b))"
    and "set_step x (bm_abs b) = (bm_abs (fst (bitmap_step x b)), snd (bitmap_step x b))"
proof -
  have in_len: "i \<in> bm_set b \<Longrightarrow> i < bm_len b" for i using assms by (auto simp: bm_inv_def)
  show "bm_inv (fst (bitmap_step x b))"
    using assms by (cases x)
      (simp_all add: bitmap_set_def bitmap_clear_def bitmap_assign_correct bitmap_grow_correct bitmap_clear_all_correct)
  show "set_step x (bm_abs b) = (bm_abs (fst (bitmap_step x b)), snd (bitmap_step x b))"
    using assms
    by (cases x) (auto simp: bm_abs_def bitmap_set_def bitmap_clear_def bitmap_assign_correct bitmap_grow_correct
        bitmap_clear_all_correct dest: in_len leD, auto simp: bitmap_clear_all_def)
qed

lemma bitmap_run_refines:
  assumes "bm_inv b"
  shows "bm_inv (fst (run_ops bitmap_step xs b)) \<and>
    run_ops set_step xs (bm_abs b) = (bm_abs (fst (run_ops bitmap_step xs b)), snd (run_ops bitmap_step xs b))"
  using assms
proof (induction xs arbitrary: b)
  case Nil
  then show ?case by simp
next
  case (Cons x xs)
  from bitmap_step_refines [OF Cons.prems, of x] Cons.IH show ?case
    by (simp add: case_prod_beta Let_def)
qed

subsection \<open>Properties\<close>

text \<open>
  Property C31.  The bitmap refines the finite set: after any sequence of sets, clears, grows
  and clear-alls on a fresh bitmap of \<open>n\<close> bits, the reported changes and the final length and
  members are those of the same sequence on the abstract set, membership is what \<open>get\<close>
  answers, and the maintained count is the set's cardinality.
\<close>

theorem bitmap_refines_set:
  "let (b, rs) = run_ops bitmap_step xs (bitmap_new n); ((l, S), rs') = run_ops set_step xs (n, {})
   in rs = rs' \<and> bm_len b = l \<and> (\<forall>i. bitmap_get b i = (i \<in> S)) \<and> bitmap_count b = card S"
proof -
  have "bm_abs (bitmap_new n) = (n, {})"
    by (simp add: bm_abs_def bitmap_new_correct) (simp add: bitmap_new_def)
  with bitmap_run_refines [OF bitmap_new_correct(1), of xs n]
  have "bm_inv (fst (run_ops bitmap_step xs (bitmap_new n)))"
    and "run_ops set_step xs (n, {}) = (bm_abs (fst (run_ops bitmap_step xs (bitmap_new n))),
           snd (run_ops bitmap_step xs (bitmap_new n)))" by simp_all
  then show ?thesis
    by (simp add: case_prod_beta bm_abs_def bitmap_get_iff bitmap_count_def) (simp add: bm_inv_def)
qed

text \<open>
  Property C32.  The word-at-a-time iterator of a bitmap rebuilt from stored words yields
  exactly the indices that \<open>get\<close> reports, in ascending order and each once, and never one
  at or past the length.
\<close>

theorem iter_set_ascending:
  "set_bits_collect (iter_set (bitmap_from_words ws n))
     = filter (bitmap_get (bitmap_from_words ws n)) [0..<n]"
proof -
  have "bm_len (bitmap_from_words ws n) = n"
    by (simp add: bitmap_from_words_def Let_def bitmap_clear_tail_def)
  with iter_set_collect [OF bitmap_from_words_correct(1), of ws n] show ?thesis by simp
qed

end
