(* ===== verification/Hnsw_Graph.thy ===== *)
theory Hnsw_Graph
  imports Search_Index Filter_Eval
begin

text \<open>
  The graph of the approximate index (\<open>index-hnsw/src/graph.rs\<close>, \<open>params.rs\<close>, \<open>score.rs\<close>): its
  parameters, its layers of neighbour lists, the level of a row, and the scorer of a traversal.
  A node is an index into the graph's arrays; reading an array out of range would panic, and
  \<open>hg_wf\<close> of \<open>Hnsw_Build\<close> is the invariant under which no read is.
\<close>

unbundle bit_operations_syntax

subsection \<open>Parameters\<close>

record hnsw_params =
  hp_m :: nat
  hp_ef_construction :: nat
  hp_ef_search :: nat
  hp_seed :: u64

definition hp_default :: hnsw_params where
  "hp_default = \<lparr>hp_m = 16, hp_ef_construction = 200, hp_ef_search = 64, hp_seed = 0x5EED1234ABCD0001\<rparr>"

definition hp_m0 :: "hnsw_params \<Rightarrow> nat" where
  "hp_m0 P = hp_m P * 2"

definition hp_with_m :: "nat \<Rightarrow> hnsw_params \<Rightarrow> hnsw_params" where
  "hp_with_m m P = P\<lparr>hp_m := m\<rparr>"

definition hp_with_ef_construction :: "nat \<Rightarrow> hnsw_params \<Rightarrow> hnsw_params" where
  "hp_with_ef_construction ef P = P\<lparr>hp_ef_construction := ef\<rparr>"

definition hp_with_ef_search :: "nat \<Rightarrow> hnsw_params \<Rightarrow> hnsw_params" where
  "hp_with_ef_search ef P = P\<lparr>hp_ef_search := ef\<rparr>"

definition hp_with_seed :: "u64 \<Rightarrow> hnsw_params \<Rightarrow> hnsw_params" where
  "hp_with_seed seed P = P\<lparr>hp_seed := seed\<rparr>"

definition hp_valid :: "hnsw_params \<Rightarrow> bool" where
  "hp_valid P \<longleftrightarrow> hp_m P \<ge> 2 \<and> hp_ef_construction P \<ge> 1 \<and> hp_ef_search P \<ge> 1"

subsection \<open>The graph\<close>

type_synonym node = u32

text \<open>A row as the index reads it: its id, its components and its inverse norm.\<close>

type_synonym decoded_row = "row_id \<times> u32 list \<times> u32"

record hgraph =
  hg_rows :: "row_id list"
  hg_vectors :: "u32 list"
  hg_inv_norms :: "u32 list"
  hg_levels :: "u8 list"
  hg_layers :: "node list list list"
  hg_entry :: "node option"
  hg_dimension :: nat
  hg_metric :: "metric option"

definition hg_default :: hgraph where
  "hg_default = \<lparr>hg_rows = [], hg_vectors = [], hg_inv_norms = [], hg_levels = [], hg_layers = [], hg_entry = None,
     hg_dimension = 0, hg_metric = None\<rparr>"

definition hg_len :: "hgraph \<Rightarrow> nat" where
  "hg_len g = length (hg_rows g)"

definition hg_vector :: "hgraph \<Rightarrow> node \<Rightarrow> u32 list" where
  "hg_vector g n = take (hg_dimension g) (drop (unat n * hg_dimension g) (hg_vectors g))"

definition hg_neighbours :: "hgraph \<Rightarrow> nat \<Rightarrow> node \<Rightarrow> node list" where
  "hg_neighbours g layer n =
     (if layer < length (hg_layers g) \<and> unat n < length (hg_layers g ! layer) then hg_layers g ! layer ! unat n else [])"

text \<open>A layer made now gets a list for every node there is.\<close>

definition hg_push_node :: "row_id \<Rightarrow> u32 list \<Rightarrow> u32 \<Rightarrow> u8 \<Rightarrow> hgraph \<Rightarrow> node \<times> hgraph" where
  "hg_push_node row vector norm level g =
     (let n = of_nat (length (hg_rows g));
          layers = hg_layers g @ replicate (unat level + 1 - length (hg_layers g)) (replicate (unat n) []) in
      (n, g\<lparr>hg_rows := hg_rows g @ [row], hg_vectors := hg_vectors g @ vector, hg_inv_norms := hg_inv_norms g @ [norm],
            hg_levels := hg_levels g @ [level], hg_layers := map (\<lambda>layer. layer @ [[]]) layers\<rparr>))"

definition hg_memory_bytes :: "hgraph \<Rightarrow> nat" where
  "hg_memory_bytes g =
     (let links = sum_list (map (\<lambda>l. sum_list (map (\<lambda>n. length n * 4) l)) (hg_layers g)) in
      links + length (hg_rows g) * (8 + 1 + 4))"

definition hg_is_prefix_of :: "hgraph \<Rightarrow> decoded_row list \<Rightarrow> nat \<Rightarrow> metric \<Rightarrow> bool" where
  "hg_is_prefix_of g rows dimension m \<longleftrightarrow>
     (if hg_metric g \<noteq> Some m \<or> hg_dimension g \<noteq> dimension then False
      else if hg_len g > length rows then False
      else list_all (\<lambda>(have, (want, _, _)). have = want) (zip (hg_rows g) rows))"

definition hg_is_valid_for :: "hgraph \<Rightarrow> nat \<Rightarrow> nat \<Rightarrow> metric \<Rightarrow> bool" where
  "hg_is_valid_for g rows dimension m \<longleftrightarrow> hg_metric g = Some m \<and> hg_dimension g = dimension \<and> hg_len g = rows"

subsection \<open>The level of a row\<close>

text \<open>
  The arithmetic of \<open>f64\<close> and the logarithm are parameters; conversions, comparison and negation
  are computed on the bits.
\<close>

record level_floats =
  lf_div :: "u64 \<Rightarrow> u64 \<Rightarrow> u64"
  lf_mul :: "u64 \<Rightarrow> u64 \<Rightarrow> u64"
  lf_ln :: "u64 \<Rightarrow> u64"
  lf_floor :: "u64 \<Rightarrow> u64"

definition MAX_LEVEL :: nat where
  "MAX_LEVEL = 16"

definition f64_clamp :: "u64 \<Rightarrow> u64 \<Rightarrow> u64 \<Rightarrow> u64" where
  "f64_clamp x lo hi =
     (if f64_partial_cmp x lo = Some Less then lo else if f64_partial_cmp x hi = Some Greater then hi else x)"

text \<open>\<open>x as u8\<close>: truncation, saturating, and 0 for a NaN.\<close>

definition f64_to_u8 :: "u64 \<Rightarrow> u8" where
  "f64_to_u8 x =
     (let e = unat (drop_bit 52 x AND 0x7FF); f = 2 ^ 52 + unat (x AND mask 52) in
      if f64_is_nan x \<or> bit x 63 \<or> e < 1023 then 0
      else if e \<ge> 1031 then 255
      else of_nat (f div 2 ^ (1075 - e)))"

definition level_for :: "level_floats \<Rightarrow> row_id \<Rightarrow> hnsw_params \<Rightarrow> u8" where
  "level_for L row P =
     (let z = row + hp_seed P + 0x9E3779B97F4A7C15;
          z = (z XOR drop_bit 30 z) * 0xBF58476D1CE4E5B9;
          z = (z XOR drop_bit 27 z) * 0x94D049BB133111EB;
          z = z XOR drop_bit 31 z;
          u = lf_div L (nat_to_f64 (unat (drop_bit 11 z))) (nat_to_f64 (2 ^ 53));
          tiny = 0x0010000000000000;
          u = (if f64_partial_cmp u tiny \<in> {Some Less, Some Equal} then tiny else u);
          m_l = lf_div L 0x3FF0000000000000 (lf_ln L (nat_to_f64 (hp_m P)));
          level = lf_floor L (lf_mul L (lf_ln L u XOR 0x8000000000000000) m_l) in
      f64_to_u8 (f64_clamp level 0 (nat_to_f64 MAX_LEVEL)))"

subsection \<open>Scores\<close>

definition gscorer_new :: "fops \<Rightarrow> kernels \<Rightarrow> metric \<Rightarrow> u32 list \<Rightarrow> scorer" where
  "gscorer_new A K m query =
     (let norm = f_sqrt (fo_fpu A) (kernel_dot_f32 A K query query) in
      \<lparr>sco_metric = m, sco_query = query,
       sco_query_inv_norm = (if f32_positive norm \<and> f32_is_finite norm then f_recip (fo_fpu A) norm else 0)\<rparr>)"

definition gscore :: "fops \<Rightarrow> kernels \<Rightarrow> scorer \<Rightarrow> u32 list \<Rightarrow> u32 \<Rightarrow> u32" where
  "gscore A K s row row_inv_norm =
     (case sco_metric s of
        Cosine \<Rightarrow> fmul A (fmul A (kernel_dot_f32 A K (sco_query s) row) (sco_query_inv_norm s)) row_inv_norm
      | Dot \<Rightarrow> kernel_dot_f32 A K (sco_query s) row
      | L2 \<Rightarrow> fo_neg A (kernel_l2_f32 A K (sco_query s) row))"

text \<open>The score of a node of a graph.\<close>

definition node_score :: "fops \<Rightarrow> kernels \<Rightarrow> hgraph \<Rightarrow> scorer \<Rightarrow> node \<Rightarrow> u32" where
  "node_score A K g s n = gscore A K s (hg_vector g n) (hg_inv_norms g ! unat n)"

subsection \<open>Candidates\<close>

record hcand =
  hc_score :: u32
  hc_node :: node

definition f32_rank :: "u32 \<Rightarrow> int" where
  "f32_rank x = (if bit x 31 then - uint (x AND 0x7FFFFFFF) else uint x)"

definition f32_partial_cmp :: "u32 \<Rightarrow> u32 \<Rightarrow> ordering option" where
  "f32_partial_cmp a b = (if f32_is_nan a \<or> f32_is_nan b then None else Some (cmp (f32_rank a) (f32_rank b)))"

text \<open>
  \<open>Ord for Candidate\<close>, and the keys that give the same order while no score is a NaN: the greatest
  candidate is the best, the greatest of \<open>Worst\<close> the worst.  A NaN is equal to every score there,
  which is no total order, and what the heaps then do is unspecified.
\<close>

definition cand_cmp :: "hcand \<Rightarrow> hcand \<Rightarrow> ordering" where
  "cand_cmp a b =
     (case f32_partial_cmp (hc_score a) (hc_score b) of
        Some Less \<Rightarrow> Less
      | Some Greater \<Rightarrow> Greater
      | _ \<Rightarrow> cmp (hc_node b) (hc_node a))"

definition cand_key :: "hcand \<Rightarrow> int \<times> int" where
  "cand_key c = (f32_rank (hc_score c), - uint (hc_node c))"

definition wcand_key :: "hcand \<Rightarrow> int \<times> int" where
  "wcand_key c = (- f32_rank (hc_score c), uint (hc_node c))"

text \<open>\<open>sort_by(|a, b| b.cmp(a))\<close>: best first.\<close>

definition sort_best :: "hcand list \<Rightarrow> hcand list" where
  "sort_best = sort_key wcand_key"

lemma cand_key_cmp:
  assumes "\<not> f32_is_nan (hc_score a)" and "\<not> f32_is_nan (hc_score b)"
  shows "cand_cmp a b = cmp (cand_key a) (cand_key b)" and "cand_cmp b a = cmp (wcand_key a) (wcand_key b)"
  using assms by (auto simp: cand_cmp_def f32_partial_cmp_def cand_key_def wcand_key_def cmp_def word_less_def word_uint_eq_iff)

end
