(* ===== verification/Hnsw_Build.thy ===== *)
theory Hnsw_Build
  imports Hnsw_Graph
begin

text \<open>
  Building the graph (\<open>index-hnsw/src/build.rs\<close>): the nodes a traversal has seen, the beam search of a
  layer, the choice of neighbours, and the insertion of rows one after the other.
\<close>

subsection \<open>Nodes seen\<close>

record visited =
  vi_stamp :: "u32 list"
  vi_generation :: u32

definition visited_default :: visited where
  "visited_default = \<lparr>vi_stamp = [], vi_generation = 0\<rparr>"

definition visited_begin :: "nat \<Rightarrow> visited \<Rightarrow> visited" where
  "visited_begin len v =
     (let v = v\<lparr>vi_stamp := vi_stamp v @ replicate (len - length (vi_stamp v)) 0\<rparr> in
      if vi_generation v = - 1
      then v\<lparr>vi_stamp := replicate (length (vi_stamp v)) 0, vi_generation := 1\<rparr>
      else v\<lparr>vi_generation := vi_generation v + 1\<rparr>)"

text \<open>\<open>true\<close> also for a node beyond the stamps.\<close>

definition visited_seen :: "nat \<Rightarrow> visited \<Rightarrow> bool \<times> visited" where
  "visited_seen n v =
     (if n < length (vi_stamp v)
      then if vi_stamp v ! n = vi_generation v then (True, v)
           else (False, v\<lparr>vi_stamp := (vi_stamp v)[n := vi_generation v]\<rparr>)
      else (True, v))"

subsection \<open>The beam search of a layer\<close>

type_synonym beam = "visited \<times> hcand list \<times> hcand list"

text \<open>
  The state is what is seen, the frontier and the results; the frontier is a heap whose greatest
  element is the best, the results one whose greatest is the worst.
\<close>

definition enter_beam :: "fops \<Rightarrow> kernels \<Rightarrow> hgraph \<Rightarrow> scorer \<Rightarrow> node \<Rightarrow> beam \<Rightarrow> beam" where
  "enter_beam A K g s entry = (\<lambda>(v, frontier, results).
     if unat entry \<ge> hg_len g then (v, frontier, results)
     else case visited_seen (unat entry) v of
       (True, v) \<Rightarrow> (v, frontier, results)
     | (False, v) \<Rightarrow>
         let c = \<lparr>hc_score = node_score A K g s entry, hc_node = entry\<rparr> in
         (v, bh_push cand_key c frontier, bh_push wcand_key c results))"

definition visit_neighbour :: "fops \<Rightarrow> kernels \<Rightarrow> hgraph \<Rightarrow> scorer \<Rightarrow> nat \<Rightarrow> node \<Rightarrow> beam \<Rightarrow> beam" where
  "visit_neighbour A K g s ef n = (\<lambda>(v, frontier, results).
     if unat n \<ge> hg_len g then (v, frontier, results)
     else case visited_seen (unat n) v of
       (True, v) \<Rightarrow> (v, frontier, results)
     | (False, v) \<Rightarrow>
         let c = \<lparr>hc_score = node_score A K g s n, hc_node = n\<rparr>;
             worst_kept = map_option hc_score (bh_peek results) in
         if length results < ef \<or> (case worst_kept of Some w \<Rightarrow> f32_lt w (hc_score c) | None \<Rightarrow> False)
         then let results = bh_push wcand_key c results in
              (v, bh_push cand_key c frontier, if length results > ef then bh_pop results else results)
         else (v, frontier, results))"

definition beam_done :: "nat \<Rightarrow> hcand \<Rightarrow> hcand list \<Rightarrow> bool" where
  "beam_done ef current results \<longleftrightarrow>
     (case bh_peek results of Some worst \<Rightarrow> length results \<ge> ef \<and> f32_lt (hc_score current) (hc_score worst) | None \<Rightarrow> False)"

definition unseen :: "visited \<Rightarrow> nat" where
  "unseen v = card {i. i < length (vi_stamp v) \<and> vi_stamp v ! i \<noteq> vi_generation v}"

lemma seen_unseen: "visited_seen n v = (b, v') \<Longrightarrow> unseen v = unseen v' + (if b then 0 else 1)"
proof -
  assume s: "visited_seen n v = (b, v')"
  show ?thesis
  proof (cases b)
    case True
    with s have "v' = v" by (auto simp: visited_seen_def split: if_splits)
    with True show ?thesis by simp
  next
    case False
    with s have n: "n < length (vi_stamp v)" "vi_stamp v ! n \<noteq> vi_generation v"
      and v': "v' = v\<lparr>vi_stamp := (vi_stamp v)[n := vi_generation v]\<rparr>" by (auto simp: visited_seen_def split: if_splits)
    let ?U = "\<lambda>v. {i. i < length (vi_stamp v) \<and> vi_stamp v ! i \<noteq> vi_generation v}"
    have "?U v = insert n (?U v')" "n \<notin> ?U v'" using n by (auto simp: v' nth_list_update)
    then show ?thesis using False by (simp add: unseen_def)
  qed
qed

lemma length_bh_push [simp]: "length (bh_push f x h) = Suc (length h)"
  by (induction h) auto

lemma visit_measure:
  assumes "visit_neighbour A K g s ef n (v, frontier, results) = (v', frontier', results')"
  shows "unseen v' + length frontier' \<le> unseen v + length frontier"
proof -
  obtain b w where sn: "visited_seen (unat n) v = (b, w)" by fastforce
  from assms show ?thesis
    using seen_unseen [OF sn] by (auto simp: visit_neighbour_def sn Let_def split: if_splits bool.splits)
qed

lemma visits_measure:
  "fold (visit_neighbour A K g s ef) ns (v, frontier, results) = (v', frontier', results')
   \<Longrightarrow> unseen v' + length frontier' \<le> unseen v + length frontier"
proof (induction ns arbitrary: v frontier results)
  case Nil
  then show ?case by simp
next
  case (Cons n ns)
  obtain w f r where st: "visit_neighbour A K g s ef n (v, frontier, results) = (w, f, r)" by (metis prod_cases3)
  with Cons show ?case using visit_measure [OF st] by fastforce
qed

function beam_search :: "fops \<Rightarrow> kernels \<Rightarrow> hgraph \<Rightarrow> scorer \<Rightarrow> nat \<Rightarrow> nat \<Rightarrow> beam \<Rightarrow> beam" where
  "beam_search A K g s layer ef (v, frontier, results) =
     (case bh_peek frontier of
        None \<Rightarrow> (v, frontier, results)
      | Some current \<Rightarrow>
          let frontier = bh_pop frontier in
          if beam_done ef current results then (v, frontier, results)
          else beam_search A K g s layer ef
            (fold (visit_neighbour A K g s ef) (hg_neighbours g layer (hc_node current)) (v, frontier, results)))"
  by pat_completeness auto
termination
proof (relation "measure (\<lambda>(A, K, g, s, layer, ef, v, frontier, results). unseen v + length frontier)", goal_cases)
  case 1
  show ?case by simp
next
  case (2 A K g s layer ef v frontier results current frontier')
  obtain v1 f1 r1 where st: "fold (visit_neighbour A K g s ef) (hg_neighbours g layer (hc_node current)) (v, frontier', results) = (v1, f1, r1)"
    by (metis prod_cases3)
  have "length frontier' < length frontier" using 2(1,2) by (cases frontier) (auto simp: bh_pop_def)
  with visits_measure [OF st] show ?case by (simp add: st)
qed

declare beam_search.simps [simp del]

definition search_layer ::
  "fops \<Rightarrow> kernels \<Rightarrow> hgraph \<Rightarrow> scorer \<Rightarrow> node list \<Rightarrow> nat \<Rightarrow> nat \<Rightarrow> visited \<Rightarrow> hcand list \<times> visited" where
  "search_layer A K g s entries layer ef v =
     (case beam_search A K g s layer ef (fold (enter_beam A K g s) entries (visited_begin (hg_len g) v, [], [])) of
        (v, frontier, results) \<Rightarrow> (sort_best results, v))"

subsection \<open>The greedy descent of a layer\<close>

definition descend_pass :: "fops \<Rightarrow> kernels \<Rightarrow> hgraph \<Rightarrow> scorer \<Rightarrow> nat \<Rightarrow> node \<times> u32 \<Rightarrow> (node \<times> u32) \<times> bool" where
  "descend_pass A K g s layer = (\<lambda>(current, score).
     fold (\<lambda>n ((current, score), improved).
       let x = node_score A K g s n in if f32_lt score x then ((n, x), True) else ((current, score), improved))
     (hg_neighbours g layer current) ((current, score), False))"

text \<open>Every pass that improves raises the score.\<close>

lemma pass_raises:
  "fold (\<lambda>n ((current, score), improved).
     let x = h n in if f32_lt score x then ((n, x), True) else ((current, score), improved)) ns ((c, x), b) = ((c', x'), b')
   \<Longrightarrow> f32_key x \<le> f32_key x' \<and> (b' \<longrightarrow> b \<or> f32_key x < f32_key x')"
proof (induction ns arbitrary: c x b)
  case Nil
  then show ?case by simp
next
  case (Cons n ns)
  show ?case
  proof (cases "f32_lt x (h n)")
    case True
    then have "f32_key x < f32_key (h n)" by (simp add: f32_lt_def)
    with Cons.IH [of n "h n" True] Cons.prems True show ?thesis by (auto simp: Let_def)
  next
    case False
    with Cons.IH [of c x b] Cons.prems show ?thesis by (auto simp: Let_def)
  qed
qed

lemma f32_key_less: "f32_key x < 2 ^ 32"
proof -
  have "uint x < 2 ^ 32" using unsigned_less [of x, where 'a = int] by simp
  moreover have "0 \<le> uint (x AND 0x7FFFFFFF)" by simp
  then have "- uint (x AND 0x7FFFFFFF) - 1 < 4294967296" by linarith
  ultimately show ?thesis by (simp add: f32_key_def)
qed

lemma descend_pass_raises:
  assumes "descend_pass A K g s layer (c, x) = ((c', x'), True)"
  shows "nat (2 ^ 32 - f32_key x') < nat (2 ^ 32 - f32_key x)"
  using pass_raises [OF assms [unfolded descend_pass_def prod.case]] f32_key_less [of x'] by simp

function descend_layer :: "fops \<Rightarrow> kernels \<Rightarrow> hgraph \<Rightarrow> scorer \<Rightarrow> nat \<Rightarrow> node \<times> u32 \<Rightarrow> node \<times> u32" where
  "descend_layer A K g s layer cur =
     (case descend_pass A K g s layer cur of
        (cur, improved) \<Rightarrow> if improved then descend_layer A K g s layer cur else cur)"
  by pat_completeness auto
termination
proof (relation "measure (\<lambda>(A, K, g, s, layer, c, x). nat (2 ^ 32 - f32_key x))", goal_cases)
  case (2 A K g s layer cur cur' improved)
  obtain c x c' x' where "cur = (c, x)" "cur' = (c', x')" by fastforce
  with 2 descend_pass_raises [of A K g s layer c x c' x'] show ?case by simp
qed simp

declare descend_layer.simps [simp del]

subsection \<open>Neighbours\<close>

text \<open>A node is chosen while fewer than \<open>max\<close> are, and no chosen one is closer to it than the query.\<close>

definition choose_diverse :: "fops \<Rightarrow> kernels \<Rightarrow> hgraph \<Rightarrow> metric \<Rightarrow> nat \<Rightarrow> hcand \<Rightarrow> node list \<Rightarrow> node list" where
  "choose_diverse A K g m mx candidate kept =
     (if length kept \<ge> mx then kept
      else
        let to_candidate = gscorer_new A K m (hg_vector g (hc_node candidate)) in
        if list_ex (\<lambda>k. f32_lt (hc_score candidate) (node_score A K g to_candidate k)) kept then kept
        else kept @ [hc_node candidate])"

definition top_up :: "nat \<Rightarrow> hcand \<Rightarrow> node list \<Rightarrow> node list" where
  "top_up mx candidate kept =
     (if length kept \<ge> mx then kept else if hc_node candidate \<notin> set kept then kept @ [hc_node candidate] else kept)"

definition select_neighbours :: "fops \<Rightarrow> kernels \<Rightarrow> hgraph \<Rightarrow> hcand list \<Rightarrow> nat \<Rightarrow> metric \<Rightarrow> node list" where
  "select_neighbours A K g candidates mx m =
     (let kept = fold (choose_diverse A K g m mx) candidates [] in
      if length kept < mx then fold (top_up mx) candidates kept else kept)"

definition set_neighbours :: "nat \<Rightarrow> node \<Rightarrow> node list \<Rightarrow> hgraph \<Rightarrow> hgraph" where
  "set_neighbours layer n ns g =
     (if layer < length (hg_layers g) \<and> unat n < length (hg_layers g ! layer)
      then g\<lparr>hg_layers := (hg_layers g)[layer := (hg_layers g ! layer)[unat n := ns]]\<rparr> else g)"

definition connect :: "nat \<Rightarrow> node \<Rightarrow> node \<Rightarrow> hgraph \<Rightarrow> hgraph" where
  "connect layer n to g =
     (if n = to then g
      else if to \<in> set (hg_neighbours g layer n) then g
      else set_neighbours layer n (hg_neighbours g layer n @ [to]) g)"

definition prune :: "fops \<Rightarrow> kernels \<Rightarrow> nat \<Rightarrow> node \<Rightarrow> nat \<Rightarrow> metric \<Rightarrow> hgraph \<Rightarrow> hgraph" where
  "prune A K layer n mx m g =
     (if length (hg_neighbours g layer n) \<le> mx then g
      else
        let s = gscorer_new A K m (hg_vector g n);
            scored = sort_best (map (\<lambda>k. \<lparr>hc_score = node_score A K g s k, hc_node = k\<rparr>) (hg_neighbours g layer n)) in
        set_neighbours layer n (select_neighbours A K g scored mx m) g)"

subsection \<open>Insertion\<close>

definition link_layer ::
  "fops \<Rightarrow> kernels \<Rightarrow> hnsw_params \<Rightarrow> metric \<Rightarrow> scorer \<Rightarrow> node \<Rightarrow> nat
    \<Rightarrow> hgraph \<times> visited \<times> node list \<Rightarrow> hgraph \<times> visited \<times> node list" where
  "link_layer A K P m s n layer = (\<lambda>(g, v, entries).
     case search_layer A K g s entries layer (hp_ef_construction P) v of (found, v) \<Rightarrow>
     let mx = (if layer = 0 then hp_m0 P else hp_m P);
         chosen = select_neighbours A K g found mx m;
         g = fold (\<lambda>k g. prune A K layer k mx m (connect layer k n (connect layer n k g))) chosen g;
         entries = (if found \<noteq> [] then map hc_node found else entries) in
     (g, v, entries))"

definition hnsw_insert ::
  "fops \<Rightarrow> kernels \<Rightarrow> hnsw_params \<Rightarrow> metric \<Rightarrow> node \<Rightarrow> hgraph \<times> visited \<Rightarrow> hgraph \<times> visited" where
  "hnsw_insert A K P m n = (\<lambda>(g, v).
     case hg_entry g of
       None \<Rightarrow> (g\<lparr>hg_entry := Some n\<rparr>, v)
     | Some entry \<Rightarrow>
         let level = unat (hg_levels g ! unat n); entry_level = unat (hg_levels g ! unat entry);
             s = gscorer_new A K m (hg_vector g n);
             current = fst (fold (descend_layer A K g s) (rev [level + 1..<entry_level + 1]) (entry, node_score A K g s entry)) in
         (case fold (link_layer A K P m s n) (rev [0..<min level entry_level + 1]) (g, v, [current]) of (g, v, _) \<Rightarrow>
         (if level > entry_level then g\<lparr>hg_entry := Some n\<rparr> else g, v)))"

definition hnsw_add ::
  "fops \<Rightarrow> kernels \<Rightarrow> level_floats \<Rightarrow> hnsw_params \<Rightarrow> metric \<Rightarrow> decoded_row \<Rightarrow> hgraph \<times> visited \<Rightarrow> hgraph \<times> visited" where
  "hnsw_add A K L P m = (\<lambda>(row, vector, norm) (g, v).
     case hg_push_node row vector norm (level_for L row P) g of (n, g) \<Rightarrow> hnsw_insert A K P m n (g, v))"

definition hnsw_extend ::
  "fops \<Rightarrow> kernels \<Rightarrow> level_floats \<Rightarrow> decoded_row list \<Rightarrow> metric \<Rightarrow> hnsw_params \<Rightarrow> hgraph \<Rightarrow> hgraph" where
  "hnsw_extend A K L rows m P g = fst (fold (hnsw_add A K L P m) rows (g, visited_default))"

definition build_from ::
  "fops \<Rightarrow> kernels \<Rightarrow> level_floats \<Rightarrow> decoded_row list \<Rightarrow> nat \<Rightarrow> metric \<Rightarrow> hnsw_params \<Rightarrow> hgraph" where
  "build_from A K L rows dimension m P =
     fst (fold (hnsw_add A K L P m) rows (hg_default\<lparr>hg_dimension := dimension, hg_metric := Some m\<rparr>, visited_default))"

text \<open>Rows read from a source, of the source's dimension whatever their bytes.\<close>

definition decode_row :: "nat \<Rightarrow> bytes \<Rightarrow> u32 list" where
  "decode_row dimension bs = take dimension (f32s_of bs @ replicate dimension 0)"

definition decode_rows :: "vector_source \<Rightarrow> ('s, decoded_row list) io" where
  "decode_rows src = vs_for_each src (\<lambda>(row, bs, norm) out. io_ok (out @ [(row, decode_row (unat (vs_dimension src)) bs, norm)])) []"

end
