(* ===== verification/Hnsw_Snapshot.thy ===== *)
theory Hnsw_Snapshot
  imports Hnsw_Build
begin

text \<open>
  Saving and restoring a built graph (\<open>index-hnsw/src/snapshot.rs\<close>).  A reading that fails yields
  \<open>None\<close>, and the caller rebuilds.
\<close>

definition SNAPSHOT_VERSION :: u16 where
  "SNAPSHOT_VERSION = 1"

definition SNAPSHOT_MAGIC :: u32 where
  "SNAPSHOT_MAGIC = 0x484E5357"

definition MIN_BYTES_PER_NODE :: nat where
  "MIN_BYTES_PER_NODE = 10"

definition snap_metric_code :: "metric option \<Rightarrow> u16" where
  "snap_metric_code m = (case m of Some Cosine \<Rightarrow> 1 | Some L2 \<Rightarrow> 2 | Some Dot \<Rightarrow> 3 | None \<Rightarrow> 0)"

definition snap_metric_from :: "u16 \<Rightarrow> metric option" where
  "snap_metric_from code = (if code = 1 then Some Cosine else if code = 2 then Some L2 else if code = 3 then Some Dot else None)"

definition u32_of :: "nat \<Rightarrow> u32" where
  "u32_of n = of_nat n"

definition list_bytes :: "node list \<Rightarrow> bytes" where
  "list_bytes ns = to_le 4 (u32_of (length ns)) @ concat (map (to_le 4) ns)"

definition snapshot_header :: "hgraph \<Rightarrow> hnsw_params \<Rightarrow> bytes" where
  "snapshot_header g P =
     to_le 4 SNAPSHOT_MAGIC @ to_le 2 SNAPSHOT_VERSION @ to_le 2 (snap_metric_code (hg_metric g)) @ to_le 4 (u32_of (hg_dimension g))
     @ to_le 4 (u32_of (hp_m P)) @ to_le 4 (u32_of (hp_ef_construction P)) @ to_le 8 (hp_seed P)
     @ to_le 4 (u32_of (hg_len g)) @ to_le 4 (u32_of (length (hg_layers g)))
     @ (case hg_entry g of Some entry \<Rightarrow> 1 # to_le 4 entry | None \<Rightarrow> 0 # to_le 4 (0 :: u32))"

definition snapshot_encode :: "hgraph \<Rightarrow> hnsw_params \<Rightarrow> bytes" where
  "snapshot_encode g P =
     snapshot_header g P @ concat (map (to_le 8) (hg_rows g)) @ hg_levels g
     @ concat (map (\<lambda>layer. concat (map list_bytes layer)) (hg_layers g))"

record snapshot_head =
  sh_metric :: metric
  sh_dimension :: nat
  sh_nodes :: nat
  sh_layers :: nat
  sh_entry :: "node option"
  sh_params_match :: bool
  sh_body :: nat

text \<open>The reader: the bytes and the position in them.\<close>

type_synonym snap_cursor = "bytes \<times> nat"

definition sc_take :: "nat \<Rightarrow> snap_cursor \<Rightarrow> (bytes \<times> snap_cursor) option" where
  "sc_take n = (\<lambda>(bs, at). case slice bs at (at + n) of Some out \<Rightarrow> Some (out, (bs, at + n)) | None \<Rightarrow> None)"

definition sc_word :: "nat \<Rightarrow> snap_cursor \<Rightarrow> ('a::len word \<times> snap_cursor) option" where
  "sc_word n c = (case sc_take n c of Some (bs, c) \<Rightarrow> Some (from_le bs, c) | None \<Rightarrow> None)"

definition decode_header :: "bytes \<Rightarrow> hnsw_params \<Rightarrow> snapshot_head option" where
  "decode_header bs P =
     Option.bind (sc_word 4 (bs, 0)) (\<lambda>(magic, c).
     if magic \<noteq> SNAPSHOT_MAGIC then None
     else
     Option.bind (sc_word 2 c) (\<lambda>(version, c).
     if version \<noteq> SNAPSHOT_VERSION then None
     else
     Option.bind (sc_word 2 c) (\<lambda>(code, c).
     Option.bind (snap_metric_from code) (\<lambda>m.
     Option.bind (sc_word 4 c) (\<lambda>(dimension :: u32, c).
     Option.bind (sc_word 4 c) (\<lambda>(pm :: u32, c).
     Option.bind (sc_word 4 c) (\<lambda>(ef :: u32, c).
     Option.bind (sc_word 8 c) (\<lambda>(seed, c).
     Option.bind (sc_word 4 c) (\<lambda>(nodes :: u32, c).
     Option.bind (sc_word 4 c) (\<lambda>(layers :: u32, c).
     Option.bind (sc_word 1 c) (\<lambda>(has_entry :: u8, c).
     Option.bind (sc_word 4 c) (\<lambda>(entry_value :: u32, c).
     if unat nodes * MIN_BYTES_PER_NODE > length bs then None
     else if unat layers > MAX_LEVEL + 1 then None
     else
     Option.bind (if has_entry = 0 then Some None
                  else if has_entry = 1 \<and> unat entry_value < unat nodes then Some (Some entry_value) else None) (\<lambda>entry.
     Some \<lparr>sh_metric = m, sh_dimension = unat dimension, sh_nodes = unat nodes, sh_layers = unat layers, sh_entry = entry,
       sh_params_match = (unat pm = hp_m P \<and> unat ef = hp_ef_construction P \<and> seed = hp_seed P), sh_body = snd c\<rparr>)))))))))))))"

text \<open>The rows must be those of the source, in its order.\<close>

fun decode_ids :: "nat \<Rightarrow> decoded_row list \<Rightarrow> hgraph \<times> snap_cursor \<Rightarrow> (hgraph \<times> snap_cursor) option" where
  "decode_ids dimension [] (g, c) = Some (g, c)"
| "decode_ids dimension ((row, vector, norm) # rows) (g, c) =
     Option.bind (sc_word 8 c) (\<lambda>(have, c).
     if have \<noteq> row then None
     else if length vector \<noteq> dimension then None
     else decode_ids dimension rows
       (g\<lparr>hg_rows := hg_rows g @ [row], hg_vectors := hg_vectors g @ vector, hg_inv_norms := hg_inv_norms g @ [norm]\<rparr>, c))"

fun decode_list :: "nat \<Rightarrow> nat \<Rightarrow> snap_cursor \<Rightarrow> (node list \<times> snap_cursor) option" where
  "decode_list nodes 0 c = Some ([], c)"
| "decode_list nodes (Suc k) c =
     Option.bind (sc_word 4 c) (\<lambda>(n :: node, c).
     if unat n \<ge> nodes then None
     else Option.bind (decode_list nodes k c) (\<lambda>(ns, c). Some (n # ns, c)))"

fun decode_layer :: "nat \<Rightarrow> nat \<Rightarrow> snap_cursor \<Rightarrow> (node list list \<times> snap_cursor) option" where
  "decode_layer nodes 0 c = Some ([], c)"
| "decode_layer nodes (Suc k) c =
     Option.bind (sc_word 4 c) (\<lambda>(count :: u32, c).
     if unat count > nodes then None
     else
       Option.bind (decode_list nodes (unat count) c) (\<lambda>(ns, c).
       Option.bind (decode_layer nodes k c) (\<lambda>(layer, c). Some (ns # layer, c))))"

fun decode_layers :: "nat \<Rightarrow> nat \<Rightarrow> snap_cursor \<Rightarrow> (node list list list \<times> snap_cursor) option" where
  "decode_layers nodes 0 c = Some ([], c)"
| "decode_layers nodes (Suc k) c =
     Option.bind (decode_layer nodes nodes c) (\<lambda>(layer, c).
     Option.bind (decode_layers nodes k c) (\<lambda>(layers, c). Some (layer # layers, c)))"

definition snapshot_decode :: "bytes \<Rightarrow> snapshot_head \<Rightarrow> decoded_row list \<Rightarrow> hgraph option" where
  "snapshot_decode bs h rows =
     (if sh_nodes h \<noteq> length rows then None
      else
        Option.bind (sc_take (sh_body h) (bs, 0)) (\<lambda>(_, c).
        let g = hg_default\<lparr>hg_dimension := sh_dimension h, hg_metric := Some (sh_metric h), hg_entry := sh_entry h\<rparr> in
        Option.bind (decode_ids (sh_dimension h) rows (g, c)) (\<lambda>(g, c).
        Option.bind (sc_take (sh_nodes h) c) (\<lambda>(levels, c).
        Option.bind (decode_layers (sh_nodes h) (sh_layers h) c) (\<lambda>(layers, c).
        if length levels \<noteq> sh_nodes h \<or> list_ex (\<lambda>l. length l \<noteq> sh_nodes h) layers then None
        else if (sh_entry h \<noteq> None) \<noteq> (sh_nodes h > 0) then None
        else Some (g\<lparr>hg_levels := levels, hg_layers := layers\<rparr>))))))"

end
