(* ===== verification/Hnsw_Search.thy ===== *)
theory Hnsw_Search
  imports Hnsw_Snapshot
begin

text \<open>
  Answering a query from the graph (\<open>index-hnsw/src/search.rs\<close>) and the index itself
  (\<open>index-hnsw/src/lib.rs\<close>): what it builds, restores, extends and keeps.  The graph is the state of the
  index; one operation runs at a time.
\<close>

subsection \<open>Search\<close>

definition HNSW_STRIDE :: u64 where
  "HNSW_STRIDE = 256"

definition hnsw_fallback :: "fops \<Rightarrow> search_ctx \<Rightarrow> (budget \<times> top_k, unit) io" where
  "hnsw_fallback A ctx = (\<lambda>(b, t). case exact_search A ctx ((), b, t) of (r, (_, b, t)) \<Rightarrow> (r, (b, t)))"

text \<open>
  The greedy descent of one layer, which charges the budget between passes once enough was scored:
  the node it ends at, its score, and what is left to charge.
\<close>

function descend_charged ::
  "fops \<Rightarrow> kernels \<Rightarrow> hgraph \<Rightarrow> scorer \<Rightarrow> nat \<Rightarrow> (node \<times> u32) \<times> u64 \<Rightarrow> (budget, (node \<times> u32) \<times> u64) io" where
  "descend_charged A K g s layer (cur, charged) b =
     (case descend_pass A K g s layer cur of (cur', improved) \<Rightarrow>
      let charged = charged + u64_of (length (hg_neighbours g layer (fst cur))) in
      if charged \<ge> HNSW_STRIDE
      then (case bd_charge charged b of
          (Inl e, b) \<Rightarrow> (Inl e, b)
        | (Inr _, b) \<Rightarrow> if improved then descend_charged A K g s layer (cur', 0) b else (Inr (cur', 0), b))
      else if improved then descend_charged A K g s layer (cur', charged) b else (Inr (cur', charged), b))"
  by pat_completeness auto
termination
proof (relation "measure (\<lambda>(A, K, g, s, layer, ((c, x), charged), b). nat (2 ^ 32 - f32_key x))", goal_cases)
  case 1
  show ?case by simp
next
  case (2 A K g s layer cur charged b cur' improved)
  obtain c x c' x' where "cur = (c, x)" "cur' = (c', x')" by fastforce
  with 2 descend_pass_raises [of A K g s layer c x c' x'] show ?case by auto
next
  case (3 A K g s layer cur charged b cur' improved)
  obtain c x c' x' where "cur = (c, x)" "cur' = (c', x')" by fastforce
  with 3 descend_pass_raises [of A K g s layer c x c' x'] show ?case by auto
qed

declare descend_charged.simps [simp del]

definition admitted_rows :: "search_ctx \<Rightarrow> hgraph \<Rightarrow> hcand list \<Rightarrow> (row_id \<times> u32) list db_result" where
  "admitted_rows ctx g found =
     try_fold (\<lambda>c admitted.
       if unat (hc_node c) < length (hg_rows g)
       then let row = hg_rows g ! unat (hc_node c) in
            rbind (ctx_admits ctx row) (\<lambda>yes. Inr (if yes then admitted @ [(row, hc_score c)] else admitted))
       else Inr admitted) found []"

definition search_width :: "hnsw_params \<Rightarrow> search_ctx \<Rightarrow> hgraph \<Rightarrow> nat" where
  "search_width P ctx g =
     (let ef = max (case sp_ef_search (sc_params ctx) of Some ef \<Rightarrow> ef | None \<Rightarrow> hp_ef_search P) (sc_top_k ctx) in
      if sc_filter ctx \<noteq> None then min (ef * 4) (max (hg_len g) 1) else ef)"

definition hnsw_search ::
  "fops \<Rightarrow> kernels \<Rightarrow> hnsw_params \<Rightarrow> hgraph option \<Rightarrow> search_ctx \<Rightarrow> (budget \<times> top_k, unit) io" where
  "hnsw_search A K P graph ctx =
     (if sc_top_k ctx = 0 then io_ok ()
      else case graph of
        None \<Rightarrow> hnsw_fallback A ctx
      | Some g \<Rightarrow>
          if hg_len g \<noteq> vs_len (sc_source ctx) \<or> hg_len g = 0 \<or> hg_metric g \<noteq> Some (sc_metric ctx)
             \<or> hg_dimension g \<noteq> length (sc_query ctx)
          then hnsw_fallback A ctx
          else case hg_entry g of
            None \<Rightarrow> hnsw_fallback A ctx
          | Some entry \<Rightarrow>
              let s = gscorer_new A K (sc_metric ctx) (sc_query ctx) in
              (\<lambda>(b, t).
                case io_fold (descend_charged A K g s) (rev [1..<length (hg_layers g)]) ((entry, node_score A K g s entry), 0) b of
                  (Inl e, b) \<Rightarrow> (Inl e, (b, t))
                | (Inr ((current, _), charged), b) \<Rightarrow>
                    let found = fst (search_layer A K g s [current] 0 (search_width P ctx g) visited_default) in
                    (case bd_charge (charged + u64_of (length found)) b of
                      (Inl e, b) \<Rightarrow> (Inl e, (b, t))
                    | (Inr _, b) \<Rightarrow>
                        (case admitted_rows ctx g found of
                          Inl e \<Rightarrow> (Inl e, (b, t))
                        | Inr admitted \<Rightarrow>
                            if length admitted < sc_top_k ctx \<and> length found < hg_len g then hnsw_fallback A ctx (b, t)
                            else (Inr (), (b, fold (\<lambda>(row, score) t. fst (topk_offer row score t)) admitted t))))))"

subsection \<open>The index\<close>

text \<open>Make the index ready to search a source; \<open>'s\<close> is the state of the snapshots.\<close>

definition install_graph :: "nat \<Rightarrow> nat \<Rightarrow> metric \<Rightarrow> hgraph \<Rightarrow> hgraph \<Rightarrow> hgraph" where
  "install_graph rows dimension m graph g =
     (if hg_is_valid_for g rows dimension m
         \<or> hg_metric g = Some m \<and> hg_dimension g = dimension \<and> hg_len g > hg_len graph
      then g else graph)"

definition restored_graph :: "hnsw_params \<Rightarrow> nat \<Rightarrow> nat \<Rightarrow> metric \<Rightarrow> decoded_row list \<Rightarrow> bytes option \<Rightarrow> hgraph option" where
  "restored_graph P rows dimension m decoded loaded =
     Option.bind loaded (\<lambda>bs.
     Option.bind (decode_header bs P) (\<lambda>h.
     if sh_metric h = m \<and> sh_dimension h = dimension \<and> sh_nodes h = rows \<and> sh_params_match h
     then snapshot_decode bs h decoded else None))"

definition hnsw_prepare ::
  "fops \<Rightarrow> kernels \<Rightarrow> level_floats \<Rightarrow> hnsw_params \<Rightarrow> vector_source \<Rightarrow> metric \<Rightarrow> 's snapshots \<Rightarrow> (hgraph \<times> 's, unit) io" where
  "hnsw_prepare A K L P src m sn =
     (let dimension = unat (vs_dimension src); rows = vs_len src;
          store = (\<lambda>g. io_bind (io_catch (io_snd (sn_store sn (snapshot_encode g P)))) (\<lambda>_. io_ok ())) in
      io_bind io_self (\<lambda>g.
      if hg_is_valid_for g rows dimension m then io_ok ()
      else
        io_bind (decode_rows src) (\<lambda>decoded.
        io_bind (io_snd (sn_load sn)) (\<lambda>loaded.
        case restored_graph P rows dimension m decoded loaded of
          Some graph \<Rightarrow> io_modify (install_graph rows dimension m graph)
        | None \<Rightarrow>
            if hg_is_valid_for g rows dimension m then io_ok ()
            else if hg_len g > 0 \<and> hg_is_prefix_of g decoded dimension m
            then
              let graph = hnsw_extend A K L (drop (hg_len g) decoded) m P g in
              io_bind (io_modify (\<lambda>_. graph)) (\<lambda>_. store graph)
            else
              let graph = build_from A K L decoded dimension m P in
              io_bind (store graph) (\<lambda>_. io_modify (install_graph rows dimension m graph))))))"

definition hnsw_params_used :: "hnsw_params \<Rightarrow> hnsw_params" where
  "hnsw_params_used P = (if hp_valid P then P else hp_default)"

definition hnsw_stats :: "hgraph \<Rightarrow> index_stats" where
  "hnsw_stats g = \<lparr>is_kind = HnswKind, is_rows = hg_len g, is_memory_bytes = hg_memory_bytes g\<rparr>"

text \<open>\<open>HnswIndex::with_params\<close> starts with \<open>hg_default\<close>.\<close>

definition hnsw_index :: "fops \<Rightarrow> kernels \<Rightarrow> level_floats \<Rightarrow> hnsw_params \<Rightarrow> (hgraph, 's) vector_index" where
  "hnsw_index A K L P =
     (let P = hnsw_params_used P in
      \<lparr>vi_kind = HnswKind, vi_is_exact = False, vi_prepare = hnsw_prepare A K L P,
       vi_search = (\<lambda>ctx (g, b, t). case hnsw_search A K P (Some g) ctx (b, t) of (r, (b, t)) \<Rightarrow> (r, (g, b, t))),
       vi_stats = hnsw_stats\<rparr>)"

end
