(* ===== verification/Hnsw_Beam.thy ===== *)
theory Hnsw_Beam
  imports Hnsw_Build
begin

text \<open>
  What the beam search of a layer finds: nodes it can reach, once each, with their scores, best first;
  all of them when the beam is as wide as the graph; and the same whatever the marks of earlier searches.
\<close>

subsection \<open>Marks\<close>

definition marked :: "visited \<Rightarrow> nat \<Rightarrow> bool" where
  "marked v i \<longleftrightarrow> i < length (vi_stamp v) \<and> vi_stamp v ! i = vi_generation v"

text \<open>No stamp is of a later generation, so a new generation marks nothing.\<close>

definition visited_ok :: "visited \<Rightarrow> bool" where
  "visited_ok v \<longleftrightarrow> (\<forall>x \<in> set (vi_stamp v). x \<le> vi_generation v)"

lemma visited_ok_default: "visited_ok visited_default"
  by (simp add: visited_ok_def visited_default_def)

lemma begin_marks:
  assumes "visited_ok v"
  shows "visited_ok (visited_begin n v)" and "n \<le> length (vi_stamp (visited_begin n v))" and "\<not> marked (visited_begin n v) i"
proof -
  let ?xs = "vi_stamp v @ replicate (n - length (vi_stamp v)) 0"
  have le: "x \<le> vi_generation v" if "x \<in> set ?xs" for x using assms that by (auto simp: visited_ok_def)
  have lt: "x < vi_generation v + 1" if "x \<in> set ?xs" "vi_generation v \<noteq> - 1" for x
  proof -
    from that(2) have "1 + vi_generation v \<noteq> 0" by (metis add_eq_0_iff)
    from unatSuc [OF this] have "vi_generation v < vi_generation v + 1" by (simp add: word_less_nat_alt add.commute)
    with le [OF that(1)] show ?thesis by simp
  qed
  show "visited_ok (visited_begin n v)" using lt by (auto simp: visited_begin_def visited_ok_def Let_def intro: less_imp_le)
  show "n \<le> length (vi_stamp (visited_begin n v))" by (simp add: visited_begin_def Let_def)
  show "\<not> marked (visited_begin n v) i"
  proof (cases "vi_generation v = - 1")
    case True
    then show ?thesis by (auto simp: marked_def visited_begin_def Let_def)
  next
    case False
    have "?xs ! i \<noteq> vi_generation v + 1" if "i < length ?xs" using lt [OF nth_mem [OF that] False] by auto
    with False show ?thesis by (auto simp: marked_def visited_begin_def Let_def simp del: nth_append)
  qed
qed

lemma seen_marks:
  assumes "visited_ok v" and "i < length (vi_stamp v)"
  obtains v' where "visited_seen i v = (marked v i, v')" and "visited_ok v'" and "length (vi_stamp v') = length (vi_stamp v)"
    and "\<forall>j. marked v' j \<longleftrightarrow> j = i \<or> marked v j"
proof (cases "marked v i")
  case True
  then show ?thesis using assms that [of v] by (auto simp: visited_seen_def marked_def)
next
  case False
  let ?v = "v\<lparr>vi_stamp := (vi_stamp v)[i := vi_generation v]\<rparr>"
  have "visited_ok ?v" using assms set_update_subset_insert [of "vi_stamp v" i "vi_generation v"] by (auto simp: visited_ok_def)
  moreover have "visited_seen i v = (False, ?v)" using False assms(2) by (simp add: visited_seen_def marked_def)
  moreover have "\<forall>j. marked ?v j \<longleftrightarrow> j = i \<or> marked v j" using assms(2) by (auto simp: marked_def nth_list_update)
  ultimately show ?thesis using that [of ?v] False by simp
qed

subsection \<open>What is reachable\<close>

inductive_set reach :: "hgraph \<Rightarrow> nat \<Rightarrow> node list \<Rightarrow> node set" for g layer entries where
  entry: "e \<in> set entries \<Longrightarrow> unat e < hg_len g \<Longrightarrow> e \<in> reach g layer entries"
| step: "a \<in> reach g layer entries \<Longrightarrow> b \<in> set (hg_neighbours g layer a) \<Longrightarrow> unat b < hg_len g \<Longrightarrow> b \<in> reach g layer entries"

definition scored_node :: "fops \<Rightarrow> kernels \<Rightarrow> hgraph \<Rightarrow> scorer \<Rightarrow> node \<Rightarrow> hcand" where
  "scored_node A K g s n = \<lparr>hc_score = node_score A K g s n, hc_node = n\<rparr>"

lemma scored_node_simps [simp]: "hc_node (scored_node A K g s n) = n" "hc_score (scored_node A K g s n) = node_score A K g s n"
  by (simp_all add: scored_node_def)

text \<open>A candidate with its node's score, marked; a state of the beam all of whose nodes are in \<open>R\<close>.\<close>

definition cand_ok :: "fops \<Rightarrow> kernels \<Rightarrow> hgraph \<Rightarrow> scorer \<Rightarrow> visited \<Rightarrow> hcand \<Rightarrow> bool" where
  "cand_ok A K g s v c \<longleftrightarrow> c = scored_node A K g s (hc_node c) \<and> unat (hc_node c) < hg_len g \<and> marked v (unat (hc_node c))"

definition beam_ok :: "fops \<Rightarrow> kernels \<Rightarrow> hgraph \<Rightarrow> scorer \<Rightarrow> node set \<Rightarrow> beam \<Rightarrow> bool" where
  "beam_ok A K g s R = (\<lambda>(v, frontier, results). visited_ok v \<and> hg_len g \<le> length (vi_stamp v)
     \<and> (\<forall>c \<in> set frontier \<union> set results. cand_ok A K g s v c)
     \<and> (\<forall>n. unat n < hg_len g \<longrightarrow> marked v (unat n) \<longrightarrow> n \<in> R)
     \<and> distinct (map hc_node results))"

lemma cand_ok_mono: "cand_ok A K g s v c \<Longrightarrow> (\<And>j. marked v j \<Longrightarrow> marked v' j) \<Longrightarrow> cand_ok A K g s v' c"
  by (simp add: cand_ok_def)

lemma set_bh_push [simp]: "set (bh_push f x h) = insert x (set h)"
  by (induction h) auto

lemma distinct_bh_push: "distinct (map f (bh_push k x h)) \<longleftrightarrow> f x \<notin> f ` set h \<and> distinct (map f h)"
  by (induction h) auto

lemma bh_pop_subset: "set (bh_pop h) \<subseteq> set h"
  by (cases h) (auto simp: bh_pop_def)

lemma bh_pop_distinct: "distinct (map f h) \<Longrightarrow> distinct (map f (bh_pop h))"
  by (cases h) (auto simp: bh_pop_def)

lemma visit_new:
  assumes "unat n < hg_len g" and "visited_seen (unat n) v = (False, v')"
  shows "visit_neighbour A K g s ef n (v, frontier, results)
     = (let c = scored_node A K g s n; results' = bh_push wcand_key c results in
        if length results < ef \<or> (\<exists>w. bh_peek results = Some w \<and> f32_lt (hc_score w) (hc_score c))
        then (v', bh_push cand_key c frontier, if length results' > ef then bh_pop results' else results')
        else (v', frontier, results))"
  using assms by (auto simp: visit_neighbour_def Let_def scored_node_def split: option.splits)

text \<open>Marking a node in \<open>R\<close> and, if it was not marked, adding it to the lists or dropping a result.\<close>

lemma beam_ok_mark:
  assumes "beam_ok A K g s R (v, frontier, results)" and "n \<in> R" and "unat n < hg_len g"
    and "visited_ok v'" and "length (vi_stamp v') = length (vi_stamp v)" and "\<forall>j. marked v' j \<longleftrightarrow> j = unat n \<or> marked v j"
    and "set f \<subseteq> insert (scored_node A K g s n) (set frontier)" and "set r \<subseteq> insert (scored_node A K g s n) (set results)"
    and "distinct (map hc_node r)"
  shows "beam_ok A K g s R (v', f, r)"
proof -
  have "cand_ok A K g s v' (scored_node A K g s n)" using assms(3,6) by (simp add: cand_ok_def)
  moreover have "cand_ok A K g s v' c" if "c \<in> set frontier \<union> set results" for c
    by (rule cand_ok_mono [of A K g s v c]) (use assms(1,6) that in \<open>auto simp: beam_ok_def\<close>)
  ultimately have "\<forall>c \<in> set f \<union> set r. cand_ok A K g s v' c" using assms(7,8) by blast
  moreover have "k \<in> R" if "unat k < hg_len g" "marked v' (unat k)" for k
  proof (cases "k = n")
    case False
    then have "marked v (unat k)" using assms(6) that(2) by (simp add: word_unat_eq_iff)
    with that(1) assms(1) show ?thesis by (simp add: beam_ok_def)
  qed (use assms(2) in simp)
  ultimately show ?thesis using assms(1,4,5,9) by (simp add: beam_ok_def)
qed

lemma visit_neighbour_ok:
  assumes "beam_ok A K g s R b" and "n \<in> R"
  shows "beam_ok A K g s R (visit_neighbour A K g s ef n b)"
proof -
  obtain v frontier results where b: "b = (v, frontier, results)" by (cases b)
  show ?thesis
  proof (cases "unat n < hg_len g")
    case lt: True
    with assms(1) have ok: "visited_ok v" "unat n < length (vi_stamp v)" by (auto simp: b beam_ok_def)
    obtain v' where sn: "visited_seen (unat n) v = (marked v (unat n), v')" "visited_ok v'" "length (vi_stamp v') = length (vi_stamp v)"
      "\<forall>j. marked v' j \<longleftrightarrow> j = unat n \<or> marked v j" by (rule seen_marks [OF ok])
    note mk = beam_ok_mark [OF assms(1) [unfolded b] assms(2) lt sn(2-4)]
    have dr: "distinct (map hc_node results)" using assms(1) by (simp add: b beam_ok_def)
    show ?thesis
    proof (cases "marked v (unat n)")
      case True
      then have "visit_neighbour A K g s ef n b = (v', frontier, results)" using lt sn(1) by (simp add: b visit_neighbour_def)
      then show ?thesis using mk [of frontier results] dr by auto
    next
      case False
      let ?c = "scored_node A K g s n" and ?r = "bh_push wcand_key (scored_node A K g s n) results"
      have "n \<notin> hc_node ` set results" using assms(1) False by (auto simp: b beam_ok_def cand_ok_def)
      with dr have d: "distinct (map hc_node ?r)" by (simp add: distinct_bh_push)
      from visit_new [OF lt, of v v' A K s ef frontier results] sn(1) False have
        "visit_neighbour A K g s ef n b \<in> {(v', frontier, results), (v', bh_push cand_key ?c frontier, ?r), (v', bh_push cand_key ?c frontier, bh_pop ?r)}"
        unfolding b Let_def by simp
      moreover have "beam_ok A K g s R (v', frontier, results)" by (rule mk) (use dr in auto)
      moreover have "beam_ok A K g s R (v', bh_push cand_key ?c frontier, ?r)" by (rule mk) (use d in auto)
      moreover have "beam_ok A K g s R (v', bh_push cand_key ?c frontier, bh_pop ?r)"
        by (rule mk) (use bh_pop_distinct [OF d] bh_pop_subset [of ?r] in auto)
      ultimately show ?thesis by auto
    qed
  qed (use assms(1) in \<open>simp add: b visit_neighbour_def\<close>)
qed

lemma enter_beam_ok:
  assumes "beam_ok A K g s R b" and "unat n < hg_len g \<Longrightarrow> n \<in> R"
  shows "beam_ok A K g s R (enter_beam A K g s n b)"
proof -
  obtain v frontier results where b: "b = (v, frontier, results)" by (cases b)
  show ?thesis
  proof (cases "unat n < hg_len g")
    case lt: True
    with assms(1) have ok: "visited_ok v" "unat n < length (vi_stamp v)" by (auto simp: b beam_ok_def)
    obtain v' where sn: "visited_seen (unat n) v = (marked v (unat n), v')" "visited_ok v'" "length (vi_stamp v') = length (vi_stamp v)"
      "\<forall>j. marked v' j \<longleftrightarrow> j = unat n \<or> marked v j" by (rule seen_marks [OF ok])
    note mk = beam_ok_mark [OF assms(1) [unfolded b] assms(2) [OF lt] lt sn(2-4)]
    have dr: "distinct (map hc_node results)" using assms(1) by (simp add: b beam_ok_def)
    show ?thesis
    proof (cases "marked v (unat n)")
      case True
      then have "enter_beam A K g s n b = (v', frontier, results)" using lt sn(1) by (simp add: b enter_beam_def)
      then show ?thesis using mk [of frontier results] dr by auto
    next
      case False
      have "n \<notin> hc_node ` set results" using assms(1) False by (auto simp: b beam_ok_def cand_ok_def)
      with dr have d: "distinct (map hc_node (bh_push wcand_key (scored_node A K g s n) results))" by (simp add: distinct_bh_push)
      have "enter_beam A K g s n b = (v', bh_push cand_key (scored_node A K g s n) frontier, bh_push wcand_key (scored_node A K g s n) results)"
        using lt sn(1) False by (simp add: b enter_beam_def scored_node_def Let_def)
      then show ?thesis using mk [OF _ _ d] by auto
    qed
  qed (use assms(1) in \<open>simp add: b enter_beam_def\<close>)
qed


lemma enter_all_ok:
  assumes "beam_ok A K g s R b" and "\<forall>n \<in> set ns. unat n < hg_len g \<longrightarrow> n \<in> R"
  shows "beam_ok A K g s R (fold (enter_beam A K g s) ns b)"
  using assms by (induction ns arbitrary: b) (simp_all add: enter_beam_ok)

lemma visit_all_ok:
  assumes "beam_ok A K g s R b" and "\<forall>n \<in> set ns. unat n < hg_len g \<longrightarrow> n \<in> R"
  shows "beam_ok A K g s R (fold (visit_neighbour A K g s ef) ns b)"
  using assms
proof (induction ns arbitrary: b)
  case (Cons n ns)
  have "beam_ok A K g s R (visit_neighbour A K g s ef n b)"
  proof (cases "unat n < hg_len g")
    case False
    then have "visit_neighbour A K g s ef n b = b" by (cases b) (simp add: visit_neighbour_def)
    with Cons.prems(1) show ?thesis by simp
  qed (use visit_neighbour_ok Cons.prems in auto)
  with Cons show ?case by simp
qed simp

lemma beam_begin_ok: "visited_ok v \<Longrightarrow> beam_ok A K g s R (visited_begin (hg_len g) v, [], [])"
  using begin_marks [of v "hg_len g"] by (simp add: beam_ok_def)

lemma beam_pop_ok: "beam_ok A K g s R (v, frontier, results) \<Longrightarrow> beam_ok A K g s R (v, bh_pop frontier, results)"
  using bh_pop_subset [of frontier] by (auto simp: beam_ok_def)

lemma bh_peek_in: "bh_peek h = Some x \<Longrightarrow> x \<in> set h"
  by (cases h) auto

text \<open>Expanding a node of the frontier stays in what is reachable.\<close>

lemma expand_ok:
  assumes "beam_ok A K g s (reach g layer entries) (v, frontier, results)" and "bh_peek frontier = Some c"
  shows "beam_ok A K g s (reach g layer entries)
    (fold (visit_neighbour A K g s ef) (hg_neighbours g layer (hc_node c)) (v, bh_pop frontier, results))"
proof (rule visit_all_ok [OF beam_pop_ok [OF assms(1)]])
  have "cand_ok A K g s v c" using assms(1) bh_peek_in [OF assms(2)] by (simp add: beam_ok_def)
  then have "hc_node c \<in> reach g layer entries" using assms(1) by (simp add: cand_ok_def beam_ok_def)
  then show "\<forall>n \<in> set (hg_neighbours g layer (hc_node c)). unat n < hg_len g \<longrightarrow> n \<in> reach g layer entries"
    by (blast intro: reach.step)
qed

lemma beam_search_ok:
  assumes "beam_ok A K g s (reach g layer entries) b"
  shows "beam_ok A K g s (reach g layer entries) (beam_search A K g s layer ef b)"
  using assms
proof (induction A K g s layer ef b rule: beam_search.induct)
  case (1 A K g s layer ef v frontier results)
  show ?case
  proof (cases "bh_peek frontier")
    case None
    with 1(2) show ?thesis by (simp add: beam_search.simps)
  next
    case (Some c)
    show ?thesis
      using 1(1) [OF Some refl _ expand_ok [OF 1(2) Some]] beam_pop_ok [OF 1(2)] Some
      by (subst beam_search.simps) (simp add: Let_def)
  qed
qed

text \<open>Marks decide; which generation they are of does not.\<close>

definition same_marks :: "nat \<Rightarrow> visited \<Rightarrow> visited \<Rightarrow> bool" where
  "same_marks n v w \<longleftrightarrow> visited_ok v \<and> visited_ok w \<and> n \<le> length (vi_stamp v) \<and> n \<le> length (vi_stamp w)
     \<and> (\<forall>i < n. marked v i = marked w i)"

lemma seen_same:
  assumes "same_marks n v w" and "i < n"
  shows "fst (visited_seen i v) = fst (visited_seen i w) \<and> same_marks n (snd (visited_seen i v)) (snd (visited_seen i w))"
proof -
  from assms have ok: "visited_ok v" "i < length (vi_stamp v)" "visited_ok w" "i < length (vi_stamp w)" by (simp_all add: same_marks_def)
  obtain v' where v: "visited_seen i v = (marked v i, v')" "visited_ok v'" "length (vi_stamp v') = length (vi_stamp v)"
    "\<forall>j. marked v' j \<longleftrightarrow> j = i \<or> marked v j" by (rule seen_marks [OF ok(1,2)])
  obtain w' where w: "visited_seen i w = (marked w i, w')" "visited_ok w'" "length (vi_stamp w') = length (vi_stamp w)"
    "\<forall>j. marked w' j \<longleftrightarrow> j = i \<or> marked w j" by (rule seen_marks [OF ok(3,4)])
  from assms v w show ?thesis by (simp add: same_marks_def)
qed

definition same_beam :: "nat \<Rightarrow> beam \<Rightarrow> beam \<Rightarrow> bool" where
  "same_beam n b c \<longleftrightarrow> same_marks n (fst b) (fst c) \<and> snd b = snd c"

lemma visit_same:
  assumes "same_beam (hg_len g) b c"
  shows "same_beam (hg_len g) (visit_neighbour A K g s ef n b) (visit_neighbour A K g s ef n c)"
    and "same_beam (hg_len g) (enter_beam A K g s n b) (enter_beam A K g s n c)"
proof -
  obtain v w x where bc: "b = (v, x)" "c = (w, x)" "same_marks (hg_len g) v w" using assms by (cases b; cases c) (auto simp: same_beam_def)
  obtain f r where x: "x = (f, r)" by (cases x)
  show "same_beam (hg_len g) (visit_neighbour A K g s ef n b) (visit_neighbour A K g s ef n c)"
    "same_beam (hg_len g) (enter_beam A K g s n b) (enter_beam A K g s n c)"
    using seen_same [OF bc(3), of "unat n"] bc(3)
    by (auto simp: bc(1,2) x same_beam_def visit_neighbour_def enter_beam_def Let_def not_le split: prod.splits bool.splits)
qed

lemma folds_same:
  assumes "same_beam (hg_len g) b c"
  shows "same_beam (hg_len g) (fold (visit_neighbour A K g s ef) ns b) (fold (visit_neighbour A K g s ef) ns c)"
    and "same_beam (hg_len g) (fold (enter_beam A K g s) ns b) (fold (enter_beam A K g s) ns c)"
  using assms by (induction ns arbitrary: b c) (simp_all add: visit_same)

lemma beam_search_same:
  assumes "same_beam (hg_len g) b c"
  shows "same_beam (hg_len g) (beam_search A K g s layer ef b) (beam_search A K g s layer ef c)"
  using assms
proof (induction A K g s layer ef b arbitrary: c rule: beam_search.induct)
  case (1 A K g s layer ef v frontier results)
  from 1(2) obtain w where c: "c = (w, frontier, results)" by (cases c) (auto simp: same_beam_def)
  show ?case
  proof (cases "bh_peek frontier")
    case None
    with 1(2) show ?thesis by (simp add: c beam_search.simps)
  next
    case (Some x)
    have "same_beam (hg_len g) (v, bh_pop frontier, results) (w, bh_pop frontier, results)" using 1(2) by (simp add: c same_beam_def)
    then show ?thesis
      using 1(1) [OF Some refl _ folds_same(1)] Some
      by (simp add: c beam_search.simps [of A K g s layer ef v] beam_search.simps [of A K g s layer ef w] Let_def)
  qed
qed

lemma search_layer_same:
  assumes "visited_ok v" and "visited_ok w"
  shows "fst (search_layer A K g s entries layer ef v) = fst (search_layer A K g s entries layer ef w)"
    and "visited_ok (snd (search_layer A K g s entries layer ef v))"
proof -
  let ?b = "\<lambda>v. fold (enter_beam A K g s) entries (visited_begin (hg_len g) v, [], [])"
  have "same_marks (hg_len g) (visited_begin (hg_len g) v) (visited_begin (hg_len g) w)"
    using begin_marks [OF assms(1), of "hg_len g"] begin_marks [OF assms(2), of "hg_len g"] by (simp add: same_marks_def)
  then have "same_beam (hg_len g) (?b v) (?b w)" by (intro folds_same) (simp add: same_beam_def)
  then obtain v1 w1 f r where b: "?b v = (v1, f, r)" "?b w = (w1, f, r)" "same_beam (hg_len g) (v1, f, r) (w1, f, r)"
    by (cases "?b v"; cases "?b w") (auto simp: same_beam_def)
  from beam_search_same [OF b(3), of A K s layer ef] show "fst (search_layer A K g s entries layer ef v) = fst (search_layer A K g s entries layer ef w)"
    "visited_ok (snd (search_layer A K g s entries layer ef v))"
    by (auto simp: search_layer_def b(1,2) same_beam_def same_marks_def split: prod.splits)
qed

lemma search_layer_sound:
  assumes "visited_ok v" and "fst (search_layer A K g s entries layer ef v) = found"
  shows "distinct (map hc_node found)"
    and "\<forall>c \<in> set found. c = scored_node A K g s (hc_node c) \<and> unat (hc_node c) < hg_len g \<and> hc_node c \<in> reach g layer entries"
    and "sorted (map wcand_key found)"
proof -
  let ?b = "fold (enter_beam A K g s) entries (visited_begin (hg_len g) v, [], [])"
  have "beam_ok A K g s (reach g layer entries) ?b"
    by (rule enter_all_ok [OF beam_begin_ok [OF assms(1)]]) (blast intro: reach.entry)
  from beam_search_ok [OF this, of ef] obtain v1 f r where
    b: "beam_search A K g s layer ef ?b = (v1, f, r)" "beam_ok A K g s (reach g layer entries) (v1, f, r)"
    by (cases "beam_search A K g s layer ef ?b") auto
  have found: "found = sort_key wcand_key r" using assms(2) b(1) by (simp add: search_layer_def sort_best_def)
  show "sorted (map wcand_key found)" by (simp add: found)
  have "distinct (map hc_node r)" using b(2) by (simp add: beam_ok_def)
  then show "distinct (map hc_node found)"
    by (simp add: found distinct_map)
  show "\<forall>c \<in> set found. c = scored_node A K g s (hc_node c) \<and> unat (hc_node c) < hg_len g \<and> hc_node c \<in> reach g layer entries"
    using b(2) by (simp add: found beam_ok_def cand_ok_def)
qed


subsection \<open>A beam as wide as the graph\<close>

lemma finite_nodes: "finite {n :: node. unat n < k}" and card_nodes: "card {n :: node. unat n < k} \<le> k"
proof -
  have "inj_on unat {n :: node. unat n < k}" by (simp add: inj_on_def word_unat_eq_iff)
  moreover have "unat ` {n :: node. unat n < k} \<subseteq> {..<k}" by auto
  ultimately show "card {n :: node. unat n < k} \<le> k"
    using card_image [of unat "{n :: node. unat n < k}"] card_mono [of "{..<k}" "unat ` {n :: node. unat n < k}"] by simp
qed simp

text \<open>Distinct results are at most as many as nodes, and all nodes when they are as many.\<close>

lemma results_bound:
  assumes "beam_ok A K g s R (v, frontier, results)"
  shows "length results = card (hc_node ` set results)" and "hc_node ` set results \<subseteq> {n. unat n < hg_len g}"
    and "length results \<le> hg_len g" and "hg_len g \<le> length results \<Longrightarrow> hc_node ` set results = {n. unat n < hg_len g}"
proof -
  from assms have d: "distinct (map hc_node results)" by (simp add: beam_ok_def)
  show c: "length results = card (hc_node ` set results)" using distinct_card [OF d] by simp
  show sub: "hc_node ` set results \<subseteq> {n. unat n < hg_len g}" using assms by (auto simp: beam_ok_def cand_ok_def)
  show "length results \<le> hg_len g" using card_mono [OF finite_nodes sub] card_nodes [of "hg_len g"] c by simp
  show "hc_node ` set results = {n. unat n < hg_len g}" if "hg_len g \<le> length results"
    by (rule card_subset_eq [OF finite_nodes sub]) (use card_mono [OF finite_nodes sub] card_nodes [of "hg_len g"] c that in simp)
qed

definition none_dropped :: "hgraph \<Rightarrow> beam \<Rightarrow> bool" where
  "none_dropped g = (\<lambda>(v, frontier, results). \<forall>n. unat n < hg_len g \<longrightarrow> marked v (unat n) \<longrightarrow> n \<in> hc_node ` set results)"

text \<open>From one state of the beam to a later one: what is newly marked is in the frontier.\<close>

definition grows :: "hgraph \<Rightarrow> beam \<Rightarrow> beam \<Rightarrow> bool" where
  "grows g = (\<lambda>(v, f, _) (v', f', _). (\<forall>j. marked v j \<longrightarrow> marked v' j) \<and> set f \<subseteq> set f'
     \<and> (\<forall>n. unat n < hg_len g \<longrightarrow> marked v' (unat n) \<longrightarrow> marked v (unat n) \<or> n \<in> hc_node ` set f'))"

lemma grows_refl: "grows g b b"
  by (auto simp: grows_def)

lemma grows_trans: "grows g a b \<Longrightarrow> grows g b c \<Longrightarrow> grows g a c"
  unfolding grows_def by (cases a; cases b; cases c) (simp, blast)

lemma visit_full:
  assumes "beam_ok A K g s R b" and "none_dropped g b" and "hg_len g \<le> ef" and "unat n < hg_len g"
  shows "none_dropped g (visit_neighbour A K g s ef n b) \<and> grows g b (visit_neighbour A K g s ef n b)
     \<and> marked (fst (visit_neighbour A K g s ef n b)) (unat n)"
    and "none_dropped g (enter_beam A K g s n b) \<and> grows g b (enter_beam A K g s n b) \<and> marked (fst (enter_beam A K g s n b)) (unat n)"
proof -
  obtain v frontier results where b: "b = (v, frontier, results)" by (cases b)
  from assms(1,4) have ok: "visited_ok v" "unat n < length (vi_stamp v)" by (auto simp: b beam_ok_def)
  obtain v' where sn: "visited_seen (unat n) v = (marked v (unat n), v')" "visited_ok v'" "length (vi_stamp v') = length (vi_stamp v)"
    "\<forall>j. marked v' j \<longleftrightarrow> j = unat n \<or> marked v j" by (rule seen_marks [OF ok])
  let ?c = "scored_node A K g s n"
  have eq: "visit_neighbour A K g s ef n b = (if marked v (unat n) then (v', frontier, results)
      else (v', bh_push cand_key ?c frontier, bh_push wcand_key ?c results))"
    and eq': "enter_beam A K g s n b = (if marked v (unat n) then (v', frontier, results)
      else (v', bh_push cand_key ?c frontier, bh_push wcand_key ?c results))"
  proof -
    show "enter_beam A K g s n b = (if marked v (unat n) then (v', frontier, results)
      else (v', bh_push cand_key ?c frontier, bh_push wcand_key ?c results))"
      using assms(4) sn(1) by (simp add: b enter_beam_def scored_node_def Let_def)
    show "visit_neighbour A K g s ef n b = (if marked v (unat n) then (v', frontier, results)
      else (v', bh_push cand_key ?c frontier, bh_push wcand_key ?c results))"
    proof (cases "marked v (unat n)")
      case True
      then show ?thesis using assms(4) sn(1) by (simp add: b visit_neighbour_def)
    next
      case False
      note rb = results_bound [OF assms(1) [unfolded b]]
      have "n \<notin> hc_node ` set results" using assms(1) False by (auto simp: b beam_ok_def cand_ok_def)
      then have "length results \<noteq> hg_len g" using rb(4) assms(4) by auto
      then have "length results < ef" using rb(3) assms(3) by simp
      with False visit_new [OF assms(4), of v v' A K s ef frontier results] sn(1) show ?thesis
        by (simp add: b Let_def)
    qed
  qed
  have n: "k = n" if "unat k = unat n" for k :: node using that by (simp add: word_unat_eq_iff)
  have "none_dropped g (if marked v (unat n) then (v', frontier, results) else (v', bh_push cand_key ?c frontier, bh_push wcand_key ?c results))
     \<and> grows g b (if marked v (unat n) then (v', frontier, results) else (v', bh_push cand_key ?c frontier, bh_push wcand_key ?c results))
     \<and> marked (fst (if marked v (unat n) then (v', frontier, results) else (v', bh_push cand_key ?c frontier, bh_push wcand_key ?c results))) (unat n)"
    using assms(2) sn(4) by (auto simp: b none_dropped_def grows_def dest: n)
  then show "none_dropped g (visit_neighbour A K g s ef n b) \<and> grows g b (visit_neighbour A K g s ef n b)
     \<and> marked (fst (visit_neighbour A K g s ef n b)) (unat n)"
    "none_dropped g (enter_beam A K g s n b) \<and> grows g b (enter_beam A K g s n b) \<and> marked (fst (enter_beam A K g s n b)) (unat n)"
    unfolding eq eq' by blast+
qed

lemma grows_marked: "grows g b c \<Longrightarrow> marked (fst b) j \<Longrightarrow> marked (fst c) j"
  by (cases b; cases c) (simp add: grows_def)

lemma folds_full:
  assumes "h = visit_neighbour A K g s ef \<or> h = enter_beam A K g s"
    and "beam_ok A K g s R b" and "none_dropped g b" and "hg_len g \<le> ef" and "\<forall>n \<in> set ns. unat n < hg_len g \<longrightarrow> n \<in> R"
  shows "none_dropped g (fold h ns b) \<and> grows g b (fold h ns b) \<and> (\<forall>n \<in> set ns. unat n < hg_len g \<longrightarrow> marked (fst (fold h ns b)) (unat n))"
  using assms(2,3,5)
proof (induction ns arbitrary: b)
  case Nil
  then show ?case by (simp add: grows_refl)
next
  case (Cons n ns)
  have st: "none_dropped g (h n b) \<and> grows g b (h n b) \<and> (unat n < hg_len g \<longrightarrow> marked (fst (h n b)) (unat n))"
  proof (cases "unat n < hg_len g")
    case True
    then show ?thesis using assms(1) visit_full [OF Cons.prems(1,2) assms(4) True] by auto
  next
    case False
    then have "h n b = b" using assms(1) by (cases b) (auto simp: visit_neighbour_def enter_beam_def)
    with False Cons.prems(2) show ?thesis by (simp add: grows_refl)
  qed
  have "beam_ok A K g s R (h n b)"
    using assms(1) visit_all_ok [OF Cons.prems(1), of "[n]"] enter_all_ok [OF Cons.prems(1), of "[n]"] Cons.prems(3) by auto
  from Cons.IH [OF this] st Cons.prems(3) have IH: "none_dropped g (fold h ns (h n b))" "grows g (h n b) (fold h ns (h n b))"
    "\<forall>m \<in> set ns. unat m < hg_len g \<longrightarrow> marked (fst (fold h ns (h n b))) (unat m)" by auto
  have "marked (fst (fold h ns (h n b))) (unat m)" if m: "m \<in> set (n # ns)" "unat m < hg_len g" for m
  proof (cases "m \<in> set ns")
    case False
    with m st have "marked (fst (h n b)) (unat m)" by simp
    then show ?thesis by (rule grows_marked [OF IH(2)])
  qed (use IH(3) m in blast)
  moreover have "grows g b (fold h ns (h n b))" using st grows_trans [OF _ IH(2)] by blast
  ultimately show ?case using IH(1) by simp
qed

text \<open>Every marked node is in the frontier or has all its neighbours marked.\<close>

definition closed_but :: "hgraph \<Rightarrow> nat \<Rightarrow> visited \<Rightarrow> node set \<Rightarrow> bool" where
  "closed_but g layer v F \<longleftrightarrow> (\<forall>n. unat n < hg_len g \<longrightarrow> marked v (unat n) \<longrightarrow> n \<in> F
     \<or> (\<forall>m \<in> set (hg_neighbours g layer n). unat m < hg_len g \<longrightarrow> marked v (unat m)))"

lemma closed_reach:
  assumes "closed_but g layer v {}" and "\<forall>e \<in> set entries. unat e < hg_len g \<longrightarrow> marked v (unat e)" and "n \<in> reach g layer entries"
  shows "unat n < hg_len g \<and> marked v (unat n)"
  using assms(3)
proof (induction rule: reach.induct)
  case (entry e)
  with assms(2) show ?case by blast
next
  case (step a b)
  then have "unat a < hg_len g" "marked v (unat a)" by blast+
  with assms(1) step.hyps(2,3) show ?case unfolding closed_but_def by blast
qed

lemma expand_closed:
  assumes "grows g (v, bh_pop f, r) (v1, f1, r1)" and "bh_peek f = Some c" and "closed_but g layer v (hc_node ` set f)"
    and "\<forall>m \<in> set (hg_neighbours g layer (hc_node c)). unat m < hg_len g \<longrightarrow> marked v1 (unat m)"
  shows "closed_but g layer v1 (hc_node ` set f1)"
proof -
  have f: "set f = insert c (set (bh_pop f))" using assms(2) by (cases f) (auto simp: bh_pop_def)
  show ?thesis
    unfolding closed_but_def
  proof (intro allI impI)
    fix n :: node assume n: "unat n < hg_len g" "marked v1 (unat n)"
    show "n \<in> hc_node ` set f1 \<or> (\<forall>m \<in> set (hg_neighbours g layer n). unat m < hg_len g \<longrightarrow> marked v1 (unat m))"
    proof (cases "marked v (unat n) \<and> n \<noteq> hc_node c")
      case True
      with n(1) assms(3) f have "n \<in> hc_node ` set (bh_pop f) \<or> (\<forall>m \<in> set (hg_neighbours g layer n). unat m < hg_len g \<longrightarrow> marked v (unat m))"
        unfolding closed_but_def by auto
      with assms(1) show ?thesis unfolding grows_def by auto
    qed (use n assms(1,4) in \<open>auto simp: grows_def\<close>)
  qed
qed

lemma beam_search_full:
  assumes "beam_ok A K g s (reach g layer entries) b" and "none_dropped g b" and "hg_len g \<le> ef"
    and "closed_but g layer (fst b) (hc_node ` set (fst (snd b)))"
    and "\<forall>e \<in> set entries. unat e < hg_len g \<longrightarrow> marked (fst b) (unat e)"
  shows "reach g layer entries \<subseteq> hc_node ` set (snd (snd (beam_search A K g s layer ef b)))"
  using assms
proof (induction A K g s layer ef b rule: beam_search.induct)
  case (1 A K g s layer ef v frontier results)
  show ?case
  proof (cases "bh_peek frontier")
    case None
    then have "frontier = []" by (cases frontier) auto
    with 1(5,6) have "\<forall>n \<in> reach g layer entries. unat n < hg_len g \<and> marked v (unat n)"
      using closed_reach [of g layer v entries] by simp
    with 1(3) have "reach g layer entries \<subseteq> hc_node ` set results" by (auto simp: none_dropped_def)
    with None show ?thesis by (simp add: beam_search.simps)
  next
    case (Some c)
    let ?b = "fold (visit_neighbour A K g s ef) (hg_neighbours g layer (hc_node c)) (v, bh_pop frontier, results)"
    show ?thesis
    proof (cases "beam_done ef c results")
      case True
      then have "hg_len g \<le> length results" using 1(4) by (auto simp: beam_done_def split: option.splits)
      with results_bound(4) [OF 1(2)] have "hc_node ` set results = {n. unat n < hg_len g}" by simp
      moreover have "unat n < hg_len g" if "n \<in> reach g layer entries" for n using that by (induction rule: reach.induct) simp_all
      ultimately show ?thesis using True Some by (auto simp: beam_search.simps Let_def)
    next
      case False
      have c: "cand_ok A K g s v c" using 1(2) bh_peek_in [OF Some] by (simp add: beam_ok_def)
      then have "hc_node c \<in> reach g layer entries" using 1(2) by (simp add: cand_ok_def beam_ok_def)
      then have ns: "\<forall>n \<in> set (hg_neighbours g layer (hc_node c)). unat n < hg_len g \<longrightarrow> n \<in> reach g layer entries"
        by (blast intro: reach.step)
      have nd: "none_dropped g (v, bh_pop frontier, results)" using 1(3) by (simp add: none_dropped_def)
      note ff = folds_full [OF disjI1 [OF refl] beam_pop_ok [OF 1(2)] nd 1(4) ns]
      obtain v1 f1 r1 where b: "?b = (v1, f1, r1)" by (metis prod_cases3)
      have cl: "closed_but g layer (fst ?b) (hc_node ` set (fst (snd ?b)))"
        unfolding b fst_conv snd_conv
        by (rule expand_closed [of g v frontier results v1 f1 r1 c layer]) (use ff Some 1(5) in \<open>simp_all add: b\<close>)
      have en: "\<forall>e \<in> set entries. unat e < hg_len g \<longrightarrow> marked (fst ?b) (unat e)"
        using 1(6) ff grows_marked [of g "(v, bh_pop frontier, results)" ?b] by auto
      from 1(1) [OF Some refl False expand_ok [OF 1(2) Some] _ 1(4) cl en] ff Some False show ?thesis
        by (subst beam_search.simps) (simp add: Let_def)
    qed
  qed
qed

lemma search_layer_full:
  assumes "visited_ok v" and "hg_len g \<le> ef" and "fst (search_layer A K g s entries layer ef v) = found"
  shows "set found = scored_node A K g s ` reach g layer entries"
proof -
  let ?start = "(visited_begin (hg_len g) v, [], []) :: beam" and ?R = "reach g layer entries"
  let ?b = "fold (enter_beam A K g s) entries ?start"
  have b0: "beam_ok A K g s ?R ?start" by (rule beam_begin_ok [OF assms(1)])
  have en: "\<forall>n \<in> set entries. unat n < hg_len g \<longrightarrow> n \<in> ?R" by (blast intro: reach.entry)
  have nm: "\<not> marked (visited_begin (hg_len g) v) i" for i by (rule begin_marks(3) [OF assms(1)])
  then have "none_dropped g ?start" by (simp add: none_dropped_def)
  note ff = folds_full [OF disjI2 [OF refl] b0 this assms(2) en]
  have "closed_but g layer (fst ?b) (hc_node ` set (fst (snd ?b)))"
    using ff nm by (cases ?b) (auto simp: grows_def closed_but_def)
  note cl = this
  have "reach g layer entries \<subseteq> hc_node ` set (snd (snd (beam_search A K g s layer ef ?b)))"
    using beam_search_full [OF enter_all_ok [OF b0 en] _ assms(2) cl] ff by simp
  note full = this
  obtain v1 f r where b: "beam_search A K g s layer ef ?b = (v1, f, r)" by (metis prod_cases3)
  have found: "set found = set r" using assms(3) b by (auto simp: search_layer_def sort_best_def)
  have "?R \<subseteq> hc_node ` set found" using full ff b found by simp
  with search_layer_sound(2) [OF assms(1,3)] show ?thesis by (auto simp: image_iff)
qed

end
