(* ===== verification/Hnsw_Wf.thy ===== *)
theory Hnsw_Wf
  imports Hnsw_Beam
begin

text \<open>
  The invariant of the graph and that every insertion keeps it: arrays of equal length, edges between
  nodes of the layer only, no loops or repeated edges, degrees within their caps, and an entry point on
  the top layer.
\<close>

unbundle bit_operations_syntax

subsection \<open>Levels\<close>

definition lvl :: "hgraph \<Rightarrow> node \<Rightarrow> nat" where
  "lvl g n = unat (hg_levels g ! unat n)"

lemma f64_sixteen: "nat_to_f64 MAX_LEVEL = 0x4030000000000000"
  by (simp add: nat_to_f64_def MAX_LEVEL_def ilog2.simps Let_def)

lemma to_u8_clamped: "unat (f64_to_u8 (f64_clamp x 0 0x4030000000000000)) \<le> 16"
proof -
  let ?y = "f64_clamp x 0 0x4030000000000000"
  let ?e = "unat (drop_bit 52 ?y AND 0x7FF)" and ?f = "2 ^ 52 + unat (?y AND mask 52)"
  show ?thesis
  proof (cases "f64_is_nan ?y \<or> bit ?y 63 \<or> ?e < 1023")
    case True
    then show ?thesis by (simp add: f64_to_u8_def Let_def)
  next
    case False
    have "f64_rank ?y \<le> f64_rank 0x4030000000000000"
      using False by (auto simp: f64_clamp_def f64_partial_cmp_def cmp_def f64_is_nan_def f64_rank_def split: if_splits)
    then have "int (unat ?y) \<le> 0x4030000000000000" using False by (simp add: f64_rank_def)
    then have le: "unat ?y \<le> 0x4030000000000000" by linarith
    have e: "?e = unat ?y div 2 ^ 52 mod 2 ^ 11" and f: "unat (?y AND mask 52) = unat ?y mod 2 ^ 52"
    proof -
      have "(0x7FF :: u64) = mask 11" by (simp add: mask_eq_exp_minus_1)
      then have "drop_bit 52 ?y AND 0x7FF = take_bit 11 (drop_bit 52 ?y)" by (simp only: take_bit_eq_mask)
      moreover have "unat (take_bit 11 (drop_bit 52 y)) = unat y div 2 ^ 52 mod 2 ^ 11" for y :: u64
        using unat_lt_64 [of y] unfolding unsigned_take_bit_eq unsigned_drop_bit_eq by (simp only: take_bit_eq_mod drop_bit_eq_div len_of_numeral_defs) simp
      ultimately show "?e = unat ?y div 2 ^ 52 mod 2 ^ 11" by simp
      show "unat (?y AND mask 52) = unat ?y mod 2 ^ 52"
        unfolding take_bit_eq_mask [symmetric] unsigned_take_bit_eq by (simp only: take_bit_eq_mod)
    qed
    have e7: "?e \<le> 1027" using le unfolding e by simp
    have "?f div 2 ^ (1075 - ?e) \<le> 16"
    proof (cases "?e = 1027")
      case True
      then have "1027 \<le> unat ?y div 2 ^ 52" using mod_less_eq_dividend [of "unat ?y div 2 ^ 52" "2 ^ 11"] unfolding e by linarith
      then have "1027 * 2 ^ 52 \<le> unat ?y" by (simp only: less_eq_div_iff_mult_less_eq zero_less_power zero_less_numeral)
      with le have "unat ?y = 1027 * 2 ^ 52" by simp
      then have "unat ?y mod 2 ^ 52 = 0" by simp
      with True f show ?thesis by simp
    next
      case False
      then have "2 ^ 49 \<le> (2 ^ (1075 - ?e) :: nat)" using e7 by (intro power_increasing) simp_all
      then have "?f div 2 ^ (1075 - ?e) \<le> ?f div 2 ^ 49" by (rule div_le_mono2 [rotated]) simp
      also have "\<dots> \<le> 16" using f mod_less_divisor [of "2 ^ 52" "unat ?y"] by simp
      finally show ?thesis .
    qed
    then show ?thesis using False e7 by (simp add: f64_to_u8_def Let_def unat_of_nat)
  qed
qed

lemma level_for_le: "unat (level_for L row P) \<le> MAX_LEVEL"
  using to_u8_clamped by (simp add: level_for_def Let_def f64_sixteen) (simp add: MAX_LEVEL_def)


subsection \<open>The invariant\<close>

definition hg_arrays :: "hgraph \<Rightarrow> bool" where
  "hg_arrays g \<longleftrightarrow> hg_len g < 2 ^ 32 \<and> length (hg_vectors g) = hg_len g * hg_dimension g \<and> length (hg_inv_norms g) = hg_len g
     \<and> length (hg_levels g) = hg_len g \<and> (\<forall>l \<in> set (hg_layers g). length l = hg_len g)"

definition hg_edges :: "hgraph \<Rightarrow> bool" where
  "hg_edges g \<longleftrightarrow> (\<forall>layer a. distinct (hg_neighbours g layer a)
     \<and> (\<forall>b \<in> set (hg_neighbours g layer a). b \<noteq> a \<and> unat b < hg_len g \<and> layer \<le> lvl g a \<and> layer \<le> lvl g b))"

definition layer_cap :: "hnsw_params \<Rightarrow> nat \<Rightarrow> nat" where
  "layer_cap P layer = (if layer = 0 then hp_m0 P else hp_m P)"

definition hg_capped :: "hnsw_params \<Rightarrow> hgraph \<Rightarrow> bool" where
  "hg_capped P g \<longleftrightarrow> (\<forall>layer a. length (hg_neighbours g layer a) \<le> layer_cap P layer)"

definition hg_entered :: "hgraph \<Rightarrow> bool" where
  "hg_entered g \<longleftrightarrow> (case hg_entry g of
       None \<Rightarrow> hg_len g = 0 \<and> hg_layers g = []
     | Some e \<Rightarrow> unat e < hg_len g \<and> length (hg_layers g) = Suc (lvl g e) \<and> (\<forall>n. unat n < hg_len g \<longrightarrow> lvl g n \<le> lvl g e))"

definition hg_wf :: "hnsw_params \<Rightarrow> hgraph \<Rightarrow> bool" where
  "hg_wf P g \<longleftrightarrow> hg_arrays g \<and> hg_edges g \<and> hg_capped P g \<and> hg_entered g \<and> (\<forall>l \<in> set (hg_levels g). unat l \<le> MAX_LEVEL)"

text \<open>Graphs that differ in their neighbour lists only.\<close>

definition relinked :: "hgraph \<Rightarrow> hgraph \<Rightarrow> bool" where
  "relinked g h \<longleftrightarrow> h = g\<lparr>hg_layers := hg_layers h\<rparr> \<and> map length (hg_layers h) = map length (hg_layers g)"

lemma relinked_refl: "relinked g g"
  by (simp add: relinked_def)

lemma relinked_trans: "relinked a b \<Longrightarrow> relinked b c \<Longrightarrow> relinked a c"
  unfolding relinked_def by (cases a; cases b; cases c) simp

lemma relinked_simps:
  assumes "relinked g h"
  shows "hg_rows h = hg_rows g" "hg_vectors h = hg_vectors g" "hg_inv_norms h = hg_inv_norms g" "hg_levels h = hg_levels g"
    "hg_entry h = hg_entry g" "hg_dimension h = hg_dimension g" "hg_metric h = hg_metric g" "hg_len h = hg_len g" "lvl h n = lvl g n"
    "length (hg_layers h) = length (hg_layers g)"
  using assms unfolding relinked_def hg_len_def lvl_def by (cases g; cases h; auto dest: map_eq_imp_length_eq)+

lemma relinked_arrays:
  assumes "relinked g h"
  shows "hg_arrays h \<longleftrightarrow> hg_arrays g"
proof -
  have "(\<forall>l \<in> set xs. length l = k) \<longleftrightarrow> (\<forall>x \<in> set (map length xs). x = k)" for xs :: "node list list list" and k by simp
  with assms show ?thesis by (simp add: hg_arrays_def relinked_simps [OF assms] del: set_map) (simp add: relinked_def)
qed

lemma set_neighbours_relinked: "relinked g (set_neighbours layer n ns g)"
proof -
  have "(map length xs)[i := length (xs ! i)] = map length xs" for xs :: "node list list list" and i
    by (metis list_update_id map_update)
  then show ?thesis by (simp add: set_neighbours_def relinked_def map_update)
qed

definition in_layers :: "nat \<Rightarrow> node \<Rightarrow> hgraph \<Rightarrow> bool" where
  "in_layers layer n g \<longleftrightarrow> layer < length (hg_layers g) \<and> unat n < length (hg_layers g ! layer)"

lemma neighbours_set:
  "hg_neighbours (set_neighbours layer n ns g) l a = (if l = layer \<and> a = n \<and> in_layers layer n g then ns else hg_neighbours g l a)"
  by (auto simp: hg_neighbours_def set_neighbours_def in_layers_def nth_list_update word_unat_eq_iff)

lemma neighbours_in_layers: "hg_neighbours g layer n \<noteq> [] \<Longrightarrow> in_layers layer n g"
  by (auto simp: hg_neighbours_def in_layers_def split: if_splits)

subsection \<open>Choosing and cutting neighbours\<close>

lemma choose_step:
  assumes "length kept \<le> mx" and "distinct kept" and "set kept \<subseteq> N" and "hc_node c \<in> N" and "hc_node c \<notin> set kept"
  shows "length (choose_diverse A K g m mx c kept) \<le> mx \<and> distinct (choose_diverse A K g m mx c kept)
     \<and> set (choose_diverse A K g m mx c kept) \<subseteq> insert (hc_node c) (set kept)"
  using assms by (auto simp: choose_diverse_def Let_def)

lemma choose_all:
  assumes "distinct (map hc_node cs)" and "length kept \<le> mx" and "distinct kept" and "set kept \<inter> hc_node ` set cs = {}"
  shows "length (fold (choose_diverse A K g m mx) cs kept) \<le> mx \<and> distinct (fold (choose_diverse A K g m mx) cs kept)
     \<and> set (fold (choose_diverse A K g m mx) cs kept) \<subseteq> set kept \<union> hc_node ` set cs"
  using assms
proof (induction cs arbitrary: kept)
  case (Cons c cs)
  let ?k = "choose_diverse A K g m mx c kept"
  have st: "length ?k \<le> mx" "distinct ?k" "set ?k \<subseteq> insert (hc_node c) (set kept)"
    using choose_step [of kept mx UNIV c A K g m] Cons.prems by auto
  have "hc_node c \<notin> hc_node ` set cs" "set kept \<inter> hc_node ` set cs = {}" using Cons.prems(1,4) by auto
  then have "insert (hc_node c) (set kept) \<inter> hc_node ` set cs = {}" by simp
  with Int_mono [OF st(3) subset_refl, of "hc_node ` set cs"] have dis: "set ?k \<inter> hc_node ` set cs = {}" by simp
  have d: "distinct (map hc_node cs)" using Cons.prems(1) by simp
  note IH = Cons.IH [OF d st(1,2) dis]
  have "set ?k \<union> hc_node ` set cs \<subseteq> set kept \<union> hc_node ` set (c # cs)" using st(3) by auto
  with IH have "set (fold (choose_diverse A K g m mx) cs ?k) \<subseteq> set kept \<union> hc_node ` set (c # cs)" by (meson order_trans)
  with IH show ?case by simp
qed simp

lemma top_up_all:
  assumes "length kept \<le> mx" and "distinct kept"
  shows "length (fold (top_up mx) cs kept) \<le> mx \<and> distinct (fold (top_up mx) cs kept)
     \<and> set (fold (top_up mx) cs kept) \<subseteq> set kept \<union> hc_node ` set cs"
  using assms
proof (induction cs arbitrary: kept)
  case (Cons c cs)
  have "length (top_up mx c kept) \<le> mx" "distinct (top_up mx c kept)" "set (top_up mx c kept) \<subseteq> insert (hc_node c) (set kept)"
    using Cons.prems by (auto simp: top_up_def)
  with Cons.IH [of "top_up mx c kept"] show ?case by auto
qed simp

lemma select_neighbours_ok:
  assumes "distinct (map hc_node cs)"
  shows "length (select_neighbours A K g cs mx m) \<le> mx" and "distinct (select_neighbours A K g cs mx m)"
    and "set (select_neighbours A K g cs mx m) \<subseteq> hc_node ` set cs"
  using choose_all [OF assms, of "[]" mx A K g m] top_up_all [of "fold (choose_diverse A K g m mx) cs []" mx cs]
  by (auto simp: select_neighbours_def Let_def split: if_splits)

lemma prune_ok:
  assumes "distinct (hg_neighbours g layer n)"
  shows "relinked g (prune A K layer n mx m g)"
    and "l \<noteq> layer \<or> a \<noteq> n \<Longrightarrow> hg_neighbours (prune A K layer n mx m g) l a = hg_neighbours g l a"
    and "distinct (hg_neighbours (prune A K layer n mx m g) layer n)"
    and "set (hg_neighbours (prune A K layer n mx m g) layer n) \<subseteq> set (hg_neighbours g layer n)"
    and "length (hg_neighbours (prune A K layer n mx m g) layer n) \<le> mx"
proof -
  let ?s = "gscorer_new A K m (hg_vector g n)"
  let ?cs = "sort_best (map (\<lambda>k. \<lparr>hc_score = node_score A K g ?s k, hc_node = k\<rparr>) (hg_neighbours g layer n))"
  have "distinct (map hc_node ?cs)" and nodes: "hc_node ` set ?cs = set (hg_neighbours g layer n)"
    using assms by (auto simp: sort_best_def distinct_map inj_on_def image_iff)
  note sel = select_neighbours_ok [OF this(1), of A K g mx m]
  show "relinked g (prune A K layer n mx m g)"
    by (simp add: prune_def relinked_refl set_neighbours_relinked Let_def)
  show "l \<noteq> layer \<or> a \<noteq> n \<Longrightarrow> hg_neighbours (prune A K layer n mx m g) l a = hg_neighbours g l a"
    by (auto simp: prune_def neighbours_set Let_def)
  have "hg_neighbours (prune A K layer n mx m g) layer n
      = (if length (hg_neighbours g layer n) \<le> mx then hg_neighbours g layer n else select_neighbours A K g ?cs mx m)"
    using neighbours_in_layers [of g layer n] by (cases "hg_neighbours g layer n = []") (simp_all add: prune_def neighbours_set Let_def)
  then show "distinct (hg_neighbours (prune A K layer n mx m g) layer n)"
    "set (hg_neighbours (prune A K layer n mx m g) layer n) \<subseteq> set (hg_neighbours g layer n)"
    "length (hg_neighbours (prune A K layer n mx m g) layer n) \<le> mx"
    using sel assms nodes by auto
qed

lemma connect_ok:
  shows "relinked g (connect layer n k g)"
    and "l \<noteq> layer \<or> a \<noteq> n \<Longrightarrow> hg_neighbours (connect layer n k g) l a = hg_neighbours g l a"
    and "hg_neighbours (connect layer n k g) layer n \<in> {hg_neighbours g layer n, hg_neighbours g layer n @ [k]}"
    and "distinct (hg_neighbours g layer n) \<Longrightarrow> distinct (hg_neighbours (connect layer n k g) layer n)"
    and "k \<noteq> n \<or> set (hg_neighbours (connect layer n k g) layer n) \<subseteq> set (hg_neighbours g layer n)"
  by (auto simp: connect_def relinked_refl set_neighbours_relinked neighbours_set)


subsection \<open>Linking a node into a layer\<close>

lemma edges_change:
  assumes "hg_edges g" and "relinked g h" and "\<forall>l a. l \<noteq> layer \<or> a \<noteq> n \<longrightarrow> hg_neighbours h l a = hg_neighbours g l a"
    and "distinct (hg_neighbours h layer n)"
    and "\<forall>b \<in> set (hg_neighbours h layer n) - set (hg_neighbours g layer n). b \<noteq> n \<and> unat b < hg_len g \<and> layer \<le> lvl g n \<and> layer \<le> lvl g b"
  shows "hg_edges h"
  unfolding hg_edges_def relinked_simps [OF assms(2)]
proof (intro allI)
  fix l a
  show "distinct (hg_neighbours h l a)
     \<and> (\<forall>b \<in> set (hg_neighbours h l a). b \<noteq> a \<and> unat b < hg_len g \<and> l \<le> lvl g a \<and> l \<le> lvl g b)"
  proof (cases "l \<noteq> layer \<or> a \<noteq> n")
    case True
    with assms(3) have "hg_neighbours h l a = hg_neighbours g l a" by blast
    with assms(1) show ?thesis by (simp add: hg_edges_def)
  next
    case False
    have "b \<noteq> n \<and> unat b < hg_len g \<and> layer \<le> lvl g n \<and> layer \<le> lvl g b" if "b \<in> set (hg_neighbours h layer n)" for b
      using assms(1,5) that unfolding hg_edges_def by blast
    with False assms(4) show ?thesis by simp
  qed
qed

definition may_link :: "hgraph \<Rightarrow> nat \<Rightarrow> node \<Rightarrow> bool" where
  "may_link g layer n \<longleftrightarrow> unat n < hg_len g \<and> layer \<le> lvl g n"

lemma edges_distinct: "hg_edges g \<Longrightarrow> distinct (hg_neighbours g layer n)"
  by (simp add: hg_edges_def)

lemma connect_edges:
  assumes "hg_edges g" and "may_link g layer n" and "may_link g layer k"
  shows "hg_edges (connect layer n k g)"
proof (rule edges_change [OF assms(1) connect_ok(1)])
  note c = connect_ok(2-5) [where layer = layer and n = n and k = k and g = g]
  show "\<forall>l a. l \<noteq> layer \<or> a \<noteq> n \<longrightarrow> hg_neighbours (connect layer n k g) l a = hg_neighbours g l a" using c(1) by blast
  show "distinct (hg_neighbours (connect layer n k g) layer n)" by (rule c(3) [OF edges_distinct [OF assms(1)]])
  show "\<forall>b \<in> set (hg_neighbours (connect layer n k g) layer n) - set (hg_neighbours g layer n).
      b \<noteq> n \<and> unat b < hg_len g \<and> layer \<le> lvl g n \<and> layer \<le> lvl g b"
    using c(2,4) assms(2,3) by (auto simp: may_link_def)
qed

lemma prune_edges:
  assumes "hg_edges g"
  shows "hg_edges (prune A K layer n mx m g)"
proof (rule edges_change [OF assms])
  note p = prune_ok [OF edges_distinct [OF assms], where layer = layer and n = n and A = A and K = K and mx = mx and m = m]
  show "relinked g (prune A K layer n mx m g)" by (rule p(1))
  show "\<forall>l a. l \<noteq> layer \<or> a \<noteq> n \<longrightarrow> hg_neighbours (prune A K layer n mx m g) l a = hg_neighbours g l a" using p(2) by blast
  show "distinct (hg_neighbours (prune A K layer n mx m g) layer n)" by (rule p(3))
  show "\<forall>b \<in> set (hg_neighbours (prune A K layer n mx m g) layer n) - set (hg_neighbours g layer n).
      b \<noteq> n \<and> unat b < hg_len g \<and> layer \<le> lvl g n \<and> layer \<le> lvl g b" using p(4) by blast
qed

lemma may_link_relinked: "relinked g h \<Longrightarrow> may_link h layer n = may_link g layer n"
  by (simp add: may_link_def relinked_simps)

text \<open>One chosen neighbour \<open>k\<close> of the node \<open>n\<close>.\<close>

definition link_one :: "fops \<Rightarrow> kernels \<Rightarrow> nat \<Rightarrow> nat \<Rightarrow> metric \<Rightarrow> node \<Rightarrow> node \<Rightarrow> hgraph \<Rightarrow> hgraph" where
  "link_one A K layer mx m n k g = prune A K layer k mx m (connect layer k n (connect layer n k g))"

lemma link_one_ok:
  assumes "hg_edges g" and "may_link g layer n" and "may_link g layer k" and "h = link_one A K layer mx m n k g"
    and "\<forall>a. a \<noteq> n \<longrightarrow> length (hg_neighbours g layer a) \<le> mx"
  shows "hg_edges h" and "relinked g h" and "l \<noteq> layer \<Longrightarrow> hg_neighbours h l a = hg_neighbours g l a"
    and "\<forall>a. a \<noteq> n \<longrightarrow> length (hg_neighbours h layer a) \<le> mx"
    and "set (hg_neighbours h layer n) \<subseteq> insert k (set (hg_neighbours g layer n))"
proof -
  let ?g1 = "connect layer n k g" let ?g2 = "connect layer k n ?g1"
  note c1 = connect_ok [where layer = layer and n = n and k = k and g = g]
  note c2 = connect_ok [where layer = layer and n = k and k = n and g = ?g1]
  have e1: "hg_edges ?g1" by (rule connect_edges [OF assms(1-3)])
  have e2: "hg_edges ?g2"
    using connect_edges [OF e1] assms(2,3) may_link_relinked [OF c1(1)] by simp
  note p = prune_ok [OF edges_distinct [OF e2], where layer = layer and n = k and A = A and K = K and mx = mx and m = m]
  show "hg_edges h" unfolding assms(4) link_one_def by (rule prune_edges [OF e2])
  show "relinked g h" unfolding assms(4) link_one_def using c1(1) c2(1) p(1) relinked_trans by blast
  show "l \<noteq> layer \<Longrightarrow> hg_neighbours h l a = hg_neighbours g l a" unfolding assms(4) link_one_def using c1(2) c2(2) p(2) by simp
  show "\<forall>a. a \<noteq> n \<longrightarrow> length (hg_neighbours h layer a) \<le> mx"
  proof (intro allI impI)
    fix a assume a: "a \<noteq> n"
    show "length (hg_neighbours h layer a) \<le> mx"
    proof (cases "a = k")
      case False
      with a assms(5) show ?thesis unfolding assms(4) link_one_def using c1(2) c2(2) p(2) by simp
    qed (use p(5) in \<open>simp add: assms(4) link_one_def\<close>)
  qed
  show "set (hg_neighbours h layer n) \<subseteq> insert k (set (hg_neighbours g layer n))"
  proof (cases "n = k")
    case True
    with p(4) c1(5) c2(5) show ?thesis unfolding assms(4) link_one_def by auto
  next
    case False
    with c1(3) c2(2) p(2) show ?thesis unfolding assms(4) link_one_def by auto
  qed
qed

lemma link_all_ok:
  assumes "hg_edges g" and "may_link g layer n" and "\<forall>k \<in> set ks. may_link g layer k" and "h = fold (link_one A K layer mx m n) ks g"
    and "\<forall>a. a \<noteq> n \<longrightarrow> length (hg_neighbours g layer a) \<le> mx"
  shows "hg_edges h \<and> relinked g h \<and> (\<forall>l a. l \<noteq> layer \<longrightarrow> hg_neighbours h l a = hg_neighbours g l a)
    \<and> (\<forall>a. a \<noteq> n \<longrightarrow> length (hg_neighbours h layer a) \<le> mx)
    \<and> set (hg_neighbours h layer n) \<subseteq> set ks \<union> set (hg_neighbours g layer n)"
  using assms
proof (induction ks arbitrary: g)
  case Nil
  then show ?case by (simp add: relinked_refl)
next
  case (Cons k ks)
  let ?g = "link_one A K layer mx m n k g"
  have k: "may_link g layer k" using Cons.prems(3) by simp
  note o = link_one_ok [OF Cons.prems(1,2) k refl Cons.prems(5), where A = A and K = K and m = m]
  have ml: "may_link ?g layer n" "\<forall>k \<in> set ks. may_link ?g layer k"
    using Cons.prems(2,3) may_link_relinked [OF o(2)] by simp_all
  have h: "h = fold (link_one A K layer mx m n) ks ?g" using Cons.prems(4) by simp
  from Cons.IH [OF o(1) ml h o(4)] o(2,3,5) relinked_trans [OF o(2)] show ?case by auto
qed

text \<open>A layer keeps what is above and below it; the new node had no edges there.\<close>

lemma reach_may_link:
  assumes "hg_edges g" and "\<forall>e \<in> set entries. may_link g layer e" and "n \<in> reach g layer entries"
  shows "may_link g layer n"
  using assms(3)
proof (induction rule: reach.induct)
  case (entry e)
  with assms(2) show ?case by blast
next
  case (step a b)
  then show ?case using assms(1) unfolding hg_edges_def may_link_def by blast
qed

lemma link_layer_ok:
  assumes "hg_edges g" and "visited_ok v" and "may_link g layer n" and "\<forall>e \<in> set entries. may_link g layer e"
    and "hg_neighbours g layer n = []" and "\<forall>a. length (hg_neighbours g layer a) \<le> layer_cap P layer"
    and "link_layer A K P m s n layer (g, v, entries) = (h, w, entries')"
  shows "hg_edges h" and "visited_ok w" and "relinked g h" and "\<forall>l a. l \<noteq> layer \<longrightarrow> hg_neighbours h l a = hg_neighbours g l a"
    and "\<forall>a. length (hg_neighbours h layer a) \<le> layer_cap P layer" and "\<forall>e \<in> set entries'. may_link g layer e"
proof -
  obtain found w' where sl: "search_layer A K g s entries layer (hp_ef_construction P) v = (found, w')" by fastforce
  let ?ks = "select_neighbours A K g found (layer_cap P layer) m"
  note fd = search_layer_sound [OF assms(2), of A K g s entries layer "hp_ef_construction P" found] 
  have f: "fst (search_layer A K g s entries layer (hp_ef_construction P) v) = found" by (simp add: sl)
  have ml: "may_link g layer (hc_node c)" if "c \<in> set found" for c
    using fd(2) [OF f] reach_may_link [OF assms(1,4)] that by blast
  note sel = select_neighbours_ok [OF fd(1) [OF f], of A K g "layer_cap P layer" m]
  have lk: "h = fold (link_one A K layer (layer_cap P layer) m n) ?ks g" "w = w'" "entries' = (if found \<noteq> [] then map hc_node found else entries)"
    using assms(7) by (auto simp: link_layer_def sl Let_def layer_cap_def link_one_def [abs_def])
  have ks: "\<forall>k \<in> set ?ks. may_link g layer k" using sel(3) ml by blast
  have "\<forall>a. a \<noteq> n \<longrightarrow> length (hg_neighbours g layer a) \<le> layer_cap P layer" using assms(6) by blast
  note all = link_all_ok [OF assms(1,3) ks lk(1) this]
  then show e: "hg_edges h" and "relinked g h" "\<forall>l a. l \<noteq> layer \<longrightarrow> hg_neighbours h l a = hg_neighbours g l a" by blast+
  show "visited_ok w" using search_layer_same(2) [OF assms(2) assms(2), of A K g s entries layer "hp_ef_construction P"] by (simp add: sl lk(2))
  show "\<forall>a. length (hg_neighbours h layer a) \<le> layer_cap P layer"
  proof
    fix a
    show "length (hg_neighbours h layer a) \<le> layer_cap P layer"
    proof (cases "a = n")
      case True
      have "length (hg_neighbours h layer n) = card (set (hg_neighbours h layer n))"
        using distinct_card [OF edges_distinct [OF e]] by simp
      also have "\<dots> \<le> card (set ?ks)" using all assms(5) by (intro card_mono) auto
      also have "\<dots> \<le> layer_cap P layer" using sel(1) card_length [of ?ks] by linarith
      finally show ?thesis using True by simp
    qed (use all in blast)
  qed
  show "\<forall>e \<in> set entries'. may_link g layer e" using lk(3) ml assms(4) by auto
qed

end
