(* ===== verification/Hnsw_Insert.thy ===== *)
theory Hnsw_Insert
  imports Hnsw_Wf
begin

text \<open>
  Insertion keeps the invariant of the graph, and what a graph becomes does not depend on the nodes
  an earlier traversal has seen: extending a graph is building the longer one.
\<close>

subsection \<open>The greedy descent\<close>

lemma pass_node:
  "fold (\<lambda>n ((current, score), improved).
     let x = h n in if f32_lt score x then ((n, x), True) else ((current, score), improved)) ns ((c, x), b) = ((c', x'), b')
   \<Longrightarrow> c' = c \<or> c' \<in> set ns"
proof (induction ns arbitrary: c x b)
  case (Cons n ns)
  then show ?case by (cases "f32_lt x (h n)") (auto simp: Let_def)
qed simp

lemma descend_pass_ok:
  assumes "hg_edges g" and "may_link g layer (fst cur)" and "descend_pass A K g s layer cur = (cur', improved)"
  shows "may_link g layer (fst cur')"
proof -
  obtain c x c' x' where cur: "cur = (c, x)" "cur' = (c', x')" by fastforce
  have "c' = c \<or> c' \<in> set (hg_neighbours g layer c)"
    using assms(3) unfolding cur descend_pass_def prod.case by (rule pass_node)
  then show ?thesis using assms(1,2) unfolding cur may_link_def hg_edges_def by auto
qed

lemma descend_ok:
  assumes "hg_edges g" and "may_link g layer (fst cur)"
  shows "may_link g layer (fst (descend_layer A K g s layer cur))"
  using assms
proof (induction A K g s layer cur rule: descend_layer.induct)
  case (1 A K g s layer cur)
  obtain cur' improved where p: "descend_pass A K g s layer cur = (cur', improved)" by fastforce
  from descend_pass_ok [OF 1(2,3) p] 1(1) [OF p [symmetric] _ 1(2)] show ?case
    by (subst descend_layer.simps) (simp add: p)
qed

lemma may_link_mono: "may_link g l n \<Longrightarrow> k \<le> l \<Longrightarrow> may_link g k n"
  by (simp add: may_link_def)

lemma descend_all_ok:
  assumes "hg_edges g" and "sorted_wrt (\<ge>) ls" and "\<forall>l \<in> set ls. k \<le> l" and "\<forall>l \<in> insert k (set ls). may_link g l (fst cur)"
  shows "may_link g k (fst (fold (descend_layer A K g s) ls cur))"
  using assms(2-)
proof (induction ls arbitrary: cur)
  case (Cons l ls)
  have "may_link g l (fst (descend_layer A K g s l cur))" using descend_ok [OF assms(1)] Cons.prems(3) by simp
  then have "\<forall>j \<in> insert k (set ls). may_link g j (fst (descend_layer A K g s l cur))"
    using Cons.prems(1,2) may_link_mono by auto
  with Cons.IH [of "descend_layer A K g s l cur"] Cons.prems(1,2) show ?case by simp
qed simp

subsection \<open>Linking a node into its layers\<close>

lemma link_layers_ok:
  assumes "hg_edges g" and "visited_ok v" and "hg_capped P g" and "\<forall>l < k. may_link g l n \<and> hg_neighbours g l n = []"
    and "\<forall>l < k. \<forall>e \<in> set entries. may_link g l e"
    and "fold (link_layer A K P m s n) (rev [0..<k]) (g, v, entries) = (h, w, es)"
  shows "hg_edges h \<and> visited_ok w \<and> relinked g h \<and> hg_capped P h"
  using assms
proof (induction k arbitrary: g v entries)
  case 0
  then show ?case by (simp add: relinked_refl)
next
  case (Suc k)
  obtain g1 v1 es1 where st: "link_layer A K P m s n k (g, v, entries) = (g1, v1, es1)" by (metis prod_cases3)
  have pre: "may_link g k n" "\<forall>e \<in> set entries. may_link g k e" "hg_neighbours g k n = []"
    "\<forall>a. length (hg_neighbours g k a) \<le> layer_cap P k"
    using Suc.prems(3,4,5) by (auto simp: hg_capped_def)
  note o = link_layer_ok [OF Suc.prems(1,2) pre st]
  have "hg_capped P g1" unfolding hg_capped_def
  proof (intro allI)
    fix l a
    show "length (hg_neighbours g1 l a) \<le> layer_cap P l"
      using o(4,5) Suc.prems(3) by (cases "l = k") (simp_all add: hg_capped_def)
  qed
  moreover have "\<forall>l < k. may_link g1 l n \<and> hg_neighbours g1 l n = []"
    using Suc.prems(4) o(4) may_link_relinked [OF o(3)] by simp
  moreover have "\<forall>l < k. \<forall>e \<in> set es1. may_link g1 l e"
    using o(6) may_link_relinked [OF o(3)] may_link_mono [of g k] by auto
  moreover have "fold (link_layer A K P m s n) (rev [0..<k]) (g1, v1, es1) = (h, w, es)"
    using Suc.prems(6) st by simp
  ultimately have "hg_edges h \<and> visited_ok w \<and> relinked g1 h \<and> hg_capped P h"
    by (rule Suc.IH [OF o(1,2)])
  with relinked_trans [OF o(3)] show ?case by blast
qed

subsection \<open>Adding a node\<close>

lemma hg_neighbours_beyond: "hg_arrays g \<Longrightarrow> hg_len g \<le> unat a \<Longrightarrow> hg_neighbours g l a = []"
  using nth_mem [of l "hg_layers g"] by (auto simp: hg_neighbours_def hg_arrays_def)

lemma push_node_ok:
  assumes "hg_arrays g" and "Suc (hg_len g) < 2 ^ 32" and "length vector = hg_dimension g"
    and "hg_push_node row vector norm level g = (n, h)"
  shows "unat n = hg_len g" and "hg_len h = Suc (hg_len g)" and "hg_arrays h" and "hg_neighbours h l a = hg_neighbours g l a"
    and "hg_neighbours h l n = []" and "unat a < hg_len g \<Longrightarrow> lvl h a = lvl g a" and "lvl h n = unat level"
    and "length (hg_layers h) = max (length (hg_layers g)) (Suc (unat level))"
    and "hg_entry h = hg_entry g" and "hg_levels h = hg_levels g @ [level]" and "hg_rows h = hg_rows g @ [row]"
    and "hg_vectors h = hg_vectors g @ vector" and "hg_inv_norms h = hg_inv_norms g @ [norm]"
    and "hg_dimension h = hg_dimension g" and "hg_metric h = hg_metric g"
proof -
  have n: "n = of_nat (hg_len g)" using assms(4) by (simp add: hg_push_node_def Let_def hg_len_def)
  show un: "unat n = hg_len g" using assms(2) unfolding n by (simp add: unat_of_nat)
  let ?layers = "hg_layers g @ replicate (unat level + 1 - length (hg_layers g)) (replicate (hg_len g) [])"
  have h: "h = g\<lparr>hg_rows := hg_rows g @ [row], hg_vectors := hg_vectors g @ vector, hg_inv_norms := hg_inv_norms g @ [norm],
            hg_levels := hg_levels g @ [level], hg_layers := map (\<lambda>layer. layer @ [[]]) ?layers\<rparr>"
    using assms(4) un n unfolding hg_push_node_def Let_def by (auto simp: hg_len_def)
  show len: "hg_len h = Suc (hg_len g)" by (simp add: h hg_len_def)
  show "length (hg_layers h) = max (length (hg_layers g)) (Suc (unat level))" by (simp add: h)
  show "hg_entry h = hg_entry g" "hg_levels h = hg_levels g @ [level]" "hg_rows h = hg_rows g @ [row]"
    "hg_vectors h = hg_vectors g @ vector" "hg_inv_norms h = hg_inv_norms g @ [norm]" "hg_dimension h = hg_dimension g"
    "hg_metric h = hg_metric g" by (simp_all add: h)
  have ll: "length (hg_levels g) = hg_len g" using assms(1) by (simp add: hg_arrays_def)
  show "unat a < hg_len g \<Longrightarrow> lvl h a = lvl g a" by (simp add: lvl_def h ll nth_append)
  show "lvl h n = unat level" by (simp add: lvl_def h un ll nth_append)
  have ok: "\<forall>layer \<in> set ?layers. length layer = hg_len g" using assms(1) by (auto simp: hg_arrays_def)
  then show "hg_arrays h" using assms(1-3) len unfolding hg_arrays_def by (auto simp: h)
  show nb: "hg_neighbours h l a = hg_neighbours g l a" for a
  proof (cases "l < length ?layers")
    case True
    then have lh: "hg_layers h ! l = ?layers ! l @ [[]]" and "l < length (hg_layers h)" by (simp_all add: h nth_append)
    moreover have "length (?layers ! l) = hg_len g" using ok nth_mem [OF True] by blast
    ultimately have "hg_neighbours h l a = (if unat a < hg_len g then ?layers ! l ! unat a else [])"
      by (simp add: hg_neighbours_def nth_append)
    also have "\<dots> = hg_neighbours g l a"
    proof (cases "l < length (hg_layers g)")
      case True
      then have "length (hg_layers g ! l) = hg_len g" using assms(1) by (simp add: hg_arrays_def)
      with True show ?thesis by (simp add: hg_neighbours_def nth_append)
    next
      case False
      with True show ?thesis by (simp add: hg_neighbours_def nth_append)
    qed
    finally show ?thesis .
  next
    case False
    then have "\<not> l < length (hg_layers h)" "\<not> l < length (hg_layers g)" by (simp_all add: h)
    then show ?thesis by (simp add: hg_neighbours_def)
  qed
  show "hg_neighbours h l n = []" unfolding nb by (rule hg_neighbours_beyond [OF assms(1)]) (simp add: un)
qed

lemma push_edges:
  assumes "hg_arrays g" and "Suc (hg_len g) < 2 ^ 32" and "length vector = hg_dimension g"
    and "hg_push_node row vector norm level g = (n, h)" and "hg_edges g" and "hg_capped P g"
  shows "hg_edges h" and "hg_capped P h"
proof -
  note p = push_node_ok [OF assms(1-4)]
  show "hg_capped P h" using assms(6) by (simp add: hg_capped_def p(4))
  show "hg_edges h" unfolding hg_edges_def p(4)
  proof (intro allI conjI ballI)
    fix l a
    show "distinct (hg_neighbours g l a)" using assms(5) by (simp add: hg_edges_def)
    fix b assume b: "b \<in> set (hg_neighbours g l a)"
    then have a: "unat a < hg_len g" using hg_neighbours_beyond [OF assms(1), of a l] by (cases "unat a < hg_len g") auto
    from b assms(5) have "b \<noteq> a" "unat b < hg_len g" "l \<le> lvl g a" "l \<le> lvl g b" by (auto simp: hg_edges_def)
    with a p(2,6) show "b \<noteq> a" "unat b < hg_len h" "l \<le> lvl h a" "l \<le> lvl h b" by simp_all
  qed
qed

subsection \<open>The invariant is kept\<close>

lemma hg_wf_default: "hg_wf P (hg_default\<lparr>hg_dimension := dimension, hg_metric := m\<rparr>)"
  by (simp add: hg_wf_def hg_arrays_def hg_edges_def hg_capped_def hg_entered_def hg_neighbours_def hg_len_def hg_default_def)

text \<open>Where the linking of a node starts, and insertion once there is an entry point.\<close>

definition insert_start :: "fops \<Rightarrow> kernels \<Rightarrow> metric \<Rightarrow> hgraph \<Rightarrow> node \<Rightarrow> node \<Rightarrow> node" where
  "insert_start A K m g n e =
     (let s = gscorer_new A K m (hg_vector g n) in
      fst (fold (descend_layer A K g s) (rev [lvl g n + 1..<lvl g e + 1]) (e, node_score A K g s e)))"

lemma insert_entered:
  assumes "hg_entry g = Some e"
  shows "hnsw_insert A K P m n (g, v)
    = (case fold (link_layer A K P m (gscorer_new A K m (hg_vector g n)) n) (rev [0..<min (lvl g n) (lvl g e) + 1])
          (g, v, [insert_start A K m g n e]) of
        (h, w, _) \<Rightarrow> (if lvl g n > lvl g e then h\<lparr>hg_entry := Some n\<rparr> else h, w))"
  using assms by (simp add: hnsw_insert_def insert_start_def lvl_def Let_def)

lemma insert_ok:
  assumes "hg_wf P g" and "visited_ok v" and "Suc (hg_len g) < 2 ^ 32" and "length vector = hg_dimension g"
    and "unat level \<le> MAX_LEVEL" and "hg_push_node row vector norm level g = (n, h)"
    and "hnsw_insert A K P m n (h, v) = (h', w)"
  shows "hg_wf P h' \<and> visited_ok w \<and> h' = h\<lparr>hg_layers := hg_layers h', hg_entry := hg_entry h'\<rparr>"
proof -
  from assms(1) have wf: "hg_arrays g" "hg_edges g" "hg_capped P g" "hg_entered g" "\<forall>l \<in> set (hg_levels g). unat l \<le> MAX_LEVEL"
    by (simp_all add: hg_wf_def)
  note p = push_node_ok [OF wf(1) assms(3,4,6)]
  note pe = push_edges [OF wf(1) assms(3,4,6) wf(2,3)]
  have lv: "\<forall>l \<in> set (hg_levels h). unat l \<le> MAX_LEVEL" using wf(5) assms(5) by (simp add: p(10))
  show ?thesis
  proof (cases "hg_entry g")
    case None
    with wf(4) have z: "hg_len g = 0" "hg_layers g = []" by (simp_all add: hg_entered_def)
    have h': "h' = h\<lparr>hg_entry := Some n\<rparr>" "w = v" using assms(7) None by (simp_all add: hnsw_insert_def p(9))
    have keep: "hg_neighbours h' = hg_neighbours h" "hg_len h' = hg_len h" "lvl h' = lvl h"
      by (auto simp: h' fun_eq_iff hg_neighbours_def hg_len_def lvl_def)
    have "hg_arrays h'" using p(3) by (simp add: hg_arrays_def h' hg_len_def)
    have "hg_edges h'" "hg_capped P h'" using pe by (simp_all add: hg_edges_def hg_capped_def keep)
    have "lvl h x = unat level" if "unat x < hg_len h" for x
    proof -
      from that p(1,2) z(1) have "unat x = unat n" by simp
      then have "x = n" by (simp only: word_unat_eq_iff)
      then show ?thesis by (simp add: p(7))
    qed
    moreover have "hg_entry h' = Some n" "hg_layers h' = hg_layers h" by (simp_all add: h')
    ultimately have "hg_entered h'" using p(1,2,7,8) z by (simp add: hg_entered_def keep)
    moreover have "hg_arrays h'" "hg_edges h'" "hg_capped P h'" by fact+
    ultimately show ?thesis using lv assms(2) by (simp add: hg_wf_def h')
  next
    case (Some e)
    let ?level = "unat level" let ?top = "lvl g e"
    from Some wf(4) have e: "unat e < hg_len g" "length (hg_layers g) = Suc ?top" "\<forall>x. unat x < hg_len g \<longrightarrow> lvl g x \<le> ?top"
      by (simp_all add: hg_entered_def)
    have le: "lvl h n = ?level" "lvl h e = ?top" using p(6) [OF e(1)] p(7) by simp_all
    define s where "s = gscorer_new A K m (hg_vector h n)"
    define current where "current = insert_start A K m h n e"
    obtain h1 w1 es where st: "fold (link_layer A K P m s n) (rev [0..<min ?level ?top + 1]) (h, v, [current]) = (h1, w1, es)"
      by (metis prod_cases3)
    have he: "hg_entry h = Some e" using p(9) Some by simp
    have ins: "hnsw_insert A K P m n (h, v) = (if ?level > ?top then h1\<lparr>hg_entry := Some n\<rparr> else h1, w1)"
      unfolding insert_entered [OF he] le s_def [symmetric] current_def [symmetric] st by simp
    then have h': "h' = (if ?level > ?top then h1\<lparr>hg_entry := Some n\<rparr> else h1)" "w = w1" using assms(7) by simp_all
    have ml: "may_link h l e" if "l \<le> ?top" for l using that p(2) p(6) [OF e(1)] e(1) by (simp add: may_link_def)
    have srt: "sorted_wrt (\<ge>) (rev [?level + 1..<?top + 1])" by (simp add: sorted_wrt_rev del: upt_Suc)
    have cur: "may_link h (min ?level ?top) current"
      unfolding current_def insert_start_def le Let_def by (rule descend_all_ok [OF pe(1) srt]) (use ml in auto)
    have mine: "\<forall>l < Suc (min ?level ?top). may_link h l n \<and> hg_neighbours h l n = []"
      using p(1,2,7) p(5) by (auto simp: may_link_def)
    have entries: "\<forall>l < Suc (min ?level ?top). \<forall>x \<in> set [current]. may_link h l x"
      using may_link_mono [OF cur] by (auto simp: less_Suc_eq_le)
    have all: "hg_edges h1 \<and> visited_ok w1 \<and> relinked h h1 \<and> hg_capped P h1"
      by (rule link_layers_ok [OF pe(1) assms(2) pe(2) mine entries st [unfolded Suc_eq_plus1 [symmetric]]])
    then have r: "relinked h h1" by blast
    note rs = relinked_simps [OF r]
    have keep: "hg_neighbours h' = hg_neighbours h1" "hg_len h' = hg_len h" "lvl h' = lvl h" "hg_levels h' = hg_levels h"
      "hg_layers h' = hg_layers h1" "hg_entry h' = (if ?level > ?top then Some n else Some e)"
      using rs Some p(9) by (auto simp: h' fun_eq_iff hg_neighbours_def hg_len_def lvl_def)
    have "hg_arrays h1" using relinked_arrays [OF r] p(3) by simp
    then have "hg_arrays h'" by (simp add: h' hg_arrays_def hg_len_def)
    moreover have "hg_edges h'" "hg_capped P h'" using all by (simp_all add: hg_edges_def hg_capped_def keep rs)
    moreover have "hg_entered h'"
    proof -
      have top: "lvl h x \<le> max ?level ?top" if "unat x < hg_len h" for x
      proof (cases "unat x < hg_len g")
        case True
        then show ?thesis using e(3) p(6) by (auto simp: max_def)
      next
        case False
        then have "x = n" using that p(1,2) by (simp add: word_unat_eq_iff)
        then show ?thesis by (simp add: p(7))
      qed
      have lays: "length (hg_layers h1) = max (Suc ?top) (Suc ?level)" using rs(10) p(8) e(2) by simp
      show ?thesis
      proof (cases "?level > ?top")
        case True
        then show ?thesis using top lays p(1,2,7) by (simp add: hg_entered_def keep max_def)
      next
        case False
        then show ?thesis using top lays e(1) p(2) p(6) [OF e(1)] by (simp add: hg_entered_def keep max_def)
      qed
    qed
    moreover have "h1 = h\<lparr>hg_layers := hg_layers h1\<rparr>" using r by (simp add: relinked_def)
    then have "h' = h\<lparr>hg_layers := hg_layers h', hg_entry := hg_entry h'\<rparr>"
      unfolding h' using p(9) Some by (cases h; cases h1) auto
    ultimately show ?thesis using lv all h'(2) by (simp add: hg_wf_def keep)
  qed
qed

text \<open>What a graph holds of its rows.\<close>

definition hg_holds :: "hgraph \<Rightarrow> decoded_row list \<Rightarrow> bool" where
  "hg_holds g rows \<longleftrightarrow> hg_rows g = map fst rows \<and> hg_vectors g = concat (map (fst \<circ> snd) rows) \<and> hg_inv_norms g = map (snd \<circ> snd) rows"

lemma add_ok:
  assumes "hg_wf P g" and "visited_ok v" and "Suc (hg_len g) < 2 ^ 32" and "length (fst (snd r)) = hg_dimension g"
    and "hg_holds g rows" and "hnsw_add A K L P m r (g, v) = (h, w)"
  shows "hg_wf P h" and "visited_ok w" and "hg_len h = Suc (hg_len g)" and "hg_dimension h = hg_dimension g"
    and "hg_metric h = hg_metric g" and "hg_holds h (rows @ [r])"
proof -
  obtain row vector norm where r: "r = (row, vector, norm)" by (cases r)
  obtain n g1 where pn: "hg_push_node row vector norm (level_for L row P) g = (n, g1)" by fastforce
  have len: "length vector = hg_dimension g" using assms(4) by (simp add: r)
  have ins: "hnsw_insert A K P m n (g1, v) = (h, w)" using assms(6) by (simp add: hnsw_add_def r pn)
  note i = insert_ok [OF assms(1-3) len level_for_le pn ins]
  then show "hg_wf P h" "visited_ok w" by blast+
  have ga: "hg_arrays g" using assms(1) by (simp add: hg_wf_def)
  note p = push_node_ok [OF ga assms(3) len pn]
  have h: "hg_rows h = hg_rows g1" "hg_vectors h = hg_vectors g1" "hg_inv_norms h = hg_inv_norms g1"
    "hg_dimension h = hg_dimension g1" "hg_metric h = hg_metric g1"
    using i by (cases h; cases g1; simp)+
  then show "hg_dimension h = hg_dimension g" "hg_metric h = hg_metric g" using p(14,15) by simp_all
  show "hg_len h = Suc (hg_len g)" using h(1) p(2) by (simp add: hg_len_def)
  show "hg_holds h (rows @ [r])" using assms(5) h p(11-13) by (simp add: hg_holds_def r)
qed

lemma add_all_ok:
  assumes "hg_wf P g" and "visited_ok v" and "hg_len g + length rs < 2 ^ 32" and "\<forall>r \<in> set rs. length (fst (snd r)) = hg_dimension g"
    and "hg_holds g rows" and "fold (hnsw_add A K L P m) rs (g, v) = (h, w)"
  shows "hg_wf P h \<and> visited_ok w \<and> hg_dimension h = hg_dimension g \<and> hg_metric h = hg_metric g \<and> hg_holds h (rows @ rs)"
  using assms
proof (induction rs arbitrary: g v rows)
  case (Cons r rs)
  obtain g1 v1 where st: "hnsw_add A K L P m r (g, v) = (g1, v1)" by fastforce
  have pre: "Suc (hg_len g) < 2 ^ 32" "length (fst (snd r)) = hg_dimension g" using Cons.prems(3,4) by simp_all
  note a = add_ok [OF Cons.prems(1,2) pre Cons.prems(5) st]
  have "hg_len g1 + length rs < 2 ^ 32" "\<forall>r \<in> set rs. length (fst (snd r)) = hg_dimension g1"
    "fold (hnsw_add A K L P m) rs (g1, v1) = (h, w)" using Cons.prems(3,4,6) a(3,4) st by simp_all
  from Cons.IH [OF a(1,2) this(1,2) a(6) this(3)] a(4,5) show ?case by simp
qed simp

subsection \<open>Extending is building\<close>

lemma link_layer_same:
  assumes "visited_ok v" and "visited_ok w"
    and "link_layer A K P m s n layer (g, v, es) = (h, v', es1)" and "link_layer A K P m s n layer (g, w, es) = (k, w', es2)"
  shows "h = k" and "es1 = es2" and "visited_ok v'" and "visited_ok w'"
proof -
  let ?S = "search_layer A K g s es layer (hp_ef_construction P)"
  obtain found v1 where sv: "?S v = (found, v1)" by fastforce
  with search_layer_same(1) [OF assms(1,2), of A K g s es layer "hp_ef_construction P"]
  obtain w1 where sw: "?S w = (found, w1)" by (cases "?S w") simp
  note ok = search_layer_same(2) [OF assms(1,1), of A K g s es layer "hp_ef_construction P"]
    search_layer_same(2) [OF assms(2,2), of A K g s es layer "hp_ef_construction P"]
  show "h = k" "es1 = es2" "visited_ok v'" "visited_ok w'"
    using assms(3,4) ok sv sw by (auto simp: link_layer_def Let_def)
qed

lemma link_layers_same:
  assumes "visited_ok v" and "visited_ok w"
    and "fold (link_layer A K P m s n) ls (g, v, es) = (h, v', es1)" and "fold (link_layer A K P m s n) ls (g, w, es) = (k, w', es2)"
  shows "h = k \<and> visited_ok v' \<and> visited_ok w'"
  using assms
proof (induction ls arbitrary: g v w es)
  case (Cons l ls)
  obtain h1 v1 e1 where a: "link_layer A K P m s n l (g, v, es) = (h1, v1, e1)" by (metis prod_cases3)
  obtain k1 w1 e2 where b: "link_layer A K P m s n l (g, w, es) = (k1, w1, e2)" by (metis prod_cases3)
  note o = link_layer_same [OF Cons.prems(1,2) a b]
  show ?case using Cons.IH [OF o(3,4), of h1 e1] Cons.prems(3,4) a b o(1,2) by simp
qed simp

lemma insert_same:
  assumes "visited_ok v" and "visited_ok w"
    and "hnsw_insert A K P m n (g, v) = (h, v')" and "hnsw_insert A K P m n (g, w) = (k, w')"
  shows "h = k \<and> visited_ok v' \<and> visited_ok w'"
proof (cases "hg_entry g")
  case None
  with assms show ?thesis by (simp add: hnsw_insert_def)
next
  case (Some e)
  define s where "s = gscorer_new A K m (hg_vector g n)"
  let ?ls = "rev [0..<min (lvl g n) (lvl g e) + 1]" and ?c = "insert_start A K m g n e"
  obtain h1 v1 e1 where a: "fold (link_layer A K P m s n) ?ls (g, v, [?c]) = (h1, v1, e1)" by (metis prod_cases3)
  obtain k1 w1 e2 where b: "fold (link_layer A K P m s n) ?ls (g, w, [?c]) = (k1, w1, e2)" by (metis prod_cases3)
  from link_layers_same [OF assms(1,2) a b] assms(3,4) show ?thesis unfolding insert_entered [OF Some] s_def [symmetric] a b by auto
qed

lemma add_all_same:
  assumes "visited_ok v" and "visited_ok w"
  shows "fst (fold (hnsw_add A K L P m) rs (g, v)) = fst (fold (hnsw_add A K L P m) rs (g, w))
    \<and> visited_ok (snd (fold (hnsw_add A K L P m) rs (g, v)))"
  using assms
proof (induction rs arbitrary: g v w)
  case (Cons r rs)
  obtain row vector norm where r: "r = (row, vector, norm)" by (cases r)
  obtain n g1 where pn: "hg_push_node row vector norm (level_for L row P) g = (n, g1)" by fastforce
  obtain h v1 where a: "hnsw_insert A K P m n (g1, v) = (h, v1)" by fastforce
  obtain k w1 where b: "hnsw_insert A K P m n (g1, w) = (k, w1)" by fastforce
  from insert_same [OF Cons.prems a b] Cons.IH [of v1 w1 h] show ?case by (simp add: hnsw_add_def r pn a b)
qed simp

lemma extend_built:
  "hnsw_extend A K L later m P (build_from A K L rows dimension m P) = build_from A K L (rows @ later) dimension m P"
proof -
  let ?g = "hg_default\<lparr>hg_dimension := dimension, hg_metric := Some m\<rparr>"
  obtain g v where b: "fold (hnsw_add A K L P m) rows (?g, visited_default) = (g, v)" by fastforce
  from add_all_same [OF visited_ok_default visited_ok_default, of A K L P m rows ?g] b have "visited_ok v" by simp
  from add_all_same [OF visited_ok_default this, of A K L P m later g] show ?thesis
    by (simp add: hnsw_extend_def build_from_def b)
qed

end
