(* ===== verification/Hnsw_Restore.thy ===== *)
theory Hnsw_Restore
  imports Hnsw_Snapshot Hnsw_Insert
begin

text \<open>
  Restoring: the snapshot of a well-formed graph decodes to the graph.
\<close>

subsection \<open>Readers\<close>

text \<open>The reader \<open>f\<close> reads \<open>x\<close> off the bytes \<open>b\<close> and stops behind them.\<close>

definition reads :: "(snap_cursor \<Rightarrow> ('x \<times> snap_cursor) option) \<Rightarrow> 'x \<Rightarrow> bytes \<Rightarrow> bool" where
  "reads f x b \<longleftrightarrow> (\<forall>bs at rest. drop at bs = b @ rest \<longrightarrow> at \<le> length bs \<longrightarrow> f (bs, at) = Some (x, (bs, at + length b)))"

lemma drop_behind: "drop at bs = b @ rest \<Longrightarrow> at \<le> length bs \<Longrightarrow> drop (at + length b) bs = rest \<and> at + length b \<le> length bs"
proof -
  assume a: "drop at bs = b @ rest" "at \<le> length bs"
  have "drop (at + length b) bs = drop (length b) (drop at bs)" by (simp add: add.commute)
  moreover have "length bs - at = length b + length rest" using arg_cong [OF a(1), of length] by simp
  ultimately show ?thesis using a by auto
qed

lemma reads_word: "LENGTH('a) = 8 * n \<Longrightarrow> reads (sc_word n) (w :: 'a::len word) (to_le n w)"
  unfolding reads_def
proof (intro allI impI)
  fix bs "at" rest assume a: "LENGTH('a) = 8 * n" "drop at bs = to_le n w @ rest" "at \<le> length bs"
  from drop_behind [OF a(2,3)] have "at + n \<le> length bs" by simp
  with a show "sc_word n (bs, at) = Some (w, (bs, at + length (to_le n w)))"
    by (simp add: sc_word_def sc_take_def slice_def from_le_to_le)
qed

lemma reads_take: "reads (sc_take (length b)) b b"
  unfolding reads_def
proof (intro allI impI)
  fix bs "at" rest assume a: "drop at bs = b @ rest" "at \<le> length bs"
  from drop_behind [OF a] a show "sc_take (length b) (bs, at) = Some (b, (bs, at + length b))"
    by (simp add: sc_take_def slice_def)
qed

lemma reads_bind:
  assumes "reads f x b" and "reads (g x) y b'"
  shows "reads (\<lambda>c. Option.bind (f c) (\<lambda>(x, c). g x c)) y (b @ b')"
  unfolding reads_def
proof (intro allI impI)
  fix bs "at" rest assume a: "drop at bs = (b @ b') @ rest" "at \<le> length bs"
  then have "drop at bs = b @ b' @ rest" by simp
  from drop_behind [OF this a(2)] assms(1,2) this a(2)
  show "Option.bind (f (bs, at)) (\<lambda>(x, c). g x c) = Some (y, (bs, at + length (b @ b')))"
    unfolding reads_def by (simp add: add.assoc)
qed

lemma reads_return: "reads (\<lambda>c. Some (x, c)) x []"
  by (simp add: reads_def)

lemma reads_cong: "reads f x b \<Longrightarrow> f = g \<Longrightarrow> b = b' \<Longrightarrow> reads g x b'"
  by simp

subsection \<open>The body\<close>

lemma reads_list:
  assumes "\<forall>n \<in> set ns. unat n < nodes"
  shows "reads (decode_list nodes (length ns)) ns (concat (map (to_le 4) ns))"
  using assms
proof (induction ns)
  case Nil
  then show ?case by (simp add: reads_def)
next
  case (Cons n ns)
  have g: "reads (\<lambda>c. if unat n \<ge> nodes then None else Option.bind (decode_list nodes (length ns) c) (\<lambda>(ns, c). Some (n # ns, c)))
      (n # ns) (concat (map (to_le 4) ns))"
    using reads_bind [where g = "\<lambda>ns c. Some (n # ns, c)" and y = "n # ns", OF Cons.IH reads_return] Cons.prems by simp
  show ?case
    by (rule reads_cong [OF reads_bind [where g = "\<lambda>n c. if unat n \<ge> nodes then None else Option.bind (decode_list nodes (length ns) c) (\<lambda>(ns, c). Some (n # ns, c))",
          OF reads_word [of 4 n] g]]) auto
qed

lemma reads_layer:
  assumes "\<forall>ns \<in> set layer. length ns \<le> nodes \<and> (\<forall>n \<in> set ns. unat n < nodes)" and "nodes < 2 ^ 32"
  shows "reads (decode_layer nodes (length layer)) layer (concat (map list_bytes layer))"
  using assms(1)
proof (induction layer)
  case Nil
  then show ?case by (simp add: reads_def)
next
  case (Cons ns layer)
  let ?rest = "\<lambda>ns c. Option.bind (decode_layer nodes (length layer) c) (\<lambda>(layer, c). Some (ns # layer, c))"
  let ?g = "\<lambda>count c. if unat (count :: u32) > nodes then None else Option.bind (decode_list nodes (unat count) c) (\<lambda>(ns, c). ?rest ns c)"
  have small: "unat (u32_of (length ns)) = length ns" using Cons.prems assms(2) by (simp add: u32_of_def unat_of_nat)
  have "reads (?rest ns) (ns # layer) (concat (map list_bytes layer))"
    using reads_bind [where g = "\<lambda>layer c. Some (ns # layer, c)" and y = "ns # layer", OF Cons.IH reads_return] Cons.prems by simp
  from reads_bind [where g = ?rest, OF reads_list this] Cons.prems small
  have g: "reads (?g (u32_of (length ns))) (ns # layer) (concat (map (to_le 4) ns) @ concat (map list_bytes layer))" by simp
  show ?case
    by (rule reads_cong [OF reads_bind [where g = ?g, OF reads_word [of 4 "u32_of (length ns)"] g]]) (auto simp: list_bytes_def [abs_def])
qed

lemma reads_layers:
  assumes "\<forall>layer \<in> set layers. length layer = nodes \<and> (\<forall>ns \<in> set layer. length ns \<le> nodes \<and> (\<forall>n \<in> set ns. unat n < nodes))"
    and "nodes < 2 ^ 32"
  shows "reads (decode_layers nodes (length layers)) layers (concat (map (\<lambda>layer. concat (map list_bytes layer)) layers))"
  using assms(1)
proof (induction layers)
  case Nil
  then show ?case by (simp add: reads_def)
next
  case (Cons layer layers)
  let ?g = "\<lambda>layer c. Option.bind (decode_layers nodes (length layers) c) (\<lambda>(layers, c). Some (layer # layers, c))"
  have g: "reads (?g layer) (layer # layers) (concat (map (\<lambda>layer. concat (map list_bytes layer)) layers))"
    using reads_bind [where g = "\<lambda>layers c. Some (layer # layers, c)" and y = "layer # layers", OF Cons.IH reads_return] Cons.prems by simp
  have "reads (decode_layer nodes nodes) layer (concat (map list_bytes layer))"
    using reads_layer [of layer nodes] Cons.prems assms(2) by simp
  from reads_bind [where g = ?g, OF this g] show ?case by (simp add: reads_def)
qed

lemma reads_ids:
  assumes "\<forall>r \<in> set rows. length (fst (snd r)) = dimension"
  shows "reads (\<lambda>c. decode_ids dimension rows (g, c))
     (g\<lparr>hg_rows := hg_rows g @ map fst rows, hg_vectors := hg_vectors g @ concat (map (fst \<circ> snd) rows),
        hg_inv_norms := hg_inv_norms g @ map (snd \<circ> snd) rows\<rparr>) (concat (map (to_le 8 \<circ> fst) rows))"
  using assms
proof (induction rows arbitrary: g)
  case Nil
  then show ?case by (simp add: reads_def)
next
  case (Cons r rows)
  obtain row vector norm where r: "r = (row, vector, norm)" by (cases r)
  let ?g = "g\<lparr>hg_rows := hg_rows g @ [row], hg_vectors := hg_vectors g @ vector, hg_inv_norms := hg_inv_norms g @ [norm]\<rparr>"
  let ?k = "\<lambda>have c. if have \<noteq> row then None else if length vector \<noteq> dimension then None else decode_ids dimension rows (?g, c)"
  from Cons.IH [of ?g] Cons.prems have "reads (?k row) (g\<lparr>hg_rows := hg_rows g @ map fst (r # rows),
      hg_vectors := hg_vectors g @ concat (map (fst \<circ> snd) (r # rows)), hg_inv_norms := hg_inv_norms g @ map (snd \<circ> snd) (r # rows)\<rparr>)
      (concat (map (to_le 8 \<circ> fst) rows))" by (simp add: r o_def)
  from reads_bind [where g = ?k, OF reads_word [of 8 row] this] show ?case by (simp add: r o_def)
qed

subsection \<open>The header\<close>

lemma header_length: "length (snapshot_header g P) = 41"
  by (simp add: snapshot_header_def split: option.split)

lemma snap_metric_code_from: "snap_metric_from (snap_metric_code (Some m)) = Some m"
  by (cases m) (simp_all add: snap_metric_from_def snap_metric_code_def)

lemma word_at:
  "drop i bs = to_le k x @ rest \<Longrightarrow> i \<le> length bs \<Longrightarrow> LENGTH('a) = 8 * k \<Longrightarrow> sc_word k (bs, i) = Some (x, (bs, i + k))"
  for x :: "'a::len word"
  using reads_word [of k x] unfolding reads_def by simp

lemma decode_header_at:
  assumes "hg_metric g = Some m" and "hg_dimension g < 2 ^ 32" and "hp_m P < 2 ^ 32" and "hp_ef_construction P < 2 ^ 32"
    and "hg_len g < 2 ^ 32" and "length (hg_layers g) \<le> MAX_LEVEL + 1"
    and "\<forall>e. hg_entry g = Some e \<longrightarrow> unat e < hg_len g" and "hg_len g * MIN_BYTES_PER_NODE \<le> length (snapshot_header g P @ body)"
  shows "decode_header (snapshot_header g P @ body) P = Some \<lparr>sh_metric = m, sh_dimension = hg_dimension g, sh_nodes = hg_len g,
     sh_layers = length (hg_layers g), sh_entry = hg_entry g, sh_params_match = True, sh_body = 41\<rparr>"
proof -
  have small: "unat (u32_of n) = n" if "n < 2 ^ 32" for n using that by (simp add: u32_of_def unat_of_nat)
  have ly: "length (hg_layers g) < 2 ^ 32" using assms(6) by (simp add: MAX_LEVEL_def)
  define flag :: u8 where "flag = (if hg_entry g = None then 0 else 1)"
  define held :: u32 where "held = (case hg_entry g of Some e \<Rightarrow> e | None \<Rightarrow> 0)"
  let ?bs = "snapshot_header g P @ body"
  have one: "to_le (Suc 0) flag = [flag]" by simp
  have bs: "?bs = to_le 4 SNAPSHOT_MAGIC @ to_le 2 SNAPSHOT_VERSION @ to_le 2 (snap_metric_code (Some m)) @ to_le 4 (u32_of (hg_dimension g))
     @ to_le 4 (u32_of (hp_m P)) @ to_le 4 (u32_of (hp_ef_construction P)) @ to_le 8 (hp_seed P)
     @ to_le 4 (u32_of (hg_len g)) @ to_le 4 (u32_of (length (hg_layers g))) @ to_le 1 flag @ to_le 4 held @ body"
    by (simp add: snapshot_header_def assms(1) flag_def held_def del: to_le.simps(2) split: option.split) (simp add: one [unfolded flag_def])
  have entry: "(if flag = 0 then Some None else if flag = 1 \<and> unat held < hg_len g then Some (Some held) else None) = Some (hg_entry g)"
    using assms(7) by (auto simp: flag_def held_def split: option.split)
  note w = word_at [where bs = ?bs]
  have f: "sc_word 4 (?bs, 0) = Some (SNAPSHOT_MAGIC, (?bs, 4))" "sc_word 2 (?bs, 4) = Some (SNAPSHOT_VERSION, (?bs, 6))"
    "sc_word 2 (?bs, 6) = Some (snap_metric_code (Some m), (?bs, 8))" "sc_word 4 (?bs, 8) = Some (u32_of (hg_dimension g), (?bs, 12))"
    "sc_word 4 (?bs, 12) = Some (u32_of (hp_m P), (?bs, 16))" "sc_word 4 (?bs, 16) = Some (u32_of (hp_ef_construction P), (?bs, 20))"
    "sc_word 8 (?bs, 20) = Some (hp_seed P, (?bs, 28))" "sc_word 4 (?bs, 28) = Some (u32_of (hg_len g), (?bs, 32))"
    "sc_word 4 (?bs, 32) = Some (u32_of (length (hg_layers g)), (?bs, 36))" "sc_word 1 (?bs, 36) = Some (flag, (?bs, 37))"
    "sc_word 4 (?bs, 37) = Some (held, (?bs, 41))"
    using w [where k = 4 and i = 0 and x = SNAPSHOT_MAGIC] w [where k = 2 and i = 4 and x = SNAPSHOT_VERSION] w [where k = 2 and i = 6 and x = "snap_metric_code (Some m)"]
      w [where k = 4 and i = 8 and x = "u32_of (hg_dimension g)"] w [where k = 4 and i = 12 and x = "u32_of (hp_m P)"]
      w [where k = 4 and i = 16 and x = "u32_of (hp_ef_construction P)"] w [where k = 8 and i = 20 and x = "hp_seed P"]
      w [where k = 4 and i = 28 and x = "u32_of (hg_len g)"] w [where k = 4 and i = 32 and x = "u32_of (length (hg_layers g))"]
      w [where k = 1 and i = 36 and x = flag] w [where k = 4 and i = 37 and x = held]
    unfolding bs by (simp_all del: to_le.simps)
  show ?thesis
    using assms(2-6,8) ly small snap_metric_code_from [of m] entry f by (auto simp: decode_header_def split: if_splits)
qed

subsection \<open>The snapshot\<close>

lemma snapshot_decode_body:
  assumes "hg_wf P g" and "hg_holds g rows" and "\<forall>r \<in> set rows. length (fst (snd r)) = hg_dimension g" and "hg_metric g = Some m"
    and "length pre = 41"
  shows "snapshot_decode (pre @ concat (map (to_le 8) (hg_rows g)) @ hg_levels g
       @ concat (map (\<lambda>layer. concat (map list_bytes layer)) (hg_layers g)))
     \<lparr>sh_metric = m, sh_dimension = hg_dimension g, sh_nodes = hg_len g, sh_layers = length (hg_layers g), sh_entry = hg_entry g,
       sh_params_match = b, sh_body = 41\<rparr> rows = Some g"
proof -
  from assms(1) have ar: "hg_len g < 2 ^ 32" "length (hg_levels g) = hg_len g" "\<forall>l \<in> set (hg_layers g). length l = hg_len g"
    and ed: "hg_edges g" and en: "hg_entered g" by (auto simp: hg_wf_def hg_arrays_def)
  have len: "length rows = hg_len g" using arg_cong [OF conjunct1 [OF assms(2) [unfolded hg_holds_def]], of length] by (simp add: hg_len_def)
  have ns: "length ns \<le> hg_len g \<and> (\<forall>n \<in> set ns. unat n < hg_len g)" if "layer \<in> set (hg_layers g)" "ns \<in> set layer" for layer ns
  proof -
    from that(1) obtain i where i: "i < length (hg_layers g)" "hg_layers g ! i = layer" unfolding in_set_conv_nth by blast
    from that(2) obtain j where j: "j < length layer" "layer ! j = ns" unfolding in_set_conv_nth by blast
    have jl: "j < hg_len g" using j(1) ar(3) that(1) by simp
    have "unat (of_nat j :: node) = j" using jl ar(1) by (simp add: unat_of_nat)
    then have "hg_neighbours g i (of_nat j) = ns" using i j ar(3) that(1) by (simp add: hg_neighbours_def)
    then have d: "distinct ns" "\<forall>n \<in> set ns. unat n < hg_len g" using ed unfolding hg_edges_def by metis+
    have "length ns = card (unat ` set ns)" using distinct_card [OF d(1)] card_image [of unat "set ns"] by (simp add: inj_on_def word_unat_eq_iff)
    also have "\<dots> \<le> card {..<hg_len g}" using d(2) by (intro card_mono) auto
    finally show ?thesis using d(2) by simp
  qed
  let ?ids = "concat (map (to_le 8) (hg_rows g)) :: bytes" and ?lay = "concat (map (\<lambda>layer. concat (map list_bytes layer)) (hg_layers g))"
  let ?bs = "pre @ ?ids @ hg_levels g @ ?lay"
  let ?g0 = "hg_default\<lparr>hg_dimension := hg_dimension g, hg_metric := Some m, hg_entry := hg_entry g\<rparr>"
  let ?g1 = "?g0\<lparr>hg_rows := hg_rows g, hg_vectors := hg_vectors g, hg_inv_norms := hg_inv_norms g\<rparr>"
  have ids: "?ids = concat (map (to_le 8 \<circ> fst) rows)" using assms(2) by (simp add: hg_holds_def)
  have "sc_take 41 (?bs, 0) = Some (pre, (?bs, 41))" using assms(5) by (simp add: sc_take_def slice_def)
  moreover have "decode_ids (hg_dimension g) rows (?g0, (?bs, 41)) = Some (?g1, (?bs, 41 + length ?ids))"
    using reads_ids [OF assms(3), of ?g0] assms(2,5) unfolding reads_def ids [symmetric] hg_holds_def by (simp add: hg_default_def)
  moreover have "sc_take (hg_len g) (?bs, 41 + length ?ids) = Some (hg_levels g, (?bs, 41 + length ?ids + hg_len g))"
    using reads_take [of "hg_levels g"] assms(5) ar(2) unfolding reads_def by simp
  moreover have "reads (decode_layers (hg_len g) (length (hg_layers g))) (hg_layers g) ?lay"
    by (rule reads_layers) (use ns ar in auto)
  then have "decode_layers (hg_len g) (length (hg_layers g)) (?bs, 41 + length ?ids + hg_len g) = Some (hg_layers g, (?bs, length ?bs))"
    using assms(5) ar(2) unfolding reads_def by simp
  moreover have "(hg_entry g \<noteq> None) = (hg_len g > 0)" using en by (auto simp: hg_entered_def split: option.splits)
  moreover have "\<not> list_ex (\<lambda>l. length l \<noteq> hg_len g) (hg_layers g)" using ar(3) by (auto simp: list_ex_iff)
  moreover have "?g1\<lparr>hg_levels := hg_levels g, hg_layers := hg_layers g\<rparr> = g" using assms(4) by (cases g) (simp add: hg_default_def)
  ultimately show ?thesis using len ar(2) by (simp add: snapshot_decode_def Let_def)
qed

end
