(* ===== verification/Hnsw_Spec.thy ===== *)
theory Hnsw_Spec
  imports Hnsw_Search Hnsw_Restore
begin

text \<open>
  What the approximate index promises: the graph it builds is well formed, preparing for a source gives the
  graph a build from scratch gives, a layer's search and a query return what they should, and where a graph
  can be stale.
\<close>

subsection \<open>The rows of a source\<close>

definition rows_decoded :: "vector_source \<Rightarrow> decoded_row list" where
  "rows_decoded src = map (\<lambda>(row, bs, norm). (row, decode_row (unat (vs_dimension src)) bs, norm)) (vs_rows src)"

lemma decode_rows_eq: "decode_rows src s = (Inr (rows_decoded src), s)"
proof -
  let ?f = "\<lambda>(row, bs, norm). (row, decode_row (unat (vs_dimension src)) bs, norm)"
  have "io_fold (\<lambda>(row, bs, norm) out. io_ok (out @ [(row, decode_row (unat (vs_dimension src)) bs, norm)])) rs out s = (Inr (out @ map ?f rs), s)"
    for rs :: "visited_row list" and out
    by (induction rs arbitrary: out) (auto simp: split_beta)
  from this [of "vs_rows src" "[]"] show ?thesis by (simp add: decode_rows_def vs_for_each_def rows_decoded_def)
qed

lemma rows_decoded_simps [simp]: "length (rows_decoded src) = length (vs_rows src)"
  "r \<in> set (rows_decoded src) \<Longrightarrow> length (fst (snd r)) = unat (vs_dimension src)"
  by (auto simp: rows_decoded_def decode_row_def split_beta)

subsection \<open>Built graphs\<close>

lemma build_ok:
  assumes "\<forall>r \<in> set rows. length (fst (snd r)) = dimension" and "length rows < 2 ^ 32" and "g = build_from A K L rows dimension m P"
  shows "hg_wf P g" and "hg_holds g rows" and "hg_dimension g = dimension" and "hg_metric g = Some m" and "hg_len g = length rows"
proof -
  let ?g = "hg_default\<lparr>hg_dimension := dimension, hg_metric := Some m\<rparr>"
  obtain h w where f: "fold (hnsw_add A K L P m) rows (?g, visited_default) = (h, w)" by fastforce
  have "hg_holds ?g []" by (simp add: hg_holds_def hg_default_def)
  from add_all_ok [OF hg_wf_default visited_ok_default _ _ this f] assms(1,2)
  have "hg_wf P h \<and> hg_dimension h = dimension \<and> hg_metric h = Some m \<and> hg_holds h rows" by (simp add: hg_len_def hg_default_def)
  moreover have "g = h" by (simp add: assms(3) build_from_def f)
  ultimately show "hg_wf P g" "hg_holds g rows" "hg_dimension g = dimension" "hg_metric g = Some m" by blast+
  then show "hg_len g = length rows" by (simp add: hg_holds_def hg_len_def)
qed

subsection \<open>Restoring\<close>

lemma snapshot_long: "hg_wf P g \<Longrightarrow> hg_len g * MIN_BYTES_PER_NODE \<le> length (snapshot_encode g P)"
proof -
  assume wf: "hg_wf P g"
  have ids: "length (concat (map (to_le 8) xs)) = 8 * length xs" for xs :: "row_id list" by (induction xs) simp_all
  have one: "length layer \<le> length (concat (map list_bytes layer))" for layer
    by (induction layer) (simp_all add: list_bytes_def)
  have "hg_len g \<le> length (concat (map (\<lambda>layer. concat (map list_bytes layer)) (hg_layers g)))"
  proof (cases "hg_layers g")
    case Nil
    then show ?thesis using wf by (auto simp: hg_wf_def hg_entered_def split: option.splits)
  next
    case (Cons l ls)
    with wf have "length l = hg_len g" by (simp add: hg_wf_def hg_arrays_def)
    with one [of l] Cons show ?thesis by simp
  qed
  moreover have "length (hg_levels g) = hg_len g" "length (hg_rows g) = hg_len g" using wf by (simp_all add: hg_wf_def hg_arrays_def hg_len_def)
  ultimately show ?thesis by (simp add: snapshot_encode_def ids MIN_BYTES_PER_NODE_def)
qed

lemma layers_bounded: "hg_wf P g \<Longrightarrow> length (hg_layers g) \<le> MAX_LEVEL + 1"
  by (auto simp: hg_wf_def hg_entered_def hg_arrays_def lvl_def split: option.splits)

lemma snapshot_header_of:
  assumes "hg_wf P g" and "hg_metric g = Some m" and "hg_dimension g < 2 ^ 32" and "hp_m P < 2 ^ 32" and "hp_ef_construction P < 2 ^ 32"
  shows "decode_header (snapshot_encode g P) P = Some \<lparr>sh_metric = m, sh_dimension = hg_dimension g, sh_nodes = hg_len g,
     sh_layers = length (hg_layers g), sh_entry = hg_entry g, sh_params_match = True, sh_body = 41\<rparr>"
  unfolding snapshot_encode_def
proof (rule decode_header_at [OF assms(2-5)])
  show "hg_len g < 2 ^ 32" using assms(1) by (simp add: hg_wf_def hg_arrays_def)
  show "length (hg_layers g) \<le> MAX_LEVEL + 1" by (rule layers_bounded [OF assms(1)])
  show "\<forall>e. hg_entry g = Some e \<longrightarrow> unat e < hg_len g" using assms(1) by (auto simp: hg_wf_def hg_entered_def)
  show "hg_len g * MIN_BYTES_PER_NODE \<le> length (snapshot_header g P @ concat (map (to_le 8) (hg_rows g)) @ hg_levels g @
      concat (map (\<lambda>layer. concat (map list_bytes layer)) (hg_layers g)))"
    using snapshot_long [OF assms(1)] by (simp add: snapshot_encode_def)
qed

lemma ids_checked:
  assumes "decode_ids dimension rows (g, (bs, at)) = Some r" and "drop at bs = concat (map (to_le 8) ids) @ rest" and "at \<le> length bs"
    and "length ids = length rows"
  shows "map fst rows = ids"
  using assms
proof (induction rows arbitrary: g "at" ids)
  case (Cons row rows)
  then obtain i ks where ids: "ids = i # ks" by (cases ids) auto
  obtain k v n where row: "row = (k, v, n)" by (cases row)
  have d: "drop at bs = to_le 8 i @ concat (map (to_le 8) ks) @ rest" using Cons.prems(2) by (simp add: ids)
  from word_at [OF d Cons.prems(3)] have "sc_word 8 (bs, at) = Some (i, (bs, at + 8))" by simp
  with Cons.prems(1) have k: "k = i" and "\<exists>g. decode_ids dimension rows (g, (bs, at + 8)) = Some r"
    by (auto simp: row split: if_splits)
  then obtain g' where g': "decode_ids dimension rows (g', (bs, at + 8)) = Some r" by blast
  from drop_behind [OF d Cons.prems(3)] have b: "drop (at + 8) bs = concat (map (to_le 8) ks) @ rest" "at + 8 \<le> length bs" by simp_all
  from Cons.IH [OF g' b] Cons.prems(4) k show ?case by (simp add: ids row)
qed simp

text \<open>What is stored of a well-formed graph is restored to it, for its own rows, and for no rows with other ids.\<close>

lemma snapshot_restores:
  assumes "hg_wf P g" and "hg_holds g rows" and "\<forall>r \<in> set rows. length (fst (snd r)) = hg_dimension g" and "hg_metric g = Some m"
    and "hg_dimension g < 2 ^ 32" and "hp_m P < 2 ^ 32" and "hp_ef_construction P < 2 ^ 32"
  shows "restored_graph P (length rows) (hg_dimension g) m rows (Some (snapshot_encode g P)) = Some g"
    and "restored_graph P n dimension m' rows' (Some (snapshot_encode g P)) \<noteq> None
      \<Longrightarrow> n = length rows \<and> dimension = hg_dimension g \<and> m' = m \<and> map fst rows' = map fst rows"
proof -
  note h = snapshot_header_of [OF assms(1,4-7)]
  have len: "length rows = hg_len g" using assms(2) by (simp add: hg_holds_def hg_len_def)
  have "snapshot_decode (snapshot_encode g P) \<lparr>sh_metric = m, sh_dimension = hg_dimension g, sh_nodes = hg_len g,
      sh_layers = length (hg_layers g), sh_entry = hg_entry g, sh_params_match = True, sh_body = 41\<rparr> rows = Some g"
    unfolding snapshot_encode_def by (rule snapshot_decode_body [OF assms(1-4) header_length])
  with h len show "restored_graph P (length rows) (hg_dimension g) m rows (Some (snapshot_encode g P)) = Some g"
    by (simp add: restored_graph_def)
  assume r: "restored_graph P n dimension m' rows' (Some (snapshot_encode g P)) \<noteq> None"
  with h have n: "m' = m" "dimension = hg_dimension g" "n = hg_len g" by (auto simp: restored_graph_def split: if_splits)
  from r h obtain x where "snapshot_decode (snapshot_encode g P) \<lparr>sh_metric = m, sh_dimension = hg_dimension g, sh_nodes = hg_len g,
      sh_layers = length (hg_layers g), sh_entry = hg_entry g, sh_params_match = True, sh_body = 41\<rparr> rows' = Some x"
    by (auto simp: restored_graph_def split: if_splits)
  moreover have "sc_take 41 (snapshot_encode g P, 0) = Some (snapshot_header g P, (snapshot_encode g P, 41))"
    using header_length [of g P] by (simp add: sc_take_def slice_def snapshot_encode_def)
  ultimately have l: "hg_len g = length rows'" and "\<exists>g0 y. decode_ids (hg_dimension g) rows' (g0, (snapshot_encode g P, 41)) = Some y"
    by (auto simp: snapshot_decode_def Let_def bind_eq_Some_conv split: if_splits)
  then obtain g0 y where y: "decode_ids (hg_dimension g) rows' (g0, (snapshot_encode g P, 41)) = Some y" by blast
  have "map fst rows' = hg_rows g"
    by (rule ids_checked [OF y]) (use header_length [of g P] l in \<open>simp_all add: snapshot_encode_def hg_len_def\<close>)
  with n len show "n = length rows \<and> dimension = hg_dimension g \<and> m' = m \<and> map fst rows' = map fst rows"
    using assms(2) by (simp add: hg_holds_def)
qed

subsection \<open>Preparing\<close>

lemma store_ignored: "io_bind (io_catch (io_snd m)) (\<lambda>_. io_ok ()) (g, s) = (Inr (), (g, snd (m s)))"
  by (cases "m s") (simp add: io_bind_def io_catch_def io_snd_def)

lemma holds_prefix: "hg_holds g (take n rows) \<Longrightarrow> list_all (\<lambda>(have, (want, _, _)). have = want) (zip (hg_rows g) rows)"
proof -
  assume "hg_holds g (take n rows)"
  then have "hg_rows g = take n (map fst rows)" by (simp add: hg_holds_def take_map)
  then show ?thesis by (auto simp: list_all_length split_beta)
qed

lemma prepare_builds:
  assumes "vs_len src = length (vs_rows src)" and "length (vs_rows src) < 2 ^ 32"
    and "g = hg_default \<or> g = build_from A K L (take n (rows_decoded src)) (unat (vs_dimension src)) m P"
    and "sn_load sn s = (Inr loaded, s1)"
    and "restored_graph P (vs_len src) (unat (vs_dimension src)) m (rows_decoded src) loaded
      \<in> {None, Some (build_from A K L (rows_decoded src) (unat (vs_dimension src)) m P)}"
  shows "\<exists>s'. hnsw_prepare A K L P src m sn (g, s) = (Inr (), (build_from A K L (rows_decoded src) (unat (vs_dimension src)) m P, s'))"
proof -
  let ?d = "unat (vs_dimension src)" and ?rows = "rows_decoded src"
  let ?goal = "build_from A K L ?rows ?d m P"
  have whole: "hg_dimension ?goal = ?d" "hg_metric ?goal = Some m" "hg_len ?goal = length (vs_rows src)"
    using build_ok [of ?rows ?d ?goal A K L m P] assms(2) by simp_all
  have start: "\<not> hg_is_valid_for hg_default x y m" "hg_len hg_default = 0" "hg_metric hg_default = None" for x y
    by (simp_all add: hg_is_valid_for_def hg_default_def hg_len_def)
  have lens: "\<forall>r \<in> set (take n ?rows). length (fst (snd r)) = ?d" "length (take n ?rows) < 2 ^ 32"
    using assms(2) by (blast intro: rows_decoded_simps(2) dest: in_set_takeD, simp)
  have part: "hg_holds (build_from A K L (take n ?rows) ?d m P) (take n ?rows)" "hg_dimension (build_from A K L (take n ?rows) ?d m P) = ?d"
    "hg_metric (build_from A K L (take n ?rows) ?d m P) = Some m"
    "hg_len (build_from A K L (take n ?rows) ?d m P) = min (length (vs_rows src)) n"
    using build_ok [OF lens refl, where A = A and K = K and L = L and m = m and P = P] by simp_all
  have ld: "io_snd (sn_load sn) (g, s) = (Inr loaded, (g, s1))" for g :: hgraph using assms(4) by (simp add: io_snd_def)
  have bind: "hnsw_prepare A K L P src m sn (g, s)
    = (if hg_is_valid_for g (vs_len src) ?d m then (Inr (), (g, s))
       else case restored_graph P (vs_len src) ?d m ?rows loaded of
          Some graph \<Rightarrow> (Inr (), (install_graph (vs_len src) ?d m graph g, s1))
        | None \<Rightarrow>
            if hg_len g > 0 \<and> hg_is_prefix_of g ?rows ?d m
            then (Inr (), (hnsw_extend A K L (drop (hg_len g) ?rows) m P g, snd (sn_store sn (snapshot_encode (hnsw_extend A K L (drop (hg_len g) ?rows) m P g) P) s1)))
            else (Inr (), (install_graph (vs_len src) ?d m ?goal g, snd (sn_store sn (snapshot_encode ?goal P) s1))))"
    using ld by (simp add: hnsw_prepare_def Let_def store_ignored decode_rows_eq split: option.split)
  show ?thesis
  proof (cases "hg_is_valid_for g (vs_len src) ?d m")
    case True
    with start assms(3) have g: "g = build_from A K L (take n ?rows) ?d m P" by auto
    with True part(4) assms(1) have "length (vs_rows src) \<le> n" by (simp add: hg_is_valid_for_def min_def split: if_splits)
    then have "g = ?goal" using g by simp
    with bind True show ?thesis by simp
  next
    case False
    have inst: "install_graph (vs_len src) ?d m ?goal g = ?goal"
      using assms(3) False whole(3) part(4) by (auto simp: install_graph_def start)
    have ext: "hnsw_extend A K L (drop (hg_len g) ?rows) m P g = ?goal" if "hg_len g > 0"
    proof -
      have g: "g = build_from A K L (take n ?rows) ?d m P" using that assms(3) start by auto
      then have "take n ?rows @ drop (hg_len g) ?rows = ?rows" using part(4) by (cases "n \<le> length (vs_rows src)") simp_all
      with extend_built [of A K L "drop (hg_len g) ?rows" m P "take n ?rows" ?d] g show ?thesis by simp
    qed
    from assms(5) bind False inst ext show ?thesis by auto
  qed
qed

subsection \<open>Queries without a budget\<close>

definition unlimited :: "budget \<Rightarrow> bool" where
  "unlimited b \<longleftrightarrow> bd_max_scanned b = None \<and> \<not> bd_cancelled b"

lemma charge_unlimited:
  assumes "unlimited b"
  obtains b' where "bd_charge n b = (Inr (), b')" and "unlimited b'"
proof
  show "bd_charge n b = (Inr (), b\<lparr>bd_scanned := bd_scanned b + n\<rparr>)" "unlimited (b\<lparr>bd_scanned := bd_scanned b + n\<rparr>)"
    using assms by (simp_all add: bd_charge_def unlimited_def Let_def)
qed

lemma scan_fold_unlimited:
  assumes "\<forall>row. is_ok (ctx_admits ctx row)" and "unlimited b"
  shows "\<exists>since' b'. io_fold (scan_visit ctx score) rows since (b, t) = (Inr since', (b', offer_all (scored ctx score rows) t)) \<and> unlimited b'"
  using assms(2)
proof (induction rows arbitrary: since b t)
  case Nil
  then show ?case by (simp add: scored_def offer_all_def)
next
  case (Cons r rows)
  obtain row bs norm where r: "r = (row, bs, norm)" by (cases r)
  from assms(1) obtain yes where ad: "ctx_admits ctx row = Inr yes" by (metis is_okE)
  show ?case
  proof (cases yes)
    case False
    with Cons.IH [OF Cons.prems] ad show ?thesis by (simp add: r scan_visit_def scored_def)
  next
    case True
    let ?t = "fst (topk_offer row (score bs norm) t)"
    obtain b2 where b2: "bd_charge (since + 1) b = (Inr (), b2)" "unlimited b2" by (rule charge_unlimited [OF Cons.prems])
    obtain since1 b1 where st: "scan_visit ctx score r since (b, t) = (Inr since1, (b1, ?t))" and u: "unlimited b1"
      using ad True Cons.prems b2 by (cases "since + 1 \<ge> BUDGET_STRIDE") (auto simp: r scan_visit_def Let_def)
    from Cons.IH [OF u, of since1 ?t] st ad True show ?thesis by (simp add: r scored_def offer_all_def)
  qed
qed

lemma fallback_unlimited:
  assumes "\<forall>row. is_ok (ctx_admits ctx row)" and "unlimited b" and "0 < sc_top_k ctx"
  shows "\<exists>b'. hnsw_fallback A ctx (b, t)
     = (Inr (), (b', offer_all (scored ctx (score_bytes A (scorer_new A (sc_metric ctx) (sc_query ctx))) (vs_rows (sc_source ctx))) t))"
proof -
  let ?score = "score_bytes A (scorer_new A (sc_metric ctx) (sc_query ctx))"
  from scan_fold_unlimited [OF assms(1,2)] obtain since b1 where
    f: "io_fold (scan_visit ctx ?score) (vs_rows (sc_source ctx)) 0 (b, t)
      = (Inr since, (b1, offer_all (scored ctx ?score (vs_rows (sc_source ctx))) t))" "unlimited b1" by blast
  obtain b2 where "bd_charge since b1 = (Inr (), b2)" using charge_unlimited [OF f(2)] by blast
  with f assms(3) show ?thesis by (simp add: hnsw_fallback_def exact_search_def scan_search_def vs_for_each_def io_snd_def)
qed

lemma descend_unlimited:
  "unlimited b \<Longrightarrow> \<exists>x b'. descend_charged A K g s layer (cur, charged) b = (Inr x, b') \<and> unlimited b'"
proof (induction A K g s layer "(cur, charged)" b arbitrary: cur charged rule: descend_charged.induct)
  case (1 A K g s layer cur charged b)
  obtain cur' improved where p: "descend_pass A K g s layer cur = (cur', improved)" by fastforce
  let ?c = "charged + u64_of (length (hg_neighbours g layer (fst cur)))"
  obtain b1 where c: "bd_charge ?c b = (Inr (), b1)" "unlimited b1" using charge_unlimited [OF 1(3)] by blast
  show ?case
  proof (cases improved)
    case True
    with 1(1) [OF p [symmetric] refl _ c(1) [symmetric]] 1(2) [OF p [symmetric] refl] 1(3) c show ?thesis
      by (subst descend_charged.simps) (simp add: p Let_def)
  next
    case False
    with 1(3) c show ?thesis by (subst descend_charged.simps) (simp add: p Let_def)
  qed
qed

lemma descends_unlimited:
  "unlimited b \<Longrightarrow> \<exists>x b'. io_fold (descend_charged A K g s) layers cc b = (Inr x, b') \<and> unlimited b'"
proof (induction layers arbitrary: cc b)
  case (Cons layer layers)
  obtain x b1 where "descend_charged A K g s layer cc b = (Inr x, b1)" "unlimited b1"
    using descend_unlimited [OF Cons.prems, of A K g s layer "fst cc" "snd cc"] by auto
  with Cons.IH [of b1 x] show ?case by simp
qed simp

lemma admitted_rows_ok:
  assumes "\<forall>row. is_ok (ctx_admits ctx row)" and "\<forall>c \<in> set found. unat (hc_node c) < hg_len g"
  shows "admitted_rows ctx g found = Inr (map (\<lambda>c. (hg_rows g ! unat (hc_node c), hc_score c))
     (filter (\<lambda>c. ctx_admits ctx (hg_rows g ! unat (hc_node c)) = Inr True) found))"
proof -
  let ?f = "\<lambda>c admitted.
       if unat (hc_node c) < length (hg_rows g)
       then let row = hg_rows g ! unat (hc_node c) in
            rbind (ctx_admits ctx row) (\<lambda>yes. Inr (if yes then admitted @ [(row, hc_score c)] else admitted))
       else Inr admitted"
  have "try_fold ?f found out = Inr (out @ map (\<lambda>c. (hg_rows g ! unat (hc_node c), hc_score c))
     (filter (\<lambda>c. ctx_admits ctx (hg_rows g ! unat (hc_node c)) = Inr True) found))" for out
    using assms(2)
  proof (induction found arbitrary: out)
    case (Cons c found)
    from assms(1) obtain yes where "ctx_admits ctx (hg_rows g ! unat (hc_node c)) = Inr yes" by (metis is_okE)
    with Cons show ?case by (simp add: hg_len_def)
  qed simp
  from this [of "[]"] show ?thesis by (simp add: admitted_rows_def)
qed

text \<open>The candidate a node is offered as, and the nodes a query may return.\<close>

definition node_candidate :: "fops \<Rightarrow> kernels \<Rightarrow> hgraph \<Rightarrow> scorer \<Rightarrow> node \<Rightarrow> candidate" where
  "node_candidate A K g s n = \<lparr>c_row = hg_rows g ! unat n, c_score = node_score A K g s n\<rparr>"

definition admitted_nodes :: "search_ctx \<Rightarrow> hgraph \<Rightarrow> node set" where
  "admitted_nodes ctx g = {n. unat n < hg_len g \<and> ctx_admits ctx (hg_rows g ! unat n) = Inr True}"

lemma found_nodes:
  assumes "found = fst (search_layer A K g s entries layer ef visited_default)"
  shows "distinct (map hc_node found)" and "\<forall>c \<in> set found. unat (hc_node c) < hg_len g \<and> hc_score c = node_score A K g s (hc_node c)"
    and "\<not> length found < hg_len g \<Longrightarrow> hc_node ` set found = {n. unat n < hg_len g}"
proof -
  note so = search_layer_sound [OF visited_ok_default assms [symmetric]]
  show d: "distinct (map hc_node found)" by (rule so(1))
  show f: "\<forall>c \<in> set found. unat (hc_node c) < hg_len g \<and> hc_score c = node_score A K g s (hc_node c)"
    using so(2) by (metis scored_node_simps(2))
  assume "\<not> length found < hg_len g"
  moreover have "length found = card (hc_node ` set found)" using distinct_card [OF d] by simp
  moreover have "hc_node ` set found \<subseteq> {n. unat n < hg_len g}" using f by auto
  ultimately show "hc_node ` set found = {n. unat n < hg_len g}"
    using card_nodes [of "hg_len g"] by (intro card_seteq [OF finite_nodes]) auto
qed

lemma stored_restored:
  assumes "\<forall>r \<in> set ks. length (fst (snd r)) = d" and "length ks < 2 ^ 32" and "d < 2 ^ 32" and "hp_m P < 2 ^ 32" and "hp_ef_construction P < 2 ^ 32"
    and "loaded = Some (snapshot_encode (build_from A K L ks d m' P) P)" and "map fst ks = map fst rows \<Longrightarrow> ks = rows"
  shows "restored_graph P n dimension m rows loaded \<in> {None, Some (build_from A K L rows dimension m P)}"
proof (cases "restored_graph P n dimension m rows loaded = None")
  case False
  note b = build_ok [OF assms(1,2) refl, where A = A and K = K and L = L and m = m' and P = P]
  have len: "\<forall>r \<in> set ks. length (fst (snd r)) = hg_dimension (build_from A K L ks d m' P)" "hg_dimension (build_from A K L ks d m' P) < 2 ^ 32"
    using assms(1,3) b(3) by simp_all
  note sr = snapshot_restores [OF b(1,2) len(1) b(4) len(2) assms(4,5)]
  from False sr(2) [of n dimension m rows] assms(6) b(3) have "n = length ks" "dimension = d" "m = m'" "map fst rows = map fst ks" by simp_all
  moreover from this(4) assms(7) have "ks = rows" by simp
  ultimately show ?thesis using sr(1) b(3) assms(6) by simp
qed simp


subsection \<open>An example\<close>

text \<open>Integer arithmetic in place of floats, every row at level 0, and a graph of one node.\<close>

definition toy_ops :: fops where
  "toy_ops = \<lparr>fo_fpu = \<lparr>f_mul = \<lambda>x y. x * y, f_sum = sum_list, f_sqrt = \<lambda>x. x, f_recip = \<lambda>x. x\<rparr>,
     fo_add = \<lambda>x y. x + y, fo_sub = \<lambda>x y. x - y, fo_neg = \<lambda>x. x, fo_max = max, fo_fma = \<lambda>x y c. x * y + c\<rparr>"

definition toy_kernels :: kernels where
  "toy_kernels = \<lparr>kn_backend = Neon, kn_aligned = \<lambda>row. True\<rparr>"

definition toy_levels :: level_floats where
  "toy_levels = \<lparr>lf_div = \<lambda>x y. 0, lf_mul = \<lambda>x y. 0, lf_ln = \<lambda>x. 0, lf_floor = \<lambda>x. 0\<rparr>"

definition toy_source :: "u8 \<Rightarrow> vector_source" where
  "toy_source x = \<lparr>vs_dimension = 1, vs_len = 1, vs_rows = [(5, [x, 0, 0, 0], 0)], vs_vector = \<lambda>_. None\<rparr>"

definition toy_graph :: hgraph where
  "toy_graph = \<lparr>hg_rows = [5], hg_vectors = [1], hg_inv_norms = [0], hg_levels = [0], hg_layers = [[[]]], hg_entry = Some 0,
     hg_dimension = 1, hg_metric = Some Dot\<rparr>"

lemma toy_level: "level_for toy_levels row P = 0"
  by (simp add: level_for_def toy_levels_def Let_def f64_sixteen f64_clamp_def f64_partial_cmp_def f64_to_u8_def f64_is_nan_def f64_rank_def cmp_def)

lemma toy_built: "build_from toy_ops toy_kernels toy_levels [(5, [1], 0)] (Suc 0) Dot P = toy_graph"
  by (simp add: build_from_def hnsw_add_def hg_push_node_def hnsw_insert_def toy_level hg_default_def toy_graph_def)

definition toy_ctx :: "vector_source \<Rightarrow> search_ctx" where
  "toy_ctx src = \<lparr>sc_query = [3], sc_top_k = 1, sc_metric = Dot, sc_source = src, sc_live = all_live_set, sc_filter = None,
     sc_min_score = None, sc_params = params_default\<rparr>"

lemma toy_score: "node_score toy_ops toy_kernels toy_graph (gscorer_new toy_ops toy_kernels Dot [3]) 0 = 3"
  by (simp add: node_score_def gscore_def gscorer_new_def toy_graph_def hg_vector_def kernel_dot_f32_def toy_kernels_def dot_neon_def
    Let_def paired_loop.simps f32_ops_def toy_ops_def dot_tail_def horizontal_neon_def add_lanes_def fmul_def numeral_eq_Suc)

lemma toy_row: "decode_row (Suc 0) [x, 0, 0, 0] = [ucast x]" "f32s_of [x, 0, 0, 0] = [ucast x]" for x :: u8
  by (simp_all add: decode_row_def f32s_of.simps)

text \<open>Three nodes in a row.\<close>

definition toy_path :: hgraph where
  "toy_path = \<lparr>hg_rows = [5, 6, 7], hg_vectors = [1, 2, 3], hg_inv_norms = [0, 0, 0], hg_levels = [0, 0, 0],
     hg_layers = [[[1], [0, 2], [1]]], hg_entry = Some 0, hg_dimension = 1, hg_metric = Some Dot\<rparr>"

subsection \<open>Properties\<close>

text \<open>
  Property C26.  The graph is well formed.  Building over any rows of one dimension, whatever the scores and
  levels: the graph holds the rows in their order, a neighbour list has no node twice and not the node
  itself, only nodes that exist and reach up to the layer, and at most \<open>m\<close> of them, twice as many in layer 0; no
  level is above \<open>MAX_LEVEL\<close>, and the entry is a node of the greatest level.
\<close>

theorem hnsw_build_wf:
  assumes "\<forall>r \<in> set rows. length (fst (snd r)) = dimension" and "length rows < 2 ^ 32"
  shows "hg_wf P (build_from A K L rows dimension m P) \<and> hg_holds (build_from A K L rows dimension m P) rows"
  using build_ok [OF assms refl] by blast+

theorem hnsw_build_wf_witness:
  "hg_wf hp_default toy_graph \<and> hg_holds toy_graph [(5, [1], 0)]"
  using hnsw_build_wf [of "[(5, [1], 0)]" 1 hp_default toy_ops toy_kernels toy_levels Dot] by (simp add: toy_built)

text \<open>
  Property C24.  A query is never answered short in silence.  Without a budget, when no row's filter fails: the search
  succeeds, and its hits are the first \<open>k\<close>, by score and row and above the floor, of a list of candidates.  Either
  these are all admitted rows of the source, scored by the exact scan it falls back to, or they are distinct admitted
  nodes of the graph with the scores of their vectors, and then there are at least \<open>k\<close> of them or they are
  all the admitted nodes there are.
\<close>

theorem hnsw_search_never_short:
  assumes "\<forall>row. is_ok (ctx_admits ctx row)" and "bd_max_scanned b = None" and "\<not> bd_cancelled b" and "0 < sc_top_k ctx"
    and "t = with_min_score (sc_min_score ctx) (topk_new (sc_top_k ctx))"
  shows "\<exists>b' t' cs. hnsw_search A K P (Some g) ctx (b, t) = (Inr (), (b', t'))
     \<and> topk_into_sorted t' = take (sc_top_k ctx) (sort_key worst_key (filter (accepts (sc_min_score ctx)) cs))
     \<and> (cs = scored ctx (score_bytes A (scorer_new A (sc_metric ctx) (sc_query ctx))) (vs_rows (sc_source ctx))
       \<or> (\<exists>ns. distinct ns \<and> set ns \<subseteq> admitted_nodes ctx g
            \<and> cs = map (node_candidate A K g (gscorer_new A K (sc_metric ctx) (sc_query ctx))) ns
            \<and> (sc_top_k ctx \<le> length ns \<or> set ns = admitted_nodes ctx g)))"
proof -
  let ?s = "gscorer_new A K (sc_metric ctx) (sc_query ctx)" and ?exact = "scored ctx (score_bytes A (scorer_new A (sc_metric ctx) (sc_query ctx))) (vs_rows (sc_source ctx))"
  note tk = topk_run [of _ "sc_min_score ctx" "sc_top_k ctx", folded assms(5), unfolded Let_def, THEN conjunct1]
  have ub: "unlimited b" using assms(2,3) by (simp add: unlimited_def)
  have fb: ?thesis if u: "unlimited b0" and r: "hnsw_search A K P (Some g) ctx (b, t) = hnsw_fallback A ctx (b0, t)" for b0
  proof -
    obtain b' where "hnsw_fallback A ctx (b0, t) = (Inr (), (b', offer_all ?exact t))"
      using fallback_unlimited [OF assms(1) u assms(4)] by blast
    with r tk [of ?exact] show ?thesis by auto
  qed
  show ?thesis
  proof (cases "hg_len g \<noteq> vs_len (sc_source ctx) \<or> hg_len g = 0 \<or> hg_metric g \<noteq> Some (sc_metric ctx)
      \<or> hg_dimension g \<noteq> length (sc_query ctx) \<or> hg_entry g = None")
    case True
    then show ?thesis using assms(4) by (intro fb [OF ub]) (auto simp: hnsw_search_def)
  next
    case False
    then obtain entry where en: "hg_entry g = Some entry" by blast
    obtain current x charged b1 where ds: "io_fold (descend_charged A K g ?s) (rev [1..<length (hg_layers g)]) ((entry, node_score A K g ?s entry), 0) b
        = (Inr ((current, x), charged), b1)" "unlimited b1"
      using descends_unlimited [OF ub] by (metis surj_pair)
    define found where "found = fst (search_layer A K g ?s [current] 0 (search_width P ctx g) visited_default)"
    note fn = found_nodes [OF found_def]
    obtain b2 where b2: "bd_charge (charged + u64_of (length found)) b1 = (Inr (), b2)" "unlimited b2" by (rule charge_unlimited [OF ds(2)])
    define ns where "ns = filter (\<lambda>n. ctx_admits ctx (hg_rows g ! unat n) = Inr True) (map hc_node found)"
    let ?cs = "map (node_candidate A K g ?s) ns"
    have ad: "admitted_rows ctx g found = Inr (map (\<lambda>c. (c_row c, c_score c)) ?cs)"
    proof -
      have "map (\<lambda>c. (hg_rows g ! unat (hc_node c), hc_score c)) (filter (\<lambda>c. ctx_admits ctx (hg_rows g ! unat (hc_node c)) = Inr True) found)
          = map (\<lambda>c. (c_row c, c_score c)) ?cs"
        using fn(2) by (simp add: ns_def filter_map o_def node_candidate_def)
      with admitted_rows_ok [OF assms(1), of found g] fn(2) show ?thesis by simp
    qed
    have off: "fold (\<lambda>(row, score) t. fst (topk_offer row score t)) (map (\<lambda>c. (c_row c, c_score c)) cs) t = offer_all cs t" for cs t
      by (simp add: offer_all_def fold_map o_def)
    have run: "hnsw_search A K P (Some g) ctx (b, t) = (if length ns < sc_top_k ctx \<and> length found < hg_len g then hnsw_fallback A ctx (b2, t)
        else (Inr (), (b2, offer_all ?cs t)))"
      using False en ds(1) b2(1) ad assms(4) off by (simp add: hnsw_search_def Let_def found_def [symmetric] del: map_map)
    show ?thesis
    proof (cases "length ns < sc_top_k ctx \<and> length found < hg_len g")
      case True
      with run show ?thesis by (intro fb [OF b2(2)]) simp
    next
      case short: False
      have "distinct ns" "set ns \<subseteq> admitted_nodes ctx g" using fn(1,2) by (auto simp: ns_def admitted_nodes_def)
      moreover have "sc_top_k ctx \<le> length ns \<or> set ns = admitted_nodes ctx g"
      proof (cases "length found < hg_len g")
        case False
        from fn(3) [OF this] have "set ns = admitted_nodes ctx g" by (auto simp: ns_def admitted_nodes_def)
        then show ?thesis ..
      qed (use short in simp)
      ultimately show ?thesis using run short tk [of ?cs] by auto
    qed
  qed
qed

theorem hnsw_search_never_short_witness:
  "\<exists>b' t'. hnsw_search toy_ops toy_kernels hp_default (Some toy_graph) (toy_ctx (toy_source 1)) (bd_unlimited, with_min_score None (topk_new 1))
      = (Inr (), (b', t')) \<and> topk_into_sorted t' = [\<lparr>c_row = 5, c_score = 3\<rparr>]"
proof -
  let ?ctx = "toy_ctx (toy_source 1)" and ?t = "with_min_score None (topk_new 1)" and ?s = "gscorer_new toy_ops toy_kernels Dot [3]"
  have ad: "ctx_admits ?ctx row = Inr True" for row by (simp add: ctx_admits_def toy_ctx_def all_live_set_def)
  have c: "sc_top_k ?ctx = 1" "sc_min_score ?ctx = None" "sc_metric ?ctx = Dot" "sc_query ?ctx = [3]" "sc_source ?ctx = toy_source 1"
    by (simp_all add: toy_ctx_def)
  obtain b' t' cs where r: "hnsw_search toy_ops toy_kernels hp_default (Some toy_graph) ?ctx (bd_unlimited, ?t) = (Inr (), (b', t'))"
    "topk_into_sorted t' = take 1 (sort_key worst_key (filter (accepts None) cs))"
    "cs = scored ?ctx (score_bytes toy_ops (scorer_new toy_ops Dot [3])) (vs_rows (toy_source 1))
       \<or> (\<exists>ns. distinct ns \<and> set ns \<subseteq> admitted_nodes ?ctx toy_graph \<and> cs = map (node_candidate toy_ops toy_kernels toy_graph ?s) ns
            \<and> (1 \<le> length ns \<or> set ns = admitted_nodes ?ctx toy_graph))"
    using hnsw_search_never_short [of ?ctx bd_unlimited ?t toy_ops toy_kernels hp_default toy_graph] ad
    unfolding c by (auto simp: bd_unlimited_def)
  have an: "admitted_nodes ?ctx toy_graph = {0}" by (auto simp: admitted_nodes_def ad toy_graph_def hg_len_def word_unat_eq_iff)
  have "cs = [\<lparr>c_row = 5, c_score = 3\<rparr>]"
    using r(3)
  proof
    assume "cs = scored ?ctx (score_bytes toy_ops (scorer_new toy_ops Dot [3])) (vs_rows (toy_source 1))"
    moreover have "vs_rows (toy_source 1) = [(5, [1, 0, 0, 0], 0)]" by (simp add: toy_source_def)
    ultimately show ?thesis by (simp add: scored_def ad score_bytes_def scorer_new_def dot_bytes_def toy_ops_def fmul_def toy_row)
  next
    assume "\<exists>ns. distinct ns \<and> set ns \<subseteq> admitted_nodes ?ctx toy_graph \<and> cs = map (node_candidate toy_ops toy_kernels toy_graph ?s) ns
            \<and> (1 \<le> length ns \<or> set ns = admitted_nodes ?ctx toy_graph)"
    then obtain ns where ns: "distinct ns" "set ns \<subseteq> {0}" "cs = map (node_candidate toy_ops toy_kernels toy_graph ?s) ns" "ns \<noteq> []"
      unfolding an by fastforce
    then obtain n ms where "ns = n # ms" by (cases ns) auto
    with ns(1,2) have "ns = [0]" by (cases ms) auto
    with ns(3) show ?thesis by (simp add: node_candidate_def toy_score) (simp add: toy_graph_def)
  qed
  with r(1,2) show ?thesis by (simp add: accepts_def)
qed

text \<open>
  Property C25.  Preparing is building.  Let the index hold nothing yet, or the graph of any first rows of the source, and let
  the backend keep no snapshot, or one stored for any rows of which those with the ids of the source are the
  rows of the source.  Then preparing succeeds, whether it finds nothing to do, restores, extends or builds, and the index
  holds the graph that a build from scratch over the source makes.
\<close>

theorem hnsw_prepare_builds:
  assumes "vs_len src = length (vs_rows src)" and "length (vs_rows src) < 2 ^ 32"
    and "Q = hnsw_params_used P" and "hp_m Q < 2 ^ 32" and "hp_ef_construction Q < 2 ^ 32"
    and "g = hg_default \<or> g = build_from A K L (take n (rows_decoded src)) (unat (vs_dimension src)) m Q"
    and "sn_load sn s = (Inr loaded, s1)"
    and "loaded = None \<or> loaded = Some (snapshot_encode (build_from A K L ks d m' Q) Q)"
    and "\<forall>r \<in> set ks. length (fst (snd r)) = d" and "length ks < 2 ^ 32" and "d < 2 ^ 32"
    and "map fst ks = map fst (rows_decoded src) \<Longrightarrow> ks = rows_decoded src"
  shows "\<exists>s'. vi_prepare (hnsw_index A K L P) src m sn (g, s)
    = (Inr (), (build_from A K L (rows_decoded src) (unat (vs_dimension src)) m Q, s'))"
proof -
  have "restored_graph Q (vs_len src) (unat (vs_dimension src)) m (rows_decoded src) loaded
      \<in> {None, Some (build_from A K L (rows_decoded src) (unat (vs_dimension src)) m Q)}"
  proof (cases loaded)
    case None
    then show ?thesis by (simp add: restored_graph_def)
  next
    case (Some bs)
    with assms(8) show ?thesis by (intro stored_restored [OF assms(9-11,4,5) _ assms(12)]) simp_all
  qed
  from prepare_builds [OF assms(1,2,6,7) this] show ?thesis by (simp add: hnsw_index_def Let_def assms(3))
qed

theorem hnsw_prepare_builds_witness:
  "\<exists>s'. vi_prepare (hnsw_index toy_ops toy_kernels toy_levels hp_default) (toy_source 1) Dot
      \<lparr>sn_load = io_ok (Some (snapshot_encode toy_graph hp_default)), sn_store = \<lambda>_. io_ok ()\<rparr> (hg_default, ()) = (Inr (), (toy_graph, s'))"
proof -
  have d: "rows_decoded (toy_source 1) = [(5, [1], 0)]" "unat (vs_dimension (toy_source 1)) = 1"
    "vs_len (toy_source 1) = 1" "length (vs_rows (toy_source 1)) = 1"
    by (simp_all add: rows_decoded_def toy_source_def toy_row)
  have p: "hnsw_params_used hp_default = hp_default" "hp_m hp_default < 2 ^ 32" "hp_ef_construction hp_default < 2 ^ 32"
    by (simp_all add: hnsw_params_used_def hp_valid_def hp_default_def)
  show ?thesis
    using hnsw_prepare_builds [of "toy_source 1" hp_default hp_default hg_default toy_ops toy_kernels toy_levels 0 Dot
        "\<lparr>sn_load = io_ok (Some (snapshot_encode toy_graph hp_default)), sn_store = \<lambda>_. io_ok ()\<rparr>" "()"
        "Some (snapshot_encode toy_graph hp_default)" "()" "[(5, [1], 0)]" 1 Dot] p
    by (simp add: d toy_built)
qed

text \<open>
  Property C27.  The search of a layer.  Whatever the marks left by earlier traversals, also when their generation
  wraps around: the nodes found are distinct, reachable from the entries, scored by their vectors and, when no score
  is a NaN, ordered best first, and they are what fresh marks give.  When the beam is as wide as the graph, they are all the nodes
  reachable from the entries.
\<close>

theorem hnsw_layer_search:
  assumes "visited_ok v" and "search_layer A K g s entries layer ef v = (found, v')"
  shows "distinct (map hc_node found)
     \<and> ((\<forall>c \<in> set found. \<not> f32_is_nan (hc_score c)) \<longrightarrow> sorted_wrt (\<lambda>a b. cand_cmp b a \<noteq> Greater) found)
     \<and> (\<forall>c \<in> set found. c = scored_node A K g s (hc_node c) \<and> hc_node c \<in> reach g layer entries)
     \<and> (hg_len g \<le> ef \<longrightarrow> set found = scored_node A K g s ` reach g layer entries)
     \<and> found = fst (search_layer A K g s entries layer ef visited_default) \<and> visited_ok v'"
proof -
  have f: "fst (search_layer A K g s entries layer ef v) = found" by (simp add: assms(2))
  note so = search_layer_sound [OF assms(1) f]
  have "sorted_wrt (\<lambda>a b. cand_cmp b a \<noteq> Greater) found" if "\<forall>c \<in> set found. \<not> f32_is_nan (hc_score c)"
    using so(3) that by (auto simp: sorted_map cand_key_cmp(2) cmp_def elim!: sorted_wrt_mono_rel [rotated] split: if_splits)
  then show ?thesis
    using so(1,2) search_layer_full [OF assms(1) _ f]
      search_layer_same [OF assms(1) visited_ok_default, of A K g s entries layer ef] assms(2) by auto
qed

theorem hnsw_layer_search_witness:
  "\<exists>found v'. search_layer toy_ops toy_kernels toy_path (gscorer_new toy_ops toy_kernels Dot [3]) [0] 0 3 \<lparr>vi_stamp = [7, 7], vi_generation = - 1\<rparr>
      = (found, v') \<and> distinct (map hc_node found) \<and> {0, 1, 2} \<subseteq> hc_node ` set found"
proof -
  let ?s = "gscorer_new toy_ops toy_kernels Dot [3]" and ?v = "\<lparr>vi_stamp = [7, 7], vi_generation = - 1\<rparr>"
  obtain found v' where f: "search_layer toy_ops toy_kernels toy_path ?s [0] 0 3 ?v = (found, v')" by fastforce
  have "visited_ok ?v" by (simp add: visited_ok_def)
  note r = hnsw_layer_search [OF this f]
  have "(0 :: node) \<in> reach toy_path 0 [0]" by (rule reach.entry) (simp_all add: toy_path_def hg_len_def)
  moreover from this have "(1 :: node) \<in> reach toy_path 0 [0]" by (rule reach.step) (simp_all add: toy_path_def hg_len_def hg_neighbours_def)
  moreover from this have "(2 :: node) \<in> reach toy_path 0 [0]" by (rule reach.step) (simp_all add: toy_path_def hg_len_def hg_neighbours_def)
  ultimately have "{0, 1, 2} \<subseteq> hc_node ` (scored_node toy_ops toy_kernels toy_path ?s ` reach toy_path 0 [0])" by (simp add: image_image)
  moreover have "hg_len toy_path \<le> 3" by (simp add: toy_path_def hg_len_def)
  ultimately show ?thesis using r f by auto
qed



end
